(* ===== verification/Genode_Prelude.thy ===== *)
theory Genode_Prelude
  imports Main "HOL-Library.Word"
begin

text \<open>
  Shared vocabulary of the development: the machine integers of the framework on a
  64-bit target (\<open>addr_t\<close>, \<open>size_t\<close> and \<open>unsigned long\<close> have 64 bits, \<open>unsigned\<close> has 32),
  collections of rewrite rules that the component theories fill, and the few facts on
  lists and words that several components use.
\<close>

type_synonym addr = "64 word"
type_synonym size = "64 word"
type_synonym u32 = "32 word"

text \<open>
  Pointers into a byte buffer are modelled by the suffix of the buffer they point to, so
  that the empty list stands for the address just behind the buffer.  Reading there is a
  fault, which the string functions report as \<open>None\<close>.
\<close>

abbreviation NUL :: char where
  "NUL \<equiv> CHR 0x00"

named_theorems wf_intros \<open>introduction rules for well-formedness predicates\<close>
named_theorems abs_simps \<open>equations that move an abstraction function through an operation\<close>


section \<open>Words and their readings\<close>

lemma unat_add_no_wrap:
  fixes x y :: "'a::len word"
  shows "unat x + unat y < 2 ^ LENGTH('a) \<Longrightarrow> unat (x + y) = unat x + unat y"
  by (simp add: unat_word_ariths)

lemma unat_sub_no_wrap:
  fixes x y :: "'a::len word"
  shows "y \<le> x \<Longrightarrow> unat (x - y) = unat x - unat y"
  by (rule unat_sub)

lemma unat_mult_no_wrap:
  fixes x y :: "'a::len word"
  shows "unat x * unat y < 2 ^ LENGTH('a) \<Longrightarrow> unat (x * y) = unat x * unat y"
  by (simp add: unat_word_ariths)

lemma unat_less_64: "unat (x :: 64 word) < 18446744073709551616"
  using unsigned_less [of x] by simp

lemma unat_max_64 [simp]: "unat (- 1 :: 64 word) = 18446744073709551615"
  by (simp add: unsigned_minus_1_eq_mask mask_eq_exp_minus_1)

lemma unat_max_32 [simp]: "unat (- 1 :: 32 word) = 4294967295"
  by (simp add: unsigned_minus_1_eq_mask mask_eq_exp_minus_1)

lemma unat_less_32: "unat (x :: 32 word) < 4294967296"
  using unsigned_less [of x] by simp


section \<open>Lists\<close>

lemma sorted_wrt_append_middle:
  "sorted_wrt P (xs @ ys @ zs) \<Longrightarrow> sorted_wrt P (xs @ zs)"
  by (auto simp: sorted_wrt_append)

lemma split_at_distinct:
  assumes "distinct xs" "xs = as @ x # bs" "xs = cs @ x # ds"
  shows "as = cs \<and> bs = ds"
  using assms by (auto simp: append_eq_append_conv2 append_eq_Cons_conv Cons_eq_append_conv)

end
