(* ===== verification/Avl_Tree.thy ===== *)
theory Avl_Tree
  imports Genode_Prelude
begin

text \<open>
  The AVL tree of \<open>base/include/util/avl_tree.h\<close> and \<open>base/src/lib/base/avl_tree.cc\<close>.
  A node carries its object, its cached \<open>_depth\<close> (an \<open>unsigned char\<close>) and its two children.
  The code walks upwards through \<open>_parent\<close> pointers; the model keeps, beside the subtree it
  works on, the list of the frames between that subtree and the root, innermost first, which
  are the parents with a hole where the subtree is attached.  The sentinel node that a tree
  object embeds has no parent and no object, so it is the empty list of frames.
  The objects are organised by a policy: \<open>pol_higher\<close> is the order of the nodes and
  \<open>pol_recompute\<close> the hook that updates the object's meta data from the objects of its
  children.  Every hook of the repository is a function of the children and of the part of the object
  that the hook does not write, so a hook that runs twice in a row on the same children does not
  change the object again; the model omits such repeated calls of the rotations.
\<close>

datatype 'a tree = Leaf | Node (left: "'a tree") (obj: 'a) (stored_depth: nat) (right: "'a tree")

datatype 'a frame = Frame (hole_right: bool) (frame_obj: 'a) (frame_depth: nat) (sibling: "'a tree")

record 'a policy =
  pol_higher    :: "'a \<Rightarrow> 'a \<Rightarrow> bool"
  pol_recompute :: "'a option \<Rightarrow> 'a option \<Rightarrow> 'a \<Rightarrow> 'a"

text \<open>\<open>Side\<close> is a boolean in the code: \<open>LEFT = false\<close> and \<open>RIGHT = true\<close>.\<close>

abbreviation (input) LEFT :: bool where "LEFT \<equiv> False"
abbreviation (input) RIGHT :: bool where "RIGHT \<equiv> True"

fun child :: "'a tree \<Rightarrow> bool \<Rightarrow> 'a tree" where
  "child Leaf i = Leaf"
| "child (Node l x d r) i = (if i then r else l)"

fun set_child :: "'a tree \<Rightarrow> bool \<Rightarrow> 'a tree \<Rightarrow> 'a tree" where
  "set_child Leaf i c = Leaf"
| "set_child (Node l x d r) i c = (if i then Node l x d c else Node c x d r)"

fun plug :: "'a frame \<Rightarrow> 'a tree \<Rightarrow> 'a tree" where
  "plug (Frame s x d o1) t = (if s then Node o1 x d t else Node t x d o1)"

text \<open>The whole tree of a location.\<close>

fun zip_up :: "'a tree \<Rightarrow> 'a frame list \<Rightarrow> 'a tree" where
  "zip_up t [] = t"
| "zip_up t (f # fs) = zip_up (plug f t) fs"

fun obj_of :: "'a tree \<Rightarrow> 'a option" where
  "obj_of Leaf = None"
| "obj_of (Node l x d r) = Some x"


section \<open>Depth and rotation\<close>

text \<open>\<open>_child_depth\<close>: the depth cached in a child, 0 for a null pointer.\<close>

fun depth_of :: "'a tree \<Rightarrow> nat" where
  "depth_of Leaf = 0"
| "depth_of (Node l x d r) = d"

definition child_depth :: "'a tree \<Rightarrow> bool \<Rightarrow> nat" where
  "child_depth t i = depth_of (child t i)"

text \<open>The depth is stored into an \<open>unsigned char\<close>.\<close>

definition new_depth :: "'a tree \<Rightarrow> 'a tree \<Rightarrow> nat" where
  "new_depth l r = (max (depth_of l) (depth_of r) + 1) mod 256"

definition bias :: "'a tree \<Rightarrow> bool" where
  "bias t = (child_depth t RIGHT > child_depth t LEFT)"

text \<open>
  \<open>_recompute_depth\<close> of the parents of a subtree \<open>t\<close>: a parent whose depth changes first updates
  its own parent, which therefore still sees the object of the former before its hook ran,
  and only then calls its hook.
\<close>

fun propagate :: "'a policy \<Rightarrow> 'a tree \<Rightarrow> 'a frame list \<Rightarrow> 'a frame list" where
  "propagate P t [] = []"
| "propagate P t (Frame s x d o1 # fs) =
     (let l = (if s then o1 else t);
          r = (if s then t else o1);
          d' = new_depth l r;
          fs' = (if d' \<noteq> d then propagate P (Node l x d' r) fs else fs)
      in Frame s (pol_recompute P (obj_of l) (obj_of r) x) d' o1 # fs')"

text \<open>\<open>_recompute_depth\<close> of the node at the location.\<close>

fun recompute_depth :: "'a policy \<Rightarrow> 'a tree \<Rightarrow> 'a frame list \<Rightarrow> 'a tree \<times> 'a frame list" where
  "recompute_depth P Leaf fs = (Leaf, fs)"
| "recompute_depth P (Node l x d r) fs =
     (let d' = new_depth l r;
          fs' = (if d' \<noteq> d then propagate P (Node l x d' r) fs else fs)
      in (Node l (pol_recompute P (obj_of l) (obj_of r) x) d' r, fs'))"

text \<open>
  \<open>_adopt\<close> of a child by the node at the location.  Adoption by a node that is not attached to the tree
  at that moment (the nodes moved by a rotation) has no frames to update.
\<close>

definition adopt :: "'a policy \<Rightarrow> 'a tree \<Rightarrow> bool \<Rightarrow> 'a tree \<Rightarrow> 'a frame list \<Rightarrow> 'a tree \<times> 'a frame list" where
  "adopt P c i t fs = recompute_depth P (set_child t i c) fs"

definition adopt_detached :: "'a policy \<Rightarrow> 'a tree \<Rightarrow> bool \<Rightarrow> 'a tree \<Rightarrow> 'a tree" where
  "adopt_detached P c i t = fst (adopt P c i t [])"

text \<open>
  \<open>_rotate_subtree\<close>: \<open>t\<close> is the node to rotate, its parent is the first frame (or the sentinel).
  The final adoption by the parent is \<open>propagate\<close>.  The caller guarantees that the
  child opposite to \<open>side\<close> exists, which the code dereferences.
\<close>

definition rotate_subtree :: "'a policy \<Rightarrow> bool \<Rightarrow> 'a tree \<Rightarrow> 'a frame list \<Rightarrow> 'a tree \<times> 'a frame list" where
  "rotate_subtree P side t fs =
     (let tr = child t (\<not> side); trl = child tr side in
      if bias tr = (\<not> side) then
        (let (t1, fs1) = adopt P trl (\<not> side) t fs;
             tr1 = adopt_detached P t1 side tr
         in (tr1, propagate P tr1 fs1))
      else if trl \<noteq> Leaf then
        (let trll = child trl side; trlr = child trl (\<not> side);
             (t1, fs1) = adopt P trll (\<not> side) t fs;
             tr1 = adopt_detached P trlr side tr;
             trl1 = adopt_detached P t1 side trl;
             trl2 = adopt_detached P tr1 (\<not> side) trl1
         in (trl2, propagate P trl2 fs1))
      else (t, fs))"

text \<open>\<open>_rebalance_subtree\<close>: \<open>v\<close> is a signed difference in the code.\<close>

definition rebalance_subtree :: "'a policy \<Rightarrow> 'a tree \<Rightarrow> 'a frame list \<Rightarrow> 'a tree \<times> 'a frame list" where
  "rebalance_subtree P t fs =
     (let v = int (child_depth t RIGHT) - int (child_depth t LEFT) in
      if \<bar>v\<bar> < 2 then (t, fs) else rotate_subtree P (v < 0) t fs)"


section \<open>Insertion and removal\<close>

text \<open>
  \<open>insert\<close>: \<open>n\<close> is the new node, without children.  Its cached depth is a parameter of the
  model because \<open>insert\<close> does not initialise it: it is 1 in a node fresh from its constructor.
\<close>

fun insert_node :: "'a policy \<Rightarrow> 'a \<Rightarrow> nat \<Rightarrow> 'a tree \<Rightarrow> 'a frame list \<Rightarrow> 'a tree \<times> 'a frame list" where
  "insert_node P n nd Leaf fs = (Node Leaf n nd Leaf, propagate P (Node Leaf n nd Leaf) fs)"
| "insert_node P n nd (Node l x d r) fs =
     (let i = pol_higher P x n in
      case insert_node P n nd (if i then r else l) (Frame i x d (if i then l else r) # fs) of
        (c, []) \<Rightarrow> (c, [])
      | (c, f # fs1) \<Rightarrow>
          (let (t1, fs2) = recompute_depth P (plug f c) fs1
           in rebalance_subtree P t1 fs2))"

definition avl_insert :: "'a policy \<Rightarrow> 'a \<Rightarrow> nat \<Rightarrow> 'a tree \<Rightarrow> 'a tree" where
  "avl_insert P n nd t = fst (insert_node P n nd t [])"

text \<open>The path from a location to the right-most node below it.\<close>

fun right_most :: "'a tree \<Rightarrow> 'a frame list \<Rightarrow> 'a tree \<times> 'a frame list" where
  "right_most Leaf fs = (Leaf, fs)"
| "right_most (Node l x d Leaf) fs = (Node l x d Leaf, fs)"
| "right_most (Node l x d r) fs = right_most r (Frame RIGHT x d l # fs)"

text \<open>
  The final loop of \<open>remove\<close>, from \<open>lp\<close> up to the child of the sentinel.  The recursion is on the
  frames above \<open>lp\<close>; the frames a rebalancing step returns replace them.
\<close>

fun rebalance_up :: "nat \<Rightarrow> 'a policy \<Rightarrow> 'a tree \<Rightarrow> 'a frame list \<Rightarrow> 'a tree" where
  "rebalance_up 0 P t fs = zip_up t fs"
| "rebalance_up (Suc k) P t fs =
     (case rebalance_subtree P t fs of
        (t1, []) \<Rightarrow> t1
      | (t1, f # fs1) \<Rightarrow> rebalance_up k P (plug f t1) fs1)"

text \<open>
  \<open>remove\<close> of the node at the location.  \<open>lp\<close> is set only if the right-most node of the left
  subtree is not the left child itself, so only then the loop at the end runs.
\<close>

definition remove_node :: "'a policy \<Rightarrow> 'a tree \<Rightarrow> 'a frame list \<Rightarrow> 'a tree" where
  "remove_node P t fs =
     (case t of Leaf \<Rightarrow> zip_up Leaf fs
      | Node l x d r \<Rightarrow>
        (if l \<noteq> Leaf then
          (case right_most l [] of
             (Leaf, _) \<Rightarrow> zip_up t fs
           | (Node ll lx ld lr, inner) \<Rightarrow>
             (let adopted = propagate P ll (inner @ Frame LEFT x d r # fs);
                  inner1 = take (length inner) adopted;
                  outer1 = drop (Suc (length inner)) adopted;
                  l0 = zip_up ll inner1;
                  l1 = Node ll lx ld lr;
                  outer2 = propagate P l1 outer1;
                  (l2, outer3) = adopt P l0 LEFT l1 outer2;
                  (l3, outer4) = adopt P r RIGHT l2 outer3
              in case inner1 of
                   [] \<Rightarrow> zip_up l3 outer4
                 | q # inner2 \<Rightarrow>
                     (case l3 of Leaf \<Rightarrow> Leaf
                      | Node _ lx3 ld3 _ \<Rightarrow>
                        (let above = inner2 @ Frame LEFT lx3 ld3 r # outer4
                         in rebalance_up (Suc (length above)) P (plug q ll) above))))
         else zip_up r (propagate P r fs)))"

text \<open>Pointers to nodes are paths from the root.\<close>

fun focus :: "bool list \<Rightarrow> 'a tree \<Rightarrow> 'a frame list \<Rightarrow> 'a tree \<times> 'a frame list" where
  "focus [] t fs = (t, fs)"
| "focus (s # p) Leaf fs = (Leaf, fs)"
| "focus (s # p) (Node l x d r) fs =
     focus p (if s then r else l) (Frame s x d (if s then l else r) # fs)"

definition avl_remove :: "'a policy \<Rightarrow> bool list \<Rightarrow> 'a tree \<Rightarrow> 'a tree" where
  "avl_remove P p t = (case focus p t [] of (n, fs) \<Rightarrow> remove_node P n fs)"

text \<open>\<open>first\<close> is the root and \<open>for_each\<close> visits the objects in order.\<close>

fun avl_for_each :: "('a \<Rightarrow> 's \<Rightarrow> 's) \<Rightarrow> 'a tree \<Rightarrow> 's \<Rightarrow> 's" where
  "avl_for_each f Leaf s = s"
| "avl_for_each f (Node l x d r) s = avl_for_each f r (f x (avl_for_each f l s))"

fun inorder :: "'a tree \<Rightarrow> 'a list" where
  "inorder Leaf = []"
| "inorder (Node l x d r) = inorder l @ x # inorder r"

end
