(* ===== verification/Avl_Contents.thy ===== *)
theory Avl_Contents
  imports Avl_Tree
begin

text \<open>
  What the operations of the AVL tree do to the sequence of its objects, whatever the cached depths
  and the hook do: an insertion adds the new object behind all objects that are not higher, a
  removal takes one object out, and nothing else changes.  The interface of the clients is the
  locale \<open>avl_policy\<close>: the order compares keys, and the hook writes only meta data.
\<close>

text \<open>The objects left and right of a location.\<close>

fun before :: "'a frame list \<Rightarrow> 'a list" where
  "before [] = []"
| "before (Frame s x d o1 # fs) = before fs @ (if s then inorder o1 @ [x] else [])"

fun behind :: "'a frame list \<Rightarrow> 'a list" where
  "behind [] = []"
| "behind (Frame s x d o1 # fs) = (if s then [] else x # inorder o1) @ behind fs"

lemma inorder_zip_up: "inorder (zip_up t fs) = before fs @ inorder t @ behind fs"
  by (induction t fs rule: zip_up.induct) (auto elim: frame.exhaust simp: split: if_splits, (case_tac f; auto)+)

lemma before_append [simp]: "before (fs @ gs) = before gs @ before fs"
  by (induction fs rule: before.induct) auto

lemma behind_append [simp]: "behind (fs @ gs) = behind fs @ behind gs"
  by (induction fs rule: behind.induct) auto

lemma zip_up_append: "zip_up t (fs @ gs) = zip_up (zip_up t fs) gs"
  by (induction t fs rule: zip_up.induct) auto

lemma inorder_plug: "inorder (plug f t) = before [f] @ inorder t @ behind [f]"
  by (cases f) auto

lemma length_propagate [simp]: "length (propagate P t fs) = length fs"
  by (induction P t fs rule: propagate.induct) (auto simp: Let_def)

lemma length_snd_recompute_depth [simp]: "length (snd (recompute_depth P t fs)) = length fs"
  by (cases t) (auto simp: Let_def)

lemma length_snd_adopt [simp]: "length (snd (adopt P c i t fs)) = length fs"
  by (simp add: adopt_def)

lemma length_snd_rotate [simp]: "length (snd (rotate_subtree P s t fs)) = length fs"
  by (auto simp: rotate_subtree_def Let_def split: prod.split) (metis length_snd_adopt snd_conv)+

lemma length_snd_rebalance [simp]: "length (snd (rebalance_subtree P t fs)) = length fs"
  by (simp add: rebalance_subtree_def Let_def)

lemma rebalance_child:
  assumes "\<not> \<bar>int (child_depth t RIGHT) - int (child_depth t LEFT)\<bar> < 2"
  shows "child t (\<not> child_depth t RIGHT < child_depth t LEFT) \<noteq> Leaf"
proof
  assume "child t (\<not> child_depth t RIGHT < child_depth t LEFT) = Leaf"
  then have "child_depth t (\<not> child_depth t RIGHT < child_depth t LEFT) = 0"
    by (simp add: child_depth_def)
  with assms show False by (cases "child_depth t RIGHT < child_depth t LEFT") simp_all
qed

lemma length_insert_node [simp]: "length (snd (insert_node P n nd t fs)) = length fs"
proof (induction t arbitrary: fs)
  case (Node l x d r)
  have "length (snd (insert_node P n nd (if pol_higher P x n then r else l)
      (Frame (pol_higher P x n) x d (if pol_higher P x n then l else r) # fs))) = Suc (length fs)"
    using Node.IH by simp
  then show ?case
    by (cases "snd (insert_node P n nd (if pol_higher P x n then r else l)
      (Frame (pol_higher P x n) x d (if pol_higher P x n then l else r) # fs))")
      (auto simp: Let_def split_beta split: list.split)
qed simp

text \<open>One level of the recursion of \<open>insert\<close>: the child returns, its parent is the first frame.\<close>

lemma insert_node_NodeE:
  assumes "insert_node P n nd (Node l x d r) fs = (t', fs')"
  obtains i c f fs1 t1 fs2 where "i = pol_higher P x n"
    and "insert_node P n nd (if i then r else l) (Frame i x d (if i then l else r) # fs) = (c, f # fs1)"
    and "length fs1 = length fs"
    and "recompute_depth P (plug f c) fs1 = (t1, fs2)"
    and "rebalance_subtree P t1 fs2 = (t', fs')"
proof -
  let ?i = "pol_higher P x n"
  let ?res = "insert_node P n nd (if ?i then r else l) (Frame ?i x d (if ?i then l else r) # fs)"
  have "length (snd ?res) = Suc (length fs)" by simp
  then obtain f fs1 where f: "snd ?res = f # fs1" and len: "length fs1 = length fs"
    by (cases "snd ?res") simp_all
  obtain t1 fs2 where "recompute_depth P (plug f (fst ?res)) fs1 = (t1, fs2)"
    by (cases "recompute_depth P (plug f (fst ?res)) fs1")
  moreover from this f assms have "rebalance_subtree P t1 fs2 = (t', fs')"
    by (simp add: Let_def split_beta)
  ultimately show ?thesis using that [of ?i "fst ?res" f fs1 t1 fs2] f len
    by (simp add: prod_eq_iff)
qed

text \<open>
  The frames of a location keep their side and their sibling through all updates; only the
  cached depth and the hook's part of the object change.
\<close>

definition same_frame :: "('a \<Rightarrow> 'c) \<Rightarrow> 'a frame \<Rightarrow> 'a frame \<Rightarrow> bool" where
  "same_frame core f g \<longleftrightarrow> hole_right f = hole_right g \<and> sibling f = sibling g
     \<and> core (frame_obj f) = core (frame_obj g)"

abbreviation same_frames :: "('a \<Rightarrow> 'c) \<Rightarrow> 'a frame list \<Rightarrow> 'a frame list \<Rightarrow> bool" where
  "same_frames core \<equiv> list_all2 (same_frame core)"

definition ins_after :: "('c \<Rightarrow> 'k::linorder) \<Rightarrow> 'c \<Rightarrow> 'c list \<Rightarrow> 'c list" where
  "ins_after key c xs = takeWhile (\<lambda>y. key y \<le> key c) xs @ c # dropWhile (\<lambda>y. key y \<le> key c) xs"

definition ins_at :: "('c \<Rightarrow> bool) \<Rightarrow> 'c \<Rightarrow> 'c list \<Rightarrow> 'c list" where
  "ins_at h c xs = takeWhile h xs @ c # dropWhile h xs"

lemma ins_after_at: "ins_after key c = ins_at (\<lambda>y. key y \<le> key c) c"
  by (simp add: ins_after_def ins_at_def fun_eq_iff)

lemma set_ins_at: "set (ins_at h c xs) = insert c (set xs)"
  unfolding ins_at_def by (metis Un_insert_right list.simps(15) set_append takeWhile_dropWhile_id)

lemma ins_at_append:
  assumes "sorted_wrt (\<lambda>a b. h b \<longrightarrow> h a) (as @ x # bs)"
  shows "ins_at h c (as @ x # bs) = (if h x then as @ x # ins_at h c bs else ins_at h c as @ x # bs)"
proof (cases "h x")
  case True
  with assms have "\<forall>a\<in>set as. h a" by (auto simp: sorted_wrt_append)
  with True show ?thesis by (simp add: ins_at_def takeWhile_append2 dropWhile_append2)
next
  case False
  then show ?thesis
    by (cases "\<forall>a\<in>set as. h a")
      (auto simp: ins_at_def takeWhile_append1 dropWhile_append1 takeWhile_append2 dropWhile_append2
        takeWhile_eq_all_conv [THEN iffD2])
qed

lemma same_frames_refl [simp]: "same_frames core fs fs"
  by (simp add: list_all2_refl same_frame_def)

lemma same_frames_trans [trans]:
  "same_frames core fs gs \<Longrightarrow> same_frames core gs hs \<Longrightarrow> same_frames core fs hs"
  by (simp add: same_frame_def list_all2_conv_all_nth)

lemma same_frames_contents:
  "same_frames core fs gs \<Longrightarrow> map core (before fs) = map core (before gs)
     \<and> map core (behind fs) = map core (behind gs)"
proof (induction rule: list_all2_induct)
  case (Cons f fs g gs)
  then show ?case by (cases f; cases g) (auto simp: same_frame_def)
qed simp

lemma set_ins_after: "set (ins_after key c xs) = insert c (set xs)"
  by (simp add: ins_after_at set_ins_at)

lemma focus_zip: "focus p t fs = (n, gs) \<Longrightarrow> zip_up n gs = zip_up t fs"
  by (induction p t fs rule: focus.induct) (auto split: if_splits)

lemma right_most_zip:
  "right_most t fs = (m, gs) \<Longrightarrow> zip_up m gs = zip_up t fs"
  by (induction t fs rule: right_most.induct) auto

lemma right_most_shape:
  assumes "t \<noteq> Leaf"
  shows "\<exists>ll lx ld. fst (right_most t fs) = Node ll lx ld Leaf"
  using assms by (induction t fs rule: right_most.induct) auto

lemma right_most_behind:
  "right_most t fs = (m, gs) \<Longrightarrow> behind gs = behind fs"
  by (induction t fs rule: right_most.induct) auto

lemma right_most_inorder:
  assumes "right_most l [] = (Node ll lx ld lr, inner)"
  shows "lr = Leaf \<and> inorder l = before inner @ inorder ll @ [lx] \<and> behind inner = []"
proof -
  have l: "l \<noteq> Leaf" using assms by auto
  obtain a b c where "Node ll lx ld lr = Node a b c Leaf"
    using right_most_shape [OF l, of "[]"] assms by auto
  then have "lr = Leaf" by simp
  moreover have b: "behind inner = []" using right_most_behind [OF assms] by simp
  moreover have "inorder l = inorder (zip_up (Node ll lx ld lr) inner)"
    using right_most_zip [OF assms] by simp
  ultimately show ?thesis by (simp add: inorder_zip_up)
qed

lemma fst_adopt_Node [simp]:
  "fst (adopt P c LEFT (Node l x d r) fs) = Node c (pol_recompute P (obj_of c) (obj_of r) x) (new_depth c r) r"
  "fst (adopt P c RIGHT (Node l x d r) fs) = Node l (pol_recompute P (obj_of l) (obj_of c) x) (new_depth l c) c"
  by (simp_all add: adopt_def Let_def)

text \<open>
  What a client of the tree relies on: the hook leaves the part of the object alone that
  \<open>core\<close> selects, and the order of the nodes compares keys found in that part.
\<close>

locale avl_hook =
  fixes P :: "'a policy"
    and core :: "'a \<Rightarrow> 'c"
  assumes core_recompute [simp]: "core (pol_recompute P a b x) = core x"
begin

lemma same_frames_propagate [simp]: "same_frames core (propagate P t fs) fs"
  by (induction fs arbitrary: t rule: before.induct) (simp_all add: Let_def same_frame_def)

lemma cores_recompute_depth [simp]:
  "map core (inorder (fst (recompute_depth P t fs))) = map core (inorder t)"
  by (cases t) (simp_all add: Let_def)

lemma same_frames_recompute_depth [simp]: "same_frames core (snd (recompute_depth P t fs)) fs"
  by (cases t) (simp_all add: Let_def)

lemma same_frames_adopt [simp]: "same_frames core (snd (adopt P c i t fs)) fs"
  by (simp add: adopt_def)

lemma cores_rotate_tree:
  assumes "child t (\<not> s) \<noteq> Leaf"
  shows "map core (inorder (fst (rotate_subtree P s t fs))) = map core (inorder t)"
proof (cases t)
  case (Node l x d r)
  with assms show ?thesis
    by (cases s; cases "child t (\<not> s)"; cases "child (child t (\<not> s)) s")
      (simp_all add: rotate_subtree_def Let_def split_beta adopt_detached_def adopt_def)
qed (use assms in simp)

lemma same_frames_rotate [simp]: "same_frames core (snd (rotate_subtree P s t fs)) fs"
  by (auto simp: rotate_subtree_def Let_def split_beta
      intro: same_frames_trans [OF same_frames_propagate same_frames_adopt])

lemma cores_rebalance [simp]:
  "map core (inorder (fst (rebalance_subtree P t fs))) = map core (inorder t)"
  by (simp add: rebalance_subtree_def Let_def cores_rotate_tree rebalance_child)

lemma same_frames_rebalance [simp]: "same_frames core (snd (rebalance_subtree P t fs)) fs"
  by (simp add: rebalance_subtree_def Let_def)

lemma cores_plug [simp]:
  "map core (inorder (plug f t)) = map core (before [f]) @ map core (inorder t) @ map core (behind [f])"
  by (simp add: inorder_plug)

lemma same_frames_insert_node:
  assumes "insert_node P n nd t fs = (t', fs')"
  shows "same_frames core fs' fs"
  using assms
proof (induction t arbitrary: fs t' fs')
  case (Node l x d r)
  from Node.prems obtain i c f fs1 t1 fs2 where i: "i = pol_higher P x n"
    and c: "insert_node P n nd (if i then r else l) (Frame i x d (if i then l else r) # fs) = (c, f # fs1)"
    and t1: "recompute_depth P (plug f c) fs1 = (t1, fs2)"
    and t': "rebalance_subtree P t1 fs2 = (t', fs')"
    by (rule insert_node_NodeE)
  have "same_frames core fs' fs2" using same_frames_rebalance [of t1 fs2] t' by simp
  also have "same_frames core fs2 fs1" using same_frames_recompute_depth [of "plug f c" fs1] t1 by simp
  also have "same_frames core fs1 fs"
  proof (cases i)
    case True
    then show ?thesis using Node.IH(2) c by (simp only: True if_True if_False) (metis list_all2_Cons)
  next
    case False
    then show ?thesis using Node.IH(1) c by (simp only: False if_True if_False) (metis list_all2_Cons)
  qed
  finally show ?case .
qed auto

lemma same_frame_insert_child:
  assumes "insert_node P n nd t (g # fs) = (c, f # fs1)"
  shows "hole_right f = hole_right g" "sibling f = sibling g" "core (frame_obj f) = core (frame_obj g)"
  using same_frames_insert_node [OF assms] by (simp_all add: same_frame_def)

text \<open>A new node goes behind the nodes that are not higher, for any order of the nodes.\<close>

lemma insert_node_at:
  assumes "insert_node P n nd t fs = (t', fs')"
    and "\<And>x. x \<in> set (inorder t) \<Longrightarrow> pol_higher P x n \<longleftrightarrow> h (core x)"
    and "sorted_wrt (\<lambda>a b. h b \<longrightarrow> h a) (map core (inorder t))"
  shows "map core (inorder t') = ins_at h (core n) (map core (inorder t))"
  using assms
proof (induction t arbitrary: fs t' fs')
  case Leaf
  then show ?case by (auto simp: ins_at_def)
next
  case (Node l x d r)
  from Node.prems(1) obtain i c f fs1 t1 fs2 where i: "i = pol_higher P x n"
    and c: "insert_node P n nd (if i then r else l) (Frame i x d (if i then l else r) # fs) = (c, f # fs1)"
    and t1: "recompute_depth P (plug f c) fs1 = (t1, fs2)"
    and t': "rebalance_subtree P t1 fs2 = (t', fs')"
    by (rule insert_node_NodeE)
  have "map core (inorder c) = ins_at h (core n) (map core (inorder (if i then r else l)))"
    using Node.IH c Node.prems(2,3) by (cases i) (simp_all add: sorted_wrt_append)
  moreover have "map core (inorder t') = map core (before [f]) @ map core (inorder c) @ map core (behind [f])"
    using cores_rebalance [of t1 fs2] cores_recompute_depth [of "plug f c" fs1] t1 t' by simp
  moreover have "map core (before [f]) = (if i then map core (inorder l) @ [core x] else [])"
    "map core (behind [f]) = (if i then [] else core x # map core (inorder r))"
    using same_frame_insert_child [OF c] by (cases f; simp)+
  ultimately show ?case
    using ins_at_append [of h "map core (inorder l)" "core x" "map core (inorder r)" "core n"] Node.prems(2) [of x]
      Node.prems(3) by (simp add: i)
qed

lemma insert_contents_at:
  "(\<And>x. x \<in> set (inorder t) \<Longrightarrow> pol_higher P x n \<longleftrightarrow> h (core x)) \<Longrightarrow>
     sorted_wrt (\<lambda>a b. h b \<longrightarrow> h a) (map core (inorder t)) \<Longrightarrow>
     map core (inorder (avl_insert P n nd t)) = ins_at h (core n) (map core (inorder t))"
  using insert_node_at [of n nd t "[]" "fst (insert_node P n nd t [])" "snd (insert_node P n nd t [])" h]
  by (simp add: avl_insert_def)

text \<open>Removal takes exactly the node at the location out of the sequence.\<close>

lemma rebalance_up_cores:
  "map core (inorder (rebalance_up k P t fs)) =
     map core (before fs) @ map core (inorder t) @ map core (behind fs)"
proof (induction k arbitrary: t fs)
  case 0
  show ?case by (simp add: inorder_zip_up)
next
  case (Suc k)
  have sf: "same_frames core (snd (rebalance_subtree P t fs)) fs"
    and ct: "map core (inorder (fst (rebalance_subtree P t fs))) = map core (inorder t)" by simp_all
  show ?case
  proof (cases "snd (rebalance_subtree P t fs)")
    case Nil
    with sf ct show ?thesis by (simp add: split_beta)
  next
    case (Cons f fs1)
    with sf have "map core (before fs) = map core (before (f # fs1))"
      "map core (behind fs) = map core (behind (f # fs1))"
      using same_frames_contents [of core "f # fs1" fs] by simp_all
    with Cons ct Suc.IH show ?thesis by (cases f) (simp add: split_beta)
  qed
qed

lemma remove_node_cores:
  "map core (inorder (remove_node P (Node l x d r) fs)) =
     map core (before fs) @ map core (inorder l) @ map core (inorder r) @ map core (behind fs)"
proof (cases "l = Leaf")
  case True
  then show ?thesis
    using same_frames_contents [OF same_frames_propagate, of r fs]
    by (simp add: remove_node_def inorder_zip_up)
next
  case False
  obtain ll lx ld lr inner where m: "right_most l [] = (Node ll lx ld lr, inner)"
    using right_most_shape [OF False, of "[]"] by (cases "right_most l []") auto
  then have lr: "lr = Leaf" and l: "inorder l = before inner @ inorder ll @ [lx]" and bi: "behind inner = []"
    using right_most_inorder [OF m] by simp_all
  define adopted where "adopted = propagate P ll (inner @ Frame LEFT x d r # fs)"
  define inner1 where "inner1 = take (length inner) adopted"
  define outer2 where "outer2 = propagate P (Node ll lx ld Leaf) (drop (Suc (length inner)) adopted)"
  have ad: "same_frames core adopted (inner @ Frame LEFT x d r # fs)" by (simp add: adopted_def)
  have i1: "same_frames core inner1 inner"
    using list_all2_takeI [OF ad, of "length inner"] by (simp add: inner1_def)
  have o4: "same_frames core (snd (adopt P r RIGHT n (snd (adopt P c LEFT n' outer2)))) fs" for n n' c
  proof -
    have "same_frames core (snd (adopt P r RIGHT n (snd (adopt P c LEFT n' outer2)))) (snd (adopt P c LEFT n' outer2))"
      by simp
    also have "same_frames core (snd (adopt P c LEFT n' outer2)) outer2" by simp
    also have "same_frames core outer2 (drop (Suc (length inner)) adopted)" by (simp add: outer2_def)
    also have "same_frames core (drop (Suc (length inner)) adopted) fs"
      using list_all2_dropI [OF ad, of "Suc (length inner)"] by simp
    finally show ?thesis .
  qed
  note rules = remove_node_def m lr l split_beta Let_def rebalance_up_cores inorder_zip_up
    same_frames_contents [OF o4] adopted_def [symmetric] inner1_def [symmetric] outer2_def [symmetric]
  show ?thesis
  proof (cases inner1)
    case Nil
    with same_frames_contents [OF i1] False bi show ?thesis by (simp add: rules del: rebalance_up.simps)
  next
    case (Cons q inner2)
    obtain s y e o1 where q: "q = Frame s y e o1" by (cases q)
    have "map core (before inner) = map core (before inner1)" "behind inner1 = []"
      using same_frames_contents [OF i1] bi by simp_all
    with Cons False show ?thesis
      by (cases s) (simp_all add: q rules del: rebalance_up.simps)
  qed
qed

lemma remove_contents:
  assumes "focus p t [] = (Node l x d r, fs)"
  shows "inorder t = before fs @ inorder l @ x # inorder r @ behind fs"
    and "map core (inorder (avl_remove P p t)) =
      map core (before fs @ inorder l @ inorder r @ behind fs)"
  using focus_zip [OF assms] assms
  by (auto simp: avl_remove_def remove_node_cores inorder_zip_up dest: sym)

end

locale avl_policy = avl_hook P core for P :: "'a policy" and core :: "'a \<Rightarrow> 'c" +
  fixes key :: "'c \<Rightarrow> 'k::linorder"
  assumes higher_key: "pol_higher P x n \<longleftrightarrow> key (core x) \<le> key (core n)"
begin

text \<open>Where a new node ends up: behind all nodes whose key is not greater.\<close>

lemma insert_contents:
  "sorted (map key (map core (inorder t))) \<Longrightarrow>
     map core (inorder (avl_insert P n nd t)) = ins_after key (core n) (map core (inorder t))"
  unfolding ins_after_at
  by (rule insert_contents_at) (auto simp: higher_key sorted_wrt_map elim!: sorted_wrt_mono_rel [rotated])

end

end
