(* ===== verification/Avl_Balance.thy ===== *)
theory Avl_Balance
  imports Avl_Contents
begin

text \<open>
  Balance: the cached depths are the heights of the subtrees, insertion keeps the two subtrees
  of every node within a difference of one, and the cached depths stay far below the range of
  the \<open>unsigned char\<close> that holds them.  Insertion also leaves every hook up to date.
  Removal keeps neither property; the last section has the trees that show it.
\<close>

fun height :: "'a tree \<Rightarrow> nat" where
  "height Leaf = 0"
| "height (Node l x d r) = max (height l) (height r) + 1"

fun avl :: "'a tree \<Rightarrow> bool" where
  "avl Leaf = True"
| "avl (Node l x d r) = (avl l \<and> avl r \<and> d = max (height l) (height r) + 1
     \<and> height l \<le> height r + 1 \<and> height r \<le> height l + 1)"

text \<open>The frames above a subtree of depth \<open>d\<close> hold the depth that the code would compute.\<close>

fun frames_ok :: "nat \<Rightarrow> 'a frame list \<Rightarrow> bool" where
  "frames_ok d [] = True"
| "frames_ok d (Frame s x e o1 # fs) = (e = (max d (depth_of o1) + 1) mod 256 \<and> frames_ok e fs)"

lemma depth_of_avl [simp]: "avl t \<Longrightarrow> depth_of t = height t"
  by (cases t) auto

lemma height_0 [simp]: "height t = 0 \<longleftrightarrow> t = Leaf"
  by (cases t) auto

lemma frames_ok_propagate: "frames_ok d fs \<Longrightarrow> frames_ok (depth_of t) (propagate P t fs)"
proof (induction fs arbitrary: t d)
  case (Cons f fs)
  obtain s x e o1 where f: "f = Frame s x e o1" by (cases f)
  let ?l = "if s then o1 else t" and ?r = "if s then t else o1"
  from Cons.prems have "frames_ok e fs" unfolding f by auto
  then have "frames_ok (new_depth ?l ?r) (propagate P (Node ?l x (new_depth ?l ?r) ?r) fs)"
    using Cons.IH [of e "Node ?l x (new_depth ?l ?r) ?r"] by simp
  with \<open>frames_ok e fs\<close> show ?case
    by (auto simp: f Let_def new_depth_def max.commute)
qed simp

lemma frames_ok_recompute_depth:
  assumes "frames_ok d fs" "d = depth_of t"
  shows "frames_ok (depth_of (fst (recompute_depth P t fs))) (snd (recompute_depth P t fs))"
proof (cases t)
  case (Node l x d' r)
  with assms show ?thesis
    using frames_ok_propagate [of d fs "Node l x (new_depth l r) r" P] by (simp add: Let_def)
qed (use assms in simp)

lemma frames_ok_adopt:
  "frames_ok (depth_of t) fs \<Longrightarrow> frames_ok (depth_of (fst (adopt P c i t fs))) (snd (adopt P c i t fs))"
  by (cases t; cases i) (auto simp: adopt_def intro!: frames_ok_recompute_depth simp del: recompute_depth.simps)

lemma frames_ok_rotate:
  assumes "frames_ok (depth_of t) fs"
  shows "frames_ok (depth_of (fst (rotate_subtree P s t fs))) (snd (rotate_subtree P s t fs))"
  using assms frames_ok_adopt [OF assms]
  by (auto simp: rotate_subtree_def Let_def split_beta intro!: frames_ok_propagate)

lemma frames_ok_rebalance:
  "frames_ok (depth_of t) fs \<Longrightarrow>
     frames_ok (depth_of (fst (rebalance_subtree P t fs))) (snd (rebalance_subtree P t fs))"
  by (simp add: rebalance_subtree_def Let_def frames_ok_rotate)


section \<open>Insertion keeps the balance\<close>

text \<open>
  A node whose cached depth is recomputed is balanced if its children are; the objects do not matter.
\<close>

definition mk :: "'a tree \<Rightarrow> 'a \<Rightarrow> 'a tree \<Rightarrow> 'a tree" where
  "mk l x r = Node l x (new_depth l r) r"

lemma avl_mk:
  assumes "avl l" "avl r" "height l \<le> height r + 1" "height r \<le> height l + 1" "height l < 255" "height r < 255"
  shows "avl (mk l x r) \<and> height (mk l x r) = max (height l) (height r) + 1"
  using assms by (auto simp: mk_def new_depth_def)

lemma rotate_simple:
  "depth_of a < depth_of b \<Longrightarrow>
     \<exists>x1 y1. fst (rotate_subtree P LEFT (Node l x d (Node a y e b)) fs) = mk (mk l x1 a) y1 b"
  "depth_of b \<le> depth_of a \<Longrightarrow>
     \<exists>x1 y1. fst (rotate_subtree P RIGHT (Node (Node a y e b) x d r) fs) = mk a y1 (mk b x1 r)"
  by (simp_all add: rotate_subtree_def bias_def child_depth_def adopt_detached_def Let_def split_beta mk_def)

lemma rotate_double:
  "depth_of b \<le> k \<Longrightarrow>
     \<exists>x1 y1 z1. fst (rotate_subtree P LEFT (Node l x d (Node (Node u z k v) y e b)) fs) =
       mk (mk l x1 u) z1 (mk v y1 b)"
  "depth_of a < k \<Longrightarrow>
     \<exists>x1 y1 z1. fst (rotate_subtree P RIGHT (Node (Node a y e (Node u z k v)) x d r) fs) =
       mk (mk a y1 u) z1 (mk v x1 r)"
  by (simp_all add: rotate_subtree_def bias_def child_depth_def adopt_detached_def Let_def split_beta mk_def)

lemma rotate_left_avl:
  assumes "avl l" "avl r" "height r = height l + 2" "height (left r) \<noteq> height (right r)" "height r < 256"
  shows "avl (fst (rotate_subtree P LEFT (Node l x d r) fs)) \<and>
    height (fst (rotate_subtree P LEFT (Node l x d r) fs)) = height l + 2"
proof (cases r)
  case (Node a y e b)
  from Node assms have h: "avl a" "avl b" "height l \<le> height a" "height a \<le> height l + 1"
    "height l \<le> height b" "height b \<le> height l + 1" "height a \<noteq> height b" "height l < 254" by auto
  show ?thesis
  proof (cases "height b = height l + 1")
    case True
    with h have i: "height a = height l" by simp
    obtain x1 y1 where "fst (rotate_subtree P LEFT (Node l x d r) fs) = mk (mk l x1 a) y1 b"
      using rotate_simple(1) [of a b P l x d y e fs] True i h(1,2) Node by auto
    then show ?thesis using avl_mk [of l a x1] avl_mk [of "mk l x1 a" b y1] True i h assms(1,2) by simp
  next
    case False
    with h have ab: "height a = height l + 1" "height b = height l" by simp_all
    then obtain u z k v where i: "a = Node u z k v" by (cases a) simp_all
    with ab h have uv: "avl u" "avl v" "max (height u) (height v) = height l" "k = Suc (height l)"
      "height l \<le> Suc (height u)" "height l \<le> Suc (height v)" "height u \<le> height l" "height v \<le> height l"
      by auto
    obtain x1 y1 z1 where "fst (rotate_subtree P LEFT (Node l x d r) fs) = mk (mk l x1 u) z1 (mk v y1 b)"
      using rotate_double(1) [of b k P l x d u z v y e fs] ab i uv(4) h(1,2) Node by auto
    moreover have "avl (mk l x1 u) \<and> height (mk l x1 u) = height l + 1"
      using avl_mk [of l u x1] uv h assms(1,2) by (simp add: max_absorb1 max_absorb2)
    moreover have "avl (mk v y1 b) \<and> height (mk v y1 b) = height l + 1"
      using avl_mk [of v b y1] uv ab h by (simp add: max_absorb1 max_absorb2)
    ultimately show ?thesis using avl_mk [of "mk l x1 u" "mk v y1 b" z1] h(8) by simp
  qed
qed (use assms in simp)

lemma rotate_right_avl:
  assumes "avl l" "avl r" "height l = height r + 2" "height (left l) \<noteq> height (right l)" "height l < 256"
  shows "avl (fst (rotate_subtree P RIGHT (Node l x d r) fs)) \<and>
    height (fst (rotate_subtree P RIGHT (Node l x d r) fs)) = height r + 2"
proof (cases l)
  case (Node a y e b)
  from Node assms have h: "avl a" "avl b" "height r \<le> height a" "height a \<le> height r + 1"
    "height r \<le> height b" "height b \<le> height r + 1" "height a \<noteq> height b" "height r < 254" by auto
  show ?thesis
  proof (cases "height a = height r + 1")
    case True
    with h have i: "height b = height r" by simp
    obtain x1 y1 where "fst (rotate_subtree P RIGHT (Node l x d r) fs) = mk a y1 (mk b x1 r)"
      using rotate_simple(2) [of b a P y e x d r fs] True i h(1,2) Node by auto
    then show ?thesis using avl_mk [of b r x1] avl_mk [of a "mk b x1 r" y1] True i h assms(1,2) by simp
  next
    case False
    with h have ab: "height b = height r + 1" "height a = height r" by simp_all
    then obtain u z k v where i: "b = Node u z k v" by (cases b) simp_all
    with ab h have uv: "avl u" "avl v" "max (height u) (height v) = height r" "k = Suc (height r)"
      "height r \<le> Suc (height u)" "height r \<le> Suc (height v)" "height u \<le> height r" "height v \<le> height r"
      by auto
    obtain x1 y1 z1 where "fst (rotate_subtree P RIGHT (Node l x d r) fs) = mk (mk a y1 u) z1 (mk v x1 r)"
      using rotate_double(2) [of a k P y e u z v x d r fs] ab i uv(4) h(1,2) Node by auto
    moreover have "avl (mk a y1 u) \<and> height (mk a y1 u) = height r + 1"
      using avl_mk [of a u y1] uv ab h by (simp add: max_absorb1 max_absorb2)
    moreover have "avl (mk v x1 r) \<and> height (mk v x1 r) = height r + 1"
      using avl_mk [of v r x1] uv h assms(1,2) by (simp add: max_absorb1 max_absorb2)
    ultimately show ?thesis using avl_mk [of "mk a y1 u" "mk v x1 r" z1] h(8) by simp
  qed
qed (use assms in simp)

lemma rebalance_avl:
  assumes "avl l" "avl r" "d = max (height l) (height r) + 1" "d < 256"
    and "height l \<le> height r + 2" "height r \<le> height l + 2"
    and "height l = height r + 2 \<Longrightarrow> height (left l) \<noteq> height (right l)"
    and "height r = height l + 2 \<Longrightarrow> height (left r) \<noteq> height (right r)"
  shows "avl (fst (rebalance_subtree P (Node l x d r) fs)) \<and>
    height (fst (rebalance_subtree P (Node l x d r) fs)) =
      (if height l = height r + 2 \<or> height r = height l + 2 then max (height l) (height r) else d)"
proof -
  consider "height l = height r + 2" | "height r = height l + 2"
    | "height l \<le> height r + 1" "height r \<le> height l + 1" using assms(5,6) by linarith
  then show ?thesis
  proof cases
    case 1
    then show ?thesis using assms rotate_right_avl [of l r P x d fs]
      by (simp add: rebalance_subtree_def child_depth_def)
  next
    case 2
    then show ?thesis using assms rotate_left_avl [of l r P x d fs]
      by (simp add: rebalance_subtree_def child_depth_def)
  next
    case 3
    then have "\<bar>int (height r) - int (height l)\<bar> < 2" by linarith
    with 3 show ?thesis using assms by (simp add: rebalance_subtree_def child_depth_def)
  qed
qed

lemma trivial_hook: "avl_hook P (\<lambda>_. ())"
  by unfold_locales simp

lemma rebalance_id:
  "avl l \<Longrightarrow> avl r \<Longrightarrow> height l \<le> height r + 1 \<Longrightarrow> height r \<le> height l + 1 \<Longrightarrow>
     rebalance_subtree P (Node l x d r) fs = (Node l x d r, fs)"
  by (simp add: rebalance_subtree_def child_depth_def Let_def abs_less_iff)

lemma max_step:
  fixes b c k m :: nat
  assumes "c = b \<or> c = b + 1" "k \<le> b + 1" "b \<le> k + 1" "m = max k c + 1"
  shows "m = max k b + 1 \<or> m = max k b + 1 + 1 \<and> k \<noteq> c"
  using assms by linarith

lemma insert_step_right:
  assumes "avl (Node l x d r)" "height (Node l x d r) < 255" "avl c"
    and "height c = height r \<or> height c = height r + 1 \<and> (r = Leaf \<or> height (left c) \<noteq> height (right c))"
    and e: "e = max (height l) (height c) + 1" "frames_ok e fs"
    and t': "rebalance_subtree P (Node l y e c) fs = (t', fs')"
  shows "avl t' \<and> frames_ok (height t') fs' \<and> (height t' = height (Node l x d r) \<or>
    height t' = height (Node l x d r) + 1 \<and> height (left t') \<noteq> height (right t'))"
proof -
  have "height r < 254" "height l < 254" "avl l" using assms(1,2) by auto
  with assms have *: "avl t' \<and> height t' =
      (if height c = height l + 2 then height c else e)"
    using rebalance_avl [of l c e P y fs]
    by (auto simp: max.commute)
  moreover have "frames_ok (height t') fs'"
    using frames_ok_rebalance [of "Node l y e c" fs P] e t' * by simp
  moreover have "height c \<noteq> height l + 2 \<Longrightarrow> t' = Node l y e c"
    using t' assms(1,3,4) \<open>avl l\<close> by (auto simp: rebalance_id)
  moreover have "height (Node l x d r) = max (height l) (height r) + 1"
    "height l \<le> height r + 1" "height r \<le> height l + 1" using assms(1) by auto
  ultimately show ?thesis
  proof (cases "height c = height l + 2")
    case True
    with * assms(4) \<open>height r \<le> height l + 1\<close> have "height t' = height r + 1" "height r = height l + 1"
      by auto
    then have "height t' = height (Node l x d r)" by simp
    with * \<open>frames_ok (height t') fs'\<close> show ?thesis by blast
  next
    case False
    with \<open>height c \<noteq> height l + 2 \<Longrightarrow> t' = Node l y e c\<close> have t'': "t' = Node l y e c" .
    have m: "height t' = max (height l) (height c) + 1" using * False e(1) by simp
    have "height c = height r \<or> height c = height r + 1" using assms(4) by blast
    from max_step [OF this \<open>height l \<le> height r + 1\<close> \<open>height r \<le> height l + 1\<close> m]
    have "height t' = height (Node l x d r) \<or>
        height t' = height (Node l x d r) + 1 \<and> height l \<noteq> height c"
      by (simp only: height.simps max.commute [of "height l" "height r"])
    moreover have "height l \<noteq> height c \<Longrightarrow> height (left t') \<noteq> height (right t')"
      unfolding t'' by simp
    ultimately show ?thesis using * \<open>frames_ok (height t') fs'\<close> by blast
  qed
qed

lemma insert_step_left:
  assumes "avl (Node l x d r)" "height (Node l x d r) < 255" "avl c"
    and "height c = height l \<or> height c = height l + 1 \<and> (l = Leaf \<or> height (left c) \<noteq> height (right c))"
    and e: "e = max (height r) (height c) + 1" "frames_ok e fs"
    and t': "rebalance_subtree P (Node c y e r) fs = (t', fs')"
  shows "avl t' \<and> frames_ok (height t') fs' \<and> (height t' = height (Node l x d r) \<or>
    height t' = height (Node l x d r) + 1 \<and> height (left t') \<noteq> height (right t'))"
proof -
  have "height l < 254" "height r < 254" "avl r" using assms(1,2) by auto
  with assms have *: "avl t' \<and> height t' =
      (if height c = height r + 2 then height c else e)"
    using rebalance_avl [of c r e P y fs]
    by (auto simp: max.commute)
  moreover have "frames_ok (height t') fs'"
    using frames_ok_rebalance [of "Node c y e r" fs P] e t' * by simp
  moreover have "height c \<noteq> height r + 2 \<Longrightarrow> t' = Node c y e r"
    using t' assms(1,3,4) \<open>avl r\<close> by (auto simp: rebalance_id)
  moreover have "height (Node l x d r) = max (height r) (height l) + 1"
    "height l \<le> height r + 1" "height r \<le> height l + 1" using assms(1) by auto
  ultimately show ?thesis
  proof (cases "height c = height r + 2")
    case True
    with * assms(4) \<open>height l \<le> height r + 1\<close> have "height t' = height l + 1" "height l = height r + 1"
      by auto
    then have "height t' = height (Node l x d r)" by simp
    with * \<open>frames_ok (height t') fs'\<close> show ?thesis by blast
  next
    case False
    with \<open>height c \<noteq> height r + 2 \<Longrightarrow> t' = Node c y e r\<close> have t'': "t' = Node c y e r" .
    have m: "height t' = max (height r) (height c) + 1" using * False e(1) by simp
    have "height c = height l \<or> height c = height l + 1" using assms(4) by blast
    from max_step [OF this \<open>height r \<le> height l + 1\<close> \<open>height l \<le> height r + 1\<close> m]
    have "height t' = height (Node l x d r) \<or>
        height t' = height (Node l x d r) + 1 \<and> height r \<noteq> height c"
      by (simp only: height.simps max.commute [of "height l" "height r"])
    moreover have "height r \<noteq> height c \<Longrightarrow> height (left t') \<noteq> height (right t')"
      unfolding t'' by simp
    ultimately show ?thesis using * \<open>frames_ok (height t') fs'\<close> by blast
  qed
qed

lemma insert_node_avl:
  assumes "insert_node P n 1 t fs = (t', fs')" "avl t" "height t < 255" "frames_ok (height t) fs"
  shows "avl t' \<and> frames_ok (height t') fs' \<and> (height t' = height t \<or>
    height t' = height t + 1 \<and> (t = Leaf \<or> height (left t') \<noteq> height (right t')))"
  using assms
proof (induction t arbitrary: fs t' fs')
  case Leaf
  then show ?case using frames_ok_propagate [of 0 fs "Node Leaf n 1 Leaf" P] by auto
next
  case (Node l x d r)
  from Node.prems(1) obtain i c f fs1 t1 fs2 where i: "i = pol_higher P x n"
    and c: "insert_node P n 1 (if i then r else l) (Frame i x d (if i then l else r) # fs) = (c, f # fs1)"
    and t1: "recompute_depth P (plug f c) fs1 = (t1, fs2)"
    and t': "rebalance_subtree P t1 fs2 = (t', fs')"
    by (rule insert_node_NodeE)
  obtain y e where f: "f = Frame i y e (if i then l else r)"
    using avl_hook.same_frame_insert_child [OF trivial_hook c] by (cases f) auto
  show ?case
  proof (cases i)
    case True
    have "avl c \<and> frames_ok (height c) (f # fs1) \<and> (height c = height r \<or>
      height c = height r + 1 \<and> (r = Leaf \<or> height (left c) \<noteq> height (right c)))"
      using Node.IH(2) [of "Frame i x d l # fs" c "f # fs1"] c Node.prems by (simp add: True max.commute)
    with True f Node.prems have c': "avl c" "height c = height r \<or> height c = height r + 1"
      "height c = height r + 1 \<Longrightarrow> r = Leaf \<or> height (left c) \<noteq> height (right c)"
      and e: "e = max (height l) (height c) + 1" "frames_ok e fs1" by (auto simp: max.commute)
    with t1 True f Node.prems have "t1 = Node l (pol_recompute P (obj_of l) (obj_of c) y) e c" "fs2 = fs1"
      by (auto simp: new_depth_def)
    moreover have "height c = height r \<or> height c = height r + 1 \<and> (r = Leaf \<or> height (left c) \<noteq> height (right c))"
      using c'(2,3) by blast
    ultimately show ?thesis
      using insert_step_right [OF Node.prems(2,3) c'(1) _ e] t' by blast
  next
    case False
    have "avl c \<and> frames_ok (height c) (f # fs1) \<and> (height c = height l \<or>
      height c = height l + 1 \<and> (l = Leaf \<or> height (left c) \<noteq> height (right c)))"
      using Node.IH(1) [of "Frame i x d r # fs" c "f # fs1"] c Node.prems by (simp add: False)
    with False f Node.prems have c': "avl c" "height c = height l \<or> height c = height l + 1"
      "height c = height l + 1 \<Longrightarrow> l = Leaf \<or> height (left c) \<noteq> height (right c)"
      and e: "e = max (height r) (height c) + 1" "frames_ok e fs1" by (auto simp: max.commute)
    with t1 False f Node.prems have "t1 = Node c (pol_recompute P (obj_of c) (obj_of r) y) e r" "fs2 = fs1"
      by (auto simp: new_depth_def max.commute)
    moreover have "height c = height l \<or> height c = height l + 1 \<and> (l = Leaf \<or> height (left c) \<noteq> height (right c))"
      using c'(2,3) by blast
    ultimately show ?thesis
      using insert_step_left [OF Node.prems(2,3) c'(1) _ e] t' by blast
  qed
qed

lemma avl_insert_avl:
  assumes "avl t" "height t < 255"
  shows "avl (avl_insert P n 1 t)"
    and "height (avl_insert P n 1 t) = height t \<or> height (avl_insert P n 1 t) = height t + 1"
proof -
  obtain t' fs' where "insert_node P n 1 t [] = (t', fs')" by fastforce
  with insert_node_avl [OF this assms] show "avl (avl_insert P n 1 t)"
    "height (avl_insert P n 1 t) = height t \<or> height (avl_insert P n 1 t) = height t + 1"
    by (auto simp: avl_insert_def)
qed

lemma two_power_div_2:
  "n \<ge> 2 \<Longrightarrow> (2::nat) ^ (n div 2) = 2 * 2 ^ ((n - 2) div 2)"
  by (cases n; cases "n - 1") auto

lemma avl_size: "avl t \<Longrightarrow> 2 ^ (height t div 2) \<le> length (inorder t) + 1"
proof (induction t)
  case (Node l x d r)
  let ?h = "height (Node l x d r)"
  show ?case
  proof (cases "?h \<ge> 2")
    case True
    have "?h - 2 \<le> height l" "?h - 2 \<le> height r" using Node.prems by auto
    then have "(2::nat) ^ ((?h - 2) div 2) \<le> 2 ^ (height l div 2)" "(2::nat) ^ ((?h - 2) div 2) \<le> 2 ^ (height r div 2)"
      by (simp_all add: div_le_mono)
    moreover have "2 ^ (height l div 2) \<le> length (inorder l) + 1" "2 ^ (height r div 2) \<le> length (inorder r) + 1"
      using Node by simp_all
    ultimately have "2 * 2 ^ ((?h - 2) div 2) \<le> (length (inorder l) + 1) + (length (inorder r) + 1)"
      by linarith
    then show ?thesis unfolding two_power_div_2 [OF True] inorder.simps by simp
  next
    case False
    then have "?h div 2 = 0" by simp
    then show ?thesis unfolding \<open>?h div 2 = 0\<close> by simp
  qed
qed simp

lemma avl_height_bound:
  assumes "avl t" "length (inorder t) < 2 ^ 64"
  shows "height t < 130"
proof (rule ccontr)
  assume "\<not> height t < 130"
  then have "65 \<le> height t div 2" by simp
  then have "(2::nat) ^ 65 \<le> 2 ^ (height t div 2)" by (rule power_increasing) simp
  with avl_size [OF assms(1)] assms(2) show False by simp
qed


section \<open>Insertion keeps the hooks up to date\<close>

locale avl_meta = avl_hook P core for P :: "'a policy" and core :: "'a \<Rightarrow> 'c" +
  assumes recompute_twice [simp]:
    "pol_recompute P a b (pol_recompute P a' b' x) = pol_recompute P a b x"

fun hook_ok :: "'a policy \<Rightarrow> 'a tree \<Rightarrow> bool" where
  "hook_ok P Leaf = True"
| "hook_ok P (Node l x d r) =
     (hook_ok P l \<and> hook_ok P r \<and> x = pol_recompute P (obj_of l) (obj_of r) x)"

context avl_meta
begin

lemma hook_ok_recompute [simp]:
  "hook_ok P l \<Longrightarrow> hook_ok P r \<Longrightarrow> hook_ok P (fst (recompute_depth P (Node l x d r) fs))"
  by (simp add: Let_def)

lemma hook_ok_child: "hook_ok P t \<Longrightarrow> hook_ok P (child t i)"
  by (cases t) auto

lemma hook_ok_adopt:
  "hook_ok P (child t (\<not> i)) \<Longrightarrow> hook_ok P c \<Longrightarrow> hook_ok P (fst (adopt P c i t fs))"
  by (cases t; cases i) (simp_all add: adopt_def Let_def)

lemma hook_ok_rotate:
  assumes "hook_ok P t"
  shows "hook_ok P (fst (rotate_subtree P s t fs))"
proof (cases t)
  case (Node l x d r)
  with assms show ?thesis
    by (cases s; cases "child t (\<not> s)"; cases "child (child t (\<not> s)) s")
      (simp_all add: rotate_subtree_def Let_def split_beta adopt_detached_def, simp_all add: adopt_def)
qed (simp add: rotate_subtree_def bias_def child_depth_def adopt_def adopt_detached_def split_beta)

lemma hook_ok_rebalance: "hook_ok P t \<Longrightarrow> hook_ok P (fst (rebalance_subtree P t fs))"
  by (simp add: rebalance_subtree_def Let_def hook_ok_rotate)

lemma hook_ok_insert_node:
  assumes "insert_node P n nd t fs = (t', fs')" "hook_ok P t" "n = pol_recompute P None None n"
  shows "hook_ok P t'"
  using assms
proof (induction t arbitrary: fs t' fs')
  case (Node l x d r)
  from Node.prems(1) obtain i c f fs1 t1 fs2 where i: "i = pol_higher P x n"
    and c: "insert_node P n nd (if i then r else l) (Frame i x d (if i then l else r) # fs) = (c, f # fs1)"
    and t1: "recompute_depth P (plug f c) fs1 = (t1, fs2)"
    and t': "rebalance_subtree P t1 fs2 = (t', fs')"
    by (rule insert_node_NodeE)
  have "hook_ok P c" using Node.IH c Node.prems(2,3) by (cases i) simp_all
  moreover obtain y e where "f = Frame i y e (if i then l else r)"
    using same_frame_insert_child [OF c] by (cases f) auto
  ultimately have "hook_ok P (fst (recompute_depth P (plug f c) fs1))"
    using Node.prems(2) by (cases i) (simp_all del: recompute_depth.simps)
  with t1 t' hook_ok_rebalance [of t1 fs2] show ?case by simp
qed auto

lemma hook_ok_insert:
  "hook_ok P t \<Longrightarrow> n = pol_recompute P None None n \<Longrightarrow> hook_ok P (avl_insert P n nd t)"
  using hook_ok_insert_node [of n nd t "[]"] by (cases "insert_node P n nd t []") (simp add: avl_insert_def)

end



section \<open>The cached depths\<close>

text \<open>
  The depth in every node is what \<open>_recompute_depth\<close> would store.  Insertion and removal keep this,
  whatever the shape of the tree.
\<close>

fun depth_ok :: "'a tree \<Rightarrow> bool" where
  "depth_ok Leaf = True"
| "depth_ok (Node l x d r) = (depth_ok l \<and> depth_ok r \<and> d = new_depth l r)"

definition siblings_ok :: "'a frame list \<Rightarrow> bool" where
  "siblings_ok fs = (\<forall>f\<in>set fs. depth_ok (sibling f))"

lemma siblings_ok_simps [simp]:
  "siblings_ok []" "siblings_ok (f # fs) = (depth_ok (sibling f) \<and> siblings_ok fs)"
  "siblings_ok (fs @ gs) = (siblings_ok fs \<and> siblings_ok gs)"
  by (auto simp: siblings_ok_def)

lemma depth_ok_zip_up:
  "depth_ok (zip_up t fs) \<longleftrightarrow> depth_ok t \<and> siblings_ok fs \<and> frames_ok (depth_of t) fs"
proof (induction fs arbitrary: t)
  case (Cons f fs)
  then show ?case by (cases f) (auto simp: new_depth_def max.commute)
qed simp

lemma same_frames_siblings_ok: "same_frames core fs gs \<Longrightarrow> siblings_ok fs = siblings_ok gs"
  by (induction rule: list_all2_induct) (auto simp: same_frame_def)

lemma siblings_ok_ops [simp]:
  "siblings_ok (propagate P t fs) = siblings_ok fs"
  "siblings_ok (snd (recompute_depth P t fs)) = siblings_ok fs"
  "siblings_ok (snd (adopt P c i t fs)) = siblings_ok fs"
  "siblings_ok (snd (rebalance_subtree P t fs)) = siblings_ok fs"
  by (rule same_frames_siblings_ok, rule avl_hook.same_frames_propagate [OF trivial_hook],
      rule same_frames_siblings_ok, rule avl_hook.same_frames_recompute_depth [OF trivial_hook],
      rule same_frames_siblings_ok, rule avl_hook.same_frames_adopt [OF trivial_hook],
      rule same_frames_siblings_ok, rule avl_hook.same_frames_rebalance [OF trivial_hook])

lemma depth_ok_adopt: "depth_ok t \<Longrightarrow> depth_ok c \<Longrightarrow> depth_ok (fst (adopt P c i t fs))"
  by (cases t; cases i) (simp_all add: adopt_def Let_def)

lemma depth_ok_rotate:
  assumes "depth_ok t"
  shows "depth_ok (fst (rotate_subtree P s t fs))"
proof (cases t)
  case (Node l x d r)
  with assms show ?thesis
    by (cases s; cases "child t (\<not> s)"; cases "child (child t (\<not> s)) s")
      (simp_all add: rotate_subtree_def Let_def split_beta adopt_detached_def, simp_all add: adopt_def)
qed (simp add: rotate_subtree_def bias_def child_depth_def adopt_def adopt_detached_def split_beta)

lemma depth_ok_rebalance: "depth_ok t \<Longrightarrow> depth_ok (fst (rebalance_subtree P t fs))"
  by (simp add: rebalance_subtree_def Let_def depth_ok_rotate)

lemma depth_ok_rebalance_up:
  "depth_ok t \<Longrightarrow> siblings_ok fs \<Longrightarrow> frames_ok (depth_of t) fs \<Longrightarrow> depth_ok (rebalance_up k P t fs)"
proof (induction k arbitrary: t fs)
  case 0
  then show ?case by (simp add: depth_ok_zip_up)
next
  case (Suc k)
  let ?t = "fst (rebalance_subtree P t fs)" and ?fs = "snd (rebalance_subtree P t fs)"
  have "depth_ok ?t" "siblings_ok ?fs" "frames_ok (depth_of ?t) ?fs"
    using Suc.prems depth_ok_rebalance frames_ok_rebalance by auto
  with Suc.IH show ?case
    by (cases ?fs; cases "hd ?fs") (auto simp: split_beta new_depth_def max.commute)
qed

lemma frames_ok_append:
  "frames_ok d (fs @ gs) \<longleftrightarrow> frames_ok d fs \<and> frames_ok (if fs = [] then d else frame_depth (last fs)) gs"
proof (induction fs arbitrary: d)
  case (Cons f fs)
  then show ?case by (cases f) auto
qed simp

lemma siblings_ok_take: "siblings_ok fs \<Longrightarrow> siblings_ok (take n fs)"
  and siblings_ok_drop: "siblings_ok fs \<Longrightarrow> siblings_ok (drop n fs)"
  by (auto simp: siblings_ok_def dest: in_set_takeD in_set_dropD)

lemma depth_ok_remove_node:
  assumes "depth_ok (Node l x d r)" "siblings_ok fs" "frames_ok d fs"
  shows "depth_ok (remove_node P (Node l x d r) fs)"
proof (cases "l = Leaf")
  case True
  then show ?thesis
    using assms by (auto simp: remove_node_def depth_ok_zip_up intro: frames_ok_propagate)
next
  case False
  obtain ll lx ld lr inner where m: "right_most l [] = (Node ll lx ld lr, inner)"
    using right_most_shape [OF False, of "[]"] by (cases "right_most l []") auto
  then have lr: "lr = Leaf" using right_most_inorder [OF m] by simp
  have l: "depth_ok (Node ll lx ld Leaf)" "siblings_ok inner" "frames_ok ld inner"
    using assms(1) right_most_zip [OF m] depth_ok_zip_up [of "Node ll lx ld lr" inner] lr by auto
  define adopted where "adopted = propagate P ll (inner @ Frame LEFT x d r # fs)"
  define inner1 where "inner1 = take (length inner) adopted"
  define outer1 where "outer1 = drop (Suc (length inner)) adopted"
  have "zip_up (Node ll lx ld Leaf) (inner @ Frame LEFT x d r # fs) = zip_up (Node l x d r) fs"
    using right_most_zip [OF m] lr by (simp add: zip_up_append)
  moreover have "depth_ok (zip_up (Node l x d r) fs)" using assms by (simp add: depth_ok_zip_up)
  ultimately have "depth_ok (zip_up (Node ll lx ld Leaf) (inner @ Frame LEFT x d r # fs))"
    by (simp only:)
  then have "siblings_ok (inner @ Frame LEFT x d r # fs)" "frames_ok ld (inner @ Frame LEFT x d r # fs)"
    unfolding depth_ok_zip_up depth_of.simps by blast+
  then have ad: "siblings_ok adopted" "frames_ok (depth_of ll) adopted"
    by (auto simp: adopted_def intro: frames_ok_propagate)
  have "length inner < length adopted" by (simp add: adopted_def)
  then obtain g where g: "adopted = inner1 @ g # outer1"
    using id_take_nth_drop unfolding inner1_def outer1_def by blast
  from ad g have i1: "siblings_ok inner1" "frames_ok (depth_of ll) inner1"
    and o1: "siblings_ok outer1" "frames_ok (frame_depth g) outer1"
    by (cases g; simp add: frames_ok_append)+
  define l0 where "l0 = zip_up ll inner1"
  have l0: "depth_ok l0" using l(1) i1 by (simp add: l0_def depth_ok_zip_up)
  let ?l1 = "Node ll lx ld Leaf"
  define outer2 where "outer2 = propagate P ?l1 outer1"
  define l2 where "l2 = fst (adopt P l0 LEFT ?l1 outer2)"
  define outer3 where "outer3 = snd (adopt P l0 LEFT ?l1 outer2)"
  define l3 where "l3 = fst (adopt P r RIGHT l2 outer3)"
  define outer4 where "outer4 = snd (adopt P r RIGHT l2 outer3)"
  have a2: "adopt P l0 LEFT ?l1 outer2 = (l2, outer3)" and a3: "adopt P r RIGHT l2 outer3 = (l3, outer4)"
    by (simp_all only: l2_def outer3_def l3_def outer4_def prod.collapse)
  have "frames_ok (depth_of ?l1) outer2" unfolding outer2_def by (rule frames_ok_propagate [OF o1(2)])
  then have "frames_ok (depth_of l2) outer3" unfolding l2_def outer3_def by (rule frames_ok_adopt)
  then have "frames_ok (depth_of l3) outer4" unfolding l3_def outer4_def by (rule frames_ok_adopt)
  moreover have "depth_ok l3" using l(1) l0 assms(1) by (simp add: l3_def l2_def depth_ok_adopt)
  moreover have "siblings_ok outer4" using o1 by (simp add: outer4_def outer3_def outer2_def)
  ultimately have z: "depth_ok (zip_up l3 outer4)" by (simp add: depth_ok_zip_up)
  obtain lx3 ld3 where l3: "l3 = Node l0 lx3 ld3 r" by (simp add: l3_def l2_def)
  have eq: "remove_node P (Node l x d r) fs = (case inner1 of [] \<Rightarrow> zip_up l3 outer4
      | q # inner2 \<Rightarrow> rebalance_up (Suc (length (inner2 @ Frame LEFT lx3 ld3 r # outer4))) P (plug q ll)
          (inner2 @ Frame LEFT lx3 ld3 r # outer4))"
    using False a2 a3 l3
    by (simp add: remove_node_def m lr Let_def adopted_def [symmetric] inner1_def [symmetric]
        outer1_def [symmetric] l0_def [symmetric] outer2_def [symmetric]
        del: rebalance_up.simps fst_adopt_Node split: list.split)
  show ?thesis
  proof (cases inner1)
    case Nil
    with eq z show ?thesis by simp
  next
    case (Cons q inner2)
    have "depth_ok (zip_up (plug q ll) (inner2 @ Frame LEFT lx3 ld3 r # outer4))"
      using z by (simp add: zip_up_append l3 l0_def Cons)
    then show ?thesis
      unfolding eq Cons list.case by (intro depth_ok_rebalance_up) (simp_all only: depth_ok_zip_up)
  qed
qed

lemma depth_ok_remove:
  assumes "depth_ok t"
  shows "depth_ok (avl_remove P p t)"
proof -
  obtain n fs where nf: "focus p t [] = (n, fs)" by fastforce
  from assms have "depth_ok (zip_up n fs)" using focus_zip [OF nf] by simp
  then have "depth_ok n" "siblings_ok fs" "frames_ok (depth_of n) fs" by (simp_all add: depth_ok_zip_up)
  then show ?thesis
  proof (cases n)
    case Leaf
    then show ?thesis using focus_zip [OF nf] assms nf by (simp add: avl_remove_def remove_node_def)
  next
    case (Node l x d r)
    with \<open>depth_ok n\<close> \<open>siblings_ok fs\<close> \<open>frames_ok (depth_of n) fs\<close> show ?thesis
      using depth_ok_remove_node [of l x d r fs P] nf by (simp add: avl_remove_def del: depth_ok.simps)
  qed
qed

end
