(* ===== verification/Misc_Math.thy ===== *)
theory Misc_Math
  imports Genode_Prelude
begin

unbundle bit_operations_syntax

text \<open>
  The helpers of \<open>base/include/util/misc_math.h\<close>: alignment to powers of two and the binary
  logarithm.  They are templates over the integer type; a shift by the width of the type or more is
  undefined in the code, so the lemmas ask for a smaller shift.
\<close>

definition align_offset :: "nat \<Rightarrow> 'a::len word" where
  "align_offset align = push_bit align 1 - 1"

definition align_mask :: "nat \<Rightarrow> 'a::len word" where
  "align_mask align = NOT (push_bit align 1 - 1)"

definition align_addr :: "'a::len word \<Rightarrow> nat \<Rightarrow> 'a word" where
  "align_addr a align = (a + align_offset align) AND align_mask align"

text \<open>\<open>log2\<close> scans from the most significant bit down and yields \<open>-1\<close> for zero.\<close>

fun log2_scan :: "'a::len word \<Rightarrow> nat \<Rightarrow> int" where
  "log2_scan v 0 = -1"
| "log2_scan v (Suc i) = (if (push_bit i 1 AND v) \<noteq> 0 then int i else log2_scan v i)"

definition log2 :: "'a::len word \<Rightarrow> int" where
  "log2 v = (if v = 0 then -1 else log2_scan v LENGTH('a))"

text \<open>\<open>align_natural\<close>, with \<open>sizeof(long) = 8\<close>.\<close>

definition align_natural :: "'a::len word \<Rightarrow> 'a word" where
  "align_natural v = (let m = 8 - 1 in (v + m) AND NOT m)"


section \<open>Alignment\<close>

lemma align_offset_mask: "align_offset n = mask n"
  by (simp add: align_offset_def mask_eq_exp_minus_1 push_bit_eq_mult)

lemma and_not_mask: "w AND NOT (mask n) = push_bit n (drop_bit n (w :: 'a::len word))"
  by (rule bit_word_eqI) (auto simp: bit_simps)

lemma align_addr_shift: "align_addr a n = push_bit n (drop_bit n (a + mask n))"
proof -
  have "align_mask n = (NOT (mask n) :: 'a::len word)"
    by (simp add: align_mask_def align_offset_mask [symmetric] align_offset_def)
  then show ?thesis by (simp add: align_addr_def align_offset_mask and_not_mask)
qed

lemma unat_two_power: "n < LENGTH('a) \<Longrightarrow> unat (2 ^ n :: 'a::len word) = 2 ^ n"
  by (metis of_nat_numeral of_nat_power power_strict_increasing_iff one_less_numeral_iff
      semiring_norm(76) take_bit_nat_eq_self unsigned_of_nat)

lemma unat_push_drop: "unat (push_bit n (drop_bit n (w :: 'a::len word))) = unat w div 2 ^ n * 2 ^ n"
proof (cases "n < LENGTH('a)")
  case True
  have "unat (drop_bit n w) = unat w div 2 ^ n" by (simp only: unsigned_drop_bit_eq) (simp add: drop_bit_eq_div take_bit_nat_eq_self)
  moreover have "unat w div 2 ^ n * 2 ^ n < 2 ^ LENGTH('a)"
    using unsigned_less [of w] by (metis div_times_less_eq_dividend le_less_trans)
  ultimately show ?thesis
    by (simp add: push_bit_eq_mult unat_word_ariths True unat_two_power)
next
  case False
  then have "unat w div 2 ^ n = 0"
    using unsigned_less [of w] by (metis div_less less_le_trans not_less one_le_numeral power_increasing)
  with False show ?thesis by (simp add: push_bit_eq_mult)
qed

lemma unat_align_addr:
  fixes a :: "'a::len word"
  assumes "unat a + (2 ^ n - 1) < 2 ^ LENGTH('a)" "n < LENGTH('a)"
  shows "unat (align_addr a n) = (unat a + (2 ^ n - 1)) div 2 ^ n * 2 ^ n"
proof -
  have "unat (mask n :: 'a word) = 2 ^ n - 1"
    using assms(2) by (simp add: mask_eq_exp_minus_1 unat_sub_no_wrap word_le_nat_alt unat_two_power)
  then show ?thesis using assms by (simp add: align_addr_shift unat_push_drop unat_add_no_wrap)
qed

lemma align_addr_dvd: "2 ^ n dvd unat (align_addr (a :: 'a::len word) n)"
  by (simp add: align_addr_shift unat_push_drop)

lemma align_addr_least:
  fixes a :: "'a::len word"
  assumes "unat a + (2 ^ n - 1) < 2 ^ LENGTH('a)" "n < LENGTH('a)"
  shows "a \<le> align_addr a n" and "unat (align_addr a n) < unat a + 2 ^ n"
proof -
  let ?s = "unat a + (2 ^ n - 1)"
  have "?s = ?s div 2 ^ n * 2 ^ n + ?s mod 2 ^ n" by (rule div_mult_mod_eq [symmetric])
  moreover have "?s mod 2 ^ n < 2 ^ n" by simp
  ultimately have "unat a \<le> ?s div 2 ^ n * 2 ^ n" by linarith
  then show "a \<le> align_addr a n" using unat_align_addr [OF assms] by (simp add: word_le_nat_alt)
  have "?s div 2 ^ n * 2 ^ n \<le> ?s" by simp
  then have "?s div 2 ^ n * 2 ^ n < unat a + 2 ^ n" by (rule le_less_trans) simp
  then show "unat (align_addr a n) < unat a + 2 ^ n" using unat_align_addr [OF assms] by simp
qed

lemma align_natural_eq: "align_natural v = align_addr v 3"
  by (simp add: align_natural_def align_addr_def align_offset_def align_mask_def push_bit_eq_mult)

end
