(* ===== verification/Allocator_Avl.thy ===== *)
theory Allocator_Avl
  imports Avl_Balance Misc_Math
begin

text \<open>
  The range allocator of \<open>base/include/base/allocator_avl.h\<close> and
  \<open>base/src/lib/base/allocator_avl.cc\<close>: an AVL tree of free and used blocks, sorted by address,
  in which every node caches the size of the biggest free block below it.
  A pointer to a block is the path to its node.  The allocator of the block meta data is code
  outside of this component: the parameter \<open>md\<close> says for each request, by its number, whether it
  succeeds; the state counts the requests and the entries that are currently allocated.
\<close>

section \<open>Blocks\<close>

record block =
  b_addr :: addr
  b_size :: size
  b_used :: bool
  b_max_avail :: size

definition b_avail :: "block \<Rightarrow> size" where
  "b_avail b = (if b_used b then 0 else b_size b)"

definition mk_block :: "addr \<Rightarrow> size \<Rightarrow> bool \<Rightarrow> block" where
  "mk_block a s u = \<lparr> b_addr = a, b_size = s, b_used = u, b_max_avail = (if u then 0 else s) \<rparr>"

text \<open>\<open>_child_max_avail\<close> and the hook \<open>recompute\<close>.\<close>

definition opt_max_avail :: "block option \<Rightarrow> size" where
  "opt_max_avail ob = (case ob of None \<Rightarrow> 0 | Some b \<Rightarrow> b_max_avail b)"

definition block_recompute :: "block option \<Rightarrow> block option \<Rightarrow> block \<Rightarrow> block" where
  "block_recompute l r b =
     b\<lparr> b_max_avail := max (b_avail b) (max (opt_max_avail l) (opt_max_avail r)) \<rparr>"

definition block_higher :: "block \<Rightarrow> block \<Rightarrow> bool" where
  "block_higher b a = (b_addr a \<ge> b_addr b)"

definition block_policy :: "block policy" where
  "block_policy = \<lparr> pol_higher = block_higher, pol_recompute = block_recompute \<rparr>"

definition sum_in_range :: "addr \<Rightarrow> addr \<Rightarrow> bool" where
  "sum_in_range a offset = (NOT 0 - a > offset)"

definition fits :: "block \<Rightarrow> size \<Rightarrow> nat \<Rightarrow> addr \<Rightarrow> addr \<Rightarrow> bool" where
  "fits b n align from to =
     (let a = align_addr (if b_addr b < from then from else b_addr b) align in
      a \<ge> b_addr b \<and> sum_in_range a n \<and> a - b_addr b + n \<le> b_avail b \<and> a + n - 1 \<le> to)"

text \<open>
  \<open>find_best_fit\<close>: the subtree with the lower maximum is tried first; a subtree whose maximum is
  below the size is skipped.
\<close>

fun find_best_fit :: "block tree \<Rightarrow> size \<Rightarrow> nat \<Rightarrow> addr \<Rightarrow> addr \<Rightarrow> (bool list \<times> block) option" where
  "find_best_fit Leaf n align from to = None"
| "find_best_fit (Node l b d r) n align from to =
     (let max0 = opt_max_avail (obj_of l);
          max1 = opt_max_avail (obj_of r);
          res0 = (if max0 < n then None
                  else map_option (apfst (Cons LEFT)) (find_best_fit l n align from to));
          res1 = (if max1 < n then None
                  else map_option (apfst (Cons RIGHT)) (find_best_fit r n align from to));
          (first, second) = (if max1 < max0 then (res1, res0) else (res0, res1));
          fit = fits b n align from to;
          pick = (\<lambda>(p, res). if fit \<and> n < b_size res then Some ([], b) else Some (p, res))
      in case first of
           Some res \<Rightarrow> pick res
         | None \<Rightarrow> (case second of
             Some res \<Rightarrow> pick res
           | None \<Rightarrow> if fit then Some ([], b) else None))"

fun find_by_address :: "block tree \<Rightarrow> addr \<Rightarrow> size \<Rightarrow> bool \<Rightarrow> (bool list \<times> block) option" where
  "find_by_address Leaf a n check_overlap = None"
| "find_by_address (Node l b d r) a n check_overlap =
     (let n' = (if n \<noteq> 0 then n else 1) in
      if check_overlap \<and> a + n' - 1 \<ge> b_addr b \<and> b_addr b + b_size b - 1 \<ge> a then Some ([], b)
      else if a \<ge> b_addr b \<and> a + n' - 1 \<le> b_addr b + b_size b - 1 then Some ([], b)
      else if a \<ge> b_addr b then map_option (apfst (Cons RIGHT)) (find_by_address r a n' check_overlap)
      else map_option (apfst (Cons LEFT)) (find_by_address l a n' check_overlap))"

fun avail_in_subtree :: "block tree \<Rightarrow> size" where
  "avail_in_subtree Leaf = 0"
| "avail_in_subtree (Node l b d r) = b_avail b + avail_in_subtree l + avail_in_subtree r"

fun find_any_used_block :: "block tree \<Rightarrow> (bool list \<times> block) option" where
  "find_any_used_block Leaf = None"
| "find_any_used_block (Node l b d r) =
     (if b_used b then Some ([], b)
      else case find_any_used_block l of
        Some (p, b') \<Rightarrow> Some (LEFT # p, b')
      | None \<Rightarrow> map_option (apfst (Cons RIGHT)) (find_any_used_block r))"


section \<open>Allocator\<close>

record allocator =
  addr_tree :: "block tree"
  md_calls :: nat
  md_live :: int

type_synonym md_oracle = "nat \<Rightarrow> bool"

datatype alloc_return = OK | OUT_OF_METADATA | RANGE_CONFLICT

definition empty_allocator :: allocator where
  "empty_allocator = \<lparr> addr_tree = Leaf, md_calls = 0, md_live = 0 \<rparr>"

definition alloc_block_metadata :: "md_oracle \<Rightarrow> allocator \<Rightarrow> bool \<times> allocator" where
  "alloc_block_metadata md s =
     (let ok = md (md_calls s)
      in (ok, s\<lparr> md_calls := Suc (md_calls s), md_live := md_live s + (if ok then 1 else 0) \<rparr>))"

definition md_free :: "allocator \<Rightarrow> allocator" where
  "md_free s = s\<lparr> md_live := md_live s - 1 \<rparr>"

definition alloc_two_blocks_metadata :: "md_oracle \<Rightarrow> allocator \<Rightarrow> bool \<times> allocator" where
  "alloc_two_blocks_metadata md s =
     (let (dst1, s1) = alloc_block_metadata md s;
          (dst2, s2) = alloc_block_metadata md s1;
          s3 = (if \<not> dst1 \<and> dst2 then md_free s2 else s2);
          s4 = (if \<not> dst2 \<and> dst1 then md_free s3 else s3)
      in (dst1 \<and> dst2, s4))"

text \<open>
  \<open>_add_block\<close> with a valid meta-data pointer: \<open>construct_at\<close> yields a node of depth 1.
\<close>

definition add_block :: "addr \<Rightarrow> size \<Rightarrow> bool \<Rightarrow> allocator \<Rightarrow> allocator" where
  "add_block base n used s =
     s\<lparr> addr_tree := avl_insert block_policy (mk_block base n used) 1 (addr_tree s) \<rparr>"

definition destroy_block :: "bool list \<Rightarrow> allocator \<Rightarrow> allocator" where
  "destroy_block p s = md_free (s\<lparr> addr_tree := avl_remove block_policy p (addr_tree s) \<rparr>)"

text \<open>\<open>_cut_from_block\<close>: \<open>p\<close> is the pointer to block \<open>b\<close>; the entries \<open>dst1\<close> and \<open>dst2\<close> are used or freed.\<close>

definition cut_from_block :: "bool list \<Rightarrow> block \<Rightarrow> addr \<Rightarrow> size \<Rightarrow> allocator \<Rightarrow> allocator" where
  "cut_from_block p b a n s =
     (let padding = (if a > b_addr b then a - b_addr b else 0);
          remaining = (if b_size b > n + padding then b_size b - n - padding else 0);
          orig_addr = b_addr b;
          s1 = destroy_block p s;
          s2 = (if padding > 0 then add_block orig_addr padding False s1 else md_free s1)
      in if remaining > 0 then add_block (a + n) remaining False s2 else md_free s2)"

definition find_in :: "allocator \<Rightarrow> addr \<Rightarrow> size \<Rightarrow> bool \<Rightarrow> (bool list \<times> block) option" where
  "find_in s a n check_overlap = find_by_address (addr_tree s) a n check_overlap"

text \<open>The two merge steps of \<open>add_range\<close>.\<close>

definition merge_predecessor :: "addr \<Rightarrow> size \<Rightarrow> allocator \<Rightarrow> addr \<times> size \<times> allocator" where
  "merge_predecessor new_addr new_size s =
     (case (if new_addr \<noteq> 0 then find_in s (new_addr - 1) 0 False else None) of
        Some (p, b) \<Rightarrow>
          if \<not> b_used b then (b_addr b, new_size + b_size b, destroy_block p s)
          else (new_addr, new_size, s)
      | None \<Rightarrow> (new_addr, new_size, s))"

definition merge_successor :: "addr \<Rightarrow> size \<Rightarrow> allocator \<Rightarrow> size \<times> allocator" where
  "merge_successor new_addr new_size s =
     (case find_in s (new_addr + new_size) 0 False of
        Some (p, b) \<Rightarrow>
          if \<not> b_used b then (new_size + b_size b, destroy_block p s) else (new_size, s)
      | None \<Rightarrow> (new_size, s))"

definition add_range :: "md_oracle \<Rightarrow> addr \<Rightarrow> size \<Rightarrow> allocator \<Rightarrow> int \<times> allocator" where
  "add_range md new_addr new_size s =
     (if new_size = 0 then (-2, s)
      else if find_in s new_addr new_size True \<noteq> None then (-3, s)
      else
        (let (ok, s1) = alloc_block_metadata md s in
         if \<not> ok then (-4, s1)
         else
           (let (a1, n1, s2) = merge_predecessor new_addr new_size s1;
                (n2, s3) = merge_successor a1 n1 s2
            in (0, add_block a1 n2 False s3))))"

text \<open>
  The loop of \<open>remove_range\<close>; nothing in the code bounds it, so that not returning is \<open>None\<close>.
\<close>

partial_function (option) remove_range_loop ::
    "md_oracle \<Rightarrow> addr \<Rightarrow> size \<Rightarrow> allocator \<Rightarrow> (int \<times> allocator) option" where
  "remove_range_loop md base n s =
     (case find_in s base n True of
        None \<Rightarrow> Some (0, md_free (md_free s))
      | Some (p, b) \<Rightarrow>
          if b_avail b = 0 then Some (-3, md_free (md_free s))
          else
            (let intersect_beg = max base (b_addr b);
                 intersect_end = min (base + n - 1) (b_addr b + b_size b - 1);
                 s1 = cut_from_block p b intersect_beg (intersect_end - intersect_beg + 1) s;
                 (ok, s2) = alloc_two_blocks_metadata md s1
             in if \<not> ok then Some (-4, s2) else remove_range_loop md base n s2))"

definition remove_range :: "md_oracle \<Rightarrow> addr \<Rightarrow> size \<Rightarrow> allocator \<Rightarrow> (int \<times> allocator) option" where
  "remove_range md base n s =
     (if n = 0 then Some (-1, s)
      else
        (let (ok, s1) = alloc_two_blocks_metadata md s
         in if \<not> ok then Some (-2, s1) else remove_range_loop md base n s1))"

definition alloc_aligned ::
    "md_oracle \<Rightarrow> size \<Rightarrow> nat \<Rightarrow> addr \<Rightarrow> addr \<Rightarrow> allocator \<Rightarrow> (alloc_return \<times> addr option) \<times> allocator" where
  "alloc_aligned md n align from to s =
     (let (ok, s1) = alloc_two_blocks_metadata md s in
      if \<not> ok then ((OUT_OF_METADATA, None), s1)
      else
        (case find_best_fit (addr_tree s1) n align from to of
           None \<Rightarrow> ((RANGE_CONFLICT, None), md_free (md_free s1))
         | Some (p, b) \<Rightarrow>
             (let new_addr = align_addr (if b_addr b < from then from else b_addr b) align;
                  s2 = cut_from_block p b new_addr n s1;
                  (ok', s3) = alloc_block_metadata md s2
              in if \<not> ok' then ((OUT_OF_METADATA, None), s3)
                 else ((OK, Some new_addr), add_block new_addr n True s3))))"

definition alloc_addr :: "md_oracle \<Rightarrow> size \<Rightarrow> addr \<Rightarrow> allocator \<Rightarrow> alloc_return \<times> allocator" where
  "alloc_addr md n a s =
     (if \<not> sum_in_range a n then (RANGE_CONFLICT, s)
      else
        (let (ok, s1) = alloc_two_blocks_metadata md s in
         if \<not> ok then (OUT_OF_METADATA, s1)
         else
           (case find_in s1 a n False of
              None \<Rightarrow> (RANGE_CONFLICT, md_free (md_free s1))
            | Some (p, b) \<Rightarrow>
                if b_used b then (RANGE_CONFLICT, md_free (md_free s1))
                else
                  (let s2 = cut_from_block p b a n s1;
                       (ok', s3) = alloc_block_metadata md s2
                   in if \<not> ok' then (OUT_OF_METADATA, s3) else (OK, add_block a n True s3)))))"

text \<open>\<open>free\<close> drops the result of \<open>add_range\<close>.\<close>

definition free_addr :: "md_oracle \<Rightarrow> addr \<Rightarrow> allocator \<Rightarrow> allocator" where
  "free_addr md a s =
     (case find_in s a 0 False of
        None \<Rightarrow> s
      | Some (p, b) \<Rightarrow>
          if \<not> b_used b then s
          else snd (add_range md (b_addr b) (b_size b) (destroy_block p s)))"

definition size_at :: "addr \<Rightarrow> allocator \<Rightarrow> size" where
  "size_at a s =
     (case find_in s a 0 False of
        Some (p, b) \<Rightarrow> if b_used b then b_size b else 0 | None \<Rightarrow> 0)"

definition any_block_addr :: "allocator \<Rightarrow> bool \<times> addr" where
  "any_block_addr s =
     (case find_any_used_block (addr_tree s) of
        Some (p, b) \<Rightarrow> (True, b_addr b) | None \<Rightarrow> (False, 0))"

definition avail :: "allocator \<Rightarrow> size" where
  "avail s = avail_in_subtree (addr_tree s)"

definition valid_addr :: "addr \<Rightarrow> allocator \<Rightarrow> bool" where
  "valid_addr a s = (find_in s a 0 False \<noteq> None)"

text \<open>
  \<open>_revert_allocations_and_ranges\<close>, which the destructor runs: first it frees blocks while there is a
  used one, then it removes the range of the block at the root of the tree until the tree is empty.
\<close>

partial_function (option) revert_allocations :: "md_oracle \<Rightarrow> nat \<Rightarrow> allocator \<Rightarrow> (nat \<times> allocator) option" where
  "revert_allocations md dangling s =
     (if fst (any_block_addr s)
      then revert_allocations md (Suc dangling) (free_addr md (snd (any_block_addr s)) s)
      else Some (dangling, s))"

partial_function (option) revert_ranges :: "md_oracle \<Rightarrow> allocator \<Rightarrow> allocator option" where
  "revert_ranges md s =
     (case addr_tree s of
        Leaf \<Rightarrow> Some s
      | Node l b d r \<Rightarrow>
          (case remove_range md (b_addr b) (b_size b) s of
             None \<Rightarrow> None
           | Some (_, s1) \<Rightarrow> revert_ranges md s1))"

declare remove_range_loop.simps [code] revert_allocations.simps [code] revert_ranges.simps [code]

end
