(* ===== verification/Allocator_Blocks.thy ===== *)
theory Allocator_Blocks
  imports Allocator_Avl
begin

text \<open>
  The allocator seen from outside: the sequence of its blocks, each an address, a size and a used
  flag.  The invariant is that no block is empty, none reaches beyond the end of the address space,
  and each ends before the next one begins.  The lemmas here say what the searches find and what
  adding, destroying and cutting blocks does to the sequence.
\<close>

type_synonym blk = "addr \<times> size \<times> bool"

definition core_of :: "block \<Rightarrow> blk" where
  "core_of b = (b_addr b, b_size b, b_used b)"

definition blk_lo :: "blk \<Rightarrow> nat" where "blk_lo c = unat (fst c)"
definition blk_hi :: "blk \<Rightarrow> nat" where "blk_hi c = unat (fst c) + unat (fst (snd c))"
definition blk_used :: "blk \<Rightarrow> bool" where "blk_used c = snd (snd c)"

definition blk_ok :: "blk \<Rightarrow> bool" where
  "blk_ok c \<longleftrightarrow> fst (snd c) \<noteq> 0 \<and> blk_hi c \<le> 2 ^ 64"

definition blk_disjoint :: "blk \<Rightarrow> blk \<Rightarrow> bool" where
  "blk_disjoint c d \<longleftrightarrow> blk_hi c \<le> blk_lo d \<or> blk_hi d \<le> blk_lo c"

definition wf_blocks :: "blk list \<Rightarrow> bool" where
  "wf_blocks xs \<longleftrightarrow> (\<forall>c\<in>set xs. blk_ok c) \<and> sorted_wrt (\<lambda>c d. blk_hi c \<le> blk_lo d) xs"

definition tree_blocks :: "block tree \<Rightarrow> blk list" where
  "tree_blocks t = map core_of (inorder t)"

definition blocks :: "allocator \<Rightarrow> blk list" where
  "blocks s = tree_blocks (addr_tree s)"

definition points_to :: "bool list \<Rightarrow> block \<Rightarrow> block tree \<Rightarrow> bool" where
  "points_to p b t \<longleftrightarrow> (\<exists>l d r fs. focus p t [] = (Node l b d r, fs))"

interpretation bt: avl_policy block_policy core_of fst
  by unfold_locales (auto simp: block_policy_def core_of_def block_recompute_def block_higher_def)

interpretation bm: avl_meta block_policy core_of
  by unfold_locales (auto simp: block_policy_def block_recompute_def b_avail_def)

lemma blk_lo_less_hi: "blk_ok c \<Longrightarrow> blk_lo c < blk_hi c"
  by (auto simp: blk_ok_def blk_lo_def blk_hi_def unat_gt_0)

lemma wf_blocks_append:
  "wf_blocks (xs @ ys) \<longleftrightarrow> wf_blocks xs \<and> wf_blocks ys \<and> (\<forall>c\<in>set xs. \<forall>d\<in>set ys. blk_hi c \<le> blk_lo d)"
  by (auto simp: wf_blocks_def sorted_wrt_append)

lemma wf_blocks_Cons:
  "wf_blocks (c # xs) \<longleftrightarrow> blk_ok c \<and> wf_blocks xs \<and> (\<forall>d\<in>set xs. blk_hi c \<le> blk_lo d)"
  by (auto simp: wf_blocks_def)

lemma wf_blocks_Nil [simp]: "wf_blocks []"
  by (simp add: wf_blocks_def)

lemma wf_blocks_sorted: "wf_blocks xs \<Longrightarrow> sorted (map fst xs)"
proof (induction xs)
  case (Cons c xs)
  then have "\<forall>d\<in>set xs. fst c \<le> fst d"
    using blk_lo_less_hi by (fastforce simp: wf_blocks_Cons blk_lo_def word_le_nat_alt)
  with Cons show ?case by (auto simp: wf_blocks_Cons)
qed simp

lemma wf_blocks_distinct: "wf_blocks xs \<Longrightarrow> distinct xs"
proof (induction xs)
  case (Cons c xs)
  then show ?case using blk_lo_less_hi by (fastforce simp: wf_blocks_Cons)
qed simp

lemma wf_blocks_disjoint:
  "wf_blocks xs \<Longrightarrow> c \<in> set xs \<Longrightarrow> d \<in> set xs \<Longrightarrow> c \<noteq> d \<Longrightarrow> blk_disjoint c d"
  by (induction xs) (auto simp: wf_blocks_Cons blk_disjoint_def)

lemma wf_blocks_ok: "wf_blocks xs \<Longrightarrow> c \<in> set xs \<Longrightarrow> blk_ok c"
  by (simp add: wf_blocks_def)

text \<open>Adding a block that is disjoint from all others, and taking one out.\<close>

lemma wf_blocks_insert:
  assumes "wf_blocks xs" "blk_ok c" "\<forall>d\<in>set xs. blk_disjoint c d"
  shows "wf_blocks (ins_after fst c xs)"
  using assms
proof (induction xs)
  case Nil
  then show ?case by (simp add: ins_after_def wf_blocks_Cons)
next
  case (Cons d xs)
  have d: "blk_ok d" "wf_blocks xs" "\<forall>e\<in>set xs. blk_hi d \<le> blk_lo e" "blk_disjoint c d"
    using Cons.prems by (auto simp: wf_blocks_Cons)
  note ord = blk_lo_less_hi [OF Cons.prems(2)] blk_lo_less_hi [OF d(1)]
  show ?case
  proof (cases "fst d \<le> fst c")
    case True
    then have "blk_lo d \<le> blk_lo c" by (simp add: blk_lo_def word_le_nat_alt)
    with d(4) ord have "blk_hi d \<le> blk_lo c" by (auto simp: blk_disjoint_def)
    moreover have "ins_after fst c (d # xs) = d # ins_after fst c xs" using True by (simp add: ins_after_def)
    ultimately show ?thesis using Cons d by (simp add: wf_blocks_Cons set_ins_after)
  next
    case False
    then have "blk_lo c < blk_lo d" by (simp add: blk_lo_def word_less_nat_alt not_le)
    with d(4) ord have cd: "blk_hi c \<le> blk_lo d" by (auto simp: blk_disjoint_def)
    moreover have "\<forall>e\<in>set xs. blk_hi c \<le> blk_lo e" using cd d(3) ord by fastforce
    ultimately show ?thesis using False Cons.prems d by (simp add: ins_after_def wf_blocks_Cons)
  qed
qed

lemma wf_blocks_remove:
  assumes "wf_blocks (as @ c # bs)"
  shows "wf_blocks (as @ bs)" "set (as @ bs) = set (as @ c # bs) - {c}"
  using assms wf_blocks_distinct [OF assms] by (auto simp: wf_blocks_append wf_blocks_Cons)


section \<open>Adding and destroying blocks\<close>

lemma core_of_mk_block [simp]: "core_of (mk_block a n u) = (a, n, u)"
  by (simp add: core_of_def mk_block_def)

lemma blocks_md [simp]:
  "blocks (md_free s) = blocks s" "blocks (snd (alloc_block_metadata md s)) = blocks s"
  "blocks (snd (alloc_two_blocks_metadata md s)) = blocks s"
  by (simp_all add: blocks_def md_free_def alloc_block_metadata_def alloc_two_blocks_metadata_def Let_def)

lemma addr_tree_md [simp]:
  "addr_tree (md_free s) = addr_tree s" "addr_tree (snd (alloc_block_metadata md s)) = addr_tree s"
  "addr_tree (snd (alloc_two_blocks_metadata md s)) = addr_tree s"
  by (simp_all add: md_free_def alloc_block_metadata_def alloc_two_blocks_metadata_def Let_def)

lemma add_block_blocks:
  assumes "wf_blocks (blocks s)" "blk_ok (a, n, u)" "\<forall>d\<in>set (blocks s). blk_disjoint (a, n, u) d"
  shows "wf_blocks (blocks (add_block a n u s)) \<and>
    set (blocks (add_block a n u s)) = insert (a, n, u) (set (blocks s))"
proof -
  have "sorted (map fst (map core_of (inorder (addr_tree s))))"
    using wf_blocks_sorted [OF assms(1)] by (simp add: blocks_def tree_blocks_def)
  then have "blocks (add_block a n u s) = ins_after fst (a, n, u) (blocks s)"
    using bt.insert_contents [of "addr_tree s" "mk_block a n u" 1]
    by (simp add: add_block_def blocks_def tree_blocks_def)
  with assms show ?thesis by (simp add: wf_blocks_insert set_ins_after)
qed

lemma destroy_block_blocks:
  assumes "wf_blocks (blocks s)" "points_to p b (addr_tree s)"
  shows "wf_blocks (blocks (destroy_block p s)) \<and> core_of b \<in> set (blocks s) \<and>
    set (blocks (destroy_block p s)) = set (blocks s) - {core_of b}"
proof -
  obtain l d r fs where f: "focus p (addr_tree s) [] = (Node l b d r, fs)"
    using assms(2) by (auto simp: points_to_def)
  let ?as = "map core_of (before fs @ inorder l)" and ?bs = "map core_of (inorder r @ behind fs)"
  have b: "blocks s = ?as @ core_of b # ?bs"
    using bt.remove_contents(1) [OF f] by (simp add: blocks_def tree_blocks_def)
  have "blocks (destroy_block p s) = ?as @ ?bs"
    using bt.remove_contents(2) [OF f] by (simp add: destroy_block_def blocks_def tree_blocks_def)
  with b assms(1) wf_blocks_remove [of ?as "core_of b" ?bs] show ?thesis by simp
qed



section \<open>Searching\<close>

text \<open>The last address of a range that does not leave the address space.\<close>

lemma unat_last:
  fixes a n :: addr
  assumes "n \<noteq> 0" "unat a + unat n \<le> 2 ^ 64"
  shows "unat (a + n - 1) = unat a + unat n - 1"
proof -
  have n: "unat n > 0" using assms(1) by (simp add: unat_gt_0)
  then have "unat (n - 1) = unat n - 1" by (simp add: unat_sub_no_wrap word_le_nat_alt)
  moreover from this have "unat (a + (n - 1)) = unat a + unat (n - 1)"
    using assms(2) n by (intro unat_add_no_wrap) simp
  moreover have "a + n - 1 = a + (n - 1)" by simp
  ultimately show ?thesis using n by presburger
qed

lemma blk_last: "blk_ok (core_of b) \<Longrightarrow> unat (b_addr b + b_size b - 1) = blk_hi (core_of b) - 1"
  by (simp add: unat_last blk_ok_def blk_hi_def core_of_def)

text \<open>A range of bytes against a block, in natural numbers.\<close>

definition overlaps :: "nat \<Rightarrow> nat \<Rightarrow> blk \<Rightarrow> bool" where
  "overlaps lo hi c \<longleftrightarrow> lo < blk_hi c \<and> blk_lo c < hi"

definition contains :: "nat \<Rightarrow> nat \<Rightarrow> blk \<Rightarrow> bool" where
  "contains lo hi c \<longleftrightarrow> blk_lo c \<le> lo \<and> hi \<le> blk_hi c"

definition probe :: "bool \<Rightarrow> nat \<Rightarrow> nat \<Rightarrow> blk \<Rightarrow> bool" where
  "probe chk lo hi c \<longleftrightarrow> (chk \<and> overlaps lo hi c) \<or> contains lo hi c"

lemma probe_word:
  assumes "blk_ok (core_of b)" "n \<noteq> 0" "unat a + unat n \<le> 2 ^ 64"
  shows "probe chk (unat a) (unat a + unat n) (core_of b) \<longleftrightarrow>
    (chk \<and> a + n - 1 \<ge> b_addr b \<and> b_addr b + b_size b - 1 \<ge> a) \<or>
    (a \<ge> b_addr b \<and> a + n - 1 \<le> b_addr b + b_size b - 1)"
proof -
  have "unat n > 0" using assms(2) by (simp add: unat_gt_0)
  moreover have "blk_lo (core_of b) = unat (b_addr b)" by (simp add: blk_lo_def core_of_def)
  ultimately show ?thesis
    using blk_last [OF assms(1)] unat_last [OF assms(2,3)] blk_lo_less_hi [OF assms(1)] assms
    by (auto simp: probe_def overlaps_def contains_def word_le_nat_alt)
qed

lemma points_to_here [simp]: "points_to [] b (Node l c d r) \<longleftrightarrow> b = c"
  by (auto simp: points_to_def)

lemma focus_frames:
  "fst (focus p t fs) = fst (focus p t gs)"
  by (induction p t fs arbitrary: gs rule: focus.induct) auto

lemma points_to_iff: "points_to p b t \<longleftrightarrow> (\<exists>l d r. fst (focus p t fs) = Node l b d r)"
  using focus_frames [of p t fs "[]"] by (cases "focus p t []") (auto simp: points_to_def)

lemma points_to_child [simp]:
  "points_to (True # p) b (Node l c d r) = points_to p b r"
  "points_to (False # p) b (Node l c d r) = points_to p b l"
  by (simp_all add: points_to_iff [of _ _ _ "[]"] focus_frames [of p r "[Frame True c d l]" "[]"]
      focus_frames [of p l "[Frame False c d r]" "[]"])

lemma tree_blocks_simps [simp]:
  "tree_blocks Leaf = []" "tree_blocks (Node l b d r) = tree_blocks l @ core_of b # tree_blocks r"
  by (simp_all add: tree_blocks_def)

lemma find_by_address_Some:
  assumes "find_by_address t a n chk = Some (p, b)" "wf_blocks (tree_blocks t)"
    and "n' = (if n = 0 then 1 else n)" "unat a + unat n' \<le> 2 ^ 64"
  shows "points_to p b t \<and> core_of b \<in> set (tree_blocks t) \<and> probe chk (unat a) (unat a + unat n') (core_of b)"
  using assms
proof (induction t a n chk arbitrary: p n' rule: find_by_address.induct)
  case (2 l c d r a n chk)
  have c: "blk_ok (core_of c)" "wf_blocks (tree_blocks l)" "wf_blocks (tree_blocks r)"
    using "2.prems"(2) by (simp_all add: wf_blocks_append wf_blocks_Cons)
  have n': "n' \<noteq> 0" using "2.prems"(3) by simp
  note pw = probe_word [OF c(1) n' "2.prems"(4), of chk]
  show ?case
  proof (cases "probe chk (unat a) (unat a + unat n') (core_of c)")
    case True
    with pw "2.prems"(1,3) show ?thesis by (auto simp: Let_def split: if_splits)
  next
    case False
    with pw have np: "\<not> (chk \<and> a + n' - 1 \<ge> b_addr c \<and> b_addr c + b_size c - 1 \<ge> a)"
      "\<not> (a \<ge> b_addr c \<and> a + n' - 1 \<le> b_addr c + b_size c - 1)" by blast+
    show ?thesis
    proof (cases "a \<ge> b_addr c")
      case True
      with np "2.prems"(1,3) obtain q where "p = True # q" "find_by_address r a n' chk = Some (q, b)"
        by (auto simp: Let_def split: if_splits)
      with "2.IH"(1) np True "2.prems"(3,4) c(3) n' show ?thesis by (auto split: if_splits)
    next
      case False
      with np "2.prems"(1,3) obtain q where "p = False # q" "find_by_address l a n' chk = Some (q, b)"
        by (auto simp: Let_def split: if_splits)
      with "2.IH"(2) np False "2.prems"(3,4) c(2) n' show ?thesis by (auto split: if_splits)
    qed
  qed
qed simp

lemma find_by_address_None:
  assumes "find_by_address t a n chk = None" "wf_blocks (tree_blocks t)"
    and "n' = (if n = 0 then 1 else n)" "unat a + unat n' \<le> 2 ^ 64" "c \<in> set (tree_blocks t)"
  shows "\<not> probe chk (unat a) (unat a + unat n') c"
  using assms
proof (induction t a n chk arbitrary: n' rule: find_by_address.induct)
  case (2 l b d r a n chk)
  have w: "blk_ok (core_of b)" "wf_blocks (tree_blocks l)" "wf_blocks (tree_blocks r)"
    "\<forall>e\<in>set (tree_blocks l). blk_hi e \<le> blk_lo (core_of b)"
    "\<forall>e\<in>set (tree_blocks r). blk_hi (core_of b) \<le> blk_lo e"
    using "2.prems"(2) by (auto simp: wf_blocks_append wf_blocks_Cons)
  have n': "n' \<noteq> 0" using "2.prems"(3) by simp
  then have pos: "unat n' > 0" by (simp add: unat_gt_0)
  note pw = probe_word [OF w(1) n' "2.prems"(4), of chk]
  from "2.prems"(1,3) have np: "\<not> probe chk (unat a) (unat a + unat n') (core_of b)"
    unfolding pw by (auto simp: Let_def split: if_splits)
  with pw have np': "\<not> (chk \<and> a + n' - 1 \<ge> b_addr b \<and> b_addr b + b_size b - 1 \<ge> a)"
    "\<not> (a \<ge> b_addr b \<and> a + n' - 1 \<le> b_addr b + b_size b - 1)" by blast+
  note ord = blk_lo_less_hi [OF w(1)]
  have lo: "blk_lo (core_of b) = unat (b_addr b)" by (simp add: blk_lo_def core_of_def)
  show ?case
  proof (cases "a \<ge> b_addr b")
    case True
    with np' "2.prems"(1,3) have "find_by_address r a n' chk = None"
      by (auto simp: Let_def split: if_splits)
    with "2.IH"(1) np' True "2.prems"(3,4) w(3) n' have
      "c \<in> set (tree_blocks r) \<Longrightarrow> ?thesis" by (auto split: if_splits)
    moreover have "c \<in> set (tree_blocks l) \<Longrightarrow> ?thesis"
      using w(4) True lo pos by (auto simp: probe_def overlaps_def contains_def word_le_nat_alt)
    ultimately show ?thesis using np "2.prems"(5) by auto
  next
    case False
    with np' "2.prems"(1,3) have "find_by_address l a n' chk = None"
      by (auto simp: Let_def split: if_splits)
    with "2.IH"(2) np' False "2.prems"(3,4) w(2) n' have
      "c \<in> set (tree_blocks l) \<Longrightarrow> ?thesis" by (auto split: if_splits)
    moreover have "c \<in> set (tree_blocks r) \<Longrightarrow> ?thesis"
      using w(5) False lo pos ord np
      by (fastforce simp: probe_def overlaps_def contains_def word_le_nat_alt)
    ultimately show ?thesis using np "2.prems"(5) by auto
  qed
qed simp

text \<open>The search for free memory: whatever it returns fits; completeness needs the cached maxima.\<close>

lemma find_best_fit_Some:
  assumes "find_best_fit t n align from to = Some (p, b)"
  shows "points_to p b t \<and> core_of b \<in> set (tree_blocks t) \<and> fits b n align from to"
  using assms
proof (induction t arbitrary: p b)
  case (Node l c d r)
  let ?l = "find_best_fit l n align from to" and ?r = "find_best_fit r n align from to"
  from Node.prems consider (here) "p = []" "b = c" "fits c n align from to"
    | (left) q where "p = False # q" "?l = Some (q, b)" | (right) q where "p = True # q" "?r = Some (q, b)"
    by (auto simp: Let_def split: if_splits option.splits)
  then show ?case
    by cases (use Node.IH in auto)
qed simp

end
