(* ===== verification/Allocator_Spec.thy ===== *)
theory Allocator_Spec
  imports Allocator_Blocks
begin

text \<open>
  What the operations of the range allocator promise, over the set of blocks: allocations hand out
  parts of free blocks that lie where the caller asked for and touch nothing else, ranges are added and
  removed, and freeing merges neighbours.  The free memory is the set of the bytes of all free blocks.
\<close>

definition blk_bytes :: "blk \<Rightarrow> nat set" where
  "blk_bytes c = {blk_lo c..<blk_hi c}"

definition free_bytes :: "blk set \<Rightarrow> nat set" where
  "free_bytes B = (\<Union>c\<in>{c\<in>B. \<not> blk_used c}. blk_bytes c)"

definition used_blocks :: "blk set \<Rightarrow> blk set" where
  "used_blocks B = {c\<in>B. blk_used c}"

definition alloc_wf :: "allocator \<Rightarrow> bool" where
  "alloc_wf s \<longleftrightarrow> wf_blocks (blocks s)"

abbreviation block_set :: "allocator \<Rightarrow> blk set" where
  "block_set s \<equiv> set (blocks s)"

lemma free_bytes_insert [simp]:
  "free_bytes (insert c B) = (if blk_used c then free_bytes B else blk_bytes c \<union> free_bytes B)"
  by (auto simp: free_bytes_def)

lemma used_blocks_insert [simp]:
  "used_blocks (insert c B) = (if blk_used c then insert c (used_blocks B) else used_blocks B)"
  by (auto simp: used_blocks_def)

lemma used_blocks_Un [simp]: "used_blocks (A \<union> B) = used_blocks A \<union> used_blocks B"
  by (auto simp: used_blocks_def)

lemma free_bytes_Un [simp]: "free_bytes (A \<union> B) = free_bytes A \<union> free_bytes B"
  by (auto simp: free_bytes_def)

lemma blk_bytes_disjoint: "blk_disjoint c d \<Longrightarrow> blk_bytes c \<inter> blk_bytes d = {}"
  by (auto simp: blk_disjoint_def blk_bytes_def)

lemma free_bytes_remove:
  assumes "wf_blocks xs" "c \<in> set xs" "\<not> blk_used c"
  shows "free_bytes (set xs - {c}) = free_bytes (set xs) - blk_bytes c"
  using assms blk_bytes_disjoint [OF wf_blocks_disjoint [OF assms(1)]]
  by (fastforce simp: free_bytes_def)

lemma free_bytes_remove_used: "blk_used c \<Longrightarrow> free_bytes (B - {c}) = free_bytes B"
  by (auto simp: free_bytes_def)

lemma used_blocks_remove: "used_blocks (B - {c}) = used_blocks B - {c}"
  by (auto simp: used_blocks_def)


section \<open>Cutting a range out of a free block\<close>

lemma fits_nat:
  assumes "fits b n align from to" "n \<noteq> 0" "blk_ok (core_of b)"
    and a: "a = align_addr (if b_addr b < from then from else b_addr b) align"
  shows "\<not> b_used b" "blk_lo (core_of b) \<le> unat a" "unat a + unat n \<le> blk_hi (core_of b)"
    "unat a + unat n - 1 \<le> unat to"
proof -
  have lo: "blk_lo (core_of b) = unat (b_addr b)" by (simp add: blk_lo_def core_of_def)
  have hi: "blk_hi (core_of b) = unat (b_addr b) + unat (b_size b)" by (simp add: blk_hi_def core_of_def)
  have f: "a \<ge> b_addr b" "sum_in_range a n" "a - b_addr b + n \<le> b_avail b" "a + n - 1 \<le> to"
    using assms(1) by (simp_all add: fits_def Let_def a)
  have n: "unat n > 0" using assms(2) by (simp add: unat_gt_0)
  have "unat (NOT 0 - a) = 2 ^ 64 - 1 - unat a"
    using unat_less_64 [of a] by (simp add: unat_sub_no_wrap)
  with f(2) have an: "unat a + unat n < 2 ^ 64 - 1" by (simp add: sum_in_range_def word_less_nat_alt)
  have sub: "unat (a - b_addr b) = unat a - unat (b_addr b)" using f(1) by (simp add: unat_sub_no_wrap)
  have le: "unat (b_addr b) \<le> unat a" using f(1) by (simp add: word_le_nat_alt)
  with sub an have "unat (a - b_addr b + n) = unat a - unat (b_addr b) + unat n"
    by (simp add: unat_add_no_wrap)
  with f(3) have av: "unat a - unat (b_addr b) + unat n \<le> unat (b_avail b)" by (simp add: word_le_nat_alt)
  with n show "\<not> b_used b" by (auto simp: b_avail_def split: if_splits)
  with av le lo hi show "blk_lo (core_of b) \<le> unat a" "unat a + unat n \<le> blk_hi (core_of b)"
    by (auto simp: b_avail_def)
  show "unat a + unat n - 1 \<le> unat to"
    using f(4) unat_last [of n a] assms(2) an by (simp add: word_le_nat_alt)
qed

text \<open>The pieces that remain of a free block when \<open>[a, a + n)\<close> is cut out.\<close>

definition rest_blocks :: "blk \<Rightarrow> addr \<Rightarrow> size \<Rightarrow> blk set" where
  "rest_blocks c a n =
     (if blk_lo c < unat a then {(fst c, a - fst c, False)} else {}) \<union>
     (if unat a + unat n < blk_hi c then {(a + n, fst (snd c) - n - (a - fst c), False)} else {})"

lemma sub_block_disjoint:
  "blk_disjoint c d \<Longrightarrow> blk_lo c \<le> blk_lo e \<Longrightarrow> blk_hi e \<le> blk_hi c \<Longrightarrow> blk_disjoint e d"
  by (auto simp: blk_disjoint_def)

lemma add_sub_block:
  assumes "wf_blocks (blocks s)" "c \<notin> block_set s" "\<forall>d\<in>block_set s. blk_disjoint c d \<or> blk_disjoint e d"
    and "blk_ok e" "blk_lo c \<le> blk_lo e" "blk_hi e \<le> blk_hi c" "e = (a, n, u)"
  shows "wf_blocks (blocks (add_block a n u s)) \<and> block_set (add_block a n u s) = insert e (block_set s)"
  using add_block_blocks [of s a n u] assms sub_block_disjoint by blast

lemma cut_from_block_blocks:
  assumes wf: "wf_blocks (blocks s)" and p: "points_to p b (addr_tree s)" and n: "n \<noteq> 0"
    and lo: "blk_lo (core_of b) \<le> unat a" and hi: "unat a + unat n \<le> blk_hi (core_of b)"
  shows "wf_blocks (blocks (cut_from_block p b a n s)) \<and>
    block_set (cut_from_block p b a n s) = (block_set s - {core_of b}) \<union> rest_blocks (core_of b) a n"
proof -
  let ?c = "core_of b"
  have c_simps: "fst ?c = b_addr b" "fst (snd ?c) = b_size b" by (simp_all add: core_of_def)
  have c_lo: "blk_lo ?c = unat (b_addr b)" and c_hi: "blk_hi ?c = unat (b_addr b) + unat (b_size b)"
    by (simp_all add: blk_lo_def blk_hi_def c_simps)
  have n0: "0 < unat n" using n by (simp add: unat_gt_0)
  define s1 where "s1 = destroy_block p s"
  have s1: "wf_blocks (blocks s1)" "?c \<in> block_set s" "block_set s1 = block_set s - {?c}"
    using destroy_block_blocks [OF wf p] by (simp_all add: s1_def)
  have c_ok: "blk_ok ?c" using wf s1(2) by (rule wf_blocks_ok)
  have dis: "\<forall>d\<in>block_set s1. blk_disjoint ?c d"
    using wf_blocks_disjoint [OF wf s1(2)] s1(3) by auto
  define padding where "padding = (if a > b_addr b then a - b_addr b else 0)"
  have pad: "unat padding = unat a - unat (b_addr b)" "padding = a - b_addr b"
  proof -
    consider "a > b_addr b" | "a = b_addr b"
      using lo c_lo by (metis word_le_nat_alt order_le_less)
    then show "unat padding = unat a - unat (b_addr b)" "padding = a - b_addr b"
      by (cases; simp add: padding_def unat_sub_no_wrap)+
  qed
  define s2 where "s2 = (if padding > 0 then add_block (b_addr b) padding False s1 else md_free s1)"
  let ?L = "if blk_lo ?c < unat a then {(b_addr b, padding, False)} else {}"
  have pad0: "padding > 0 \<longleftrightarrow> blk_lo ?c < unat a" using pad(1) c_lo by (simp add: word_less_nat_alt)
  have s2: "wf_blocks (blocks s2) \<and> block_set s2 = block_set s1 \<union> ?L"
  proof (cases "padding > 0")
    case True
    have "blk_ok (b_addr b, padding, False)" "blk_hi (b_addr b, padding, False) \<le> blk_hi ?c"
      "blk_lo ?c \<le> blk_lo (b_addr b, padding, False)"
      using True pad(1) c_ok lo hi c_lo by (auto simp: blk_ok_def blk_hi_def blk_lo_def c_simps)
    with True pad0 dis s1 add_sub_block [of s1 ?c "(b_addr b, padding, False)" "b_addr b" padding False]
    show ?thesis by (simp add: s2_def)
  next
    case False
    with pad0 s1 show ?thesis by (simp add: s2_def)
  qed
  have np: "unat (n + padding) = unat n + (unat a - unat (b_addr b))"
    using hi c_hi lo c_lo pad(1) unat_less_64 [of "b_size b"] by (simp add: unat_add_no_wrap)
  have gt: "b_size b > n + padding \<longleftrightarrow> unat a + unat n < blk_hi ?c"
    using np lo c_lo c_hi by (auto simp: word_less_nat_alt)
  define remaining where "remaining = (if b_size b > n + padding then b_size b - n - padding else 0)"
  have rem: "unat remaining = blk_hi ?c - (unat a + unat n)"
  proof (cases "b_size b > n + padding")
    case True
    then have "unat (b_size b - (n + padding)) = unat (b_size b) - unat (n + padding)"
      by (intro unat_sub_no_wrap) simp
    with True np lo c_lo c_hi show ?thesis by (simp add: remaining_def diff_diff_eq)
  next
    case False
    with gt show ?thesis by (simp add: remaining_def)
  qed
  have rem0: "remaining > 0 \<longleftrightarrow> unat a + unat n < blk_hi ?c"
    using rem by (simp add: word_less_nat_alt)
  let ?R = "if unat a + unat n < blk_hi ?c then {(a + n, remaining, False)} else {}"
  let ?s3 = "if remaining > 0 then add_block (a + n) remaining False s2 else md_free s2"
  have "wf_blocks (blocks ?s3) \<and> block_set ?s3 = block_set s2 \<union> ?R"
  proof (cases "remaining > 0")
    case True
    then have lt: "unat a + unat n < blk_hi ?c" using rem0 by simp
    with c_ok have an: "unat (a + n) = unat a + unat n"
      by (intro unat_add_no_wrap) (simp add: blk_ok_def)
    have e: "blk_ok (a + n, remaining, False)" "blk_hi (a + n, remaining, False) \<le> blk_hi ?c"
      "blk_lo ?c \<le> blk_lo (a + n, remaining, False)"
      using True rem an lt c_ok lo by (auto simp: blk_ok_def blk_hi_def blk_lo_def c_simps)
    have "\<forall>d\<in>?L. blk_disjoint (a + n, remaining, False) d"
      using pad(1) an lo c_lo by (auto simp: blk_disjoint_def blk_hi_def blk_lo_def)
    moreover have "?c \<notin> block_set s2"
      using s2 s1(3) pad(1) n0 hi c_lo c_hi by (auto simp: core_of_def split: if_splits)
    ultimately show ?thesis
      using True rem0 dis s2 e add_sub_block [of s2 ?c "(a + n, remaining, False)" "a + n" remaining False]
      by auto
  next
    case False
    with rem0 s2 show ?thesis by simp
  qed
  moreover have "cut_from_block p b a n s = ?s3"
    by (simp add: cut_from_block_def Let_def s2_def s1_def padding_def remaining_def)
  moreover have "rest_blocks ?c a n = ?L \<union> ?R"
    using gt by (simp add: rest_blocks_def c_simps pad(2) [symmetric] remaining_def)
  ultimately show ?thesis using s1(3) s2 by auto
qed


text \<open>The cut-out range is free before and belongs to no block after.\<close>

lemma blk_bytes_rest:
  assumes "blk_ok c" "blk_lo c \<le> unat a" "unat a + unat n \<le> blk_hi c"
  shows "free_bytes (rest_blocks c a n) = blk_bytes c - {unat a..<unat a + unat n}"
    "used_blocks (rest_blocks c a n) = {}"
    "d \<in> rest_blocks c a n \<Longrightarrow> blk_disjoint (a, n, u) d"
proof -
  have lo: "blk_lo c = unat (fst c)" and hi: "blk_hi c = unat (fst c) + unat (fst (snd c))"
    by (simp_all add: blk_lo_def blk_hi_def)
  have "unat (fst c) \<le> unat a" using assms lo by simp
  then have l: "unat (a - fst c) = unat a - unat (fst c)" by (simp add: unat_sub_no_wrap word_le_nat_alt)
  have r: "unat (fst (snd c) - n - (a - fst c)) = blk_hi c - (unat a + unat n)"
    if "unat a + unat n < blk_hi c"
  proof -
    have "unat (fst (snd c) - n) = unat (fst (snd c)) - unat n"
      using that assms lo hi by (intro unat_sub_no_wrap) (simp add: word_le_nat_alt)
    moreover from this have "unat (fst (snd c) - n - (a - fst c)) = unat (fst (snd c) - n) - unat (a - fst c)"
      using that assms lo hi l by (intro unat_sub_no_wrap) (simp add: word_le_nat_alt)
    ultimately show ?thesis using l hi lo assms by simp
  qed
  have an: "unat (a + n) = unat a + unat n" if "unat a + unat n < blk_hi c"
    using that assms(1) by (intro unat_add_no_wrap) (simp add: blk_ok_def)
  define L :: blk where "L = (fst c, a - fst c, False)"
  define R :: blk where "R = (a + n, fst (snd c) - n - (a - fst c), False)"
  have L: "blk_lo L = blk_lo c" "blk_hi L = unat a" "\<not> blk_used L"
    using l lo assms(2) by (simp_all add: L_def blk_used_def blk_lo_def blk_hi_def)
  have R: "blk_lo R = unat a + unat n" "blk_hi R = blk_hi c" "\<not> blk_used R" if "unat a + unat n < blk_hi c"
    using r [OF that] an [OF that] that by (simp_all add: R_def blk_used_def blk_lo_def blk_hi_def)
  have rest: "rest_blocks c a n = (if blk_lo c < unat a then {L} else {}) \<union>
      (if unat a + unat n < blk_hi c then {R} else {})"
    by (simp add: rest_blocks_def L_def R_def)
  have e: "free_bytes {} = {}" "used_blocks {} = {}" by (simp_all add: free_bytes_def used_blocks_def)
  show "free_bytes (rest_blocks c a n) = blk_bytes c - {unat a..<unat a + unat n}"
    unfolding rest free_bytes_Un using L R assms(2,3) e
    by (cases "blk_lo c < unat a"; cases "unat a + unat n < blk_hi c")
       (auto simp: blk_bytes_def)
  show "used_blocks (rest_blocks c a n) = {}"
    unfolding rest using L R e by (auto simp: used_blocks_def)
  have "blk_lo (a, n, u) = unat a" "blk_hi (a, n, u) = unat a + unat n"
    by (simp_all add: blk_lo_def blk_hi_def)
  with L R show "d \<in> rest_blocks c a n \<Longrightarrow> blk_disjoint (a, n, u) d"
    unfolding rest by (auto simp: blk_disjoint_def split: if_splits)
qed

end
