(* ===== verification/Allocator_Ops.thy ===== *)
theory Allocator_Ops
  imports Allocator_Spec
begin

text \<open>
  The operations of the range allocator against its specification: what they do to the set of blocks
  and to the free memory, on success and on every failure.
\<close>

lemma fst_add_block: "md_calls (add_block a n u s) = md_calls s" "md_live (add_block a n u s) = md_live s"
  by (simp_all add: add_block_def)

lemma used_blocks_remove_free: "\<not> blk_used c \<Longrightarrow> used_blocks (B - {c}) = used_blocks B"
  by (auto simp: used_blocks_def)

text \<open>Taking a range out of a free block and turning it into a used one, on the level of blocks.\<close>

definition carved :: "blk set \<Rightarrow> addr \<Rightarrow> size \<Rightarrow> blk set \<Rightarrow> bool" where
  "carved B a n B' \<longleftrightarrow>
     {unat a..<unat a + unat n} \<subseteq> free_bytes B \<and>
     free_bytes B' = free_bytes B - {unat a..<unat a + unat n} \<and>
     used_blocks B' = insert (a, n, True) (used_blocks B)"

lemma cut_and_use:
  assumes wf: "wf_blocks (blocks s)" and p: "points_to p b (addr_tree s)" and n: "n \<noteq> 0"
    and free: "\<not> b_used b"
    and lo: "blk_lo (core_of b) \<le> unat a" and hi: "unat a + unat n \<le> blk_hi (core_of b)"
    and s2: "blocks s2 = blocks (cut_from_block p b a n s)"
  shows "wf_blocks (blocks (add_block a n True s2)) \<and> carved (block_set s) a n (block_set (add_block a n True s2))"
proof -
  let ?c = "core_of b" and ?s1 = "cut_from_block p b a n s"
  note cut = cut_from_block_blocks [OF wf p n lo hi]
  have c: "?c \<in> block_set s" using destroy_block_blocks [OF wf p] by blast
  have c_ok: "blk_ok ?c" and c_free: "\<not> blk_used ?c"
    using wf_blocks_ok [OF wf c] free by (simp_all add: blk_used_def core_of_def)
  note rest = blk_bytes_rest [OF c_ok lo hi]
  have "blk_ok (a, n, True)" using n hi c_ok by (simp add: blk_ok_def blk_hi_def)
  moreover have "blk_disjoint (a, n, True) d" if "d \<in> block_set ?s1" for d
  proof (cases "d \<in> rest_blocks ?c a n")
    case True
    then show ?thesis by (rule rest(3))
  next
    case False
    with that cut have "d \<in> block_set s" "d \<noteq> ?c" by auto
    with wf_blocks_disjoint [OF wf c] lo hi sub_block_disjoint [of ?c d "(a, n, True)"] show ?thesis
      by (auto simp: blk_lo_def [of "(_, _)"] blk_hi_def [of "(_, _)"])
  qed
  ultimately have add: "wf_blocks (blocks (add_block a n True s2))"
    "block_set (add_block a n True s2) = insert (a, n, True) (block_set ?s1)"
    using add_block_blocks [of s2 a n True] cut s2 by auto
  have sub: "{unat a..<unat a + unat n} \<subseteq> blk_bytes ?c" using lo hi by (auto simp: blk_bytes_def)
  moreover have "blk_bytes ?c \<subseteq> free_bytes (block_set s)" using c c_free by (auto simp: free_bytes_def)
  ultimately have "{unat a..<unat a + unat n} \<subseteq> free_bytes (block_set s)" by blast
  moreover have "free_bytes (block_set (add_block a n True s2)) =
      (free_bytes (block_set s) - blk_bytes ?c) \<union> (blk_bytes ?c - {unat a..<unat a + unat n})"
    using add(2) cut rest(1) free_bytes_remove [OF wf c c_free] by (simp add: blk_used_def)
  moreover have "used_blocks (block_set (add_block a n True s2)) =
      insert (a, n, True) (used_blocks (block_set s))"
    using add(2) cut rest(2) used_blocks_remove_free [OF c_free] by (simp add: blk_used_def)
  ultimately show ?thesis
    using add(1) sub \<open>blk_bytes ?c \<subseteq> _\<close> unfolding carved_def by blast
qed


section \<open>Allocating at an aligned address\<close>

lemma md_split:
  "alloc_two_blocks_metadata md s = (fst (alloc_two_blocks_metadata md s), snd (alloc_two_blocks_metadata md s))"
  "alloc_block_metadata md s = (fst (alloc_block_metadata md s), snd (alloc_block_metadata md s))"
  by simp_all

lemma alloc_aligned_OK_cases:
  assumes "alloc_aligned md n align from to s = ((OK, Some a), s')"
  obtains p b s1 s2 where "find_best_fit (addr_tree s1) n align from to = Some (p, b)"
    "a = align_addr (if b_addr b < from then from else b_addr b) align"
    "addr_tree s1 = addr_tree s" "blocks s2 = blocks (cut_from_block p b a n s1)"
    "s' = add_block a n True s2"
proof -
  let ?s1 = "snd (alloc_two_blocks_metadata md s)"
  obtain p b where f: "find_best_fit (addr_tree ?s1) n align from to = Some (p, b)"
    using assms by (auto simp: alloc_aligned_def split_beta Let_def split: option.splits if_splits)
  let ?s2 = "snd (alloc_block_metadata md (cut_from_block p b a n ?s1))"
  show ?thesis
  proof (rule that [of ?s1 p b ?s2])
    show "a = align_addr (if b_addr b < from then from else b_addr b) align"
      and "s' = add_block a n True ?s2"
      using assms f by (auto simp: alloc_aligned_def split_beta Let_def split: if_splits)
  qed (use f in simp_all)
qed

definition aligned :: "nat \<Rightarrow> addr \<Rightarrow> bool" where
  "aligned align a \<longleftrightarrow> 2 ^ align dvd unat a"

lemma aligned_align_addr [simp]: "aligned align (align_addr a align)"
  by (simp add: aligned_def align_addr_dvd)

lemma alloc_aligned_success:
  assumes "alloc_wf s" "n \<noteq> 0" "alloc_aligned md n align from to s = ((OK, Some a), s')"
  shows "alloc_wf s'" "carved (block_set s) a n (block_set s')"
    "aligned align a" "unat a + unat n - 1 \<le> unat to"
proof -
  obtain p b s1 s2 where f: "find_best_fit (addr_tree s1) n align from to = Some (p, b)"
    and a: "a = align_addr (if b_addr b < from then from else b_addr b) align"
    and s1: "addr_tree s1 = addr_tree s" and s2: "blocks s2 = blocks (cut_from_block p b a n s1)"
    and s': "s' = add_block a n True s2"
    using alloc_aligned_OK_cases [OF assms(3)] by metis
  have wf: "wf_blocks (blocks s1)" using assms(1) s1 by (simp add: alloc_wf_def blocks_def)
  have B: "block_set s1 = block_set s" using s1 by (simp add: blocks_def)
  have b: "points_to p b (addr_tree s1)" "fits b n align from to" "blk_ok (core_of b)"
    using find_best_fit_Some [OF f] wf by (auto simp: blocks_def dest: wf_blocks_ok)
  note ft = fits_nat [OF b(2) assms(2) b(3) a]
  from cut_and_use [OF wf b(1) assms(2) ft(1-3) s2] B s'
  show "alloc_wf s'" "carved (block_set s) a n (block_set s')" by (simp_all add: alloc_wf_def)
  show "aligned align a" by (simp add: a)
  show "unat a + unat n - 1 \<le> unat to" by (rule ft(4))
qed

lemma align_addr_below:
  fixes c x :: addr
  assumes "c \<le> x" "aligned align x" "align < 64" "unat x < 2 ^ 64 - 1"
  shows "align_addr c align \<le> x" "c \<le> align_addr c align"
proof -
  obtain k where k: "unat x = 2 ^ align * k" using assms(2) by (auto simp: aligned_def)
  have cx: "unat c \<le> unat x" using assms(1) by (simp add: word_le_nat_alt)
  obtain q where q: "(2 :: nat) ^ 64 = 2 ^ align * q"
    using assms(3) by (metis le_add_diff_inverse less_imp_le power_add)
  have "2 ^ align * k < 2 ^ align * q" using k q unat_less_64 [of x] by (simp only: flip: k q) simp
  then have "k < q" by simp
  then have "2 ^ align * k + 2 ^ align \<le> (2 :: nat) ^ 64"
    using q mult_le_mono2 [of "Suc k" q "2 ^ align"] by simp
  moreover have "(2::nat) ^ align > 0" by simp
  ultimately have nw: "unat c + (2 ^ align - 1) < 2 ^ LENGTH(64)" using cx k by simp
  have "(0 :: nat) < 2 ^ align" by simp
  with cx k have aux: "unat c + (2 ^ align - 1) < 2 ^ align + 2 ^ align * k" by linarith
  from nw assms(3) have "unat (align_addr c align) = (unat c + (2 ^ align - 1)) div 2 ^ align * 2 ^ align"
    by (intro unat_align_addr) simp_all
  moreover have "(unat c + (2 ^ align - 1)) div 2 ^ align < Suc k"
    using aux by (intro less_mult_imp_div_less) (simp add: mult.commute)
  ultimately have "unat (align_addr c align) \<le> unat x" using k by (simp add: mult.commute)
  then show "align_addr c align \<le> x" by (simp add: word_le_nat_alt)
  show "c \<le> align_addr c align" using align_addr_least(1) [of c align] nw assms(3) by simp
qed


text \<open>
  Completeness: where the caches are right, the search fails only when no aligned address at which the
  request fits exists in any free block.  The strict bound of \<open>_sum_in_range\<close> gives away the
  last byte of the address space.
\<close>

fun max_avail :: "block tree \<Rightarrow> size" where
  "max_avail Leaf = 0"
| "max_avail (Node l b d r) = max (b_avail b) (max (max_avail l) (max_avail r))"

lemma hook_ok_max: "hook_ok block_policy t \<Longrightarrow> opt_max_avail (obj_of t) = max_avail t"
proof (induction t)
  case (Node l b d r)
  then have "b = block_recompute (obj_of l) (obj_of r) b" by (simp add: block_policy_def)
  then have "b_max_avail b = max (b_avail b) (max (opt_max_avail (obj_of l)) (opt_max_avail (obj_of r)))"
    by (metis block.simps(4) block.surjective block.update_convs(4) block_recompute_def)
  with Node show ?case by (simp add: opt_max_avail_def)
qed (simp add: opt_max_avail_def)

lemma max_avail_in: "b \<in> set (inorder t) \<Longrightarrow> b_avail b \<le> max_avail t"
  by (induction t) (auto simp: le_max_iff_disj)

lemma find_best_fit_complete:
  assumes "hook_ok block_policy t" "find_best_fit t n align from to = None" "b \<in> set (inorder t)"
    and big: "n \<le> b_avail b"
  shows "\<not> fits b n align from to"
  using assms
proof (induction t)
  case (Node l c d r)
  have max: "opt_max_avail (obj_of l) = max_avail l" "opt_max_avail (obj_of r) = max_avail r"
    using Node.prems(1) by (simp_all add: hook_ok_max)
  from Node.prems(2) have none: "max_avail l < n \<or> find_best_fit l n align from to = None"
    "max_avail r < n \<or> find_best_fit r n align from to = None" "\<not> fits c n align from to"
    by (auto simp: Let_def max split: if_splits option.splits)
  consider "b = c" | "b \<in> set (inorder l)" | "b \<in> set (inorder r)" using Node.prems(3) by auto
  then show ?case
  proof cases
    case 2
    with big max_avail_in [of b l] none Node.IH(1) Node.prems(1) show ?thesis by fastforce
  next
    case 3
    with big max_avail_in [of b r] none Node.IH(2) Node.prems(1) show ?thesis by fastforce
  qed (use none in simp)
qed simp

definition room_for :: "blk \<Rightarrow> size \<Rightarrow> nat \<Rightarrow> addr \<Rightarrow> addr \<Rightarrow> addr \<Rightarrow> bool" where
  "room_for c n align from to x \<longleftrightarrow> aligned align x \<and> from \<le> x \<and> blk_lo c \<le> unat x \<and>
     unat x + unat n \<le> blk_hi c \<and> unat x + unat n - 1 \<le> unat to \<and> unat x + unat n < 2 ^ 64 - 1"

lemma room_for_fits:
  assumes room: "room_for (core_of b) n align from to x" and free: "\<not> b_used b"
    and n: "n \<noteq> 0" and al: "align < 64"
  shows "fits b n align from to" "n \<le> b_avail b"
proof -
  define c where "c = (if b_addr b < from then from else b_addr b)"
  have lo: "blk_lo (core_of b) = unat (b_addr b)"
    and hi: "blk_hi (core_of b) = unat (b_addr b) + unat (b_size b)"
    by (simp_all add: blk_lo_def blk_hi_def core_of_def)
  have r: "aligned align x" "from \<le> x" "unat (b_addr b) \<le> unat x"
    "unat x + unat n \<le> unat (b_addr b) + unat (b_size b)" "unat x + unat n - 1 \<le> unat to"
    "unat x + unat n < 2 ^ 64 - 1"
    using room lo hi by (simp_all add: room_for_def)
  have cx: "c \<le> x" using r(2,3) by (auto simp: c_def word_le_nat_alt)
  have bc: "b_addr b \<le> c" by (simp add: c_def less_imp_le)
  define a where "a = align_addr c align"
  have a: "a \<le> x" "c \<le> a" using align_addr_below [OF cx r(1) al] r(6) by (simp_all add: a_def)
  have ba: "b_addr b \<le> a" using bc a(2) by simp
  have un: "unat a \<le> unat x" "unat (b_addr b) \<le> unat a"
    using a(1) ba by (simp_all add: word_le_nat_alt)
  have n0: "0 < unat n" using n by (simp add: unat_gt_0)
  have "unat (NOT 0 - a) = 2 ^ 64 - 1 - unat a"
    using unat_less_64 [of a] by (simp add: unat_sub_no_wrap)
  then have "sum_in_range a n" using un r(6) by (simp add: sum_in_range_def word_less_nat_alt)
  moreover have "unat (a - b_addr b) = unat a - unat (b_addr b)" using ba by (simp add: unat_sub_no_wrap)
  then have "unat (a - b_addr b + n) = unat a - unat (b_addr b) + unat n"
    using un r(4) unat_less_64 [of "b_size b"] by (subst unat_add_no_wrap) simp_all
  then have "a - b_addr b + n \<le> b_avail b"
    using un r(4) free by (simp add: b_avail_def word_le_nat_alt)
  moreover have "a + n - 1 \<le> to"
    using unat_last [of n a] n un r(5,6) by (simp add: word_le_nat_alt)
  ultimately show "fits b n align from to" using ba by (simp add: fits_def Let_def a_def c_def)
  show "n \<le> b_avail b" using r(3,4) free by (simp add: b_avail_def word_le_nat_alt)
qed

lemma alloc_aligned_failure:
  assumes "alloc_aligned md n align from to s = ((RANGE_CONFLICT, oa), s')"
  shows "oa = None \<and> addr_tree s' = addr_tree s \<and> find_best_fit (addr_tree s) n align from to = None"
  using assms
  by (auto simp: alloc_aligned_def split_beta Let_def split: option.splits if_splits)

lemma alloc_aligned_complete:
  assumes "hook_ok block_policy (addr_tree s)" "n \<noteq> 0" "align < 64"
    and "alloc_aligned md n align from to s = ((RANGE_CONFLICT, oa), s')"
    and "c \<in> block_set s" "\<not> blk_used c"
  shows "\<not> room_for c n align from to x"
proof
  assume room: "room_for c n align from to x"
  obtain b where b: "b \<in> set (inorder (addr_tree s))" "c = core_of b"
    using assms(5) by (auto simp: blocks_def tree_blocks_def)
  have "\<not> b_used b" using assms(6) b(2) by (simp add: blk_used_def core_of_def)
  with room_for_fits [of b n align "from" to x] room b(2) assms(2,3)
  have "fits b n align from to" "n \<le> b_avail b" by simp_all
  with find_best_fit_complete [OF assms(1) _ b(1)] alloc_aligned_failure [OF assms(4)] show False by blast
qed

end
