(* ===== verification/Allocator_Ranges.thy ===== *)
theory Allocator_Ranges
  imports Allocator_Ops
begin

text \<open>
  Allocation at a given address, adding ranges and freeing.  A set of blocks is coalesced if no two
  free blocks are adjacent; adding and freeing keep this, as long as no range reaches the very end of
  the address space.
\<close>

definition coalesced :: "blk set \<Rightarrow> bool" where
  "coalesced B \<longleftrightarrow> (\<forall>c\<in>B. \<forall>d\<in>B. \<not> blk_used c \<longrightarrow> \<not> blk_used d \<longrightarrow> blk_hi c \<noteq> blk_lo d)"

lemma find_in_Some:
  assumes "find_in s a n chk = Some (p, b)" "wf_blocks (blocks s)"
    and "unat a + unat (if n = 0 then 1 else n) \<le> 2 ^ 64"
  shows "points_to p b (addr_tree s)" "core_of b \<in> block_set s" "blk_ok (core_of b)"
    "probe chk (unat a) (unat a + unat (if n = 0 then 1 else n)) (core_of b)"
  using find_by_address_Some [of "addr_tree s" a n chk p b] assms wf_blocks_ok [OF assms(2)]
  by (auto simp: find_in_def blocks_def)

lemma find_in_None:
  assumes "find_in s a n chk = None" "wf_blocks (blocks s)"
    and "unat a + unat (if n = 0 then 1 else n) \<le> 2 ^ 64" "c \<in> block_set s"
  shows "\<not> probe chk (unat a) (unat a + unat (if n = 0 then 1 else n)) c"
  using find_by_address_None [of "addr_tree s" a n chk] assms by (auto simp: find_in_def blocks_def)

text \<open>Looking up a single address.\<close>

lemma find_at_Some:
  assumes "find_in s a 0 False = Some (p, b)" "wf_blocks (blocks s)"
  shows "points_to p b (addr_tree s)" "core_of b \<in> block_set s" "blk_ok (core_of b)"
    "unat a \<in> blk_bytes (core_of b)"
  using find_in_Some [OF assms] unat_less_64 [of a]
  by (auto simp: probe_def contains_def blk_bytes_def)

lemma find_at_None:
  assumes "find_in s a 0 False = None" "wf_blocks (blocks s)" "c \<in> block_set s"
  shows "unat a \<notin> blk_bytes c"
  using find_in_None [OF assms(1,2) _ assms(3)] unat_less_64 [of a]
  by (auto simp: probe_def contains_def blk_bytes_def)

lemma blk_bytes_unique:
  assumes "wf_blocks xs" "c \<in> set xs" "d \<in> set xs" "x \<in> blk_bytes c" "x \<in> blk_bytes d"
  shows "c = d"
  using wf_blocks_disjoint [OF assms(1-3)] assms(4,5) blk_bytes_disjoint by blast

lemma find_at:
  assumes "wf_blocks (blocks s)" "c \<in> block_set s" "unat a \<in> blk_bytes c"
  obtains p b where "find_in s a 0 False = Some (p, b)" "core_of b = c"
proof (cases "find_in s a 0 False")
  case None
  with find_at_None [OF None assms(1,2)] assms(3) show ?thesis by blast
next
  case (Some x)
  then obtain p b where x: "find_in s a 0 False = Some (p, b)" by (cases x) auto
  from find_at_Some [OF x assms(1)] blk_bytes_unique [OF assms(1)] assms(2,3)
  have "core_of b = c" by blast
  with x show ?thesis by (rule that)
qed


section \<open>Allocating at a given address\<close>

lemma sum_in_range_nat: "sum_in_range a n \<longleftrightarrow> unat a + unat n < 2 ^ 64 - 1"
proof -
  have "unat (NOT 0 - a) = 2 ^ 64 - 1 - unat a"
    using unat_less_64 [of a] by (simp add: unat_sub_no_wrap)
  then show ?thesis using unat_less_64 [of a] by (auto simp: sum_in_range_def word_less_nat_alt)
qed

lemma alloc_addr_success:
  assumes wf: "alloc_wf s" and n: "n \<noteq> 0" and ok: "alloc_addr md n a s = (OK, s')"
  shows "alloc_wf s'" "carved (block_set s) a n (block_set s')"
proof -
  let ?s1 = "snd (alloc_two_blocks_metadata md s)"
  obtain p b where f: "find_in ?s1 a n False = Some (p, b)" and free: "\<not> b_used b"
    and range: "sum_in_range a n"
    using ok by (auto simp: alloc_addr_def split_beta Let_def split: option.splits if_splits)
  define s2 where "s2 = snd (alloc_block_metadata md (cut_from_block p b a n ?s1))"
  have s2: "blocks s2 = blocks (cut_from_block p b a n ?s1)" by (simp add: s2_def)
  have s': "s' = add_block a n True s2"
    using ok f range free by (auto simp: alloc_addr_def split_beta Let_def s2_def split: if_splits)
  have wf1: "wf_blocks (blocks ?s1)" using wf by (simp add: alloc_wf_def)
  have "unat a + unat n \<le> 2 ^ 64" using range by (simp add: sum_in_range_nat)
  with n find_in_Some [OF f wf1] have b: "points_to p b (addr_tree ?s1)"
    "blk_lo (core_of b) \<le> unat a" "unat a + unat n \<le> blk_hi (core_of b)"
    by (auto simp: probe_def contains_def)
  from cut_and_use [OF wf1 b(1) n free b(2,3) s2] s'
  show "alloc_wf s'" "carved (block_set s) a n (block_set s')" by (simp_all add: alloc_wf_def)
qed

lemma alloc_addr_conflict:
  assumes wf: "alloc_wf s" and n: "n \<noteq> 0" and fl: "alloc_addr md n a s = (RANGE_CONFLICT, s')"
  shows "blocks s' = blocks s"
    "unat a + unat n < 2 ^ 64 - 1 \<Longrightarrow> c \<in> block_set s \<Longrightarrow> \<not> blk_used c \<Longrightarrow> \<not> contains (unat a) (unat a + unat n) c"
proof -
  let ?s1 = "snd (alloc_two_blocks_metadata md s)"
  show "blocks s' = blocks s"
    using fl by (auto simp: alloc_addr_def split_beta Let_def split: option.splits if_splits)
  assume r: "unat a + unat n < 2 ^ 64 - 1" and c: "c \<in> block_set s" "\<not> blk_used c"
  show "\<not> contains (unat a) (unat a + unat n) c"
  proof
    assume inc: "contains (unat a) (unat a + unat n) c"
    have wf1: "wf_blocks (blocks ?s1)" using wf by (simp add: alloc_wf_def)
    show False
    proof (cases "find_in ?s1 a n False")
      case None
      from find_in_None [OF None wf1] r n c inc show False by (auto simp: probe_def)
    next
      case (Some x)
      then obtain p b where f: "find_in ?s1 a n False = Some (p, b)" by (cases x) auto
      have b: "core_of b \<in> block_set s" "contains (unat a) (unat a + unat n) (core_of b)"
        using find_in_Some [OF f wf1] r n by (auto simp: probe_def)
      have "0 < unat n" using n by (simp add: unat_gt_0)
      with b inc have "unat a \<in> blk_bytes (core_of b)" "unat a \<in> blk_bytes c"
        by (auto simp: contains_def blk_bytes_def)
      with blk_bytes_unique [OF wf [unfolded alloc_wf_def] b(1) c(1)] have "core_of b = c" by simp
      with c(2) have "\<not> b_used b" by (auto simp: blk_used_def core_of_def)
      with fl f r show False
        by (auto simp: alloc_addr_def split_beta Let_def sum_in_range_nat split: if_splits)
    qed
  qed
qed


section \<open>Adding a range\<close>

lemma lohi [simp]: "blk_lo (x, y, u) = unat x" "blk_hi (x, y, u) = unat x + unat y"
  by (simp_all add: blk_lo_def blk_hi_def)

text \<open>A range that is not yet part of the allocator grows by the free blocks next to it.\<close>

definition widened :: "blk set \<Rightarrow> addr \<Rightarrow> size \<Rightarrow> blk set \<Rightarrow> addr \<Rightarrow> size \<Rightarrow> bool" where
  "widened B a n B' a' n' \<longleftrightarrow> B' \<subseteq> B \<and> n' \<noteq> 0 \<and> (\<forall>d\<in>B'. blk_disjoint (a', n', False) d) \<and>
     free_bytes B' \<union> {unat a'..<unat a' + unat n'} = free_bytes B \<union> {unat a..<unat a + unat n} \<and>
     used_blocks B' = used_blocks B"

lemma widened_refl: "n \<noteq> 0 \<Longrightarrow> \<forall>d\<in>B. blk_disjoint (a, n, False) d \<Longrightarrow> widened B a n B a n"
  by (simp add: widened_def)

lemma absorb_block:
  assumes wf: "wf_blocks (blocks s)" and p: "points_to p b (addr_tree s)" and free: "\<not> b_used b"
    and dis: "\<forall>d\<in>block_set s. blk_disjoint (a, n, False) d" and n: "n \<noteq> 0"
    and adj: "unat (b_addr b) + unat (b_size b) = unat a \<and> a' = b_addr b \<or>
              unat a + unat n = unat (b_addr b) \<and> a' = a"
    and top: "unat n + unat (b_size b) < 2 ^ 64"
  shows "wf_blocks (blocks (destroy_block p s)) \<and>
    widened (block_set s) a n (block_set (destroy_block p s)) a' (n + b_size b)"
proof -
  let ?c = "core_of b" and ?B = "block_set (destroy_block p s)"
  have d: "wf_blocks (blocks (destroy_block p s))" "?c \<in> block_set s" "?B = block_set s - {?c}"
    using destroy_block_blocks [OF wf p] by simp_all
  have c: "?c = (b_addr b, b_size b, False)" using free by (simp add: core_of_def)
  have un: "unat (n + b_size b) = unat n + unat (b_size b)" using top by (simp add: unat_add_no_wrap)
  have n0: "0 < unat n" using n by (simp add: unat_gt_0)
  have bytes: "{unat a'..<unat a' + unat (n + b_size b)} = blk_bytes ?c \<union> {unat a..<unat a + unat n}"
    using adj un c by (auto simp: blk_bytes_def)
  have "blk_disjoint (a', n + b_size b, False) e" if "e \<in> ?B" for e
  proof -
    have "blk_disjoint (a, n, False) e" "blk_disjoint ?c e" "blk_lo e < blk_hi e"
      using that d(3) dis wf_blocks_disjoint [OF wf d(2), of e] blk_lo_less_hi [OF wf_blocks_ok [OF wf, of e]]
      by auto
    with adj un c n0 show ?thesis by (auto simp: blk_disjoint_def)
  qed
  moreover have "blk_bytes ?c \<subseteq> free_bytes (block_set s)"
    using d(2) c by (auto simp: free_bytes_def blk_used_def)
  then have "free_bytes ?B \<union> {unat a'..<unat a' + unat (n + b_size b)} =
      free_bytes (block_set s) \<union> {unat a..<unat a + unat n}"
    using free_bytes_remove [OF wf d(2)] d(3) c unfolding bytes by (auto simp: blk_used_def)
  moreover have "used_blocks ?B = used_blocks (block_set s)"
    using d(3) c used_blocks_remove_free [of ?c] by (simp add: blk_used_def)
  moreover have "n + b_size b \<noteq> 0" using un n0 by (metis add_is_0 less_numeral_extra(3) unat_0)
  ultimately show ?thesis using d by (simp add: widened_def)
qed

lemma pred_addr:
  fixes a :: addr
  shows "a \<noteq> 0 \<Longrightarrow> unat (a - 1) = unat a - 1 \<and> 0 < unat a"
  by (simp add: unat_sub_no_wrap word_le_nat_alt unat_gt_0 Suc_leI)

text \<open>No block reaches the end of the address space.\<close>

definition below_top :: "blk set \<Rightarrow> bool" where
  "below_top B \<longleftrightarrow> (\<forall>c\<in>B. blk_hi c < 2 ^ 64)"

lemma merge_predecessor:
  assumes wf: "wf_blocks (blocks s)" and n: "n \<noteq> 0" and top: "unat a + unat n < 2 ^ 64"
    and dis: "\<forall>d\<in>block_set s. blk_disjoint (a, n, False) d"
    and m: "merge_predecessor a n s = (a1, n1, s2)"
  shows "wf_blocks (blocks s2)" "widened (block_set s) a n (block_set s2) a1 n1"
    "unat a1 + unat n1 = unat a + unat n"
    "coalesced (block_set s) \<Longrightarrow> \<forall>d\<in>block_set s2. \<not> blk_used d \<longrightarrow> blk_hi d \<noteq> unat a1"
proof (atomize (full), goal_cases)
  case 1
  have n0: "0 < unat n" using n by (simp add: unat_gt_0)
  show ?case
  proof (cases "\<exists>p b. a \<noteq> 0 \<and> find_in s (a - 1) 0 False = Some (p, b) \<and> \<not> b_used b")
    case True
    then obtain p b where a: "a \<noteq> 0" and f: "find_in s (a - 1) 0 False = Some (p, b)" and free: "\<not> b_used b"
      by blast
    from m a f free have r: "a1 = b_addr b" "n1 = n + b_size b" "s2 = destroy_block p s"
      by (simp_all add: merge_predecessor_def)
    note f' = find_at_Some [OF f wf]
    have c: "core_of b = (a1, b_size b, False)" using free r by (simp add: core_of_def)
    have adj: "unat a1 + unat (b_size b) = unat a"
      using f'(4) dis [rule_format, OF f'(2)] pred_addr [OF a] n0
      by (auto simp: c blk_bytes_def blk_disjoint_def)
    have top1: "unat n + unat (b_size b) < 2 ^ 64" using adj top by simp
    have "block_set s2 = block_set s - {core_of b}" using destroy_block_blocks [OF wf f'(1)] r(3) by simp
    moreover have "blk_lo (core_of b) = unat a1" "\<not> blk_used (core_of b)" by (simp_all add: c blk_used_def)
    ultimately have "coalesced (block_set s) \<longrightarrow> (\<forall>d\<in>block_set s2. \<not> blk_used d \<longrightarrow> blk_hi d \<noteq> unat a1)"
      using f'(2) unfolding coalesced_def by (metis Diff_iff)
    moreover have "unat n1 = unat n + unat (b_size b)" using top1 r(2) by (simp add: unat_add_no_wrap)
    ultimately show ?thesis
      using absorb_block [OF wf f'(1) free dis n, of a1] top1 adj r by simp
  next
    case False
    with m have r: "a1 = a" "n1 = n" "s2 = s"
      by (auto simp: merge_predecessor_def split: option.splits if_splits)
    have "blk_hi d \<noteq> unat a" if d: "d \<in> block_set s" "\<not> blk_used d" for d
    proof
      assume e: "blk_hi d = unat a"
      have lt: "blk_lo d < blk_hi d" using wf_blocks_ok [OF wf d(1)] by (rule blk_lo_less_hi)
      with e have a: "a \<noteq> 0" by auto
      with e pred_addr [OF a] lt have "unat (a - 1) \<in> blk_bytes d" by (simp add: blk_bytes_def)
      then obtain p b where "find_in s (a - 1) 0 False = Some (p, b)" "core_of b = d"
        using find_at [OF wf d(1)] by blast
      with False a d(2) show False by (auto simp: blk_used_def core_of_def)
    qed
    with r wf widened_refl [OF n dis] show ?thesis by simp
  qed
qed

lemma merge_successor:
  assumes wf: "wf_blocks (blocks s)" and n: "n \<noteq> 0" and top: "unat a + unat n < 2 ^ 64"
    and dis: "\<forall>d\<in>block_set s. blk_disjoint (a, n, False) d" and bt: "below_top (block_set s)"
    and m: "merge_successor a n s = (n1, s2)"
  shows "wf_blocks (blocks s2)" "widened (block_set s) a n (block_set s2) a n1" "unat a + unat n1 < 2 ^ 64"
    "coalesced (block_set s) \<Longrightarrow> \<forall>d\<in>block_set s2. \<not> blk_used d \<longrightarrow> blk_lo d \<noteq> unat a + unat n1"
proof (atomize (full), goal_cases)
  case 1
  have n0: "0 < unat n" using n by (simp add: unat_gt_0)
  have an: "unat (a + n) = unat a + unat n" using top by (simp add: unat_add_no_wrap)
  show ?case
  proof (cases "\<exists>p b. find_in s (a + n) 0 False = Some (p, b) \<and> \<not> b_used b")
    case True
    then obtain p b where f: "find_in s (a + n) 0 False = Some (p, b)" and free: "\<not> b_used b"
      by blast
    from m f free have r: "n1 = n + b_size b" "s2 = destroy_block p s"
      by (simp_all add: merge_successor_def)
    note f' = find_at_Some [OF f wf]
    have c: "core_of b = (b_addr b, b_size b, False)" using free by (simp add: core_of_def)
    have adj: "unat a + unat n = unat (b_addr b)"
      using f'(4) dis [rule_format, OF f'(2)] an n0
      by (auto simp: c blk_bytes_def blk_disjoint_def)
    have hi: "unat (b_addr b) + unat (b_size b) < 2 ^ 64"
      using bt f'(2) by (auto simp: below_top_def c)
    with adj have top1: "unat n + unat (b_size b) < 2 ^ 64" by simp
    have un: "unat n1 = unat n + unat (b_size b)" using top1 r(1) by (simp add: unat_add_no_wrap)
    have "block_set s2 = block_set s - {core_of b}" using destroy_block_blocks [OF wf f'(1)] r(2) by simp
    moreover have "blk_hi (core_of b) = unat a + unat n1" "\<not> blk_used (core_of b)"
      using adj un by (simp_all add: c blk_used_def)
    ultimately have "coalesced (block_set s) \<longrightarrow> (\<forall>d\<in>block_set s2. \<not> blk_used d \<longrightarrow> blk_lo d \<noteq> unat a + unat n1)"
      using f'(2) unfolding coalesced_def by (metis Diff_iff)
    then show ?thesis
      using absorb_block [OF wf f'(1) free dis n, of a] top1 adj r un hi by simp
  next
    case False
    with m have r: "n1 = n" "s2 = s"
      by (auto simp: merge_successor_def split: option.splits if_splits)
    have "blk_lo d \<noteq> unat a + unat n" if d: "d \<in> block_set s" "\<not> blk_used d" for d
    proof
      assume e: "blk_lo d = unat a + unat n"
      have lt: "blk_lo d < blk_hi d" using wf_blocks_ok [OF wf d(1)] by (rule blk_lo_less_hi)
      with e an have "unat (a + n) \<in> blk_bytes d" by (simp add: blk_bytes_def)
      then obtain p b where "find_in s (a + n) 0 False = Some (p, b)" "core_of b = d"
        using find_at [OF wf d(1)] by blast
      with False d(2) show False by (auto simp: blk_used_def core_of_def)
    qed
    with r wf top widened_refl [OF n dis] show ?thesis by simp
  qed
qed


text \<open>What \<open>add_range\<close> does when it gets its meta data and nothing is in the way.\<close>

definition range_added :: "blk set \<Rightarrow> addr \<Rightarrow> size \<Rightarrow> blk set \<Rightarrow> bool" where
  "range_added B a n B' \<longleftrightarrow>
     free_bytes B' = free_bytes B \<union> {unat a..<unat a + unat n} \<and> used_blocks B' = used_blocks B \<and>
     (coalesced B \<longrightarrow> coalesced B') \<and> below_top B'"

lemma widened_trans:
  "widened B a n B1 a1 n1 \<Longrightarrow> widened B1 a1 n1 B2 a2 n2 \<Longrightarrow> widened B a n B2 a2 n2"
  unfolding widened_def by blast

lemma coalesced_insert:
  assumes "coalesced B" "B' \<subseteq> B" "\<forall>d\<in>B'. \<not> blk_used d \<longrightarrow> blk_hi d \<noteq> blk_lo c"
    "\<forall>d\<in>B'. \<not> blk_used d \<longrightarrow> blk_lo d \<noteq> blk_hi c" "blk_lo c < blk_hi c"
  shows "coalesced (insert c B')"
  using assms by (auto simp: coalesced_def dest: subsetD)

lemma coalesced_mono: "coalesced B \<Longrightarrow> B' \<subseteq> B \<Longrightarrow> coalesced B'"
  by (auto simp: coalesced_def dest: subsetD)

lemma find_in_md [simp]: "find_in (snd (alloc_block_metadata md s)) a n chk = find_in s a n chk"
  by (simp add: find_in_def)

lemma overlap_iff_disjoint:
  "n \<noteq> 0 \<Longrightarrow> blk_ok c \<Longrightarrow> overlaps (unat a) (unat a + unat n) c \<longleftrightarrow> \<not> blk_disjoint (a, n, False) c"
  by (auto simp: overlaps_def blk_disjoint_def unat_gt_0)

lemma find_overlap:
  assumes wf: "wf_blocks (blocks s)" and n: "n \<noteq> 0" and top: "unat a + unat n \<le> 2 ^ 64"
  shows "find_in s a n True = None \<longleftrightarrow> (\<forall>d\<in>block_set s. blk_disjoint (a, n, False) d)"
proof (cases "find_in s a n True")
  case None
  have "blk_disjoint (a, n, False) d" if "d \<in> block_set s" for d
    using find_in_None [OF None wf _ that] n top overlap_iff_disjoint [OF n wf_blocks_ok [OF wf that]]
    by (simp add: probe_def)
  with None show ?thesis by simp
next
  case (Some x)
  then obtain p b where f: "find_in s a n True = Some (p, b)" by (cases x) auto
  note f' = find_in_Some [OF f wf]
  have b: "core_of b \<in> block_set s" "blk_ok (core_of b)" "probe True (unat a) (unat a + unat n) (core_of b)"
    using f'(2-4) n top by simp_all
  have "0 < unat n" using n by (simp add: unat_gt_0)
  with b(3) have "overlaps (unat a) (unat a + unat n) (core_of b)"
    by (auto simp: probe_def overlaps_def contains_def)
  with overlap_iff_disjoint [OF n b(2)] b(1) f show ?thesis by auto
qed

lemma add_range_ok:
  assumes wf: "wf_blocks (blocks s)" and n: "n \<noteq> 0" and top: "unat a + unat n < 2 ^ 64"
    and dis: "\<forall>d\<in>block_set s. blk_disjoint (a, n, False) d" and bt: "below_top (block_set s)"
    and md: "md (md_calls s)"
  shows "fst (add_range md a n s) = 0" "alloc_wf (snd (add_range md a n s))"
    "range_added (block_set s) a n (block_set (snd (add_range md a n s)))"
proof -
  define s1 where "s1 = snd (alloc_block_metadata md s)"
  have s1: "blocks s1 = blocks s" by (simp add: s1_def)
  have ok: "fst (alloc_block_metadata md s)" using md by (simp add: alloc_block_metadata_def)
  obtain a1 n1 s2 where m1: "merge_predecessor a n s1 = (a1, n1, s2)" by (metis prod_cases3)
  obtain n2 s3 where m2: "merge_successor a1 n1 s2 = (n2, s3)" by (metis surj_pair)
  have "find_in s a n True = None" using find_overlap [OF wf n] top dis by simp
  with ok m1 m2 n have r: "add_range md a n s = (0, add_block a1 n2 False s3)"
    by (simp add: add_range_def split_beta Let_def s1_def)
  note p = merge_predecessor [OF wf [folded s1] n top _ m1, unfolded s1, OF dis]
  have p': "n1 \<noteq> 0" "\<forall>d\<in>block_set s2. blk_disjoint (a1, n1, False) d" "block_set s2 \<subseteq> block_set s"
    "unat a1 + unat n1 < 2 ^ 64"
    using p(2,3) top by (simp_all add: widened_def)
  have bt2: "below_top (block_set s2)" using bt p'(3) by (auto simp: below_top_def)
  note q = merge_successor [OF p(1) p'(1,4,2) bt2 m2]
  have w: "widened (block_set s) a n (block_set s3) a1 n2" using p(2) q(2) by (rule widened_trans)
  have "blk_ok (a1, n2, False)" using w q(3) by (simp add: widened_def blk_ok_def)
  with add_block_blocks [OF q(1), of a1 n2 False] w
  have B: "wf_blocks (blocks (add_block a1 n2 False s3))"
    "block_set (add_block a1 n2 False s3) = insert (a1, n2, False) (block_set s3)"
    by (simp_all add: widened_def)
  show "fst (add_range md a n s) = 0" "alloc_wf (snd (add_range md a n s))"
    using r B(1) by (simp_all add: alloc_wf_def)
  have "coalesced (insert (a1, n2, False) (block_set s3))" if co: "coalesced (block_set s)"
  proof (rule coalesced_insert [OF co])
    show "block_set s3 \<subseteq> block_set s" using w by (simp add: widened_def)
    show "\<forall>d\<in>block_set s3. \<not> blk_used d \<longrightarrow> blk_hi d \<noteq> blk_lo (a1, n2, False)"
      using p(4) [OF co] q(2) by (auto simp: widened_def)
    show "\<forall>d\<in>block_set s3. \<not> blk_used d \<longrightarrow> blk_lo d \<noteq> blk_hi (a1, n2, False)"
      using q(4) [OF coalesced_mono [OF co p'(3)]] by simp
    show "blk_lo (a1, n2, False) < blk_hi (a1, n2, False)" using w by (simp add: widened_def unat_gt_0)
  qed
  moreover have "below_top (insert (a1, n2, False) (block_set s3))"
    using w bt q(3) by (auto simp: widened_def below_top_def)
  ultimately show "range_added (block_set s) a n (block_set (snd (add_range md a n s)))"
    using w r B(2) by (auto simp: range_added_def widened_def blk_used_def blk_bytes_def)
qed

lemma add_range_fail:
  assumes "add_range md a n s = (r, s')" "r \<noteq> 0"
  shows "blocks s' = blocks s"
    "r = -2 \<and> n = 0 \<or> r = -3 \<and> find_in s a n True \<noteq> None \<or> r = -4 \<and> \<not> md (md_calls s)"
  using assms
  by (auto simp: add_range_def split_beta Let_def alloc_block_metadata_def blocks_def split: if_splits)

lemma add_range_total_spec:
  assumes wf: "alloc_wf s" and bt: "below_top (block_set s)" and top: "unat a + unat n < 2 ^ 64"
    and r: "add_range md a n s = (r, s')"
  shows "alloc_wf s'" "below_top (block_set s')" "coalesced (block_set s) \<Longrightarrow> coalesced (block_set s')"
    "r = 0 \<Longrightarrow> n \<noteq> 0 \<and> (\<forall>d\<in>block_set s. blk_disjoint (a, n, False) d) \<and> range_added (block_set s) a n (block_set s')"
proof (atomize (full), goal_cases)
  case 1
  show ?case
  proof (cases "r = 0")
  case True
  with r have n: "n \<noteq> 0" and f: "find_in s a n True = None" and md: "md (md_calls s)"
    by (cases "find_in s a n True"; simp add: add_range_def split_beta Let_def alloc_block_metadata_def split: if_splits)+
  have dis: "\<forall>d\<in>block_set s. blk_disjoint (a, n, False) d"
    using find_overlap [of s n a] wf n top f by (simp add: alloc_wf_def)
  have wf': "wf_blocks (blocks s)" using wf by (simp add: alloc_wf_def)
  from add_range_ok(2,3) [of s n a md, OF wf' n top dis bt md] r
  show ?thesis
    using dis n by (auto simp: range_added_def)
next
  case False
  with add_range_fail(1) [OF r False] wf bt
  show ?thesis
    by (simp add: alloc_wf_def)
  qed
qed


section \<open>Freeing\<close>

lemma free_addr_ok:
  assumes wf: "alloc_wf s" and bt: "below_top (block_set s)" and c: "c \<in> block_set s" "blk_used c"
    and a: "unat a \<in> blk_bytes c" and md: "md (md_calls s)"
  shows "alloc_wf (free_addr md a s)" "below_top (block_set (free_addr md a s))"
    "used_blocks (block_set (free_addr md a s)) = used_blocks (block_set s) - {c}"
    "free_bytes (block_set (free_addr md a s)) = free_bytes (block_set s) \<union> blk_bytes c"
    "coalesced (block_set s) \<Longrightarrow> coalesced (block_set (free_addr md a s))"
proof -
  have wfb: "wf_blocks (blocks s)" using wf by (simp add: alloc_wf_def)
  obtain p b where f: "find_in s a 0 False = Some (p, b)" and cb: "core_of b = c"
    using find_at [OF wfb c(1) a] by blast
  have u: "b_used b" and c_eq: "c = (b_addr b, b_size b, True)"
    using c(2) cb by (auto simp: core_of_def blk_used_def)
  define s1 where "s1 = destroy_block p s"
  have r: "free_addr md a s = snd (add_range md (b_addr b) (b_size b) s1)"
    using f u by (simp add: free_addr_def s1_def)
  have d: "wf_blocks (blocks s1)" "block_set s1 = block_set s - {c}"
    using destroy_block_blocks [OF wfb find_at_Some(1) [OF f wfb]] cb by (simp_all add: s1_def)
  have n: "b_size b \<noteq> 0" using wf_blocks_ok [OF wfb c(1)] c_eq by (simp add: blk_ok_def)
  have top: "unat (b_addr b) + unat (b_size b) < 2 ^ 64" using bt c(1) c_eq by (auto simp: below_top_def)
  have dis: "\<forall>e\<in>block_set s1. blk_disjoint (b_addr b, b_size b, False) e"
    using d(2) wf_blocks_disjoint [OF wfb c(1)] c_eq by (fastforce simp: blk_disjoint_def)
  have bt1: "below_top (block_set s1)" using bt d(2) by (auto simp: below_top_def)
  have "md (md_calls s1)" using md by (simp add: s1_def destroy_block_def md_free_def)
  note ok = add_range_ok [of s1 "b_size b" "b_addr b" md, OF d(1) n top dis bt1 this]
  show "alloc_wf (free_addr md a s)" using ok(2) r by simp
  show "below_top (block_set (free_addr md a s))"
    "used_blocks (block_set (free_addr md a s)) = used_blocks (block_set s) - {c}"
    "free_bytes (block_set (free_addr md a s)) = free_bytes (block_set s) \<union> blk_bytes c"
    using ok(3) r d(2) c(2) free_bytes_remove_used [OF c(2)] c_eq
    by (simp_all add: range_added_def used_blocks_remove blk_bytes_def)
  show "coalesced (block_set (free_addr md a s))" if "coalesced (block_set s)"
    using ok(3) r coalesced_mono [OF that, of "block_set s1"] d(2) by (auto simp: range_added_def)
qed

text \<open>Without meta data for the free block the memory of the freed block is lost.\<close>

lemma free_addr_leak:
  assumes wf: "alloc_wf s" and bt: "below_top (block_set s)" and c: "c \<in> block_set s" "blk_used c"
    and a: "unat a \<in> blk_bytes c" and md: "\<not> md (md_calls s)"
  shows "block_set (free_addr md a s) = block_set s - {c}"
proof -
  have wfb: "wf_blocks (blocks s)" using wf by (simp add: alloc_wf_def)
  obtain p b where f: "find_in s a 0 False = Some (p, b)" and cb: "core_of b = c"
    using find_at [OF wfb c(1) a] by blast
  have u: "b_used b" using c(2) cb by (auto simp: core_of_def blk_used_def)
  define s1 where "s1 = destroy_block p s"
  have d: "block_set s1 = block_set s - {c}"
    using destroy_block_blocks [OF wfb find_at_Some(1) [OF f wfb]] cb by (simp add: s1_def)
  have "md_calls s1 = md_calls s" by (simp add: s1_def destroy_block_def md_free_def)
  with md have "block_set (snd (add_range md (b_addr b) (b_size b) s1)) = block_set s1"
    by (simp add: add_range_def alloc_block_metadata_def Let_def blocks_def)
  with f u d show ?thesis by (simp add: free_addr_def s1_def)
qed

lemma free_addr_none:
  assumes "alloc_wf s" "\<forall>c\<in>block_set s. blk_used c \<longrightarrow> unat a \<notin> blk_bytes c"
  shows "free_addr md a s = s"
proof (cases "find_in s a 0 False")
  case (Some x)
  then obtain p b where f: "find_in s a 0 False = Some (p, b)" by (cases x) auto
  with find_at_Some [OF f] assms have "\<not> b_used b"
    by (auto simp: alloc_wf_def blk_used_def core_of_def)
  with f show ?thesis by (simp add: free_addr_def)
qed (simp add: free_addr_def)

end
