(* ===== verification/Allocator_Remove.thy ===== *)
theory Allocator_Remove
  imports Allocator_Ranges
begin

text \<open>
  Removing a range: the loop ends because every round takes free bytes out of the range, and when it
  reports success the range is gone from the allocator and nothing else is.
\<close>

definition range_bytes :: "addr \<Rightarrow> size \<Rightarrow> nat set" where
  "range_bytes a n = {unat a..<unat a + unat n}"

definition range_cut :: "blk set \<Rightarrow> nat set \<Rightarrow> blk set \<Rightarrow> bool" where
  "range_cut B R B' \<longleftrightarrow> used_blocks B' = used_blocks B \<and>
     free_bytes B - R \<subseteq> free_bytes B' \<and> free_bytes B' \<subseteq> free_bytes B"

lemma range_cut_trans: "range_cut A R B \<Longrightarrow> range_cut B R C \<Longrightarrow> range_cut A R C"
  unfolding range_cut_def by blast

lemma range_cut_refl [simp]: "range_cut B R B"
  by (auto simp: range_cut_def)

text \<open>One round of the loop.\<close>

lemma intersection:
  assumes ok: "blk_ok (core_of b)" and n: "n \<noteq> 0" and top: "unat base + unat n \<le> 2 ^ 64"
    and ov: "overlaps (unat base) (unat base + unat n) (core_of b)"
    and ib: "ib = max base (b_addr b)" and ie: "ie = min (base + n - 1) (b_addr b + b_size b - 1)"
  shows "unat ib = max (unat base) (blk_lo (core_of b))"
    "unat ib + unat (ie - ib + 1) = min (unat base + unat n) (blk_hi (core_of b))" "ie - ib + 1 \<noteq> 0"
proof -
  have lo: "blk_lo (core_of b) = unat (b_addr b)" by (simp add: blk_lo_def core_of_def)
  show 1: "unat ib = max (unat base) (blk_lo (core_of b))"
    by (auto simp: ib lo max_def word_le_nat_alt)
  have n0: "0 < unat n" using n by (simp add: unat_gt_0)
  have e: "unat ie = min (unat base + unat n) (blk_hi (core_of b)) - 1"
    using unat_last [OF n top] blk_last [OF ok] n0 blk_lo_less_hi [OF ok]
    by (auto simp: ie min_def word_le_nat_alt)
  have le: "unat ib \<le> unat ie"
    using ov 1 e n0 blk_lo_less_hi [OF ok] by (auto simp: overlaps_def)
  have "unat (ie - ib) = unat ie - unat ib" using le by (simp add: unat_sub_no_wrap word_le_nat_alt)
  moreover have "unat ie - unat ib + 1 < 2 ^ 64"
    using e le unat_less_64 [of n] 1 n0 by (auto simp: min_def)
  ultimately have len: "unat (ie - ib + 1) = unat ie - unat ib + 1"
    using unat_add_no_wrap [of "ie - ib" 1] by simp
  then show "unat ib + unat (ie - ib + 1) = min (unat base + unat n) (blk_hi (core_of b))"
    using e le ov n0 by (auto simp: overlaps_def)
  from len show "ie - ib + 1 \<noteq> 0" by (metis add_is_0 unat_0 zero_neq_one)
qed

lemma remove_round:
  assumes wf: "wf_blocks (blocks s)" and n: "n \<noteq> 0" and top: "unat base + unat n \<le> 2 ^ 64"
    and f: "find_in s base n True = Some (p, b)" and av: "b_avail b \<noteq> 0"
    and s1: "s1 = cut_from_block p b ib (ie - ib + 1) s"
    and ib: "ib = max base (b_addr b)" and ie: "ie = min (base + n - 1) (b_addr b + b_size b - 1)"
  shows "wf_blocks (blocks s1)" "range_cut (block_set s) (range_bytes base n) (block_set s1)"
    "card (free_bytes (block_set s1) \<inter> range_bytes base n) < card (free_bytes (block_set s) \<inter> range_bytes base n)"
proof -
  let ?c = "core_of b" and ?R = "range_bytes base n" and ?k = "ie - ib + 1"
  have free: "\<not> b_used b" using av by (auto simp: b_avail_def)
  have f': "points_to p b (addr_tree s)" "?c \<in> block_set s" "blk_ok ?c"
    "probe True (unat base) (unat base + unat n) ?c"
    using find_in_Some [OF f wf] n top by simp_all
  have n0: "0 < unat n" using n by (simp add: unat_gt_0)
  with f'(4) have ov: "overlaps (unat base) (unat base + unat n) ?c"
    by (auto simp: probe_def overlaps_def contains_def)
  note i = intersection [OF f'(3) n top ov ib ie]
  have lo: "blk_lo ?c \<le> unat ib" and hi: "unat ib + unat ?k \<le> blk_hi ?c"
    using i by auto
  have c_free: "\<not> blk_used ?c" using free by (simp add: blk_used_def core_of_def)
  note cut = cut_from_block_blocks [OF wf f'(1) i(3) lo hi]
  note rest = blk_bytes_rest [OF f'(3) lo hi]
  show "wf_blocks (blocks s1)" using cut s1 by simp
  have sub: "blk_bytes ?c \<subseteq> free_bytes (block_set s)" using f'(2) c_free by (auto simp: free_bytes_def)
  have cutR: "{unat ib..<unat ib + unat ?k} = blk_bytes ?c \<inter> ?R"
    using i by (auto simp: blk_bytes_def range_bytes_def)
  have fr: "free_bytes (block_set s1) = free_bytes (block_set s) - (blk_bytes ?c \<inter> ?R)"
    using cut s1 rest(1) free_bytes_remove [OF wf f'(2) c_free] sub cutR by auto
  have "used_blocks (block_set s1) = used_blocks (block_set s)"
    using cut s1 rest(2) used_blocks_remove_free [OF c_free] by simp
  with fr show "range_cut (block_set s) ?R (block_set s1)" by (auto simp: range_cut_def)
  have "blk_bytes ?c \<inter> ?R \<noteq> {}"
    using i(3) cutR by (auto simp: unat_gt_0)
  with sub fr have "free_bytes (block_set s1) \<inter> ?R \<subset> free_bytes (block_set s) \<inter> ?R" by blast
  moreover have "finite (free_bytes (block_set s) \<inter> ?R)" by (simp add: range_bytes_def)
  ultimately show "card (free_bytes (block_set s1) \<inter> ?R) < card (free_bytes (block_set s) \<inter> ?R)"
    by (rule psubset_card_mono [rotated])
qed

lemma remove_loop:
  assumes "wf_blocks (blocks s)" "n \<noteq> 0" "unat base + unat n \<le> 2 ^ 64"
  shows "\<exists>r s'. remove_range_loop md base n s = Some (r, s') \<and> wf_blocks (blocks s') \<and>
    range_cut (block_set s) (range_bytes base n) (block_set s') \<and>
    (r = 0 \<longrightarrow> (\<forall>d\<in>block_set s'. blk_disjoint (base, n, False) d)) \<and> r \<in> {0, -3, -4} \<and>
    (r = -3 \<longrightarrow> (\<exists>d\<in>used_blocks (block_set s'). \<not> blk_disjoint (base, n, False) d))"
  using assms
proof (induction "card (free_bytes (block_set s) \<inter> range_bytes base n)" arbitrary: s rule: less_induct)
  case less
  note wf = less.prems(1) and n = less.prems(2) and top = less.prems(3)
  note fo = find_overlap [OF wf n top]
  show ?case
  proof (cases "find_in s base n True")
    case None
    with wf fo show ?thesis by (subst remove_range_loop.simps) simp
  next
    case (Some x)
    then obtain p b where f: "find_in s base n True = Some (p, b)" by (cases x) auto
    show ?thesis
    proof (cases "b_avail b = 0")
      case True
      have b: "core_of b \<in> block_set s" "blk_ok (core_of b)" "probe True (unat base) (unat base + unat n) (core_of b)"
        using find_in_Some [OF f wf] n top by simp_all
      have "0 < unat n" using n by (simp add: unat_gt_0)
      with b(3) have "overlaps (unat base) (unat base + unat n) (core_of b)"
        by (auto simp: probe_def overlaps_def contains_def)
      then have "\<not> blk_disjoint (base, n, False) (core_of b)" using overlap_iff_disjoint [OF n b(2)] by simp
      moreover have "b_used b" using True b(2) by (auto simp: b_avail_def blk_ok_def core_of_def split: if_splits)
      then have "core_of b \<in> used_blocks (block_set s)" using b(1) by (simp add: used_blocks_def blk_used_def core_of_def)
      ultimately have "\<exists>d\<in>used_blocks (block_set s). \<not> blk_disjoint (base, n, False) d" by blast
      with f True wf show ?thesis by (subst remove_range_loop.simps) simp
    next
      case False
      define ib where "ib = max base (b_addr b)"
      define ie where "ie = min (base + n - 1) (b_addr b + b_size b - 1)"
      define s1 where "s1 = cut_from_block p b ib (ie - ib + 1) s"
      define s2 where "s2 = snd (alloc_two_blocks_metadata md s1)"
      have s2: "blocks s2 = blocks s1" by (simp add: s2_def)
      note round = remove_round [OF wf n top f False s1_def ib_def ie_def]
      have step: "remove_range_loop md base n s =
          (if \<not> fst (alloc_two_blocks_metadata md s1) then Some (-4, s2) else remove_range_loop md base n s2)"
        using f False
        by (subst remove_range_loop.simps) (simp add: split_beta Let_def s2_def s1_def ib_def ie_def)
      show ?thesis
      proof (cases "fst (alloc_two_blocks_metadata md s1)")
        case True
        obtain r s' where r: "remove_range_loop md base n s2 = Some (r, s')" "wf_blocks (blocks s')"
          "range_cut (block_set s1) (range_bytes base n) (block_set s')"
          "r = 0 \<longrightarrow> (\<forall>d\<in>block_set s'. blk_disjoint (base, n, False) d)" "r \<in> {0, -3, -4}"
          "r = -3 \<longrightarrow> (\<exists>d\<in>used_blocks (block_set s'). \<not> blk_disjoint (base, n, False) d)"
          using less.hyps [of s2] round s2 n top by auto
        from r step True range_cut_trans [OF round(2) r(3)] show ?thesis by auto
      next
        case False
        with step round s2 show ?thesis by simp
      qed
    qed
  qed
qed

lemma disjoint_free_bytes:
  "\<forall>d\<in>B. blk_disjoint (a, n, False) d \<Longrightarrow> free_bytes B \<inter> range_bytes a n = {}"
  by (fastforce simp: free_bytes_def range_bytes_def blk_disjoint_def blk_bytes_def)

lemma remove_range_total:
  assumes "alloc_wf s" "unat base + unat n \<le> 2 ^ 64"
  obtains r s' where "remove_range md base n s = Some (r, s')" "alloc_wf s'"
    "range_cut (block_set s) (range_bytes base n) (block_set s')"
    "r = 0 \<Longrightarrow> n \<noteq> 0 \<and> free_bytes (block_set s') = free_bytes (block_set s) - range_bytes base n \<and>
       (\<forall>d\<in>block_set s'. blk_disjoint (base, n, False) d)"
    "r \<in> {0, -1, -2, -3, -4}"
    "r = -3 \<Longrightarrow> \<exists>d\<in>used_blocks (block_set s). \<not> blk_disjoint (base, n, False) d"
proof (cases "n \<noteq> 0 \<and> fst (alloc_two_blocks_metadata md s)")
  case True
  let ?s1 = "snd (alloc_two_blocks_metadata md s)"
  obtain r s' where r: "remove_range_loop md base n ?s1 = Some (r, s')" "wf_blocks (blocks s')"
    "range_cut (block_set s) (range_bytes base n) (block_set s')"
    "r = 0 \<longrightarrow> (\<forall>d\<in>block_set s'. blk_disjoint (base, n, False) d)" "r \<in> {0, -3, -4}"
    "r = -3 \<longrightarrow> (\<exists>d\<in>used_blocks (block_set s'). \<not> blk_disjoint (base, n, False) d)"
    using remove_loop [of ?s1 n base md] True assms by (auto simp: alloc_wf_def)
  show ?thesis
  proof (rule that [of r s'])
    show "remove_range md base n s = Some (r, s')"
      using r(1) True by (simp add: remove_range_def split_beta Let_def)
    show "r = 0 \<Longrightarrow> n \<noteq> 0 \<and> free_bytes (block_set s') = free_bytes (block_set s) - range_bytes base n \<and>
       (\<forall>d\<in>block_set s'. blk_disjoint (base, n, False) d)"
      using r(3,4) True disjoint_free_bytes [of "block_set s'" base n] unfolding range_cut_def by blast
    show "r = -3 \<Longrightarrow> \<exists>d\<in>used_blocks (block_set s). \<not> blk_disjoint (base, n, False) d"
      using r(3,6) by (simp add: range_cut_def)
  qed (use r in \<open>auto simp: alloc_wf_def\<close>)
next
  case False
  with assms(1) show ?thesis
    by (intro that [of "if n = 0 then -1 else -2" "if n = 0 then s else snd (alloc_two_blocks_metadata md s)"])
       (auto simp: remove_range_def split_beta Let_def alloc_wf_def split: if_splits)
qed

end
