(* ===== verification/Avl_Properties.thy ===== *)
theory Avl_Properties
  imports Allocator_Remove
begin

text \<open>
  The properties of the AVL tree, with concrete trees for their hypotheses, and the two situations in
  which removal does less than it should.
\<close>

text \<open>Sorted keys in a tree whose objects are plain numbers, without a hook.\<close>

definition nat_policy :: "nat policy" where
  "nat_policy = \<lparr> pol_higher = (\<lambda>x n. x \<le> n), pol_recompute = (\<lambda>_ _ x. x) \<rparr>"

interpretation nt: avl_policy nat_policy "\<lambda>x. x" "\<lambda>x. x"
  by unfold_locales (auto simp: nat_policy_def)

definition nat_tree :: "nat list \<Rightarrow> nat tree" where
  "nat_tree xs = fold (\<lambda>x t. avl_insert nat_policy x 1 t) xs Leaf"

text \<open>
  C9 Inserting a fresh node into a balanced tree with exact cached depths gives a balanced tree with
  exact cached depths, whatever the policy; the height grows by at most one.
\<close>

theorem insert_keeps_balance:
  assumes "avl t" "height t < 255"
  shows "avl (avl_insert P n 1 t) \<and> height (avl_insert P n 1 t) \<le> height t + 1"
  using avl_insert_avl [OF assms, of P n] by auto

theorem insert_keeps_balance_witness:
  "avl (avl_insert nat_policy 4 1 (nat_tree [1, 2, 3, 5, 6, 7]))"
proof -
  have "avl (nat_tree [1, 2, 3, 5, 6, 7])" "height (nat_tree [1, 2, 3, 5, 6, 7]) < 255"
    by code_simp+
  from insert_keeps_balance [OF this, of nat_policy 4] show ?thesis by blast
qed



text \<open>
  C20 Removing the node a path points to takes exactly that object out of the sequence of the objects
  and keeps all others in their order, and every cached depth stays right.
\<close>

theorem remove_exact:
  assumes "focus p t [] = (Node l x d r, fs)" "depth_ok t"
  shows "tree_blocks t = map core_of (before fs @ inorder l) @ core_of x # map core_of (inorder r @ behind fs) \<and>
    tree_blocks (avl_remove block_policy p t) = map core_of (before fs @ inorder l) @ map core_of (inorder r @ behind fs) \<and>
    depth_ok (avl_remove block_policy p t)"
  using bt.remove_contents [OF assms(1)] depth_ok_remove [OF assms(2)] by (simp add: tree_blocks_def)

definition block_tree :: "addr list \<Rightarrow> block tree" where
  "block_tree as = fold (\<lambda>a t. avl_insert block_policy (mk_block a 1 False) 1 t) as Leaf"

theorem remove_exact_witness:
  "depth_ok (avl_remove block_policy [False] (block_tree [2, 4, 6]))"
proof -
  have "focus [False] (block_tree [2, 4, 6]) [] =
      (fst (focus [False] (block_tree [2, 4, 6]) []), snd (focus [False] (block_tree [2, 4, 6]) []))" by simp
  moreover have "fst (focus [False] (block_tree [2, 4, 6]) []) = Node Leaf (mk_block 2 1 False) 1 Leaf" by code_simp
  ultimately have f: "focus [False] (block_tree [2, 4, 6]) [] =
      (Node Leaf (mk_block 2 1 False) 1 Leaf, snd (focus [False] (block_tree [2, 4, 6]) []))" by simp
  have "depth_ok (block_tree [2, 4, 6])" by code_simp
  from remove_exact [OF f this] show ?thesis by blast
qed

text \<open>
  Removal does not keep the balance: a node without a left child is replaced by its right subtree and
  the function returns before any rebalancing.  In the balanced tree
  of the numbers from 1 to 4, removing the root's left child leaves a tree that is not balanced.
\<close>

theorem remove_loses_balance:
  "\<exists>t p. avl t \<and> \<not> avl (avl_remove nat_policy p t) \<and> depth_ok (avl_remove nat_policy p t)"
proof -
  have "avl (nat_tree [2, 1, 3, 4])" by code_simp
  moreover have "\<not> avl (avl_remove nat_policy [False] (nat_tree [2, 1, 3, 4]))" by code_simp
  moreover have "depth_ok (avl_remove nat_policy [False] (nat_tree [2, 1, 3, 4]))" by code_simp
  ultimately show ?thesis by blast
qed

text \<open>
  Removal can leave the hook of an ancestor stale: the parent is recomputed before the hook of its
  child has run.  For the allocator this means a cached maximum that is too low.
\<close>

lemma remove_leaves_stale_hook:
  "\<exists>t p. hook_ok block_policy t \<and> avl t \<and> \<not> hook_ok block_policy (avl_remove block_policy p t)"
proof -
  let ?t = "avl_insert block_policy (mk_block 10 8 False) 1 (block_tree [2, 4, 6, 8])"
  have "hook_ok block_policy ?t" by code_simp
  moreover have "avl ?t" by code_simp
  moreover have "\<not> hook_ok block_policy (avl_remove block_policy [True] ?t)" by code_simp
  ultimately show ?thesis by blast
qed

end
