(* ===== verification/Allocator_Invariant.thy ===== *)
theory Allocator_Invariant
  imports Allocator_Remove
begin

text \<open>
  Sequences of operations on a range allocator: the step relation, the reachable states, and the
  invariant that all of them keep.  The guards of the steps are what the callers have to ensure: no
  request of size zero, and no range that reaches the end of the address space.
\<close>

definition alloc_inv :: "allocator \<Rightarrow> bool" where
  "alloc_inv s \<longleftrightarrow> alloc_wf s \<and> below_top (block_set s) \<and> coalesced (block_set s)"

inductive alloc_step :: "md_oracle \<Rightarrow> allocator \<Rightarrow> allocator \<Rightarrow> bool" for md where
  Add_range: "unat a + unat n < 2 ^ 64 \<Longrightarrow> add_range md a n s = (r, s') \<Longrightarrow> alloc_step md s s'"
| Remove_range: "unat a + unat n < 2 ^ 64 \<Longrightarrow> remove_range md a n s = Some (i, s') \<Longrightarrow> alloc_step md s s'"
| Alloc_aligned: "n \<noteq> 0 \<Longrightarrow> alloc_aligned md n align lower upper s = (ar, s') \<Longrightarrow> alloc_step md s s'"
| Alloc_addr: "n \<noteq> 0 \<Longrightarrow> alloc_addr md n a s = (aa, s') \<Longrightarrow> alloc_step md s s'"
| Free: "alloc_step md s (free_addr md a s)"

inductive alloc_reach :: "md_oracle \<Rightarrow> allocator \<Rightarrow> bool" for md where
  Init: "alloc_reach md empty_allocator"
| Step: "alloc_reach md s \<Longrightarrow> alloc_step md s s' \<Longrightarrow> alloc_reach md s'"

inductive_cases alloc_stepE: "alloc_step md s s'"

lemma alloc_inv_cong: "blocks s' = blocks s \<Longrightarrow> alloc_inv s' = alloc_inv s"
  by (simp add: alloc_inv_def alloc_wf_def)

lemma below_top_mono: "below_top B \<Longrightarrow> B' \<subseteq> B \<Longrightarrow> below_top B'"
  by (auto simp: below_top_def)

lemma rest_blocks_inv:
  assumes "blk_ok c" "blk_lo c \<le> unat a" "unat a + unat n \<le> blk_hi c" "n \<noteq> 0" "\<not> blk_used c" "d \<in> rest_blocks c a n"
  shows "blk_lo c \<le> blk_lo d" "blk_hi d \<le> blk_hi c" "\<not> blk_used d"
    "blk_hi d = unat a \<and> blk_lo d = blk_lo c \<or> blk_lo d = unat a + unat n \<and> blk_hi d = blk_hi c"
proof -
  have lo: "blk_lo c = unat (fst c)" and hi: "blk_hi c = unat (fst c) + unat (fst (snd c))"
    by (simp_all add: blk_lo_def blk_hi_def)
  have "unat (fst c) \<le> unat a" using assms(2) lo by simp
  then have l: "unat (a - fst c) = unat a - unat (fst c)" by (simp add: unat_sub_no_wrap word_le_nat_alt)
  have r: "unat (fst (snd c) - n - (a - fst c)) = blk_hi c - (unat a + unat n)"
    "unat (a + n) = unat a + unat n" if "unat a + unat n < blk_hi c"
  proof -
    have "unat (fst (snd c) - n) = unat (fst (snd c)) - unat n"
      using that assms lo hi by (intro unat_sub_no_wrap) (simp add: word_le_nat_alt)
    moreover from this have "unat (fst (snd c) - n - (a - fst c)) = unat (fst (snd c) - n) - unat (a - fst c)"
      using that assms lo hi l by (intro unat_sub_no_wrap) (simp add: word_le_nat_alt)
    ultimately show "unat (fst (snd c) - n - (a - fst c)) = blk_hi c - (unat a + unat n)"
      using l hi lo assms(2,3) by simp
    show "unat (a + n) = unat a + unat n" using that assms(1) by (intro unat_add_no_wrap) (simp add: blk_ok_def)
  qed
  from assms(6) consider "d = (fst c, a - fst c, False)" "blk_lo c < unat a"
    | "d = (a + n, fst (snd c) - n - (a - fst c), False)" "unat a + unat n < blk_hi c"
    by (auto simp: rest_blocks_def split: if_splits)
  then have "blk_lo c \<le> blk_lo d \<and> blk_hi d \<le> blk_hi c \<and> \<not> blk_used d \<and>
    (blk_hi d = unat a \<and> blk_lo d = blk_lo c \<or> blk_lo d = unat a + unat n \<and> blk_hi d = blk_hi c)"
  proof cases
    case 1
    then have "blk_lo d = unat (fst c)" "blk_hi d = unat (fst c) + unat (a - fst c)" "\<not> blk_used d"
      by (simp_all add: blk_used_def)
    with l lo hi assms(2,3) show ?thesis by simp
  next
    case 2
    then have "blk_lo d = unat (a + n)" "blk_hi d = unat (a + n) + unat (fst (snd c) - n - (a - fst c))" "\<not> blk_used d"
      by (simp_all add: blk_used_def)
    with r 2(2) lo hi assms(2,3) show ?thesis by simp
  qed
  then show "blk_lo c \<le> blk_lo d" "blk_hi d \<le> blk_hi c" "\<not> blk_used d"
    "blk_hi d = unat a \<and> blk_lo d = blk_lo c \<or> blk_lo d = unat a + unat n \<and> blk_hi d = blk_hi c" by blast+
qed

lemma coalescedD:
  "coalesced B \<Longrightarrow> c \<in> B \<Longrightarrow> d \<in> B \<Longrightarrow> \<not> blk_used c \<Longrightarrow> \<not> blk_used d \<Longrightarrow> blk_hi c \<noteq> blk_lo d"
  by (auto simp: coalesced_def)

text \<open>Cutting a range out of a free block keeps the invariant.\<close>

lemma cut_inv:
  assumes inv: "alloc_inv s" and p: "points_to p b (addr_tree s)" and n: "n \<noteq> 0" and free: "\<not> b_used b"
    and lo: "blk_lo (core_of b) \<le> unat a" and hi: "unat a + unat n \<le> blk_hi (core_of b)"
  shows "alloc_inv (cut_from_block p b a n s)"
proof -
  let ?c = "core_of b" and ?B = "block_set s - {core_of b}"
  have wf: "wf_blocks (blocks s)" using inv by (simp add: alloc_inv_def alloc_wf_def)
  note cut = cut_from_block_blocks [OF wf p n lo hi]
  have c: "?c \<in> block_set s" using destroy_block_blocks [OF wf p] by blast
  have c_free: "\<not> blk_used ?c" using free by (simp add: blk_used_def core_of_def)
  note rest = rest_blocks_inv [OF wf_blocks_ok [OF wf c] lo hi n c_free]
  have co: "coalesced (block_set s)" and bt: "below_top (block_set s)" using inv by (simp_all add: alloc_inv_def)
  have n0: "0 < unat n" using n by (simp add: unat_gt_0)
  have cc: "blk_lo ?c < blk_hi ?c" using wf_blocks_ok [OF wf c] by (rule blk_lo_less_hi)
  have "coalesced (?B \<union> rest_blocks ?c a n)"
    unfolding coalesced_def
  proof (intro ballI impI)
    fix x y
    assume x: "x \<in> ?B \<union> rest_blocks ?c a n" "\<not> blk_used x" and y: "y \<in> ?B \<union> rest_blocks ?c a n" "\<not> blk_used y"
    have wf': "wf_blocks (blocks (cut_from_block p b a n s))"
      "x \<in> block_set (cut_from_block p b a n s)" "y \<in> block_set (cut_from_block p b a n s)"
      using cut x y by auto
    have xy: "blk_lo x < blk_hi x" "blk_lo y < blk_hi y"
      using wf_blocks_ok [OF wf'(1)] wf'(2,3) blk_lo_less_hi by auto
    consider "x \<in> ?B" "y \<in> ?B" | "x \<in> ?B" "y \<in> rest_blocks ?c a n" | "x \<in> rest_blocks ?c a n" "y \<in> ?B"
      | "x \<in> rest_blocks ?c a n" "y \<in> rest_blocks ?c a n" using x y by blast
    then show "blk_hi x \<noteq> blk_lo y"
    proof cases
      case 1
      with co x y show ?thesis by (auto dest: coalescedD)
    next
      case 2
      then have "blk_disjoint x ?c" "blk_hi x \<noteq> blk_lo ?c"
        using wf_blocks_disjoint [OF wf, of x ?c] c coalescedD [OF co, of x ?c] x(2) c_free by auto
      with rest(1,2,4) [OF 2(2)] xy show ?thesis
        using lo hi n0 by (auto simp: blk_disjoint_def)
    next
      case 3
      then have "blk_disjoint y ?c" "blk_hi ?c \<noteq> blk_lo y"
        using wf_blocks_disjoint [OF wf, of y ?c] c coalescedD [OF co, of ?c y] y(2) c_free by auto
      with rest(1,2,4) [OF 3(1)] xy show ?thesis
        using lo hi n0 by (auto simp: blk_disjoint_def)
    next
      case 4
      from rest(1,2,4) [OF 4(1)] rest(1,2,4) [OF 4(2)] xy show ?thesis using lo hi n0 by auto
    qed
  qed
  moreover have "below_top (?B \<union> rest_blocks ?c a n)"
    using bt c rest(2) by (fastforce simp: below_top_def)
  ultimately show ?thesis using cut by (simp add: alloc_inv_def alloc_wf_def)
qed

lemma coalesced_used: "coalesced B \<Longrightarrow> blk_used c \<Longrightarrow> coalesced (insert c B)"
  by (auto simp: coalesced_def)

lemma use_inv:
  assumes "alloc_inv s2" "blocks s2 = blocks (cut_from_block p b a n s)" "wf_blocks (blocks s)"
    "points_to p b (addr_tree s)" "n \<noteq> 0" "\<not> b_used b"
    "blk_lo (core_of b) \<le> unat a" "unat a + unat n \<le> blk_hi (core_of b)" "below_top (block_set s)"
  shows "alloc_inv (add_block a n True s2)"
proof -
  have wf: "wf_blocks (blocks (add_block a n True s2))"
    using cut_and_use [OF assms(3-8) assms(2)] by blast
  have c: "core_of b \<in> block_set s" "blk_ok (core_of b)"
    using destroy_block_blocks [OF assms(3,4)] wf_blocks_ok [OF assms(3)] by blast+
  have B: "block_set (add_block a n True s2) = insert (a, n, True) (block_set s2)"
    using bt.insert_contents [of "addr_tree s2" "mk_block a n True" 1] assms(1)
    by (simp add: add_block_def blocks_def tree_blocks_def set_ins_after alloc_inv_def alloc_wf_def
        wf_blocks_sorted [unfolded comp_def] flip: map_map)
  have "below_top (insert (a, n, True) (block_set s2))"
    using assms(1,8,9) c(1) by (fastforce simp: below_top_def alloc_inv_def)
  moreover have "coalesced (insert (a, n, True) (block_set s2))"
    using assms(1) by (auto intro!: coalesced_used simp: alloc_inv_def blk_used_def)
  ultimately show ?thesis using wf B by (simp add: alloc_inv_def alloc_wf_def)
qed


section \<open>Every operation keeps the invariant\<close>

lemma alloc_inv_wf: "alloc_inv s \<Longrightarrow> wf_blocks (blocks s)"
  by (simp add: alloc_inv_def alloc_wf_def)

lemma alloc_inv_md [simp]:
  "alloc_inv (snd (alloc_two_blocks_metadata md s)) = alloc_inv s"
  "alloc_inv (snd (alloc_block_metadata md s)) = alloc_inv s"
  "alloc_inv (md_free s) = alloc_inv s"
  by (rule alloc_inv_cong; simp)+

lemma destroy_inv:
  assumes "alloc_inv s" "points_to p b (addr_tree s)"
  shows "alloc_inv (destroy_block p s)"
proof -
  note d = destroy_block_blocks [OF alloc_inv_wf [OF assms(1)] assms(2)]
  from assms(1) have "below_top (block_set s)" "coalesced (block_set s)" by (simp_all add: alloc_inv_def)
  with d below_top_mono coalesced_mono show ?thesis
    by (metis Diff_subset alloc_inv_def alloc_wf_def)
qed

lemma add_range_inv:
  assumes "alloc_inv s" "unat a + unat n < 2 ^ 64"
  shows "alloc_inv (snd (add_range md a n s))"
  using add_range_total_spec [of s a n md "fst (add_range md a n s)" "snd (add_range md a n s)"] assms
  by (simp add: alloc_inv_def)

lemma free_inv:
  assumes inv: "alloc_inv s"
  shows "alloc_inv (free_addr md a s)"
proof (cases "\<exists>p b. find_in s a 0 False = Some (p, b) \<and> b_used b")
  case True
  then obtain p b where f: "find_in s a 0 False = Some (p, b)" "b_used b" by blast
  note f' = find_at_Some [OF f(1) alloc_inv_wf [OF inv]]
  have "blk_hi (core_of b) < 2 ^ 64" using inv f'(2) by (auto simp: alloc_inv_def below_top_def)
  then have "unat (b_addr b) + unat (b_size b) < 2 ^ 64" by (simp add: core_of_def)
  with add_range_inv [OF destroy_inv [OF inv f'(1)]] f show ?thesis by (simp add: free_addr_def)
next
  case False
  with inv show ?thesis by (auto simp: free_addr_def split: option.splits)
qed

lemma alloc_aligned_inv:
  assumes inv: "alloc_inv s" and n: "n \<noteq> 0"
  shows "alloc_inv (snd (alloc_aligned md n align lower upper s))"
proof -
  let ?s1 = "snd (alloc_two_blocks_metadata md s)"
  have inv1: "alloc_inv ?s1" using inv by simp
  show ?thesis
  proof (cases "find_best_fit (addr_tree ?s1) n align lower upper")
    case None
    with inv show ?thesis by (simp add: alloc_aligned_def split_beta Let_def)
  next
    case (Some x)
    then obtain p b where f: "find_best_fit (addr_tree ?s1) n align lower upper = Some (p, b)" by (cases x) auto
    have wf: "wf_blocks (blocks ?s1)" using inv1 by (rule alloc_inv_wf)
    have b: "points_to p b (addr_tree ?s1)" "fits b n align lower upper" "blk_ok (core_of b)"
      using find_best_fit_Some [OF f] wf by (auto simp: blocks_def dest: wf_blocks_ok)
    define a where "a = align_addr (if b_addr b < lower then lower else b_addr b) align"
    note ft = fits_nat [OF b(2) n b(3) a_def]
    define s2 where "s2 = snd (alloc_block_metadata md (cut_from_block p b a n ?s1))"
    have cut: "alloc_inv s2" using cut_inv [OF inv1 b(1) n ft(1-3)] by (simp add: s2_def)
    have s2: "blocks s2 = blocks (cut_from_block p b a n ?s1)" by (simp add: s2_def)
    have "below_top (block_set ?s1)" using inv1 by (simp add: alloc_inv_def)
    with use_inv [OF cut s2 wf b(1) n ft(1-3)] cut inv f show ?thesis
      by (simp add: alloc_aligned_def split_beta Let_def s2_def a_def)
  qed
qed

lemma alloc_addr_inv:
  assumes inv: "alloc_inv s" and n: "n \<noteq> 0"
  shows "alloc_inv (snd (alloc_addr md n a s))"
proof -
  let ?s1 = "snd (alloc_two_blocks_metadata md s)"
  have inv1: "alloc_inv ?s1" using inv by simp
  show ?thesis
  proof (cases "\<exists>p b. sum_in_range a n \<and> find_in ?s1 a n False = Some (p, b) \<and> \<not> b_used b")
    case False
    with inv show ?thesis by (auto simp: alloc_addr_def split_beta Let_def split: option.splits)
  next
    case True
    then obtain p b where r: "sum_in_range a n" and f: "find_in ?s1 a n False = Some (p, b)"
      and free: "\<not> b_used b" by blast
    have wf: "wf_blocks (blocks ?s1)" using inv1 by (rule alloc_inv_wf)
    have "unat a + unat n \<le> 2 ^ 64" using r by (simp add: sum_in_range_nat)
    with n find_in_Some [OF f wf] have b: "points_to p b (addr_tree ?s1)"
      "blk_lo (core_of b) \<le> unat a" "unat a + unat n \<le> blk_hi (core_of b)"
      by (auto simp: probe_def contains_def)
    define s2 where "s2 = snd (alloc_block_metadata md (cut_from_block p b a n ?s1))"
    have cut: "alloc_inv s2" using cut_inv [OF inv1 b(1) n free b(2,3)] by (simp add: s2_def)
    have s2: "blocks s2 = blocks (cut_from_block p b a n ?s1)" by (simp add: s2_def)
    have "below_top (block_set ?s1)" using inv1 by (simp add: alloc_inv_def)
    with use_inv [OF cut s2 wf b(1) n free b(2,3)] cut inv f r free show ?thesis
      by (simp add: alloc_addr_def split_beta Let_def s2_def)
  qed
qed

lemma remove_round_inv:
  assumes inv: "alloc_inv s" and n: "n \<noteq> 0" and top: "unat base + unat n \<le> 2 ^ 64"
    and f: "find_in s base n True = Some (p, b)" and av: "b_avail b \<noteq> 0"
    and ib: "ib = max base (b_addr b)" and ie: "ie = min (base + n - 1) (b_addr b + b_size b - 1)"
  shows "alloc_inv (cut_from_block p b ib (ie - ib + 1) s)"
proof -
  have free: "\<not> b_used b" using av by (auto simp: b_avail_def)
  have f': "points_to p b (addr_tree s)" "blk_ok (core_of b)" "probe True (unat base) (unat base + unat n) (core_of b)"
    using find_in_Some [OF f alloc_inv_wf [OF inv]] n top by simp_all
  have "0 < unat n" using n by (simp add: unat_gt_0)
  with f'(3) have ov: "overlaps (unat base) (unat base + unat n) (core_of b)"
    by (auto simp: probe_def overlaps_def contains_def)
  note i = intersection [OF f'(2) n top ov ib ie]
  show ?thesis by (rule cut_inv [OF inv f'(1) i(3) free]) (use i in auto)
qed

lemma remove_loop_inv:
  assumes "remove_range_loop md base n s = Some (r, s')" "alloc_inv s" "n \<noteq> 0" "unat base + unat n \<le> 2 ^ 64"
  shows "alloc_inv s'"
  using assms
proof (induction "card (free_bytes (block_set s) \<inter> range_bytes base n)" arbitrary: s rule: less_induct)
  case less
  note wf = alloc_inv_wf [OF less.prems(2)] and n = less.prems(3) and top = less.prems(4)
  show ?case
  proof (cases "\<exists>p b. find_in s base n True = Some (p, b) \<and> b_avail b \<noteq> 0")
    case False
    with less.prems(1,2) show ?thesis
      by (subst (asm) remove_range_loop.simps) (auto split: option.splits if_splits)
  next
    case True
    then obtain p b where f: "find_in s base n True = Some (p, b)" and av: "b_avail b \<noteq> 0" by blast
    define ib where "ib = max base (b_addr b)"
    define ie where "ie = min (base + n - 1) (b_addr b + b_size b - 1)"
    define s1 where "s1 = cut_from_block p b ib (ie - ib + 1) s"
    define s2 where "s2 = snd (alloc_two_blocks_metadata md s1)"
    have s2: "blocks s2 = blocks s1" by (simp add: s2_def)
    have "alloc_inv s2"
      using remove_round_inv [OF less.prems(2) n top f av ib_def ie_def] by (simp add: s2_def s1_def)
    moreover have "s' = s2 \<or> remove_range_loop md base n s2 = Some (r, s')"
      using less.prems(1) f av
      by (subst (asm) remove_range_loop.simps) (auto simp: split_beta Let_def s2_def s1_def ib_def ie_def split: if_splits)
    moreover note remove_round(3) [OF wf n top f av s1_def ib_def ie_def]
    ultimately show ?thesis using less.hyps [of s2] n top s2 by auto
  qed
qed

lemma remove_range_inv:
  assumes "remove_range md base n s = Some (r, s')" "alloc_inv s" "unat base + unat n \<le> 2 ^ 64"
  shows "alloc_inv s'"
  using assms remove_loop_inv [of md base n "snd (alloc_two_blocks_metadata md s)" r s']
  by (auto simp: remove_range_def split_beta Let_def split: if_splits)

lemma alloc_step_inv: "alloc_step md s s' \<Longrightarrow> alloc_inv s \<Longrightarrow> alloc_inv s'"
proof (induction rule: alloc_step.induct)
  case (Add_range a n s r s')
  then show ?case using add_range_inv [of s a n md] by simp
next
  case (Remove_range a n s i s')
  then show ?case using remove_range_inv [of md a n s i s'] by simp
next
  case (Alloc_aligned n align lower upper s ar s')
  then show ?case using alloc_aligned_inv [of s n md align lower upper] by simp
next
  case (Alloc_addr n a s aa s')
  then show ?case using alloc_addr_inv [of s n md a] by simp
qed (rule free_inv)

lemma alloc_reach_inv: "alloc_reach md s \<Longrightarrow> alloc_inv s"
proof (induction rule: alloc_reach.induct)
  case Init
  show ?case by (simp add: alloc_inv_def alloc_wf_def empty_allocator_def blocks_def below_top_def coalesced_def)
qed (rule alloc_step_inv)

end
