(* ===== verification/Allocator_Properties.thy ===== *)
theory Allocator_Properties
  imports Allocator_Invariant
begin

text \<open>
  The properties of the range allocator and, at concrete pools of memory, their witnesses.
\<close>

abbreviation md_ok :: md_oracle where "md_ok \<equiv> \<lambda>_. True"

text \<open>A pool of 64 KiB, and the same pool after a request of 256 bytes at a page boundary.\<close>

definition pool :: allocator where
  "pool = snd (add_range md_ok 0x1000 0x10000 empty_allocator)"

definition pool1 :: allocator where
  "pool1 = snd (alloc_aligned md_ok 0x100 12 0 0xffffffff pool)"

lemma pool_blocks: "blocks pool = [(0x1000, 0x10000, False)]"
  by code_simp

lemma pool1_blocks: "blocks pool1 = [(0x1000, 0x100, True), (0x1100, 0xff00, False)]"
  by code_simp

lemma pool_inv: "alloc_inv pool"
  by (simp add: alloc_inv_def alloc_wf_def pool_blocks wf_blocks_def blk_ok_def below_top_def coalesced_def)

lemma pool1_inv: "alloc_inv pool1"
  by (simp add: alloc_inv_def alloc_wf_def pool1_blocks wf_blocks_def blk_ok_def below_top_def coalesced_def blk_used_def)

lemma pool_reach: "alloc_reach md_ok pool"
proof -
  have "alloc_step md_ok empty_allocator pool"
    using alloc_step.Add_range [of "0x1000" "0x10000" md_ok empty_allocator "fst (add_range md_ok 0x1000 0x10000 empty_allocator)" pool]
    by (simp add: pool_def)
  with alloc_reach.Init show ?thesis by (rule alloc_reach.Step)
qed





text \<open>
  C22 The search is complete where the cached maxima are right: it reports a conflict only when no free block
  has room for the request at any aligned address within the limits.
\<close>

theorem alloc_aligned_finds_room:
  assumes "hook_ok block_policy (addr_tree s)" "n \<noteq> 0" "align < 64"
    and "alloc_aligned md n align lower upper s = ((RANGE_CONFLICT, oa), s')"
  shows "blocks s' = blocks s \<and> (\<forall>c\<in>block_set s. \<not> blk_used c \<longrightarrow> (\<forall>x. \<not> room_for c n align lower upper x))"
  using alloc_aligned_complete [OF assms] alloc_aligned_failure [OF assms(4)] by (simp add: blocks_def)

theorem alloc_aligned_finds_room_witness:
  "\<not> room_for (0x1000, 0x10000, False) 0x20000 12 0 0xffffffff 0x1000"
proof -
  have "hook_ok block_policy (addr_tree pool)" by code_simp
  moreover have "fst (alloc_aligned md_ok 0x20000 12 0 0xffffffff pool) = (RANGE_CONFLICT, None)" by code_simp
  then obtain s' where "alloc_aligned md_ok 0x20000 12 0 0xffffffff pool = ((RANGE_CONFLICT, None), s')"
    by (metis surj_pair fst_conv)
  ultimately show ?thesis
    using alloc_aligned_finds_room [of pool "0x20000" 12 md_ok 0 "0xffffffff" None s'] by (simp add: pool_blocks blk_used_def)
qed

text \<open>Nine ranges, of which only the last one is large, and the eighth of which is removed again.\<close>

definition nine_ranges :: allocator where
  "nine_ranges = fold (\<lambda>a s. snd (add_range md_ok a (if a = 0x9000 then 0x800 else 0x100) s))
     [0x1000, 0x2000, 0x3000, 0x4000, 0x5000, 0x6000, 0x7000, 0x8000, 0x9000] empty_allocator"

definition eight_ranges :: allocator where
  "eight_ranges = snd (the (remove_range md_ok 0x8000 0x100 nine_ranges))"

text \<open>
  The cached maxima can be too low: after nine ranges are added and the eighth is removed, a request for
  the 2 KiB of the last range is refused although that range is free.
\<close>

theorem alloc_misses_free_range:
  "(0x9000, 0x800, False) \<in> block_set eight_ranges \<and> room_for (0x9000, 0x800, False) 0x800 3 0 0xffffffff 0x9000 \<and>
   fst (alloc_aligned md_ok 0x800 3 0 0xffffffff eight_ranges) = (RANGE_CONFLICT, None)"
proof (intro conjI)
  have "last (blocks eight_ranges) = (0x9000, 0x800, False) \<and> blocks eight_ranges \<noteq> []" by code_simp
  then show "(0x9000, 0x800, False) \<in> block_set eight_ranges" by (metis last_in_set)
  show "room_for (0x9000, 0x800, False) 0x800 3 0 0xffffffff 0x9000"
    by (simp add: room_for_def aligned_def)
  show "fst (alloc_aligned md_ok 0x800 3 0 0xffffffff eight_ranges) = (RANGE_CONFLICT, None)" by code_simp
qed

text \<open>
  When the meta data of the new used block cannot be allocated, after the two entries for the pieces
  around it could, the memory is taken out of the free blocks and belongs to nobody.
\<close>

lemma alloc_loses_memory:
  "\<exists>md. fst (alloc_aligned md 0x100 12 0 0xffffffff pool) = (OUT_OF_METADATA, None) \<and>
    blocks (snd (alloc_aligned md 0x100 12 0 0xffffffff pool)) = [(0x1100, 0xff00, False)]"
proof (intro exI conjI)
  show "fst (alloc_aligned (\<lambda>i. i < 3) 0x100 12 0 0xffffffff pool) = (OUT_OF_METADATA, None)"
    and "blocks (snd (alloc_aligned (\<lambda>i. i < 3) 0x100 12 0 0xffffffff pool)) = [(0x1100, 0xff00, False)]"
    by code_simp+
qed

text \<open>
  Allocating at a given address succeeds only with exactly the requested range, out of free memory, and it
  reports a conflict only when no free block contains the range.
\<close>

theorem alloc_addr_correct:
  assumes "alloc_wf s" "n \<noteq> 0" "unat a + unat n < 2 ^ 64 - 1"
  shows "case alloc_addr md n a s of
      (OK, s') \<Rightarrow> alloc_wf s' \<and> carved (block_set s) a n (block_set s')
    | (RANGE_CONFLICT, s') \<Rightarrow> blocks s' = blocks s \<and>
        (\<forall>c\<in>block_set s. contains (unat a) (unat a + unat n) c \<longrightarrow> blk_used c)
    | (OUT_OF_METADATA, s') \<Rightarrow> \<exists>i\<le>2. \<not> md (md_calls s + i)"
proof (cases "alloc_addr md n a s")
  case (Pair r s')
  show ?thesis
  proof (cases r)
    case OK
    with Pair alloc_addr_success [OF assms(1,2)] show ?thesis by simp
  next
    case RANGE_CONFLICT
    with Pair alloc_addr_conflict [OF assms(1,2), of md a s'] assms(3) show ?thesis by auto
  next
    case OUT_OF_METADATA
    have c: "md_calls (cut_from_block p b x k t) = md_calls t" for p b x k t
      by (simp add: cut_from_block_def Let_def destroy_block_def add_block_def md_free_def)
    have "\<not> md (md_calls s) \<or> \<not> md (md_calls s + 1) \<or> \<not> md (md_calls s + 2)"
      using Pair OUT_OF_METADATA
      by (auto simp: alloc_addr_def alloc_two_blocks_metadata_def alloc_block_metadata_def Let_def md_free_def c
          split: option.splits if_splits)
    then have "\<exists>i\<le>2. \<not> md (md_calls s + i)" by (metis add_0_right le_numeral_extra(4) nat_le_linear one_le_numeral zero_le)
    with Pair OUT_OF_METADATA show ?thesis by simp
  qed
qed

theorem alloc_addr_correct_witness:
  "carved (block_set pool) 0x3000 0x1000 (block_set (snd (alloc_addr md_ok 0x1000 0x3000 pool)))"
proof -
  have "fst (alloc_addr md_ok 0x1000 0x3000 pool) = OK" by code_simp
  then obtain s' where "alloc_addr md_ok 0x1000 0x3000 pool = (OK, s')" by (metis prod.collapse)
  with alloc_addr_correct [of pool "0x1000" "0x3000" md_ok] pool_inv show ?thesis by (simp add: alloc_inv_def)
qed



text \<open>
  C17 Freeing any address inside a used block removes exactly that block from the used ones and makes exactly
  its bytes free, merged with their neighbours, when the allocator gets the meta data it asks for.
\<close>

theorem free_correct:
  assumes "alloc_inv s" "c \<in> block_set s" "blk_used c" "unat a \<in> blk_bytes c" "md (md_calls s)"
  shows "alloc_inv (free_addr md a s) \<and>
    used_blocks (block_set (free_addr md a s)) = used_blocks (block_set s) - {c} \<and>
    free_bytes (block_set (free_addr md a s)) = free_bytes (block_set s) \<union> blk_bytes c"
  using free_addr_ok [of s c a md] assms free_inv [OF assms(1)] by (auto simp: alloc_inv_def)

theorem free_correct_witness:
  "used_blocks (block_set (free_addr md_ok 0x1010 pool1)) = used_blocks (block_set pool1) - {(0x1000, 0x100, True)}"
  using free_correct [OF pool1_inv, of "(0x1000, 0x100, True)" "0x1010" md_ok]
  by (simp add: pool1_blocks blk_used_def blk_bytes_def)

text \<open>
  Without meta data for the free block, which \<open>free\<close> does not check, the block's memory is lost.
\<close>

theorem free_loses_memory:
  assumes "alloc_inv s" "c \<in> block_set s" "blk_used c" "unat a \<in> blk_bytes c" "\<not> md (md_calls s)"
  shows "block_set (free_addr md a s) = block_set s - {c}"
  using free_addr_leak [of s c a md] assms by (auto simp: alloc_inv_def)

theorem free_loses_memory_witness:
  "block_set (free_addr (\<lambda>_. False) 0x1000 pool1) = block_set pool1 - {(0x1000, 0x100, True)}"
  using free_loses_memory [OF pool1_inv, of "(0x1000, 0x100, True)" "0x1000" "\<lambda>_. False"]
  by (simp add: pool1_blocks blk_used_def blk_bytes_def)

text \<open>
  C25 Removing a range always returns.  Used blocks stay, free bytes outside of the range stay free, and when
  it reports success nothing of the range is left in the allocator.
\<close>

theorem remove_range_correct:
  assumes "alloc_wf s" "unat base + unat n \<le> 2 ^ 64"
  shows "\<exists>r s'. remove_range md base n s = Some (r, s') \<and> alloc_wf s' \<and>
    range_cut (block_set s) (range_bytes base n) (block_set s') \<and>
    (r = 0 \<longrightarrow> free_bytes (block_set s') = free_bytes (block_set s) - range_bytes base n \<and>
       (\<forall>d\<in>block_set s'. blk_disjoint (base, n, False) d)) \<and>
    (r = -3 \<longrightarrow> (\<exists>d\<in>used_blocks (block_set s). \<not> blk_disjoint (base, n, False) d))"
  using remove_range_total [OF assms, of md] by metis

theorem remove_range_correct_witness:
  "\<exists>r s'. remove_range md_ok 0x2000 0x800 pool = Some (r, s') \<and> alloc_wf s'"
proof -
  have "alloc_wf pool" using pool_inv by (simp add: alloc_inv_def)
  from remove_range_correct [OF this, of "0x2000" "0x800" md_ok] show ?thesis by (simp only: unat_numeral) auto
qed

end
