(* ===== verification/Bit_Array.thy ===== *)
theory Bit_Array
  imports Misc_Math
begin

text \<open>
  Bit arrays and the bit allocator: \<open>base/include/util/bit_array.h\<close> and
  \<open>base/include/util/bit_allocator.h\<close>.  The array is the list of its machine words; an operation
  that throws returns the exception and the words as they are at that moment.
\<close>

section \<open>Bit arrays\<close>

datatype bit_error = Invalid_bit_count | Invalid_index_access | Invalid_clear | Invalid_set

abbreviation BITS_PER_WORD :: addr where "BITS_PER_WORD \<equiv> 64"

definition word_of :: "addr \<Rightarrow> addr" where
  "word_of index = index div BITS_PER_WORD"

definition bit_count :: "addr list \<Rightarrow> addr" where
  "bit_count ws = of_nat (length ws) * BITS_PER_WORD"

definition check_range :: "addr list \<Rightarrow> addr \<Rightarrow> addr \<Rightarrow> bool" where
  "check_range ws index width \<longleftrightarrow>
     \<not> (index \<ge> bit_count ws \<or> width > bit_count ws \<or> bit_count ws - width < index)"

text \<open>\<open>_mask\<close>: the bits of one word, and how many bits remain for the next word.\<close>

definition bits_mask :: "addr \<Rightarrow> addr \<Rightarrow> addr \<times> addr" where
  "bits_mask index width =
     (let shift = index - word_of index * BITS_PER_WORD;
          rest = (if width + shift > BITS_PER_WORD then width + shift - BITS_PER_WORD else 0)
      in (if width \<ge> BITS_PER_WORD then push_bit (unat shift) (NOT 0)
          else push_bit (unat shift) (push_bit (unat width) 1 - 1), rest))"

lemma rest_less: "snd (bits_mask index width) \<noteq> 0 \<Longrightarrow> unat (snd (bits_mask index width)) < unat width"
proof -
  assume r: "snd (bits_mask index width) \<noteq> 0"
  define shift where "shift = index - word_of index * 64"
  from r have gt: "width + shift > 64" and s: "snd (bits_mask index width) = width + shift - 64"
    by (auto simp: bits_mask_def Let_def shift_def split: if_splits)
  have i: "unat index = unat index div 64 * 64 + unat index mod 64" by simp
  have "unat (word_of index) = unat index div 64" by (simp add: word_of_def unat_div)
  then have "unat (word_of index * 64) = unat index div 64 * 64"
    using unat_less_64 [of index] by (simp add: unat_word_ariths)
  then have "unat shift = unat index mod 64"
    unfolding shift_def using i by (subst unat_sub_no_wrap) (simp_all add: word_le_nat_alt minus_div_mult_eq_mod)
  then have sh: "unat shift < 64" by simp
  have "unat (width + shift) \<le> unat width + unat shift" by (simp add: unat_word_ariths)
  with gt sh show ?thesis unfolding s by (simp add: word_less_nat_alt unat_sub_no_wrap word_le_nat_alt)
qed

lemma rest_less_eq: "(msk, rest) = bits_mask index width \<Longrightarrow> rest \<noteq> 0 \<Longrightarrow> unat rest < unat width"
  by (metis rest_less snd_conv)

text \<open>The loop of \<open>_set\<close>; the range has been checked.\<close>

function set_loop :: "addr list \<Rightarrow> addr \<Rightarrow> addr \<Rightarrow> bool \<Rightarrow> bit_error option \<times> addr list" where
  "set_loop ws index width free =
     (let word = unat (word_of index);
          (msk, rest) = bits_mask index width;
          next_index = (word_of index + 1) * BITS_PER_WORD
      in if free \<and> ws ! word AND msk \<noteq> msk then (Some Invalid_clear, ws)
         else if \<not> free \<and> ws ! word AND msk \<noteq> 0 then (Some Invalid_set, ws)
         else
           (let ws' = ws[word := (if free then ws ! word AND NOT msk else ws ! word OR msk)]
            in if rest \<noteq> 0 then set_loop ws' next_index rest free else (None, ws')))"
  by pat_completeness auto
termination
  by (relation "measure (\<lambda>(ws, index, width, free). unat width)")
     (auto intro: rest_less_eq)

definition set_bits :: "addr list \<Rightarrow> addr \<Rightarrow> addr \<Rightarrow> bool \<Rightarrow> bit_error option \<times> addr list" where
  "set_bits ws index width free =
     (if \<not> check_range ws index width then (Some Invalid_index_access, ws)
      else set_loop ws index width free)"

definition bit_array_set :: "addr list \<Rightarrow> addr \<Rightarrow> addr \<Rightarrow> bit_error option \<times> addr list" where
  "bit_array_set ws index width = set_bits ws index width False"

definition bit_array_clear :: "addr list \<Rightarrow> addr \<Rightarrow> addr \<Rightarrow> bit_error option \<times> addr list" where
  "bit_array_clear ws index width = set_bits ws index width True"

function get_loop :: "addr list \<Rightarrow> addr \<Rightarrow> addr \<Rightarrow> bool" where
  "get_loop ws index width =
     (let (msk, rest) = bits_mask index width;
          used = (ws ! unat (word_of index) AND msk \<noteq> 0)
      in if \<not> used \<and> rest \<noteq> 0 then get_loop ws ((word_of index + 1) * BITS_PER_WORD) rest else used)"
  by pat_completeness auto
termination
  by (relation "measure (\<lambda>(ws, index, width). unat width)")
     (auto intro: rest_less_eq)

definition bit_array_get :: "addr list \<Rightarrow> addr \<Rightarrow> addr \<Rightarrow> bit_error + bool" where
  "bit_array_get ws index width =
     (if \<not> check_range ws index width then Inl Invalid_index_access else Inr (get_loop ws index width))"

text \<open>The constructor, over a memory area of at least the given number of bits.\<close>

definition bit_array_new :: "u32 \<Rightarrow> addr list \<Rightarrow> bool \<Rightarrow> bit_error + addr list" where
  "bit_array_new bits mem clear =
     (if bits = 0 \<or> bits mod 64 \<noteq> 0 then Inl Invalid_bit_count
      else Inr (let cnt = unat (bits div 64) in if clear then replicate cnt 0 else take cnt mem))"

declare set_loop.simps [simp del] get_loop.simps [simp del]


section \<open>Bit allocator\<close>

record bit_allocator =
  ba_next :: addr
  ba_array :: "addr list"

datatype bit_alloc_error = Out_of_indices | Range_conflict | Array_error bit_error

definition bits_aligned :: "addr \<Rightarrow> addr" where
  "bits_aligned bits = (bits + BITS_PER_WORD - 1) AND NOT (BITS_PER_WORD - 1)"

definition ba_reserve :: "addr \<Rightarrow> size \<Rightarrow> bit_allocator \<Rightarrow> bit_error option \<times> bit_allocator" where
  "ba_reserve bit_start num s =
     (if num = 0 then (None, s)
      else (let (e, ws) = bit_array_set (ba_array s) bit_start num in (e, s\<lparr> ba_array := ws \<rparr>)))"

definition ba_new :: "addr \<Rightarrow> bit_error option \<times> bit_allocator" where
  "ba_new bits =
     ba_reserve bits (bits_aligned bits - bits)
       \<lparr> ba_next = 0, ba_array = replicate (unat (bits_aligned bits div 64)) 0 \<rparr>"

definition ba_copy :: "bit_allocator \<Rightarrow> bit_allocator" where
  "ba_copy s = \<lparr> ba_next = 0, ba_array = ba_array s \<rparr>"

text \<open>
  The \<open>for\<close> loop of \<open>alloc\<close>, which ends at the first index out of bounds: \<open>Some None\<close>.  A shift by 64
  or more is undefined in the code; a step of 0 would let the loop run forever.
\<close>

partial_function (option) scan_free :: "addr list \<Rightarrow> addr \<Rightarrow> addr \<Rightarrow> addr \<Rightarrow> addr option option" where
  "scan_free ws step i max_i =
     (if \<not> i < max_i then Some None
      else case bit_array_get ws i step of
        Inl e \<Rightarrow> Some None
      | Inr used \<Rightarrow> if used then scan_free ws step (i + step) max_i else Some (Some i))"

definition ba_take :: "addr \<Rightarrow> addr \<Rightarrow> bit_allocator \<Rightarrow> (bit_alloc_error + addr) \<times> bit_allocator" where
  "ba_take i step s =
     (case bit_array_set (ba_array s) i step of
        (None, ws) \<Rightarrow> (Inr i, s\<lparr> ba_array := ws, ba_next := i + step \<rparr>)
      | (Some e, ws) \<Rightarrow> (Inl (Array_error e), s\<lparr> ba_array := ws \<rparr>))"

text \<open>
  \<open>alloc\<close>: the first round starts at \<open>_next\<close>, the second, if there is one, covers what is in front of it.
\<close>

definition ba_alloc :: "nat \<Rightarrow> bit_allocator \<Rightarrow> ((bit_alloc_error + addr) \<times> bit_allocator) option" where
  "ba_alloc num_log2 s =
     (let step = push_bit num_log2 1 in
      case scan_free (ba_array s) step (ba_next s AND NOT (step - 1)) (NOT 0) of
        None \<Rightarrow> None
      | Some (Some i) \<Rightarrow> Some (ba_take i step s)
      | Some None \<Rightarrow>
          if ba_next s = 0 then Some (Inl Out_of_indices, s)
          else
            (case scan_free (ba_array s) step 0 (ba_next s) of
               None \<Rightarrow> None
             | Some (Some i) \<Rightarrow> Some (ba_take i step (s\<lparr> ba_next := 0 \<rparr>))
             | Some None \<Rightarrow> Some (Inl Out_of_indices, s\<lparr> ba_next := 0 \<rparr>)))"

definition ba_alloc_addr :: "addr \<Rightarrow> nat \<Rightarrow> bit_allocator \<Rightarrow> bit_alloc_error option \<times> bit_allocator" where
  "ba_alloc_addr bit_start num_log2 s =
     (let step = push_bit num_log2 1 in
      case bit_array_get (ba_array s) bit_start step of
        Inl e \<Rightarrow> (Some (Array_error e), s)
      | Inr used \<Rightarrow>
          if used then (Some Range_conflict, s)
          else (case bit_array_set (ba_array s) bit_start step of
              (None, ws) \<Rightarrow> (None, s\<lparr> ba_array := ws, ba_next := bit_start + step \<rparr>)
            | (Some e, ws) \<Rightarrow> (Some (Array_error e), s\<lparr> ba_array := ws \<rparr>)))"

definition ba_free :: "addr \<Rightarrow> nat \<Rightarrow> bit_allocator \<Rightarrow> bit_error option \<times> bit_allocator" where
  "ba_free bit_start num_log2 s =
     (case bit_array_clear (ba_array s) bit_start (push_bit num_log2 1) of
        (None, ws) \<Rightarrow> (None, s\<lparr> ba_array := ws, ba_next := bit_start \<rparr>)
      | (Some e, ws) \<Rightarrow> (Some e, s\<lparr> ba_array := ws \<rparr>))"

declare scan_free.simps [code]


section \<open>The bits of an array\<close>

definition bit_at :: "addr list \<Rightarrow> nat \<Rightarrow> bool" where
  "bit_at ws j = bit (ws ! (j div 64)) (j mod 64)"

definition bit_len :: "addr list \<Rightarrow> nat" where
  "bit_len ws = 64 * length ws"

lemma unat_word_of: "unat (word_of i) = unat i div 64"
  by (simp add: word_of_def unat_div)

lemma unat_shift: "unat (i - word_of i * 64) = unat i mod 64"
proof -
  have "unat (word_of i * 64) = unat i div 64 * 64"
    using unat_less_64 [of i] by (simp add: unat_word_ariths unat_word_of)
  moreover have "unat i = unat i div 64 * 64 + unat i mod 64" by simp
  ultimately show ?thesis by (subst unat_sub_no_wrap) (simp_all add: word_le_nat_alt minus_div_mult_eq_mod)
qed

lemma unat_next_index:
  "unat i + unat w < 2 ^ 64 \<Longrightarrow> unat i mod 64 + unat w > 64 \<Longrightarrow>
     unat ((word_of i + 1) * 64) = (unat i div 64 + 1) * 64"
proof -
  assume a: "unat i + unat w < 2 ^ 64" "unat i mod 64 + unat w > 64"
  define q r where "q = unat i div 64" and "r = unat i mod 64"
  have "unat i = q * 64 + r" by (simp add: q_def r_def)
  moreover have "unat i + unat w < 18446744073709551616" using a(1) by simp
  moreover have "r + unat w > 64" using a(2) by (simp add: r_def)
  ultimately have "(q + 1) * 64 < 18446744073709551616" by simp
  then have "(unat i div 64 + 1) * 64 < 18446744073709551616" by (simp add: q_def)
  moreover from this have "unat (word_of i + 1) = unat i div 64 + 1"
    by (simp add: unat_add_no_wrap unat_word_of)
  ultimately show ?thesis by (subst unat_mult_no_wrap) simp_all
qed

lemma bits_mask_rest:
  assumes "unat i + unat w < 2 ^ 64"
  shows "unat (snd (bits_mask i w)) = (if unat w + unat i mod 64 > 64 then unat w + unat i mod 64 - 64 else 0)"
proof -
  have "unat (w + (i - word_of i * 64)) = unat w + unat i mod 64"
    using assms mod_less_eq_dividend [of "unat i" 64]
    by (subst unat_add_no_wrap) (simp_all only: unat_shift, simp)
  then show ?thesis
    by (auto simp: bits_mask_def Let_def word_less_nat_alt unat_sub_no_wrap word_le_nat_alt)
qed

lemma bit_bits_mask:
  assumes "k < 64"
  shows "bit (fst (bits_mask i w)) k \<longleftrightarrow> unat i mod 64 \<le> k \<and> k < unat i mod 64 + unat w"
proof (cases "w \<ge> 64")
  case True
  then have "64 \<le> unat w" by (simp add: word_le_nat_alt)
  with True assms show ?thesis by (auto simp: bits_mask_def Let_def unat_shift bit_simps)
next
  case False
  have m: "(2 :: addr) ^ unat w - 1 = mask (unat w)"
    by (simp add: mask_eq_exp_minus_1)
  from False assms show ?thesis
    by (auto simp: bits_mask_def Let_def unat_shift m bit_simps)
qed


section \<open>What the operations do to the bits\<close>

lemma and_eq_0_iff: "w AND m = 0 \<longleftrightarrow> (\<forall>k<64. bit m k \<longrightarrow> \<not> bit (w :: addr) k)"
  by (auto simp: bit_eq_iff bit_simps)

lemma and_eq_mask_iff: "w AND m = m \<longleftrightarrow> (\<forall>k<64. bit m k \<longrightarrow> bit (w :: addr) k)"
  by (auto simp: bit_eq_iff bit_simps)

text \<open>The bits of a word that a mask selects, as bits of the array.\<close>

lemma masked_bits:
  "(\<forall>k<64. bit (fst (bits_mask i w)) k \<longrightarrow> P (unat i div 64 * 64 + k)) \<longleftrightarrow>
     (\<forall>j. unat i \<le> j \<and> j < unat i + unat w \<and> j div 64 = unat i div 64 \<longrightarrow> P j)"
proof (intro iffI allI impI)
  fix j
  assume l: "\<forall>k<64. bit (fst (bits_mask i w)) k \<longrightarrow> P (unat i div 64 * 64 + k)"
    and j: "unat i \<le> j \<and> j < unat i + unat w \<and> j div 64 = unat i div 64"
  define q m k where "q = unat i div 64" and "m = unat i mod 64" and "k = j mod 64"
  have "unat i = q * 64 + m" by (simp add: q_def m_def)
  moreover have e: "j = unat i div 64 * 64 + j mod 64" using j by (metis div_mult_mod_eq)
  moreover from this have "j = q * 64 + k" by (simp add: q_def k_def)
  ultimately have "m \<le> k" "k < m + unat w" using j by simp_all
  then have "bit (fst (bits_mask i w)) (j mod 64)"
    by (subst bit_bits_mask) (simp_all add: m_def k_def)
  with l e show "P j" by (metis mod_less_divisor zero_less_numeral)
next
  fix k
  assume r: "\<forall>j. unat i \<le> j \<and> j < unat i + unat w \<and> j div 64 = unat i div 64 \<longrightarrow> P j"
    and k: "k < (64::nat)" "bit (fst (bits_mask i w)) k"
  define q m where "q = unat i div 64" and "m = unat i mod 64"
  have e: "unat i = q * 64 + m" by (simp add: q_def m_def)
  have "m \<le> k" "k < m + unat w" using k by (simp_all add: bit_bits_mask m_def)
  with e k(1) have "unat i \<le> q * 64 + k" "q * 64 + k < unat i + unat w" "(q * 64 + k) div 64 = q" by simp_all
  with r show "P (unat i div 64 * 64 + k)" by (simp add: q_def)
qed

lemma bit_at_word: "k < 64 \<Longrightarrow> bit_at ws (q * 64 + k) = bit (ws ! q) k"
  by (simp add: bit_at_def)

lemma get_loop_bits:
  assumes "unat i + unat w < 2 ^ 64"
  shows "get_loop ws i w \<longleftrightarrow> (\<exists>j. unat i \<le> j \<and> j < unat i + unat w \<and> bit_at ws j)"
  using assms
proof (induction ws i w rule: get_loop.induct)
  case (1 ws i w)
  define q m where "q = unat i div 64" and "m = unat i mod 64"
  have e: "unat i = q * 64 + m" "m < 64" by (simp_all add: q_def m_def)
  obtain msk rest where mr: "bits_mask i w = (msk, rest)" by fastforce
  have "ws ! unat (word_of i) AND msk = 0 \<longleftrightarrow>
      (\<forall>k<64. bit (fst (bits_mask i w)) k \<longrightarrow> \<not> bit_at ws (unat i div 64 * 64 + k))"
    by (auto simp: and_eq_0_iff mr bit_at_word unat_word_of)
  then have used: "ws ! unat (word_of i) AND msk = 0 \<longleftrightarrow>
      (\<forall>j. unat i \<le> j \<and> j < unat i + unat w \<and> j div 64 = q \<longrightarrow> \<not> bit_at ws j)"
    by (simp only: masked_bits [where P = "\<lambda>j. \<not> bit_at ws j"] q_def)
  have rest: "unat rest = (if unat w + m > 64 then unat w + m - 64 else 0)"
    using bits_mask_rest [OF "1.prems"] mr by (simp add: m_def)
  show ?case
  proof (cases "ws ! unat (word_of i) AND msk = 0 \<and> rest \<noteq> 0")
    case True
    then have "0 < unat rest" by (simp add: unat_gt_0)
    then have gt: "unat w + m > 64" using rest by (auto split: if_splits)
    have n: "unat ((word_of i + 1) * 64) = (q + 1) * 64"
      using unat_next_index [OF "1.prems"] gt by (simp add: q_def m_def)
    have s: "unat ((word_of i + 1) * 64) + unat rest = unat i + unat w"
      using n rest gt e by simp
    have "get_loop ws i w = get_loop ws ((word_of i + 1) * 64) rest"
      using True mr by (subst get_loop.simps) simp
    also have "\<dots> \<longleftrightarrow> (\<exists>j. (q + 1) * 64 \<le> j \<and> j < unat i + unat w \<and> bit_at ws j)"
      using "1.IH" [OF refl mr [symmetric] refl] True s "1.prems" n by simp
    also have "\<dots> \<longleftrightarrow> (\<exists>j. unat i \<le> j \<and> j < unat i + unat w \<and> bit_at ws j)"
    proof -
      have "unat i \<le> (q + 1) * 64" using e by simp
      moreover have "(q + 1) * 64 \<le> j" if "unat i \<le> j" "j < unat i + unat w" "bit_at ws j" for j
      proof -
        have "q \<le> j div 64" using that(1) by (simp add: q_def div_le_mono)
        moreover have "j div 64 \<noteq> q" using used True that by blast
        ultimately show ?thesis by (simp add: less_eq_div_iff_mult_less_eq [symmetric])
      qed
      ultimately show ?thesis by (meson le_trans)
    qed
    finally show ?thesis .
  next
    case False
    have g: "get_loop ws i w = (ws ! unat (word_of i) AND msk \<noteq> 0)"
      using False mr by (subst get_loop.simps) auto
    show ?thesis
    proof (cases "rest = 0")
      case True
      then have "unat w + m \<le> 64" using rest by (auto split: if_splits)
      then have "j div 64 = q" if "unat i \<le> j" "j < unat i + unat w" for j
        using that e by (simp add: div_nat_eqI)
      with g used show ?thesis by blast
    next
      case False
      with \<open>\<not> (_ \<and> rest \<noteq> 0)\<close> g used show ?thesis by blast
    qed
  qed
qed


definition in_bits :: "addr \<Rightarrow> addr \<Rightarrow> nat \<Rightarrow> bool" where
  "in_bits i w j \<longleftrightarrow> unat i \<le> j \<and> j < unat i + unat w"

lemma bit_update:
  assumes "q < length ws"
  shows "bit_at (ws[q := v]) j = (if j div 64 = q then bit v (j mod 64) else bit_at ws j)"
  using assms by (simp add: bit_at_def nth_list_update)

text \<open>Setting (\<open>free = False\<close>) or clearing a range all of whose bits have the other value.\<close>

lemma set_loop_bits:
  assumes "unat i + unat w \<le> bit_len ws" "bit_len ws < 2 ^ 64" "unat i < bit_len ws"
    and "\<forall>j. in_bits i w j \<longrightarrow> bit_at ws j = free"
  shows "\<exists>ws'. set_loop ws i w free = (None, ws') \<and> length ws' = length ws \<and>
    (\<forall>j < bit_len ws. bit_at ws' j = (if in_bits i w j then \<not> free else bit_at ws j))"
  using assms
proof (induction ws i w free rule: set_loop.induct)
  case (1 ws i w free)
  have nw: "unat i + unat w < 2 ^ 64" using "1.prems"(1,2) by simp
  define q m where "q = unat i div 64" and "m = unat i mod 64"
  have e: "unat i = q * 64 + m" "m < 64" by (simp_all add: q_def m_def)
  obtain msk rest where mr: "bits_mask i w = (msk, rest)" by fastforce
  have q: "q < length ws" using "1.prems"(3) e by (simp add: bit_len_def)
  have wq: "unat (word_of i) = q" by (simp add: unat_word_of q_def)
  have bm: "bit msk k \<longleftrightarrow> m \<le> k \<and> k < m + unat w" if "k < 64" for k
    using bit_bits_mask [OF that, of i w] mr by (simp add: m_def)
  have word: "bit (ws ! q) k = free" if "k < 64" "bit msk k" for k
  proof -
    have "in_bits i w (q * 64 + k)" using that bm [OF that(1)] e by (simp add: in_bits_def)
    with "1.prems"(4) have "bit_at ws (q * 64 + k) = free" by blast
    with that(1) show ?thesis by (simp add: bit_at_word)
  qed
  have ok: "\<not> (free \<and> ws ! q AND msk \<noteq> msk)" "\<not> (\<not> free \<and> ws ! q AND msk \<noteq> 0)"
    using word by (auto simp: and_eq_mask_iff and_eq_0_iff)
  define v where "v = (if free then ws ! q AND NOT msk else ws ! q OR msk)"
  define ws1 where "ws1 = ws[q := v]"
  have v: "bit v k = (if m \<le> k \<and> k < m + unat w then \<not> free else bit (ws ! q) k)" if "k < 64" for k
    using that bm [OF that] by (auto simp: v_def bit_simps)
  have ws1: "bit_at ws1 j = (if in_bits i w j \<and> j div 64 = q then \<not> free else bit_at ws j)" for j
  proof (cases "j div 64 = q")
    case True
    then have "j = q * 64 + j mod 64" by (metis div_mult_mod_eq)
    then have "m \<le> j mod 64 \<and> j mod 64 < m + unat w \<longleftrightarrow> in_bits i w j" using e by (auto simp: in_bits_def)
    with True q v [of "j mod 64"] show ?thesis by (simp add: ws1_def bit_update bit_at_def)
  next
    case False
    with q show ?thesis by (simp add: ws1_def bit_update)
  qed
  have len: "bit_len ws1 = bit_len ws" by (simp add: ws1_def bit_len_def)
  have rest: "unat rest = (if unat w + m > 64 then unat w + m - 64 else 0)"
    using bits_mask_rest [OF nw] mr by (simp add: m_def)
  show ?case
  proof (cases "rest = 0")
    case True
    then have le: "unat w + m \<le> 64" using rest by (auto split: if_splits)
    have "j div 64 = q" if "in_bits i w j" for j
      using that e le by (simp add: div_nat_eqI in_bits_def)
    then have "bit_at ws1 j = (if in_bits i w j then \<not> free else bit_at ws j)" for j
      using ws1 by auto
    moreover have "set_loop ws i w free = (None, ws1)"
      using ok mr True wq by (subst set_loop.simps) (simp add: ws1_def v_def)
    ultimately show ?thesis by (simp add: ws1_def)
  next
    case False
    then have "0 < unat rest" by (simp add: unat_gt_0)
    then have gt: "unat w + m > 64" using rest by (auto split: if_splits)
    define i' where "i' = (word_of i + 1) * 64"
    have i': "unat i' = (q + 1) * 64"
      using unat_next_index [OF nw] gt by (simp add: q_def m_def i'_def)
    have s: "unat i' + unat rest = unat i + unat w" using i' rest gt e by simp
    have range: "in_bits i w j \<longleftrightarrow> in_bits i w j \<and> j div 64 = q \<or> in_bits i' rest j" for j
    proof -
      have "j div 64 = q \<or> (q + 1) * 64 \<le> j" if "unat i \<le> j"
      proof -
        have "q \<le> j div 64" using that by (simp add: q_def div_le_mono)
        then show ?thesis by (simp add: less_eq_div_iff_mult_less_eq [symmetric]) linarith
      qed
      moreover have "unat i \<le> (q + 1) * 64" using e by simp
      ultimately show ?thesis using s i' by (auto simp: in_bits_def)
    qed
    have step: "set_loop ws i w free = set_loop ws1 i' rest free"
      using ok mr False wq by (cases free; subst set_loop.simps) (simp_all add: ws1_def v_def i'_def)
    have "bit_at ws1 j = free" if "in_bits i' rest j" for j
    proof -
      have "j div 64 \<noteq> q" using that i' by (auto simp: in_bits_def)
      moreover have "in_bits i w j" using that range by blast
      ultimately show ?thesis using ws1 "1.prems"(4) by simp
    qed
    moreover have "unat i' < bit_len ws1" using s \<open>0 < unat rest\<close> "1.prems"(1) len by linarith
    ultimately obtain ws' where ws': "set_loop ws1 i' rest free = (None, ws')" "length ws' = length ws1"
      "\<forall>j < bit_len ws1. bit_at ws' j = (if in_bits i' rest j then \<not> free else bit_at ws1 j)"
      using "1.IH" [OF refl refl mr [symmetric] refl _ _ refl False] ok s len "1.prems"(1,2)
      unfolding wq ws1_def v_def i'_def by auto
    have "\<forall>j < bit_len ws. bit_at ws' j = (if in_bits i w j then \<not> free else bit_at ws j)"
      using ws'(3) len ws1 range by auto
    with ws'(1,2) step show ?thesis by (simp add: ws1_def)
  qed
qed


lemma unat_bit_count: "bit_len ws < 2 ^ 64 \<Longrightarrow> unat (bit_count ws) = bit_len ws"
  by (simp add: bit_count_def bit_len_def unat_mult_no_wrap unat_of_nat take_bit_nat_eq_self)

lemma check_range_nat:
  assumes "bit_len ws < 2 ^ 64"
  shows "check_range ws i w \<longleftrightarrow> unat i < bit_len ws \<and> unat i + unat w \<le> bit_len ws"
proof (cases "w \<le> bit_count ws")
  case True
  with assms show ?thesis
    by (auto simp: check_range_def word_le_nat_alt word_less_nat_alt unat_bit_count unat_sub_no_wrap not_le not_less)
next
  case False
  with assms show ?thesis
    by (auto simp: check_range_def word_le_nat_alt word_less_nat_alt unat_bit_count not_le not_less)
qed

lemma get_correct:
  assumes "bit_len ws < 2 ^ 64"
  shows "bit_array_get ws i w =
    (if unat i < bit_len ws \<and> unat i + unat w \<le> bit_len ws then Inr (\<exists>j. in_bits i w j \<and> bit_at ws j)
     else Inl Invalid_index_access)"
  using assms check_range_nat [OF assms, of i w] get_loop_bits [of i w ws]
  by (auto simp: bit_array_get_def in_bits_def)

lemma set_bits_ok:
  assumes "bit_len ws < 2 ^ 64" "unat i < bit_len ws" "unat i + unat w \<le> bit_len ws"
    and "\<forall>j. in_bits i w j \<longrightarrow> bit_at ws j = free"
  obtains ws' where "set_bits ws i w free = (None, ws')" "length ws' = length ws"
    "\<And>j. j < bit_len ws \<Longrightarrow> bit_at ws' j = (if in_bits i w j then \<not> free else bit_at ws j)"
  using set_loop_bits [OF assms(3,1,2,4)] check_range_nat [OF assms(1), of i w] assms(2,3)
  by (auto simp: set_bits_def)


section \<open>The bit allocator\<close>

text \<open>A block of \<open>step\<close> bits at \<open>i\<close> that \<open>alloc\<close> may hand out.\<close>

definition free_block :: "addr list \<Rightarrow> nat \<Rightarrow> nat \<Rightarrow> bool" where
  "free_block ws step i \<longleftrightarrow> i + step \<le> bit_len ws \<and> step dvd i \<and> (\<forall>j. i \<le> j \<and> j < i + step \<longrightarrow> \<not> bit_at ws j)"

lemma free_block_1: "free_block ws (Suc 0) i \<longleftrightarrow> i < bit_len ws \<and> \<not> bit_at ws i"
  by (auto simp: free_block_def less_Suc_eq_le)

lemma scan_free_result:
  assumes len: "bit_len ws < 2 ^ 64" and step: "0 < unat step" and dv: "unat step dvd unat i"
  shows "case scan_free ws step i max_i of
      None \<Rightarrow> False
    | Some None \<Rightarrow> \<forall>k. unat i \<le> k \<and> k < unat max_i \<longrightarrow> \<not> free_block ws (unat step) k
    | Some (Some r) \<Rightarrow> unat i \<le> unat r \<and> r < max_i \<and> free_block ws (unat step) (unat r)"
  using dv
proof (induction "bit_len ws - unat i" arbitrary: i rule: less_induct)
  case less
  show ?case
  proof (cases "i < max_i \<and> unat i < bit_len ws \<and> unat i + unat step \<le> bit_len ws")
    case False
    have "\<not> free_block ws (unat step) k" if "unat i \<le> k \<and> k < unat max_i" for k
      using that False step by (auto simp: free_block_def word_less_nat_alt)
    moreover have "scan_free ws step i max_i = Some None"
      using False get_correct [OF len, of i step] by (subst scan_free.simps) auto
    ultimately show ?thesis by simp
  next
    case True
    note g = get_correct [OF len, of i step]
    show ?thesis
    proof (cases "\<exists>j. in_bits i step j \<and> bit_at ws j")
      case False
      then have "scan_free ws step i max_i = Some (Some i)"
        using True g by (subst scan_free.simps) auto
      moreover have "free_block ws (unat step) (unat i)"
        using True False less.prems by (auto simp: free_block_def in_bits_def)
      ultimately show ?thesis using True by simp
    next
      case used: True
      have n: "unat (i + step) = unat i + unat step" using True len by (intro unat_add_no_wrap) simp
      have dv': "unat step dvd unat (i + step)" using less.prems n by simp
      have eq: "scan_free ws step i max_i = scan_free ws step (i + step) max_i"
        using True used g by (subst scan_free.simps) simp
      have nf: "\<not> free_block ws (unat step) k" if "unat i \<le> k" "k < unat i + unat step" for k
      proof
        assume f: "free_block ws (unat step) k"
        obtain a where a: "unat i = unat step * a" using less.prems by (auto elim: dvdE)
        obtain b where b: "k = unat step * b" using f by (auto simp: free_block_def elim: dvdE)
        have "unat step * a \<le> unat step * b" "unat step * b < unat step * (a + 1)"
          using that a b by simp_all
        then have "a = b" using step by (metis add.commute less_Suc_eq_le mult_le_cancel1 nat_mult_less_cancel1 plus_1_eq_Suc le_antisym)
        with a b f used show False by (auto simp: free_block_def in_bits_def)
      qed
      have "bit_len ws - unat (i + step) < bit_len ws - unat i" using True n step by linarith
      from less.hyps [OF this dv'] show ?thesis
        unfolding eq n using nf by (auto split: option.splits) (metis not_le_imp_less)+
    qed
  qed
qed


lemma ba_take_ok:
  assumes len: "bit_len (ba_array s) < 2 ^ 64" and step: "0 < unat step"
    and f: "free_block (ba_array s) (unat step) (unat i)"
  shows "fst (ba_take i step s) = Inr i \<and> length (ba_array (snd (ba_take i step s))) = length (ba_array s) \<and>
    (\<forall>j < bit_len (ba_array s). bit_at (ba_array (snd (ba_take i step s))) j = (in_bits i step j \<or> bit_at (ba_array s) j))"
proof -
  have r: "unat i < bit_len (ba_array s)" "unat i + unat step \<le> bit_len (ba_array s)"
    "\<forall>j. in_bits i step j \<longrightarrow> bit_at (ba_array s) j = False"
    using f step by (auto simp: free_block_def in_bits_def)
  obtain ws' where "set_bits (ba_array s) i step False = (None, ws')" "length ws' = length (ba_array s)"
    "\<And>j. j < bit_len (ba_array s) \<Longrightarrow> bit_at ws' j = (if in_bits i step j then \<not> False else bit_at (ba_array s) j)"
    using set_bits_ok [OF len r] by metis
  then show ?thesis by (simp add: ba_take_def bit_array_set_def)
qed

lemma unat_align_down: "unat (a AND NOT (push_bit n 1 - 1 :: addr)) = unat a div 2 ^ n * 2 ^ n"
proof -
  have "push_bit n 1 - 1 = (mask n :: addr)" by (simp add: mask_eq_exp_minus_1 push_bit_eq_mult)
  then show ?thesis by (simp add: and_not_mask unat_push_drop)
qed

lemma unat_step: "n < 64 \<Longrightarrow> unat (push_bit n 1 :: addr) = 2 ^ n"
  by (simp add: push_bit_eq_mult unat_two_power)

definition bits_taken :: "addr list \<Rightarrow> nat \<Rightarrow> nat \<Rightarrow> addr list \<Rightarrow> bool" where
  "bits_taken ws i k ws' \<longleftrightarrow> length ws' = length ws \<and>
     (\<forall>j < bit_len ws. bit_at ws' j = (i \<le> j \<and> j < i + k \<or> bit_at ws j))"

definition alloc_result :: "addr list \<Rightarrow> nat \<Rightarrow> (bit_alloc_error + addr) \<Rightarrow> addr list \<Rightarrow> bool" where
  "alloc_result ws k r ws' \<longleftrightarrow>
     (case r of
        Inr i \<Rightarrow> free_block ws k (unat i) \<and> bits_taken ws (unat i) k ws'
      | Inl e \<Rightarrow> e = Out_of_indices \<and> ws' = ws \<and> (\<forall>i. \<not> free_block ws k i))"

lemma ba_take_result:
  assumes "bit_len (ba_array s) < 2 ^ 64" "0 < unat step" "free_block (ba_array s) (unat step) (unat i)"
  shows "alloc_result (ba_array s) (unat step) (fst (ba_take i step s)) (ba_array (snd (ba_take i step s)))"
  using ba_take_ok [OF assms] assms(3) by (auto simp: alloc_result_def bits_taken_def in_bits_def)

lemma ba_alloc_result:
  assumes len: "bit_len (ba_array s) < 2 ^ 64" and n: "n < 64"
  shows "\<exists>r s'. ba_alloc n s = Some (r, s') \<and> alloc_result (ba_array s) (2 ^ n) r (ba_array s')"
proof -
  define step :: addr where "step = 2 ^ n"
  have step: "unat step = 2 ^ n" "0 < unat step" using unat_two_power [of n, where ?'a = 64] n by (simp_all add: step_def)
  let ?ws = "ba_array s" and ?base = "ba_next s AND NOT (step - 1)"
  have base: "unat ?base = unat (ba_next s) div 2 ^ n * 2 ^ n" using unat_align_down [of "ba_next s" n] by (simp add: step_def)
  have dv: "unat step dvd unat ?base" by (simp add: base step(1))
  have base_le: "unat ?base \<le> unat (ba_next s)" by (simp add: base)
  note s1 = scan_free_result [OF len step(2) dv, of "NOT 0"]
  have hi: "k < unat (NOT 0 :: addr)" if "free_block ?ws (unat step) k" for k
    using that len step(2) by (simp add: free_block_def)
  have zero: "unat step dvd unat (0 :: addr)" by simp
  note s2 = scan_free_result [OF len step(2) zero, of "ba_next s"]
  consider (first) i where "scan_free ?ws step ?base (NOT 0) = Some (Some i)" "free_block ?ws (unat step) (unat i)"
    | (second) "scan_free ?ws step ?base (NOT 0) = Some None"
      "\<And>k. unat ?base \<le> k \<Longrightarrow> \<not> free_block ?ws (unat step) k"
    using s1 hi by (auto split: option.splits)
  then show ?thesis
  proof cases
    case first
    then have "ba_alloc n s = Some (ba_take i step s)" by (simp add: ba_alloc_def Let_def flip: step_def)
    with ba_take_result [OF len step(2) first(2)] step(1) show ?thesis
      by (cases "ba_take i step s") simp
  next
    case second
    show ?thesis
    proof (cases "ba_next s = 0")
      case True
      with second base_le have "\<not> free_block ?ws (unat step) k" for k by simp
      with second(1) True step(1) show ?thesis
        by (simp add: ba_alloc_def Let_def alloc_result_def flip: step_def)
    next
      case False
      consider (found) i where "scan_free ?ws step 0 (ba_next s) = Some (Some i)" "free_block ?ws (unat step) (unat i)"
        | (none) "scan_free ?ws step 0 (ba_next s) = Some None"
          "\<And>k. k < unat (ba_next s) \<Longrightarrow> \<not> free_block ?ws (unat step) k"
        using s2 by (auto split: option.splits)
      then show ?thesis
      proof cases
        case found
        with second(1) False have "ba_alloc n s = Some (ba_take i step (s\<lparr> ba_next := 0 \<rparr>))"
          by (simp add: ba_alloc_def Let_def flip: step_def)
        with ba_take_result [of "s\<lparr> ba_next := 0 \<rparr>" step i] len step found(2) show ?thesis
          by (cases "ba_take i step (s\<lparr> ba_next := 0 \<rparr>)") simp
      next
        case none
        with second(2) base_le have "\<not> free_block ?ws (unat step) k" for k by (meson leI le_trans not_le)
        with second(1) none(1) False step(1) show ?thesis
          by (simp add: ba_alloc_def Let_def alloc_result_def flip: step_def)
      qed
    qed
  qed
qed

lemma ba_free_result:
  assumes len: "bit_len (ba_array s) < 2 ^ 64" and n: "n < 64"
    and r: "unat i + 2 ^ n \<le> bit_len (ba_array s)" "\<forall>j. unat i \<le> j \<and> j < unat i + 2 ^ n \<longrightarrow> bit_at (ba_array s) j"
  shows "\<exists>s'. ba_free i n s = (None, s') \<and> ba_next s' = i \<and> length (ba_array s') = length (ba_array s) \<and>
    (\<forall>j < bit_len (ba_array s). bit_at (ba_array s') j = (\<not> (unat i \<le> j \<and> j < unat i + 2 ^ n) \<and> bit_at (ba_array s) j))"
proof -
  define step :: addr where "step = 2 ^ n"
  have step: "unat step = 2 ^ n" using unat_two_power [of n, where ?'a = 64] n by (simp add: step_def)
  have "unat i < unat i + 2 ^ n" by simp
  with r(1) have lt: "unat i < bit_len (ba_array s)" by linarith
  have le: "unat i + unat step \<le> bit_len (ba_array s)" using r(1) step by simp
  have all: "\<forall>j. in_bits i step j \<longrightarrow> bit_at (ba_array s) j = True" using r(2) step by (simp add: in_bits_def)
  obtain ws' where "set_bits (ba_array s) i step True = (None, ws')" "length ws' = length (ba_array s)"
    "\<And>j. j < bit_len (ba_array s) \<Longrightarrow> bit_at ws' j = (if in_bits i step j then \<not> True else bit_at (ba_array s) j)"
    using set_bits_ok [OF len lt le all] by metis
  then show ?thesis
    by (auto simp: ba_free_def bit_array_clear_def in_bits_def step simp flip: step_def)
qed


section \<open>Properties\<close>

text \<open>
  C13 \<open>alloc\<close> always returns.  What it returns is a block of bits aligned to its size all of which
  were clear and are set now, no other bit changes; it gives up only if no such block exists, wherever
  the search started, and then changes nothing.
\<close>

theorem bit_alloc_correct:
  assumes "bit_len (ba_array s) < 2 ^ 64" "n < 64"
  shows "\<exists>r s'. ba_alloc n s = Some (r, s') \<and> alloc_result (ba_array s) (2 ^ n) r (ba_array s')"
  by (rule ba_alloc_result [OF assms])

theorem bit_alloc_correct_witness:
  "\<exists>r s'. ba_alloc 1 \<lparr> ba_next = 5, ba_array = [0xff] \<rparr> = Some (r, s') \<and> alloc_result [0xff] (2 ^ 1) r (ba_array s')"
  using bit_alloc_correct [of "\<lparr> ba_next = 5, ba_array = [0xff] \<rparr>" 1] by (simp add: bit_len_def)

text \<open>
  \<open>free\<close> of a block whose bits are all set clears exactly these bits and lets the next search start there.
\<close>

theorem bit_free_correct:
  assumes "bit_len (ba_array s) < 2 ^ 64" "n < 64" "unat i + 2 ^ n \<le> bit_len (ba_array s)"
    and "\<forall>j. unat i \<le> j \<and> j < unat i + 2 ^ n \<longrightarrow> bit_at (ba_array s) j"
  shows "\<exists>s'. ba_free i n s = (None, s') \<and> ba_next s' = i \<and> length (ba_array s') = length (ba_array s) \<and>
    (\<forall>j < bit_len (ba_array s). bit_at (ba_array s') j = (\<not> (unat i \<le> j \<and> j < unat i + 2 ^ n) \<and> bit_at (ba_array s) j))"
  by (rule ba_free_result [OF assms])

theorem bit_free_correct_witness:
  "\<exists>s'. ba_free 2 1 \<lparr> ba_next = 5, ba_array = [0xff] \<rparr> = (None, s') \<and> ba_next s' = 2"
proof -
  have "bit_at [0xff] j" if "2 \<le> j \<and> j < 2 + 2 ^ 1" for j
  proof -
    from that have "j = 2 \<or> j = 3" by auto
    then show ?thesis by (auto simp: bit_at_def)
  qed
  then show ?thesis
    using bit_free_correct [of "\<lparr> ba_next = 5, ba_array = [0xff] \<rparr>" 1 2] by (auto simp: bit_len_def)
qed

text \<open>
  A range of clear bits can be set, and then every query of the array tells exactly which bits are set; a
  query outside of the array is refused.
\<close>

theorem bit_set_get:
  assumes "bit_len ws < 2 ^ 64" "unat i < bit_len ws" "unat i + unat w \<le> bit_len ws"
    and "\<forall>j. in_bits i w j \<longrightarrow> \<not> bit_at ws j"
  shows "\<exists>ws'. bit_array_set ws i w = (None, ws') \<and>
    (\<forall>k v. bit_array_get ws' k v =
      (if unat k < bit_len ws \<and> unat k + unat v \<le> bit_len ws
       then Inr (\<exists>j. in_bits k v j \<and> (in_bits i w j \<or> bit_at ws j)) else Inl Invalid_index_access))"
proof -
  have all: "\<forall>j. in_bits i w j \<longrightarrow> bit_at ws j = False" using assms(4) by simp
  obtain ws' where ws': "set_bits ws i w False = (None, ws')" "length ws' = length ws"
    "\<And>j. j < bit_len ws \<Longrightarrow> bit_at ws' j = (if in_bits i w j then \<not> False else bit_at ws j)"
    using set_bits_ok [OF assms(1-3) all] by metis
  have len: "bit_len ws' = bit_len ws" using ws'(2) by (simp add: bit_len_def)
  have "bit_at ws' j = (in_bits i w j \<or> bit_at ws j)" if "in_bits k v j" "unat k + unat v \<le> bit_len ws" for k v j
    using that ws'(3) [of j] by (auto simp: in_bits_def)
  then have "bit_array_get ws' k v =
      (if unat k < bit_len ws \<and> unat k + unat v \<le> bit_len ws
       then Inr (\<exists>j. in_bits k v j \<and> (in_bits i w j \<or> bit_at ws j)) else Inl Invalid_index_access)" for k v
    using get_correct [of ws' k v] len assms(1) by auto
  with ws'(1) show ?thesis by (auto simp: bit_array_set_def)
qed

theorem bit_set_get_witness:
  "\<exists>ws'. bit_array_set [0, 0] 60 8 = (None, ws')"
proof -
  have "\<not> bit_at [0, 0] j" if "in_bits 60 8 j" for j
  proof -
    have "j div 64 < 2" using that by (simp add: in_bits_def div_less_iff_less_mult)
    then have "j div 64 = 0 \<or> j div 64 = 1" by linarith
    then show ?thesis by (auto simp: bit_at_def)
  qed
  then show ?thesis using bit_set_get [of "[0, 0]" 60 8] by (auto simp: bit_len_def)
qed

text \<open>
  A \<open>set\<close> that fails is not undone: here the first word is already marked when the second one is found
  to be in use.
\<close>

lemma bit_set_not_atomic:
  "bit_array_set [0, 1] 0 128 = (Some Invalid_set, [NOT 0, 1])"
  by code_simp

end
