(* ===== verification/Double_List.thy ===== *)
theory Double_List
  imports Genode_Prelude
begin

text \<open>
  The doubly linked list of the kernel, \<open>base-hw/src/core/kernel/double_list.h\<close> and
  \<open>double_list.cc\<close>, on the level of its pointers.  A pointer is an optional item and the links are
  functions of the item.  An access through a null pointer is the result \<open>None\<close>.
\<close>

section \<open>State and operations\<close>

record 'a dlist =
  dl_head :: "'a option"
  dl_tail :: "'a option"
  dl_next :: "'a \<Rightarrow> 'a option"
  dl_prev :: "'a \<Rightarrow> 'a option"

definition dl_empty :: "'a dlist" where
  "dl_empty = \<lparr> dl_head = None, dl_tail = None, dl_next = (\<lambda>_. None), dl_prev = (\<lambda>_. None) \<rparr>"

text \<open>Stores to a link through a pointer.\<close>

definition put_next :: "'a option \<Rightarrow> 'a option \<Rightarrow> 'a dlist \<Rightarrow> 'a dlist option" where
  "put_next p v s = (case p of None \<Rightarrow> None | Some i \<Rightarrow> Some (s\<lparr> dl_next := (dl_next s)(i := v) \<rparr>))"

definition put_prev :: "'a option \<Rightarrow> 'a option \<Rightarrow> 'a dlist \<Rightarrow> 'a dlist option" where
  "put_prev p v s = (case p of None \<Rightarrow> None | Some i \<Rightarrow> Some (s\<lparr> dl_prev := (dl_prev s)(i := v) \<rparr>))"

definition connect_neighbors :: "'a \<Rightarrow> 'a dlist \<Rightarrow> 'a dlist option" where
  "connect_neighbors i s =
     Option.bind (put_next (dl_prev s i) (dl_next s i) s) (\<lambda>s1.
       put_prev (dl_next s1 i) (dl_prev s1 i) s1)"

definition move_to_tail :: "'a \<Rightarrow> 'a dlist \<Rightarrow> 'a dlist option" where
  "move_to_tail i s =
     (if Some i = dl_tail s then Some s
      else Option.bind (connect_neighbors i s) (\<lambda>s1.
        let s2 = s1\<lparr> dl_prev := (dl_prev s1)(i := dl_tail s1), dl_next := (dl_next s1)(i := None) \<rparr> in
        Option.bind (put_next (dl_tail s2) (Some i) s2) (\<lambda>s3.
          Some (s3\<lparr> dl_tail := Some i \<rparr>))))"

definition dl_head_to_tail :: "'a dlist \<Rightarrow> 'a dlist option" where
  "dl_head_to_tail s =
     (if dl_head s = None \<or> dl_head s = dl_tail s then Some s
      else
        Option.bind (put_prev (dl_head s) (dl_tail s) s) (\<lambda>s1.
        Option.bind (put_next (dl_tail s1) (dl_head s1) s1) (\<lambda>s2.
        Option.bind (dl_head s2) (\<lambda>h.
          let s3 = s2\<lparr> dl_head := dl_next s2 h \<rparr> in
          Option.bind (put_prev (dl_head s3) None s3) (\<lambda>s4.
          Option.bind (dl_tail s4) (\<lambda>t.
            let s5 = s4\<lparr> dl_tail := dl_next s4 t \<rparr> in
            put_next (dl_tail s5) None s5))))))"

definition dl_to_tail :: "'a \<Rightarrow> 'a dlist \<Rightarrow> 'a dlist option" where
  "dl_to_tail i s = (if Some i = dl_head s then dl_head_to_tail s else move_to_tail i s)"

definition dl_insert_tail :: "'a \<Rightarrow> 'a dlist \<Rightarrow> 'a dlist" where
  "dl_insert_tail i s =
     (let s1 = (case dl_tail s of
           Some t \<Rightarrow> s\<lparr> dl_next := (dl_next s)(t := Some i) \<rparr>
         | None \<Rightarrow> s\<lparr> dl_head := Some i \<rparr>)
      in s1\<lparr> dl_prev := (dl_prev s1)(i := dl_tail s1), dl_next := (dl_next s1)(i := None), dl_tail := Some i \<rparr>)"

definition dl_insert_head :: "'a \<Rightarrow> 'a dlist \<Rightarrow> 'a dlist" where
  "dl_insert_head i s =
     (let s1 = (case dl_head s of
           Some h \<Rightarrow> s\<lparr> dl_prev := (dl_prev s)(h := Some i) \<rparr>
         | None \<Rightarrow> s\<lparr> dl_tail := Some i \<rparr>)
      in s1\<lparr> dl_next := (dl_next s1)(i := dl_head s1), dl_prev := (dl_prev s1)(i := None), dl_head := Some i \<rparr>)"

definition dl_remove :: "'a \<Rightarrow> 'a dlist \<Rightarrow> 'a dlist option" where
  "dl_remove i s =
     Option.bind
       (if Some i = dl_tail s then Some (s\<lparr> dl_tail := dl_prev s i \<rparr>)
        else put_prev (dl_next s i) (dl_prev s i) s) (\<lambda>s1.
     if Some i = dl_head s1 then Some (s1\<lparr> dl_head := dl_next s1 i \<rparr>)
     else put_next (dl_prev s1 i) (dl_next s1 i) s1)"

text \<open>\<open>for_each\<close>: the successor is read after the call, so an \<open>f\<close> that relinks the item redirects the walk.\<close>

partial_function (option) dl_for_each :: "('a \<Rightarrow> 's \<Rightarrow> 's) \<Rightarrow> ('s \<Rightarrow> 'a \<Rightarrow> 'a option) \<Rightarrow> 'a option \<Rightarrow> 's \<Rightarrow> 's option" where
  "dl_for_each f nxt i s =
     (case i of
        None \<Rightarrow> Some s
      | Some x \<Rightarrow> (let s1 = f x s in dl_for_each f nxt (nxt s1 x) s1))"

declare dl_for_each.simps [code]


section \<open>The sequence a list stands for\<close>

definition hd_opt :: "'a list \<Rightarrow> 'a option \<Rightarrow> 'a option" where
  "hd_opt xs q = (case xs of [] \<Rightarrow> q | x # _ \<Rightarrow> Some x)"

definition last_opt :: "'a option \<Rightarrow> 'a list \<Rightarrow> 'a option" where
  "last_opt p xs = (if xs = [] then p else Some (last xs))"

lemma ends_simps [simp]:
  "hd_opt [] q = q" "hd_opt (x # xs) q = Some x" "hd_opt (xs @ ys) q = hd_opt xs (hd_opt ys q)"
  "last_opt p [] = p" "last_opt p (x # xs) = last_opt (Some x) xs" "last_opt p (xs @ ys) = last_opt (last_opt p xs) ys"
  by (cases xs; simp add: hd_opt_def last_opt_def)+

fun dseg :: "('a \<Rightarrow> 'a option) \<Rightarrow> ('a \<Rightarrow> 'a option) \<Rightarrow> 'a option \<Rightarrow> 'a list \<Rightarrow> 'a option \<Rightarrow> bool" where
  "dseg nxt prv p [] q \<longleftrightarrow> True"
| "dseg nxt prv p (x # xs) q \<longleftrightarrow> prv x = p \<and> nxt x = hd_opt xs q \<and> dseg nxt prv (Some x) xs q"

lemma dseg_append:
  "dseg nxt prv p (xs @ ys) q \<longleftrightarrow> dseg nxt prv p xs (hd_opt ys q) \<and> dseg nxt prv (last_opt p xs) ys q"
proof (induction xs arbitrary: p)
  case (Cons x xs)
  then show ?case by (cases xs) auto
qed simp

lemma dseg_upd [simp]:
  "x \<notin> set xs \<Longrightarrow> dseg (nxt(x := v)) prv p xs q = dseg nxt prv p xs q"
  "x \<notin> set xs \<Longrightarrow> dseg nxt (prv(x := v)) p xs q = dseg nxt prv p xs q"
  by (induction xs arbitrary: p) auto

lemma last_opt_not_in [simp]:
  "x \<notin> set xs \<Longrightarrow> last_opt p xs = Some x \<longleftrightarrow> xs = [] \<and> p = Some x"
  "x \<notin> set xs \<Longrightarrow> Some x = last_opt p xs \<longleftrightarrow> xs = [] \<and> p = Some x"
  by (auto simp: last_opt_def)

definition dl_rep :: "'a dlist \<Rightarrow> 'a list \<Rightarrow> bool" where
  "dl_rep s xs \<longleftrightarrow> distinct xs \<and> dl_head s = hd_opt xs None \<and> dl_tail s = last_opt None xs \<and>
     dseg (dl_next s) (dl_prev s) None xs None"

lemma dl_rep_unique_head: "dl_rep s xs \<Longrightarrow> dl_head s = None \<longleftrightarrow> xs = []"
  by (cases xs) (auto simp: dl_rep_def)

lemma dl_empty_rep: "dl_rep dl_empty []"
  by (simp add: dl_rep_def dl_empty_def)

lemma dl_insert_tail_rep:
  assumes "dl_rep s xs" "x \<notin> set xs"
  shows "dl_rep (dl_insert_tail x s) (xs @ [x])"
proof (cases xs rule: rev_cases)
  case Nil
  with assms show ?thesis by (simp add: dl_rep_def dl_insert_tail_def Let_def)
next
  case (snoc ys y)
  with assms have "dl_tail s = Some y" by (simp add: dl_rep_def)
  moreover have "hd_opt (ys @ [y]) None = hd_opt (ys @ [y, x]) None" by (cases ys) auto
  ultimately show ?thesis
    using assms snoc by (auto simp: dl_rep_def dl_insert_tail_def Let_def dseg_append)
qed

lemma dl_insert_head_rep:
  assumes "dl_rep s xs" "x \<notin> set xs"
  shows "dl_rep (dl_insert_head x s) (x # xs)"
proof (cases xs)
  case Nil
  with assms show ?thesis by (simp add: dl_rep_def dl_insert_head_def Let_def)
next
  case (Cons y ys)
  with assms show ?thesis
    by (auto simp: dl_rep_def dl_insert_head_def Let_def)
qed

lemma dl_remove_rep:
  assumes "dl_rep s (xs @ x # ys)"
  shows "\<exists>s'. dl_remove x s = Some s' \<and> dl_rep s' (xs @ ys)"
proof -
  have d: "distinct (xs @ x # ys)" and h: "dl_head s = hd_opt (xs @ x # ys) None"
    and t: "dl_tail s = last_opt None (xs @ x # ys)"
    and g: "dseg (dl_next s) (dl_prev s) None xs (Some x)" "dl_prev s x = last_opt None xs"
      "dl_next s x = hd_opt ys None" "dseg (dl_next s) (dl_prev s) (Some x) ys None"
    using assms by (auto simp: dl_rep_def dseg_append)
  show ?thesis
  proof (cases xs rule: rev_cases)
    case xs: Nil
    show ?thesis
    proof (cases ys)
      case Nil
      with xs d h t g show ?thesis by (auto simp: dl_remove_def dl_rep_def)
    next
      case (Cons y zs)
      then have "dl_tail s \<noteq> Some x" using d t xs by auto
      with xs Cons d h t g show ?thesis
        by (auto simp: dl_remove_def dl_rep_def put_prev_def)
    qed
  next
    case (snoc ws w)
    have hd: "dl_head s \<noteq> Some x" using d h snoc by (cases ws) auto
    show ?thesis
    proof (cases ys)
      case Nil
      with snoc d h t g hd show ?thesis
        by (cases ws) (auto simp: dl_remove_def dl_rep_def put_next_def dseg_append)
    next
      case (Cons y zs)
      then have tl: "dl_tail s = last_opt (Some y) zs" "dl_tail s \<noteq> Some x"
        using d t snoc by auto
      with snoc Cons d h t g hd show ?thesis
        by (cases ws) (auto simp: dl_remove_def dl_rep_def put_next_def put_prev_def dseg_append)
    qed
  qed
qed

lemma dl_head_to_tail_rep:
  assumes "dl_rep s xs"
  shows "\<exists>s'. dl_head_to_tail s = Some s' \<and> dl_rep s' (case xs of [] \<Rightarrow> [] | x # ys \<Rightarrow> ys @ [x])"
proof (cases xs)
  case Nil
  with assms show ?thesis by (auto simp: dl_rep_def dl_head_to_tail_def)
next
  case (Cons x ys)
  show ?thesis
  proof (cases ys rule: rev_cases)
    case Nil
    with assms Cons show ?thesis by (auto simp: dl_rep_def dl_head_to_tail_def)
  next
    case (snoc zs t)
    show ?thesis
    proof (cases zs)
      case Nil
      with assms Cons snoc show ?thesis
        by (auto simp: dl_rep_def dl_head_to_tail_def put_prev_def put_next_def Let_def)
    next
      case (Cons y ws)
      with assms \<open>xs = x # ys\<close> snoc show ?thesis
        by (auto simp: dl_rep_def dl_head_to_tail_def put_prev_def put_next_def Let_def dseg_append)
    qed
  qed
qed

lemma move_to_tail_rep:
  assumes "dl_rep s (xs @ x # ys)" "xs \<noteq> []"
  shows "\<exists>s'. move_to_tail x s = Some s' \<and> dl_rep s' (xs @ ys @ [x])"
proof (cases ys rule: rev_cases)
  case Nil
  with assms show ?thesis by (auto simp: move_to_tail_def dl_rep_def)
next
  case (snoc zs t)
  obtain ws w where w: "xs = ws @ [w]" using assms(2) by (cases xs rule: rev_cases) auto
  have d: "distinct (xs @ x # ys)" and h: "dl_head s = hd_opt (xs @ x # ys) None"
    and tt: "dl_tail s = Some t"
    and g: "dseg (dl_next s) (dl_prev s) None ws (Some w)" "dl_next s w = Some x" "dl_prev s w = last_opt None ws"
      "dl_prev s x = Some w" "dl_next s x = hd_opt ys None" "dseg (dl_next s) (dl_prev s) (Some x) ys None"
    using assms w snoc by (auto simp: dl_rep_def dseg_append)
  have "t \<noteq> x" using d snoc by auto
  have hd: "hd_opt (ws @ [w] @ zs') None = hd_opt (xs @ x # ys) None" for zs' using w by (cases ws) auto
  show ?thesis
  proof (cases zs)
    case Nil
    with d h tt g w snoc hd \<open>t \<noteq> x\<close> show ?thesis
      by (auto simp: move_to_tail_def connect_neighbors_def put_prev_def put_next_def Let_def dl_rep_def dseg_append)
  next
    case (Cons y vs)
    with d h tt g w snoc hd \<open>t \<noteq> x\<close> show ?thesis
      by (auto simp: move_to_tail_def connect_neighbors_def put_prev_def put_next_def Let_def dl_rep_def dseg_append)
  qed
qed

lemma dl_to_tail_rep:
  assumes "dl_rep s (xs @ x # ys)"
  shows "\<exists>s'. dl_to_tail x s = Some s' \<and> dl_rep s' (xs @ ys @ [x])"
proof (cases xs)
  case Nil
  then have "dl_head s = Some x" using assms by (simp add: dl_rep_def)
  with dl_head_to_tail_rep [OF assms] Nil show ?thesis by (simp add: dl_to_tail_def)
next
  case (Cons y zs)
  then have "dl_head s \<noteq> Some x" using assms by (auto simp: dl_rep_def)
  with move_to_tail_rep [OF assms] Cons show ?thesis by (simp add: dl_to_tail_def)
qed

end
