(* ===== verification/Cpu_Scheduler.thy ===== *)
theory Cpu_Scheduler
  imports Double_List
begin

text \<open>
  The CPU scheduler of the kernel: \<open>base-hw/src/core/kernel/cpu_scheduler.h\<close> and
  \<open>cpu_scheduler.cc\<close>.  Shares are values of type \<open>'a\<close>; their members are functions of the share.
  The lists of claims and fills are sequences, with the operations of the doubly linked list as proved
  there.  A failed assertion, and a walk along the links of a share that is in no list, are \<open>None\<close>.
\<close>

section \<open>The list operations on sequences\<close>

definition l_to_tail :: "'a \<Rightarrow> 'a list \<Rightarrow> 'a list" where
  "l_to_tail x xs = remove1 x xs @ [x]"

definition l_head_to_tail :: "'a list \<Rightarrow> 'a list" where
  "l_head_to_tail xs = (case xs of [] \<Rightarrow> [] | x # ys \<Rightarrow> ys @ [x])"

definition l_head :: "'a list \<Rightarrow> 'a option" where
  "l_head xs = (case xs of [] \<Rightarrow> None | x # _ \<Rightarrow> Some x)"

text \<open>What the clients of a list that is rearranged in place rely on.\<close>

locale rearranged_list =
  fixes rep :: "'s \<Rightarrow> 'a list \<Rightarrow> bool"
    and head :: "'s \<Rightarrow> 'a option"
    and insert_tail insert_head :: "'a \<Rightarrow> 's \<Rightarrow> 's"
    and remove to_tail :: "'a \<Rightarrow> 's \<Rightarrow> 's option"
    and head_to_tail :: "'s \<Rightarrow> 's option"
  assumes rep_distinct: "rep s xs \<Longrightarrow> distinct xs"
    and head_rep: "rep s xs \<Longrightarrow> head s = l_head xs"
    and insert_tail_rep: "rep s xs \<Longrightarrow> x \<notin> set xs \<Longrightarrow> rep (insert_tail x s) (xs @ [x])"
    and insert_head_rep: "rep s xs \<Longrightarrow> x \<notin> set xs \<Longrightarrow> rep (insert_head x s) (x # xs)"
    and remove_rep: "rep s xs \<Longrightarrow> x \<in> set xs \<Longrightarrow> \<exists>s'. remove x s = Some s' \<and> rep s' (remove1 x xs)"
    and to_tail_rep: "rep s xs \<Longrightarrow> x \<in> set xs \<Longrightarrow> \<exists>s'. to_tail x s = Some s' \<and> rep s' (l_to_tail x xs)"
    and head_to_tail_rep: "rep s xs \<Longrightarrow> \<exists>s'. head_to_tail s = Some s' \<and> rep s' (l_head_to_tail xs)"
begin

text \<open>Round robin: after \<open>k\<close> rotations the list starts with the element at position \<open>k\<close>.\<close>

lemma rotations:
  "rep s (xs @ ys) \<Longrightarrow>
     \<exists>s'. ((\<lambda>so. Option.bind so head_to_tail) ^^ length xs) (Some s) = Some s' \<and> rep s' (ys @ xs)"
proof (induction xs arbitrary: s ys)
  case (Cons x xs)
  obtain s1 where s1: "head_to_tail s = Some s1" "rep s1 (xs @ (ys @ [x]))"
    using head_to_tail_rep [OF Cons.prems] by (auto simp: l_head_to_tail_def)
  obtain s' where "((\<lambda>so. Option.bind so head_to_tail) ^^ length xs) (Some s1) = Some s'" "rep s' ((ys @ [x]) @ xs)"
    using Cons.IH [OF s1(2)] by blast
  with s1(1) show ?case
    by (auto simp: funpow_Suc_right simp del: funpow.simps)
qed simp

end

lemma remove1_at: "distinct (xs @ x # ys) \<Longrightarrow> remove1 x (xs @ x # ys) = xs @ ys"
  by (simp add: remove1_append)

interpretation dl: rearranged_list dl_rep dl_head dl_insert_tail dl_insert_head dl_remove dl_to_tail dl_head_to_tail
proof
  fix s :: "'a dlist" and xs x
  assume r: "dl_rep s xs"
  show d: "distinct xs" using r by (simp add: dl_rep_def)
  show "dl_head s = l_head xs" using r by (simp add: dl_rep_def l_head_def hd_opt_def)
  show "x \<notin> set xs \<Longrightarrow> dl_rep (dl_insert_tail x s) (xs @ [x])" using r by (rule dl_insert_tail_rep)
  show "x \<notin> set xs \<Longrightarrow> dl_rep (dl_insert_head x s) (x # xs)" using r by (rule dl_insert_head_rep)
  show "\<exists>s'. dl_head_to_tail s = Some s' \<and> dl_rep s' (l_head_to_tail xs)"
    unfolding l_head_to_tail_def using r by (rule dl_head_to_tail_rep)
  assume "x \<in> set xs"
  then obtain ys zs where xs: "xs = ys @ x # zs" by (auto simp: in_set_conv_decomp)
  show "\<exists>s'. dl_remove x s = Some s' \<and> dl_rep s' (remove1 x xs)"
    using dl_remove_rep [of s ys x zs] r d xs by (simp add: remove1_at)
  show "\<exists>s'. dl_to_tail x s = Some s' \<and> dl_rep s' (l_to_tail x xs)"
    using dl_to_tail_rep [of s ys x zs] r d xs by (simp add: remove1_at l_to_tail_def)
qed


section \<open>State\<close>

definition PRIO_MAX :: nat where "PRIO_MAX = 3"

text \<open>\<open>Cpu_priority\<close>: the minimum is taken as a signed number and stored as an unsigned one.\<close>

definition cpu_priority :: "int \<Rightarrow> u32" where
  "cpu_priority v = word_of_int (min v (int PRIO_MAX))"

record 'a sched =
  rcl :: "nat \<Rightarrow> 'a list"
  ucl :: "nat \<Rightarrow> 'a list"
  fills :: "'a list"
  idle :: 'a
  cur :: "'a option"
  head_quota :: u32
  head_claims :: bool
  head_yields :: bool
  round_quota :: u32
  residual :: u32
  fill_len :: u32
  prio :: "'a \<Rightarrow> nat"
  sh_quota :: "'a \<Rightarrow> u32"
  sh_claim :: "'a \<Rightarrow> u32"
  sh_fill :: "'a \<Rightarrow> u32"
  sh_ready :: "'a \<Rightarrow> bool"

definition cs_reset :: "'a \<Rightarrow> 'a sched \<Rightarrow> 'a sched" where
  "cs_reset c s = s\<lparr> sh_claim := (sh_claim s)(c := sh_quota s c) \<rparr>"

definition cs_reset_claims :: "nat \<Rightarrow> 'a sched \<Rightarrow> 'a sched" where
  "cs_reset_claims p s = (let s1 = fold cs_reset (rcl s p) s in fold cs_reset (ucl s1 p) s1)"

text \<open>\<open>_for_each_prio\<close> goes down from the highest priority.\<close>

definition prios_down :: "nat list" where
  "prios_down = rev [0..<Suc PRIO_MAX]"

definition cs_next_round :: "'a sched \<Rightarrow> 'a sched" where
  "cs_next_round s = fold cs_reset_claims prios_down (s\<lparr> residual := round_quota s \<rparr>)"

definition cs_consumed :: "u32 \<Rightarrow> 'a sched \<Rightarrow> 'a sched" where
  "cs_consumed q s = (if residual s > q then s\<lparr> residual := residual s - q \<rparr> else cs_next_round s)"

definition cs_set_head :: "'a \<Rightarrow> u32 \<Rightarrow> bool \<Rightarrow> 'a sched \<Rightarrow> 'a sched" where
  "cs_set_head x q c s = s\<lparr> head_quota := q, head_claims := c, cur := Some x \<rparr>"

text \<open>The following are called with the head \<open>h\<close>, which is not null.\<close>

definition cs_next_fill :: "'a \<Rightarrow> 'a sched \<Rightarrow> 'a sched" where
  "cs_next_fill h s = s\<lparr> sh_fill := (sh_fill s)(h := fill_len s), fills := l_head_to_tail (fills s) \<rparr>"

definition cs_head_claimed :: "'a \<Rightarrow> u32 \<Rightarrow> 'a sched \<Rightarrow> 'a sched" where
  "cs_head_claimed h r s =
     (if sh_quota s h = 0 then s
      else
        (let s1 = s\<lparr> sh_claim := (sh_claim s)(h := (if r > sh_quota s h then sh_quota s h else r)) \<rparr>
         in if sh_claim s1 h \<noteq> 0 \<or> \<not> sh_ready s1 h then s1
            else s1\<lparr> rcl := (rcl s1)(prio s1 h := l_to_tail h (rcl s1 (prio s1 h))) \<rparr>))"

definition cs_head_filled :: "'a \<Rightarrow> u32 \<Rightarrow> 'a sched \<Rightarrow> 'a sched" where
  "cs_head_filled h r s =
     (if l_head (fills s) \<noteq> Some h then s
      else if r \<noteq> 0 then s\<lparr> sh_fill := (sh_fill s)(h := r) \<rparr>
      else cs_next_fill h s)"

text \<open>\<open>_claim_for_head\<close> and \<open>_fill_for_head\<close>; \<open>None\<close> is the result 0, which leaves the state alone.\<close>

fun claim_candidate :: "'a sched \<Rightarrow> nat list \<Rightarrow> 'a option" where
  "claim_candidate s [] = None"
| "claim_candidate s (p # ps) =
     (case l_head (rcl s p) of
        None \<Rightarrow> claim_candidate s ps
      | Some x \<Rightarrow> if sh_claim s x = 0 then claim_candidate s ps else Some x)"

definition cs_claim_for_head :: "'a sched \<Rightarrow> 'a sched option" where
  "cs_claim_for_head s =
     (case claim_candidate s prios_down of
        None \<Rightarrow> None
      | Some x \<Rightarrow> Some (cs_set_head x (sh_claim s x) True s))"

definition cs_fill_for_head :: "'a sched \<Rightarrow> 'a sched option" where
  "cs_fill_for_head s =
     (case l_head (fills s) of
        None \<Rightarrow> None
      | Some x \<Rightarrow> Some (cs_set_head x (sh_fill s x) False s))"

text \<open>\<open>_trim_consumption\<close>: the trimmed consumption and what is left of the head's quota.\<close>

definition cs_trim_consumption :: "u32 \<Rightarrow> 'a sched \<Rightarrow> (u32 \<times> u32) \<times> 'a sched" where
  "cs_trim_consumption q s =
     (let q1 = min (min q (head_quota s)) (residual s)
      in if \<not> head_yields s then ((q1, head_quota s - q1), s)
         else ((q1, 0), s\<lparr> head_yields := False \<rparr>))"

definition cs_quota_introduction :: "'a \<Rightarrow> 'a sched \<Rightarrow> 'a sched" where
  "cs_quota_introduction x s =
     (if sh_ready s x then s\<lparr> rcl := (rcl s)(prio s x := rcl s (prio s x) @ [x]) \<rparr>
      else s\<lparr> ucl := (ucl s)(prio s x := ucl s (prio s x) @ [x]) \<rparr>)"

definition cs_quota_revokation :: "'a \<Rightarrow> 'a sched \<Rightarrow> 'a sched" where
  "cs_quota_revokation x s =
     (if sh_ready s x then s\<lparr> rcl := (rcl s)(prio s x := remove1 x (rcl s (prio s x))) \<rparr>
      else s\<lparr> ucl := (ucl s)(prio s x := remove1 x (ucl s (prio s x))) \<rparr>)"

definition cs_quota_adaption :: "'a \<Rightarrow> u32 \<Rightarrow> 'a sched \<Rightarrow> 'a sched" where
  "cs_quota_adaption x q s =
     (if q \<noteq> 0 then (if sh_claim s x > q then s\<lparr> sh_claim := (sh_claim s)(x := q) \<rparr> else s)
      else cs_quota_revokation x s)"

definition cs_account :: "u32 \<Rightarrow> 'a sched \<Rightarrow> 'a sched" where
  "cs_account q s =
     (case cur s of
        None \<Rightarrow> s
      | Some h \<Rightarrow>
          (let ((q1, r), s1) = cs_trim_consumption q s;
               s2 = (if head_claims s1 then cs_head_claimed h r s1 else cs_head_filled h r s1)
           in cs_consumed q1 s2))"

definition cs_choose :: "'a sched \<Rightarrow> 'a sched" where
  "cs_choose s =
     (case cs_claim_for_head s of
        Some s1 \<Rightarrow> s1
      | None \<Rightarrow>
          (case cs_fill_for_head s of
             Some s1 \<Rightarrow> s1
           | None \<Rightarrow> cs_set_head (idle s) (fill_len s) False s))"

definition cs_update :: "u32 \<Rightarrow> 'a sched \<Rightarrow> 'a sched" where
  "cs_update q s = cs_choose (cs_account q s)"

definition cs_ready :: "'a \<Rightarrow> 'a sched \<Rightarrow> 'a sched option" where
  "cs_ready x s =
     (if sh_ready s x \<or> x = idle s then None
      else
        (let s1 = s\<lparr> sh_ready := (sh_ready s)(x := True), sh_fill := (sh_fill s)(x := fill_len s),
                      fills := fills s @ [x] \<rparr>
         in if sh_quota s1 x = 0 then Some s1
            else
              (let p = prio s1 x;
                   s2 = s1\<lparr> ucl := (ucl s1)(p := remove1 x (ucl s1 p)) \<rparr>
               in Some (if sh_claim s2 x \<noteq> 0 then s2\<lparr> rcl := (rcl s2)(p := x # rcl s2 p) \<rparr>
                        else s2\<lparr> rcl := (rcl s2)(p := rcl s2 p @ [x]) \<rparr>))))"

text \<open>The shares behind the head in the list of claims that holds it.\<close>

definition claims_behind :: "'a \<Rightarrow> 'a sched \<Rightarrow> 'a list option" where
  "claims_behind h s =
     (if h \<in> set (rcl s (prio s h)) then Some (tl (dropWhile (\<lambda>y. y \<noteq> h) (rcl s (prio s h))))
      else if h \<in> set (ucl s (prio s h)) then Some (tl (dropWhile (\<lambda>y. y \<noteq> h) (ucl s (prio s h))))
      else None)"

definition cs_ready_check :: "'a \<Rightarrow> 'a sched \<Rightarrow> (bool \<times> 'a sched) option" where
  "cs_ready_check s1 s =
     (case cur s of
        None \<Rightarrow> None
      | Some s2 \<Rightarrow>
          (case cs_ready s1 s of
             None \<Rightarrow> None
           | Some t \<Rightarrow>
               if sh_claim t s1 = 0 then Some (s2 = idle t, t)
               else if \<not> head_claims t then Some (True, t)
               else if prio t s1 \<noteq> prio t s2 then Some (prio t s1 > prio t s2, t)
               else if s1 = s2 then Some (False, t)
               else map_option (\<lambda>ys. (s1 \<notin> set ys, t)) (claims_behind s2 t)))"

definition cs_unready :: "'a \<Rightarrow> 'a sched \<Rightarrow> 'a sched option" where
  "cs_unready x s =
     (if \<not> sh_ready s x \<or> x = idle s then None
      else
        (let s1 = s\<lparr> sh_ready := (sh_ready s)(x := False), fills := remove1 x (fills s) \<rparr>
         in if sh_quota s1 x = 0 then Some s1
            else
              (let p = prio s1 x
               in Some (s1\<lparr> rcl := (rcl s1)(p := remove1 x (rcl s1 p)), ucl := (ucl s1)(p := ucl s1 p @ [x]) \<rparr>))))"

definition cs_yield :: "'a sched \<Rightarrow> 'a sched" where
  "cs_yield s = s\<lparr> head_yields := True \<rparr>"

definition cs_remove :: "'a \<Rightarrow> 'a sched \<Rightarrow> 'a sched option" where
  "cs_remove x s =
     (if x = idle s then None
      else
        (let s1 = (if cur s = Some x then s\<lparr> cur := None \<rparr> else s);
             s2 = (if sh_ready s1 x then s1\<lparr> fills := remove1 x (fills s1) \<rparr> else s1)
         in if sh_quota s2 x = 0 then Some s2 else Some (cs_quota_revokation x s2)))"

definition cs_insert :: "'a \<Rightarrow> 'a sched \<Rightarrow> 'a sched option" where
  "cs_insert x s =
     (if sh_ready s x then None
      else if sh_quota s x = 0 then Some s
      else Some (s\<lparr> sh_claim := (sh_claim s)(x := sh_quota s x),
                    ucl := (ucl s)(prio s x := x # ucl s (prio s x)) \<rparr>))"

definition cs_quota :: "'a \<Rightarrow> u32 \<Rightarrow> 'a sched \<Rightarrow> 'a sched option" where
  "cs_quota x q s =
     (if x = idle s then None
      else
        (let s1 = (if sh_quota s x \<noteq> 0 then cs_quota_adaption x q s
                   else if q \<noteq> 0 then cs_quota_introduction x s else s)
         in Some (s1\<lparr> sh_quota := (sh_quota s1)(x := q) \<rparr>)))"

text \<open>The constructor; the members of the shares are those the shares are created with.\<close>

definition cs_new :: "'a \<Rightarrow> u32 \<Rightarrow> u32 \<Rightarrow> ('a \<Rightarrow> nat) \<Rightarrow> ('a \<Rightarrow> u32) \<Rightarrow> 'a sched" where
  "cs_new i q f pr qu =
     cs_set_head i f False
       \<lparr> rcl = (\<lambda>_. []), ucl = (\<lambda>_. []), fills = [], idle = i, cur = None, head_quota = 0,
         head_claims = False, head_yields = False, round_quota = q, residual = q, fill_len = f,
         prio = pr, sh_quota = qu, sh_claim = qu, sh_fill = (\<lambda>_. 0), sh_ready = (\<lambda>_. False) \<rparr>"

definition cs_head_quota :: "'a sched \<Rightarrow> u32" where
  "cs_head_quota s = min (head_quota s) (residual s)"

end
