(* ===== verification/Cpu_Scheduler_Correct.thy ===== *)
theory Cpu_Scheduler_Correct
  imports Cpu_Scheduler
begin

text \<open>
  The invariant of the scheduler over the set \<open>M\<close> of the shares that are inserted: every share is in exactly
  the lists its state demands, in the list of ready claims the shares with a claim left come first, no
  claim exceeds its quota, and there is always time left in the round.
\<close>

definition lists_ok :: "'a set \<Rightarrow> 'a sched \<Rightarrow> bool" where
  "lists_ok M s \<longleftrightarrow> idle s \<notin> M \<and> (\<forall>x\<in>M. prio s x \<le> PRIO_MAX) \<and>
     distinct (fills s) \<and> set (fills s) = {x\<in>M. sh_ready s x} \<and>
     (\<forall>p. distinct (rcl s p) \<and> set (rcl s p) = {x\<in>M. sh_ready s x \<and> sh_quota s x \<noteq> 0 \<and> prio s x = p}) \<and>
     (\<forall>p. distinct (ucl s p) \<and> set (ucl s p) = {x\<in>M. \<not> sh_ready s x \<and> sh_quota s x \<noteq> 0 \<and> prio s x = p})"

definition spent_last :: "('a \<Rightarrow> u32) \<Rightarrow> 'a list \<Rightarrow> bool" where
  "spent_last cl xs \<longleftrightarrow> sorted_wrt (\<lambda>x y. cl x = 0 \<longrightarrow> cl y = 0) xs"

definition claims_ok :: "'a set \<Rightarrow> 'a sched \<Rightarrow> bool" where
  "claims_ok M s \<longleftrightarrow> (\<forall>x\<in>M. sh_quota s x \<noteq> 0 \<longrightarrow> sh_claim s x \<le> sh_quota s x) \<and>
     (\<forall>p. spent_last (sh_claim s) (rcl s p))"

definition head_ok :: "'a set \<Rightarrow> 'a sched \<Rightarrow> bool" where
  "head_ok M s \<longleftrightarrow> (case cur s of None \<Rightarrow> True
     | Some h \<Rightarrow> h \<in> insert (idle s) M \<and> (head_claims s \<longrightarrow> h \<in> M \<and> sh_claim s h \<noteq> 0))"

definition round_ok :: "'a sched \<Rightarrow> bool" where
  "round_ok s \<longleftrightarrow> residual s \<le> round_quota s \<and> (round_quota s \<noteq> 0 \<longrightarrow> residual s \<noteq> 0)"

definition sched_ok :: "'a set \<Rightarrow> 'a sched \<Rightarrow> bool" where
  "sched_ok M s \<longleftrightarrow> lists_ok M s \<and> claims_ok M s \<and> head_ok M s \<and> round_ok s"

lemmas ok_defs = sched_ok_def lists_ok_def claims_ok_def head_ok_def round_ok_def

lemma spent_last_simps [simp]:
  "spent_last cl []"
  "spent_last cl (x # xs) \<longleftrightarrow> (cl x = 0 \<longrightarrow> (\<forall>y\<in>set xs. cl y = 0)) \<and> spent_last cl xs"
  "spent_last cl (xs @ ys) \<longleftrightarrow> spent_last cl xs \<and> spent_last cl ys \<and> (\<forall>x\<in>set xs. \<forall>y\<in>set ys. cl x = 0 \<longrightarrow> cl y = 0)"
  by (auto simp: spent_last_def sorted_wrt_append)

lemma spent_last_remove1: "spent_last cl xs \<Longrightarrow> spent_last cl (remove1 x xs)"
  by (induction xs) (auto dest: notin_set_remove1 set_remove1_subset [THEN subsetD])

lemma spent_last_cong: "(\<And>x. x \<in> set xs \<Longrightarrow> cl x = 0 \<longleftrightarrow> cl' x = 0) \<Longrightarrow> spent_last cl xs = spent_last cl' xs"
  by (induction xs) auto

lemma spent_last_all: "(\<And>x. x \<in> set xs \<Longrightarrow> cl x \<noteq> 0) \<Longrightarrow> spent_last cl xs"
  by (induction xs) auto

text \<open>A new round resets the claims of all listed shares and nothing else.\<close>

lemma fold_reset:
  "fold cs_reset xs s = s\<lparr> sh_claim := (\<lambda>x. if x \<in> set xs then sh_quota s x else sh_claim s x) \<rparr>"
  by (induction xs arbitrary: s) (auto simp: cs_reset_def fun_eq_iff)

lemma fold_reset_claims:
  "fold cs_reset_claims ps s = s\<lparr> sh_claim := (\<lambda>x. if \<exists>p\<in>set ps. x \<in> set (rcl s p) \<or> x \<in> set (ucl s p)
     then sh_quota s x else sh_claim s x) \<rparr>"
proof (induction ps arbitrary: s)
  case (Cons p ps)
  have "cs_reset_claims p s = s\<lparr> sh_claim := (\<lambda>x. if x \<in> set (rcl s p) \<or> x \<in> set (ucl s p)
      then sh_quota s x else sh_claim s x) \<rparr>"
    by (auto simp: cs_reset_claims_def fold_reset Let_def fun_eq_iff)
  with Cons show ?case by (auto simp: fun_eq_iff)
qed simp

lemma set_prios_down [simp]: "set prios_down = {..PRIO_MAX}"
  by (auto simp: prios_down_def)

lemma next_round_eq:
  "cs_next_round s = s\<lparr> residual := round_quota s, sh_claim := (\<lambda>x. if \<exists>p\<le>PRIO_MAX. x \<in> set (rcl s p) \<or> x \<in> set (ucl s p)
     then sh_quota s x else sh_claim s x) \<rparr>"
  by (simp add: cs_next_round_def fold_reset_claims Bex_def cong: if_cong)

lemma next_round_claim:
  assumes "lists_ok M s"
  shows "cs_next_round s = s\<lparr> residual := round_quota s,
    sh_claim := (\<lambda>x. if x \<in> M \<and> sh_quota s x \<noteq> 0 then sh_quota s x else sh_claim s x) \<rparr>"
proof -
  have "(\<exists>p\<le>PRIO_MAX. x \<in> set (rcl s p) \<or> x \<in> set (ucl s p)) \<longleftrightarrow> x \<in> M \<and> sh_quota s x \<noteq> 0" for x
    using assms by (auto simp: lists_ok_def)
  then show ?thesis by (simp add: next_round_eq)
qed


section \<open>The operations keep the invariant\<close>

text \<open>While the head is being replaced, its claim may be spent.\<close>

definition body_ok :: "'a set \<Rightarrow> 'a sched \<Rightarrow> bool" where
  "body_ok M s \<longleftrightarrow> lists_ok M s \<and> claims_ok M s \<and> round_ok s"

lemma consumed_ok:
  assumes "body_ok M s"
  shows "body_ok M (cs_consumed q s)"
proof (cases "residual s > q")
  case True
  then have "residual s - q \<noteq> 0" by auto
  moreover have "residual s - q \<le> residual s" using True by (simp add: word_sub_le)
  ultimately show ?thesis
    using assms True by (auto simp: body_ok_def cs_consumed_def lists_ok_def claims_ok_def round_ok_def)
next
  case False
  have l: "lists_ok M s" using assms by (simp add: body_ok_def)
  note nr = next_round_claim [OF l]
  have "spent_last (sh_claim (cs_next_round s)) (rcl s p)" for p
    by (intro spent_last_all) (use l in \<open>auto simp: nr lists_ok_def\<close>)
  with assms False show ?thesis
    by (auto simp: body_ok_def cs_consumed_def nr lists_ok_def claims_ok_def round_ok_def)
qed

lemma head_claimed_ok:
  assumes ok: "body_ok M s" and h: "h \<in> M" and c: "sh_claim s h \<noteq> 0"
  shows "body_ok M (cs_head_claimed h r s)"
proof (cases "sh_quota s h = 0")
  case True
  with ok show ?thesis by (simp add: cs_head_claimed_def)
next
  case False
  define r' where "r' = (if r > sh_quota s h then sh_quota s h else r)"
  have le: "r' \<le> sh_quota s h" by (auto simp: r'_def)
  let ?s1 = "s\<lparr> sh_claim := (sh_claim s)(h := r') \<rparr>"
  have sp: "spent_last (sh_claim s) (rcl s p)" for p using ok by (simp add: body_ok_def claims_ok_def)
  show ?thesis
  proof (cases "r' \<noteq> 0 \<or> \<not> sh_ready s h")
    case True
    have "spent_last ((sh_claim s)(h := r')) (rcl s p)" for p
    proof (cases "sh_ready s h")
      case True
      with \<open>r' \<noteq> 0 \<or> _\<close> c have "spent_last ((sh_claim s)(h := r')) (rcl s p) = spent_last (sh_claim s) (rcl s p)"
        by (intro spent_last_cong) auto
      with sp show ?thesis by simp
    next
      case False
      then have "h \<notin> set (rcl s p)" using ok by (auto simp: body_ok_def lists_ok_def)
      then have "spent_last ((sh_claim s)(h := r')) (rcl s p) = spent_last (sh_claim s) (rcl s p)"
        by (intro spent_last_cong) auto
      with sp show ?thesis by simp
    qed
    moreover have "cs_head_claimed h r s = ?s1" using True False by (auto simp: cs_head_claimed_def r'_def)
    ultimately show ?thesis
      using ok le by (auto simp: body_ok_def lists_ok_def claims_ok_def round_ok_def)
  next
    case r0: False
    then have ready: "sh_ready s h" and z: "r' = 0" by simp_all
    let ?p = "prio s h"
    have eq: "cs_head_claimed h r s = ?s1\<lparr> rcl := (rcl s)(?p := l_to_tail h (rcl s ?p)) \<rparr>"
      using False ready z by (simp add: cs_head_claimed_def r'_def split: if_splits)
    have lists: "lists_ok M s" using ok by (simp add: body_ok_def)
    then have mem: "h \<in> set (rcl s ?p)" and d: "distinct (rcl s ?p)"
      using h ready False by (auto simp: lists_ok_def)
    then have set: "set (l_to_tail h (rcl s ?p)) = set (rcl s ?p)" and d': "distinct (l_to_tail h (rcl s ?p))"
      by (auto simp: l_to_tail_def)
    have "spent_last ((sh_claim s)(h := r')) (remove1 h (rcl s p)) = spent_last (sh_claim s) (remove1 h (rcl s p))" for p
      using lists by (intro spent_last_cong) (auto simp: lists_ok_def)
    then have sp': "spent_last ((sh_claim s)(h := r')) (remove1 h (rcl s p))" for p
      using spent_last_remove1 [OF sp] by blast
    have "spent_last ((sh_claim s)(h := r')) (l_to_tail h (rcl s ?p))"
      using sp' [of ?p] z by (simp add: l_to_tail_def)
    moreover have "spent_last ((sh_claim s)(h := r')) (rcl s p)" if "p \<noteq> ?p" for p
    proof -
      have "h \<notin> set (rcl s p)" using lists that by (auto simp: lists_ok_def)
      then show ?thesis using sp' [of p] by (simp add: remove1_idem)
    qed
    ultimately show ?thesis
      using ok le set d' unfolding eq by (auto simp: body_ok_def lists_ok_def claims_ok_def round_ok_def)
  qed
qed

lemma l_head_to_tail_set [simp]:
  "distinct (l_head_to_tail xs) = distinct xs" "set (l_head_to_tail xs) = set xs"
  by (cases xs; auto simp: l_head_to_tail_def)+

lemma head_filled_ok:
  assumes "body_ok M s"
  shows "body_ok M (cs_head_filled h r s)"
  using assms
  by (auto simp: cs_head_filled_def cs_next_fill_def body_ok_def lists_ok_def claims_ok_def round_ok_def)

lemma trim_same [simp]:
  "snd (cs_trim_consumption q s) = s \<or> snd (cs_trim_consumption q s) = s\<lparr> head_yields := False \<rparr>"
  by (simp add: cs_trim_consumption_def Let_def)

lemma account_ok:
  assumes "sched_ok M s"
  shows "body_ok M (cs_account q s)"
proof (cases "cur s")
  case None
  with assms show ?thesis by (simp add: cs_account_def sched_ok_def body_ok_def)
next
  case (Some h)
  obtain q1 r s1 where t: "cs_trim_consumption q s = ((q1, r), s1)" by (metis surj_pair)
  have s1: "s1 = s \<or> s1 = s\<lparr> head_yields := False \<rparr>" using trim_same [of q s] t by simp
  have b: "body_ok M s1" "head_claims s1 \<Longrightarrow> h \<in> M \<and> sh_claim s1 h \<noteq> 0"
    using assms Some s1 by (auto simp: sched_ok_def body_ok_def lists_ok_def claims_ok_def head_ok_def round_ok_def)
  then have "body_ok M (if head_claims s1 then cs_head_claimed h r s1 else cs_head_filled h r s1)"
    using head_claimed_ok head_filled_ok by auto
  with Some t show ?thesis by (simp add: cs_account_def Let_def consumed_ok)
qed

text \<open>What \<open>update\<close> chooses.\<close>

definition wants_claim :: "'a set \<Rightarrow> 'a sched \<Rightarrow> 'a \<Rightarrow> bool" where
  "wants_claim M s x \<longleftrightarrow> x \<in> M \<and> sh_ready s x \<and> sh_quota s x \<noteq> 0 \<and> sh_claim s x \<noteq> 0"

lemma claim_candidate_Some:
  assumes "claim_candidate s ps = Some x"
  obtains ps1 p ps2 where "ps = ps1 @ p # ps2" "l_head (rcl s p) = Some x" "sh_claim s x \<noteq> 0"
    "\<forall>p'\<in>set ps1. \<forall>y. l_head (rcl s p') = Some y \<longrightarrow> sh_claim s y = 0"
  using assms
proof (induction ps arbitrary: thesis)
  case (Cons p ps)
  show ?case
  proof (cases "l_head (rcl s p) = Some x \<and> sh_claim s x \<noteq> 0")
    case True
    with Cons.prems(1) [of "[]" p ps] show ?thesis by simp
  next
    case False
    with Cons.prems(2) have c: "claim_candidate s ps = Some x" "\<forall>y. l_head (rcl s p) = Some y \<longrightarrow> sh_claim s y = 0"
      by (auto split: option.splits if_splits)
    from Cons.IH [OF _ c(1)] obtain ps1 p' ps2 where "ps = ps1 @ p' # ps2" "l_head (rcl s p') = Some x"
      "sh_claim s x \<noteq> 0" "\<forall>p''\<in>set ps1. \<forall>y. l_head (rcl s p'') = Some y \<longrightarrow> sh_claim s y = 0" by metis
    with Cons.prems(1) [of "p # ps1" p' ps2] c(2) show ?thesis by simp
  qed
qed simp

lemma claim_candidate_None:
  "claim_candidate s ps = None \<Longrightarrow> p \<in> set ps \<Longrightarrow> l_head (rcl s p) = Some y \<Longrightarrow> sh_claim s y = 0"
  by (induction ps) (auto split: option.splits if_splits)

lemma spent_head:
  assumes "spent_last cl xs" "\<forall>y. l_head xs = Some y \<longrightarrow> cl y = 0" "x \<in> set xs"
  shows "cl x = 0"
  using assms by (cases xs) (auto simp: l_head_def)

lemma l_head_in: "l_head xs = Some x \<Longrightarrow> x \<in> set xs"
  by (cases xs) (auto simp: l_head_def)

lemma prios_down_split: "prios_down = ps1 @ p # ps2 \<Longrightarrow> p' \<le> PRIO_MAX \<Longrightarrow> p < p' \<Longrightarrow> p' \<in> set ps1"
  by (auto simp: prios_down_def PRIO_MAX_def append_eq_Cons_conv Cons_eq_append_conv upt_rec le_Suc_eq numeral_3_eq_3)

lemma claim_candidate_best:
  assumes ok: "body_ok M s" and c: "claim_candidate s prios_down = Some x"
  shows "wants_claim M s x" "\<forall>y. wants_claim M s y \<longrightarrow> prio s y \<le> prio s x"
proof -
  obtain ps1 p ps2 where p: "prios_down = ps1 @ p # ps2" "l_head (rcl s p) = Some x" "sh_claim s x \<noteq> 0"
    "\<forall>p'\<in>set ps1. \<forall>y. l_head (rcl s p') = Some y \<longrightarrow> sh_claim s y = 0"
    using claim_candidate_Some [OF c] by metis
  have x: "x \<in> set (rcl s p)" using p(2) by (rule l_head_in)
  then show "wants_claim M s x" using ok p(3) by (auto simp: wants_claim_def body_ok_def lists_ok_def)
  have px: "prio s x = p" using x ok by (auto simp: body_ok_def lists_ok_def)
  show "\<forall>y. wants_claim M s y \<longrightarrow> prio s y \<le> prio s x"
  proof (intro allI impI)
    fix y assume y: "wants_claim M s y"
    then have "y \<in> set (rcl s (prio s y))" "prio s y \<le> PRIO_MAX" "spent_last (sh_claim s) (rcl s (prio s y))"
      using ok by (auto simp: wants_claim_def body_ok_def lists_ok_def claims_ok_def)
    with spent_head [of "sh_claim s" "rcl s (prio s y)" y] p(4) y prios_down_split [OF p(1), of "prio s y"]
    show "prio s y \<le> prio s x" by (force simp: px wants_claim_def not_le [symmetric])
  qed
qed

lemma claim_candidate_nobody:
  assumes ok: "body_ok M s" and c: "claim_candidate s prios_down = None"
  shows "\<not> wants_claim M s y"
proof
  assume y: "wants_claim M s y"
  then have "y \<in> set (rcl s (prio s y))" "prio s y \<le> PRIO_MAX" "spent_last (sh_claim s) (rcl s (prio s y))"
    using ok by (auto simp: wants_claim_def body_ok_def lists_ok_def claims_ok_def)
  with spent_head [of "sh_claim s" "rcl s (prio s y)" y] claim_candidate_None [OF c, of "prio s y"] y show False
    by (auto simp: wants_claim_def)
qed

definition well_chosen :: "'a set \<Rightarrow> 'a sched \<Rightarrow> bool" where
  "well_chosen M s \<longleftrightarrow>
     (if \<exists>x. wants_claim M s x then
        (\<exists>h. cur s = Some h \<and> head_claims s \<and> wants_claim M s h \<and> head_quota s = sh_claim s h \<and>
           (\<forall>y. wants_claim M s y \<longrightarrow> prio s y \<le> prio s h))
      else \<not> head_claims s \<and>
        (if \<exists>x\<in>M. sh_ready s x then cur s = l_head (fills s) \<and> (\<exists>h. cur s = Some h \<and> head_quota s = sh_fill s h)
         else cur s = Some (idle s) \<and> head_quota s = fill_len s))"

lemma choose_ok:
  assumes ok: "body_ok M s"
  shows "sched_ok M (cs_choose s)" "well_chosen M (cs_choose s)"
proof -
  have "sched_ok M (cs_choose s) \<and> well_chosen M (cs_choose s)"
  proof (cases "claim_candidate s prios_down")
    case (Some x)
    note best = claim_candidate_best [OF ok Some]
    have eq: "cs_choose s = cs_set_head x (sh_claim s x) True s"
      by (simp add: cs_choose_def cs_claim_for_head_def Some)
    from best ok show ?thesis unfolding eq
      by (auto simp: ok_defs body_ok_def cs_set_head_def wants_claim_def well_chosen_def)
  next
    case None
    note nobody = claim_candidate_nobody [OF ok None]
    show ?thesis
    proof (cases "fills s")
      case Nil
      then have "\<not> (\<exists>x\<in>M. sh_ready s x)" using ok by (auto simp: body_ok_def lists_ok_def)
      moreover have "cs_choose s = cs_set_head (idle s) (fill_len s) False s"
        by (simp add: cs_choose_def cs_claim_for_head_def cs_fill_for_head_def None Nil l_head_def)
      ultimately show ?thesis using nobody ok
        by (auto simp: ok_defs body_ok_def cs_set_head_def wants_claim_def well_chosen_def)
    next
      case (Cons x xs)
      then have "x \<in> M" "sh_ready s x" using ok by (auto simp: body_ok_def lists_ok_def)
      moreover have "cs_choose s = cs_set_head x (sh_fill s x) False s"
        by (simp add: cs_choose_def cs_claim_for_head_def cs_fill_for_head_def None Cons l_head_def)
      ultimately show ?thesis using nobody ok Cons
        by (auto simp: ok_defs body_ok_def cs_set_head_def wants_claim_def well_chosen_def l_head_def)
    qed
  qed
  then show "sched_ok M (cs_choose s)" "well_chosen M (cs_choose s)" by blast+
qed

lemma update_ok:
  assumes "sched_ok M s"
  shows "sched_ok M (cs_update q s)" "well_chosen M (cs_update q s)"
  using choose_ok [OF account_ok [OF assms]] by (simp_all add: cs_update_def)


section \<open>Changes of the shares\<close>

text \<open>
  A share may change a quota of zero into another one only if it has no claim left from before, see the
  counterexample below; a share that is inserted is not ready and has a valid priority.
\<close>

lemma ready_ok:
  assumes ok: "sched_ok M s" and x: "x \<in> M" and r: "cs_ready x s = Some s'"
  shows "sched_ok M s'"
proof -
  have nr: "\<not> sh_ready s x" "x \<noteq> idle s" using r by (auto simp: cs_ready_def split: if_splits)
  have l: "lists_ok M s" using ok by (simp add: sched_ok_def)
  let ?s1 = "s\<lparr> sh_ready := (sh_ready s)(x := True), sh_fill := (sh_fill s)(x := fill_len s), fills := fills s @ [x] \<rparr>"
  let ?p = "prio s x"
  show ?thesis
  proof (cases "sh_quota s x = 0")
    case True
    then have "s' = ?s1" using r nr by (simp add: cs_ready_def)
    with ok x nr True show ?thesis by (auto simp: ok_defs split: option.splits)
  next
    case False
    have nin: "x \<notin> set (rcl s ?p)" using l nr by (auto simp: lists_ok_def)
    have "spent_last (sh_claim s) (rcl s ?p)" using ok by (simp add: sched_ok_def claims_ok_def)
    show ?thesis
    proof (cases "sh_claim s x = 0")
      case z: True
      then have "s' = ?s1\<lparr> ucl := (ucl s)(?p := remove1 x (ucl s ?p)), rcl := (rcl s)(?p := rcl s ?p @ [x]) \<rparr>"
        using r nr False by (simp add: cs_ready_def Let_def)
      with ok x nr False nin z show ?thesis
        by (auto simp: ok_defs split: option.splits)
    next
      case z: False
      then have "s' = ?s1\<lparr> ucl := (ucl s)(?p := remove1 x (ucl s ?p)), rcl := (rcl s)(?p := x # rcl s ?p) \<rparr>"
        using r nr False by (simp add: cs_ready_def Let_def)
      with ok x nr False nin z show ?thesis
        by (auto simp: ok_defs split: option.splits)
    qed
  qed
qed

lemma unready_ok:
  assumes ok: "sched_ok M s" and x: "x \<in> M" and r: "cs_unready x s = Some s'"
  shows "sched_ok M s'"
proof -
  have nr: "sh_ready s x" "x \<noteq> idle s" using r by (auto simp: cs_unready_def split: if_splits)
  have sp: "spent_last (sh_claim s) (remove1 x (rcl s p))" for p
    using ok by (intro spent_last_remove1) (simp add: sched_ok_def claims_ok_def)
  let ?p = "prio s x"
  show ?thesis
  proof (cases "sh_quota s x = 0")
    case True
    then have "s' = s\<lparr> sh_ready := (sh_ready s)(x := False), fills := remove1 x (fills s) \<rparr>"
      using r nr by (simp add: cs_unready_def)
    with ok x nr True show ?thesis by (auto simp: ok_defs split: option.splits)
  next
    case False
    then have "s' = s\<lparr> sh_ready := (sh_ready s)(x := False), fills := remove1 x (fills s),
        rcl := (rcl s)(?p := remove1 x (rcl s ?p)), ucl := (ucl s)(?p := ucl s ?p @ [x]) \<rparr>"
      using r nr by (simp add: cs_unready_def Let_def)
    with ok x nr False sp show ?thesis by (auto simp: ok_defs split: option.splits)
  qed
qed

lemma revokation_lists:
  assumes ok: "lists_ok M s" and c: "claims_ok M s" and x: "x \<in> M" "sh_quota s x \<noteq> 0"
  shows "\<forall>p. distinct (rcl (cs_quota_revokation x s) p) \<and>
      set (rcl (cs_quota_revokation x s) p) = {y\<in>M. y \<noteq> x \<and> sh_ready s y \<and> sh_quota s y \<noteq> 0 \<and> prio s y = p}"
    "\<forall>p. distinct (ucl (cs_quota_revokation x s) p) \<and>
      set (ucl (cs_quota_revokation x s) p) = {y\<in>M. y \<noteq> x \<and> \<not> sh_ready s y \<and> sh_quota s y \<noteq> 0 \<and> prio s y = p}"
    "\<forall>p. spent_last (sh_claim s) (rcl (cs_quota_revokation x s) p)"
  using ok c x spent_last_remove1 [of "sh_claim s"]
  by (auto simp: cs_quota_revokation_def lists_ok_def claims_ok_def)

lemma revokation_same [simp]:
  "fills (cs_quota_revokation x s) = fills s" "idle (cs_quota_revokation x s) = idle s"
  "cur (cs_quota_revokation x s) = cur s" "head_claims (cs_quota_revokation x s) = head_claims s"
  "residual (cs_quota_revokation x s) = residual s" "round_quota (cs_quota_revokation x s) = round_quota s"
  "prio (cs_quota_revokation x s) = prio s" "sh_quota (cs_quota_revokation x s) = sh_quota s"
  "sh_claim (cs_quota_revokation x s) = sh_claim s" "sh_ready (cs_quota_revokation x s) = sh_ready s"
  by (simp_all add: cs_quota_revokation_def)

lemma remove_ok:
  assumes ok: "sched_ok M s" and x: "x \<in> M" and r: "cs_remove x s = Some s'"
  shows "sched_ok (M - {x}) s'"
proof -
  define s2 where "s2 = (let s1 = (if cur s = Some x then s\<lparr> cur := None \<rparr> else s)
    in if sh_ready s1 x then s1\<lparr> fills := remove1 x (fills s1) \<rparr> else s1)"
  have same: "rcl s2 = rcl s" "ucl s2 = ucl s" "idle s2 = idle s" "prio s2 = prio s" "sh_quota s2 = sh_quota s"
    "sh_claim s2 = sh_claim s" "sh_ready s2 = sh_ready s" "residual s2 = residual s" "round_quota s2 = round_quota s"
    "head_claims s2 = head_claims s" "cur s2 = (if cur s = Some x then None else cur s)"
    "fills s2 = (if sh_ready s x then remove1 x (fills s) else fills s)"
    by (simp_all add: s2_def Let_def)
  have ne: "x \<noteq> idle s" using r by (auto simp: cs_remove_def)
  have "(if sh_quota s2 x = 0 then Some s2 else Some (cs_quota_revokation x s2)) = Some s'"
    using r ne by (simp only: cs_remove_def s2_def Let_def if_False)
  then have s': "s' = (if sh_quota s2 x = 0 then s2 else cs_quota_revokation x s2)"
    by (simp split: if_splits)
  show ?thesis
  proof (cases "sh_quota s x = 0")
    case True
    with s' same have "s' = s2" by simp
    with ok x True same show ?thesis by (auto simp: ok_defs split: option.splits)
  next
    case False
    with s' same have s'': "s' = cs_quota_revokation x s2" by simp
    have rev: "rcl s' = rcl (cs_quota_revokation x s)" "ucl s' = ucl (cs_quota_revokation x s)"
      using same by (simp_all add: s'' cs_quota_revokation_def)
    note lists = revokation_lists [of M s x, OF _ _ x False]
    from ok have "lists_ok M s" "claims_ok M s" by (simp_all add: sched_ok_def)
    note lists = lists [OF this]
    have f: "fills s' = (if sh_ready s x then remove1 x (fills s) else fills s)" "idle s' = idle s"
      "cur s' = (if cur s = Some x then None else cur s)" "prio s' = prio s" "sh_quota s' = sh_quota s"
      "sh_claim s' = sh_claim s" "sh_ready s' = sh_ready s" "residual s' = residual s"
      "round_quota s' = round_quota s" "head_claims s' = head_claims s"
      by (simp_all only: s'' revokation_same same)
    have "distinct (fills s)" "set (fills s) = {y\<in>M. sh_ready s y}" "idle s \<notin> M" "\<forall>y\<in>M. prio s y \<le> PRIO_MAX"
      using ok by (simp_all add: sched_ok_def lists_ok_def)
    then have "distinct (fills s')" "set (fills s') = {y\<in>M - {x}. sh_ready s y}" "idle s \<notin> M - {x}"
      "\<forall>y\<in>M - {x}. prio s y \<le> PRIO_MAX"
      using x by (auto simp: f(1))
    moreover have "\<forall>p. distinct (rcl s' p) \<and> set (rcl s' p) = {y\<in>M - {x}. sh_ready s y \<and> sh_quota s y \<noteq> 0 \<and> prio s y = p}"
      "\<forall>p. distinct (ucl s' p) \<and> set (ucl s' p) = {y\<in>M - {x}. \<not> sh_ready s y \<and> sh_quota s y \<noteq> 0 \<and> prio s y = p}"
      using lists(1,2) by (auto simp: rev)
    ultimately have "lists_ok (M - {x}) s'"
      unfolding lists_ok_def f(2-) by blast
    moreover have "claims_ok (M - {x}) s'"
      using ok lists(3) by (simp add: claims_ok_def sched_ok_def rev f(2-))
    moreover have "head_ok (M - {x}) s'"
      using ok by (auto simp: head_ok_def sched_ok_def f(2-) split: option.splits)
    moreover have "round_ok s'" using ok by (simp add: round_ok_def sched_ok_def f(2-))
    ultimately show ?thesis by (simp add: sched_ok_def)
  qed
qed

lemma insert_ok:
  assumes ok: "sched_ok M s" and x: "x \<notin> M" "x \<noteq> idle s" "prio s x \<le> PRIO_MAX" and r: "cs_insert x s = Some s'"
  shows "sched_ok (insert x M) s'"
proof -
  have nr: "\<not> sh_ready s x" using r by (auto simp: cs_insert_def split: if_splits)
  show ?thesis
  proof (cases "sh_quota s x = 0")
    case True
    then have "s' = s" using r nr by (simp add: cs_insert_def)
    with ok x nr True show ?thesis by (auto simp: ok_defs split: option.splits)
  next
    case False
    then have s': "s' = s\<lparr> sh_claim := (sh_claim s)(x := sh_quota s x), ucl := (ucl s)(prio s x := x # ucl s (prio s x)) \<rparr>"
      using r nr by (simp add: cs_insert_def)
    have "spent_last ((sh_claim s)(x := sh_quota s x)) (rcl s p) = spent_last (sh_claim s) (rcl s p)" for p
      by (rule spent_last_cong) (use ok x in \<open>auto simp: sched_ok_def lists_ok_def\<close>)
    with ok x nr False show ?thesis
      unfolding s' by (auto simp: ok_defs split: option.splits)
  qed
qed

lemma quota_ok:
  assumes ok: "sched_ok M s" and x: "x \<in> M" and clean: "sh_quota s x = 0 \<longrightarrow> sh_claim s x = 0"
    and r: "cs_quota x q s = Some s'"
  shows "sched_ok M s'"
proof -
  have l: "lists_ok M s" "claims_ok M s" using ok by (simp_all add: sched_ok_def)
  consider (adapt) "sh_quota s x \<noteq> 0" "q \<noteq> 0" | (revoke) "sh_quota s x \<noteq> 0" "q = 0"
    | (intro) "sh_quota s x = 0" "q \<noteq> 0" | (none) "sh_quota s x = 0" "q = 0" by blast
  then show ?thesis
  proof cases
    case adapt
    define c where "c = (if sh_claim s x > q then q else sh_claim s x)"
    have c: "c \<le> q" "c = 0 \<longleftrightarrow> sh_claim s x = 0" using adapt by (auto simp: c_def)
    have s': "s' = s\<lparr> sh_claim := (sh_claim s)(x := c), sh_quota := (sh_quota s)(x := q) \<rparr>"
      using r adapt by (auto simp: cs_quota_def cs_quota_adaption_def Let_def c_def split: if_splits)
    have "spent_last ((sh_claim s)(x := c)) (rcl s p) = spent_last (sh_claim s) (rcl s p)" for p
      by (rule spent_last_cong) (use c in auto)
    with ok x adapt c show ?thesis unfolding s' by (auto simp: ok_defs split: option.splits)
  next
    case revoke
    have s': "s' = (cs_quota_revokation x s)\<lparr> sh_quota := (sh_quota s)(x := 0) \<rparr>"
      using r revoke by (simp add: cs_quota_def cs_quota_adaption_def Let_def split: if_splits)
    from ok revokation_lists [OF l x revoke(1)] show ?thesis
      unfolding s' by (auto simp: ok_defs split: option.splits)
  next
    case intro
    have "x \<notin> set (rcl s p)" "x \<notin> set (ucl s p)" for p using l intro by (auto simp: lists_ok_def)
    moreover have "s' = (cs_quota_introduction x s)\<lparr> sh_quota := (sh_quota s)(x := q) \<rparr>"
      using r intro by (simp add: cs_quota_def cs_quota_introduction_def Let_def split: if_splits)
    ultimately show ?thesis
      using ok x intro clean by (auto simp: cs_quota_introduction_def ok_defs split: option.splits)
  next
    case none
    then have "s' = s\<lparr> sh_quota := (sh_quota s)(x := 0) \<rparr>"
      using r by (simp add: cs_quota_def split: if_splits)
    moreover have "(sh_quota s)(x := 0) = sh_quota s" using none by auto
    ultimately show ?thesis using ok by simp
  qed
qed

lemma yield_ok: "sched_ok M s \<Longrightarrow> sched_ok M (cs_yield s)"
  by (auto simp: ok_defs cs_yield_def split: option.splits)

lemma new_ok: "sched_ok {} (cs_new i q f pr qu)"
  by (auto simp: ok_defs cs_new_def cs_set_head_def)


section \<open>Runs of the scheduler\<close>

inductive cs_step :: "'a set \<times> 'a sched \<Rightarrow> 'a set \<times> 'a sched \<Rightarrow> bool" where
  Update: "cs_step (M, s) (M, cs_update q s)"
| Ready: "x \<in> M \<Longrightarrow> cs_ready x s = Some s' \<Longrightarrow> cs_step (M, s) (M, s')"
| Unready: "x \<in> M \<Longrightarrow> cs_unready x s = Some s' \<Longrightarrow> cs_step (M, s) (M, s')"
| Yield: "cs_step (M, s) (M, cs_yield s)"
| Remove: "x \<in> M \<Longrightarrow> cs_remove x s = Some s' \<Longrightarrow> cs_step (M, s) (M - {x}, s')"
| Insert: "x \<notin> M \<Longrightarrow> x \<noteq> idle s \<Longrightarrow> prio s x \<le> PRIO_MAX \<Longrightarrow> cs_insert x s = Some s' \<Longrightarrow>
    cs_step (M, s) (insert x M, s')"
| Quota: "x \<in> M \<Longrightarrow> (sh_quota s x = 0 \<longrightarrow> sh_claim s x = 0) \<Longrightarrow> cs_quota x q s = Some s' \<Longrightarrow> cs_step (M, s) (M, s')"

inductive cs_reach :: "'a set \<times> 'a sched \<Rightarrow> bool" where
  New: "cs_reach ({}, cs_new i q f pr qu)"
| Step: "cs_reach a \<Longrightarrow> cs_step a b \<Longrightarrow> cs_reach b"

inductive_cases cs_stepE: "cs_step (M, s) (M', s')"

lemma cs_step_ok: "cs_step a b \<Longrightarrow> sched_ok (fst a) (snd a) \<Longrightarrow> sched_ok (fst b) (snd b)"
  by (induction rule: cs_step.induct)
     (auto intro: update_ok ready_ok unready_ok yield_ok remove_ok insert_ok quota_ok)

lemma cs_reach_ok: "cs_reach a \<Longrightarrow> sched_ok (fst a) (snd a)"
  by (induction rule: cs_reach.induct) (auto intro: new_ok cs_step_ok)


section \<open>Properties\<close>

text \<open>A system with one share of priority 2 and quota 50 and one without quota, both ready.\<close>

definition demo0 :: "nat sched" where
  "demo0 = cs_new 0 100 10 (\<lambda>x. if x = 1 then 2 else 0) (\<lambda>x. if x = 1 then 50 else 0)"

definition demo :: "nat sched" where
  "demo = the (Option.bind (cs_insert 1 demo0) (\<lambda>s. Option.bind (cs_insert 2 s) (\<lambda>s.
     Option.bind (cs_ready 1 s) (cs_ready 2))))"

lemma demo_reach: "cs_reach ({1, 2}, demo)"
proof -
  define a where "a = the (cs_insert 1 demo0)"
  define b where "b = the (cs_insert 2 a)"
  define c where "c = the (cs_ready 1 b)"
  have e: "cs_insert 1 demo0 = Some a" "cs_insert 2 a = Some b" "cs_ready 1 b = Some c" "cs_ready 2 c = Some demo"
    by (simp_all add: demo_def demo0_def a_def b_def c_def cs_new_def cs_set_head_def cs_insert_def cs_ready_def Let_def)
  have f: "cs_reach ({}, demo0)" unfolding demo0_def by (rule cs_reach.New)
  have "cs_step ({}, demo0) ({1}, a)"
    using cs_step.Insert [of 1 "{}" demo0 a] e(1) by (simp add: demo0_def cs_new_def cs_set_head_def PRIO_MAX_def)
  moreover have "cs_step ({1}, a) ({2, 1}, b)"
    using cs_step.Insert [of 2 "{1}" a b] e by (simp add: a_def demo0_def cs_new_def cs_set_head_def cs_insert_def PRIO_MAX_def)
  moreover have "cs_step ({2, 1}, b) ({2, 1}, c)" using e(3) by (intro cs_step.Ready) auto
  moreover have "cs_step ({2, 1}, c) ({2, 1}, demo)" using e(4) by (intro cs_step.Ready) auto
  ultimately have "cs_reach ({2, 1}, demo)" using f by (meson cs_reach.Step)
  then show ?thesis by (simp add: insert_commute)
qed





text \<open>
  A quota that is taken away and given back later comes with the claim of the share from before: the
  share with a quota of 10 is then scheduled for 50.
\<close>

lemma stale_claim_exceeds_quota:
  "(let s = cs_update 0 (the (Option.bind (cs_quota 1 0 demo) (cs_quota 1 10)))
    in cur s = Some 1 \<and> head_claims s \<and> sh_quota s 1 = 10 \<and> cs_head_quota s = 50)"
  by (simp add: demo_def demo0_def cs_new_def cs_set_head_def cs_insert_def cs_ready_def Let_def cs_quota_def
      cs_quota_adaption_def cs_quota_revokation_def cs_quota_introduction_def cs_update_def cs_account_def
      cs_trim_consumption_def cs_head_filled_def cs_consumed_def cs_choose_def cs_claim_for_head_def
      prios_down_def PRIO_MAX_def l_head_def cs_head_quota_def numeral_3_eq_3 upt_rec)

end
