(* ===== verification/Linked_Lists.thy ===== *)
theory Linked_Lists
  imports Genode_Prelude
begin

text \<open>
  The intrusive singly linked containers \<open>base/include/util/list.h\<close> and \<open>base/include/util/fifo.h\<close>,
  on the level of their pointers: an object is a value of type \<open>'a\<close>, a pointer an optional object, and
  the link fields embedded in the objects are functions of the object.  An access through a null pointer
  is the result \<open>None\<close>; so is a search that walks in circles.
\<close>

section \<open>Chains of links\<close>

text \<open>The objects that are reached from a pointer by following the links, up to a final pointer.\<close>

fun chain :: "('a \<Rightarrow> 'a option) \<Rightarrow> 'a option \<Rightarrow> 'a list \<Rightarrow> 'a option \<Rightarrow> bool" where
  "chain nxt p [] q \<longleftrightarrow> p = q"
| "chain nxt p (x # xs) q \<longleftrightarrow> p = Some x \<and> chain nxt (nxt x) xs q"

lemma chain_append: "chain nxt p (xs @ ys) q \<longleftrightarrow> (\<exists>r. chain nxt p xs r \<and> chain nxt r ys q)"
  by (induction xs arbitrary: p) auto

lemma chain_upd [simp]: "x \<notin> set xs \<Longrightarrow> chain (nxt(x := v)) p xs q = chain nxt p xs q"
  by (induction xs arbitrary: p) auto

lemma chain_Nil_None: "chain nxt None xs q \<longleftrightarrow> xs = [] \<and> q = None"
  by (cases xs) auto

lemma chain_null_iff: "chain nxt p xs None \<Longrightarrow> p = None \<longleftrightarrow> xs = []"
  by (cases xs) auto

lemma chain_deterministic: "chain nxt p xs None \<Longrightarrow> chain nxt p ys None \<Longrightarrow> xs = ys"
  by (induction xs arbitrary: p ys) (auto simp: chain_Nil_None neq_Nil_conv, metis chain.simps(2) chain_null_iff neq_Nil_conv option.inject)

lemma chain_last: "chain nxt p xs None \<Longrightarrow> xs \<noteq> [] \<Longrightarrow> nxt (last xs) = None"
  by (induction xs arbitrary: p) auto

text \<open>
  The search loop that \<open>remove\<close> of both containers runs: the object whose successor is \<open>le\<close>, or the
  last object of the list.
\<close>

partial_function (option) search_prev :: "('a \<Rightarrow> 'a option) \<Rightarrow> 'a \<Rightarrow> 'a \<Rightarrow> 'a option" where
  "search_prev nxt le e =
     (case nxt e of
        None \<Rightarrow> Some e
      | Some n \<Rightarrow> if n = le then Some e else search_prev nxt le n)"

declare search_prev.simps [code]

lemma search_prev_found:
  assumes "chain nxt (Some e) (xs @ [y]) (Some le)" "le \<notin> set (tl (xs @ [y]))"
  shows "search_prev nxt le e = Some y"
  using assms
proof (induction xs arbitrary: e)
  case Nil
  then show ?case by (subst search_prev.simps) simp
next
  case (Cons x xs)
  then obtain n zs where n: "xs @ [y] = n # zs" by (metis Nil_is_append_conv list.exhaust list.distinct(1))
  with Cons.prems have e: "nxt x = Some n" "e = x" "n \<noteq> le" by auto
  moreover have "chain nxt (Some n) (xs @ [y]) (Some le)" using Cons.prems(1) e by simp
  moreover have "le \<notin> set (tl (xs @ [y]))" using Cons.prems(2) n by (simp del: tl_append)
  ultimately have "search_prev nxt le n = Some y" using Cons.IH by blast
  with e have "nxt e = Some n" "n \<noteq> le" "search_prev nxt le n = Some y" by simp_all
  then show ?case by (subst search_prev.simps) simp
qed

lemma search_prev_missing:
  assumes "chain nxt (Some e) xs None" "le \<notin> set (tl xs)"
  shows "search_prev nxt le e = Some (last xs)"
  using assms
proof (induction xs arbitrary: e)
  case (Cons x xs)
  show ?case
  proof (cases xs)
    case Nil
    with Cons.prems show ?thesis by (subst search_prev.simps) simp
  next
    case (Cons n zs)
    with Cons.prems Cons.IH [of n] show ?thesis
      by (subst search_prev.simps) (auto dest: in_set_takeD)
  qed
qed simp


section \<open>List\<close>

record 'a slist =
  sl_first :: "'a option"
  sl_next  :: "'a \<Rightarrow> 'a option"

definition sl_empty :: "'a slist" where
  "sl_empty = \<lparr> sl_first = None, sl_next = (\<lambda>_. None) \<rparr>"

definition sl_insert :: "'a \<Rightarrow> 'a option \<Rightarrow> 'a slist \<Rightarrow> 'a slist" where
  "sl_insert le at s =
     (case at of
        None \<Rightarrow> s\<lparr> sl_next := (sl_next s)(le := sl_first s), sl_first := Some le \<rparr>
      | Some p \<Rightarrow> (let s1 = s\<lparr> sl_next := (sl_next s)(le := sl_next s p) \<rparr>
                    in s1\<lparr> sl_next := (sl_next s1)(p := Some le) \<rparr>))"

definition sl_remove :: "'a \<Rightarrow> 'a slist \<Rightarrow> 'a slist option" where
  "sl_remove le s =
     (case sl_first s of
        None \<Rightarrow> Some s
      | Some f \<Rightarrow>
          if le = f then
            (let s1 = s\<lparr> sl_first := sl_next s le \<rparr>
             in Some (s1\<lparr> sl_next := (sl_next s1)(le := None) \<rparr>))
          else
            (case search_prev (sl_next s) le f of
               None \<Rightarrow> None
             | Some e \<Rightarrow>
                 (case sl_next s e of
                    None \<Rightarrow> Some s
                  | Some n \<Rightarrow>
                      (let s1 = s\<lparr> sl_next := (sl_next s)(e := sl_next s n) \<rparr>
                       in Some (s1\<lparr> sl_next := (sl_next s1)(le := None) \<rparr>)))))"

definition sl_rep :: "'a slist \<Rightarrow> 'a list \<Rightarrow> bool" where
  "sl_rep s xs \<longleftrightarrow> distinct xs \<and> chain (sl_next s) (sl_first s) xs None"

lemma sl_rep_unique: "sl_rep s xs \<Longrightarrow> sl_rep s ys \<Longrightarrow> xs = ys"
  by (auto simp: sl_rep_def dest: chain_deterministic)

lemma sl_empty_rep: "sl_rep sl_empty []"
  by (simp add: sl_rep_def sl_empty_def)

lemma sl_insert_front: "sl_rep s xs \<Longrightarrow> x \<notin> set xs \<Longrightarrow> sl_rep (sl_insert x None s) (x # xs)"
  by (simp add: sl_rep_def sl_insert_def)

lemma sl_insert_behind:
  "sl_rep s (xs @ p # ys) \<Longrightarrow> x \<notin> set (xs @ p # ys) \<Longrightarrow> sl_rep (sl_insert x (Some p) s) (xs @ p # x # ys)"
  by (auto simp: sl_rep_def sl_insert_def chain_append)

lemma sl_remove_member:
  assumes "sl_rep s (xs @ x # ys)"
  shows "\<exists>s'. sl_remove x s = Some s' \<and> sl_rep s' (xs @ ys) \<and> sl_next s' x = None"
proof (cases xs rule: rev_cases)
  case Nil
  with assms show ?thesis by (auto simp: sl_remove_def sl_rep_def)
next
  case (snoc zs e)
  with assms have d: "distinct (zs @ e # x # ys)"
    and c: "chain (sl_next s) (sl_first s) (zs @ [e]) (Some x)" "sl_next s e = Some x" "chain (sl_next s) (sl_next s x) ys None"
    by (auto simp: sl_rep_def chain_append)
  obtain f ws where f: "zs @ [e] = f # ws" by (cases zs) auto
  with c(1) have first: "sl_first s = Some f" by (cases zs) auto
  have "f \<noteq> x" using d f by (cases zs) auto
  moreover have "search_prev (sl_next s) x f = Some e"
    by (rule search_prev_found [of _ _ zs]) (use c(1) first d in \<open>auto simp: tl_append split: list.splits\<close>)
  ultimately have "sl_remove x s = Some (s\<lparr> sl_next := (sl_next s)(e := sl_next s x, x := None) \<rparr>)"
    using first c(2) by (simp add: sl_remove_def Let_def)
  moreover have "chain (sl_next s) (sl_first s) zs (Some e)" using c(1) by (auto simp: chain_append)
  ultimately show ?thesis
    using d c(3) snoc by (auto simp: sl_rep_def chain_append)
qed

lemma sl_remove_other:
  assumes "sl_rep s xs" "x \<notin> set xs"
  shows "sl_remove x s = Some s"
proof (cases xs)
  case Nil
  with assms show ?thesis by (simp add: sl_rep_def sl_remove_def)
next
  case (Cons f ys)
  then have "sl_first s = Some f" "f \<noteq> x" using assms by (auto simp: sl_rep_def)
  moreover have "search_prev (sl_next s) x f = Some (last xs)"
    by (rule search_prev_missing) (use assms Cons in \<open>auto simp: sl_rep_def\<close>)
  moreover have "sl_next s (last xs) = None"
    using assms(1) Cons chain_last [of "sl_next s" "sl_first s" xs] by (simp add: sl_rep_def)
  ultimately show ?thesis by (simp add: sl_remove_def)
qed


section \<open>Fifo\<close>

text \<open>\<open>ff_enqueued\<close> is the flag embedded in every object.\<close>

record 'a fifo =
  ff_head :: "'a option"
  ff_tail :: "'a option"
  ff_next :: "'a \<Rightarrow> 'a option"
  ff_enqueued :: "'a \<Rightarrow> bool"

definition ff_new :: "'a fifo" where
  "ff_new = \<lparr> ff_head = None, ff_tail = None, ff_next = (\<lambda>_. None), ff_enqueued = (\<lambda>_. False) \<rparr>"

definition ff_empty :: "'a fifo \<Rightarrow> bool" where
  "ff_empty s \<longleftrightarrow> ff_tail s = None"

definition ff_reset :: "'a \<Rightarrow> 'a fifo \<Rightarrow> 'a fifo" where
  "ff_reset e s = s\<lparr> ff_next := (ff_next s)(e := None), ff_enqueued := (ff_enqueued s)(e := False) \<rparr>"

definition ff_remove :: "'a \<Rightarrow> 'a fifo \<Rightarrow> 'a fifo option" where
  "ff_remove qe s =
     (if ff_empty s then Some s
      else if ff_head s = Some qe then
        (let s1 = s\<lparr> ff_head := ff_next s qe \<rparr>;
             s2 = (if ff_head s1 = None then s1\<lparr> ff_tail := None \<rparr> else s1)
         in Some (ff_reset qe s2))
      else
        (case ff_head s of
           None \<Rightarrow> None
         | Some h \<Rightarrow>
             (case search_prev (ff_next s) qe h of
                None \<Rightarrow> None
              | Some e \<Rightarrow>
                  (case ff_next s e of
                     None \<Rightarrow> Some s
                   | Some n \<Rightarrow>
                       (let s1 = s\<lparr> ff_next := (ff_next s)(e := ff_next s n) \<rparr>;
                            s2 = (if ff_next s1 e = None then s1\<lparr> ff_tail := Some e \<rparr> else s1)
                        in Some (ff_reset qe s2))))))"

definition ff_enqueue :: "'a \<Rightarrow> 'a fifo \<Rightarrow> 'a fifo option" where
  "ff_enqueue e s =
     (let s1 = s\<lparr> ff_next := (ff_next s)(e := None), ff_enqueued := (ff_enqueued s)(e := True) \<rparr> in
      case ff_tail s1 of
        None \<Rightarrow> Some (s1\<lparr> ff_head := Some e, ff_tail := Some e \<rparr>)
      | Some t \<Rightarrow> Some (s1\<lparr> ff_next := (ff_next s1)(t := Some e), ff_tail := Some e \<rparr>))"

definition ff_dequeue :: "'a fifo \<Rightarrow> ('a option \<times> 'a fifo) option" where
  "ff_dequeue s =
     (let result = ff_head s in
      if ff_head s = ff_tail s then
        (let s1 = s\<lparr> ff_head := None, ff_tail := None \<rparr>
         in Some (result, (case result of None \<Rightarrow> s1 | Some e \<Rightarrow> ff_reset e s1)))
      else
        (case ff_head s of
           None \<Rightarrow> None
         | Some h \<Rightarrow> Some (result, ff_reset h (s\<lparr> ff_head := ff_next s h \<rparr>))))"

definition ff_rep :: "'a fifo \<Rightarrow> 'a list \<Rightarrow> bool" where
  "ff_rep s xs \<longleftrightarrow> distinct xs \<and> chain (ff_next s) (ff_head s) xs None \<and>
     ff_tail s = (if xs = [] then None else Some (last xs)) \<and> (\<forall>x. ff_enqueued s x \<longleftrightarrow> x \<in> set xs)"

lemma ff_new_rep: "ff_rep ff_new []"
  by (simp add: ff_rep_def ff_new_def)

lemma ff_enqueue_rep:
  assumes "ff_rep s xs" "x \<notin> set xs"
  shows "\<exists>s'. ff_enqueue x s = Some s' \<and> ff_rep s' (xs @ [x])"
proof (cases xs rule: rev_cases)
  case Nil
  with assms show ?thesis by (auto simp: ff_rep_def ff_enqueue_def Let_def)
next
  case (snoc ys y)
  with assms show ?thesis by (auto simp: ff_rep_def ff_enqueue_def Let_def chain_append)
qed

lemma ff_dequeue_empty:
  assumes "ff_rep s []"
  shows "\<exists>s'. ff_dequeue s = Some (None, s') \<and> ff_rep s' []"
  using assms by (simp add: ff_rep_def ff_dequeue_def)

lemma ff_dequeue_rep:
  assumes "ff_rep s (x # xs)"
  shows "\<exists>s'. ff_dequeue s = Some (Some x, s') \<and> ff_rep s' xs"
  using assms by (auto simp: ff_rep_def ff_dequeue_def ff_reset_def Let_def split: if_splits)

lemma ff_remove_rep:
  assumes "ff_rep s (xs @ x # ys)"
  shows "\<exists>s'. ff_remove x s = Some s' \<and> ff_rep s' (xs @ ys)"
proof (cases xs rule: rev_cases)
  case Nil
  with assms show ?thesis
    by (auto simp: ff_remove_def ff_rep_def ff_reset_def ff_empty_def Let_def chain_Nil_None chain_null_iff)
next
  case (snoc zs e)
  with assms have d: "distinct (zs @ e # x # ys)"
    and c: "chain (ff_next s) (ff_head s) (zs @ [e]) (Some x)" "ff_next s e = Some x" "chain (ff_next s) (ff_next s x) ys None"
    and t: "ff_tail s = Some (last (x # ys))" "\<forall>y. ff_enqueued s y \<longleftrightarrow> y \<in> set (zs @ e # x # ys)"
    by (auto simp: ff_rep_def chain_append)
  obtain f ws where f: "zs @ [e] = f # ws" by (cases zs) auto
  with c(1) have first: "ff_head s = Some f" by (cases zs) auto
  have "f \<noteq> x" using d f by (cases zs) auto
  moreover have "search_prev (ff_next s) x f = Some e"
    by (rule search_prev_found [of _ _ zs]) (use c(1) first d in \<open>auto simp: tl_append split: list.splits\<close>)
  ultimately have "ff_remove x s = Some (ff_reset x
      (let s1 = s\<lparr> ff_next := (ff_next s)(e := ff_next s x) \<rparr>
       in if ff_next s x = None then s1\<lparr> ff_tail := Some e \<rparr> else s1))"
    using first c(2) t(1) by (simp add: ff_remove_def ff_empty_def Let_def)
  moreover have "chain (ff_next s) (ff_head s) zs (Some e)" using c(1) by (auto simp: chain_append)
  moreover have "ff_next s x = None \<longleftrightarrow> ys = []" using c(3) by (rule chain_null_iff)
  ultimately show ?thesis
    using d c(3) t snoc by (auto simp: ff_rep_def ff_reset_def Let_def chain_append)
qed

end
