(* ===== verification/Semaphore.thy ===== *)
theory Semaphore
  imports Linked_Lists
begin

text \<open>
  The semaphore of \<open>base/include/base/semaphore.h\<close> on top of the FIFO.  A thread that blocks is its queue
  element.  The meta lock makes the part of \<open>up\<close> and of \<open>down\<close> that touches the state one step; the
  result of \<open>up\<close> is the element whose lock is released afterwards, that of \<open>down\<close> is whether the
  caller goes to sleep on the lock of its element.  The lock starts out locked, so releasing it before the
  owner waits for it is not lost.
\<close>

section \<open>A queue as its clients see it\<close>

locale fifo_queue =
  fixes rep :: "'q \<Rightarrow> 'a list \<Rightarrow> bool"
    and new :: 'q
    and enqueue :: "'a \<Rightarrow> 'q \<Rightarrow> 'q option"
    and dequeue :: "'q \<Rightarrow> ('a option \<times> 'q) option"
  assumes new_rep: "rep new []"
    and enqueue_rep: "rep q xs \<Longrightarrow> x \<notin> set xs \<Longrightarrow> \<exists>q'. enqueue x q = Some q' \<and> rep q' (xs @ [x])"
    and dequeue_empty: "rep q [] \<Longrightarrow> \<exists>q'. dequeue q = Some (None, q') \<and> rep q' []"
    and dequeue_rep: "rep q (x # xs) \<Longrightarrow> \<exists>q'. dequeue q = Some (Some x, q') \<and> rep q' xs"

text \<open>Withdrawing an element out of the middle, as destructors do.\<close>

locale removable_queue = fifo_queue rep new enqueue dequeue
  for rep :: "'q \<Rightarrow> 'a list \<Rightarrow> bool" and new enqueue dequeue +
  fixes remove :: "'a \<Rightarrow> 'q \<Rightarrow> 'q option"
  assumes remove_rep: "rep q (xs @ x # ys) \<Longrightarrow> \<exists>q'. remove x q = Some q' \<and> rep q' (xs @ ys)"

interpretation ff: removable_queue ff_rep ff_new ff_enqueue ff_dequeue ff_remove
  by unfold_locales (rule ff_new_rep ff_enqueue_rep ff_dequeue_empty ff_dequeue_rep ff_remove_rep; assumption)+


section \<open>Semaphore\<close>

record 'q semaphore =
  sem_cnt :: int
  sem_queue :: 'q

text \<open>The two operations, over any queue.\<close>

definition sem_up_on :: "('q \<Rightarrow> ('a option \<times> 'q) option) \<Rightarrow> 'q semaphore \<Rightarrow> ('a option \<times> 'q semaphore) option" where
  "sem_up_on deq s =
     (let s1 = s\<lparr> sem_cnt := sem_cnt s + 1 \<rparr> in
      if sem_cnt s1 > 0 then Some (None, s1)
      else
        (case deq (sem_queue s1) of
           None \<Rightarrow> None
         | Some (e, q) \<Rightarrow> Some (e, s1\<lparr> sem_queue := q \<rparr>)))"

definition sem_down_on :: "('a \<Rightarrow> 'q \<Rightarrow> 'q option) \<Rightarrow> 'a \<Rightarrow> 'q semaphore \<Rightarrow> (bool \<times> 'q semaphore) option" where
  "sem_down_on enq t s =
     (let s1 = s\<lparr> sem_cnt := sem_cnt s - 1 \<rparr> in
      if sem_cnt s1 < 0 then
        (case enq t (sem_queue s1) of
           None \<Rightarrow> None
         | Some q \<Rightarrow> Some (True, s1\<lparr> sem_queue := q \<rparr>))
      else Some (False, s1))"

definition sem_new :: "int \<Rightarrow> 'a fifo semaphore" where
  "sem_new n = \<lparr> sem_cnt = n, sem_queue = ff_new \<rparr>"

definition sem_up :: "'a fifo semaphore \<Rightarrow> ('a option \<times> 'a fifo semaphore) option" where
  "sem_up = sem_up_on ff_dequeue"

definition sem_down :: "'a \<Rightarrow> 'a fifo semaphore \<Rightarrow> (bool \<times> 'a fifo semaphore) option" where
  "sem_down = sem_down_on ff_enqueue"

text \<open>
  Abstractly a semaphore is the number of its free units and the threads that wait, in the order of
  their arrival.  Nobody waits while units are free.
\<close>

definition sem_state :: "('q \<Rightarrow> 'a list \<Rightarrow> bool) \<Rightarrow> 'q semaphore \<Rightarrow> nat \<Rightarrow> 'a list \<Rightarrow> bool" where
  "sem_state rep s free waiting \<longleftrightarrow>
     rep (sem_queue s) waiting \<and> sem_cnt s = int free - int (length waiting) \<and> (free = 0 \<or> waiting = [])"

context fifo_queue
begin

lemma down_blocks:
  "sem_state rep s 0 ws \<Longrightarrow> t \<notin> set ws \<Longrightarrow>
     \<exists>s'. sem_down_on enqueue t s = Some (True, s') \<and> sem_state rep s' 0 (ws @ [t])"
  using enqueue_rep [of "sem_queue s" ws t] by (auto simp: sem_state_def sem_down_on_def Let_def)

lemma down_passes:
  "sem_state rep s (Suc n) ws \<Longrightarrow> \<exists>s'. sem_down_on enqueue t s = Some (False, s') \<and> sem_state rep s' n ws"
  by (auto simp: sem_state_def sem_down_on_def Let_def)

lemma up_wakes:
  "sem_state rep s 0 (w # ws) \<Longrightarrow> \<exists>s'. sem_up_on dequeue s = Some (Some w, s') \<and> sem_state rep s' 0 ws"
  using dequeue_rep [of "sem_queue s" w ws] by (auto simp: sem_state_def sem_up_on_def Let_def)

lemma up_frees:
  "sem_state rep s n [] \<Longrightarrow> \<exists>s'. sem_up_on dequeue s = Some (None, s') \<and> sem_state rep s' (Suc n) []"
  by (auto simp: sem_state_def sem_up_on_def Let_def)

text \<open>Any number of waiting threads is woken up in the order in which they came.\<close>

lemma ups_in_order:
  "sem_state rep s 0 (ws @ vs) \<Longrightarrow>
     \<exists>s'. fold (\<lambda>w so. Option.bind so (\<lambda>s. Option.bind (sem_up_on dequeue s) (\<lambda>(e, s').
       if e = Some w then Some s' else None))) ws (Some s) = Some s' \<and> sem_state rep s' 0 vs"
proof (induction ws arbitrary: s)
  case (Cons w ws)
  then obtain s1 where "sem_up_on dequeue s = Some (Some w, s1)" "sem_state rep s1 0 (ws @ vs)"
    using up_wakes [of s w "ws @ vs"] by auto
  with Cons.IH show ?case by simp
qed simp

end

text \<open>
  \<open>down\<close> and \<open>up\<close> implement a counting semaphore with a queue: \<open>down\<close> takes a free unit or goes to the end of
  the queue, \<open>up\<close> wakes up the thread that has waited longest or frees a unit, and no access through a
  null pointer happens on the way.
\<close>

theorem semaphore_refines:
  assumes "sem_state ff_rep s free waiting" "t \<notin> set waiting"
  shows "\<exists>s1 s2. sem_down t s = Some (free = 0, s1) \<and>
      sem_state ff_rep s1 (free - 1) (if free = 0 then waiting @ [t] else waiting) \<and>
    sem_up s = Some (if waiting = [] then None else Some (hd waiting), s2) \<and>
      sem_state ff_rep s2 (if waiting = [] then Suc free else 0) (tl waiting)"
proof -
  have "free = 0 \<or> waiting = []" using assms(1) by (simp add: sem_state_def)
  then show ?thesis
    using assms ff.down_blocks [of s waiting t] ff.down_passes [of s "free - 1" waiting t]
      ff.up_wakes [of s "hd waiting" "tl waiting"] ff.up_frees [of s free]
    by (cases free; cases waiting; auto simp: sem_down_def sem_up_def)
qed

theorem semaphore_refines_witness:
  "\<exists>s2. sem_up (sem_new 0 :: nat fifo semaphore) = Some (None, s2) \<and> sem_state ff_rep s2 1 []"
  using semaphore_refines [of "sem_new 0" 0 "[]" "7::nat"] ff.new_rep [where 'a = nat]
  by (auto simp: sem_state_def sem_new_def)

end
