(* ===== verification/Quota.thy ===== *)
theory Quota
  imports Genode_Prelude
begin

unbundle bit_operations_syntax

text \<open>
  Accounting of memory and capabilities: \<open>base/include/base/quota_guard.h\<close>,
  \<open>base/include/base/quota_transfer.h\<close> and \<open>base/include/base/allocator_guard.h\<close>.
\<close>

section \<open>Quota guard\<close>

record quota_guard =
  q_limit :: size
  q_used :: size

definition qg_new :: quota_guard where
  "qg_new = \<lparr> q_limit = 0, q_used = 0 \<rparr>"

definition qg_avail :: "quota_guard \<Rightarrow> size" where
  "qg_avail g = q_limit g - q_used g"

definition qg_upgrade :: "size \<Rightarrow> quota_guard \<Rightarrow> quota_guard" where
  "qg_upgrade amount g =
     (let new_limit = q_limit g + amount;
          overflow = (new_limit < q_limit g)
      in g\<lparr> q_limit := (if overflow then NOT 0 else new_limit) \<rparr>)"

definition qg_try_downgrade :: "size \<Rightarrow> quota_guard \<Rightarrow> bool \<times> quota_guard" where
  "qg_try_downgrade amount g =
     (if qg_avail g < amount then (False, g) else (True, g\<lparr> q_limit := q_limit g - amount \<rparr>))"

definition qg_try_withdraw :: "size \<Rightarrow> quota_guard \<Rightarrow> bool \<times> quota_guard" where
  "qg_try_withdraw amount g =
     (if amount > qg_avail g then (False, g) else (True, g\<lparr> q_used := q_used g + amount \<rparr>))"

definition qg_replenish :: "size \<Rightarrow> quota_guard \<Rightarrow> quota_guard" where
  "qg_replenish amount g =
     (let underflow = (amount > q_used g)
      in g\<lparr> q_used := (if underflow then 0 else q_used g - amount) \<rparr>)"

text \<open>The typed guard throws where the untyped one returns false.\<close>

datatype quota_error = Limit_exceeded | Quota_exceeded

definition qg_construct :: "size \<Rightarrow> quota_guard" where
  "qg_construct amount = qg_upgrade amount qg_new"

definition qg_withdraw :: "size \<Rightarrow> quota_guard \<Rightarrow> quota_error + quota_guard" where
  "qg_withdraw amount g =
     (case qg_try_withdraw amount g of (ok, g') \<Rightarrow> if \<not> ok then Inl Limit_exceeded else Inr g')"

record reservation =
  rsv_amount :: size
  rsv_ack :: bool

definition reserve :: "size \<Rightarrow> quota_guard \<Rightarrow> quota_error + (reservation \<times> quota_guard)" where
  "reserve amount g =
     (case qg_withdraw amount g of
        Inl e \<Rightarrow> Inl e
      | Inr g' \<Rightarrow> Inr (\<lparr> rsv_amount = amount, rsv_ack = False \<rparr>, g'))"

definition acknowledge :: "reservation \<Rightarrow> reservation" where
  "acknowledge r = r\<lparr> rsv_ack := True \<rparr>"

definition reservation_destruct :: "reservation \<Rightarrow> quota_guard \<Rightarrow> quota_guard" where
  "reservation_destruct r g = (if \<not> rsv_ack r then qg_replenish (rsv_amount r) g else g)"


section \<open>Quota transfer\<close>

text \<open>
  The accounts are those of the sessions behind the interface \<open>Account\<close>.  Their transfer operation is a
  parameter: it changes the state of both accounts, or throws.  An account without a valid capability takes
  no part in a transfer.
\<close>

datatype transfer_error = Undefined_ref_account | Invalid_session | Out_of_quota

record transfer =
  tr_ack :: bool
  tr_amount :: size

type_synonym 's transfer_op = "size \<Rightarrow> 's \<Rightarrow> transfer_error + 's"

definition quota_transfer ::
    "bool \<Rightarrow> bool \<Rightarrow> 's transfer_op \<Rightarrow> size \<Rightarrow> 's \<Rightarrow> quota_error + (transfer \<times> 's)" where
  "quota_transfer from_valid to_valid from_transfer amount s =
     (let t = \<lparr> tr_ack = False, tr_amount = amount \<rparr> in
      if \<not> from_valid \<or> \<not> to_valid then Inr (t, s)
      else
        (case from_transfer amount s of
           Inr s' \<Rightarrow> Inr (t, s')
         | Inl Undefined_ref_account \<Rightarrow> Inr (t, s)
         | Inl Invalid_session \<Rightarrow> Inr (t, s)
         | Inl Out_of_quota \<Rightarrow> Inl Quota_exceeded))"

definition try_transfer :: "'s transfer_op \<Rightarrow> size \<Rightarrow> 's \<Rightarrow> 's" where
  "try_transfer op amount s = (case op amount s of Inr s' \<Rightarrow> s' | Inl _ \<Rightarrow> s)"

definition transfer_destruct :: "bool \<Rightarrow> bool \<Rightarrow> 's transfer_op \<Rightarrow> transfer \<Rightarrow> 's \<Rightarrow> 's" where
  "transfer_destruct from_valid to_valid to_transfer t s =
     (if tr_ack t \<or> \<not> from_valid \<or> \<not> to_valid then s else try_transfer to_transfer (tr_amount t) s)"


section \<open>Allocator guard\<close>

text \<open>The guarded allocator is a parameter: whether it succeeds, and its overhead for a block.\<close>

record alloc_guard =
  ag_amount :: size
  ag_consumed :: size

definition ag_new :: "size \<Rightarrow> alloc_guard" where
  "ag_new amount = \<lparr> ag_amount = amount, ag_consumed = 0 \<rparr>"

definition ag_upgrade :: "size \<Rightarrow> alloc_guard \<Rightarrow> alloc_guard" where
  "ag_upgrade additional g = g\<lparr> ag_amount := ag_amount g + additional \<rparr>"

definition ag_withdraw :: "size \<Rightarrow> alloc_guard \<Rightarrow> bool \<times> alloc_guard" where
  "ag_withdraw n g =
     (if ag_amount g - ag_consumed g < n then (False, g)
      else (True, g\<lparr> ag_consumed := ag_consumed g + n \<rparr>))"

definition ag_alloc :: "(size \<Rightarrow> size) \<Rightarrow> bool \<Rightarrow> size \<Rightarrow> alloc_guard \<Rightarrow> bool \<times> alloc_guard" where
  "ag_alloc overhead backend_ok n g =
     (if ag_amount g - ag_consumed g < n + overhead n then (False, g)
      else (backend_ok, if backend_ok then g\<lparr> ag_consumed := ag_consumed g + (n + overhead n) \<rparr> else g))"

definition ag_free :: "(size \<Rightarrow> size) \<Rightarrow> size \<Rightarrow> alloc_guard \<Rightarrow> alloc_guard" where
  "ag_free overhead n g = g\<lparr> ag_consumed := ag_consumed g - (n + overhead n) \<rparr>"


section \<open>Invariants\<close>

definition guard_ok :: "quota_guard \<Rightarrow> bool" where
  "guard_ok g \<longleftrightarrow> q_used g \<le> q_limit g"

definition ag_ok :: "alloc_guard \<Rightarrow> bool" where
  "ag_ok g \<longleftrightarrow> ag_consumed g \<le> ag_amount g"

text \<open>Consuming a part of what is left, for both guards.\<close>

lemma within_limit:
  fixes used limit a :: size
  assumes "used \<le> limit" "\<not> a > limit - used"
  shows "used + a \<le> limit" "unat (used + a) = unat used + unat a"
proof -
  have "unat (limit - used) = unat limit - unat used" using assms(1) by (rule unat_sub_no_wrap)
  with assms have le: "unat used + unat a \<le> unat limit"
    by (simp add: word_less_nat_alt word_le_nat_alt)
  then show e: "unat (used + a) = unat used + unat a"
    using unat_less_64 [of limit] by (intro unat_add_no_wrap) simp
  show "used + a \<le> limit" using le e by (simp add: word_le_nat_alt)
qed

lemma avail_nat: "guard_ok g \<Longrightarrow> unat (qg_avail g) = unat (q_limit g) - unat (q_used g)"
  by (simp add: guard_ok_def qg_avail_def unat_sub_no_wrap)

lemma guard_new [wf_intros]: "guard_ok qg_new"
  by (simp add: guard_ok_def qg_new_def)

lemma upgrade_nat:
  "unat (q_limit (qg_upgrade a g)) = min (unat (q_limit g) + unat a) (2 ^ 64 - 1)"
proof (cases "unat (q_limit g) + unat a < 2 ^ 64")
  case True
  then have "unat (q_limit g + a) = unat (q_limit g) + unat a" by (simp add: unat_add_no_wrap)
  with True show ?thesis by (auto simp: qg_upgrade_def Let_def word_less_nat_alt)
next
  case False
  then have "unat (q_limit g + a) = unat (q_limit g) + unat a - 2 ^ 64"
    using unat_less_64 [of a] unat_less_64 [of "q_limit g"] by (simp add: unat_word_ariths mod_if)
  with False unat_less_64 [of a] show ?thesis by (auto simp: qg_upgrade_def Let_def word_less_nat_alt)
qed

lemma guard_upgrade [wf_intros]: "guard_ok g \<Longrightarrow> guard_ok (qg_upgrade a g)"
proof -
  assume "guard_ok g"
  then have "unat (q_used g) \<le> unat (q_limit g)" by (simp add: guard_ok_def word_le_nat_alt)
  with unat_less_64 [of "q_limit g"] have "unat (q_used g) \<le> unat (q_limit (qg_upgrade a g))"
    unfolding upgrade_nat by simp
  then show ?thesis by (simp add: guard_ok_def word_le_nat_alt qg_upgrade_def Let_def)
qed

lemma guard_downgrade [wf_intros]: "guard_ok g \<Longrightarrow> guard_ok (snd (qg_try_downgrade a g))"
proof -
  assume ok: "guard_ok g"
  have "q_used g \<le> q_limit g - a" if "\<not> qg_avail g < a"
  proof -
    have le: "unat a + unat (q_used g) \<le> unat (q_limit g)"
      using that ok avail_nat [OF ok] by (simp add: word_less_nat_alt guard_ok_def word_le_nat_alt)
    then have "unat (q_limit g - a) = unat (q_limit g) - unat a"
      by (intro unat_sub_no_wrap) (simp add: word_le_nat_alt)
    with le show ?thesis by (simp add: word_le_nat_alt)
  qed
  with ok show ?thesis by (simp add: qg_try_downgrade_def guard_ok_def)
qed

lemma guard_withdraw [wf_intros]: "guard_ok g \<Longrightarrow> guard_ok (snd (qg_try_withdraw a g))"
  using within_limit [of "q_used g" "q_limit g" a]
  by (auto simp: qg_try_withdraw_def guard_ok_def qg_avail_def)

lemma guard_replenish [wf_intros]: "guard_ok g \<Longrightarrow> guard_ok (qg_replenish a g)"
  by (auto simp: qg_replenish_def guard_ok_def Let_def not_less intro: order_trans [OF word_sub_le])

text \<open>
  C16 A guard never hands out more than its limit: every operation keeps the used amount within the limit, a
  withdrawal succeeds exactly if the amount is available and then takes exactly this amount, and giving
  it back restores the guard.
\<close>

theorem quota_guard_correct:
  assumes "guard_ok g"
  shows "guard_ok (qg_upgrade a g) \<and> guard_ok (snd (qg_try_downgrade a g)) \<and>
    guard_ok (snd (qg_try_withdraw a g)) \<and> guard_ok (qg_replenish a g) \<and>
    (fst (qg_try_withdraw a g) \<longleftrightarrow> unat (q_used g) + unat a \<le> unat (q_limit g)) \<and>
    (fst (qg_try_withdraw a g) \<longrightarrow>
       unat (q_used (snd (qg_try_withdraw a g))) = unat (q_used g) + unat a \<and>
       qg_replenish a (snd (qg_try_withdraw a g)) = g)"
proof -
  have used: "unat (q_used g) \<le> unat (q_limit g)" using assms by (simp add: guard_ok_def word_le_nat_alt)
  have iff: "\<not> a > qg_avail g \<longleftrightarrow> unat (q_used g) + unat a \<le> unat (q_limit g)"
    using avail_nat [OF assms] used by (auto simp: word_less_nat_alt)
  have "qg_replenish a (g\<lparr> q_used := q_used g + a \<rparr>) = g \<and> unat (q_used g + a) = unat (q_used g) + unat a"
    if "\<not> a > qg_avail g"
  proof -
    have e: "unat (q_used g + a) = unat (q_used g) + unat a"
      using within_limit(2) [of "q_used g" "q_limit g" a] that assms by (simp add: guard_ok_def qg_avail_def)
    then have "\<not> a > q_used g + a" by (simp add: word_less_nat_alt)
    with e show ?thesis by (simp add: qg_replenish_def Let_def)
  qed
  with iff show ?thesis
    using guard_upgrade [OF assms, of a] guard_downgrade [OF assms, of a] guard_withdraw [OF assms, of a]
      guard_replenish [OF assms, of a] by (auto simp: qg_try_withdraw_def)
qed

theorem quota_guard_correct_witness:
  "guard_ok (qg_upgrade 10 \<lparr> q_limit = 100, q_used = 50 \<rparr>) \<and>
   fst (qg_try_withdraw 50 \<lparr> q_limit = 100, q_used = 50 \<rparr>)"
  using quota_guard_correct [of "\<lparr> q_limit = 100, q_used = 50 \<rparr>" 10]
    quota_guard_correct [of "\<lparr> q_limit = 100, q_used = 50 \<rparr>" 50]
  by (simp add: guard_ok_def)

text \<open>
  A reservation that is destroyed without being acknowledged undoes exactly its own withdrawal, whatever was
  withdrawn in between; an acknowledged one keeps it.
\<close>

theorem reservation_transactional:
  assumes "guard_ok g" "reserve a g = Inr (r, g1)" "qg_withdraw b g1 = Inr g2"
  shows "qg_withdraw b g = Inr (reservation_destruct r g2) \<and> reservation_destruct (acknowledge r) g2 = g2"
proof -
  have r: "r = \<lparr> rsv_amount = a, rsv_ack = False \<rparr>" and g1: "g1 = g\<lparr> q_used := q_used g + a \<rparr>" and a: "\<not> a > qg_avail g"
    using assms(2) by (auto simp: reserve_def qg_withdraw_def qg_try_withdraw_def split: if_splits)
  have ok1: "guard_ok g1" using assms(1) guard_withdraw [of g a] a by (simp add: g1 qg_try_withdraw_def)
  have g2: "g2 = g1\<lparr> q_used := q_used g1 + b \<rparr>" and b: "\<not> b > qg_avail g1"
    using assms(3) by (auto simp: qg_withdraw_def qg_try_withdraw_def split: if_splits)
  have e1: "unat (q_used g1) = unat (q_used g) + unat a"
    using within_limit(2) [of "q_used g" "q_limit g" a] a assms(1) by (simp add: g1 guard_ok_def qg_avail_def)
  have l: "q_used g1 + b \<le> q_limit g1" and e2: "unat (q_used g1 + b) = unat (q_used g1) + unat b"
    using within_limit [of "q_used g1" "q_limit g1" b] b ok1 by (simp_all add: guard_ok_def qg_avail_def)
  have "unat (q_used g1 + b) \<le> unat (q_limit g1)" using l by (simp add: word_le_nat_alt)
  then have "\<not> b > qg_avail g"
    using avail_nat [OF assms(1)] e1 e2 by (simp add: word_less_nat_alt g1)
  moreover have "\<not> a > q_used g1 + b" using e1 e2 by (simp add: word_less_nat_alt)
  then have "reservation_destruct r g2 = g\<lparr> q_used := q_used g + b \<rparr>"
    by (simp add: reservation_destruct_def r g2 g1 qg_replenish_def Let_def)
  ultimately show ?thesis
    by (simp add: qg_withdraw_def qg_try_withdraw_def reservation_destruct_def acknowledge_def)
qed

theorem reservation_transactional_witness:
  "qg_withdraw 20 \<lparr> q_limit = 100, q_used = 50 \<rparr> =
   Inr (reservation_destruct \<lparr> rsv_amount = 30, rsv_ack = False \<rparr> \<lparr> q_limit = 100, q_used = 100 \<rparr>)"
  using reservation_transactional [of "\<lparr> q_limit = 100, q_used = 50 \<rparr>" 30 "\<lparr> rsv_amount = 30, rsv_ack = False \<rparr>"
      "\<lparr> q_limit = 100, q_used = 80 \<rparr>" 20 "\<lparr> q_limit = 100, q_used = 100 \<rparr>"]
  by (simp add: guard_ok_def reserve_def qg_withdraw_def qg_try_withdraw_def qg_avail_def)

text \<open>The allocator guard keeps its invariant even where the sum of size and overhead wraps around.\<close>

lemma ag_alloc_ok: "ag_ok g \<Longrightarrow> ag_ok (snd (ag_alloc overhead b n g))"
  using within_limit(1) [of "ag_consumed g" "ag_amount g" "n + overhead n"]
  by (auto simp: ag_alloc_def ag_ok_def not_less)

lemma ag_withdraw_ok: "ag_ok g \<Longrightarrow> ag_ok (snd (ag_withdraw n g))"
  using within_limit(1) [of "ag_consumed g" "ag_amount g" n]
  by (auto simp: ag_withdraw_def ag_ok_def not_less)

lemma ag_alloc_free:
  "fst (ag_alloc overhead b n g) \<Longrightarrow> ag_free overhead n (snd (ag_alloc overhead b n g)) = g"
  by (simp add: ag_alloc_def ag_free_def split: if_splits)

text \<open>A transfer between two guards, and that a transfer which is not acknowledged is reverted.\<close>

definition guard_transfer :: "size \<Rightarrow> quota_guard \<times> quota_guard \<Rightarrow> transfer_error + quota_guard \<times> quota_guard" where
  "guard_transfer amount s =
     (case qg_try_downgrade amount (fst s) of
        (ok, g) \<Rightarrow> if ok then Inr (g, qg_upgrade amount (snd s)) else Inl Out_of_quota)"

lemma transfer_reverted:
  assumes inverse: "\<And>s s'. op amount s = Inr s' \<Longrightarrow> rop amount s' = Inr s"
    and t: "quota_transfer True True op amount s = Inr (t, s')" "op amount s = Inr s'"
  shows "transfer_destruct True True rop t s' = s"
  using assms by (auto simp: quota_transfer_def transfer_destruct_def try_transfer_def)

end
