(* ===== verification/Id_Space.thy ===== *)
theory Id_Space
  imports Avl_Balance
begin

text \<open>
  ID spaces, \<open>base/include/base/id_space.h\<close>: an AVL tree of the elements, sorted by their ID, and a
  counter from which fresh IDs are taken.  A pointer to an element is the path to its node.
\<close>

section \<open>State and operations\<close>

record 'o id_element =
  el_id :: addr
  el_obj :: 'o

record 'o id_space =
  ids_elements :: "'o id_element tree"
  ids_cnt :: addr

datatype id_error = Out_of_ids | Conflicting_id | Unknown_id

definition ids_new :: "'o id_space" where
  "ids_new = \<lparr> ids_elements = Leaf, ids_cnt = 0 \<rparr>"

text \<open>\<open>higher\<close>; the elements have no recompute hook.\<close>

definition id_policy :: "'o id_element policy" where
  "id_policy = \<lparr> pol_higher = (\<lambda>x other. el_id other > el_id x), pol_recompute = (\<lambda>_ _ x. x) \<rparr>"

fun id_lookup :: "'o id_element tree \<Rightarrow> addr \<Rightarrow> (bool list \<times> 'o id_element) option" where
  "id_lookup Leaf i = None"
| "id_lookup (Node l e d r) i =
     (if i = el_id e then Some ([], e)
      else if i > el_id e then map_option (apfst (Cons RIGHT)) (id_lookup r i)
      else map_option (apfst (Cons LEFT)) (id_lookup l i))"

text \<open>\<open>_unused_id\<close>: the first argument is the number of attempts that are left.\<close>

fun unused_id :: "nat \<Rightarrow> 'o id_element tree \<Rightarrow> addr \<Rightarrow> (id_error + addr) \<times> addr" where
  "unused_id 0 t cnt = (Inl Out_of_ids, cnt)"
| "unused_id (Suc n) t cnt = (if id_lookup t cnt \<noteq> None then unused_id n t (cnt + 1) else (Inr cnt, cnt))"

definition ID_ATTEMPTS :: nat where "ID_ATTEMPTS = 2 ^ 64 - 1"

text \<open>The constructors of an element, with a fresh and with a given ID.\<close>

definition id_construct :: "'o \<Rightarrow> 'o id_space \<Rightarrow> (id_error + addr) \<times> 'o id_space" where
  "id_construct ob s =
     (case unused_id ID_ATTEMPTS (ids_elements s) (ids_cnt s) of
        (Inl e, cnt) \<Rightarrow> (Inl e, s\<lparr> ids_cnt := cnt \<rparr>)
      | (Inr i, cnt) \<Rightarrow> (Inr i, s\<lparr> ids_cnt := cnt,
          ids_elements := avl_insert id_policy \<lparr> el_id = i, el_obj = ob \<rparr> 1 (ids_elements s) \<rparr>))"

definition id_construct_at :: "'o \<Rightarrow> addr \<Rightarrow> 'o id_space \<Rightarrow> (id_error + addr) \<times> 'o id_space" where
  "id_construct_at ob i s =
     (if id_lookup (ids_elements s) i \<noteq> None then (Inl Conflicting_id, s)
      else (Inr i, s\<lparr> ids_elements := avl_insert id_policy \<lparr> el_id = i, el_obj = ob \<rparr> 1 (ids_elements s) \<rparr>))"

definition id_destruct :: "bool list \<Rightarrow> 'o id_space \<Rightarrow> 'o id_space" where
  "id_destruct p s = s\<lparr> ids_elements := avl_remove id_policy p (ids_elements s) \<rparr>"

text \<open>\<open>for_each\<close>, \<open>apply\<close> and \<open>apply_any\<close>: the functor changes the state of its caller.\<close>

definition ids_for_each :: "('o \<Rightarrow> 's \<Rightarrow> 's) \<Rightarrow> 'o id_space \<Rightarrow> 's \<Rightarrow> 's" where
  "ids_for_each fn s st = avl_for_each (\<lambda>e. fn (el_obj e)) (ids_elements s) st"

definition ids_apply :: "addr \<Rightarrow> ('o \<Rightarrow> 'r) \<Rightarrow> 'o id_space \<Rightarrow> id_error + 'r" where
  "ids_apply i fn s =
     (case ids_elements s of
        Leaf \<Rightarrow> Inl Unknown_id
      | t \<Rightarrow> (case id_lookup t i of None \<Rightarrow> Inl Unknown_id | Some (p, e) \<Rightarrow> Inr (fn (el_obj e))))"

definition ids_apply_any :: "('o \<Rightarrow> 's \<Rightarrow> 's) \<Rightarrow> 'o id_space \<Rightarrow> 's \<Rightarrow> bool \<times> 's" where
  "ids_apply_any fn s st = (case obj_of (ids_elements s) of None \<Rightarrow> (False, st) | Some e \<Rightarrow> (True, fn (el_obj e) st))"


section \<open>The map an ID space stands for\<close>

definition ids_of :: "'o id_element tree \<Rightarrow> addr list" where
  "ids_of t = map el_id (inorder t)"

definition ids_ok :: "'o id_space \<Rightarrow> bool" where
  "ids_ok s \<longleftrightarrow> sorted_wrt (<) (ids_of (ids_elements s))"

definition ids_map :: "'o id_space \<Rightarrow> addr \<rightharpoonup> 'o" where
  "ids_map s = map_of (map (\<lambda>e. (el_id e, el_obj e)) (inorder (ids_elements s)))"

interpretation idh: avl_hook id_policy "\<lambda>e. e"
  by unfold_locales (auto simp: id_policy_def)

text \<open>Where the new ID is unique, the strict order and the other one choose the same branches.\<close>

lemma id_insert_contents:
  assumes "sorted_wrt (<) (ids_of t)" "el_id n \<notin> set (ids_of t)"
  shows "inorder (avl_insert id_policy n nd t) = ins_after el_id n (inorder t)"
proof -
  have "pol_higher id_policy x n = (el_id x \<le> el_id n)" if "x \<in> set (inorder t)" for x
  proof -
    have "el_id x \<noteq> el_id n" using assms(2) that by (metis ids_of_def image_eqI set_map)
    then show ?thesis by (auto simp: id_policy_def order_le_less)
  qed
  moreover have "sorted_wrt (\<lambda>a b. el_id b \<le> el_id n \<longrightarrow> el_id a \<le> el_id n) (inorder t)"
    using assms(1) unfolding ids_of_def sorted_wrt_map by (rule sorted_wrt_mono_rel [rotated]) auto
  ultimately show ?thesis using idh.insert_contents_at [of t n "\<lambda>x. el_id x \<le> el_id n" nd]
    by (simp add: ins_after_at)
qed

lemma ins_after_sorted:
  assumes "sorted_wrt (<) (map key zs)" "key x \<notin> set (map key zs)"
  shows "sorted_wrt (<) (map key (ins_after key x zs :: 'b list))"
  using assms
proof (induction zs)
  case (Cons z zs)
  show ?case
  proof (cases "key z \<le> key x")
    case True
    then have "ins_after key x (z # zs) = z # ins_after key x zs" by (simp add: ins_after_def)
    moreover have "key z < key x" using True Cons.prems(2) by (auto simp: order_le_less)
    ultimately show ?thesis using Cons by (simp add: set_ins_after)
  next
    case False
    then have "ins_after key x (z # zs) = x # z # zs" by (simp add: ins_after_def)
    with False Cons.prems show ?thesis by (auto intro: less_trans)
  qed
qed (simp add: ins_after_def)

section \<open>Lookup, insertion and removal\<close>

lemma id_lookup_Some:
  assumes "id_lookup t i = Some (p, e)"
  shows "e \<in> set (inorder t)" "el_id e = i"
proof -
  have "e \<in> set (inorder t) \<and> el_id e = i"
    using assms by (induction t arbitrary: p) (auto split: if_splits)
  then show "e \<in> set (inorder t)" "el_id e = i" by blast+
qed

lemma id_lookup_None:
  "sorted_wrt (<) (ids_of t) \<Longrightarrow> id_lookup t i = None \<Longrightarrow> i \<notin> set (ids_of t)"
proof (induction t)
  case (Node l e d r)
  then have s: "\<forall>x\<in>set (inorder l). el_id x < el_id e" "\<forall>x\<in>set (inorder r). el_id e < el_id x"
    by (auto simp: ids_of_def sorted_wrt_append)
  from Node.prems have "sorted_wrt (<) (ids_of l)" "sorted_wrt (<) (ids_of r)"
    by (auto simp: ids_of_def sorted_wrt_append)
  with Node s show ?case by (fastforce simp: ids_of_def split: if_splits)
qed (simp add: ids_of_def)

lemma id_lookup_iff:
  "sorted_wrt (<) (ids_of t) \<Longrightarrow> id_lookup t i = None \<longleftrightarrow> i \<notin> set (ids_of t)"
  using id_lookup_None [of t i] id_lookup_Some [of t i]
  by (cases "id_lookup t i") (auto simp: ids_of_def)

lemma id_lookup_map:
  assumes "ids_ok s"
  shows "map_option (\<lambda>(p, e). el_obj e) (id_lookup (ids_elements s) i) = ids_map s i"
proof (cases "id_lookup (ids_elements s) i")
  case None
  then have "i \<notin> set (ids_of (ids_elements s))" using assms id_lookup_iff by (auto simp: ids_ok_def)
  then have "ids_map s i = None"
    unfolding ids_map_def map_of_eq_None_iff by (auto simp: ids_of_def)
  with None show ?thesis by simp
next
  case (Some x)
  then obtain p e where e: "id_lookup (ids_elements s) i = Some (p, e)" by (cases x) auto
  have d: "distinct (map el_id (inorder (ids_elements s)))"
    using assms by (simp add: ids_ok_def ids_of_def strict_sorted_iff)
  have "(i, el_obj e) \<in> set (map (\<lambda>e. (el_id e, el_obj e)) (inorder (ids_elements s)))"
    using id_lookup_Some [OF e] by auto
  with d have "ids_map s i = Some (el_obj e)"
    unfolding ids_map_def by (intro map_of_is_SomeI) (simp_all add: comp_def)
  with e show ?thesis by simp
qed

lemma map_of_ins_after:
  assumes "distinct (map el_id (n # xs))"
  shows "map_of (map (\<lambda>e. (el_id e, el_obj e)) (ins_after el_id n xs)) =
    (map_of (map (\<lambda>e. (el_id e, el_obj e)) xs))(el_id n \<mapsto> el_obj n)"
proof -
  define as bs where "as = takeWhile (\<lambda>y. el_id y \<le> el_id n) xs" and "bs = dropWhile (\<lambda>y. el_id y \<le> el_id n) xs"
  then have s: "xs = as @ bs" "ins_after el_id n xs = as @ n # bs" by (simp_all add: ins_after_def)
  have "el_id n \<notin> set (map el_id as)" using assms s by auto
  then have "el_id n \<notin> dom (map_of (map (\<lambda>e. (el_id e, el_obj e)) as))"
    by (auto simp: dom_map_of_conv_image_fst)
  then have "map_of (map (\<lambda>e. (el_id e, el_obj e)) (as @ n # bs)) =
      (map_of (map (\<lambda>e. (el_id e, el_obj e)) (as @ bs)))(el_id n \<mapsto> el_obj n)"
    by (simp add: map_add_upd_left)
  with s show ?thesis by simp
qed

lemma id_insert_map:
  assumes "ids_ok s" "i \<notin> set (ids_of (ids_elements s))"
  shows "ids_ok (s\<lparr> ids_cnt := c, ids_elements := avl_insert id_policy \<lparr> el_id = i, el_obj = ob \<rparr> 1 (ids_elements s) \<rparr>)"
    "ids_map (s\<lparr> ids_cnt := c, ids_elements := avl_insert id_policy \<lparr> el_id = i, el_obj = ob \<rparr> 1 (ids_elements s) \<rparr>) =
      (ids_map s)(i \<mapsto> ob)"
proof -
  let ?n = "\<lparr> el_id = i, el_obj = ob \<rparr>" and ?t = "ids_elements s"
  have io: "inorder (avl_insert id_policy ?n 1 ?t) = ins_after el_id ?n (inorder ?t)"
    using assms by (intro id_insert_contents) (simp_all add: ids_ok_def)
  have "sorted_wrt (<) (map el_id (inorder ?t))" using assms(1) by (simp add: ids_ok_def ids_of_def)
  moreover have "el_id ?n \<notin> set (map el_id (inorder ?t))" using assms(2) by (simp add: ids_of_def)
  ultimately show "ids_ok (s\<lparr> ids_cnt := c, ids_elements := avl_insert id_policy ?n 1 ?t \<rparr>)"
    using ins_after_sorted [of el_id "inorder ?t" ?n] by (simp add: ids_ok_def ids_of_def io del: set_map One_nat_def)
  have "distinct (map el_id (?n # inorder ?t))"
    using assms by (simp add: ids_ok_def ids_of_def strict_sorted_iff)
  then show "ids_map (s\<lparr> ids_cnt := c, ids_elements := avl_insert id_policy ?n 1 ?t \<rparr>) = (ids_map s)(i \<mapsto> ob)"
    using map_of_ins_after [of ?n "inorder ?t"] by (simp add: ids_map_def io del: One_nat_def)
qed

text \<open>A fresh ID is found unless more IDs are in use than attempts are made.\<close>

lemma unused_id_result:
  "unused_id n t cnt = (r, cnt') \<Longrightarrow>
     (case r of Inr i \<Rightarrow> id_lookup t i = None \<and> cnt' = i
      | Inl e \<Rightarrow> e = Out_of_ids \<and> (\<forall>k<n. id_lookup t (cnt + of_nat k) \<noteq> None))"
proof (induction n arbitrary: cnt)
  case (Suc n)
  show ?case
  proof (cases "id_lookup t cnt = None")
    case True
    with Suc.prems show ?thesis by auto
  next
    case False
    with Suc.prems have "unused_id n t (cnt + 1) = (r, cnt')" by simp
    from Suc.IH [OF this] False show ?thesis
      by (auto split: sum.splits simp: less_Suc_eq_0_disj algebra_simps)
  qed
qed auto

lemma unused_id_total:
  assumes "sorted_wrt (<) (ids_of t)" "length (inorder t) < n" "n \<le> 2 ^ 64"
  shows "\<exists>i. unused_id n t cnt = (Inr i, i)"
proof -
  obtain r cnt' where u: "unused_id n t cnt = (r, cnt')" by fastforce
  show ?thesis
  proof (cases r)
    case (Inl e)
    with unused_id_result [OF u] have "cnt + of_nat k \<in> set (ids_of t)" if "k < n" for k
      using that id_lookup_iff [OF assms(1)] by auto
    then have sub: "(\<lambda>k. cnt + of_nat k) ` {..<n} \<subseteq> set (ids_of t)" by auto
    have "inj_on (\<lambda>k. cnt + of_nat k :: addr) {..<n}"
    proof (rule inj_onI)
      fix a b assume "a \<in> {..<n}" "b \<in> {..<n}" "cnt + of_nat a = cnt + (of_nat b :: addr)"
      then have "unat (of_nat a :: addr) = unat (of_nat b :: addr)" "a < 2 ^ 64" "b < 2 ^ 64" using assms(3) by auto
      then show "a = b" by (simp add: unat_of_nat take_bit_nat_eq_self)
    qed
    then have "n = card ((\<lambda>k. cnt + of_nat k) ` {..<n})" by (simp add: card_image)
    also have "\<dots> \<le> card (set (ids_of t))" using sub by (intro card_mono) simp_all
    also have "\<dots> \<le> length (inorder t)" unfolding ids_of_def by (rule order_trans [OF card_length]) simp
    finally show ?thesis using assms(2) by simp
  next
    case (Inr i)
    with unused_id_result [OF u] u show ?thesis by auto
  qed
qed

lemma id_destruct_map:
  assumes ok: "ids_ok s" and l: "id_lookup (ids_elements s) i = Some (p, e)"
    and f: "focus p (ids_elements s) [] = (Node a x d b, fs)"
    and x: "x = e"
  shows "ids_ok (id_destruct p s)" "ids_map (id_destruct p s) = (ids_map s)(i := None)"
proof -
  let ?t = "ids_elements s" and ?xs = "before fs @ inorder a" and ?ys = "inorder b @ behind fs"
  have io: "inorder ?t = ?xs @ x # ?ys" "inorder (avl_remove id_policy p ?t) = ?xs @ ?ys"
    using idh.remove_contents [OF f] by simp_all
  have i: "el_id x = i" using id_lookup_Some [OF l] x by simp
  show "ids_ok (id_destruct p s)"
    using ok by (simp add: ids_ok_def ids_of_def id_destruct_def io sorted_wrt_append)
  have "distinct (map el_id (?xs @ x # ?ys))"
    using ok io(1) by (simp add: ids_ok_def ids_of_def strict_sorted_iff del: map_append)
  then have "map_of (map (\<lambda>e. (el_id e, el_obj e)) ?xs) i = None" "map_of (map (\<lambda>e. (el_id e, el_obj e)) ?ys) i = None"
    using i by (auto simp: map_of_eq_None_iff image_iff)
  then show "ids_map (id_destruct p s) = (ids_map s)(i := None)"
    using i by (auto simp: ids_map_def id_destruct_def io fun_eq_iff map_add_def split: option.splits)
qed

lemma id_lookup_focus:
  "id_lookup t i = Some (p, e) \<Longrightarrow> \<exists>a d b gs. focus p t fs = (Node a e d b, gs)"
  by (induction t arbitrary: p fs) (auto split: if_splits)


section \<open>Properties\<close>

text \<open>
  An ID space is a map from IDs to objects: a new element gets an ID that nobody uses, or exactly the ID
  it asks for, or is refused because that ID is taken; a fresh ID is always found as long as fewer than
  all but one of the IDs are in use.
\<close>

theorem id_space_construct:
  assumes "ids_ok s" "length (inorder (ids_elements s)) < 2 ^ 64 - 1"
  shows "(\<exists>i s'. id_construct ob s = (Inr i, s') \<and> ids_ok s' \<and> ids_map s i = None \<and> ids_map s' = (ids_map s)(i \<mapsto> ob)) \<and>
    (case id_construct_at ob i s of
       (Inr i', s') \<Rightarrow> i' = i \<and> ids_ok s' \<and> ids_map s i = None \<and> ids_map s' = (ids_map s)(i \<mapsto> ob)
     | (Inl e, s') \<Rightarrow> e = Conflicting_id \<and> s' = s \<and> ids_map s i \<noteq> None)"
proof
  have s: "sorted_wrt (<) (ids_of (ids_elements s))" using assms(1) by (simp add: ids_ok_def)
  have m: "ids_map s j = None \<longleftrightarrow> j \<notin> set (ids_of (ids_elements s))" for j
    using id_lookup_map [OF assms(1), of j] id_lookup_iff [OF s, of j] by (metis map_option_is_None)
  obtain j where u: "unused_id ID_ATTEMPTS (ids_elements s) (ids_cnt s) = (Inr j, j)"
    using unused_id_total [OF s, of ID_ATTEMPTS] assms(2) by (auto simp: ID_ATTEMPTS_def)
  have "j \<notin> set (ids_of (ids_elements s))" using unused_id_result [OF u] id_lookup_iff [OF s] by simp
  with u id_insert_map [OF assms(1) this] m
  show "\<exists>i s'. id_construct ob s = (Inr i, s') \<and> ids_ok s' \<and> ids_map s i = None \<and> ids_map s' = (ids_map s)(i \<mapsto> ob)"
    by (simp add: id_construct_def)
  show "case id_construct_at ob i s of
       (Inr i', s') \<Rightarrow> i' = i \<and> ids_ok s' \<and> ids_map s i = None \<and> ids_map s' = (ids_map s)(i \<mapsto> ob)
     | (Inl e, s') \<Rightarrow> e = Conflicting_id \<and> s' = s \<and> ids_map s i \<noteq> None"
    using id_insert_map [OF assms(1), of i, where c = "ids_cnt s" and ob = ob] m [of i] id_lookup_iff [OF s, of i]
    by (auto simp: id_construct_at_def ids_ok_def ids_map_def)
qed

theorem id_space_construct_witness:
  "\<exists>s'. id_construct_at CHR ''a'' 7 (ids_new :: char id_space) = (Inr 7, s') \<and> ids_map s' 7 = Some CHR ''a''"
proof -
  have "ids_ok (ids_new :: char id_space)" "length (inorder (ids_elements (ids_new :: char id_space))) < 2 ^ 64 - 1"
    by (simp_all add: ids_ok_def ids_new_def ids_of_def)
  from id_space_construct [OF this, of "CHR ''a''" 7] show ?thesis
    by (auto simp: ids_map_def ids_new_def split: prod.splits sum.splits)
qed

text \<open>
  \<open>apply\<close> hands the object of an ID to the functor or reports an unknown ID, and destroying the element of
  an ID removes exactly this ID.
\<close>

theorem id_space_apply_destruct:
  assumes "ids_ok s"
  shows "ids_apply i fn s = (case ids_map s i of None \<Rightarrow> Inl Unknown_id | Some ob \<Rightarrow> Inr (fn ob)) \<and>
    (case id_lookup (ids_elements s) i of None \<Rightarrow> ids_map s i = None
     | Some (p, e) \<Rightarrow> ids_ok (id_destruct p s) \<and> ids_map (id_destruct p s) = (ids_map s)(i := None))"
proof
  note m = id_lookup_map [OF assms, of i]
  show "ids_apply i fn s = (case ids_map s i of None \<Rightarrow> Inl Unknown_id | Some ob \<Rightarrow> Inr (fn ob))"
    unfolding m [symmetric] by (cases "ids_elements s") (auto simp: ids_apply_def split: option.splits)
  show "case id_lookup (ids_elements s) i of None \<Rightarrow> ids_map s i = None
     | Some (p, e) \<Rightarrow> ids_ok (id_destruct p s) \<and> ids_map (id_destruct p s) = (ids_map s)(i := None)"
  proof (cases "id_lookup (ids_elements s) i")
    case None
    with m show ?thesis by simp
  next
    case (Some y)
    then obtain p e where l: "id_lookup (ids_elements s) i = Some (p, e)" by (cases y) auto
    obtain a d b fs where f: "focus p (ids_elements s) [] = (Node a e d b, fs)"
      using id_lookup_focus [OF l] by blast
    from id_destruct_map [OF assms l f refl] l show ?thesis by simp
  qed
qed

theorem id_space_apply_destruct_witness:
  "ids_apply 3 (\<lambda>x. x) (ids_new :: char id_space) = Inl Unknown_id"
proof -
  have "ids_ok (ids_new :: char id_space)" by (simp add: ids_ok_def ids_new_def ids_of_def)
  from id_space_apply_destruct [OF this, of 3 "\<lambda>x. x"] show ?thesis by (simp add: ids_map_def ids_new_def)
qed

end
