(* ===== verification/Registry.thy ===== *)
theory Registry
  imports Linked_Lists
begin

text \<open>
  The registry of objects, \<open>base/include/base/registry.h\<close> and \<open>base/src/lib/base/registry.cc\<close>, on the level
  of the links of its list.  \<open>for_each\<close> moves the elements one by one from the list of the registry to a
  local list of processed elements; both lists use the link embedded in the element.  The functor is a
  parameter: it changes the state of its caller, and reports whether the element still exists afterwards
  (\<open>keep\<close>) and whether it threw an exception.  The locks make the operations of other threads wait.
\<close>

type_synonym 'a registry = "'a slist"
type_synonym ('a, 's) functor_result = "(bool \<times> bool) \<times> 's"

definition rg_insert :: "'a \<Rightarrow> 'a registry \<Rightarrow> 'a registry" where
  "rg_insert e r = sl_insert e None r"

definition rg_remove :: "'a \<Rightarrow> 'a registry \<Rightarrow> 'a registry option" where
  "rg_remove e r = sl_remove e r"

text \<open>\<open>_processed\<close>: the list of processed elements, the links, and the next insert position.\<close>

definition rg_processed :: "bool \<Rightarrow> 'a option \<Rightarrow> ('a \<Rightarrow> 'a option) \<Rightarrow> 'a \<Rightarrow> 'a option \<Rightarrow> 'a slist \<times> 'a option" where
  "rg_processed keep pf nxt e at =
     (if \<not> keep then (\<lparr> sl_first = pf, sl_next = nxt \<rparr>, at)
      else (sl_insert e at \<lparr> sl_first = pf, sl_next = nxt \<rparr>, Some e))"

text \<open>The result is whether an exception is passed on, the registry, and the state of the caller.\<close>

partial_function (option) rg_loop ::
    "('a \<Rightarrow> 's \<Rightarrow> (bool \<times> bool) \<times> 's) \<Rightarrow> 'a option \<Rightarrow> 'a option \<Rightarrow> 'a registry \<Rightarrow> 's \<Rightarrow> (bool \<times> 'a registry \<times> 's) option" where
  "rg_loop f pf at r s =
     (case sl_first r of
        None \<Rightarrow> Some (False, r\<lparr> sl_first := pf \<rparr>, s)
      | Some e \<Rightarrow>
          (case sl_remove e r of
             None \<Rightarrow> None
           | Some r1 \<Rightarrow>
               (let ((keep, throw), s1) = f e s;
                    (pr, at1) = rg_processed keep pf (sl_next r1) e at;
                    r2 = r1\<lparr> sl_next := sl_next pr \<rparr>
                in if throw then Some (True, r2, s1) else rg_loop f (sl_first pr) at1 r2 s1)))"

definition rg_for_each ::
    "('a \<Rightarrow> 's \<Rightarrow> (bool \<times> bool) \<times> 's) \<Rightarrow> 'a registry \<Rightarrow> 's \<Rightarrow> (bool \<times> 'a registry \<times> 's) option" where
  "rg_for_each f r s = rg_loop f None None r s"

text \<open>The read-only variant.\<close>

partial_function (option) rg_for_each_const :: "('a \<Rightarrow> 's \<Rightarrow> 's) \<Rightarrow> 'a registry \<Rightarrow> 'a option \<Rightarrow> 's \<Rightarrow> 's option" where
  "rg_for_each_const f r e s =
     (case e of None \<Rightarrow> Some s | Some x \<Rightarrow> rg_for_each_const f r (sl_next r x) (f x s))"

declare rg_loop.simps [code] rg_for_each_const.simps [code]


section \<open>What a pass over the registry does\<close>

text \<open>The reference: call the functor on the elements in order and drop those that cease to exist.\<close>

fun pass :: "('a \<Rightarrow> 's \<Rightarrow> (bool \<times> bool) \<times> 's) \<Rightarrow> 'a list \<Rightarrow> 's \<Rightarrow> 'a list \<times> 's" where
  "pass f [] s = ([], s)"
| "pass f (x # xs) s =
     (let ((keep, throw), s1) = f x s; (ys, s2) = pass f xs s1 in (if keep then x # ys else ys, s2))"

definition link_inv :: "'a registry \<Rightarrow> 'a list \<Rightarrow> 'a option \<Rightarrow> 'a option \<Rightarrow> 'a list \<Rightarrow> bool" where
  "link_inv r xs pf at dn \<longleftrightarrow> distinct (dn @ xs) \<and> chain (sl_next r) (sl_first r) xs None \<and>
     chain (sl_next r) pf dn None \<and> at = (if dn = [] then None else Some (last dn))"

lemma chain_snoc_upd:
  assumes "chain nxt pf (zs @ [z]) None" "distinct (zs @ [z])" "e \<notin> set (zs @ [z])"
  shows "chain (nxt(e := None, z := Some e)) pf (zs @ [z, e]) None"
  using assms by (auto simp: chain_append)

lemma processed_inv:
  assumes inv: "link_inv r (e # xs) pf at dn" and r1: "sl_remove e r = Some r1"
    and p: "rg_processed keep pf (sl_next r1) e at = (pr, at1)"
  shows "link_inv (r1\<lparr> sl_next := sl_next pr \<rparr>) xs (sl_first pr) at1 (if keep then dn @ [e] else dn)"
proof -
  have d: "distinct (dn @ e # xs)" and c: "sl_first r = Some e" "chain (sl_next r) (sl_next r e) xs None"
    "chain (sl_next r) pf dn None" and at: "at = (if dn = [] then None else Some (last dn))"
    using inv by (auto simp: link_inv_def)
  have r1': "r1 = r\<lparr> sl_first := sl_next r e, sl_next := (sl_next r)(e := None) \<rparr>"
    using r1 c(1) by (simp add: sl_remove_def Let_def)
  show ?thesis
  proof (cases keep)
    case False
    with p have "pr = \<lparr> sl_first = pf, sl_next = sl_next r1 \<rparr>" "at1 = at" by (simp_all add: rg_processed_def)
    with False d c at r1' show ?thesis by (auto simp: link_inv_def)
  next
    case True
    with p have pr: "pr = sl_insert e at \<lparr> sl_first = pf, sl_next = sl_next r1 \<rparr>" "at1 = Some e"
      by (simp_all add: rg_processed_def)
    show ?thesis
    proof (cases dn rule: rev_cases)
      case Nil
      with True d c at pr r1' show ?thesis by (auto simp: link_inv_def sl_insert_def)
    next
      case (snoc zs z)
      then have nxt: "sl_next pr = (sl_next r)(e := None, z := Some e)" "sl_first pr = pf"
        using at pr r1' c(3) d by (auto simp: sl_insert_def chain_append fun_eq_iff Let_def)
      have "chain (sl_next pr) pf (zs @ [z, e]) None"
        unfolding nxt using c(3) d snoc by (intro chain_snoc_upd) auto
      with True d c at nxt pr r1' snoc show ?thesis by (auto simp: link_inv_def)
    qed
  qed
qed

lemma rg_loop_pass:
  assumes "link_inv r xs pf at dn" "\<forall>x s. \<not> snd (fst (f x s))"
  shows "\<exists>r'. rg_loop f pf at r s = Some (False, r', snd (pass f xs s)) \<and>
    sl_rep r' (dn @ fst (pass f xs s))"
  using assms(1)
proof (induction xs arbitrary: r pf at "dn" s)
  case Nil
  then show ?case by (subst rg_loop.simps) (auto simp: link_inv_def sl_rep_def)
next
  case (Cons x xs)
  have "sl_rep r (x # xs)" using Cons.prems by (auto simp: link_inv_def sl_rep_def)
  then obtain r1 where r1: "sl_remove x r = Some r1" using sl_remove_member [of r "[]" x xs] by auto
  obtain keep throw s1 where f: "f x s = ((keep, throw), s1)" by (metis surj_pair)
  then have "\<not> throw" using assms(2) by (metis fst_conv snd_conv)
  obtain pr at1 where p: "rg_processed keep pf (sl_next r1) x at = (pr, at1)" by fastforce
  have "sl_first r = Some x" using Cons.prems by (simp add: link_inv_def)
  with r1 f p \<open>\<not> throw\<close> have "rg_loop f pf at r s = rg_loop f (sl_first pr) at1 (r1\<lparr> sl_next := sl_next pr \<rparr>) s1"
    by (subst rg_loop.simps) (simp add: Let_def)
  with Cons.IH [OF processed_inv [OF Cons.prems r1 p], of s1] f show ?case
    by (cases keep) (auto simp: Let_def split_beta)
qed

text \<open>
  Unless the functor throws, \<open>for_each\<close> returns, has called the functor once for every element, in the order
  of the list, and leaves exactly the elements that still exist, in the same order, even though elements
  destroy themselves during the pass.
\<close>

theorem registry_for_each_correct:
  assumes "sl_rep r xs" "\<forall>x s. \<not> snd (fst (f x s))"
  shows "\<exists>r'. rg_for_each f r s = Some (False, r', snd (pass f xs s)) \<and> sl_rep r' (fst (pass f xs s))"
proof -
  have "link_inv r xs None None []" using assms(1) by (auto simp: link_inv_def sl_rep_def)
  from rg_loop_pass [OF this assms(2)] show ?thesis by (simp add: rg_for_each_def)
qed

definition three :: "nat registry" where
  "three = rg_insert 1 (rg_insert 2 (rg_insert 3 sl_empty))"

lemma three_rep: "sl_rep three [1, 2, 3]"
  by (simp add: three_def rg_insert_def sl_insert_def sl_empty_def sl_rep_def)

theorem registry_for_each_correct_witness:
  "\<exists>r'. rg_for_each (\<lambda>x s. ((x \<noteq> 2, False), s + x)) three 0 = Some (False, r', 6) \<and> sl_rep r' [1, 3]"
  using registry_for_each_correct [OF three_rep, of "\<lambda>x s. ((x \<noteq> 2, False), s + x)" 0] by (simp add: Let_def)

text \<open>
  If the functor throws, the elements that were processed before are lost: the local list goes out of scope and
  the registry keeps only the elements that were not reached.
\<close>

lemma registry_exception_loses_elements:
  "\<exists>r'. rg_for_each (\<lambda>x s. ((True, x = 2), s)) three (0 :: nat) = Some (True, r', 0) \<and> sl_rep r' [3]"
proof -
  let ?f = "\<lambda>x (s :: nat). ((True, x = (2 :: nat)), s)"
  define r1 where "r1 = \<lparr> sl_first = Some (2 :: nat), sl_next = (\<lambda>x. if x = 1 then None else if x = 2 then Some 3 else None) \<rparr>"
  have t: "three = \<lparr> sl_first = Some 1, sl_next = (\<lambda>x. if x = 1 then Some 2 else if x = 2 then Some 3 else None) \<rparr>"
    by (auto simp: three_def rg_insert_def sl_insert_def sl_empty_def fun_eq_iff)
  have "sl_remove 1 three = Some r1"
    by (auto simp: t r1_def sl_remove_def fun_eq_iff)
  then have "rg_for_each ?f three 0 = rg_loop ?f (Some 1) (Some 1) r1 0"
    unfolding rg_for_each_def
    by (subst rg_loop.simps) (simp add: t rg_processed_def sl_insert_def r1_def fun_upd_def cong: if_cong)
  also have "\<dots> = Some (True, \<lparr> sl_first = Some 3, sl_next = (\<lambda>x. if x = 1 then Some 2 else None) \<rparr>, 0)"
    by (subst rg_loop.simps) (auto simp: r1_def sl_remove_def rg_processed_def sl_insert_def fun_eq_iff)
  finally show ?thesis by (simp add: sl_rep_def)
qed

end
