(* ===== verification/Ring_Buffer.thy ===== *)
theory Ring_Buffer
  imports Genode_Prelude
begin

text \<open>
  The ring buffer of \<open>os/include/os/ring_buffer.h\<close>.  \<open>QUEUE_SIZE\<close> is the length of the slot list.  The
  synchronisation policy is a flag: with it, \<open>get\<close> first waits for the semaphore that counts the elements,
  which is the result \<open>None\<close> if the count is not positive; without it, \<open>get\<close> never waits.
\<close>

record 'e ring =
  rb_head :: nat
  rb_tail :: nat
  rb_sem :: int
  rb_queue :: "'e list"

definition rb_new :: "nat \<Rightarrow> 'e \<Rightarrow> 'e ring" where
  "rb_new n d = \<lparr> rb_head = 0, rb_tail = 0, rb_sem = 0, rb_queue = replicate n d \<rparr>"

abbreviation rb_size :: "'e ring \<Rightarrow> nat" where
  "rb_size r \<equiv> length (rb_queue r)"

text \<open>\<open>add\<close> throws \<open>Overflow\<close>, the flag of the result.\<close>

definition rb_add :: "'e \<Rightarrow> 'e ring \<Rightarrow> bool \<times> 'e ring" where
  "rb_add ev r =
     (if (rb_head r + 1) mod rb_size r \<noteq> rb_tail r then
        (let r1 = r\<lparr> rb_queue := (rb_queue r)[rb_head r := ev] \<rparr>;
             r2 = r1\<lparr> rb_head := (rb_head r1 + 1) mod rb_size r1 \<rparr>
         in (False, r2\<lparr> rb_sem := rb_sem r2 + 1 \<rparr>))
      else (True, r))"

definition rb_get :: "bool \<Rightarrow> 'e ring \<Rightarrow> ('e \<times> 'e ring) option" where
  "rb_get sync r =
     (if sync \<and> rb_sem r \<le> 0 then None
      else
        (let r1 = (if sync then r\<lparr> rb_sem := rb_sem r - 1 \<rparr> else r);
             e = rb_queue r1 ! rb_tail r1
         in Some (e, r1\<lparr> rb_tail := (rb_tail r1 + 1) mod rb_size r1 \<rparr>)))"

definition rb_empty :: "'e ring \<Rightarrow> bool" where
  "rb_empty r \<longleftrightarrow> rb_tail r = rb_head r"

definition rb_avail_capacity :: "'e ring \<Rightarrow> int" where
  "rb_avail_capacity r =
     (if rb_head r \<ge> rb_tail r then int (rb_size r) - int (rb_head r) + int (rb_tail r) - 1
      else int (rb_tail r) - int (rb_head r) - 1)"

definition rb_reset :: "'e ring \<Rightarrow> 'e ring" where
  "rb_reset r = r\<lparr> rb_head := rb_tail r \<rparr>"


section \<open>The queue a ring buffer stands for\<close>

definition rb_count :: "'e ring \<Rightarrow> nat" where
  "rb_count r = (if rb_head r \<ge> rb_tail r then rb_head r - rb_tail r else rb_size r - rb_tail r + rb_head r)"

definition rb_contents :: "'e ring \<Rightarrow> 'e list" where
  "rb_contents r = map (\<lambda>i. rb_queue r ! ((rb_tail r + i) mod rb_size r)) [0..<rb_count r]"

definition rb_ok :: "'e ring \<Rightarrow> bool" where
  "rb_ok r \<longleftrightarrow> rb_head r < rb_size r \<and> rb_tail r < rb_size r"

lemma rb_new_ok: "0 < n \<Longrightarrow> rb_ok (rb_new n d) \<and> rb_contents (rb_new n d) = []"
  by (simp add: rb_ok_def rb_new_def rb_contents_def rb_count_def)

lemma slot_of: "rb_ok r \<Longrightarrow> i < rb_count r \<Longrightarrow> (rb_tail r + i) mod rb_size r \<noteq> rb_head r"
proof -
  assume ok: "rb_ok r" and i: "i < rb_count r"
  show ?thesis
  proof (cases "rb_tail r + i < rb_size r")
    case True
    with ok i show ?thesis by (auto simp: rb_ok_def rb_count_def split: if_splits)
  next
    case False
    with ok i have "(rb_tail r + i) mod rb_size r = rb_tail r + i - rb_size r"
      by (auto simp: rb_ok_def rb_count_def le_mod_geq split: if_splits)
    with ok i False show ?thesis by (auto simp: rb_ok_def rb_count_def split: if_splits)
  qed
qed

lemma rb_count_bound: "rb_ok r \<Longrightarrow> rb_count r < rb_size r"
  by (auto simp: rb_ok_def rb_count_def split: if_splits)

lemma rb_full_iff: "rb_ok r \<Longrightarrow> (rb_head r + 1) mod rb_size r = rb_tail r \<longleftrightarrow> rb_count r = rb_size r - 1"
  by (auto simp: rb_ok_def rb_count_def mod_if split: if_splits)

lemma rb_add_contents:
  assumes ok: "rb_ok r" and room: "rb_count r < rb_size r - 1"
  shows "\<exists>r'. rb_add ev r = (False, r') \<and> rb_ok r' \<and> rb_contents r' = rb_contents r @ [ev] \<and> rb_sem r' = rb_sem r + 1"
proof -
  define r' where "r' = r\<lparr> rb_queue := (rb_queue r)[rb_head r := ev], rb_head := (rb_head r + 1) mod rb_size r, rb_sem := rb_sem r + 1 \<rparr>"
  have nf: "(rb_head r + 1) mod rb_size r \<noteq> rb_tail r" using rb_full_iff [OF ok] room by simp
  then have add: "rb_add ev r = (False, r')" by (simp add: rb_add_def r'_def Let_def)
  have sz: "rb_size r' = rb_size r" by (simp add: r'_def)
  have "0 < rb_size r" using ok by (auto simp: rb_ok_def)
  then have ok': "rb_ok r'" using ok by (simp add: rb_ok_def r'_def)
  have cnt: "rb_count r' = Suc (rb_count r)"
    using ok nf by (auto simp: rb_count_def r'_def rb_ok_def mod_if split: if_splits)
  have last: "(rb_tail r + rb_count r) mod rb_size r = rb_head r"
    using ok by (auto simp: rb_ok_def rb_count_def mod_if)
  have "rb_queue r' ! ((rb_tail r' + i) mod rb_size r') = rb_queue r ! ((rb_tail r + i) mod rb_size r)"
    if "i < rb_count r" for i
    using slot_of [OF ok that] by (simp add: r'_def)
  then have "map (\<lambda>i. rb_queue r' ! ((rb_tail r' + i) mod rb_size r')) [0..<rb_count r] = rb_contents r"
    by (simp add: rb_contents_def)
  moreover have "rb_queue r' ! ((rb_tail r' + rb_count r) mod rb_size r') = ev"
    using last ok by (simp add: r'_def rb_ok_def)
  ultimately have "rb_contents r' = rb_contents r @ [ev]" by (simp add: rb_contents_def cnt)
  with add ok' show ?thesis by (simp add: r'_def)
qed

lemma rb_get_contents:
  assumes ok: "rb_ok r" and c: "rb_contents r = e # es" and s: "sync \<longrightarrow> 0 < rb_sem r"
  shows "\<exists>r'. rb_get sync r = Some (e, r') \<and> rb_ok r' \<and> rb_contents r' = es \<and>
    rb_sem r' = (if sync then rb_sem r - 1 else rb_sem r)"
proof -
  define r' where "r' = r\<lparr> rb_sem := (if sync then rb_sem r - 1 else rb_sem r), rb_tail := (rb_tail r + 1) mod rb_size r \<rparr>"
  have pos: "0 < rb_count r" using c by (auto simp: rb_contents_def intro: ccontr)
  have sz: "0 < rb_size r" using ok by (auto simp: rb_ok_def)
  have e: "rb_queue r ! rb_tail r = e" using c pos ok by (auto simp: rb_contents_def rb_ok_def upt_conv_Cons)
  then have get: "rb_get sync r = Some (e, r')" using s by (auto simp: rb_get_def r'_def Let_def)
  have ok': "rb_ok r'" using ok sz by (simp add: rb_ok_def r'_def)
  have cnt: "rb_count r = Suc (rb_count r')"
    using ok pos by (auto simp: rb_count_def r'_def rb_ok_def mod_if split: if_splits)
  have "rb_contents r = rb_queue r ! rb_tail r # map (\<lambda>i. rb_queue r ! ((rb_tail r + Suc i) mod rb_size r)) [0..<rb_count r']"
    using ok unfolding rb_contents_def cnt by (simp add: upt_conv_Cons map_Suc_upt [symmetric] comp_def rb_ok_def del: upt_Suc)
  moreover have "(rb_tail r + Suc i) mod rb_size r = ((rb_tail r + 1) mod rb_size r + i) mod rb_size r" for i
    by (simp add: mod_simps)
  then have "map (\<lambda>i. rb_queue r ! ((rb_tail r + Suc i) mod rb_size r)) [0..<rb_count r'] = rb_contents r'"
    by (simp add: rb_contents_def r'_def)
  ultimately have "rb_contents r' = es" using c by simp
  with get ok' show ?thesis by (simp add: r'_def)
qed

lemma rb_capacity: "rb_ok r \<Longrightarrow> rb_avail_capacity r = int (rb_size r - 1 - rb_count r)"
  by (auto simp: rb_avail_capacity_def rb_count_def rb_ok_def)

lemma rb_empty_iff: "rb_ok r \<Longrightarrow> rb_empty r \<longleftrightarrow> rb_contents r = []"
  by (auto simp: rb_empty_def rb_contents_def rb_count_def rb_ok_def)

text \<open>
  A ring buffer is a bounded queue: \<open>add\<close> appends the element, or throws exactly if \<open>QUEUE_SIZE - 1\<close> elements are
  stored and then changes nothing; \<open>get\<close> takes the oldest element; the semaphore counts the elements.
\<close>

theorem ring_buffer_refines:
  assumes "rb_ok r" "rb_sem r = int (length (rb_contents r))"
  shows "(case rb_add ev r of
       (False, r') \<Rightarrow> rb_ok r' \<and> rb_contents r' = rb_contents r @ [ev] \<and> rb_sem r' = int (length (rb_contents r'))
     | (True, r') \<Rightarrow> r' = r \<and> length (rb_contents r) = rb_size r - 1) \<and>
    (case rb_get True r of
       None \<Rightarrow> rb_contents r = []
     | Some (e, r') \<Rightarrow> rb_ok r' \<and> rb_contents r = e # rb_contents r' \<and> rb_sem r' = int (length (rb_contents r')))"
proof
  have len: "length (rb_contents r) = rb_count r" by (simp add: rb_contents_def)
  show "case rb_add ev r of
       (False, r') \<Rightarrow> rb_ok r' \<and> rb_contents r' = rb_contents r @ [ev] \<and> rb_sem r' = int (length (rb_contents r'))
     | (True, r') \<Rightarrow> r' = r \<and> length (rb_contents r) = rb_size r - 1"
  proof (cases "rb_count r < rb_size r - 1")
    case True
    with rb_add_contents [OF assms(1) True, of ev] assms(2) show ?thesis by auto
  next
    case False
    then have "rb_count r = rb_size r - 1" using rb_count_bound [OF assms(1)] by simp
    with rb_full_iff [OF assms(1)] len show ?thesis by (simp add: rb_add_def)
  qed
  show "case rb_get True r of
       None \<Rightarrow> rb_contents r = []
     | Some (e, r') \<Rightarrow> rb_ok r' \<and> rb_contents r = e # rb_contents r' \<and> rb_sem r' = int (length (rb_contents r'))"
  proof (cases "rb_contents r")
    case Nil
    with assms(2) show ?thesis by (simp add: rb_get_def)
  next
    case (Cons e es)
    with rb_get_contents [OF assms(1) Cons, of True] assms(2) show ?thesis by auto
  qed
qed

theorem ring_buffer_refines_witness:
  "\<exists>r'. rb_add CHR ''x'' (rb_new 4 CHR ''-'') = (False, r') \<and> rb_contents r' = ''x''"
proof -
  have "rb_ok (rb_new 4 CHR ''-'')" "rb_sem (rb_new 4 CHR ''-'') = int (length (rb_contents (rb_new 4 CHR ''-'')))"
    using rb_new_ok [of 4 "CHR ''-''"] by (simp_all add: rb_new_def)
  from ring_buffer_refines [OF this, of "CHR ''x''"] rb_new_ok [of 4 "CHR ''-''"] show ?thesis
    by (auto simp: rb_add_def rb_new_def)
qed

text \<open>
  \<open>reset\<close> discards the elements but not the count of the semaphore: afterwards a synchronised \<open>get\<close> does not block
  on the empty buffer, returns a discarded element and leaves the buffer in a state that looks full.
\<close>

lemma ring_reset_keeps_count:
  "let r = rb_reset (snd (rb_add CHR ''x'' (rb_new 4 CHR ''-''))) in
   rb_empty r \<and> (\<exists>r'. rb_get True r = Some (CHR ''x'', r') \<and> \<not> rb_empty r' \<and> rb_avail_capacity r' = 0)"
  by (simp add: rb_new_def rb_add_def rb_reset_def rb_empty_def rb_get_def rb_avail_capacity_def Let_def)

end
