(* ===== verification/Memory_Strings.thy ===== *)
theory Memory_Strings
  imports Genode_Prelude "HOL-Library.Monad_Syntax"
begin

text \<open>
  The memory and string functions of \<open>base/include/util/string.h\<close>.  A pointer that is only
  read is the suffix of the buffer it points to, a buffer that is written is a list with an
  index.  \<open>None\<close> stands for an access outside of the buffer.
\<close>

section \<open>Accesses to a buffer\<close>

definition peek :: "'a list \<Rightarrow> nat \<Rightarrow> 'a option" where
  "peek mem i = (if i < length mem then Some (mem ! i) else None)"

definition put :: "'a list \<Rightarrow> nat \<Rightarrow> 'a \<Rightarrow> 'a list option" where
  "put mem i c = (if i < length mem then Some (mem[i := c]) else None)"

text \<open>The \<open>char\<close> of the ABI is signed, which shows in the difference of two characters.\<close>

definition schar :: "char \<Rightarrow> int" where
  "schar c = (let n = of_char c in if n < 128 then n else n - 256)"

lemma schar_eq_iff [simp]: "schar a = schar b \<longleftrightarrow> a = b"
proof
  assume e: "schar a = schar b"
  have r: "(0::int) \<le> of_char x \<and> of_char x < (256::int)" for x :: char
    by (metis of_char_mod_256 pos_mod_bound pos_mod_sign zero_less_numeral)
  have "(of_char a :: int) = of_char b"
    using e r [of a] r [of b] by (auto simp: schar_def Let_def split: if_splits)
  then show "a = b" by simp
qed simp

lemma schar_NUL [simp]: "schar NUL = 0"
  by (simp add: schar_def)

lemma schar_0_iff [simp]: "schar c = 0 \<longleftrightarrow> c = NUL" "0 = schar c \<longleftrightarrow> c = NUL"
  using schar_eq_iff [of c NUL] by auto


section \<open>Null-terminated strings\<close>

fun strlen :: "char list \<Rightarrow> nat option" where
  "strlen [] = None"
| "strlen (c # s) = (if c = NUL then Some 0 else map_option Suc (strlen s))"

fun strcmp_n :: "char list \<Rightarrow> char list \<Rightarrow> nat \<Rightarrow> int option" where
  "strcmp_n [] t len = None"
| "strcmp_n (a # s) [] len = (if a = NUL \<and> len = 0 then Some 0 else None)"
| "strcmp_n (a # s) (b # t) len =
     (if a \<noteq> NUL \<and> a = b \<and> len \<noteq> 0 then strcmp_n s t (len - 1)
      else Some (if len \<noteq> 0 then schar a - schar b else 0))"

definition UNLIMITED :: nat where
  "UNLIMITED = 18446744073709551615"

definition strcmp :: "char list \<Rightarrow> char list \<Rightarrow> int option" where
  "strcmp s t = strcmp_n s t UNLIMITED"

text \<open>The text of a string: what stands in front of the terminating null.\<close>

definition ctext :: "char list \<Rightarrow> char list" where
  "ctext s = takeWhile (\<lambda>c. c \<noteq> NUL) s"

lemma ctext_simps [simp]:
  "ctext [] = []"
  "ctext (c # s) = (if c = NUL then [] else c # ctext s)"
  by (simp_all add: ctext_def)

lemma ctext_append [simp]: "NUL \<notin> set t \<Longrightarrow> ctext (t @ NUL # r) = t"
  by (induction t) auto

lemma strlen_ctext: "NUL \<in> set s \<Longrightarrow> strlen s = Some (length (ctext s))"
  by (induction s) auto

lemma strlen_append [simp]: "NUL \<notin> set t \<Longrightarrow> strlen (t @ NUL # r) = Some (length t)"
  by (induction t) auto

lemma NUL_notin_ctext [simp]: "NUL \<notin> set (ctext s)"
  by (induction s) auto

lemma ctext_split: "NUL \<in> set s \<Longrightarrow> \<exists>r. s = ctext s @ NUL # r"
  by (induction s) auto

text \<open>
  Comparing with a bound looks at the first \<open>len\<close> characters of the two texts only, and
  returns zero exactly if they agree.
\<close>

lemma strcmp_n_zero:
  "NUL \<in> set s \<Longrightarrow> NUL \<in> set t \<Longrightarrow>
   \<exists>d. strcmp_n s t len = Some d \<and> (d = 0 \<longleftrightarrow> take len (ctext s) = take len (ctext t))"
proof (induction s t len rule: strcmp_n.induct)
  case (3 a s b t len)
  show ?case
  proof (cases "a \<noteq> NUL \<and> a = b \<and> len \<noteq> 0")
    case True
    then obtain l where l: "len = Suc l" by (cases len) auto
    from True 3 show ?thesis by (auto simp: l)
  next
    case False
    then show ?thesis by (cases len) auto
  qed
qed auto

section \<open>Copying memory\<close>

fun copy_up :: "'a list \<Rightarrow> nat \<Rightarrow> nat \<Rightarrow> nat \<Rightarrow> 'a list option" where
  "copy_up mem d s 0 = Some mem"
| "copy_up mem d s (Suc n) = do {
     c \<leftarrow> peek mem s;
     mem' \<leftarrow> put mem d c;
     copy_up mem' (d + 1) (s + 1) n }"

fun copy_down :: "'a list \<Rightarrow> nat \<Rightarrow> nat \<Rightarrow> nat \<Rightarrow> 'a list option" where
  "copy_down mem d s 0 = Some mem"
| "copy_down mem d s (Suc n) = do {
     c \<leftarrow> peek mem (s + n);
     mem' \<leftarrow> put mem (d + n) c;
     copy_down mem' d s n }"

definition memmove :: "'a list \<Rightarrow> nat \<Rightarrow> nat \<Rightarrow> nat \<Rightarrow> 'a list option" where
  "memmove mem d s n = (if s > d then copy_up mem d s n else copy_down mem d s n)"

text \<open>\<open>memcpy_cpu\<close> of the x86 CPUs copies nothing and returns the full size.\<close>

definition memcpy_cpu :: "nat \<Rightarrow> nat" where
  "memcpy_cpu n = n"

fun copy_chunks :: "'a list \<Rightarrow> nat \<Rightarrow> nat \<Rightarrow> nat \<Rightarrow> 'a list option" where
  "copy_chunks mem d s 0 = Some mem"
| "copy_chunks mem d s (Suc i) = do {
     mem' \<leftarrow> copy_up mem d s 8;
     copy_chunks mem' (d + 8) (s + 8) i }"

definition memcpy :: "'a list \<Rightarrow> nat \<Rightarrow> nat \<Rightarrow> nat \<Rightarrow> 'a list option" where
  "memcpy mem d s n =
     (if d + n > s \<and> s + n > d then memmove mem d s n
      else let i = n - memcpy_cpu n in
        if i = n then Some mem
        else let d = d + i; s = s + i; n = n - i; k = n div 8 in do {
          mem' \<leftarrow> copy_chunks mem d s k;
          copy_up mem' (d + 8 * k) (s + 8 * k) (n mod 8) })"

fun memcmp :: "'a list \<Rightarrow> 'a list \<Rightarrow> ('a \<Rightarrow> int) \<Rightarrow> nat \<Rightarrow> int option" where
  "memcmp p q v 0 = Some 0"
| "memcmp (a # p) (b # q) v (Suc n) = (if a \<noteq> b then Some (v a - v b) else memcmp p q v n)"
| "memcmp p q v (Suc n) = None"

fun memset :: "'a list \<Rightarrow> 'a \<Rightarrow> nat \<Rightarrow> 'a list option" where
  "memset mem c 0 = Some mem"
| "memset mem c (Suc n) = do { mem' \<leftarrow> put mem n c; memset mem' c n }"

text \<open>The memory with the \<open>n\<close> bytes from address \<open>s\<close> copied to address \<open>d\<close>.\<close>

definition copied :: "'a list \<Rightarrow> nat \<Rightarrow> nat \<Rightarrow> nat \<Rightarrow> 'a list" where
  "copied mem d s n = take d mem @ take n (drop s mem) @ drop (d + n) mem"

lemma copied_nth:
  "d + n \<le> length mem \<Longrightarrow> s + n \<le> length mem \<Longrightarrow> i < length mem \<Longrightarrow>
   copied mem d s n ! i = (if d \<le> i \<and> i < d + n then mem ! (s + (i - d)) else mem ! i)"
proof -
  assume a: "d + n \<le> length mem" "s + n \<le> length mem" "i < length mem"
  have "length (take d mem) = d" "length (take n (drop s mem)) = n" using a by auto
  then show ?thesis using a by (simp add: copied_def nth_append del: length_take) auto
qed

lemma copied_length [simp]:
  "d + n \<le> length mem \<Longrightarrow> s + n \<le> length mem \<Longrightarrow> length (copied mem d s n) = length mem"
  by (simp add: copied_def)

text \<open>Upwards is right if the destination does not start inside of the source.\<close>

lemma copy_up_copied:
  "d + n \<le> length mem \<Longrightarrow> s + n \<le> length mem \<Longrightarrow> d \<le> s \<or> s + n \<le> d \<Longrightarrow>
   copy_up mem d s n = Some (copied mem d s n)"
proof (induction n arbitrary: mem d s)
  case 0
  then show ?case by (simp add: copied_def)
next
  case (Suc n)
  let ?m = "mem[d := mem ! s]"
  have "copy_up ?m (d + 1) (s + 1) n = Some (copied ?m (d + 1) (s + 1) n)"
    using Suc.prems by (intro Suc.IH) auto
  moreover have "copied ?m (d + 1) (s + 1) n = copied mem d s (Suc n)"
  proof (rule nth_equalityI)
    fix i assume "i < length (copied ?m (d + 1) (s + 1) n)"
    then have i: "i < length mem" using Suc.prems by simp
    have l: "copied ?m (d + 1) (s + 1) n ! i =
        (if d + 1 \<le> i \<and> i < d + 1 + n then ?m ! (s + 1 + (i - (d + 1))) else ?m ! i)"
      using Suc.prems i by (intro copied_nth) auto
    have r: "copied mem d s (Suc n) ! i =
        (if d \<le> i \<and> i < d + Suc n then mem ! (s + (i - d)) else mem ! i)"
      using Suc.prems i by (intro copied_nth) auto
    have "s + 1 + (i - (d + 1)) = s + (i - d) \<and> s + (i - d) \<noteq> d" if "d + 1 \<le> i" "i < d + 1 + n"
      using that Suc.prems by auto
    then show "copied ?m (d + 1) (s + 1) n ! i = copied mem d s (Suc n) ! i"
      unfolding l r using i by (cases "i = d") (auto simp: nth_list_update)
  qed (use Suc.prems in simp)
  ultimately show ?case using Suc.prems by (simp add: peek_def put_def)
qed

text \<open>Downwards is right if the source does not start inside of the destination.\<close>

lemma copy_down_copied:
  "d + n \<le> length mem \<Longrightarrow> s + n \<le> length mem \<Longrightarrow> s \<le> d \<or> d + n \<le> s \<Longrightarrow>
   copy_down mem d s n = Some (copied mem d s n)"
proof (induction n arbitrary: mem)
  case 0
  then show ?case by (simp add: copied_def)
next
  case (Suc n)
  let ?m = "mem[d + n := mem ! (s + n)]"
  have "copy_down ?m d s n = Some (copied ?m d s n)"
    using Suc.prems by (intro Suc.IH) auto
  moreover have "copied ?m d s n = copied mem d s (Suc n)"
    by (rule nth_equalityI) (use Suc.prems in \<open>auto simp: copied_nth nth_list_update less_Suc_eq\<close>)
  ultimately show ?case using Suc.prems by (simp add: peek_def put_def)
qed

lemma copy_up_add:
  "copy_up mem d s (n + k) = Option.bind (copy_up mem d s n) (\<lambda>mem'. copy_up mem' (d + n) (s + n) k)"
proof (induction n arbitrary: mem d s)
  case (Suc n)
  show ?case
  proof (cases "peek mem s")
    case (Some c)
    then show ?thesis by (cases "put mem d c") (simp_all add: Suc.IH)
  qed simp
qed simp

lemma copy_chunks_up: "copy_chunks mem d s i = copy_up mem d s (8 * i)"
proof (induction i arbitrary: mem d s)
  case (Suc i)
  have "8 * Suc i = 8 + 8 * i" by simp
  then show ?case by (simp only: copy_chunks.simps copy_up_add Suc.IH)
qed simp

lemma memcpy_up:
  assumes "\<not> (d + n > s \<and> s + n > d)"
  shows "memcpy mem d s n = copy_up mem d s n"
proof (cases "n = 0")
  case True
  then show ?thesis by (auto simp: memcpy_def memcpy_cpu_def)
next
  case False
  have "copy_up mem d s n = copy_up mem d s (8 * (n div 8) + n mod 8)" by simp
  then show ?thesis using False assms
    by (simp only: copy_up_add memcpy_def memcpy_cpu_def if_False copy_chunks_up Let_def) simp
qed

text \<open>
  Both \<open>memmove\<close> and \<open>memcpy\<close> copy a block within the bounds of the memory exactly, also
  when source and destination overlap, and change no byte outside of the destination.
\<close>

theorem memmove_memcpy_correct:
  assumes "d + n \<le> length mem" "s + n \<le> length mem"
  shows "memmove mem d s n = Some (take d mem @ take n (drop s mem) @ drop (d + n) mem) \<and>
    memcpy mem d s n = Some (take d mem @ take n (drop s mem) @ drop (d + n) mem)"
proof
  show m: "memmove mem d s n = Some (take d mem @ take n (drop s mem) @ drop (d + n) mem)"
    using assms copy_up_copied [of d n mem s] copy_down_copied [of d n mem s]
    by (auto simp: memmove_def copied_def)
  show "memcpy mem d s n = Some (take d mem @ take n (drop s mem) @ drop (d + n) mem)"
  proof (cases "d + n > s \<and> s + n > d")
    case True
    then show ?thesis using m by (simp add: memcpy_def)
  next
    case False
    then show ?thesis
      using assms copy_up_copied [of d n mem s] memcpy_up [OF False, of mem] by (auto simp: copied_def)
  qed
qed

lemma memmove_memcpy_correct_witness:
  "memmove ''abcdef'' 2 0 4 = Some ''ababcd'' \<and> memcpy ''abcdef'' 0 1 3 = Some ''bcddef''"
  using memmove_memcpy_correct [of 2 4 "''abcdef''" 0] memmove_memcpy_correct [of 0 3 "''abcdef''" 1]
  by (simp add: numeral_eq_Suc)

lemma memset_fills:
  "n \<le> length mem \<Longrightarrow> memset mem c n = Some (replicate n c @ drop n mem)"
proof (induction n arbitrary: mem)
  case (Suc n)
  then have "drop n (mem[n := c]) = c # drop (Suc n) mem"
    by (metis Cons_nth_drop_Suc drop_update_cancel length_list_update lessI less_le_trans
        nth_list_update_eq)
  then show ?case using Suc by (simp add: put_def replicate_app_Cons_same)
qed simp

lemma memcmp_zero:
  assumes "n \<le> length p" "n \<le> length q" "inj v"
  shows "\<exists>d. memcmp p q v n = Some d \<and> (d = 0 \<longleftrightarrow> take n p = take n q)"
  using assms by (induction p q v n rule: memcmp.induct) (auto dest: injD)


section \<open>Copying a string\<close>

function strncpy_at :: "char list \<Rightarrow> nat \<Rightarrow> char list \<Rightarrow> nat \<Rightarrow> char list option" where
  "strncpy_at dst i src sz =
     (if sz \<le> 1 then put dst i NUL
      else case src of
        [] \<Rightarrow> None
      | c # src' \<Rightarrow> if c = NUL then put dst i NUL
                   else do { dst' \<leftarrow> put dst i c; strncpy_at dst' (i + 1) src' (sz - 1) })"
  by pat_completeness auto
termination by (relation "measure (\<lambda>(dst, i, src, sz). sz)") auto

declare strncpy_at.simps [simp del]

definition strncpy :: "char list \<Rightarrow> char list \<Rightarrow> nat \<Rightarrow> char list option" where
  "strncpy dst src sz = (if sz = 0 then Some dst else strncpy_at dst 0 src sz)"

lemma strncpy_at_copies:
  "0 < sz \<Longrightarrow> i + sz \<le> length dst \<Longrightarrow> NUL \<in> set src \<or> sz - 1 \<le> length src \<Longrightarrow>
   strncpy_at dst i src sz =
     (let t = take (sz - 1) (ctext src)
      in Some (take i dst @ t @ NUL # drop (i + length t + 1) dst))"
proof (induction dst i src sz rule: strncpy_at.induct)
  case (1 dst i src sz)
  have i: "i < length dst" using 1 by simp
  show ?case
  proof (cases "sz \<le> 1")
    case True
    then show ?thesis using 1 i by (simp add: strncpy_at.simps [of dst] put_def upd_conv_take_nth_drop)
  next
    case F: False
    then obtain c src' where src: "src = c # src'" using 1 by (cases src) auto
    show ?thesis
    proof (cases "c = NUL")
      case True
      then show ?thesis using i src F
        by (simp add: strncpy_at.simps [of dst] put_def upd_conv_take_nth_drop)
    next
      case False
      let ?d = "dst[i := c]"
      have put: "put dst i c = Some ?d" using i by (simp add: put_def)
      have "strncpy_at ?d (i + 1) src' (sz - 1) =
        (let t = take (sz - 1 - 1) (ctext src')
         in Some (take (i + 1) ?d @ t @ NUL # drop (i + 1 + length t + 1) ?d))"
        using 1 F False src i put by (intro "1.IH") auto
      moreover have "take (i + 1) ?d = take i dst @ [c]"
        using i by (simp add: take_Suc_conv_app_nth)
      moreover obtain k where "sz = Suc (Suc k)" using F by (cases sz; cases "sz - 1") auto
      ultimately show ?thesis using F False src put
        by (simp add: strncpy_at.simps [of dst] Let_def)
    qed
  qed
qed

text \<open>
  \<open>strncpy\<close> with a size above zero leaves a null-terminated string in the destination
  that holds the first \<open>size - 1\<close> characters of the source at most, and touches no byte
  behind the terminator.
\<close>

theorem strncpy_terminates:
  assumes "0 < sz" "sz \<le> length dst" "NUL \<in> set src"
  shows "\<exists>dst'. strncpy dst src sz = Some dst' \<and> ctext dst' = take (sz - 1) (ctext src) \<and>
    length dst' = length dst \<and> NUL \<in> set (take sz dst') \<and>
    drop (min sz (length (ctext src) + 1)) dst' = drop (min sz (length (ctext src) + 1)) dst"
proof -
  let ?t = "take (sz - 1) (ctext src)"
  have n: "NUL \<notin> set ?t" using NUL_notin_ctext in_set_takeD by fast
  have e: "min sz (length (ctext src) + 1) = Suc (length ?t)" using assms by auto
  have l: "length ?t < sz" using assms(1) by auto
  have "strncpy dst src sz = Some (?t @ NUL # drop (length ?t + 1) dst)"
    using assms by (simp add: strncpy_def strncpy_at_copies Let_def)
  moreover have "NUL \<in> set (take sz (?t @ NUL # drop (length ?t + 1) dst))"
  proof -
    obtain k where "sz = length ?t + Suc k" using l by (metis less_imp_Suc_add add_Suc_right)
    then have "take sz (?t @ NUL # drop (length ?t + 1) dst) = ?t @ NUL # take k (drop (length ?t + 1) dst)"
      by (metis take_Suc_Cons append_take_drop_id diff_add_inverse take_append take_all_iff le_add1)
    then show ?thesis by simp
  qed
  moreover have "length (?t @ NUL # drop (length ?t + 1) dst) = length dst"
    using l assms(2) by (simp del: length_take)
  moreover have "ctext (?t @ NUL # drop (length ?t + 1) dst) = ?t" using n by (rule ctext_append)
  moreover have "drop (Suc (length ?t)) (?t @ NUL # drop (length ?t + 1) dst) = drop (Suc (length ?t)) dst"
    by (simp del: length_take)
  ultimately show ?thesis unfolding e by blast
qed

lemma strncpy_terminates_witness:
  "\<exists>dst'. strncpy ''........'' (''genode'' @ [NUL]) 4 = Some dst' \<and> ctext dst' = ''gen''"
  using strncpy_terminates [of 4 "''........''" "''genode'' @ [NUL]"] by (auto simp: numeral_eq_Suc)

end
