(* ===== verification/Number_Text.thy ===== *)
theory Number_Text
  imports Memory_Strings
begin

text \<open>
  Numbers as text: the parsing functions of \<open>base/include/util/string.h\<close>, and the output
  functions of \<open>base/src/include/base/internal/output.h\<close> that write a number digit by digit.
\<close>

section \<open>Character classes\<close>

definition code :: "char \<Rightarrow> int" where
  "code c = of_char c"

definition digit :: "char \<Rightarrow> bool \<Rightarrow> int" where
  "digit c hex =
     (if code c \<ge> code (CHR ''0'') \<and> code c \<le> code (CHR ''9'') then code c - code (CHR ''0'')
      else if hex \<and> code c \<ge> code (CHR ''a'') \<and> code c \<le> code (CHR ''f'') then code c - code (CHR ''a'') + 10
      else if hex \<and> code c \<ge> code (CHR ''A'') \<and> code c \<le> code (CHR ''F'') then code c - code (CHR ''A'') + 10
      else - 1)"

definition is_letter :: "char \<Rightarrow> bool" where
  "is_letter c \<longleftrightarrow> (code c \<ge> code (CHR ''a'') \<and> code c \<le> code (CHR ''z'')) \<or>
     (code c \<ge> code (CHR ''A'') \<and> code c \<le> code (CHR ''Z''))"

definition is_digit :: "char \<Rightarrow> bool \<Rightarrow> bool" where
  "is_digit c hex \<longleftrightarrow> digit c hex \<ge> 0"

definition is_whitespace :: "char \<Rightarrow> bool" where
  "is_whitespace c \<longleftrightarrow> c = CHR 0x09 \<or> c = CHR '' '' \<or> c = CHR 0x0A"


section \<open>Parsing\<close>

text \<open>
  The loop of \<open>ascii_to_unsigned\<close>: both the value and the count of characters are variables of
  the result type and wrap around at its width.
\<close>

fun read_number :: "nat \<Rightarrow> char list \<Rightarrow> 'a::len word \<Rightarrow> 'a word \<Rightarrow> ('a word \<times> 'a word) option" where
  "read_number base [] v i = None"
| "read_number base (c # s) v i =
     (let d = digit c (base = 16) in
      if d < 0 then Some (v, i)
      else read_number base s (v * of_nat base + of_int d) (i + 1))"

text \<open>
  The result is the number of consumed characters with the value, where \<open>None\<close> as value says
  that the variable for the result is left alone.
\<close>

definition ascii_to_unsigned :: "char list \<Rightarrow> nat \<Rightarrow> (nat \<times> 'a::len word option) option" where
  "ascii_to_unsigned s base = do {
     c \<leftarrow> peek s 0;
     if c = NUL then Some (0, None)
     else do {
       x \<leftarrow> if base = 0 \<and> c = CHR ''0'' then peek s 1 else Some NUL;
       (let hex = x = CHR ''x'' \<or> x = CHR ''X'';
            s = if hex then drop 2 s else s;
            i = if hex then 2 else 0;
            base = if base = 0 then if hex then 16 else 10 else base
        in map_option (\<lambda>(v, i). (unat i, Some v)) (read_number base s 0 i)) } }"

definition ascii_to_bool :: "char list \<Rightarrow> (nat \<times> bool option) option" where
  "ascii_to_bool s = do {
     d \<leftarrow> strcmp_n s (''yes'' @ [NUL]) 3; if d = 0 then Some (3, Some True) else do {
     d \<leftarrow> strcmp_n s (''true'' @ [NUL]) 4; if d = 0 then Some (4, Some True) else do {
     d \<leftarrow> strcmp_n s (''on'' @ [NUL]) 2; if d = 0 then Some (2, Some True) else do {
     d \<leftarrow> strcmp_n s (''no'' @ [NUL]) 2; if d = 0 then Some (2, Some False) else do {
     d \<leftarrow> strcmp_n s (''false'' @ [NUL]) 5; if d = 0 then Some (5, Some False) else do {
     d \<leftarrow> strcmp_n s (''off'' @ [NUL]) 3; if d = 0 then Some (3, Some False) else
     Some (0, None) }}}}}}"

definition ascii_to_ushort :: "char list \<Rightarrow> (nat \<times> 16 word option) option" where
  "ascii_to_ushort s = ascii_to_unsigned s 0"

definition ascii_to_uint :: "char list \<Rightarrow> (nat \<times> 32 word option) option" where
  "ascii_to_uint s = ascii_to_unsigned s 0"

definition ascii_to_ulong :: "char list \<Rightarrow> (nat \<times> 64 word option) option" where
  "ascii_to_ulong s = ascii_to_unsigned s 0"

definition ascii_to_ulonglong :: "char list \<Rightarrow> (nat \<times> 64 word option) option" where
  "ascii_to_ulonglong s = ascii_to_unsigned s 0"

definition ascii_to_long :: "char list \<Rightarrow> (nat \<times> 64 word option) option" where
  "ascii_to_long s = do {
     c \<leftarrow> peek s 0;
     (let i = if c = CHR ''-'' \<or> c = CHR ''+'' then 1 else 0 in do {
        (j, v) \<leftarrow> ascii_to_unsigned (drop i s) 10;
        if j = 0 then Some (i, None)
        else Some (i + j, map_option (\<lambda>v. if c = CHR ''-'' then - v else v) v) }) }"

text \<open>The suffixes fall through: \<open>G\<close> scales three times, \<open>M\<close> twice, and \<open>K\<close> once.\<close>

definition ascii_to_bytes :: "char list \<Rightarrow> (nat \<times> 64 word) option" where
  "ascii_to_bytes s = do {
     (i, v) \<leftarrow> ascii_to_unsigned s 0;
     (let res = case v of None \<Rightarrow> 0 | Some v \<Rightarrow> v in
      if i > 0 then do {
        c \<leftarrow> peek s i;
        (if c = CHR ''G'' then Some (i + 1, res * 1024 * 1024 * 1024)
         else if c = CHR ''M'' then Some (i + 1, res * 1024 * 1024)
         else if c = CHR ''K'' then Some (i + 1, res * 1024)
         else Some (i, res)) }
      else Some (i, res)) }"


section \<open>Quoted strings\<close>

definition end_of_quote :: "char list \<Rightarrow> bool option" where
  "end_of_quote s = do {
     a \<leftarrow> peek s 0;
     if a = CHR 0x5C then Some False else do { b \<leftarrow> peek s 1; Some (b = CHR 0x22) } }"

text \<open>The loop of \<open>unpack_string\<close>; \<open>prev\<close> is the character in front of the source pointer.\<close>

fun unpack_loop :: "char \<Rightarrow> char list \<Rightarrow> char list \<Rightarrow> nat \<Rightarrow> int \<Rightarrow> (char list \<times> nat) option" where
  "unpack_loop prev [] dst i n = None"
| "unpack_loop prev (c # s) dst i n =
     (if c \<noteq> NUL \<and> \<not> (prev \<noteq> CHR 0x5C \<and> c = CHR 0x22) \<and> int i < n - 1
      then if c = CHR 0x5C
        then case s of
          [] \<Rightarrow> None
        | b # s' \<Rightarrow> if b = CHR 0x22
            then do { dst' \<leftarrow> put dst i (CHR 0x22); unpack_loop b s' dst' (i + 1) n }
            else do { dst' \<leftarrow> put dst i c; unpack_loop c s dst' (i + 1) n }
        else do { dst' \<leftarrow> put dst i c; unpack_loop c s dst' (i + 1) n }
      else do { dst' \<leftarrow> put dst i NUL; Some (dst', i) })"

definition unpack_string :: "char list \<Rightarrow> char list \<Rightarrow> int \<Rightarrow> (char list \<times> int) option" where
  "unpack_string src dst n = do {
     q \<leftarrow> peek src 0;
     if q \<noteq> CHR 0x22 then Some (dst, - 1)
     else do { (dst', i) \<leftarrow> unpack_loop q (tl src) dst 0 n; Some (dst', int i) } }"


section \<open>Printing\<close>

definition ascii :: "nat \<Rightarrow> char" where
  "ascii d = (if d > 9 then char_of (d + 97 - 10) else char_of (d + 48))"

text \<open>
  The digits are collected in a buffer of \<open>cap\<close> characters, least significant first, and
  printed in reverse order; the accumulator is the reversed contents of the buffer.  \<open>None\<close>
  stands for a division by zero or a write behind the buffer.
\<close>

function digits_loop :: "nat \<Rightarrow> nat \<Rightarrow> nat \<Rightarrow> char list \<Rightarrow> char list option" where
  "digits_loop base cap v acc =
     (if v = 0 then Some acc
      else if base = 0 \<or> length acc \<ge> cap then None
      else digits_loop base cap (v div base) (ascii (v mod base) # acc))"
  by pat_completeness auto
termination by (relation "measure (\<lambda>(base, cap, v, acc). cap - length acc)") auto

declare digits_loop.simps [simp del]

definition out_unsigned :: "'a::len word \<Rightarrow> nat \<Rightarrow> int \<Rightarrow> char list option" where
  "out_unsigned v base pad = do {
     ds \<leftarrow> if v = 0 then Some [ascii 0] else digits_loop base (LENGTH('a) div 8 * 3) (unat v) [];
     Some (replicate (nat (pad - int (length ds))) (ascii 0) @ ds) }"

text \<open>
  The absolute value is computed in the type of the value.  The negation of the least value
  is the least value again, for which the loop over the digits does not run.
\<close>

definition out_signed :: "'a::len word \<Rightarrow> nat \<Rightarrow> char list option" where
  "out_signed v base =
     (let neg = v <s 0; v = if neg then - v else v in do {
        ds \<leftarrow> if v = 0 then Some [ascii 0]
              else if v <s 0 then Some []
              else digits_loop base (LENGTH('a) div 8 * 3) (unat v) [];
        Some ((if neg then ''-'' else []) @ ds) })"

definition print_ulong :: "64 word \<Rightarrow> char list option" where
  "print_ulong v = out_unsigned v 10 0"

definition print_long :: "64 word \<Rightarrow> char list option" where
  "print_long v = out_signed v 10"

text \<open>\<open>Number_of_bytes::print\<close>\<close>

definition KB :: "64 word" where "KB = 1024"
definition MB :: "64 word" where "MB = KB * 1024"
definition GB :: "64 word" where "GB = MB * 1024"

definition print_bytes :: "64 word \<Rightarrow> char list option" where
  "print_bytes n =
     (if n = 0 then out_signed (0 :: 32 word) 10
      else if n mod GB = 0 then map_option (\<lambda>t. t @ ''G'') (print_ulong (n div GB))
      else if n mod MB = 0 then map_option (\<lambda>t. t @ ''M'') (print_ulong (n div MB))
      else if n mod KB = 0 then map_option (\<lambda>t. t @ ''K'') (print_ulong (n div KB))
      else print_ulong n)"

text \<open>\<open>Hex::print\<close>: the value is masked to the number of digits of its type.\<close>

fun hex_mask :: "nat \<Rightarrow> 64 word" where
  "hex_mask 0 = 0"
| "hex_mask (Suc i) = or (push_bit 4 (hex_mask i)) 0xf"

definition print_hex :: "bool \<Rightarrow> bool \<Rightarrow> nat \<Rightarrow> 64 word \<Rightarrow> char list option" where
  "print_hex prefix pad digits v = map_option (\<lambda>t. (if prefix then ''0x'' else []) @ t)
     (out_unsigned (and v (hex_mask digits)) 16 (if pad then int digits else 0))"

end
