(* ===== verification/Tokens.thy ===== *)
theory Tokens
  imports Number_Text
begin

text \<open>
  The tokenizer of \<open>base/include/util/token.h\<close>.  The scanner policy, which decides about the
  characters of an identifier, is the parameter \<open>ident\<close> of the functions.  Indices into a token
  have 32 bits in the code; the model assumes buffers below 4 GiB and counts in \<open>nat\<close>.
\<close>

datatype token_type = SINGLECHAR | NUMBER | IDENT | STRING | WHITESPACE | END

record token =
  tk_start :: "char list option"
  tk_max :: "64 word"
  tk_len :: nat

definition identifier_with_underline :: "char \<Rightarrow> nat \<Rightarrow> bool" where
  "identifier_with_underline c i \<longleftrightarrow> is_letter c \<or> c = CHR ''_'' \<or> (i \<noteq> 0 \<and> is_digit c False)"


section \<open>Scanning\<close>

text \<open>
  The loop of \<open>_quoted_string_len\<close> at index \<open>i\<close>: the test for the end of the quotation looks at
  the next character before the current one is known not to be the terminator.
\<close>

fun quoted_scan :: "nat \<Rightarrow> nat \<Rightarrow> char list \<Rightarrow> nat option" where
  "quoted_scan i n [] = None"
| "quoted_scan i n (c # s) = do {
     e \<leftarrow> end_of_quote (c # s);
     if \<not> e \<and> i < n then if c = NUL then Some 0 else quoted_scan (i + 1) n s
     else if i = n then Some 0 else Some (i + 2) }"

definition quoted_string_len :: "char list \<Rightarrow> nat \<Rightarrow> nat option" where
  "quoted_string_len s n = quoted_scan 0 n s"

fun scan_while :: "(char \<Rightarrow> nat \<Rightarrow> bool) \<Rightarrow> nat \<Rightarrow> nat \<Rightarrow> char list \<Rightarrow> nat option" where
  "scan_while P i n [] = (if i < n then None else Some i)"
| "scan_while P i n (c # s) = (if i < n \<and> P c i then scan_while P (i + 1) n s else Some i)"

text \<open>The loop over whitespace reads a character before it checks the bound.\<close>

fun scan_whitespace :: "nat \<Rightarrow> nat \<Rightarrow> char list \<Rightarrow> nat option" where
  "scan_whitespace i n [] = None"
| "scan_whitespace i n (c # s) =
     (if is_whitespace c \<and> i < n then scan_whitespace (i + 1) n s else Some i)"

definition type_of :: "(char \<Rightarrow> nat \<Rightarrow> bool) \<Rightarrow> char list option \<Rightarrow> nat \<Rightarrow> token_type option" where
  "type_of ident start n = (case start of
     None \<Rightarrow> Some END
   | Some s \<Rightarrow> if n < 1 then Some END else do {
       c \<leftarrow> peek s 0;
       if c = NUL then Some END
       else if ident c 0 then Some IDENT
       else if is_digit c False then Some NUMBER
       else if is_whitespace c then Some WHITESPACE
       else if c = CHR 0x22 then do {
         l \<leftarrow> quoted_string_len s n;
         Some (if l \<noteq> 0 then STRING else END) }
       else Some SINGLECHAR })"

definition calc_len :: "(char \<Rightarrow> nat \<Rightarrow> bool) \<Rightarrow> char list \<Rightarrow> nat \<Rightarrow> nat option" where
  "calc_len ident s n = do {
     ty \<leftarrow> type_of ident (Some s) n;
     (case ty of
        SINGLECHAR \<Rightarrow> Some 1
      | NUMBER \<Rightarrow> scan_while (\<lambda>c i. is_digit c False) 0 n s
      | IDENT \<Rightarrow> scan_while ident 0 n s
      | STRING \<Rightarrow> quoted_string_len s n
      | WHITESPACE \<Rightarrow> scan_whitespace 0 n s
      | END \<Rightarrow> Some 0) }"


section \<open>Tokens\<close>

definition token_new :: "(char \<Rightarrow> nat \<Rightarrow> bool) \<Rightarrow> char list option \<Rightarrow> 64 word \<Rightarrow> token option" where
  "token_new ident start n = do {
     l \<leftarrow> (case start of None \<Rightarrow> Some 0 | Some s \<Rightarrow> calc_len ident s (unat n));
     Some \<lparr>tk_start = start, tk_max = n, tk_len = l\<rparr> }"

definition no_token :: token where
  "no_token = \<lparr>tk_start = None, tk_max = - 1, tk_len = 0\<rparr>"

definition token_kind :: "(char \<Rightarrow> nat \<Rightarrow> bool) \<Rightarrow> token \<Rightarrow> token_type option" where
  "token_kind ident t = type_of ident (tk_start t) (tk_len t)"

definition token_valid :: "token \<Rightarrow> bool" where
  "token_valid t \<longleftrightarrow> tk_start t \<noteq> None \<and> tk_len t \<noteq> 0"

definition token_at :: "token \<Rightarrow> int \<Rightarrow> char option" where
  "token_at t i =
     (if i \<ge> 0 \<and> nat i < tk_len t
      then case tk_start t of None \<Rightarrow> None | Some s \<Rightarrow> peek s (nat i)
      else Some NUL)"

definition token_string :: "token \<Rightarrow> char list \<Rightarrow> nat \<Rightarrow> char list option" where
  "token_string t dst n = (case tk_start t of
     None \<Rightarrow> None
   | Some s \<Rightarrow> strncpy dst s (min (tk_len t + 1) n))"

definition token_next :: "(char \<Rightarrow> nat \<Rightarrow> bool) \<Rightarrow> token \<Rightarrow> token option" where
  "token_next ident t =
     token_new ident (map_option (drop (tk_len t)) (tk_start t)) (tk_max t - of_nat (tk_len t))"

definition eat_whitespace :: "(char \<Rightarrow> nat \<Rightarrow> bool) \<Rightarrow> token \<Rightarrow> token option" where
  "eat_whitespace ident t = do {
     ty \<leftarrow> token_kind ident t;
     if ty = WHITESPACE then token_next ident t else Some t }"

text \<open>\<open>next_after\<close>: the place of the delimiter with the rest of the length, if there is one.\<close>

fun find_delim :: "char list \<Rightarrow> nat \<Rightarrow> char list \<Rightarrow> nat \<Rightarrow> (char list \<times> nat) option option" where
  "find_delim [] rest delim len = (if rest \<ge> len then None else Some None)"
| "find_delim (c # s) rest delim len =
     (if rest \<ge> len then do {
        d \<leftarrow> strcmp_n (c # s) delim len;
        if d = 0 then Some (Some (c # s, rest))
        else if rest = 0 then None else find_delim s (rest - 1) delim len }
      else Some None)"

definition next_after :: "(char \<Rightarrow> nat \<Rightarrow> bool) \<Rightarrow> token \<Rightarrow> char list \<Rightarrow> token option" where
  "next_after ident t delim = do {
     len \<leftarrow> strlen delim;
     (case tk_start t of
        Some s \<Rightarrow>
          if \<not> token_valid t \<or> len > unat (tk_max t) then Some no_token
          else do {
            r \<leftarrow> find_delim s (unat (tk_max t)) delim len;
            (case r of
               None \<Rightarrow> Some no_token
             | Some (s', rest) \<Rightarrow> do {
                 d \<leftarrow> token_new ident (Some s') (of_nat rest); token_next ident d }) }
      | None \<Rightarrow> Some no_token) }"

definition token_matches :: "token \<Rightarrow> char list \<Rightarrow> bool option" where
  "token_matches t pat = do {
     len \<leftarrow> strlen pat;
     (case tk_start t of
        Some s \<Rightarrow>
          if \<not> token_valid t \<or> len > unat (tk_max t) then Some False
          else map_option (\<lambda>d. d = 0) (strcmp_n pat s len)
      | None \<Rightarrow> Some False) }"

definition next_eat :: "(char \<Rightarrow> nat \<Rightarrow> bool) \<Rightarrow> token \<Rightarrow> token option" where
  "next_eat ident t = do { n \<leftarrow> token_next ident t; eat_whitespace ident n }"


section \<open>The rest of the text shrinks\<close>

definition token_rest :: "token \<Rightarrow> nat" where
  "token_rest t = (case tk_start t of None \<Rightarrow> 0 | Some s \<Rightarrow> length s)"

lemma token_new_start: "token_new ident start n = Some t \<Longrightarrow> tk_start t = start"
  by (auto simp: token_new_def split: option.splits bind_splits)

lemma token_next_rest:
  "token_next ident t = Some t' \<Longrightarrow> token_rest t' = token_rest t - tk_len t"
  by (auto simp: token_next_def token_rest_def dest!: token_new_start split: option.splits)

lemma eat_whitespace_rest: "eat_whitespace ident t = Some t' \<Longrightarrow> token_rest t' \<le> token_rest t"
  by (auto simp: eat_whitespace_def dest!: token_next_rest split: bind_splits if_splits)

lemma next_eat_shrinks:
  assumes "token_valid t" "token_at t 0 = Some c" "next_eat ident t = Some t'"
  shows "token_rest t' < token_rest t"
proof -
  obtain n where n: "token_next ident t = Some n" "eat_whitespace ident n = Some t'"
    using assms(3) by (auto simp: next_eat_def split: bind_splits)
  have "0 < token_rest t" "0 < tk_len t"
    using assms(1,2)
    by (auto simp: token_valid_def token_at_def token_rest_def peek_def split: if_splits option.splits)
  then show ?thesis using token_next_rest [OF n(1)] eat_whitespace_rest [OF n(2)] by simp
qed

end
