(* ===== verification/Arg_Strings.thy ===== *)
theory Arg_Strings
  imports Tokens Misc_Math
begin

text \<open>
  The argument strings of \<open>base/include/util/arg_string.h\<close>: lists of \<open>key=value\<close> pairs that are
  separated by commas.  A buffer that is changed is a list of characters; a token that was
  found in it is translated back to an index by the length of its suffix.
\<close>

abbreviation "arg_ident \<equiv> identifier_with_underline"

section \<open>One argument\<close>

record arg =
  arg_key :: token
  arg_val :: token

text \<open>The search of the constructor for the value behind the equals sign.\<close>

function arg_value :: "token \<Rightarrow> token option" where
  "arg_value t =
     (if token_valid t then do {
        c \<leftarrow> token_at t 0;
        if c = CHR '','' then Some no_token
        else if c = CHR ''='' then next_eat arg_ident t
        else do { t' \<leftarrow> next_eat arg_ident t; arg_value t' } }
      else Some no_token)"
  by pat_completeness auto
termination by (relation "measure token_rest") (auto intro: next_eat_shrinks)

declare arg_value.simps [simp del]

definition arg_new :: "token \<Rightarrow> arg option" where
  "arg_new t = map_option (\<lambda>v. \<lparr>arg_key = t, arg_val = v\<rparr>) (arg_value t)"

definition arg_valid :: "arg \<Rightarrow> bool" where
  "arg_valid a \<longleftrightarrow> token_valid (arg_key a)"

text \<open>\<open>read_ulong\<close>: success, the value if it was written, and whether the sign is negative.\<close>

definition read_ulong :: "arg \<Rightarrow> (bool \<times> 64 word option \<times> bool) option" where
  "read_ulong a = do {
     c \<leftarrow> token_at (arg_val a) 0;
     t \<leftarrow> if c = CHR ''+'' \<or> c = CHR ''-'' then token_next arg_ident (arg_val a) else Some (arg_val a);
     (let neg = c = CHR ''-'' in do {
        ty \<leftarrow> token_kind arg_ident t;
        (case tk_start t of
           Some s \<Rightarrow>
             if ty \<noteq> NUMBER then Some (False, None, neg)
             else do {
               (n, v) \<leftarrow> ascii_to_bytes s;
               if n = 0 then Some (False, None, neg)
               else do {
                 t \<leftarrow> token_new arg_ident (Some (drop n s)) (- 1);
                 t \<leftarrow> eat_whitespace arg_ident t;
                 c \<leftarrow> token_at t 0;
                 Some (\<not> (token_valid t \<and> c \<noteq> CHR '',''), Some v, neg) } }
         | None \<Rightarrow> Some (False, None, neg)) }) }"

definition ulong_value :: "arg \<Rightarrow> 64 word \<Rightarrow> 64 word option" where
  "ulong_value a dflt = do {
     (ok, v, neg) \<leftarrow> read_ulong a;
     Some (if neg then dflt
           else if ok then (case v of Some v \<Rightarrow> v | None \<Rightarrow> 0) else dflt) }"

definition long_value :: "arg \<Rightarrow> 64 word \<Rightarrow> 64 word option" where
  "long_value a dflt = do {
     (ok, v, neg) \<leftarrow> read_ulong a;
     (let v = case v of Some v \<Rightarrow> v | None \<Rightarrow> 0
      in Some (if ok then if neg then - v else v else dflt)) }"

text \<open>
  The cases of \<open>bool_value\<close> fall through: an identifier that is no boolean is looked at as if it
  was a quoted string, and then as a number.
\<close>

definition bool_value :: "arg \<Rightarrow> bool \<Rightarrow> bool option" where
  "bool_value a dflt = do {
     ty \<leftarrow> token_kind arg_ident (arg_val a);
     (case tk_start (arg_val a) of
        None \<Rightarrow> Some dflt
      | Some s \<Rightarrow> do {
          (n1, r1) \<leftarrow> if ty = IDENT then ascii_to_bool s else Some (0, None);
          if ty = IDENT \<and> n1 = tk_len (arg_val a)
          then Some (case r1 of Some b \<Rightarrow> b | None \<Rightarrow> dflt)
          else do {
            (n2, r2) \<leftarrow> if ty = IDENT \<or> ty = STRING then ascii_to_bool (drop 1 s) else Some (0, None);
            if (ty = IDENT \<or> ty = STRING) \<and> int n2 = int (tk_len (arg_val a)) - 2
            then Some (case r2 of Some b \<Rightarrow> b
                       | None \<Rightarrow> (case r1 of Some b \<Rightarrow> b | None \<Rightarrow> dflt))
            else do {
              (ok, v, neg) \<leftarrow> read_ulong a;
              Some (if ok then (case v of Some v \<Rightarrow> v \<noteq> 0 | None \<Rightarrow> False) else dflt) } } }) }"

definition arg_key_string :: "arg \<Rightarrow> char list \<Rightarrow> nat \<Rightarrow> char list option" where
  "arg_key_string a dst n = token_string (arg_key a) dst n"

text \<open>Writing a block of characters, as \<open>memcpy\<close> does between two distinct buffers.\<close>

fun put_list :: "'a list \<Rightarrow> nat \<Rightarrow> 'a list \<Rightarrow> 'a list option" where
  "put_list mem i [] = Some mem"
| "put_list mem i (c # cs) = do { mem' \<leftarrow> put mem i c; put_list mem' (i + 1) cs }"

definition size_pred :: "nat \<Rightarrow> nat" where
  "size_pred n = (if n = 0 then UNLIMITED else n - 1)"

definition string_value :: "arg \<Rightarrow> char list \<Rightarrow> nat \<Rightarrow> char list \<Rightarrow> char list option" where
  "string_value a dst n dflt = do {
     ty \<leftarrow> token_kind arg_ident (arg_val a);
     (case tk_start (arg_val a) of
        None \<Rightarrow> strncpy dst dflt n
      | Some s \<Rightarrow>
          if ty = IDENT then
            (let l = min (size_pred n) (tk_len (arg_val a)) in do {
               dst \<leftarrow> if l \<le> length s then put_list dst 0 (take l s) else None;
               put dst l NUL })
          else if ty \<noteq> STRING then strncpy dst dflt n
          else map_option fst (unpack_string s dst (int (min (size_pred n) (tk_len (arg_val a)))))) }"

definition aligned_size :: "arg \<Rightarrow> 64 word option" where
  "aligned_size a = map_option (\<lambda>v. align_addr v 12) (ulong_value a 0)"


section \<open>Searching an argument string\<close>

function next_key :: "token \<Rightarrow> token option" where
  "next_key t =
     (if token_valid t then do {
        c \<leftarrow> token_at t 0;
        if c = CHR '','' then next_eat arg_ident t
        else do { t' \<leftarrow> next_eat arg_ident t; next_key t' } }
      else Some no_token)"
  by pat_completeness auto
termination by (relation "measure token_rest") (auto intro: next_eat_shrinks)

declare next_key.simps [simp del]

lemma next_key_shrinks:
  "next_key t = Some t' \<Longrightarrow> token_valid t' \<Longrightarrow> token_rest t' < token_rest t"
proof (induction t rule: next_key.induct)
  case (1 t)
  show ?case
  proof (cases "token_valid t")
    case True
    obtain c where c: "token_at t 0 = Some c"
      using "1.prems" True by (subst (asm) next_key.simps) (auto split: bind_splits)
    obtain n where n: "next_eat arg_ident t = Some n"
      using "1.prems" True c by (subst (asm) next_key.simps) (auto split: bind_splits if_splits)
    have less: "token_rest n < token_rest t" using next_eat_shrinks [OF True c n] .
    show ?thesis
    proof (cases "c = CHR '',''")
      case True
      then show ?thesis using "1.prems" \<open>token_valid t\<close> c n less by (subst (asm) next_key.simps) simp
    next
      case False
      then have "next_key n = Some t'"
        using "1.prems" True c n by (subst (asm) next_key.simps) simp
      then show ?thesis using "1.IH" [OF True c False n] "1.prems"(2) less by simp
    qed
  next
    case False
    then show ?thesis using "1.prems" by (subst (asm) next_key.simps) (auto simp: no_token_def token_valid_def)
  qed
qed

text \<open>
  The comparison of the key is limited to the length of the token, so that an argument matches
  whose name is a prefix of the key.
\<close>

definition key_matches :: "token \<Rightarrow> char list \<Rightarrow> bool option" where
  "key_matches t key = do {
     ty \<leftarrow> token_kind arg_ident t;
     (case tk_start t of
        Some s \<Rightarrow> if ty = IDENT then map_option (\<lambda>d. d = 0) (strcmp_n key s (tk_len t)) else Some False
      | None \<Rightarrow> Some False) }"

function find_key_from :: "token \<Rightarrow> char list \<Rightarrow> token option" where
  "find_key_from t key =
     (if token_valid t then do {
        m \<leftarrow> key_matches t key;
        if m then Some t
        else (case next_key t of
          None \<Rightarrow> None
        | Some t' \<Rightarrow> if token_valid t' then find_key_from t' key else Some no_token) }
      else Some no_token)"
  by pat_completeness auto
termination by (relation "measure (\<lambda>(t, k). token_rest t)") (auto intro: next_key_shrinks)

declare find_key_from.simps [simp del]

definition find_key :: "char list \<Rightarrow> char list \<Rightarrow> token option" where
  "find_key args key = do { t \<leftarrow> token_new arg_ident (Some args) (- 1); find_key_from t key }"

definition find_arg :: "char list option \<Rightarrow> char list option \<Rightarrow> arg option" where
  "find_arg args key = (case (args, key) of
     (Some args, Some key) \<Rightarrow> do { t \<leftarrow> find_key args key; arg_new t }
   | _ \<Rightarrow> arg_new no_token)"

definition first_arg :: "char list \<Rightarrow> arg option" where
  "first_arg args = do { t \<leftarrow> token_new arg_ident (Some args) (- 1); arg_new t }"


section \<open>Changing an argument string\<close>

fun trim_back :: "char list \<Rightarrow> nat \<Rightarrow> nat" where
  "trim_back args 0 = 0"
| "trim_back args (Suc s) = (if args ! Suc s = CHR '' '' then trim_back args s else Suc s)"

definition remove_arg :: "char list \<Rightarrow> char list \<Rightarrow> char list option" where
  "remove_arg args key = do {
     beg \<leftarrow> find_key args key;
     nxt \<leftarrow> next_key beg;
     (case tk_start beg of
        None \<Rightarrow> Some args
      | Some b \<Rightarrow>
          if \<not> token_valid beg then Some args
          else (case tk_start nxt of
            None \<Rightarrow> put args (trim_back args (length args - length b - 1)) NUL
          | Some n \<Rightarrow>
              if \<not> token_valid nxt
              then put args (trim_back args (length args - length b - 1)) NUL
              else do {
                l \<leftarrow> strlen n;
                memcpy args (length args - length b) (length args - length n) (l + 1) })) }"

text \<open>
  \<open>_append\<close> looks for the end of the destination string, copies the source string with its
  terminator there, and returns the place of the new terminator.
\<close>

definition append_str :: "char list \<Rightarrow> nat \<Rightarrow> char list \<Rightarrow> (char list \<times> nat) option" where
  "append_str args dst src = do {
     l \<leftarrow> strlen src;
     e \<leftarrow> strlen (drop dst args);
     args' \<leftarrow> put_list args (dst + e) (take (l + 1) src);
     Some (args', dst + e + l) }"

fun append_strs :: "char list \<Rightarrow> nat \<Rightarrow> char list list \<Rightarrow> char list option" where
  "append_strs args dst [] = Some args"
| "append_strs args dst (s # ss) = do {
     (args', dst') \<leftarrow> append_str args dst s;
     append_strs args' dst' ss }"

definition add_arg ::
    "char list \<Rightarrow> nat \<Rightarrow> char list \<Rightarrow> char list \<Rightarrow> token_type \<Rightarrow> (bool \<times> char list) option" where
  "add_arg args args_len key val ty = do {
     old_len \<leftarrow> strlen args;
     k \<leftarrow> strlen key;
     v \<leftarrow> strlen val;
     if (ty = STRING \<and> old_len + k + v + 4 > args_len) \<or> old_len + k + v + 2 > args_len
     then Some (False, args)
     else do {
       (args, dst) \<leftarrow> if old_len \<noteq> 0 then append_str args old_len ('', '' @ [NUL]) else Some (args, old_len);
       args \<leftarrow> append_strs args dst
         (if ty = STRING then [key, ''='' @ [CHR 0x22, NUL], val, [CHR 0x22, NUL]]
          else [key, ''='' @ [NUL], val]);
       Some (True, args) } }"

definition set_arg :: "char list \<Rightarrow> nat \<Rightarrow> char list \<Rightarrow> char list \<Rightarrow> (bool \<times> char list) option" where
  "set_arg args args_len key val = do {
     args \<leftarrow> remove_arg args key; add_arg args args_len key val IDENT }"

definition set_arg_string :: "char list \<Rightarrow> nat \<Rightarrow> char list \<Rightarrow> char list \<Rightarrow> (bool \<times> char list) option" where
  "set_arg_string args args_len key val = do {
     args \<leftarrow> remove_arg args key; add_arg args args_len key val STRING }"

end
