(* ===== verification/Tokens_Correct.thy ===== *)
theory Tokens_Correct
  imports Tokens
begin

text \<open>
  What the tokenizer does with null-terminated text: it splits the text into tokens, without
  loss, up to the end of the text or to a quotation that is not closed.
\<close>

section \<open>The scanning loops\<close>

lemma scan_while_prefix:
  "\<forall>j < length w. P (w ! j) (i + j) \<Longrightarrow> \<not> P c (i + length w) \<or> i + length w = n \<Longrightarrow> i + length w \<le> n \<Longrightarrow>
   scan_while P i n (w @ c # r) = Some (i + length w)"
proof (induction w arbitrary: i)
  case (Cons a w)
  from Cons.prems(1) have "P a i" "\<forall>j < length w. P (w ! j) (Suc i + j)"
    by (auto simp: less_Suc_eq_0_disj)
  with Cons show ?case by auto
qed auto

lemma scan_while_text:
  "NUL \<notin> set t \<Longrightarrow> (\<And>j. \<not> P NUL j) \<Longrightarrow> i + length t < n \<Longrightarrow>
   \<exists>k. scan_while P i n (t @ NUL # r) = Some (i + k) \<and> k \<le> length t \<and>
     (\<forall>j < k. P (t ! j) (i + j)) \<and> (t \<noteq> [] \<and> P (hd t) i \<longrightarrow> 0 < k)"
proof (induction t arbitrary: i)
  case (Cons c t)
  show ?case
  proof (cases "P c i")
    case True
    with Cons.IH [of "i + 1"] Cons.prems obtain k where
      "scan_while P (i + 1) n (t @ NUL # r) = Some (i + 1 + k)" "k \<le> length t"
      "\<forall>j < k. P (t ! j) (i + 1 + j)" by auto
    then show ?thesis using True Cons.prems
      by (intro exI [of _ "Suc k"]) (auto simp: less_Suc_eq_0_disj)
  qed (use Cons.prems in \<open>auto intro: exI [of _ 0]\<close>)
qed auto

lemma scan_whitespace_while:
  "NUL \<in> set s \<Longrightarrow> scan_whitespace i n s = scan_while (\<lambda>c i. is_whitespace c) i n s"
  by (induction i n s rule: scan_whitespace.induct) (auto simp: is_whitespace_def)

lemma quoted_scan_text:
  "NUL \<notin> set t \<Longrightarrow> x \<noteq> CHR 0x22 \<Longrightarrow> i + length t < n \<Longrightarrow>
   quoted_scan i n (t @ NUL # x # r) = Some 0 \<or>
   (\<exists>k. quoted_scan i n (t @ NUL # x # r) = Some (i + k + 2) \<and> k + 2 \<le> length t \<and> t ! (k + 1) = CHR 0x22)"
proof (induction t arbitrary: i)
  case Nil
  then show ?case by (simp add: end_of_quote_def peek_def)
next
  case (Cons c t)
  have eoq: "end_of_quote (c # t @ NUL # x # r) = Some (c \<noteq> CHR 0x5C \<and> t \<noteq> [] \<and> hd t = CHR 0x22)"
    by (cases t) (auto simp: end_of_quote_def peek_def)
  show ?case
  proof (cases "c \<noteq> CHR 0x5C \<and> t \<noteq> [] \<and> hd t = CHR 0x22")
    case True
    then show ?thesis using eoq Cons.prems by (cases t) auto
  next
    case False
    then have e: "end_of_quote (c # t @ NUL # x # r) = Some False" using eoq by auto
    from Cons.IH [of "i + 1"] Cons.prems consider
        "quoted_scan (i + 1) n (t @ NUL # x # r) = Some 0"
      | k where "quoted_scan (i + 1) n (t @ NUL # x # r) = Some (i + 1 + k + 2)"
          "k + 2 \<le> length t" "t ! (k + 1) = CHR 0x22" by auto
    then show ?thesis
    proof cases
      case 1
      then show ?thesis using Cons.prems e by simp
    next
      case (2 k)
      then show ?thesis using Cons.prems e
        by (intro disjI2 exI [of _ "k + 1"]) auto
    qed
  qed
qed


lemma quoted_scan_ge: "quoted_scan i n s = Some l \<Longrightarrow> l = 0 \<or> i + 2 \<le> l"
proof (induction i n s rule: quoted_scan.induct)
  case (2 i n c s)
  then show ?case by (fastforce split: bind_splits if_splits)
qed simp

text \<open>The length that was found does not depend on the bound, as long as it is below the bound.\<close>

lemma quoted_scan_limit:
  "quoted_scan i m s = Some (i + j + 2) \<Longrightarrow> i \<le> m \<Longrightarrow> i + j + 2 \<le> m' \<Longrightarrow>
   quoted_scan i m' s = Some (i + j + 2)"
proof (induction i m s arbitrary: j rule: quoted_scan.induct)
  case (2 i m c s)
  then obtain e where e: "end_of_quote (c # s) = Some e" by (auto split: bind_splits)
  show ?case
  proof (cases "\<not> e \<and> i < m")
    case True
    then have a: "c \<noteq> NUL" "quoted_scan (i + 1) m s = Some (i + j + 2)"
      using "2.prems" e by (auto split: if_splits)
    then have "1 \<le> j" using quoted_scan_ge by fastforce
    then obtain k where j: "j = Suc k" by (cases j) auto
    have "quoted_scan (i + 1) m' s = Some (i + 1 + k + 2)"
      using "2.IH" [OF e _ a(1)] True a(2) "2.prems" j by auto
    then show ?thesis using True e a(1) "2.prems"(3) j by simp
  next
    case False
    then show ?thesis using "2.prems" e by (cases e) (auto split: if_splits)
  qed
qed simp


section \<open>Tokens of a text\<close>

text \<open>The tokens of a text, with their types, as \<open>next\<close> enumerates them.\<close>

function token_texts :: "(char \<Rightarrow> nat \<Rightarrow> bool) \<Rightarrow> token \<Rightarrow> (token_type \<times> char list) list option" where
  "token_texts ident t =
     (case tk_start t of
        None \<Rightarrow> Some []
      | Some s \<Rightarrow>
          if \<not> token_valid t \<or> length s < tk_len t then Some []
          else do {
            ty \<leftarrow> token_kind ident t;
            t' \<leftarrow> token_next ident t;
            ws \<leftarrow> token_texts ident t';
            Some ((ty, take (tk_len t) s) # ws) })"
  by pat_completeness auto
termination
  by (relation "measure (token_rest \<circ> snd)")
     (auto dest!: token_next_rest simp: token_valid_def token_rest_def split: option.splits)

declare token_texts.simps [simp del]

text \<open>What the text of a token of each type looks like.\<close>

definition lexeme :: "(char \<Rightarrow> nat \<Rightarrow> bool) \<Rightarrow> token_type \<Rightarrow> char list \<Rightarrow> bool" where
  "lexeme ident ty w = (case ty of
     IDENT \<Rightarrow> w \<noteq> [] \<and> (\<forall>i < length w. ident (w ! i) i)
   | NUMBER \<Rightarrow> w \<noteq> [] \<and> (\<forall>c \<in> set w. is_digit c False)
   | WHITESPACE \<Rightarrow> w \<noteq> [] \<and> (\<forall>c \<in> set w. is_whitespace c)
   | STRING \<Rightarrow> length w \<ge> 2 \<and> hd w = CHR 0x22 \<and> last w = CHR 0x22
   | SINGLECHAR \<Rightarrow> length w = 1
   | END \<Rightarrow> False)"

lemma NUL_classes [simp]: "\<not> is_digit NUL False" "\<not> is_whitespace NUL" "\<not> is_letter NUL"
  by (simp_all add: is_digit_def digit_def code_def is_whitespace_def is_letter_def)

lemma set_take_nth: "(\<forall>j < k. P (t ! j)) \<Longrightarrow> k \<le> length t \<Longrightarrow> \<forall>c \<in> set (take k t). P c"
  by (auto simp: in_set_conv_nth)

lemma type_of_max:
  "0 < n \<Longrightarrow> 0 < m \<Longrightarrow> hd s \<noteq> CHR 0x22 \<Longrightarrow> type_of ident (Some s) n = type_of ident (Some s) m"
  by (cases s) (auto simp: type_of_def peek_def)

text \<open>The token at the start of a text: either it is a lexeme, or the text cannot be continued.\<close>

lemma token_new_text:
  assumes t: "NUL \<notin> set t" and x: "x \<noteq> CHR 0x22" and n: "length t + 1 < unat n"
    and pol: "\<And>i. \<not> ident NUL i"
  shows "\<exists>l ty. token_new ident (Some (t @ NUL # x # r)) n =
      Some \<lparr>tk_start = Some (t @ NUL # x # r), tk_max = n, tk_len = l\<rparr> \<and> l \<le> length t \<and>
      (l = 0 \<longrightarrow> t = [] \<or> hd t = CHR 0x22) \<and>
      (0 < l \<longrightarrow> type_of ident (Some (t @ NUL # x # r)) l = Some ty \<and> lexeme ident ty (take l t))"
proof (cases t)
  case Nil
  then show ?thesis using n by (simp add: token_new_def calc_len_def type_of_def peek_def)
next
  case (Cons c u)
  let ?s = "t @ NUL # x # r" and ?n = "unat n"
  have c: "c \<noteq> NUL" and p: "peek ?s 0 = Some c" using t Cons by (auto simp: peek_def)
  have new: "token_new ident (Some ?s) n = map_option (\<lambda>l. \<lparr>tk_start = Some ?s, tk_max = n, tk_len = l\<rparr>) (calc_len ident ?s ?n)"
    by (cases "calc_len ident ?s ?n") (simp_all add: token_new_def)
  have N: "0 < ?n" "length t < ?n" using n by auto
  have noq: "type_of ident (Some ?s) l = type_of ident (Some ?s) ?n" if "c \<noteq> CHR 0x22" "0 < l" for l
    using type_of_max [of l ?n ?s ident] that N Cons by simp
  have scan: "\<exists>k. scan_while P 0 ?n ?s = Some k \<and> k \<le> length t \<and> (\<forall>j < k. P (t ! j) j) \<and> 0 < k"
    if "P c 0" "\<And>i. \<not> P NUL i" for P
    using scan_while_text [of t P 0 ?n "x # r"] t that N Cons by auto
  consider (i) "ident c 0" | (d) "\<not> ident c 0" "is_digit c False"
    | (w) "\<not> ident c 0" "\<not> is_digit c False" "is_whitespace c"
    | (q) "\<not> ident c 0" "\<not> is_digit c False" "\<not> is_whitespace c" "c = CHR 0x22"
    | (s) "\<not> ident c 0" "\<not> is_digit c False" "\<not> is_whitespace c" "c \<noteq> CHR 0x22" by blast
  then show ?thesis
  proof cases
    case i
    have ty: "type_of ident (Some ?s) m = Some IDENT" if "0 < m" for m
      using that i p c by (simp add: type_of_def)
    obtain k where k: "scan_while ident 0 ?n ?s = Some k" "k \<le> length t" "\<forall>j < k. ident (t ! j) j" "0 < k"
      using scan [of ident] i pol by blast
    then show ?thesis using new ty N(1)
      by (intro exI [of _ k] exI [of _ IDENT]) (auto simp: calc_len_def lexeme_def)
  next
    case d
    have ty: "type_of ident (Some ?s) m = Some NUMBER" if "0 < m" for m
      using that d p c by (simp add: type_of_def)
    obtain k where k: "scan_while (\<lambda>c i. is_digit c False) 0 ?n ?s = Some k" "k \<le> length t"
        "\<forall>j < k. is_digit (t ! j) False" "0 < k"
      using scan [of "\<lambda>c i. is_digit c False"] d by auto
    then show ?thesis using new ty N(1) set_take_nth [OF k(3,2)]
      by (intro exI [of _ k] exI [of _ NUMBER]) (auto simp: calc_len_def lexeme_def)
  next
    case w
    have ty: "type_of ident (Some ?s) m = Some WHITESPACE" if "0 < m" for m
      using that w p c by (simp add: type_of_def)
    obtain k where k: "scan_while (\<lambda>c i. is_whitespace c) 0 ?n ?s = Some k" "k \<le> length t"
        "\<forall>j < k. is_whitespace (t ! j)" "0 < k"
      using scan [of "\<lambda>c i. is_whitespace c"] w by auto
    then show ?thesis using new ty N(1) set_take_nth [OF k(3,2)]
      by (intro exI [of _ k] exI [of _ WHITESPACE])
         (auto simp: calc_len_def lexeme_def scan_whitespace_while)
  next
    case q
    have ty: "type_of ident (Some ?s) m =
        map_option (\<lambda>l. if l \<noteq> 0 then STRING else END) (quoted_string_len ?s m)" if "0 < m" for m
      using that q p c by (cases "quoted_string_len ?s m") (simp_all add: type_of_def)
    consider (none) "quoted_string_len ?s ?n = Some 0"
      | (some) k where "quoted_string_len ?s ?n = Some (k + 2)" "k + 2 \<le> length t" "t ! (k + 1) = CHR 0x22"
      using quoted_scan_text [of t x 0 ?n r] t x N by (auto simp: quoted_string_len_def)
    then show ?thesis
    proof cases
      case none
      then show ?thesis using new ty [OF N(1)] q Cons by (simp add: calc_len_def)
    next
      case (some k)
      have "quoted_string_len ?s (k + 2) = Some (k + 2)"
        using quoted_scan_limit [of 0 ?n ?s k "k + 2"] some(1) by (simp add: quoted_string_len_def)
      moreover have "last (take (k + 2) t) = CHR 0x22"
        using some(2,3) by (subst last_conv_nth) auto
      ultimately show ?thesis using new ty [OF N(1)] ty [of "k + 2"] some(1,2) q Cons
        by (intro exI [of _ "k + 2"] exI [of _ STRING]) (simp add: calc_len_def lexeme_def)
    qed
  next
    case s
    have ty: "type_of ident (Some ?s) m = Some SINGLECHAR" if "0 < m" for m
      using that s p c by (simp add: type_of_def)
    then show ?thesis using new N Cons
      by (intro exI [of _ 1] exI [of _ SINGLECHAR]) (simp add: calc_len_def lexeme_def)
  qed
qed




lemmas scan_eval = token_new_def calc_len_def type_of_def quoted_string_len_def end_of_quote_def
  peek_def identifier_with_underline_def is_letter_def is_digit_def digit_def code_def
  is_whitespace_def token_next_def


section \<open>Limits that are not respected\<close>

text \<open>
  A quoted string whose closing mark is just behind the limit becomes a token that is longer
  than the limit, and the limit of the token behind it wraps around to the largest number.
\<close>

lemma quoted_token_exceeds_limit:
  "map_option tk_len (token_new identifier_with_underline
     (Some [CHR 0x22, CHR ''a'', CHR ''b'', CHR 0x22, NUL]) 3) = Some 4"
  "map_option tk_max (token_next identifier_with_underline
     \<lparr>tk_start = Some [CHR 0x22, CHR ''a'', CHR ''b'', CHR 0x22, NUL], tk_max = 3, tk_len = 4\<rparr>) =
     Some (- 1)"
  by (simp_all add: scan_eval)

text \<open>
  A quotation that is not closed makes the scanner look at the byte behind the terminator: the
  access can leave the buffer, and a quotation mark there closes the quotation.
\<close>

lemma quoted_token_crosses_terminator:
  "token_new identifier_with_underline (Some [CHR 0x22, CHR ''a'', NUL]) (- 1) = None"
  "map_option tk_len (token_new identifier_with_underline
     (Some [CHR 0x22, CHR ''a'', NUL, CHR 0x22, NUL]) (- 1)) = Some 4"
  by (simp_all add: scan_eval)

end
