(* ===== verification/Number_Round_Trip.thy ===== *)
theory Number_Round_Trip
  imports Number_Text
begin

text \<open>
  Printing and parsing of numbers are inverse to each other.  The reference for both is the
  list of the digits of a number, most significant first.
\<close>

section \<open>Digits\<close>

function digits_of :: "nat \<Rightarrow> nat \<Rightarrow> nat list" where
  "digits_of b v = (if v = 0 \<or> b < 2 then [] else digits_of b (v div b) @ [v mod b])"
  by pat_completeness auto
termination by (relation "measure snd") auto

declare digits_of.simps [simp del]

definition horner :: "'a::comm_semiring_1 \<Rightarrow> 'a \<Rightarrow> nat list \<Rightarrow> 'a" where
  "horner b = foldl (\<lambda>x d. x * b + of_nat d)"

lemma horner_simps [simp]:
  "horner b v [] = v"
  "horner b v (d # ds) = horner b (v * b + of_nat d) ds"
  "horner b v (ds @ es) = horner b (horner b v ds) es"
  by (simp_all add: horner_def)

lemma horner_of_nat: "horner (of_nat b) (of_nat v) ds = of_nat (horner b v ds)"
  by (induction ds arbitrary: v) (simp_all flip: of_nat_mult of_nat_add)

lemma horner_digits: "2 \<le> b \<Longrightarrow> horner b 0 (digits_of b v) = v"
proof (induction b v rule: digits_of.induct)
  case (1 b v)
  then show ?case by (subst digits_of.simps) auto
qed

lemma digits_less: "d \<in> set (digits_of b v) \<Longrightarrow> d < b"
proof (induction b v rule: digits_of.induct)
  case (1 b v)
  then show ?case by (subst (asm) (2) digits_of.simps) (auto split: if_splits)
qed

lemma digits_Nil_iff: "2 \<le> b \<Longrightarrow> digits_of b v = [] \<longleftrightarrow> v = 0"
  by (subst digits_of.simps) auto

lemma digits_length: "v < b ^ n \<Longrightarrow> length (digits_of b v) \<le> n"
proof (induction n arbitrary: v)
  case 0
  then show ?case by (subst digits_of.simps) simp
next
  case (Suc n)
  then have "v div b < b ^ n" by (simp add: less_mult_imp_div_less mult.commute)
  then show ?case using Suc.IH [of "v div b"] by (subst digits_of.simps) auto
qed


section \<open>Writing digits\<close>

lemma hex_table: "\<forall>d \<in> set [0..<16]. digit (ascii d) True = int d"
  by code_simp

lemma dec_table: "\<forall>d \<in> set [0..<10]. digit (ascii d) False = int d"
  by code_simp

lemma digit_ascii:
  assumes "d < (if hex then 16 else 10)"
  shows "digit (ascii d) hex = int d"
  using hex_table dec_table assms by (cases hex) simp_all

lemma digits_loop_digits:
  "2 \<le> base \<Longrightarrow> v < base ^ (cap - length acc) \<Longrightarrow>
   digits_loop base cap v acc = Some (map ascii (digits_of base v) @ acc)"
proof (induction base cap v acc rule: digits_loop.induct)
  case (1 base cap v acc)
  show ?case
  proof (cases "v = 0")
    case True
    then show ?thesis by (simp add: digits_loop.simps [of base] digits_of.simps)
  next
    case False
    then have l: "length acc < cap" using 1 by (cases "cap - length acc") auto
    then have "cap - length acc = Suc (cap - length (ascii (v mod base) # acc))" by simp
    then have "v div base < base ^ (cap - length (ascii (v mod base) # acc))"
      using "1.prems" by (simp add: less_mult_imp_div_less mult.commute)
    then show ?thesis using 1 False l
      by (subst digits_loop.simps, subst digits_of.simps) simp
  qed
qed

text \<open>
  The buffer of three characters for each byte suffices for every base from 8 on.
\<close>

lemma out_unsigned_digits:
  fixes v :: "64 word"
  assumes "8 \<le> base"
  shows "out_unsigned v base pad =
    (let ds = if v = 0 then [0] else digits_of base (unat v)
     in Some (map ascii (replicate (nat (pad - int (length ds))) 0 @ ds)))"
proof (cases "v = 0")
  case False
  have "unat v < 8 ^ 24" using unat_less_64 [of v] by simp
  also have "(8 :: nat) ^ 24 \<le> base ^ 24" using assms by (rule power_mono) simp
  finally show ?thesis using False assms
    by (simp add: out_unsigned_def digits_loop_digits Let_def)
qed (simp add: out_unsigned_def Let_def)


section \<open>Reading digits\<close>

lemma read_number_digits:
  assumes "\<forall>d \<in> set ds. d < (if base = 16 then 16 else 10)" "digit c (base = 16) < 0"
  shows "read_number base (map ascii ds @ c # r) v i =
    Some (horner (of_nat base) v ds, i + of_nat (length ds))"
  using assms(1)
proof (induction ds arbitrary: v i)
  case Nil
  then show ?case using assms(2) by simp
next
  case (Cons d ds)
  then show ?case by (simp add: digit_ascii)
qed

definition is_hex_mark :: "char \<Rightarrow> bool" where
  "is_hex_mark c \<longleftrightarrow> c = CHR ''x'' \<or> c = CHR ''X''"

lemma ascii_table:
  "\<forall>d \<in> set [0..<10]. ascii d \<noteq> NUL \<and> \<not> is_hex_mark (ascii d) \<and>
     ascii d \<noteq> CHR ''-'' \<and> ascii d \<noteq> CHR ''+''"
  by code_simp

lemma ascii_not_special:
  assumes "d < 10"
  shows "ascii d \<noteq> NUL" "\<not> is_hex_mark (ascii d)" "ascii d \<noteq> CHR ''-''" "ascii d \<noteq> CHR ''+''"
  using ascii_table assms by simp_all

lemma ascii_to_unsigned_decimal:
  assumes ds: "ds \<noteq> []" "\<forall>d \<in> set ds. d < 10" "length ds < 2 ^ LENGTH('a)"
    and c: "digit c False < 0" "\<not> is_hex_mark c" and b: "base = 0 \<or> base = 10"
  shows "ascii_to_unsigned (map ascii ds @ c # r) base =
    Some (length ds, Some (of_nat (horner 10 0 ds) :: 'a::len word))"
proof -
  obtain d es where d: "ds = d # es" using ds(1) by (cases ds) auto
  obtain y ys where y: "map ascii es @ c # r = y # ys" "\<not> is_hex_mark y"
    using c(2) ds(2) ascii_not_special(2) unfolding d by (cases es) auto
  have "read_number 10 (map ascii ds @ c # r) 0 (0 :: 'a word) =
      Some (horner (of_nat 10) (of_nat 0) ds :: 'a word, of_nat (length ds))"
    using read_number_digits [of ds 10 c r 0 0] ds(2) c(1) by simp
  moreover have "unat (of_nat (length ds) :: 'a word) = length ds"
    using ds(3) by (simp add: unat_of_nat)
  ultimately show ?thesis
    using ascii_not_special(1) [of d] ds(2) y b unfolding horner_of_nat
    by (auto simp: ascii_to_unsigned_def peek_def d is_hex_mark_def)
qed

lemma decimal_length:
  "length (digits_of 10 (unat (v :: 64 word))) \<le> 20"
  by (rule digits_length) (use unat_less_64 [of v] in simp)

definition decimal :: "64 word \<Rightarrow> nat list" where
  "decimal v = (if v = 0 then [0] else digits_of 10 (unat v))"

lemma decimal_props:
  "decimal v \<noteq> []" "\<forall>d \<in> set (decimal v). d < 10" "length (decimal v) \<le> 20"
  "horner 10 0 (decimal v) = unat v"
  using digits_Nil_iff [of 10 "unat v"] digits_less [of _ 10 "unat v"] decimal_length [of v]
    horner_digits [of 10 "unat v"] by (auto simp: decimal_def unsigned_eq_0_iff)

lemma print_ulong_decimal: "print_ulong v = Some (map ascii (decimal v))"
  by (simp add: print_ulong_def out_unsigned_digits decimal_def Let_def)

lemma ascii_to_decimal:
  assumes "digit c False < 0" "\<not> is_hex_mark c" "base = 0 \<or> base = 10"
  shows "ascii_to_unsigned (map ascii (decimal v) @ c # r) base =
    Some (length (decimal v), Some v)"
  using ascii_to_unsigned_decimal [OF decimal_props(1,2) _ assms, of v r, where 'a = 64]
    decimal_props(3,4) [of v] by simp

text \<open>
  A number printed by \<open>print\<close> is read back by \<open>ascii_to\<close>, if the character behind it is
  neither a digit nor the \<open>x\<close> of a hexadecimal prefix; all characters are consumed.
\<close>

theorem ulong_round_trip:
  assumes "digit c False < 0" "c \<noteq> CHR ''x''" "c \<noteq> CHR ''X''"
  shows "\<exists>t. print_ulong v = Some t \<and> length t \<le> 20 \<and>
    ascii_to_ulong (t @ c # r) = Some (length t, Some v)"
  using ascii_to_decimal [of c 0 v r] assms decimal_props(3) [of v]
  by (simp add: print_ulong_decimal ascii_to_ulong_def is_hex_mark_def)

lemma ulong_round_trip_witness:
  "\<exists>t. print_ulong 4711 = Some t \<and> ascii_to_ulong (t @ CHR '','' # ''rest'') = Some (length t, Some 4711)"
  using ulong_round_trip [of "CHR '',''" 4711 "''rest''"] by (auto simp: digit_def code_def)


section \<open>Signed numbers\<close>

lemma sless_zero_iff: "v <s 0 \<longleftrightarrow> sint (v :: 64 word) < 0"
  by (simp add: word_sless_alt)

lemma neg_not_negative:
  fixes v :: "64 word"
  assumes "v <s 0" "v \<noteq> 0x8000000000000000"
  shows "\<not> - v <s 0" "- v \<noteq> 0"
proof -
  have s: "sint v < 0" using assms(1) by (simp add: sless_zero_iff)
  have n: "sint v \<noteq> - (2 ^ 63)"
  proof
    assume "sint v = - (2 ^ 63)"
    then have "word_of_int (sint v) = (word_of_int (- (2 ^ 63)) :: 64 word)" by simp
    then show False using assms(2) by simp
  qed
  have "- (2 ^ 63) \<le> sint v" using sint_ge [of v] by simp
  with n have b: "- (2 ^ 63) < sint v" by simp
  have "sint (- v) = - sint v"
  proof -
    have "sint (- v) = signed_take_bit 63 (- sint v)"
      using sint_word_ariths(4) [of v] by simp
    also have "\<dots> = - sint v" using b s by (intro signed_take_bit_int_eq_self) auto
    finally show ?thesis .
  qed
  then show "\<not> - v <s 0" using s by (simp add: sless_zero_iff)
  show "- v \<noteq> 0" using s by auto
qed

lemma digits_loop_64: "digits_loop 10 24 (unat (v :: 64 word)) [] = Some (map ascii (digits_of 10 (unat v)))"
  by (subst digits_loop_digits) (use unat_less_64 [of v] in auto)

lemma out_signed_decimal:
  assumes "v \<noteq> 0x8000000000000000"
  shows "print_long v =
    Some (if v <s 0 then CHR ''-'' # map ascii (decimal (- v)) else map ascii (decimal v))"
proof (cases "v <s 0")
  case True
  then show ?thesis using neg_not_negative [OF True assms]
    by (simp add: print_long_def out_signed_def Let_def decimal_def digits_loop_64)
next
  case False
  then show ?thesis
    by (simp add: print_long_def out_signed_def Let_def decimal_def digits_loop_64)
qed

lemma NUL_no_digit [simp]: "digit NUL h < 0" "\<not> is_hex_mark NUL"
  by (simp_all add: digit_def code_def is_hex_mark_def)

text \<open>
  A signed number other than the least one is printed such that \<open>ascii_to\<close> reads it back.
\<close>

theorem long_round_trip:
  assumes "v \<noteq> 0x8000000000000000"
  shows "\<exists>t. print_long v = Some t \<and> ascii_to_long (t @ NUL # r) = Some (length t, Some v)"
proof -
  have rd: "ascii_to_unsigned (map ascii (decimal w) @ NUL # r) 10 =
      Some (length (decimal w), Some w)" for w :: "64 word"
    by (rule ascii_to_decimal) auto
  obtain d ds where d: "decimal v = d # ds" "d < 10"
    using decimal_props(1,2) [of v] by (cases "decimal v") auto
  have ne: "length (decimal w) \<noteq> 0" for w using decimal_props(1) [of w] by simp
  show ?thesis
  proof (cases "v <s 0")
    case True
    then show ?thesis using rd [of "- v"] ne [of "- v"]
      by (simp add: out_signed_decimal [OF assms] ascii_to_long_def peek_def)
  next
    case False
    have "ascii_to_long (map ascii (decimal v) @ NUL # r) = Some (length (decimal v), Some v)"
      using rd [of v] ne [of v] ascii_not_special(3,4) [OF d(2)] d(1)
      by (simp add: ascii_to_long_def peek_def)
    then show ?thesis using False by (simp add: out_signed_decimal [OF assms])
  qed
qed

lemma long_round_trip_witness:
  "\<exists>t. print_long (- 42) = Some t \<and> ascii_to_long (t @ NUL # ''x'') = Some (length t, Some (- 42))"
  by (rule long_round_trip) simp

text \<open>
  The least number is printed without its digits: the loop over the digits expects a positive
  value, which the negation does not yield.
\<close>

lemma least_long_printed_without_digits: "print_long 0x8000000000000000 = Some ''-''"
  by (simp add: print_long_def out_signed_def Let_def word_sless_alt)


section \<open>Byte values with a size suffix\<close>

lemma ascii_to_bytes_suffixed:
  assumes "digit c False < 0" "\<not> is_hex_mark c"
  shows "ascii_to_bytes (map ascii (decimal v) @ c # r) =
    (let n = length (decimal v) in
     if c = CHR ''G'' then Some (n + 1, v * 1024 * 1024 * 1024)
     else if c = CHR ''M'' then Some (n + 1, v * 1024 * 1024)
     else if c = CHR ''K'' then Some (n + 1, v * 1024) else Some (n, v))"
proof -
  have "peek (map ascii (decimal v) @ c # r) (length (decimal v)) = Some c"
    by (simp add: peek_def nth_append)
  moreover have "0 < length (decimal v)" using decimal_props(1) by simp
  ultimately show ?thesis
    using ascii_to_decimal [OF assms, of 0 v r] by (simp add: ascii_to_bytes_def Let_def)
qed

lemma unit_exact:
  fixes n k :: "64 word"
  assumes "n mod k = 0"
  shows "n div k * k = n"
  using assms by (metis add.right_neutral div_mult_mod_eq)

text \<open>
  The textual representation of a number of bytes, with its suffix, is parsed to the same
  number and consumed completely.
\<close>

theorem bytes_round_trip:
  "\<exists>t. print_bytes n = Some t \<and> ascii_to_bytes (t @ NUL # r) = Some (length t, n)"
proof -
  let ?d = "\<lambda>v. map ascii (decimal v)"
  have no: "digit (CHR ''G'') False < 0" "digit (CHR ''M'') False < 0" "digit (CHR ''K'') False < 0"
    "\<not> is_hex_mark (CHR ''G'')" "\<not> is_hex_mark (CHR ''M'')" "\<not> is_hex_mark (CHR ''K'')"
    by (simp_all add: digit_def code_def is_hex_mark_def)
  have units: "GB = 1024 * 1024 * 1024" "MB = 1024 * 1024" "KB = 1024"
    by (simp_all add: GB_def MB_def KB_def)
  consider "n = 0" | "n \<noteq> 0" "n mod GB = 0" | "n mod GB \<noteq> 0" "n mod MB = 0"
    | "n mod GB \<noteq> 0" "n mod MB \<noteq> 0" "n mod KB = 0"
    | "n \<noteq> 0" "n mod GB \<noteq> 0" "n mod MB \<noteq> 0" "n mod KB \<noteq> 0" by auto
  then show ?thesis
  proof cases
    case 1
    have "print_bytes n = Some (?d n)"
      using 1 by (simp add: print_bytes_def out_signed_def decimal_def Let_def)
    then show ?thesis using ascii_to_bytes_suffixed [of NUL n r] by simp
  next
    case 2
    then have "print_bytes n = Some (?d (n div GB) @ ''G'')"
      by (simp add: print_bytes_def print_ulong_decimal)
    then show ?thesis
      using ascii_to_bytes_suffixed [OF no(1,4), of "n div GB" "NUL # r"] unit_exact [OF 2(2)]
      by (simp add: Let_def units mult.assoc)
  next
    case 3
    then have "print_bytes n = Some (?d (n div MB) @ ''M'')"
      by (auto simp: print_bytes_def print_ulong_decimal)
    then show ?thesis
      using ascii_to_bytes_suffixed [OF no(2,5), of "n div MB" "NUL # r"] unit_exact [OF 3(2)]
      by (simp add: Let_def units mult.assoc)
  next
    case 4
    then have "print_bytes n = Some (?d (n div KB) @ ''K'')"
      by (auto simp: print_bytes_def print_ulong_decimal)
    then show ?thesis
      using ascii_to_bytes_suffixed [OF no(3,6), of "n div KB" "NUL # r"] unit_exact [OF 4(3)]
      by (simp add: Let_def units mult.assoc)
  next
    case 5
    then have "print_bytes n = Some (?d n)"
      by (simp add: print_bytes_def print_ulong_decimal)
    then show ?thesis using ascii_to_bytes_suffixed [of NUL n r] by simp
  qed
qed

end
