(* ===== verification/Text_Buffers.thy ===== *)
theory Text_Buffers
  imports Memory_Strings
begin

text \<open>
  Buffers for text: the \<open>String\<close> and \<open>Cstring\<close> classes of \<open>base/include/util/string.h\<close> and the
  \<open>Buffered_output\<close> of \<open>base/src/include/base/internal/output.h\<close>, with the functions of
  \<open>base/src/lib/base/output.cc\<close> that hand characters to an output.
\<close>

section \<open>Outputs\<close>

text \<open>What a \<open>print\<close> function does to an \<open>Output\<close>: a sequence of calls.\<close>

datatype output_call = Out_char char | Out_string "char list" nat

text \<open>The text of the calls, on which the outputs below agree up to their capacity.\<close>

fun call_text :: "output_call \<Rightarrow> char list" where
  "call_text (Out_char c) = [c]"
| "call_text (Out_string s n) = take n (ctext s)"

fun readable :: "output_call \<Rightarrow> bool" where
  "readable (Out_char c) = True"
| "readable (Out_string s n) = (NUL \<in> set s)"

text \<open>\<open>Output::out_string\<close> splits a string into characters; a null pointer yields none.\<close>

fun output_string :: "char list option \<Rightarrow> nat \<Rightarrow> char list option" where
  "output_string None n = Some []"
| "output_string (Some []) n = None"
| "output_string (Some (c # s)) n =
     (if c = NUL \<or> n = 0 then Some [] else map_option (Cons c) (output_string (Some s) (n - 1)))"

fun print_chars :: "char list \<Rightarrow> char list option" where
  "print_chars [] = None"
| "print_chars (c # s) = (if c = NUL then Some [] else map_option (Cons c) (print_chars s))"

definition print_cstr :: "char list option \<Rightarrow> char list option" where
  "print_cstr s = (case s of
     None \<Rightarrow> output_string (Some (''<null-string>'' @ [NUL])) UNLIMITED
   | Some s \<Rightarrow> print_chars s)"

lemma output_string_text: "NUL \<in> set s \<Longrightarrow> output_string (Some s) n = Some (take n (ctext s))"
proof (induction s arbitrary: n)
  case (Cons c s)
  then show ?case by (cases n) auto
qed simp

lemma print_chars_text: "NUL \<in> set s \<Longrightarrow> print_chars s = Some (ctext s)"
  by (induction s) auto


section \<open>Length-constrained strings\<close>

record cstring =
  cs_str :: "char list"
  cs_len :: nat

fun cstring_init_len :: "char list \<Rightarrow> nat \<Rightarrow> nat option" where
  "cstring_init_len [] n = None"
| "cstring_init_len (c # s) n =
     (if c = NUL \<or> n = 0 then Some 0 else map_option Suc (cstring_init_len s (n - 1)))"

definition cstring_new :: "char list \<Rightarrow> cstring option" where
  "cstring_new s = map_option (\<lambda>n. \<lparr>cs_str = s, cs_len = n\<rparr>) (strlen s)"

definition cstring_new_max :: "char list \<Rightarrow> nat \<Rightarrow> cstring option" where
  "cstring_new_max s n = map_option (\<lambda>n. \<lparr>cs_str = s, cs_len = n\<rparr>) (cstring_init_len s n)"

definition cstring_print :: "cstring \<Rightarrow> output_call" where
  "cstring_print s = Out_string (cs_str s) (cs_len s)"

definition cstring_length :: "cstring \<Rightarrow> nat" where
  "cstring_length s = cs_len s"

lemma cstring_text:
  "NUL \<in> set s \<Longrightarrow> \<exists>x. cstring_new_max s n = Some x \<and> call_text (cstring_print x) = take n (ctext s) \<and>
     cstring_length x = min n (length (ctext s))"
proof -
  assume "NUL \<in> set s"
  then have "cstring_init_len s n = Some (length (take n (ctext s)))"
  proof (induction s arbitrary: n)
    case (Cons c s)
    then show ?case by (cases n) (auto simp: min_def)
  qed simp
  then show ?thesis
    by (auto simp: cstring_new_max_def cstring_print_def cstring_length_def min_def)
qed


section \<open>Strings of a fixed capacity\<close>

record str =
  str_buf :: "char list"
  str_len :: nat

text \<open>\<open>Local_output\<close>: the buffer with the number of characters in it.\<close>

definition capacity_left :: "nat \<Rightarrow> nat \<Rightarrow> bool" where
  "capacity_left cap n \<longleftrightarrow> int cap - int n - 1 \<noteq> 0"

definition local_append :: "char list \<times> nat \<Rightarrow> char \<Rightarrow> (char list \<times> nat) option" where
  "local_append = (\<lambda>(buf, n) c. do { buf' \<leftarrow> put buf n c; Some (buf', n + 1) })"

definition local_out_char :: "nat \<Rightarrow> char list \<times> nat \<Rightarrow> char \<Rightarrow> (char list \<times> nat) option" where
  "local_out_char cap out c = (if capacity_left cap (snd out) then local_append out c else Some out)"

fun local_out_string ::
    "nat \<Rightarrow> char list \<times> nat \<Rightarrow> char list \<Rightarrow> nat \<Rightarrow> (char list \<times> nat) option" where
  "local_out_string cap out s 0 = Some out"
| "local_out_string cap out [] (Suc n) = (if capacity_left cap (snd out) then None else Some out)"
| "local_out_string cap out (c # s) (Suc n) =
     (if capacity_left cap (snd out) \<and> c \<noteq> NUL
      then do { out' \<leftarrow> local_append out c; local_out_string cap out' s n }
      else Some out)"

fun local_calls :: "nat \<Rightarrow> char list \<times> nat \<Rightarrow> output_call list \<Rightarrow> (char list \<times> nat) option" where
  "local_calls cap out [] = Some out"
| "local_calls cap out (Out_char c # cs) = do { out' \<leftarrow> local_out_char cap out c; local_calls cap out' cs }"
| "local_calls cap out (Out_string s n # cs) =
     do { out' \<leftarrow> local_out_string cap out s n; local_calls cap out' cs }"

text \<open>
  The constructors; \<open>buf\<close> is the uninitialised buffer of the object.  The default constructor
  leaves the length zero.
\<close>

definition string_default :: "char list \<Rightarrow> str" where
  "string_default buf = \<lparr>str_buf = buf, str_len = 0\<rparr>"

definition string_print :: "nat \<Rightarrow> char list \<Rightarrow> output_call list \<Rightarrow> str option" where
  "string_print cap buf calls = do {
     (buf, n) \<leftarrow> local_calls cap (buf, 0) calls;
     buf \<leftarrow> put buf n NUL;
     Some \<lparr>str_buf = buf, str_len = n + 1\<rparr> }"

definition string_of_cstr :: "nat \<Rightarrow> char list \<Rightarrow> char list \<Rightarrow> str option" where
  "string_of_cstr cap buf s = do {
     l \<leftarrow> strlen s;
     (let n = min (l + 1) cap in do { buf \<leftarrow> strncpy buf s n; Some \<lparr>str_buf = buf, str_len = n\<rparr> }) }"

definition string_valid :: "nat \<Rightarrow> str \<Rightarrow> bool" where
  "string_valid cap s \<longleftrightarrow> str_len s \<le> cap \<and> str_len s \<noteq> 0 \<and> str_buf s ! (str_len s - 1) = NUL"

definition string_chars :: "nat \<Rightarrow> str \<Rightarrow> char list" where
  "string_chars cap s = (if string_valid cap s then str_buf s else [NUL])"

definition string_copy :: "nat \<Rightarrow> char list \<Rightarrow> nat \<Rightarrow> str \<Rightarrow> str option" where
  "string_copy cap buf cap' other =
     (let n = min (str_len other) cap in do {
        buf \<leftarrow> strncpy buf (string_chars cap' other) n; Some \<lparr>str_buf = buf, str_len = n\<rparr> })"

definition string_eq_cstr :: "nat \<Rightarrow> str \<Rightarrow> char list \<Rightarrow> bool option" where
  "string_eq_cstr cap s other = map_option (\<lambda>d. d = 0) (strcmp (string_chars cap s) other)"

definition string_eq :: "nat \<Rightarrow> str \<Rightarrow> nat \<Rightarrow> str \<Rightarrow> bool option" where
  "string_eq cap s cap' t = map_option (\<lambda>d. d = 0) (strcmp (string_chars cap s) (string_chars cap' t))"

text \<open>The objects that hold a text, and the text that a capacity leaves of a longer one.\<close>

definition fit :: "nat \<Rightarrow> char list \<Rightarrow> char list" where
  "fit cap t = take (cap - 1) t"

definition holds :: "nat \<Rightarrow> str \<Rightarrow> char list \<Rightarrow> bool" where
  "holds cap s t \<longleftrightarrow> NUL \<notin> set t \<and> length (str_buf s) = cap \<and> str_len s = length t + 1 \<and>
     length t < cap \<and> take (str_len s) (str_buf s) = t @ [NUL]"

lemma holds_valid:
  assumes "holds cap s t"
  shows "string_valid cap s" "ctext (string_chars cap s) = t" "NUL \<in> set (string_chars cap s)"
proof -
  have b: "str_buf s = t @ NUL # drop (str_len s) (str_buf s)"
    using assms by (metis append.assoc append_Cons append_Nil append_take_drop_id holds_def)
  have "str_buf s ! (str_len s - 1) = NUL"
    using assms by (subst b) (simp add: holds_def)
  then show v: "string_valid cap s" using assms by (auto simp: string_valid_def holds_def)
  show "ctext (string_chars cap s) = t"
    using v assms by (subst string_chars_def, subst b) (simp add: holds_def)
  show "NUL \<in> set (string_chars cap s)"
    using v by (subst string_chars_def, subst b) simp
qed

lemma local_append_at:
  "n < length buf \<Longrightarrow> local_append (buf, n) c = Some (buf[n := c], n + 1)"
  by (simp add: local_append_def put_def)

lemma take_Suc_update: "n < length buf \<Longrightarrow> take (Suc n) (buf[n := c]) = take n buf @ [c]"
  by (simp add: take_Suc_conv_app_nth)

lemma local_out_string_fits:
  "NUL \<in> set s \<Longrightarrow> m < cap \<Longrightarrow> length buf = cap \<Longrightarrow> take m buf = t \<Longrightarrow>
   \<exists>buf' t'. local_out_string cap (buf, m) s n = Some (buf', length t') \<and> length buf' = cap \<and>
     length t' < cap \<and> take (length t') buf' = t' \<and> t' = fit cap (t @ take n (ctext s))"
proof (induction s arbitrary: m buf t n)
  case (Cons c s)
  have lt: "length t = m" using Cons.prems by auto
  show ?case
  proof (cases "n = 0 \<or> c = NUL \<or> \<not> capacity_left cap m")
    case True
    have "fit cap (t @ take n (ctext (c # s))) = t"
      using True Cons.prems lt by (cases n) (auto simp: fit_def capacity_left_def)
    moreover have "local_out_string cap (buf, m) (c # s) n = Some (buf, m)"
      using True by (cases n) auto
    ultimately show ?thesis using Cons.prems lt by (intro exI [of _ buf] exI [of _ t]) auto
  next
    case False
    then obtain k where k: "n = Suc k" by (cases n) auto
    have m: "Suc m < cap" using False Cons.prems by (auto simp: capacity_left_def)
    have "take (Suc m) (buf[m := c]) = t @ [c]"
      using Cons.prems take_Suc_update [of m buf c] by simp
    with Cons.IH [of "Suc m" "buf[m := c]" "t @ [c]" k] Cons.prems m False
    show ?thesis by (auto simp: k local_append_at)
  qed
qed simp

lemma local_calls_fit:
  "\<forall>c \<in> set cs. readable c \<Longrightarrow> m < cap \<Longrightarrow> length buf = cap \<Longrightarrow> take m buf = t \<Longrightarrow>
   \<exists>buf' t'. local_calls cap (buf, m) cs = Some (buf', length t') \<and> length buf' = cap \<and>
     length t' < cap \<and> take (length t') buf' = t' \<and> t' = fit cap (t @ concat (map call_text cs))"
proof (induction cs arbitrary: m buf t)
  case Nil
  then have "length t = m" "m \<le> cap - 1" by auto
  with Nil show ?case by (intro exI [of _ buf] exI [of _ t]) (simp add: fit_def)
next
  case (Cons c cs)
  have fit: "fit cap (fit cap (t @ x) @ y) = fit cap (t @ x @ y)" for x y
    by (simp add: fit_def min_def)
  have "\<exists>buf' t'. (case c of Out_char c \<Rightarrow> local_out_char cap (buf, m) c
        | Out_string s n \<Rightarrow> local_out_string cap (buf, m) s n) = Some (buf', length t') \<and>
      length buf' = cap \<and> length t' < cap \<and> take (length t') buf' = t' \<and> t' = fit cap (t @ call_text c)"
  proof (cases c)
    case (Out_char x)
    have lt: "length t = m" using Cons.prems by auto
    show ?thesis
    proof (cases "capacity_left cap m")
      case True
      then have "take (Suc m) (buf[m := x]) = t @ [x]" "Suc m < cap"
        using Cons.prems take_Suc_update [of m buf x] by (auto simp: capacity_left_def)
      then show ?thesis using True lt Cons.prems Out_char
        by (intro exI [of _ "buf[m := x]"] exI [of _ "t @ [x]"])
           (auto simp: local_out_char_def local_append_at fit_def)
    next
      case False
      then show ?thesis using lt Cons.prems Out_char
        by (intro exI [of _ buf] exI [of _ t]) (auto simp: local_out_char_def fit_def capacity_left_def)
    qed
  next
    case (Out_string s n)
    then show ?thesis using local_out_string_fits [of s m cap buf t n] Cons.prems by auto
  qed
  then obtain buf' t' where step: "(case c of Out_char c \<Rightarrow> local_out_char cap (buf, m) c
        | Out_string s n \<Rightarrow> local_out_string cap (buf, m) s n) = Some (buf', length t')"
      "length buf' = cap" "length t' < cap" "take (length t') buf' = t'" "t' = fit cap (t @ call_text c)"
    by blast
  have "local_calls cap (buf, m) (c # cs) = local_calls cap (buf', length t') cs"
    using step(1) by (cases c) auto
  moreover have "fit cap (t' @ concat (map call_text cs)) = fit cap (t @ concat (map call_text (c # cs)))"
    unfolding step(5) fit by simp
  ultimately show ?case
    using Cons.IH [of "length t'" buf' t'] Cons.prems(1) step(2-4) by auto
qed

lemma holds_intro:
  assumes "length buf = cap" "length t < cap" "take (length t) buf = t" "NUL \<notin> set t"
  shows "\<exists>s. put buf (length t) NUL = Some s \<and> holds cap \<lparr>str_buf = s, str_len = length t + 1\<rparr> t"
  using assms take_Suc_update [of "length t" buf NUL] by (simp add: put_def holds_def)



lemma string_eq_texts:
  assumes "holds cap s t" "holds cap' s' t'" "cap \<le> UNLIMITED" "cap' \<le> UNLIMITED"
  shows "string_eq cap s cap' s' = Some (t = t')"
proof -
  have "length t \<le> UNLIMITED" "length t' \<le> UNLIMITED" using assms by (auto simp: holds_def)
  then show ?thesis
    using strcmp_n_zero [of "string_chars cap s" "string_chars cap' s'" UNLIMITED]
      holds_valid [OF assms(1)] holds_valid [OF assms(2)]
    by (auto simp: string_eq_def strcmp_def)
qed


section \<open>Buffered output\<close>

text \<open>The strings handed to the backend are part of the state.\<close>

record buffered =
  bo_buf :: "char list"
  bo_num :: nat
  bo_written :: "char list list"

definition bo_flush :: "buffered \<Rightarrow> buffered option" where
  "bo_flush b = do {
     buf \<leftarrow> put (bo_buf b) (bo_num b) NUL;
     Some (b\<lparr>bo_buf := buf, bo_written := bo_written b @ [ctext buf], bo_num := 0\<rparr>) }"

definition bo_out_char :: "buffered \<Rightarrow> char \<Rightarrow> buffered option" where
  "bo_out_char b c = do {
     b \<leftarrow> if c = CHR 0x1B \<and> bo_num b + 8 > length (bo_buf b) then bo_flush b else Some b;
     buf \<leftarrow> put (bo_buf b) (bo_num b) c;
     (let b = b\<lparr>bo_buf := buf, bo_num := bo_num b + 1\<rparr> in
      if c = CHR 0x0A \<or> bo_num b \<ge> length (bo_buf b) - 1 then bo_flush b else Some b) }"

fun bo_out_chars :: "buffered \<Rightarrow> char list \<Rightarrow> buffered option" where
  "bo_out_chars b [] = Some b"
| "bo_out_chars b (c # cs) = do { b' \<leftarrow> bo_out_char b c; bo_out_chars b' cs }"

definition bo_pending :: "buffered \<Rightarrow> char list" where
  "bo_pending b = take (bo_num b) (bo_buf b)"

definition bo_ok :: "buffered \<Rightarrow> bool" where
  "bo_ok b \<longleftrightarrow> bo_num b + 1 < length (bo_buf b) \<and> NUL \<notin> set (bo_pending b)"

lemma bo_flush_ok:
  assumes "bo_num b < length (bo_buf b)" "NUL \<notin> set (bo_pending b)"
  shows "\<exists>b'. bo_flush b = Some b' \<and> bo_num b' = 0 \<and> length (bo_buf b') = length (bo_buf b) \<and>
    bo_pending b' = [] \<and> concat (bo_written b') = concat (bo_written b) @ bo_pending b"
proof -
  have "(bo_buf b)[bo_num b := NUL] = bo_pending b @ NUL # drop (Suc (bo_num b)) (bo_buf b)"
    using assms(1) by (simp add: bo_pending_def upd_conv_take_nth_drop)
  then have "ctext ((bo_buf b)[bo_num b := NUL]) = bo_pending b" using assms(2) by simp
  then show ?thesis using assms(1) by (simp add: bo_flush_def put_def bo_pending_def)
qed

lemma bo_out_char_ok:
  assumes "bo_ok b" "c \<noteq> NUL"
  shows "\<exists>b'. bo_out_char b c = Some b' \<and> bo_ok b' \<and> length (bo_buf b') = length (bo_buf b) \<and>
    concat (bo_written b') @ bo_pending b' = concat (bo_written b) @ bo_pending b @ [c]"
proof -
  have append: "\<exists>b'. (do { buf \<leftarrow> put (bo_buf b) (bo_num b) c;
     (let b = b\<lparr>bo_buf := buf, bo_num := bo_num b + 1\<rparr> in
      if c = CHR 0x0A \<or> bo_num b \<ge> length (bo_buf b) - 1 then bo_flush b else Some b) }) = Some b' \<and>
      bo_ok b' \<and> length (bo_buf b') = length (bo_buf b) \<and>
      concat (bo_written b') @ bo_pending b' = concat (bo_written b) @ bo_pending b @ [c]"
    if "bo_ok b" for b
  proof -
    let ?b = "b\<lparr>bo_buf := (bo_buf b)[bo_num b := c], bo_num := bo_num b + 1\<rparr>"
    have p: "bo_pending ?b = bo_pending b @ [c]"
      using that take_Suc_update [of "bo_num b" "bo_buf b" c] by (simp add: bo_pending_def bo_ok_def)
    have n: "NUL \<notin> set (bo_pending ?b)" using that assms(2) p by (simp add: bo_ok_def)
    have l: "bo_num ?b < length (bo_buf ?b)" using that by (simp add: bo_ok_def)
    obtain b' where "bo_flush ?b = Some b'" "bo_num b' = 0" "length (bo_buf b') = length (bo_buf b)"
      "bo_pending b' = []" "concat (bo_written b') = concat (bo_written b) @ bo_pending b @ [c]"
      using bo_flush_ok [OF l n] p by auto
    then show ?thesis using that p n by (auto simp: put_def bo_ok_def Let_def)
  qed
  show ?thesis
  proof (cases "c = CHR 0x1B \<and> bo_num b + 8 > length (bo_buf b)")
    case True
    obtain b1 where b1: "bo_flush b = Some b1" "bo_num b1 = 0" "length (bo_buf b1) = length (bo_buf b)"
      "bo_pending b1 = []" "concat (bo_written b1) = concat (bo_written b) @ bo_pending b"
      using bo_flush_ok [of b] assms(1) by (auto simp: bo_ok_def)
    have "bo_ok b1" using b1 assms(1) by (simp add: bo_ok_def)
    from append [OF this] b1 True show ?thesis by (simp add: bo_out_char_def)
  next
    case False
    from append [OF assms(1)] False show ?thesis by (auto simp: bo_out_char_def)
  qed
qed

text \<open>
  A buffered output passes every character on exactly once and in order: what the backend
  has got, followed by what is still in the buffer, is what was printed.  No access leaves the
  buffer.
\<close>

theorem buffered_output_lossless:
  assumes "bo_ok b" "NUL \<notin> set cs"
  shows "\<exists>b'. bo_out_chars b cs = Some b' \<and> bo_ok b' \<and>
    concat (bo_written b') @ bo_pending b' = concat (bo_written b) @ bo_pending b @ cs"
  using assms
proof (induction cs arbitrary: b)
  case (Cons c cs)
  obtain b1 where "bo_out_char b c = Some b1" "bo_ok b1"
      "concat (bo_written b1) @ bo_pending b1 = concat (bo_written b) @ bo_pending b @ [c]"
    using bo_out_char_ok [of b c] Cons.prems by auto
  with Cons.IH [of b1] Cons.prems show ?case by auto
qed simp

lemma buffered_output_lossless_witness:
  "\<exists>b'. bo_out_chars \<lparr>bo_buf = ''....'', bo_num = 0, bo_written = []\<rparr> ''core-hw'' = Some b' \<and>
     concat (bo_written b') @ bo_pending b' = ''core-hw''"
  using buffered_output_lossless [of "\<lparr>bo_buf = ''....'', bo_num = 0, bo_written = []\<rparr>" "''core-hw''"]
  by (auto simp: bo_ok_def bo_pending_def)

end
