(* ===== verification/Arg_Strings_Correct.thy ===== *)
theory Arg_Strings_Correct
  imports Arg_Strings Tokens_Correct Number_Round_Trip Text_Buffers "HOL-Library.Sublist"
begin

text \<open>
  Argument strings as lists of pairs of a key and a value.  The keys are identifiers, the
  values are identifiers or numbers; \<open>render\<close> is the text of such a list as \<open>add_arg\<close> writes it.
\<close>

definition ident_text :: "char list \<Rightarrow> bool" where
  "ident_text w \<longleftrightarrow> w \<noteq> [] \<and> (\<forall>i < length w. arg_ident (w ! i) i)"

definition number_text :: "char list \<Rightarrow> bool" where
  "number_text w \<longleftrightarrow> w \<noteq> [] \<and> (\<forall>c \<in> set w. is_digit c False)"

definition plain :: "char list \<Rightarrow> bool" where
  "plain w \<longleftrightarrow> ident_text w \<or> number_text w"

definition separator :: "char \<Rightarrow> bool" where
  "separator c \<longleftrightarrow> c = NUL \<or> c = CHR '','' \<or> c = CHR ''='' \<or> c = CHR '' ''"

definition kvs_ok :: "(char list \<times> char list) list \<Rightarrow> bool" where
  "kvs_ok kvs \<longleftrightarrow> (\<forall>(k, v) \<in> set kvs. ident_text k \<and> plain v)"

fun render :: "(char list \<times> char list) list \<Rightarrow> char list" where
  "render [] = []"
| "render ((k, v) # kvs) = k @ ''='' @ v @ (if kvs = [] then [] else '', '' @ render kvs)"

definition behind :: "(char list \<times> char list) list \<Rightarrow> char list \<Rightarrow> char list" where
  "behind kvs r = (if kvs = [] then NUL # r else '', '' @ render kvs @ NUL # r)"

abbreviation tok :: "char list \<Rightarrow> 64 word \<Rightarrow> nat \<Rightarrow> token" where
  "tok s n l \<equiv> \<lparr>tk_start = Some s, tk_max = n, tk_len = l\<rparr>"

abbreviation lex :: "char list \<Rightarrow> 64 word \<Rightarrow> token option" where
  "lex s n \<equiv> token_new arg_ident (Some s) n"

lemma render_Cons: "render ((k, v) # kvs) @ NUL # r = k @ CHR ''='' # v @ behind kvs r"
  by (simp add: behind_def)

declare render.simps(2) [simp del]

lemmas char_classes = identifier_with_underline_def is_letter_def is_digit_def digit_def code_def
  is_whitespace_def

lemma separator_class:
  "separator c \<Longrightarrow> \<not> arg_ident c i" "separator c \<Longrightarrow> \<not> is_digit c False"
  by (auto simp: separator_def char_classes)

lemma behind_separator: "\<exists>c s. behind kvs r = c # s \<and> separator c"
  by (auto simp: behind_def separator_def)

lemma ident_not_space: "arg_ident c i \<Longrightarrow> c \<noteq> NUL \<and> c \<noteq> CHR '','' \<and> c \<noteq> CHR ''='' \<and> \<not> is_whitespace c"
  by (auto simp: char_classes)

lemma digit_not_space: "is_digit c False \<Longrightarrow> c \<noteq> NUL \<and> c \<noteq> CHR '','' \<and> c \<noteq> CHR ''='' \<and> \<not> is_whitespace c \<and> \<not> arg_ident c 0"
  by (auto simp: char_classes split: if_splits)

lemma plain_hd:
  "plain w \<Longrightarrow> \<exists>c u. w = c # u \<and> c \<noteq> NUL \<and> c \<noteq> CHR '','' \<and> c \<noteq> CHR ''='' \<and> \<not> is_whitespace c"
proof -
  assume p: "plain w"
  then obtain c u where w: "w = c # u"
    by (cases w) (auto simp: plain_def ident_text_def number_text_def)
  then have "arg_ident c 0 \<or> is_digit c False"
    using p by (auto simp: plain_def ident_text_def number_text_def)
  then show ?thesis using ident_not_space [of c 0] digit_not_space [of c] w by blast
qed

lemma ident_text_no_NUL: "ident_text w \<Longrightarrow> NUL \<notin> set w"
  by (auto simp: ident_text_def in_set_conv_nth dest: ident_not_space)

lemma plain_no_NUL: "plain w \<Longrightarrow> NUL \<notin> set w"
  by (auto simp: plain_def ident_text_no_NUL number_text_def dest: digit_not_space)


section \<open>The tokens of a rendered list\<close>

lemma type_plain:
  assumes "plain w" "0 < n"
  shows "type_of arg_ident (Some (w @ s)) n = Some (if ident_text w then IDENT else NUMBER)"
proof -
  obtain c u where w: "w = c # u" "c \<noteq> NUL" using plain_hd [OF assms(1)] by blast
  show ?thesis
  proof (cases "ident_text w")
    case True
    then have "arg_ident c 0" using w by (auto simp: ident_text_def)
    then show ?thesis using True w assms(2) by (simp add: type_of_def peek_def)
  next
    case False
    then have "is_digit c False" using assms(1) w by (auto simp: plain_def number_text_def)
    then show ?thesis using False w assms(2) digit_not_space [of c] by (simp add: type_of_def peek_def)
  qed
qed

lemma lex_plain:
  assumes w: "plain w" and c: "separator c" and n: "length w < unat n"
  shows "lex (w @ c # r) n = Some (tok (w @ c # r) n (length w))"
proof -
  have n0: "0 < unat n" using n by simp
  show ?thesis
  proof (cases "ident_text w")
    case True
    then have "scan_while arg_ident 0 (unat n) (w @ c # r) = Some (0 + length w)"
      using c n by (intro scan_while_prefix) (auto simp: ident_text_def separator_class)
    then show ?thesis using type_plain [OF w n0, of "c # r"] True
      by (simp add: token_new_def calc_len_def)
  next
    case False
    then have "number_text w" using w by (simp add: plain_def)
    then have "scan_while (\<lambda>c i. is_digit c False) 0 (unat n) (w @ c # r) = Some (0 + length w)"
      using c n by (intro scan_while_prefix) (auto simp: number_text_def separator_class)
    then show ?thesis using type_plain [OF w n0, of "c # r"] False
      by (simp add: token_new_def calc_len_def)
  qed
qed

lemma lex_single:
  assumes "c = CHR ''='' \<or> c = CHR '',''" "0 < unat n"
  shows "lex (c # r) n = Some (tok (c # r) n 1)" "type_of arg_ident (Some (c # r)) 1 = Some SINGLECHAR"
proof -
  have "\<not> arg_ident c 0" "\<not> is_digit c False" "\<not> is_whitespace c"
    using assms(1) separator_class [of c] by (auto simp: separator_def is_whitespace_def)
  then show "lex (c # r) n = Some (tok (c # r) n 1)" "type_of arg_ident (Some (c # r)) 1 = Some SINGLECHAR"
    using assms by (auto simp: token_new_def calc_len_def type_of_def peek_def)
qed

lemma lex_end: "lex (NUL # r) n = Some (tok (NUL # r) n 0)"
  by (simp add: token_new_def calc_len_def type_of_def peek_def)

lemma lex_space:
  assumes "\<not> is_whitespace c" "1 < unat n"
  shows "lex (CHR '' '' # c # r) n = Some (tok (CHR '' '' # c # r) n 1)"
    "type_of arg_ident (Some (CHR '' '' # c # r)) 1 = Some WHITESPACE"
proof -
  have "\<not> arg_ident (CHR '' '') 0" "\<not> is_digit (CHR '' '') False" "is_whitespace (CHR '' '')"
    by (simp_all add: char_classes)
  then show "lex (CHR '' '' # c # r) n = Some (tok (CHR '' '' # c # r) n 1)"
    "type_of arg_ident (Some (CHR '' '' # c # r)) 1 = Some WHITESPACE"
    using assms by (auto simp: token_new_def calc_len_def type_of_def peek_def)
qed

lemma next_tok:
  "token_next arg_ident (tok (w @ s) n (length w)) = lex s (n - of_nat (length w))"
  by (simp add: token_next_def)

lemma unat_advance:
  assumes "l \<le> unat (n :: 64 word)"
  shows "unat (n - of_nat l) = unat n - l"
proof -
  have "unat (of_nat l :: 64 word) = l" using assms unat_less_64 [of n] by (simp add: unat_of_nat)
  moreover from this have "of_nat l \<le> n" using assms by (simp add: word_le_nat_alt)
  ultimately show ?thesis by (simp add: unat_sub)
qed

lemma eat_plain: "plain w \<Longrightarrow> eat_whitespace arg_ident (tok (w @ s) n (length w)) = Some (tok (w @ s) n (length w))"
  using type_plain [of w "length w" s] plain_hd [of w] by (auto simp: eat_whitespace_def token_kind_def)

lemma next_eat_to_single:
  assumes "c = CHR ''='' \<or> c = CHR '',''" "length w < unat n"
  shows "next_eat arg_ident (tok (w @ c # s) n (length w)) = Some (tok (c # s) (n - of_nat (length w)) 1)"
  using assms lex_single [of c "n - of_nat (length w)" s] unat_advance [of "length w" n]
  by (simp add: next_eat_def next_tok eat_whitespace_def token_kind_def)

lemma next_eat_to_end:
  "next_eat arg_ident (tok (w @ NUL # s) n (length w)) = Some (tok (NUL # s) (n - of_nat (length w)) 0)"
  by (simp add: next_eat_def next_tok lex_end eat_whitespace_def token_kind_def type_of_def)

lemma next_eat_to_plain:
  assumes "plain v" "separator c" "length v + 1 < unat n"
  shows "next_eat arg_ident (tok (d # v @ c # s) n 1) = Some (tok (v @ c # s) (n - 1) (length v))"
  using assms lex_plain [of v c "n - 1" s] unat_advance [of 1 n] eat_plain [of v "c # s" "n - 1"]
    next_tok [of "[d]" "v @ c # s" n]
  by (simp add: next_eat_def)

lemma next_eat_over_space:
  assumes "plain v" "separator c" "length v + 2 < unat n"
  shows "next_eat arg_ident (tok (d # CHR '' '' # v @ c # s) n 1) = Some (tok (v @ c # s) (n - 2) (length v))"
proof -
  obtain x u where v: "v = x # u" "\<not> is_whitespace x" using plain_hd [OF assms(1)] by blast
  have n1: "unat (n - 1) = unat n - 1" using unat_advance [of 1 n] assms(3) by simp
  have "token_next arg_ident (tok (d # CHR '' '' # v @ c # s) n 1) = lex (CHR '' '' # v @ c # s) (n - 1)"
    using next_tok [of "[d]"] by simp
  also have "\<dots> = Some (tok (CHR '' '' # v @ c # s) (n - 1) 1)"
    using lex_space(1) [of x "n - 1" "u @ c # s"] v n1 assms(3) by simp
  finally have a: "token_next arg_ident (tok (d # CHR '' '' # v @ c # s) n 1) =
    Some (tok (CHR '' '' # v @ c # s) (n - 1) 1)" .
  have "token_next arg_ident (tok (CHR '' '' # v @ c # s) (n - 1) 1) = lex (v @ c # s) (n - 1 - 1)"
    using next_tok [of "['' '' ! 0]" "v @ c # s" "n - 1"] by simp
  also have "\<dots> = Some (tok (v @ c # s) (n - 2) (length v))"
    using lex_plain [of v c "n - 2" s] unat_advance [of 2 n] assms by simp
  finally show ?thesis
    using a lex_space(2) [of x "n - 1" "u @ c # s"] v n1 assms(3)
    by (simp add: next_eat_def eat_whitespace_def token_kind_def)
qed

lemma plain_token_facts:
  assumes "plain w"
  shows "token_valid (tok (w @ s) n (length w))"
    "\<exists>c. token_at (tok (w @ s) n (length w)) 0 = Some c \<and> c \<noteq> CHR '','' \<and> c \<noteq> CHR ''=''"
  using plain_hd [OF assms] by (auto simp: token_valid_def token_at_def peek_def)

lemma single_token_facts:
  "token_valid (tok (c # s) n 1)" "token_at (tok (c # s) n 1) 0 = Some c"
  by (simp_all add: token_valid_def token_at_def peek_def)

lemma arg_value_at_equals:
  "arg_value (tok (CHR ''='' # s) n 1) = next_eat arg_ident (tok (CHR ''='' # s) n 1)"
  using single_token_facts [of "CHR ''=''" s n] by (subst arg_value.simps) (simp del: One_nat_def)

lemma arg_value_skip:
  "token_valid t \<Longrightarrow> token_at t 0 = Some c \<Longrightarrow> c \<noteq> CHR '','' \<Longrightarrow> c \<noteq> CHR ''='' \<Longrightarrow>
   next_eat arg_ident t = Some t' \<Longrightarrow> arg_value t = arg_value t'"
  by (subst arg_value.simps) simp

lemma next_key_at_comma:
  "next_key (tok (CHR '','' # s) n 1) = next_eat arg_ident (tok (CHR '','' # s) n 1)"
  using single_token_facts [of "CHR '',''" s n] by (subst next_key.simps) (simp del: One_nat_def)

lemma next_key_skip:
  "token_valid t \<Longrightarrow> token_at t 0 = Some c \<Longrightarrow> c \<noteq> CHR '','' \<Longrightarrow>
   next_eat arg_ident t = Some t' \<Longrightarrow> next_key t = next_key t'"
  by (subst next_key.simps) simp

lemma kvs_ok_simps [simp]:
  "kvs_ok []" "kvs_ok ((k, v) # kvs) \<longleftrightarrow> ident_text k \<and> plain v \<and> kvs_ok kvs"
  by (auto simp: kvs_ok_def)

lemma ident_plain [simp]: "ident_text w \<Longrightarrow> plain w"
  by (simp add: plain_def)

lemma arg_value_entry:
  assumes "ident_text k" "plain v" "length (k @ CHR ''='' # v @ behind kvs r) < unat n"
  shows "\<exists>m. arg_value (tok (k @ CHR ''='' # v @ behind kvs r) n (length k)) =
      Some (tok (v @ behind kvs r) m (length v))"
proof -
  let ?m = "n - of_nat (length k)"
  obtain c s where c: "behind kvs r = c # s" "separator c" using behind_separator by blast
  obtain x where x: "token_at (tok (k @ CHR ''='' # v @ c # s) n (length k)) 0 = Some x"
      "x \<noteq> CHR '',''" "x \<noteq> CHR ''=''"
    using plain_token_facts(2) [of k "CHR ''='' # v @ c # s" n] assms(1) by auto
  have m: "unat ?m = unat n - length k" using assms(3) by (intro unat_advance) simp
  have "next_eat arg_ident (tok (k @ CHR ''='' # v @ c # s) n (length k)) = Some (tok (CHR ''='' # v @ c # s) ?m 1)"
    using assms(3) by (intro next_eat_to_single) auto
  moreover have "next_eat arg_ident (tok (CHR ''='' # v @ c # s) ?m 1) = Some (tok (v @ c # s) (?m - 1) (length v))"
    using assms(2,3) c m by (intro next_eat_to_plain) auto
  then have "arg_value (tok (CHR ''='' # v @ c # s) ?m 1) = Some (tok (v @ c # s) (?m - 1) (length v))"
    unfolding arg_value_at_equals .
  ultimately have "arg_value (tok (k @ CHR ''='' # v @ c # s) n (length k)) = Some (tok (v @ c # s) (?m - 1) (length v))"
    using plain_token_facts(1) [of k] x assms(1) arg_value_skip by simp
  then show ?thesis unfolding c by blast
qed

lemma next_key_entry:
  assumes "ident_text k" "plain v" "kvs_ok kvs" "length (k @ CHR ''='' # v @ behind kvs r) < unat n"
  shows "\<exists>t. next_key (tok (k @ CHR ''='' # v @ behind kvs r) n (length k)) = Some t \<and>
    (case kvs of [] \<Rightarrow> t = no_token
     | (k', v') # kvs' \<Rightarrow> \<exists>m. t = tok (render kvs @ NUL # r) m (length k') \<and> length (render kvs @ NUL # r) < unat m)"
proof -
  let ?m = "n - of_nat (length k)" let ?l = "?m - 1 - of_nat (length v)"
  obtain c s where c: "behind kvs r = c # s" "separator c" using behind_separator by blast
  obtain x where x: "token_at (tok (k @ CHR ''='' # v @ c # s) n (length k)) 0 = Some x"
      "x \<noteq> CHR '',''" "x \<noteq> CHR ''=''"
    using plain_token_facts(2) [of k "CHR ''='' # v @ c # s" n] assms(1) by auto
  obtain y where y: "token_at (tok (v @ c # s) (?m - 1) (length v)) 0 = Some y"
      "y \<noteq> CHR '',''" "y \<noteq> CHR ''=''"
    using plain_token_facts(2) [of v "c # s" "?m - 1"] assms(2) by auto
  have m: "unat ?m = unat n - length k" using assms(4) by (intro unat_advance) simp
  have m1: "unat (?m - 1) = unat n - length k - 1" using unat_advance [of 1 ?m] m assms(4) by simp
  have l: "unat ?l = unat n - length k - 1 - length v"
    using unat_advance [of "length v" "?m - 1"] m1 assms(4) by simp
  have "next_eat arg_ident (tok (k @ CHR ''='' # v @ c # s) n (length k)) = Some (tok (CHR ''='' # v @ c # s) ?m 1)"
    using assms(4) by (intro next_eat_to_single) auto
  moreover have "next_eat arg_ident (tok (CHR ''='' # v @ c # s) ?m 1) = Some (tok (v @ c # s) (?m - 1) (length v))"
    using assms(2,4) c m by (intro next_eat_to_plain) auto
  then have "next_key (tok (CHR ''='' # v @ c # s) ?m 1) = next_key (tok (v @ c # s) (?m - 1) (length v))"
    by (intro next_key_skip [OF single_token_facts]) auto
  ultimately have a: "next_key (tok (k @ CHR ''='' # v @ c # s) n (length k)) =
      next_key (tok (v @ c # s) (?m - 1) (length v))"
    using plain_token_facts(1) [of k] x assms(1) next_key_skip by simp
  show ?thesis
  proof (cases kvs)
    case Nil
    then have cs: "c = NUL" "s = r" using c by (auto simp: behind_def)
    have "next_eat arg_ident (tok (v @ c # s) (?m - 1) (length v)) = Some (tok (NUL # r) ?l 0)"
      unfolding cs by (rule next_eat_to_end)
    moreover have "next_key (tok (NUL # r) ?l 0) = Some no_token"
      by (subst next_key.simps) (simp add: token_valid_def)
    ultimately have "next_key (tok (v @ c # s) (?m - 1) (length v)) = Some no_token"
      using plain_token_facts(1) [OF assms(2)] y next_key_skip by simp
    then show ?thesis using a c Nil by simp
  next
    case (Cons e kvs')
    obtain k' v' where e: "e = (k', v')" by (cases e)
    have cs: "c = CHR '',''" "s = CHR '' '' # k' @ CHR ''='' # v' @ behind kvs' r"
    proof -
      have "behind kvs r = '', '' @ render ((k', v') # kvs') @ NUL # r"
        by (simp add: behind_def Cons e)
      then show "c = CHR '',''" "s = CHR '' '' # k' @ CHR ''='' # v' @ behind kvs' r"
        using c(1) unfolding render_Cons by simp_all
    qed
    have "next_eat arg_ident (tok (v @ c # s) (?m - 1) (length v)) = Some (tok (CHR '','' # s) ?l 1)"
      unfolding cs using m1 assms(4) by (intro next_eat_to_single) auto
    moreover have "next_eat arg_ident (tok (CHR '','' # s) ?l 1) =
        Some (tok (k' @ CHR ''='' # v' @ behind kvs' r) (?l - 2) (length k'))"
      unfolding cs using l assms(3,4) c cs Cons e
      by (intro next_eat_over_space) (auto simp: separator_def)
    then have "next_key (tok (CHR '','' # s) ?l 1) =
        Some (tok (k' @ CHR ''='' # v' @ behind kvs' r) (?l - 2) (length k'))"
      unfolding next_key_at_comma .
    ultimately have "next_key (tok (v @ c # s) (?m - 1) (length v)) =
        Some (tok (k' @ CHR ''='' # v' @ behind kvs' r) (?l - 2) (length k'))"
      using plain_token_facts(1) [OF assms(2)] y next_key_skip by simp
    moreover have "length (k' @ CHR ''='' # v' @ behind kvs' r) < unat (?l - 2)"
      using unat_advance [of 2 ?l] l assms(4) c cs by simp
    ultimately show ?thesis using a c Cons e unfolding e Cons render_Cons by simp
  qed
qed

section \<open>Searching\<close>

lemma key_matches_prefix:
  assumes "ident_text k" "NUL \<notin> set key"
  shows "key_matches (tok (k @ CHR ''='' # s @ NUL # r) m (length k)) (key @ NUL # x) = Some (prefix k key)"
proof -
  let ?s = "k @ CHR ''='' # s @ NUL # r"
  have k: "NUL \<notin> set k" "0 < length k" using assms(1) ident_text_no_NUL by (auto simp: ident_text_def)
  obtain d where d: "strcmp_n (key @ NUL # x) ?s (length k) = Some d"
      "d = 0 \<longleftrightarrow> take (length k) (ctext (key @ NUL # x)) = take (length k) (ctext ?s)"
    using strcmp_n_zero [of "key @ NUL # x" ?s "length k"] by auto
  have "take (length k) (ctext ?s) = k"
  proof -
    have "ctext (k @ u) = k @ ctext u" for u using k(1) by (induction k) auto
    then show ?thesis by simp
  qed
  then have "d = 0 \<longleftrightarrow> prefix k key"
    using d(2) assms(2) by (simp add: prefix_def) (metis append_take_drop_id append_eq_conv_conj)
  then show ?thesis
    using d(1) type_plain [of k "length k" "CHR ''='' # s @ NUL # r"] assms(1) k(2)
    by (simp add: key_matches_def token_kind_def)
qed

lemma behind_NUL: "\<exists>u. behind kvs r = u @ NUL # r"
  by (cases "kvs = []") (auto simp: behind_def)

lemma find_key_from_render:
  assumes "NUL \<notin> set key"
  shows "kvs_ok ((k, v) # kvs) \<Longrightarrow> length (k @ CHR ''='' # v @ behind kvs r) < unat n \<Longrightarrow>
   \<exists>t. find_key_from (tok (k @ CHR ''='' # v @ behind kvs r) n (length k)) (key @ NUL # x) = Some t \<and>
     (case find (\<lambda>(k, v). prefix k key) ((k, v) # kvs) of
        None \<Rightarrow> t = no_token
      | Some (k', v') \<Rightarrow> \<exists>m kvs'. ident_text k' \<and> plain v' \<and>
          t = tok (k' @ CHR ''='' # v' @ behind kvs' r) m (length k') \<and>
          length (k' @ CHR ''='' # v' @ behind kvs' r) < unat m)"
proof (induction kvs arbitrary: k v n)
  case Nil
  obtain u where u: "behind [] r = u @ NUL # r" using behind_NUL by blast
  have m: "key_matches (tok (k @ CHR ''='' # v @ behind [] r) n (length k)) (key @ NUL # x) = Some (prefix k key)"
    unfolding u using key_matches_prefix [of k key "v @ u" r n x] Nil assms by simp
  have "next_key (tok (k @ CHR ''='' # v @ behind [] r) n (length k)) = Some no_token"
    using next_key_entry [of k v "[]" r n] Nil by simp
  moreover have "\<not> token_valid no_token" by (simp add: token_valid_def no_token_def)
  ultimately show ?case
    using m plain_token_facts(1) [of k] Nil by (subst find_key_from.simps) auto
next
  case (Cons e kvs)
  obtain k' v' where e: "e = (k', v')" by (cases e)
  obtain u where u: "behind (e # kvs) r = u @ NUL # r" using behind_NUL by blast
  let ?t = "tok (k @ CHR ''='' # v @ behind (e # kvs) r) n (length k)"
  have m: "key_matches ?t (key @ NUL # x) = Some (prefix k key)"
    unfolding u using key_matches_prefix [of k key "v @ u" r n x] Cons.prems assms by simp
  have valid: "token_valid ?t" using plain_token_facts(1) [of k] Cons.prems by simp
  show ?case
  proof (cases "prefix k key")
    case True
    then have "find_key_from ?t (key @ NUL # x) = Some ?t"
      using m valid by (subst find_key_from.simps) simp
    then show ?thesis using True Cons.prems by auto
  next
    case False
    obtain n' where n': "next_key ?t = Some (tok (render (e # kvs) @ NUL # r) n' (length k'))"
        "length (render (e # kvs) @ NUL # r) < unat n'"
      using next_key_entry [of k v "e # kvs" r n] Cons.prems e by auto
    have "find_key_from ?t (key @ NUL # x) =
        find_key_from (tok (k' @ CHR ''='' # v' @ behind kvs r) n' (length k')) (key @ NUL # x)"
      using m valid False n'(1) plain_token_facts(1) [of k'] Cons.prems e
      unfolding e render_Cons by (subst find_key_from.simps) simp
    moreover have "find (\<lambda>(k, v). prefix k key) ((k, v) # e # kvs) = find (\<lambda>(k, v). prefix k key) (e # kvs)"
      using False by simp
    ultimately show ?thesis
      using Cons.IH [of k' v' n'] Cons.prems(1) n'(2) unfolding e render_Cons by auto
  qed
qed

definition token_text :: "token \<Rightarrow> char list" where
  "token_text t = (case tk_start t of None \<Rightarrow> [] | Some s \<Rightarrow> take (tk_len t) s)"

lemma unat_unlimited: "unat (- 1 :: 64 word) = UNLIMITED"
  by (simp add: UNLIMITED_def)

text \<open>The first pair whose key is a prefix of the searched key is what the search finds.\<close>

lemma find_arg_first_prefix:
  assumes "kvs_ok kvs" "NUL \<notin> set key" "length (render kvs @ NUL # r) < UNLIMITED"
  shows "\<exists>a. find_arg (Some (render kvs @ NUL # r)) (Some (key @ NUL # x)) = Some a \<and>
    (case find (\<lambda>(k, v). prefix k key) kvs of
       None \<Rightarrow> a = \<lparr>arg_key = no_token, arg_val = no_token\<rparr>
     | Some (k, v) \<Rightarrow> arg_valid a \<and> token_text (arg_key a) = k \<and> plain v \<and>
         (\<exists>m kvs'. arg_val a = tok (v @ behind kvs' r) m (length v)))"
proof -
  have none: "arg_value no_token = Some no_token"
    by (subst arg_value.simps) (simp add: token_valid_def no_token_def)
  show ?thesis
  proof (cases kvs)
    case Nil
    have "find_key (render kvs @ NUL # r) (key @ NUL # x) = Some no_token"
      unfolding Nil by (simp add: find_key_def lex_end) (subst find_key_from.simps, simp add: token_valid_def)
    then show ?thesis using Nil none by (simp add: find_arg_def arg_new_def)
  next
    case (Cons e kvs')
    obtain k v where e: "e = (k, v)" by (cases e)
    have len: "length (k @ CHR ''='' # v @ behind kvs' r) < unat (- 1 :: 64 word)"
      using assms(3) unfolding Cons e render_Cons unat_unlimited .
    have lx: "lex (k @ CHR ''='' # v @ behind kvs' r) (- 1) = Some (tok (k @ CHR ''='' # v @ behind kvs' r) (- 1) (length k))"
      using assms(1) len Cons e by (intro lex_plain) (auto simp: separator_def)
    obtain t where t: "find_key (render kvs @ NUL # r) (key @ NUL # x) = Some t"
      and found: "case find (\<lambda>(k, v). prefix k key) kvs of
        None \<Rightarrow> t = no_token
      | Some (k', v') \<Rightarrow> \<exists>m kvs'. ident_text k' \<and> plain v' \<and>
          t = tok (k' @ CHR ''='' # v' @ behind kvs' r) m (length k') \<and>
          length (k' @ CHR ''='' # v' @ behind kvs' r) < unat m"
      using find_key_from_render [OF assms(2), of k v kvs' r "- 1" x] assms(1) len lx
      unfolding Cons e render_Cons by (auto simp: find_key_def)
    show ?thesis
    proof (cases "find (\<lambda>(k, v). prefix k key) kvs")
      case None
      then show ?thesis using t found none by (simp add: find_arg_def arg_new_def)
    next
      case (Some kv)
      obtain k' v' where kv: "kv = (k', v')" by (cases kv)
      obtain m ks where f: "ident_text k'" "plain v'"
          "t = tok (k' @ CHR ''='' # v' @ behind ks r) m (length k')"
          "length (k' @ CHR ''='' # v' @ behind ks r) < unat m"
        using found Some kv by auto
      obtain m' where "arg_value t = Some (tok (v' @ behind ks r) m' (length v'))"
        using arg_value_entry [of k' v' ks r m] f by auto
      then show ?thesis
        using t f Some kv plain_token_facts(1) [of k']
        by (auto simp: find_arg_def arg_new_def arg_valid_def token_text_def)
    qed
  qed
qed

section \<open>Adding\<close>

lemma put_list_block:
  "i + length cs \<le> length mem \<Longrightarrow> put_list mem i cs = Some (take i mem @ cs @ drop (i + length cs) mem)"
proof (induction cs arbitrary: mem i)
  case (Cons c cs)
  then have "put_list (mem[i := c]) (i + 1) cs = Some (take i mem @ c # cs @ drop (Suc (i + length cs)) mem)"
    using take_Suc_update [of i mem c] by simp
  then show ?case using Cons.prems by (simp add: put_def)
qed simp

lemma append_str_text:
  assumes "NUL \<notin> set t" "NUL \<notin> set w" "dst \<le> length t" "length w \<le> length rest"
  shows "append_str (t @ NUL # rest) dst (w @ NUL # y) =
    Some (t @ w @ NUL # drop (length w) rest, length (t @ w))"
proof -
  have "NUL \<notin> set (drop dst t)" using assms(1) by (auto dest: in_set_dropD)
  then have e: "strlen (drop dst (t @ NUL # rest)) = Some (length t - dst)" using assms(3) by simp
  have "put_list (t @ NUL # rest) (length t) (w @ [NUL]) = Some (t @ w @ NUL # drop (length w) rest)"
    using assms(4) by (subst put_list_block) auto
  then show ?thesis using e assms(2,3) by (simp add: append_str_def)
qed

lemma append_strs_text:
  "NUL \<notin> set t \<Longrightarrow> \<forall>w \<in> set ws. NUL \<notin> set w \<Longrightarrow> dst \<le> length t \<Longrightarrow> length (concat ws) \<le> length rest \<Longrightarrow>
   append_strs (t @ NUL # rest) dst (map (\<lambda>w. w @ [NUL]) ws) =
     Some (t @ concat ws @ NUL # drop (length (concat ws)) rest)"
proof (induction ws arbitrary: t dst rest)
  case (Cons w ws)
  then show ?case
    using append_str_text [of t w dst rest "[]"] Cons.IH [of "t @ w" "length (t @ w)" "drop (length w) rest"]
    by (simp add: add.commute)
qed simp

lemma render_snoc:
  "render (kvs @ [(k, v)]) = (if kvs = [] then [] else render kvs @ '', '') @ k @ ''='' @ v"
  by (induction kvs rule: render.induct) (auto simp: render.simps(2))

lemma render_no_NUL: "kvs_ok kvs \<Longrightarrow> NUL \<notin> set (render kvs)"
  by (induction kvs rule: render.induct) (auto simp: render.simps(2) ident_text_no_NUL plain_no_NUL)

lemma render_Nil_iff: "kvs_ok kvs \<Longrightarrow> render kvs = [] \<longleftrightarrow> kvs = []"
  by (cases kvs) (auto simp: render.simps(2) ident_text_def)

lemma add_arg_render:
  assumes "kvs_ok kvs" "ident_text key" "plain val"
    "length (render (kvs @ [(key, val)])) < length args" "args = render kvs @ NUL # rest"
    "length (render (kvs @ [(key, val)])) < n"
  shows "\<exists>rest'. add_arg args n (key @ [NUL]) (val @ [NUL]) IDENT =
    Some (True, render (kvs @ [(key, val)]) @ NUL # rest') \<and>
    length (render (kvs @ [(key, val)]) @ NUL # rest') = length args"
proof -
  let ?t = "render kvs" and ?ws = "[key, ''='', val]"
  have nul: "NUL \<notin> set ?t" "NUL \<notin> set key" "NUL \<notin> set val"
    using assms(1-3) by (auto simp: render_no_NUL ident_text_no_NUL plain_no_NUL)
  have l: "length (render (kvs @ [(key, val)])) = (if kvs = [] then 0 else length ?t + 2) + length key + 1 + length val"
    by (simp add: render_snoc)
  have cap: "\<not> length ?t + length key + length val + 2 > n"
    using assms(6) l by (auto split: if_splits)
  have body: "append_strs (u @ NUL # r) (length u) (map (\<lambda>w. w @ [NUL]) ?ws) =
      Some (u @ key @ ''='' @ val @ NUL # drop (length key + 1 + length val) r)"
    if "NUL \<notin> set u" "length key + 1 + length val \<le> length r" for u r
    using append_strs_text [of u ?ws "length u" r] that nul by (simp del: append_strs.simps)
  show ?thesis
  proof (cases "kvs = []")
    case True
    then have "length key + 1 + length val \<le> length rest" using assms(4,5) l by simp
    then show ?thesis using body [of "[]" rest] True cap nul assms(5)
      by (simp add: add_arg_def render.simps(2) del: append_strs.simps)
  next
    case False
    have r: "length key + 1 + length val \<le> length (drop 2 rest)" "2 \<le> length rest"
      using assms(4,5) l False by auto
    have "append_str args (length ?t) ('', '' @ [NUL]) = Some ((?t @ '', '') @ NUL # drop 2 rest, length (?t @ '', ''))"
      using append_str_text [of ?t "'', ''" "length ?t" rest "[]"] nul r(2) assms(5) by (simp add: numeral_2_eq_2)
    moreover have "?t \<noteq> []" using False assms(1) render_Nil_iff by blast
    ultimately show ?thesis using body [of "?t @ '', ''" "drop 2 rest"] nul r cap assms(5) False
      by (simp add: add_arg_def render_snoc del: append_strs.simps)
  qed
qed


section \<open>Values\<close>

lemma separator_no_number: "separator c \<Longrightarrow> digit c False < 0 \<and> \<not> is_hex_mark c \<and> c \<notin> {CHR ''G'', CHR ''M'', CHR ''K''}"
  by (auto simp: separator_def digit_def code_def is_hex_mark_def)

lemma decimal_text:
  "number_text (map ascii (decimal v))" "\<not> ident_text (map ascii (decimal v))"
proof -
  have d: "is_digit (ascii d) False" if "d < 10" for d
    using digit_ascii [of d False] that by (simp add: is_digit_def)
  show "number_text (map ascii (decimal v))"
    using decimal_props(1,2) [of v] d by (auto simp: number_text_def)
  obtain e es where "decimal v = e # es" "e < 10" using decimal_props(1,2) [of v] by (cases "decimal v") auto
  then show "\<not> ident_text (map ascii (decimal v))"
    using digit_not_space [OF d] by (auto simp: ident_text_def)
qed

lemma ulong_value_decimal:
  assumes a: "arg_val a = tok (map ascii (decimal v) @ behind kvs r) m (length (decimal v))"
  shows "ulong_value a d = Some v"
proof -
  let ?w = "map ascii (decimal v)"
  obtain c s where c: "behind kvs r = c # s" "separator c" using behind_separator by blast
  have p: "plain ?w" using decimal_text(1) by (simp add: plain_def)
  obtain e es where e: "decimal v = e # es" "e < 10" using decimal_props(1,2) [of v] by (cases "decimal v") auto
  have at: "token_at (arg_val a) 0 = Some (ascii e)"
    unfolding a e(1) by (simp add: token_at_def peek_def)
  have ty: "token_kind arg_ident (arg_val a) = Some NUMBER"
    using type_plain [OF p, of "length (decimal v)" "behind kvs r"] decimal_text(2) decimal_props(1) [of v]
    by (simp add: a token_kind_def)
  have bytes: "ascii_to_bytes (?w @ c # s) = Some (length (decimal v), v)"
    using ascii_to_bytes_suffixed [of c v s] separator_no_number [OF c(2)] by auto
  obtain t where t: "lex (c # s) (- 1) = Some t" "eat_whitespace arg_ident t = Some t"
      "\<exists>x. token_at t 0 = Some x \<and> \<not> (token_valid t \<and> x \<noteq> CHR '','')"
  proof (cases "kvs = []")
    case True
    then have "c # s = NUL # r" using c by (simp add: behind_def)
    then show ?thesis using that [of "tok (NUL # r) (- 1) 0"] lex_end
      by (simp add: eat_whitespace_def token_kind_def type_of_def token_at_def token_valid_def)
  next
    case False
    then have "c = CHR '',''" using c by (simp add: behind_def)
    then show ?thesis using that [of "tok (c # s) (- 1) 1"] lex_single [of c "- 1" s] single_token_facts [of c s "- 1"]
      by (simp add: eat_whitespace_def token_kind_def del: One_nat_def)
  qed
  then obtain x where x: "token_at t 0 = Some x" "\<not> (token_valid t \<and> x \<noteq> CHR '','')" by blast
  have "read_ulong a = Some (True, Some v, False)"
    using at ty bytes t(1,2) x ascii_not_special(3,4) [OF e(2)] decimal_props(1) [of v]
    by (simp add: read_ulong_def a c)
  then show ?thesis by (simp add: ulong_value_def)
qed




section \<open>Surprises\<close>

text \<open>A search also ends at an argument whose name is a proper prefix of the key.\<close>

lemma prefix_of_key_matches:
  "\<exists>a. find_arg (Some (''ram=1'' @ [NUL])) (Some (''ram_quota'' @ [NUL])) = Some a \<and> arg_valid a \<and>
     token_text (arg_key a) = ''ram''"
proof -
  have "kvs_ok [(''ram'', ''1'')]"
    by (auto simp: plain_def number_text_def ident_text_def char_classes less_Suc_eq numeral_eq_Suc)
  from find_arg_first_prefix [OF this, of "''ram_quota''" "[]" "[]"] show ?thesis
    by (auto simp: render.simps(2) UNLIMITED_def)
qed

text \<open>
  The fall-through in \<open>bool_value\<close> takes an identifier for a boolean that has one in the middle:
  \<open>done\<close> counts as \<open>on\<close>.
\<close>

lemma identifier_taken_for_boolean:
  "bool_value \<lparr>arg_key = no_token, arg_val = tok (''done'' @ [NUL]) (- 1) 4\<rparr> False = Some True"
  by (simp add: bool_value_def token_kind_def type_of_def peek_def char_classes ascii_to_bool_def
      numeral_eq_Suc)

text \<open>
  The test of the capacity does not count the separator and the terminator: the argument is
  written behind the end of the buffer, which is a fault.
\<close>

lemma add_arg_overflows:
  "add_arg (''a=1'' @ replicate 4 NUL) 7 (''b'' @ [NUL]) (''2'' @ [NUL]) IDENT = None"
  by (simp add: add_arg_def append_str_def put_def numeral_eq_Suc)

end
