(* ===== verification/Signals.thy ===== *)
theory Signals
  imports Genode_Prelude
begin

text \<open>
  The asynchronous signals of the kernel, \<open>base-hw/src/core/kernel/signal_receiver.{h,cc}\<close>.
  Contexts collect submits, receivers hand them to waiting handlers, and killers wait until a
  context has no unacknowledged delivery.  The queues are lists; \<open>Linked_Lists\<close> shows that the
  linked FIFO of the code behaves like one.  The objects are identified by numbers, and
  \<open>sc_alive\<close> says which contexts exist: a call on a destructed context is a fault (\<open>None\<close>).
\<close>

type_synonym ctx = nat
type_synonym rcv = nat
type_synonym hdl = nat
type_synonym klr = nat

text \<open>The calls of the virtual functions of handlers and killers, in their order.\<close>

datatype sig_event =
    Await_signal hdl rcv
  | Receive_signal hdl ctx addr u32
  | Kill_pending klr
  | Kill_done klr
  | Kill_failed klr

record signals =
  sr_handlers :: "rcv \<Rightarrow> hdl list"
  sr_deliver :: "rcv \<Rightarrow> ctx list"
  sr_contexts :: "rcv \<Rightarrow> ctx list"
  sh_receiver :: "hdl \<Rightarrow> rcv option"
  sc_alive :: "ctx \<Rightarrow> bool"
  sc_receiver :: "ctx \<Rightarrow> rcv"
  sc_imprint :: "ctx \<Rightarrow> addr"
  sc_submits :: "ctx \<Rightarrow> u32"
  sc_ack :: "ctx \<Rightarrow> bool"
  sc_killed :: "ctx \<Rightarrow> bool"
  sc_killer :: "ctx \<Rightarrow> klr option"
  sk_context :: "klr \<Rightarrow> ctx option"
  sig_events :: "sig_event list"

definition sig_new :: signals where
  "sig_new = \<lparr>sr_handlers = (\<lambda>_. []), sr_deliver = (\<lambda>_. []), sr_contexts = (\<lambda>_. []),
     sh_receiver = (\<lambda>_. None), sc_alive = (\<lambda>_. False), sc_receiver = (\<lambda>_. 0), sc_imprint = (\<lambda>_. 0),
     sc_submits = (\<lambda>_. 0), sc_ack = (\<lambda>_. False), sc_killed = (\<lambda>_. False), sc_killer = (\<lambda>_. None),
     sk_context = (\<lambda>_. None), sig_events = []\<rparr>"

definition emit :: "sig_event \<Rightarrow> signals \<Rightarrow> signals" where
  "emit e s = s\<lparr>sig_events := sig_events s @ [e]\<rparr>"


section \<open>Receivers\<close>

definition delivered :: "ctx \<Rightarrow> signals \<Rightarrow> signals" where
  "delivered c s = s\<lparr>sc_submits := (sc_submits s)(c := 0), sc_ack := (sc_ack s)(c := False)\<rparr>"

text \<open>One round of \<open>_listen\<close>: the oldest deliverable context meets the oldest handler.\<close>

definition deliver_one :: "rcv \<Rightarrow> ctx \<Rightarrow> hdl \<Rightarrow> signals \<Rightarrow> signals" where
  "deliver_one r c h s =
     delivered c (emit (Receive_signal h c (sc_imprint s c) (sc_submits s c))
       (s\<lparr>sr_deliver := (sr_deliver s)(r := tl (sr_deliver s r)),
          sr_handlers := (sr_handlers s)(r := tl (sr_handlers s r)),
          sh_receiver := (sh_receiver s)(h := None)\<rparr>))"

function listen :: "rcv \<Rightarrow> signals \<Rightarrow> signals" where
  "listen r s =
     (if sr_deliver s r = [] \<or> sr_handlers s r = [] then s
      else listen r (deliver_one r (hd (sr_deliver s r)) (hd (sr_handlers s r)) s))"
  by pat_completeness auto
termination
  by (relation "measure (\<lambda>(r, s). length (sr_handlers s r))")
     (auto simp: deliver_one_def delivered_def emit_def)

declare listen.simps [simp del]

definition enqueue_deliverable :: "ctx \<Rightarrow> signals \<Rightarrow> signals" where
  "enqueue_deliverable c s =
     (let r = sc_receiver s c in
      if c \<in> set (sr_deliver s r) then s
      else s\<lparr>sr_deliver := (sr_deliver s)(r := sr_deliver s r @ [c])\<rparr>)"

definition add_deliverable :: "ctx \<Rightarrow> signals \<Rightarrow> signals" where
  "add_deliverable c s = listen (sc_receiver s c) (enqueue_deliverable c s)"

definition context_destructed :: "ctx \<Rightarrow> signals \<Rightarrow> signals" where
  "context_destructed c s =
     (let r = sc_receiver s c in
      s\<lparr>sr_contexts := (sr_contexts s)(r := remove1 c (sr_contexts s r)),
        sr_deliver := (sr_deliver s)(r := remove1 c (sr_deliver s r))\<rparr>)"

definition handler_cancelled :: "rcv \<Rightarrow> hdl \<Rightarrow> signals \<Rightarrow> signals" where
  "handler_cancelled r h s = s\<lparr>sr_handlers := (sr_handlers s)(r := remove1 h (sr_handlers s r))\<rparr>"

definition add_context :: "rcv \<Rightarrow> ctx \<Rightarrow> signals \<Rightarrow> signals" where
  "add_context r c s = s\<lparr>sr_contexts := (sr_contexts s)(r := sr_contexts s r @ [c])\<rparr>"

definition add_handler :: "rcv \<Rightarrow> hdl \<Rightarrow> signals \<Rightarrow> int \<times> signals" where
  "add_handler r h s =
     (if sh_receiver s h \<noteq> None then (- 1, s)
      else (0, listen r (emit (Await_signal h r)
        (s\<lparr>sr_handlers := (sr_handlers s)(r := sr_handlers s r @ [h]),
           sh_receiver := (sh_receiver s)(h := Some r)\<rparr>))))"


section \<open>Handlers and killers\<close>

definition handler_cancel_waiting :: "hdl \<Rightarrow> signals \<Rightarrow> signals" where
  "handler_cancel_waiting h s = (case sh_receiver s h of
     None \<Rightarrow> s
   | Some r \<Rightarrow> (handler_cancelled r h s)\<lparr>sh_receiver := (sh_receiver s)(h := None)\<rparr>)"

definition killer_cancelled :: "ctx \<Rightarrow> signals \<Rightarrow> signals" where
  "killer_cancelled c s = s\<lparr>sc_killer := (sc_killer s)(c := None)\<rparr>"

text \<open>The pointer from the killer to the context is kept, and may point to a dead context.\<close>

definition killer_cancel_waiting :: "klr \<Rightarrow> signals \<Rightarrow> signals option" where
  "killer_cancel_waiting k s = (case sk_context s k of
     None \<Rightarrow> Some s
   | Some c \<Rightarrow> if sc_alive s c then Some (killer_cancelled c s) else None)"


section \<open>Contexts\<close>

definition deliverable :: "ctx \<Rightarrow> signals \<Rightarrow> signals" where
  "deliverable c s = (if sc_submits s c \<noteq> 0 then add_deliverable c s else s)"

definition context_new :: "ctx \<Rightarrow> rcv \<Rightarrow> addr \<Rightarrow> signals \<Rightarrow> signals" where
  "context_new c r imprint s = add_context r c
     (s\<lparr>sc_alive := (sc_alive s)(c := True), sc_receiver := (sc_receiver s)(c := r),
        sc_imprint := (sc_imprint s)(c := imprint), sc_submits := (sc_submits s)(c := 0),
        sc_ack := (sc_ack s)(c := True), sc_killed := (sc_killed s)(c := False),
        sc_killer := (sc_killer s)(c := None)\<rparr>)"

definition submit :: "ctx \<Rightarrow> u32 \<Rightarrow> signals \<Rightarrow> int \<times> signals" where
  "submit c n s =
     (if sc_killed s c \<or> sc_submits s c \<ge> - 1 - n then (- 1, s)
      else let s = s\<lparr>sc_submits := (sc_submits s)(c := sc_submits s c + n)\<rparr>
           in (0, if sc_ack s c then deliverable c s else s))"

definition ack :: "ctx \<Rightarrow> signals \<Rightarrow> signals" where
  "ack c s =
     (if sc_ack s c then s
      else if \<not> sc_killed s c then deliverable c (s\<lparr>sc_ack := (sc_ack s)(c := True)\<rparr>)
      else case sc_killer s c of
          None \<Rightarrow> s
        | Some k \<Rightarrow> (emit (Kill_done k) (s\<lparr>sk_context := (sk_context s)(k := None)\<rparr>))
                      \<lparr>sc_killer := (sc_killer s)(c := None)\<rparr>)"

definition kill :: "ctx \<Rightarrow> klr \<Rightarrow> signals \<Rightarrow> int \<times> signals" where
  "kill c k s =
     (if sc_killed s c then (if sc_ack s c then 0 else - 1, s)
      else if sc_ack s c then (0, s\<lparr>sc_killed := (sc_killed s)(c := True)\<rparr>)
      else (0, emit (Kill_pending k)
        (s\<lparr>sc_killer := (sc_killer s)(c := Some k), sc_killed := (sc_killed s)(c := True),
           sk_context := (sk_context s)(k := Some c)\<rparr>)))"

definition context_destroy :: "ctx \<Rightarrow> signals \<Rightarrow> signals" where
  "context_destroy c s = context_destructed c
     ((case sc_killer s c of None \<Rightarrow> s | Some k \<Rightarrow> emit (Kill_failed k) s)
        \<lparr>sc_alive := (sc_alive s)(c := False)\<rparr>)"

text \<open>
  The destructor of a receiver destructs its contexts in the order of the queue; the element
  has left the queue when its destructor asks for its removal.
\<close>

function receiver_destroy :: "rcv \<Rightarrow> signals \<Rightarrow> signals" where
  "receiver_destroy r s = (case sr_contexts s r of
     [] \<Rightarrow> s
   | c # cs \<Rightarrow> receiver_destroy r (context_destroy c (s\<lparr>sr_contexts := (sr_contexts s)(r := cs)\<rparr>)))"
  by pat_completeness auto
termination
proof (relation "measure (\<lambda>(r, s). length (sr_contexts s r))", simp, goal_cases)
  case (1 r s c cs)
  have "length (remove1 c cs) \<le> length cs" by (simp add: length_remove1)
  then show ?case using 1
    by (auto simp: context_destroy_def context_destructed_def emit_def Let_def less_Suc_eq_le
        split: option.split)
qed

declare receiver_destroy.simps [simp del]


section \<open>Steps\<close>

text \<open>
  What the kernel calls do: contexts are created at unused places, only existing ones are
  used, and a killer does not wait for two contexts at once.
\<close>

inductive sig_step :: "signals \<Rightarrow> signals \<Rightarrow> bool" where
  new: "\<not> sc_alive s c \<Longrightarrow> sig_step s (context_new c r i s)"
| submit: "sc_alive s c \<Longrightarrow> sig_step s (snd (submit c n s))"
| ack: "sc_alive s c \<Longrightarrow> sig_step s (ack c s)"
| kill: "sc_alive s c \<Longrightarrow> \<forall>d. sc_alive s d \<longrightarrow> sc_killer s d \<noteq> Some k \<Longrightarrow> sig_step s (snd (kill c k s))"
| destroy: "sc_alive s c \<Longrightarrow> sig_step s (context_destroy c s)"
| handler: "sig_step s (snd (add_handler r h s))"
| cancel_handler: "sig_step s (handler_cancel_waiting h s)"
| cancel_killer: "killer_cancel_waiting k s = Some s' \<Longrightarrow> sig_step s s'"

inductive sig_reach :: "signals \<Rightarrow> bool" where
  init: "sig_reach sig_new"
| step: "sig_reach s \<Longrightarrow> sig_step s s' \<Longrightarrow> sig_reach s'"

end
