(* ===== verification/Signals_Correct.thy ===== *)
theory Signals_Correct
  imports Signals
begin

text \<open>
  What the signals of the kernel guarantee: no deliverable context and waiting handler are left
  alone together, no submit gets lost or is delivered twice, and the state of the objects fits
  together in every reachable state.
\<close>

section \<open>The invariant\<close>

text \<open>Well-formedness: the queues hold exactly the objects that their state says.\<close>

definition sig_wf :: "signals \<Rightarrow> bool" where
  "sig_wf s \<longleftrightarrow>
     (\<forall>r. distinct (sr_deliver s r) \<and> distinct (sr_handlers s r) \<and> distinct (sr_contexts s r)) \<and>
     (\<forall>r c. c \<in> set (sr_deliver s r) \<longleftrightarrow> sc_alive s c \<and> sc_receiver s c = r \<and> sc_ack s c \<and> sc_submits s c \<noteq> 0) \<and>
     (\<forall>r h. h \<in> set (sr_handlers s r) \<longleftrightarrow> sh_receiver s h = Some r) \<and>
     (\<forall>r c. c \<in> set (sr_contexts s r) \<longleftrightarrow> sc_alive s c \<and> sc_receiver s c = r) \<and>
     (\<forall>c k. sc_alive s c \<and> sc_killer s c = Some k \<longrightarrow> sk_context s k = Some c \<and> sc_killed s c \<and> \<not> sc_ack s c)"

definition sig_idle :: "signals \<Rightarrow> rcv \<Rightarrow> bool" where
  "sig_idle s r \<longleftrightarrow> sr_deliver s r = [] \<or> sr_handlers s r = []"

definition sig_ok :: "signals \<Rightarrow> bool" where
  "sig_ok s \<longleftrightarrow> sig_wf s \<and> (\<forall>r. sig_idle s r)"

lemma sig_wfD:
  assumes "sig_wf s"
  shows "distinct (sr_deliver s r)" "distinct (sr_handlers s r)" "distinct (sr_contexts s r)"
    "c \<in> set (sr_deliver s r) \<longleftrightarrow> sc_alive s c \<and> sc_receiver s c = r \<and> sc_ack s c \<and> sc_submits s c \<noteq> 0"
    "h \<in> set (sr_handlers s r) \<longleftrightarrow> sh_receiver s h = Some r"
    "c \<in> set (sr_contexts s r) \<longleftrightarrow> sc_alive s c \<and> sc_receiver s c = r"
    "sc_alive s c \<Longrightarrow> sc_killer s c = Some k \<Longrightarrow> sk_context s k = Some c \<and> sc_killed s c \<and> \<not> sc_ack s c"
  using assms unfolding sig_wf_def by blast+

lemma sig_wfI:
  assumes "\<And>r. distinct (sr_deliver s r)" "\<And>r. distinct (sr_handlers s r)" "\<And>r. distinct (sr_contexts s r)"
    "\<And>r c. c \<in> set (sr_deliver s r) \<longleftrightarrow> sc_alive s c \<and> sc_receiver s c = r \<and> sc_ack s c \<and> sc_submits s c \<noteq> 0"
    "\<And>r h. h \<in> set (sr_handlers s r) \<longleftrightarrow> sh_receiver s h = Some r"
    "\<And>r c. c \<in> set (sr_contexts s r) \<longleftrightarrow> sc_alive s c \<and> sc_receiver s c = r"
    "\<And>c k. sc_alive s c \<Longrightarrow> sc_killer s c = Some k \<Longrightarrow> sk_context s k = Some c \<and> sc_killed s c \<and> \<not> sc_ack s c"
  shows "sig_wf s"
  using assms unfolding sig_wf_def by blast

lemmas sig_ops = deliver_one_def delivered_def emit_def

lemma in_tl_iff: "distinct xs \<Longrightarrow> x \<in> set (tl xs) \<longleftrightarrow> x \<in> set xs \<and> x \<noteq> hd xs"
  by (cases xs) auto

lemma deliver_one_wf:
  assumes "sig_wf s" "sr_deliver s r \<noteq> []" "sr_handlers s r \<noteq> []"
  shows "sig_wf (deliver_one r (hd (sr_deliver s r)) (hd (sr_handlers s r)) s)"
proof -
  let ?c = "hd (sr_deliver s r)" and ?h = "hd (sr_handlers s r)"
  note w = sig_wfD [OF assms(1)]
  have c: "sc_alive s ?c" "sc_receiver s ?c = r" "sc_ack s ?c" "sc_killer s ?c = None"
    using w(4) [of ?c r] w(7) [of ?c] assms(2) by (auto, fastforce)
  have h: "sh_receiver s ?h = Some r" using w(5) [of ?h r] assms(3) by simp
  show ?thesis
    unfolding sig_wf_def sig_ops
    using w c h by (auto simp: in_tl_iff distinct_tl)
qed

lemma listen_wf: "sig_wf s \<Longrightarrow> sig_wf (listen r s)"
proof (induction r s rule: listen.induct)
  case (1 r s)
  then show ?case using deliver_one_wf by (subst listen.simps) auto
qed

lemma listen_idle: "sig_idle (listen r s) r"
proof (induction r s rule: listen.induct)
  case (1 r s)
  then show ?case by (subst listen.simps) (auto simp: sig_idle_def)
qed

lemma listen_other:
  "r' \<noteq> r \<Longrightarrow> sr_deliver (listen r s) r' = sr_deliver s r' \<and> sr_handlers (listen r s) r' = sr_handlers s r'"
proof (induction r s rule: listen.induct)
  case (1 r s)
  then show ?case by (subst (1 2) listen.simps) (auto simp: sig_ops)
qed

lemma listen_ok:
  assumes "sig_wf s" "\<And>r'. r' \<noteq> r \<Longrightarrow> sig_idle s r'"
  shows "sig_ok (listen r s)"
  unfolding sig_ok_def
proof (intro conjI allI)
  fix r'
  show "sig_idle (listen r s) r'"
    using listen_idle listen_other [of r' r s] assms(2) by (cases "r' = r") (auto simp: sig_idle_def)
qed (rule listen_wf [OF assms(1)])

text \<open>Enqueueing a context whose state was made deliverable restores the well-formedness.\<close>

lemma make_deliverable_ok:
  assumes ok: "sig_ok s" and c: "sc_alive s c" "sc_killer s c = None \<or> a = sc_ack s c" "m = 0 \<longrightarrow> sc_submits s c = 0"
    "sc_ack s c \<longrightarrow> a"
  shows "sig_ok (let s' = s\<lparr>sc_submits := (sc_submits s)(c := m), sc_ack := (sc_ack s)(c := a)\<rparr>
    in if a then deliverable c s' else s')"
proof -
  let ?s = "s\<lparr>sc_submits := (sc_submits s)(c := m), sc_ack := (sc_ack s)(c := a)\<rparr>"
  have wf: "sig_wf s" and idle: "\<And>r. sig_idle s r" using ok by (auto simp: sig_ok_def)
  note w = sig_wfD [OF wf]
  have k: "sc_killer s c = None" if "sc_ack s c"
    using w(7) [OF c(1)] that by (cases "sc_killer s c") auto
  show ?thesis
  proof (cases "a \<and> m \<noteq> 0")
    case True
    have "sig_wf (enqueue_deliverable c ?s)"
    proof (rule sig_wfI)
      fix d l assume "sc_alive (enqueue_deliverable c ?s) d" "sc_killer (enqueue_deliverable c ?s) d = Some l"
      then show "sk_context (enqueue_deliverable c ?s) l = Some d \<and> sc_killed (enqueue_deliverable c ?s) d \<and>
          \<not> sc_ack (enqueue_deliverable c ?s) d"
        using w(7) [of d l] k c(2) True by (auto simp: enqueue_deliverable_def Let_def split: if_splits)
    next
      fix r d
      show "d \<in> set (sr_deliver (enqueue_deliverable c ?s) r) \<longleftrightarrow>
        sc_alive (enqueue_deliverable c ?s) d \<and> sc_receiver (enqueue_deliverable c ?s) d = r \<and>
        sc_ack (enqueue_deliverable c ?s) d \<and> sc_submits (enqueue_deliverable c ?s) d \<noteq> 0"
        using w(4) [of d r] c(1) True
        by (cases "d = c"; cases "c \<in> set (sr_deliver s (sc_receiver s c))")
           (auto simp: enqueue_deliverable_def Let_def)
    qed (simp_all add: enqueue_deliverable_def Let_def w(1-3) w(5,6))
    moreover have "sig_idle (enqueue_deliverable c ?s) r'" if "r' \<noteq> sc_receiver s c" for r'
      using idle [of r'] that by (simp add: sig_idle_def enqueue_deliverable_def Let_def)
    ultimately show ?thesis using True listen_ok
      by (simp add: deliverable_def add_deliverable_def)
  next
    case False
    have "sig_wf ?s"
    proof (rule sig_wfI)
      fix d l assume "sc_alive ?s d" "sc_killer ?s d = Some l"
      then show "sk_context ?s l = Some d \<and> sc_killed ?s d \<and> \<not> sc_ack ?s d"
        using w(7) [of d l] c(2) by auto
    next
      fix r d
      show "d \<in> set (sr_deliver ?s r) \<longleftrightarrow>
          sc_alive ?s d \<and> sc_receiver ?s d = r \<and> sc_ack ?s d \<and> sc_submits ?s d \<noteq> 0"
        using w(4) [of d r] c(3,4) False by (cases "d = c") auto
    qed (simp_all add: w(1-3) w(5,6))
    then have "sig_ok ?s" using idle by (simp add: sig_ok_def sig_idle_def)
    then show ?thesis using False by (auto simp: deliverable_def Let_def)
  qed
qed

lemma submit_no_wrap:
  fixes m n :: u32
  assumes "m < - 1 - n"
  shows "unat (m + n) = unat m + unat n"
proof -
  have "n \<le> - 1" by (rule word_order.extremum)
  then have "unat (- 1 - n) = unat (- 1 :: u32) - unat n" by (rule unat_sub)
  then have "unat m < 4294967295 - unat n" using assms by (simp add: word_less_nat_alt)
  then show ?thesis by (intro unat_add_no_wrap) simp
qed

lemma submit_ok:
  assumes "sig_ok s" "sc_alive s c"
  shows "sig_ok (snd (submit c n s))"
proof (cases "sc_killed s c \<or> sc_submits s c \<ge> - 1 - n")
  case True
  then show ?thesis using assms by (simp add: submit_def)
next
  case False
  have nowrap: "sc_submits s c + n = 0 \<longrightarrow> sc_submits s c = 0"
    using submit_no_wrap [of "sc_submits s c" n] False by (auto simp flip: unat_eq_0)
  show ?thesis
    using make_deliverable_ok [OF assms, of "sc_ack s c" "sc_submits s c + n"] nowrap False
    by (simp add: submit_def Let_def)
qed

lemma ack_ok:
  assumes "sig_ok s" "sc_alive s c"
  shows "sig_ok (ack c s)"
proof -
  have wf: "sig_wf s" and idle: "\<And>r. sig_idle s r" using assms(1) by (auto simp: sig_ok_def)
  note w = sig_wfD [OF wf]
  consider "sc_ack s c" | "\<not> sc_ack s c" "\<not> sc_killed s c"
    | "\<not> sc_ack s c" "sc_killed s c" "sc_killer s c = None"
    | k where "\<not> sc_ack s c" "sc_killed s c" "sc_killer s c = Some k" by blast
  then show ?thesis
  proof cases
    case 2
    then have "sc_killer s c = None" using w(7) [OF assms(2)] by (cases "sc_killer s c") auto
    then show ?thesis
      using make_deliverable_ok [OF assms, of True "sc_submits s c"] 2 by (simp add: ack_def)
  next
    case (4 k)
    have "sig_wf (ack c s)"
    proof (rule sig_wfI)
      fix d l assume d: "sc_alive (ack c s) d" "sc_killer (ack c s) d = Some l"
      then have "d \<noteq> c" "sc_alive s d" "sc_killer s d = Some l"
        using 4 by (auto simp: ack_def emit_def split: if_splits)
      moreover have "l \<noteq> k"
        using w(7) [of d l] w(7) [OF assms(2) 4(3)] calculation by auto
      ultimately show "sk_context (ack c s) l = Some d \<and> sc_killed (ack c s) d \<and> \<not> sc_ack (ack c s) d"
        using w(7) [of d l] 4 by (simp add: ack_def emit_def)
    qed (use w(1-6) 4 in \<open>auto simp: ack_def emit_def\<close>)
    then show ?thesis using 4 idle by (simp add: sig_ok_def sig_idle_def ack_def emit_def)
  qed (use assms in \<open>simp_all add: ack_def\<close>)
qed

lemma kill_ok:
  assumes "sig_ok s" "sc_alive s c" "\<forall>d. sc_alive s d \<longrightarrow> sc_killer s d \<noteq> Some k"
  shows "sig_ok (snd (kill c k s))"
proof -
  have wf: "sig_wf s" and idle: "\<And>r. sig_idle s r" using assms(1) by (auto simp: sig_ok_def)
  note w = sig_wfD [OF wf]
  have "sig_wf (snd (kill c k s))"
    unfolding sig_wf_def kill_def emit_def using w assms(2,3) by (auto split: if_splits)
  then show ?thesis using idle by (simp add: sig_ok_def sig_idle_def kill_def emit_def)
qed

lemma context_new_ok:
  assumes "sig_ok s" "\<not> sc_alive s c"
  shows "sig_ok (context_new c r i s)"
proof -
  have wf: "sig_wf s" and idle: "\<And>r. sig_idle s r" using assms(1) by (auto simp: sig_ok_def)
  note w = sig_wfD [OF wf]
  have "sig_wf (context_new c r i s)"
    unfolding sig_wf_def context_new_def add_context_def using w assms(2) by auto
  then show ?thesis using idle by (simp add: sig_ok_def sig_idle_def context_new_def add_context_def)
qed

lemma context_destroy_ok:
  assumes "sig_ok s" "sc_alive s c"
  shows "sig_ok (context_destroy c s)"
proof -
  have wf: "sig_wf s" and idle: "\<And>r. sig_idle s r" using assms(1) by (auto simp: sig_ok_def)
  note w = sig_wfD [OF wf]
  have "sig_wf (context_destroy c s)"
    unfolding sig_wf_def context_destroy_def context_destructed_def emit_def Let_def
    using w by (auto split: option.splits)
  moreover have "sig_idle (context_destroy c s) r" for r
    using idle [of r]
    by (auto simp: sig_idle_def context_destroy_def context_destructed_def emit_def Let_def split: option.splits)
  ultimately show ?thesis by (simp add: sig_ok_def)
qed

lemma add_handler_ok:
  assumes "sig_ok s"
  shows "sig_ok (snd (add_handler r h s))"
proof (cases "sh_receiver s h")
  case None
  let ?s = "emit (Await_signal h r) (s\<lparr>sr_handlers := (sr_handlers s)(r := sr_handlers s r @ [h]),
    sh_receiver := (sh_receiver s)(h := Some r)\<rparr>)"
  have wf: "sig_wf s" and idle: "\<And>r. sig_idle s r" using assms by (auto simp: sig_ok_def)
  note w = sig_wfD [OF wf]
  have "sig_wf ?s" unfolding sig_wf_def emit_def using w None by auto
  moreover have "sig_idle ?s r'" if "r' \<noteq> r" for r'
    using idle [of r'] that by (simp add: sig_idle_def emit_def)
  ultimately show ?thesis using None listen_ok by (simp add: add_handler_def)
qed (use assms in \<open>simp add: add_handler_def\<close>)

lemma handler_cancel_ok:
  assumes "sig_ok s"
  shows "sig_ok (handler_cancel_waiting h s)"
proof (cases "sh_receiver s h")
  case (Some r)
  have wf: "sig_wf s" and idle: "\<And>r. sig_idle s r" using assms by (auto simp: sig_ok_def)
  note w = sig_wfD [OF wf]
  have "sig_wf (handler_cancel_waiting h s)"
    unfolding sig_wf_def handler_cancel_waiting_def handler_cancelled_def using w Some by auto
  moreover have "sig_idle (handler_cancel_waiting h s) r'" for r'
    using idle [of r'] Some by (auto simp: sig_idle_def handler_cancel_waiting_def handler_cancelled_def)
  ultimately show ?thesis by (simp add: sig_ok_def)
qed (use assms in \<open>simp add: handler_cancel_waiting_def\<close>)

lemma killer_cancel_ok:
  assumes "sig_ok s" "killer_cancel_waiting k s = Some s'"
  shows "sig_ok s'"
  using assms
  by (auto simp: killer_cancel_waiting_def killer_cancelled_def sig_ok_def sig_idle_def sig_wf_def
      split: option.splits if_splits)

lemma sig_step_ok: "sig_step s s' \<Longrightarrow> sig_ok s \<Longrightarrow> sig_ok s'"
  by (induction rule: sig_step.induct)
     (simp_all add: context_new_ok submit_ok ack_ok kill_ok context_destroy_ok add_handler_ok
       handler_cancel_ok killer_cancel_ok)

lemma sig_reach_ok: "sig_reach s \<Longrightarrow> sig_ok s"
proof (induction rule: sig_reach.induct)
  case init
  show ?case by (simp add: sig_ok_def sig_wf_def sig_idle_def sig_new_def)
next
  case (step s s')
  then show ?case by (simp add: sig_step_ok)
qed

section \<open>Accounting\<close>

text \<open>The submits of a context that handlers have got so far.\<close>

fun delivered_submits :: "ctx \<Rightarrow> sig_event list \<Rightarrow> nat" where
  "delivered_submits c [] = 0"
| "delivered_submits c (Receive_signal h d i n # es) =
     (if d = c then unat n else 0) + delivered_submits c es"
| "delivered_submits c (_ # es) = delivered_submits c es"

definition account :: "signals \<Rightarrow> ctx \<Rightarrow> nat" where
  "account s c = delivered_submits c (sig_events s) + unat (sc_submits s c)"

lemma delivered_submits_append [simp]:
  "delivered_submits c (es @ fs) = delivered_submits c es + delivered_submits c fs"
  by (induction c es rule: delivered_submits.induct) simp_all

lemma account_listen [simp]: "account (listen r s) c = account s c"
proof (induction r s rule: listen.induct)
  case (1 r s)
  then show ?case by (subst listen.simps) (auto simp: account_def sig_ops)
qed

lemma account_deliverable [simp]: "account (deliverable d s) c = account s c"
  by (simp add: deliverable_def add_deliverable_def) (simp add: account_def enqueue_deliverable_def Let_def)

section \<open>Properties\<close>

text \<open>
  C10 In every reachable state, each receiver has no deliverable context or no waiting handler;
  the contexts queued for delivery are exactly the acknowledged ones with pending submits; the
  queued handlers are exactly those that wait; and a context with a killer is killed and has an
  unacknowledged delivery.
\<close>

theorem signals_invariant:
  assumes "sig_reach s"
  shows "(sr_deliver s r = [] \<or> sr_handlers s r = []) \<and>
    distinct (sr_deliver s r) \<and> distinct (sr_handlers s r) \<and>
    (c \<in> set (sr_deliver s r) \<longleftrightarrow> sc_alive s c \<and> sc_receiver s c = r \<and> sc_ack s c \<and> sc_submits s c \<noteq> 0) \<and>
    (h \<in> set (sr_handlers s r) \<longleftrightarrow> sh_receiver s h = Some r) \<and>
    (sc_alive s c \<and> sc_killer s c = Some k \<longrightarrow> sk_context s k = Some c \<and> sc_killed s c \<and> \<not> sc_ack s c)"
  using sig_reach_ok [OF assms] sig_wfD [of s] unfolding sig_ok_def sig_idle_def by blast

definition demo_signals :: signals where
  "demo_signals = snd (submit 7 2 (context_new 7 1 0xcafe sig_new))"

lemma demo_signals_reach: "sig_reach demo_signals"
  unfolding demo_signals_def
  by (rule sig_reach.step [OF sig_reach.step [OF sig_reach.init sig_step.new] sig_step.submit])
     (simp_all add: sig_new_def context_new_def add_context_def)

theorem signals_invariant_witness:
  "(7 \<in> set (sr_deliver demo_signals 1) \<longleftrightarrow> sc_alive demo_signals 7 \<and> sc_receiver demo_signals 7 = 1 \<and>
     sc_ack demo_signals 7 \<and> sc_submits demo_signals 7 \<noteq> 0)"
  using signals_invariant [OF demo_signals_reach, of 1 7] by blast


lemma listen_single:
  assumes "sr_deliver s r = [c]" "sr_handlers s r = h # hs"
  shows "listen r s = deliver_one r c h s"
  using assms by (subst listen.simps, subst listen.simps) (simp add: sig_ops)

text \<open>
  A signal that is submitted while a handler waits is delivered at once: the handler that
  waits longest gets the imprint and the number of submits, stops waiting, and the context
  accepts the next delivery only after an acknowledgement.
\<close>

theorem submit_delivers_promptly:
  assumes "sig_reach s" "sc_alive s c" "sc_ack s c" "\<not> sc_killed s c" "n \<noteq> 0" "n \<noteq> - 1"
    "sr_handlers s (sc_receiver s c) = h # hs"
  shows "\<exists>s'. submit c n s = (0, s') \<and>
    sig_events s' = sig_events s @ [Receive_signal h c (sc_imprint s c) n] \<and>
    sr_handlers s' (sc_receiver s c) = hs \<and> sh_receiver s' h = None \<and> \<not> sc_ack s' c \<and> sc_submits s' c = 0"
proof -
  let ?r = "sc_receiver s c" and ?s = "s\<lparr>sc_submits := (sc_submits s)(c := n)\<rparr>"
  have ok: "sig_ok s" using sig_reach_ok [OF assms(1)] .
  have d: "sr_deliver s ?r = []" using ok assms(7) by (auto simp: sig_ok_def sig_idle_def)
  then have z: "sc_submits s c = 0" using sig_wfD(4) [of s c ?r] ok assms(2,3) by (auto simp: sig_ok_def)
  have "n < - 1" using assms(6) by (simp add: word_order.not_eq_extremum)
  then have "0 < - 1 - n" by (simp add: word_gt_0)
  then have a: "submit c n s = (0, deliverable c ?s)"
    using z assms(3,4,6) by (auto simp: submit_def Let_def not_le)
  have q: "sr_deliver (enqueue_deliverable c ?s) ?r = [c]" "sr_handlers (enqueue_deliverable c ?s) ?r = h # hs"
    using d assms(7) by (simp_all add: enqueue_deliverable_def Let_def)
  have "deliverable c ?s = deliver_one ?r c h (enqueue_deliverable c ?s)"
    using listen_single [OF q] assms(5) by (simp add: deliverable_def add_deliverable_def)
  then show ?thesis unfolding a using d assms(7)
    by (simp add: sig_ops enqueue_deliverable_def Let_def)
qed

definition waiting_signals :: signals where
  "waiting_signals = snd (add_handler 1 3 (context_new 7 1 0xcafe sig_new))"

theorem submit_delivers_promptly_witness:
  "\<exists>s'. submit 7 2 waiting_signals = (0, s') \<and>
     sig_events s' = [Await_signal 3 1, Receive_signal 3 7 0xcafe 2]"
proof -
  have w: "waiting_signals = emit (Await_signal 3 1) ((context_new 7 1 0xcafe sig_new)
      \<lparr>sr_handlers := (\<lambda>_. [])(1 := [3]), sh_receiver := (\<lambda>_. None)(3 := Some 1)\<rparr>)"
    unfolding waiting_signals_def add_handler_def
    by (subst listen.simps) (simp add: sig_new_def context_new_def add_context_def emit_def)
  have "sig_reach waiting_signals"
    unfolding waiting_signals_def
    by (rule sig_reach.step [OF sig_reach.step [OF sig_reach.init sig_step.new] sig_step.handler])
       (simp add: sig_new_def)
  from submit_delivers_promptly [OF this, of 7 2 3 "[]"] show ?thesis
    by (simp add: w sig_new_def context_new_def add_context_def emit_def) blast
qed


section \<open>Surprises\<close>

text \<open>
  A killer that is cancelled is woken up by nobody: no event tells it, and no context knows it
  any more.  \<open>Thread::_cancel_blocking\<close> does not make the thread active either.
\<close>

lemma cancelled_killer_not_woken:
  assumes "sig_ok s" "sc_alive s c" "sc_killer s c = Some k" "killer_cancel_waiting k s = Some s'"
  shows "sig_events s' = sig_events s \<and> (\<forall>d. sc_alive s' d \<longrightarrow> sc_killer s' d \<noteq> Some k)"
proof -
  have w: "sig_wf s" using assms(1) by (simp add: sig_ok_def)
  have k: "sk_context s k = Some c" using sig_wfD(7) [OF w assms(2,3)] by simp
  show ?thesis
  proof (intro conjI allI impI)
    show "sig_events s' = sig_events s"
      using assms(2,4) k by (auto simp: killer_cancel_waiting_def killer_cancelled_def)
    fix d assume "sc_alive s' d"
    then show "sc_killer s' d \<noteq> Some k"
      using assms(2,4) k sig_wfD(7) [OF w, of d k]
      by (auto simp: killer_cancel_waiting_def killer_cancelled_def split: if_splits)
  qed
qed

text \<open>
  When a context is destructed, its killer keeps the pointer to it; the destructor of the
  killer then writes to the dead context.
\<close>

lemma destroyed_context_dangles:
  assumes "sc_killer s c = Some k" "sk_context s k = Some c"
  shows "killer_cancel_waiting k (context_destroy c s) = None"
  using assms by (simp add: killer_cancel_waiting_def context_destroy_def context_destructed_def emit_def Let_def)

text \<open>A context that was killed while its submits wait for a handler still delivers them.\<close>

lemma killed_context_delivers:
  "sig_events (snd (add_handler 1 3 (snd (kill 7 5 demo_signals)))) =
     [Await_signal 3 1, Receive_signal 3 7 0xcafe 2]"
  unfolding add_handler_def demo_signals_def submit_def deliverable_def add_deliverable_def
  by (subst (2) listen.simps, subst listen.simps)
     (simp add: sig_new_def context_new_def add_context_def emit_def kill_def enqueue_deliverable_def
       deliver_one_def delivered_def Let_def listen.simps)

end
