(* ===== verification/Kernel_Caps.thy ===== *)
theory Kernel_Caps
  imports Bit_Array "HOL-Library.Monad_Syntax"
begin

text \<open>
  Capabilities in the kernel, \<open>base-hw/src/core/kernel/object.{h,cc}\<close>: kernel objects have
  identities, and a protection domain refers to an identity by a capability number.  The
  references live in the slab of their protection domain; they are named by their place there.
  The tree of references of a protection domain is the map from numbers to references
  (\<open>Id_Space\<close> shows that an AVL tree implements one), the numbers come from the bit allocator.
  \<open>None\<close> stands for an access to a reference that does not exist, or for an exception.
\<close>

type_synonym pd = nat
type_synonym ident = nat
type_synonym kobj = nat
type_synonym ref = nat
type_synonym capid = "16 word"

record oir =
  oir_capid :: capid
  oir_identity :: "ident option"
  oir_pd :: pd
  oir_in_utcbs :: "16 word"

record caps =
  oirs :: "ref \<Rightarrow> oir option"
  idents :: "ident \<Rightarrow> ref list"
  ident_object :: "ident \<Rightarrow> kobj option"
  obj_idents :: "kobj \<Rightarrow> ident list"
  cap_tree :: "pd \<Rightarrow> capid \<Rightarrow> ref option"
  capid_alloc :: "pd \<Rightarrow> bit_allocator"
  cap_slab :: "pd \<Rightarrow> ref list"

definition cap_id_invalid :: capid where
  "cap_id_invalid = 0"


section \<open>Capability numbers\<close>

text \<open>The allocation of one number; without a free one, the exception is not caught.\<close>

definition capid_new :: "bit_allocator \<Rightarrow> (capid \<times> bit_allocator) option" where
  "capid_new a = (case ba_alloc 0 a of
     Some (Inr i, a') \<Rightarrow> Some (ucast i, a')
   | _ \<Rightarrow> None)"

definition capid_free :: "capid \<Rightarrow> bit_allocator \<Rightarrow> bit_allocator" where
  "capid_free i a = snd (ba_free (ucast i) 0 a)"


section \<open>References\<close>

definition oir_find_pd :: "caps \<Rightarrow> ref \<Rightarrow> pd \<Rightarrow> ref option option" where
  "oir_find_pd st r p = do {
     x \<leftarrow> oirs st r;
     Some (case oir_identity x of
         None \<Rightarrow> None
       | Some i \<Rightarrow> find (\<lambda>q. map_option oir_pd (oirs st q) = Some p) (idents st i)) }"

definition tree_find :: "caps \<Rightarrow> pd \<Rightarrow> capid \<Rightarrow> ref option" where
  "tree_find st p cid = cap_tree st p cid"

text \<open>The constructor of a reference at the place \<open>dst\<close>.\<close>

definition oir_new :: "ref \<Rightarrow> ident option \<Rightarrow> pd \<Rightarrow> caps \<Rightarrow> caps option" where
  "oir_new dst i p st = do {
     (cid, a) \<leftarrow> capid_new (capid_alloc st p);
     Some (st\<lparr>
       capid_alloc := (capid_alloc st)(p := a),
       oirs := (oirs st)(dst := Some \<lparr>oir_capid = cid, oir_identity = i, oir_pd = p, oir_in_utcbs = 0\<rparr>),
       idents := (case i of None \<Rightarrow> idents st | Some j \<Rightarrow> (idents st)(j := dst # idents st j)),
       cap_tree := (cap_tree st)(p := (cap_tree st p)(cid := Some dst))\<rparr>) }"

definition factory :: "ref \<Rightarrow> ref \<Rightarrow> pd \<Rightarrow> caps \<Rightarrow> (ref option \<times> caps) option" where
  "factory r dst p st = do {
     x \<leftarrow> oirs st r;
     (case oir_identity x of
        None \<Rightarrow> Some (None, st)
      | Some i \<Rightarrow> map_option (\<lambda>st'. (Some dst, st')) (oir_new dst (Some i) p st)) }"

definition add_to_utcb :: "ref \<Rightarrow> caps \<Rightarrow> caps option" where
  "add_to_utcb r st = do {
     x \<leftarrow> oirs st r;
     Some (st\<lparr>oirs := (oirs st)(r := Some (x\<lparr>oir_in_utcbs := oir_in_utcbs x + 1\<rparr>))\<rparr>) }"

definition remove_from_utcb :: "ref \<Rightarrow> caps \<Rightarrow> caps option" where
  "remove_from_utcb r st = do {
     x \<leftarrow> oirs st r;
     Some (st\<lparr>oirs := (oirs st)(r := Some (x\<lparr>oir_in_utcbs := oir_in_utcbs x - 1\<rparr>))\<rparr>) }"

definition in_utcb :: "oir \<Rightarrow> bool" where
  "in_utcb x \<longleftrightarrow> oir_in_utcbs x > 0"

definition oir_invalidate :: "ref \<Rightarrow> caps \<Rightarrow> caps option" where
  "oir_invalidate r st = do {
     x \<leftarrow> oirs st r;
     Some (st\<lparr>
       idents := (case oir_identity x of None \<Rightarrow> idents st
                  | Some i \<Rightarrow> (idents st)(i := remove1 r (idents st i))),
       oirs := (oirs st)(r := Some (x\<lparr>oir_identity := None\<rparr>))\<rparr>) }"

definition oir_destroy :: "ref \<Rightarrow> caps \<Rightarrow> caps option" where
  "oir_destroy r st = do {
     st \<leftarrow> oir_invalidate r st;
     x \<leftarrow> oirs st r;
     (let p = oir_pd x in Some (st\<lparr>
       cap_tree := (cap_tree st)(p := (cap_tree st p)(oir_capid x := None)),
       capid_alloc := (capid_alloc st)(p := capid_free (oir_capid x) (capid_alloc st p)),
       oirs := (oirs st)(r := None)\<rparr>)) }"


section \<open>Identities and objects\<close>

fun invalidate_refs :: "ref list \<Rightarrow> caps \<Rightarrow> caps option" where
  "invalidate_refs [] st = Some st"
| "invalidate_refs (r # rs) st = do { st' \<leftarrow> oir_invalidate r st; invalidate_refs rs st' }"

definition identity_invalidate :: "ident \<Rightarrow> caps \<Rightarrow> caps option" where
  "identity_invalidate i st = do {
     st \<leftarrow> invalidate_refs (idents st i) st;
     Some (case ident_object st i of
         None \<Rightarrow> st
       | Some ob \<Rightarrow> st\<lparr>obj_idents := (obj_idents st)(ob := remove1 i (obj_idents st ob)),
                      ident_object := (ident_object st)(i := None)\<rparr>) }"

fun invalidate_idents :: "ident list \<Rightarrow> caps \<Rightarrow> caps option" where
  "invalidate_idents [] st = Some st"
| "invalidate_idents (i # is) st = do { st' \<leftarrow> identity_invalidate i st; invalidate_idents is st' }"

definition object_destroy :: "kobj \<Rightarrow> caps \<Rightarrow> caps option" where
  "object_destroy ob st = invalidate_idents (obj_idents st ob) st"

text \<open>The kernel calls on a capability of the calling thread, which belongs to \<open>p\<close>.\<close>

definition call_ack_cap :: "pd \<Rightarrow> capid \<Rightarrow> caps \<Rightarrow> caps option" where
  "call_ack_cap p cid st = (case tree_find st p cid of
     None \<Rightarrow> Some st | Some r \<Rightarrow> remove_from_utcb r st)"

definition slab_free :: "pd \<Rightarrow> ref \<Rightarrow> caps \<Rightarrow> caps" where
  "slab_free p r st = st\<lparr>cap_slab := (cap_slab st)(p := r # cap_slab st p)\<rparr>"

definition call_delete_cap :: "pd \<Rightarrow> capid \<Rightarrow> caps \<Rightarrow> caps option" where
  "call_delete_cap p cid st = (case tree_find st p cid of
     None \<Rightarrow> Some st
   | Some r \<Rightarrow> do {
       x \<leftarrow> oirs st r;
       if in_utcb x then Some st
       else map_option (slab_free p r) (oir_destroy r st) })"


section \<open>Well-formed capability spaces\<close>

text \<open>The numbers that the bit allocator of a capability space has given out.\<close>

definition capid_used :: "bit_allocator \<Rightarrow> capid \<Rightarrow> bool" where
  "capid_used a cid \<longleftrightarrow> bit_at (ba_array a) (unat cid)"

definition capids_ok :: "bit_allocator \<Rightarrow> bool" where
  "capids_ok a \<longleftrightarrow> bit_len (ba_array a) = 65536 \<and> capid_used a cap_id_invalid"

definition caps_ok :: "caps \<Rightarrow> bool" where
  "caps_ok st \<longleftrightarrow>
     (\<forall>p. capids_ok (capid_alloc st p)) \<and>
     (\<forall>p cid. cap_tree st p cid \<noteq> None \<longrightarrow> cid \<noteq> cap_id_invalid \<and> capid_used (capid_alloc st p) cid) \<and>
     (\<forall>p cid r. cap_tree st p cid = Some r \<longleftrightarrow> (\<exists>x. oirs st r = Some x \<and> oir_pd x = p \<and> oir_capid x = cid)) \<and>
     (\<forall>i r. r \<in> set (idents st i) \<longleftrightarrow> (\<exists>x. oirs st r = Some x \<and> oir_identity x = Some i)) \<and>
     (\<forall>i. distinct (idents st i))"

text \<open>The kernel object identity that a number denotes in a capability space.\<close>

definition denotes :: "caps \<Rightarrow> pd \<Rightarrow> capid \<Rightarrow> ident option" where
  "denotes st p cid = (case cap_tree st p cid of
     None \<Rightarrow> None
   | Some r \<Rightarrow> (case oirs st r of None \<Rightarrow> None | Some x \<Rightarrow> oir_identity x))"

lemma caps_okD:
  assumes "caps_ok st"
  shows "capids_ok (capid_alloc st p)"
    "cap_tree st p cid = Some r \<Longrightarrow> cid \<noteq> cap_id_invalid \<and> capid_used (capid_alloc st p) cid"
    "cap_tree st p cid = Some r \<longleftrightarrow> (\<exists>x. oirs st r = Some x \<and> oir_pd x = p \<and> oir_capid x = cid)"
    "r \<in> set (idents st i) \<longleftrightarrow> (\<exists>x. oirs st r = Some x \<and> oir_identity x = Some i)"
    "distinct (idents st i)"
  using assms unfolding caps_ok_def by blast+

lemma unat_less_65536: "unat (j :: capid) < 65536"
  using unsigned_less [of j] by simp

lemma unat_ucast_capid: "unat (i :: addr) < 65536 \<Longrightarrow> unat (ucast i :: capid) = unat i"
  by (simp add: unsigned_ucast_eq take_bit_eq_mod)

text \<open>A new number is one that was not in use, or all numbers are in use.\<close>

lemma capid_new_ok:
  assumes "capids_ok a"
  shows "(\<exists>cid a'. capid_new a = Some (cid, a') \<and> capids_ok a' \<and> \<not> capid_used a cid \<and> cid \<noteq> cap_id_invalid \<and>
      (\<forall>j. capid_used a' j \<longleftrightarrow> capid_used a j \<or> j = cid)) \<or>
    (capid_new a = None \<and> (\<forall>j. capid_used a j))"
proof -
  have len: "bit_len (ba_array a) = 65536" using assms by (simp add: capids_ok_def)
  obtain r a' where r: "ba_alloc 0 a = Some (r, a')" "alloc_result (ba_array a) 1 r (ba_array a')"
    using ba_alloc_result [of a 0] len by auto
  show ?thesis
  proof (cases r)
    case (Inl e)
    then have "\<forall>i. \<not> free_block (ba_array a) 1 i" using r(2) by (simp add: alloc_result_def)
    then have "capid_used a j" for j
      using unat_less_65536 [of j] len by (simp add: free_block_1 capid_used_def)
    then show ?thesis using Inl r(1) by (simp add: capid_new_def)
  next
    case (Inr i)
    then have f: "unat i < 65536" "\<not> bit_at (ba_array a) (unat i)"
      and b: "length (ba_array a') = length (ba_array a)"
        "\<And>j. j < 65536 \<Longrightarrow> bit_at (ba_array a') j = (j = unat i \<or> bit_at (ba_array a) j)"
      using r(2) len by (auto simp: alloc_result_def free_block_1 bits_taken_def)
    let ?cid = "ucast i :: capid"
    have u: "unat ?cid = unat i" using unat_ucast_capid f(1) by blast
    have "capid_used a' j \<longleftrightarrow> capid_used a j \<or> j = ?cid" for j
      using b(2) [OF unat_less_65536 [of j]] u word_unat_eq_iff [of j ?cid] by (auto simp: capid_used_def)
    moreover have "\<not> capid_used a ?cid" using f(2) u by (simp add: capid_used_def)
    moreover from this have "?cid \<noteq> cap_id_invalid" using assms by (auto simp: capids_ok_def)
    moreover have "capids_ok a'"
      using calculation(1) assms b(1) len by (simp add: capids_ok_def bit_len_def)
    ultimately show ?thesis using Inr r(1) by (simp add: capid_new_def)
  qed
qed

text \<open>Two numbers are the same if they denote the same reference.\<close>

lemma cap_tree_inj:
  "caps_ok st \<Longrightarrow> cap_tree st p i = Some r \<Longrightarrow> cap_tree st q j = Some r \<Longrightarrow> p = q \<and> i = j"
  by (auto simp: caps_okD(3))

lemma denotes_ref:
  "caps_ok st \<Longrightarrow> oirs st r = Some x \<Longrightarrow> denotes st (oir_pd x) (oir_capid x) = oir_identity x"
  using caps_okD(3) [of st "oir_pd x" "oir_capid x" r] by (simp add: denotes_def)

lemma denotes_invalid [simp]: "caps_ok st \<Longrightarrow> denotes st p cap_id_invalid = None"
  using caps_okD(2) [of st p cap_id_invalid] by (cases "cap_tree st p cap_id_invalid") (auto simp: denotes_def)

lemma oir_find_pd_ok:
  assumes "caps_ok st" "oirs st r = Some x"
  shows "case oir_find_pd st r p of
      Some (Some q) \<Rightarrow> \<exists>y. oirs st q = Some y \<and> oir_pd y = p \<and> oir_identity y = oir_identity x \<and> oir_identity x \<noteq> None
    | Some None \<Rightarrow> oir_identity x = None \<or> (\<forall>cid. denotes st p cid \<noteq> oir_identity x)
    | None \<Rightarrow> False"
proof (cases "oir_identity x")
  case None
  then show ?thesis using assms(2) by (simp add: oir_find_pd_def)
next
  case (Some i)
  let ?P = "\<lambda>q. map_option oir_pd (oirs st q) = Some p"
  show ?thesis
  proof (cases "find ?P (idents st i)")
    case None
    have "denotes st p cid \<noteq> Some i" for cid
    proof
      assume d: "denotes st p cid = Some i"
      then obtain q y where "cap_tree st p cid = Some q" "oirs st q = Some y" "oir_identity y = Some i"
        by (auto simp: denotes_def split: option.splits)
      then show False using None caps_okD(3) [OF assms(1), of p cid q] caps_okD(4) [OF assms(1), of q i]
        by (auto simp: find_None_iff)
    qed
    then show ?thesis using assms(2) Some None by (simp add: oir_find_pd_def)
  next
    case (Some q)
    then have "q \<in> set (idents st i)" "?P q" by (auto simp: find_Some_iff)
    then show ?thesis
      using Some assms(2) \<open>oir_identity x = Some i\<close> caps_okD(4) [OF assms(1), of q i]
      by (auto simp: oir_find_pd_def)
  qed
qed

text \<open>A new reference gets a new number and changes no other one.\<close>

lemma oir_new_ok:
  assumes ok: "caps_ok st" and free: "oirs st dst = None" and new: "oir_new dst (Some i) p st = Some st'"
  shows "caps_ok st' \<and> (\<exists>x. oirs st' dst = Some x \<and> oir_pd x = p \<and> oir_identity x = Some i \<and>
      cap_tree st p (oir_capid x) = None) \<and> cap_slab st' = cap_slab st \<and>
    (\<forall>r. r \<noteq> dst \<longrightarrow> oirs st' r = oirs st r) \<and>
    (\<forall>q cid r. cap_tree st q cid = Some r \<longrightarrow> cap_tree st' q cid = Some r)"
proof -
  note k = caps_okD [OF ok]
  obtain cid a where n: "capid_new (capid_alloc st p) = Some (cid, a)"
    and st': "st' = st\<lparr>capid_alloc := (capid_alloc st)(p := a),
       oirs := (oirs st)(dst := Some \<lparr>oir_capid = cid, oir_identity = Some i, oir_pd = p, oir_in_utcbs = 0\<rparr>),
       idents := (idents st)(i := dst # idents st i),
       cap_tree := (cap_tree st)(p := (cap_tree st p)(cid := Some dst))\<rparr>"
    using new by (auto simp: oir_new_def split: bind_splits)
  have a: "capids_ok a" "\<not> capid_used (capid_alloc st p) cid" "cid \<noteq> cap_id_invalid"
    "\<And>j. capid_used a j \<longleftrightarrow> capid_used (capid_alloc st p) j \<or> j = cid"
    using capid_new_ok [OF k(1), of p] n by auto
  have fresh: "cap_tree st p cid = None" using k(2) [of p cid] a(2) by (cases "cap_tree st p cid") auto
  have nodst: "cap_tree st q c \<noteq> Some dst" "dst \<notin> set (idents st j)" for q c j
    using k(3) [of q c dst] k(4) [of dst j] free by auto
  have "caps_ok st'"
    unfolding caps_ok_def
  proof (intro conjI allI)
    fix q
    show "capids_ok (capid_alloc st' q)" using a(1) k(1) by (simp add: st')
  next
    fix q c
    show "cap_tree st' q c \<noteq> None \<longrightarrow> c \<noteq> cap_id_invalid \<and> capid_used (capid_alloc st' q) c"
      using a(3,4) k(2) [of q c] by (auto simp: st')
  next
    fix q c r
    show "cap_tree st' q c = Some r \<longleftrightarrow> (\<exists>x. oirs st' r = Some x \<and> oir_pd x = q \<and> oir_capid x = c)"
      using k(3) [of q c r] nodst(1) [of q c] fresh by (auto simp: st')
  next
    fix j r
    show "r \<in> set (idents st' j) \<longleftrightarrow> (\<exists>x. oirs st' r = Some x \<and> oir_identity x = Some j)"
      using k(4) [of r j] nodst(2) [of j] by (auto simp: st')
  next
    fix j
    show "distinct (idents st' j)" using k(5) nodst(2) by (simp add: st')
  qed
  then show ?thesis using fresh by (auto simp: st')
qed

lemma utcb_count_ok:
  assumes ok: "caps_ok st" and x: "oirs st r = Some x"
  shows "caps_ok (st\<lparr>oirs := (oirs st)(r := Some (x\<lparr>oir_in_utcbs := n\<rparr>))\<rparr>)"
    "denotes (st\<lparr>oirs := (oirs st)(r := Some (x\<lparr>oir_in_utcbs := n\<rparr>))\<rparr>) q c = denotes st q c"
proof -
  note k = caps_okD [OF ok]
  show "caps_ok (st\<lparr>oirs := (oirs st)(r := Some (x\<lparr>oir_in_utcbs := n\<rparr>))\<rparr>)"
    unfolding caps_ok_def
  proof (intro conjI allI)
    fix p c
    show "cap_tree (st\<lparr>oirs := (oirs st)(r := Some (x\<lparr>oir_in_utcbs := n\<rparr>))\<rparr>) p c \<noteq> None \<longrightarrow>
        c \<noteq> cap_id_invalid \<and> capid_used (capid_alloc (st\<lparr>oirs := (oirs st)(r := Some (x\<lparr>oir_in_utcbs := n\<rparr>))\<rparr>) p) c"
      using k(2) [of p c] by auto
  qed (use k(1) k(3-5) x in auto)
  show "denotes (st\<lparr>oirs := (oirs st)(r := Some (x\<lparr>oir_in_utcbs := n\<rparr>))\<rparr>) q c = denotes st q c"
    using x by (auto simp: denotes_def split: option.splits)
qed

lemma add_to_utcb_ok:
  assumes "caps_ok st" "oirs st r \<noteq> None"
  shows "\<exists>st'. add_to_utcb r st = Some st' \<and> caps_ok st' \<and> cap_tree st' = cap_tree st \<and> cap_slab st' = cap_slab st \<and>
    (\<forall>q. map_option oir_identity (oirs st' q) = map_option oir_identity (oirs st q)) \<and>
    (\<forall>q. map_option oir_pd (oirs st' q) = map_option oir_pd (oirs st q)) \<and>
    (\<forall>q. map_option oir_capid (oirs st' q) = map_option oir_capid (oirs st q))"
  using assms utcb_count_ok(1) [OF assms(1)] by (auto simp: add_to_utcb_def)

lemma oir_invalidate_ok:
  assumes ok: "caps_ok st" and inv: "oir_invalidate r st = Some st'"
  shows "caps_ok st' \<and> cap_tree st' = cap_tree st \<and> cap_slab st' = cap_slab st \<and>
    (\<forall>q. q \<noteq> r \<longrightarrow> oirs st' q = oirs st q) \<and>
    (\<exists>x. oirs st r = Some x \<and> oirs st' r = Some (x\<lparr>oir_identity := None\<rparr>))"
proof -
  note k = caps_okD [OF ok]
  obtain x where x: "oirs st r = Some x" using inv by (auto simp: oir_invalidate_def split: bind_splits)
  have st': "st' = st\<lparr>idents := (case oir_identity x of None \<Rightarrow> idents st
        | Some i \<Rightarrow> (idents st)(i := remove1 r (idents st i))),
      oirs := (oirs st)(r := Some (x\<lparr>oir_identity := None\<rparr>))\<rparr>"
    using inv x by (simp add: oir_invalidate_def)
  have "caps_ok st'"
    unfolding caps_ok_def
  proof (intro conjI allI)
    fix j q
    show "q \<in> set (idents st' j) \<longleftrightarrow> (\<exists>y. oirs st' q = Some y \<and> oir_identity y = Some j)"
      using k(4) [of q j] k(5) x by (auto simp: st' split: option.splits)
  next
    fix p c q
    show "cap_tree st' p c = Some q \<longleftrightarrow> (\<exists>y. oirs st' q = Some y \<and> oir_pd y = p \<and> oir_capid y = c)"
      using k(3) [of p c q] x by (auto simp: st')
  next
    fix p c
    show "cap_tree st' p c \<noteq> None \<longrightarrow> c \<noteq> cap_id_invalid \<and> capid_used (capid_alloc st' p) c"
      using k(2) [of p c] by (auto simp: st')
  qed (use k(1,5) in \<open>auto simp: st' split: option.splits\<close>)
  then show ?thesis using x by (simp add: st')
qed

lemma capid_free_ok:
  assumes "capids_ok a" "capid_used a c" "c \<noteq> cap_id_invalid"
  shows "capids_ok (capid_free c a)" "capid_used (capid_free c a) j \<longleftrightarrow> capid_used a j \<and> j \<noteq> c"
proof -
  have len: "bit_len (ba_array a) = 65536" using assms(1) by (simp add: capids_ok_def)
  have u: "unat (ucast c :: addr) = unat c" by (simp add: unsigned_ucast_eq take_bit_eq_mod)
      (use unat_less_65536 [of c] in simp)
  obtain a' where a': "ba_free (ucast c) 0 a = (None, a')" "length (ba_array a') = length (ba_array a)"
      "\<forall>j < 65536. bit_at (ba_array a') j = (j \<noteq> unat c \<and> bit_at (ba_array a) j)"
  proof -
    have "\<exists>a'. ba_free (ucast c) 0 a = (None, a') \<and> ba_next a' = ucast c \<and> length (ba_array a') = length (ba_array a) \<and>
        (\<forall>j < bit_len (ba_array a). bit_at (ba_array a') j =
          (\<not> (unat (ucast c :: addr) \<le> j \<and> j < unat (ucast c :: addr) + 2 ^ 0) \<and> bit_at (ba_array a) j))"
    proof (rule ba_free_result)
      show "\<forall>j. unat (ucast c :: addr) \<le> j \<and> j < unat (ucast c :: addr) + 2 ^ 0 \<longrightarrow> bit_at (ba_array a) j"
        using u assms(2) by (auto simp: capid_used_def le_less_Suc_eq)
    qed (use len u unat_less_65536 [of c] in simp_all)
    moreover have "(\<not> (unat c \<le> j \<and> j < unat c + 2 ^ 0)) = (j \<noteq> unat c)" for j by auto
    ultimately show ?thesis using that u len by auto
  qed
  have used: "capid_used (capid_free c a) j \<longleftrightarrow> capid_used a j \<and> j \<noteq> c" for j
    using a'(1,3) unat_less_65536 [of j] word_unat_eq_iff [of j c] by (auto simp: capid_free_def capid_used_def)
  then show "capid_used (capid_free c a) j \<longleftrightarrow> capid_used a j \<and> j \<noteq> c" .
  show "capids_ok (capid_free c a)"
    using used [of cap_id_invalid] assms(1,3) a'(1,2) len by (simp add: capids_ok_def bit_len_def capid_free_def)
qed

lemma oir_destroy_ok:
  assumes ok: "caps_ok st" and d: "oir_destroy r st = Some st'"
  shows "caps_ok st' \<and> cap_slab st' = cap_slab st \<and> oirs st' r = None \<and>
    (\<forall>q. q \<noteq> r \<longrightarrow> oirs st' q = oirs st q)"
proof -
  obtain st1 where inv: "oir_invalidate r st = Some st1" using d by (auto simp: oir_destroy_def split: bind_splits)
  obtain x0 where 1: "caps_ok st1" "cap_slab st1 = cap_slab st" "\<forall>q. q \<noteq> r \<longrightarrow> oirs st1 q = oirs st q"
    and x0: "oirs st1 r = Some (x0\<lparr>oir_identity := None\<rparr>)"
    using oir_invalidate_ok [OF ok inv] by blast
  define x where "x = x0\<lparr>oir_identity := None\<rparr>"
  note k = caps_okD [OF 1(1)]
  have x: "oirs st1 r = Some x" "oir_identity x = None" using x0 by (simp_all add: x_def)
  have st': "st' = st1\<lparr>cap_tree := (cap_tree st1)(oir_pd x := (cap_tree st1 (oir_pd x))(oir_capid x := None)),
       capid_alloc := (capid_alloc st1)(oir_pd x := capid_free (oir_capid x) (capid_alloc st1 (oir_pd x))),
       oirs := (oirs st1)(r := None)\<rparr>"
    using d inv x(1) by (simp add: oir_destroy_def Let_def)
  have t: "cap_tree st1 (oir_pd x) (oir_capid x) = Some r" using k(3) x(1) by blast
  note f = capid_free_ok [OF k(1), of "oir_pd x" "oir_capid x"] k(2) [OF t]
  have "caps_ok st'"
    unfolding caps_ok_def
  proof (intro conjI allI)
    fix p
    show "capids_ok (capid_alloc st' p)" using f k(1) by (simp add: st')
  next
    fix p c
    show "cap_tree st' p c \<noteq> None \<longrightarrow> c \<noteq> cap_id_invalid \<and> capid_used (capid_alloc st' p) c"
      using k(2) [of p c] f by (auto simp: st')
  next
    fix p c q
    show "cap_tree st' p c = Some q \<longleftrightarrow> (\<exists>y. oirs st' q = Some y \<and> oir_pd y = p \<and> oir_capid y = c)"
      using k(3) [of p c q] x(1) t by (auto simp: st')
  next
    fix j q
    show "q \<in> set (idents st' j) \<longleftrightarrow> (\<exists>y. oirs st' q = Some y \<and> oir_identity y = Some j)"
      using k(4) [of q j] x by (auto simp: st')
  qed (use k(5) in \<open>simp add: st'\<close>)
  then show ?thesis using 1 by (simp add: st')
qed

lemma invalidate_refs_ok:
  "caps_ok st \<Longrightarrow> invalidate_refs rs st = Some st' \<Longrightarrow> caps_ok st' \<and> cap_tree st' = cap_tree st"
proof (induction rs arbitrary: st)
  case (Cons r rs)
  then obtain st1 where "oir_invalidate r st = Some st1" "invalidate_refs rs st1 = Some st'"
    by (auto split: bind_splits)
  then show ?case using Cons.IH [of st1] oir_invalidate_ok [of st r st1] Cons.prems(1) by auto
qed simp

lemma caps_ok_objects [simp]:
  "caps_ok (st\<lparr>obj_idents := a, ident_object := b\<rparr>) = caps_ok st"
  "caps_ok (slab_free p r st) = caps_ok st"
  by (simp_all add: caps_ok_def slab_free_def)

lemma identity_invalidate_ok:
  assumes "caps_ok st" "identity_invalidate i st = Some st'"
  shows "caps_ok st'"
proof -
  obtain st1 where "invalidate_refs (idents st i) st = Some st1"
    using assms(2) by (auto simp: identity_invalidate_def split: bind_splits)
  then show ?thesis using invalidate_refs_ok [OF assms(1)] assms(2)
    by (auto simp: identity_invalidate_def split: option.splits)
qed

lemma invalidate_idents_ok: "caps_ok st \<Longrightarrow> invalidate_idents is st = Some st' \<Longrightarrow> caps_ok st'"
proof (induction "is" arbitrary: st)
  case (Cons i js)
  then obtain st1 where "identity_invalidate i st = Some st1" "invalidate_idents js st1 = Some st'"
    by (auto split: bind_splits)
  then show ?case using Cons.IH [of st1] identity_invalidate_ok [of st i st1] Cons.prems(1) by auto
qed simp

lemma call_delete_ok:
  assumes "caps_ok st" "call_delete_cap p c st = Some st'"
  shows "caps_ok st'"
proof (cases "tree_find st p c")
  case (Some r)
  then obtain x where x: "oirs st r = Some x" using assms(1) caps_okD(3) [of st p c r] by (auto simp: tree_find_def)
  then show ?thesis using assms Some oir_destroy_ok [OF assms(1), of r]
    by (auto simp: call_delete_cap_def split: if_splits)
qed (use assms in \<open>simp add: call_delete_cap_def\<close>)

lemma call_ack_ok:
  assumes "caps_ok st" "call_ack_cap p c st = Some st'"
  shows "caps_ok st'"
  using assms utcb_count_ok(1) [OF assms(1)]
  by (auto simp: call_ack_cap_def remove_from_utcb_def split: option.splits bind_splits)

end
