(* ===== verification/Ipc_Transfer.thy ===== *)
theory Ipc_Transfer
  imports Kernel_Caps
begin

text \<open>
  The transfer of a message from the UTCB of the sender to the one of the receiver:
  \<open>Native_utcb\<close> of \<open>base-hw/src/include/base/internal/native_utcb.h\<close> and \<open>copy_msg\<close> of
  \<open>base-hw/src/core/kernel/ipc_node.cc\<close>, which translates the capabilities of the message.
\<close>

section \<open>UTCBs\<close>

definition MAX_CAP_ARGS :: nat where
  "MAX_CAP_ARGS = 4"

text \<open>The payload area has a fixed size, which is the length of the list.\<close>

record utcb =
  u_cap_cnt :: nat
  u_data_size :: nat
  u_exception_code :: "64 word"
  u_destination :: capid
  u_caps :: "capid list"
  u_data :: "8 word list"

definition utcb_assign :: "utcb \<Rightarrow> utcb \<Rightarrow> utcb" where
  "utcb_assign u other =
     (let n = min (length (u_data u)) (u_data_size other)
      in u\<lparr>u_cap_cnt := 0, u_data_size := n, u_exception_code := u_exception_code other,
           u_destination := u_destination other,
           u_data := take n (u_data other) @ drop n (u_data u)\<rparr>)"

definition cap_get :: "utcb \<Rightarrow> nat \<Rightarrow> capid" where
  "cap_get u i = (if i < MAX_CAP_ARGS then u_caps u ! i else cap_id_invalid)"

definition cap_set :: "nat \<Rightarrow> capid \<Rightarrow> utcb \<Rightarrow> utcb" where
  "cap_set i c u = (if i < MAX_CAP_ARGS then u\<lparr>u_caps := (u_caps u)[i := c]\<rparr> else u)"

definition cap_add :: "capid \<Rightarrow> utcb \<Rightarrow> utcb" where
  "cap_add c u =
     (if u_cap_cnt u < MAX_CAP_ARGS
      then u\<lparr>u_caps := (u_caps u)[u_cap_cnt u := c], u_cap_cnt := u_cap_cnt u + 1\<rparr> else u)"

definition utcb_set_data_size :: "nat \<Rightarrow> utcb \<Rightarrow> utcb" where
  "utcb_set_data_size n u = u\<lparr>u_data_size := min n (length (u_data u))\<rparr>"


section \<open>Translation of capabilities\<close>

text \<open>
  One capability that exists in the space of the sender: the reference of the receiver to the
  same identity, which is created at the pre-allocated place \<open>ptr\<close> if there is none, except in
  core.
\<close>

definition translate_cap :: "pd \<Rightarrow> pd \<Rightarrow> ref \<Rightarrow> ref \<Rightarrow> caps \<Rightarrow> (capid \<times> caps) option" where
  "translate_cap core p r ptr st = do {
     dst \<leftarrow> oir_find_pd st r p;
     (dst, st) \<leftarrow>
       if dst = None \<and> p \<noteq> core then do {
         (d, st') \<leftarrow> factory r ptr p st;
         Some (d, if d = None then slab_free p ptr st' else st') }
       else Some (dst, slab_free p ptr st);
     (case dst of
        None \<Rightarrow> Some (cap_id_invalid, st)
      | Some d \<Rightarrow> do {
          st \<leftarrow> add_to_utcb d st;
          x \<leftarrow> oirs st d;
          Some (oir_capid x, st) }) }"

text \<open>The loop over the pre-allocated places from index \<open>i\<close> on.\<close>

fun copy_caps :: "pd \<Rightarrow> pd \<Rightarrow> pd \<Rightarrow> utcb \<Rightarrow> nat \<Rightarrow> ref list \<Rightarrow> caps \<times> utcb \<Rightarrow> (caps \<times> utcb) option" where
  "copy_caps core p sp su i [] s = Some s"
| "copy_caps core p sp su i (ptr # ptrs) (st, u) =
     (if i \<ge> u_cap_cnt su then copy_caps core p sp su (i + 1) ptrs (slab_free p ptr st, u)
      else let c = cap_get su i in
        case (if c = cap_id_invalid then None else tree_find st sp c) of
          None \<Rightarrow> copy_caps core p sp su (i + 1) ptrs (slab_free p ptr st, cap_add cap_id_invalid u)
        | Some r \<Rightarrow> do {
            (c', st') \<leftarrow> translate_cap core p r ptr st;
            copy_caps core p sp su (i + 1) ptrs (st', cap_add c' u) })"

definition copy_utcb ::
    "pd \<Rightarrow> pd \<Rightarrow> pd \<Rightarrow> capid \<Rightarrow> ref list \<Rightarrow> utcb \<Rightarrow> caps \<times> utcb \<Rightarrow> (caps \<times> utcb) option" where
  "copy_utcb core p sp capid ptrs su = (\<lambda>(st, u).
     copy_caps core p sp su 0 ptrs (st, (utcb_assign u su)\<lparr>u_destination := capid\<rparr>))"


section \<open>The translation is right\<close>

definition free_ids :: "caps \<Rightarrow> pd \<Rightarrow> capid set" where
  "free_ids st p = {c. \<not> capid_used (capid_alloc st p) c}"

lemma finite_free_ids [simp]: "finite (free_ids st p)"
  by simp

text \<open>What a step may change: references are only added, and only in the space \<open>p\<close>.\<close>

definition extends :: "pd \<Rightarrow> caps \<Rightarrow> caps \<Rightarrow> bool" where
  "extends p st st' \<longleftrightarrow> caps_ok st' \<and>
     (\<forall>q. q \<noteq> p \<longrightarrow> cap_tree st' q = cap_tree st q) \<and>
     (\<forall>c. cap_tree st p c \<noteq> None \<longrightarrow> cap_tree st' p c = cap_tree st p c) \<and>
     (\<forall>r x. oirs st r = Some x \<longrightarrow> (\<exists>x'. oirs st' r = Some x' \<and> oir_identity x' = oir_identity x))"

lemma extends_refl: "caps_ok st \<Longrightarrow> extends p st st"
  by (simp add: extends_def)

lemma extends_trans: "extends p st1 st2 \<Longrightarrow> extends p st2 st3 \<Longrightarrow> extends p st1 st3"
  unfolding extends_def
proof (elim conjE, intro conjI allI impI)
  fix r x
  assume "\<forall>r x. oirs st1 r = Some x \<longrightarrow> (\<exists>x'. oirs st2 r = Some x' \<and> oir_identity x' = oir_identity x)"
    "\<forall>r x. oirs st2 r = Some x \<longrightarrow> (\<exists>x'. oirs st3 r = Some x' \<and> oir_identity x' = oir_identity x)"
    "oirs st1 r = Some x"
  then show "\<exists>x'. oirs st3 r = Some x' \<and> oir_identity x' = oir_identity x" by fastforce
qed auto

lemma extends_denotes:
  assumes "extends p st st'" "caps_ok st" "cap_tree st q c \<noteq> None"
  shows "denotes st' q c = denotes st q c"
proof -
  obtain r where r: "cap_tree st q c = Some r" using assms(3) by auto
  then obtain x where x: "oirs st r = Some x" using caps_okD(3) [OF assms(2)] by blast
  have "cap_tree st' q c = Some r" using assms(1) r by (cases "q = p") (auto simp: extends_def)
  moreover obtain x' where "oirs st' r = Some x'" "oir_identity x' = oir_identity x"
    using assms(1) x unfolding extends_def by blast
  ultimately show ?thesis using r x by (simp add: denotes_def)
qed

lemma slab_free_simps [simp]:
  "oirs (slab_free p r st) = oirs st" "cap_tree (slab_free p r st) = cap_tree st"
  "capid_alloc (slab_free p r st) = capid_alloc st" "idents (slab_free p r st) = idents st"
  "denotes (slab_free p r st) q c = denotes st q c" "free_ids (slab_free p r st) q = free_ids st q"
  "extends q st (slab_free p r st) \<longleftrightarrow> caps_ok st"
  using caps_ok_objects(2) [of p r st]
  by (simp_all add: slab_free_def denotes_def free_ids_def extends_def cong: option.case_cong)

lemma oir_new_extends:
  assumes ok: "caps_ok st" and free: "oirs st dst = None" and ids: "free_ids st p \<noteq> {}"
  shows "\<exists>st' x. oir_new dst (Some i) p st = Some st' \<and> extends p st st' \<and> oirs st' dst = Some x \<and>
    oir_pd x = p \<and> oir_identity x = Some i \<and> (\<forall>r. r \<noteq> dst \<longrightarrow> oirs st' r = oirs st r) \<and>
    card (free_ids st p) \<le> card (free_ids st' p) + 1"
proof -
  have c: "capids_ok (capid_alloc st p)" using caps_okD(1) [OF ok] .
  obtain cid a where n: "capid_new (capid_alloc st p) = Some (cid, a)"
      "\<And>j. capid_used a j \<longleftrightarrow> capid_used (capid_alloc st p) j \<or> j = cid"
    using capid_new_ok [OF c] ids by (auto simp: free_ids_def)
  then obtain st' where st': "oir_new dst (Some i) p st = Some st'" "capid_alloc st' p = a"
    by (simp add: oir_new_def)
  have "free_ids st' p = free_ids st p - {cid}" using n(2) st'(2) by (auto simp: free_ids_def)
  then have "card (free_ids st p) \<le> card (free_ids st' p) + 1"
    by (metis add.commute card_Diff1_le card_Diff_singleton_if diff_le_self le_diff_conv le_refl plus_1_eq_Suc finite_free_ids)
  moreover have "\<forall>q. q \<noteq> p \<longrightarrow> cap_tree st' q = cap_tree st q"
    using st'(1) n(1) by (auto simp: oir_new_def)
  ultimately show ?thesis
    using oir_new_ok [OF ok free st'(1)] st'(1) free unfolding extends_def
    by (intro exI [of _ st']) (auto, metis option.distinct(1))
qed

lemma add_to_utcb_extends:
  assumes "caps_ok st" "oirs st d = Some x"
  shows "\<exists>st' x'. add_to_utcb d st = Some st' \<and> extends p st st' \<and> oirs st' d = Some x' \<and> oir_capid x' = oir_capid x \<and>
    oir_identity x' = oir_identity x \<and> oir_pd x' = oir_pd x \<and> (\<forall>r. r \<noteq> d \<longrightarrow> oirs st' r = oirs st r) \<and>
    free_ids st' p = free_ids st p"
  using assms utcb_count_ok(1) [OF assms] by (auto simp: add_to_utcb_def extends_def free_ids_def)

lemma capid_in_tree:
  "caps_ok st \<Longrightarrow> oirs st d = Some x \<Longrightarrow> cap_tree st (oir_pd x) (oir_capid x) = Some d \<and> oir_capid x \<noteq> cap_id_invalid"
  using caps_okD(3) [of st "oir_pd x" "oir_capid x" d] caps_okD(2) [of st "oir_pd x" "oir_capid x" d] by auto

text \<open>What the translation of one capability yields.\<close>

definition translated :: "pd \<Rightarrow> pd \<Rightarrow> caps \<Rightarrow> caps \<Rightarrow> ident option \<Rightarrow> capid \<Rightarrow> bool" where
  "translated core p st st' i c \<longleftrightarrow>
     (if c = cap_id_invalid then i = None \<or> (p = core \<and> (\<forall>c'. denotes st p c' \<noteq> i))
      else cap_tree st' p c \<noteq> None \<and> denotes st' p c = i \<and> i \<noteq> None)"

lemma found_ref_ok:
  assumes "caps_ok st" "oirs st d = Some y" "oir_pd y = p" "oir_identity y = i" "i \<noteq> None"
  shows "\<exists>st' x. add_to_utcb d st = Some st' \<and> extends p st st' \<and> oirs st' d = Some x \<and>
    translated core p st0 st' i (oir_capid x) \<and> (\<forall>r. r \<noteq> d \<longrightarrow> oirs st' r = oirs st r) \<and>
    free_ids st' p = free_ids st p"
proof -
  obtain st' x where a: "add_to_utcb d st = Some st'" "extends p st st'" "oirs st' d = Some x"
      "oir_identity x = i" "oir_pd x = p" "\<forall>r. r \<noteq> d \<longrightarrow> oirs st' r = oirs st r" "free_ids st' p = free_ids st p"
    using add_to_utcb_extends [OF assms(1,2), of p] assms(3,4) by auto
  have ok: "caps_ok st'" using a(2) by (simp add: extends_def)
  show ?thesis
    using a capid_in_tree [OF ok a(3)] denotes_ref [OF ok a(3)] assms(5) by (auto simp: translated_def)
qed

lemma translate_cap_ok:
  assumes ok: "caps_ok st" and x: "oirs st r = Some x" and ptr: "oirs st ptr = None" and ids: "free_ids st p \<noteq> {}"
  shows "\<exists>c st'. translate_cap core p r ptr st = Some (c, st') \<and> extends p st st' \<and>
    translated core p st st' (oir_identity x) c \<and> (\<forall>q. q \<noteq> ptr \<and> oirs st q = None \<longrightarrow> oirs st' q = None) \<and>
    card (free_ids st p) \<le> card (free_ids st' p) + 1"
proof -
  note f = oir_find_pd_ok [OF ok x, of p]
  then consider (found) d y where "oir_find_pd st r p = Some (Some d)" "oirs st d = Some y" "oir_pd y = p"
      "oir_identity y = oir_identity x" "oir_identity x \<noteq> None"
    | (dead) "oir_find_pd st r p = Some None" "oir_identity x = None"
    | (core) "oir_find_pd st r p = Some None" "p = core" "\<forall>c. denotes st p c \<noteq> oir_identity x"
    | (new) i where "oir_find_pd st r p = Some None" "p \<noteq> core" "oir_identity x = Some i"
    by (cases "oir_identity x"; cases "p = core") (auto split: option.splits)
  then show ?thesis
  proof cases
    case found
    have ok1: "caps_ok (slab_free p ptr st)" using ok by simp
    obtain st' z where "add_to_utcb d (slab_free p ptr st) = Some st'" "extends p (slab_free p ptr st) st'"
        "oirs st' d = Some z" "translated core p st st' (oir_identity x) (oir_capid z)"
        "\<forall>r. r \<noteq> d \<longrightarrow> oirs st' r = oirs st r" "free_ids st' p = free_ids st p"
      using found_ref_ok [OF ok1, of d y p "oir_identity x" core st] found(2-5) by auto
    moreover have "extends p st st'"
      using calculation(2) ok extends_trans [of p st "slab_free p ptr st" st'] by simp
    ultimately show ?thesis using found(1,2)
      by (auto simp: translate_cap_def) (metis option.distinct(1))
  next
    case dead
    then show ?thesis using ok x by (auto simp: translate_cap_def factory_def translated_def)
  next
    case core
    then show ?thesis using ok by (auto simp: translate_cap_def translated_def)
  next
    case (new i)
    obtain st1 y where n: "oir_new ptr (Some i) p st = Some st1" "extends p st st1" "oirs st1 ptr = Some y"
        "oir_pd y = p" "oir_identity y = Some i" "\<forall>r. r \<noteq> ptr \<longrightarrow> oirs st1 r = oirs st r"
        "card (free_ids st p) \<le> card (free_ids st1 p) + 1"
      using oir_new_extends [OF ok ptr ids, of i] by auto
    have ok1: "caps_ok st1" using n(2) by (simp add: extends_def)
    obtain st' z where a: "add_to_utcb ptr st1 = Some st'" "extends p st1 st'" "oirs st' ptr = Some z"
        "translated core p st st' (Some i) (oir_capid z)" "\<forall>r. r \<noteq> ptr \<longrightarrow> oirs st' r = oirs st1 r"
        "free_ids st' p = free_ids st1 p"
      using found_ref_ok [OF ok1 n(3,4), of "Some i" core st] n(5) by auto
    then show ?thesis using new n extends_trans [OF n(2) a(2)] x
      by (auto simp: translate_cap_def factory_def)
  qed
qed

lemma translated_extends:
  assumes "translated core p st st1 i c" "extends p st1 st2" "caps_ok st1"
  shows "translated core p st st2 i c"
proof (cases "c = cap_id_invalid")
  case False
  then have c: "cap_tree st1 p c \<noteq> None" "denotes st1 p c = i" "i \<noteq> None" using assms(1) by (auto simp: translated_def)
  then have "cap_tree st2 p c \<noteq> None" using assms(2) by (auto simp: extends_def)
  then show ?thesis using False c extends_denotes [OF assms(2,3) c(1)] by (simp add: translated_def)
qed (use assms(1) in \<open>simp add: translated_def\<close>)

text \<open>What the sender means by the capability at index \<open>j\<close> of its message.\<close>

definition sent :: "caps \<Rightarrow> pd \<Rightarrow> utcb \<Rightarrow> nat \<Rightarrow> ident option" where
  "sent st sp su j = denotes st sp (cap_get su j)"

text \<open>
  A number that is used in the space of the sender keeps its meaning; in the same space, no
  reference is created, because the one of the sender is found.
\<close>

lemma same_space_tree:
  assumes ok: "caps_ok st" and r: "cap_tree st p c = Some r" and t: "translate_cap core p r ptr st = Some (c', st')"
  shows "cap_tree st' = cap_tree st"
proof -
  obtain x where x: "oirs st r = Some x" "oir_pd x = p" using r caps_okD(3) [OF ok] by blast
  have "oir_find_pd st r p \<noteq> Some None \<or> oir_identity x = None"
  proof (cases "oir_identity x")
    case (Some i)
    then have "r \<in> set (idents st i)" using caps_okD(4) [OF ok] x by blast
    then have "find (\<lambda>q. map_option oir_pd (oirs st q) = Some p) (idents st i) \<noteq> None"
      using x by (auto simp: find_None_iff)
    then show ?thesis using x Some by (simp add: oir_find_pd_def)
  qed simp
  then show ?thesis using t x
    by (auto simp: translate_cap_def factory_def add_to_utcb_def split: bind_splits if_splits option.splits)
qed

lemma translate_other_space:
  assumes "caps_ok st" "cap_tree st sp c = Some r" "translate_cap core p r ptr st = Some (c', st')" "extends p st st'"
  shows "cap_tree st' sp = cap_tree st sp"
  using same_space_tree [of st p c r core ptr c' st'] assms by (cases "sp = p") (auto simp: extends_def)

lemma cap_add_simps [simp]:
  "u_cap_cnt u < MAX_CAP_ARGS \<Longrightarrow> u_cap_cnt (cap_add c u) = u_cap_cnt u + 1"
  "length (u_caps (cap_add c u)) = length (u_caps u)"
  "u_data (cap_add c u) = u_data u" "u_data_size (cap_add c u) = u_data_size u"
  "u_destination (cap_add c u) = u_destination u" "u_exception_code (cap_add c u) = u_exception_code u"
  by (simp_all add: cap_add_def)

lemma cap_add_nth:
  "u_cap_cnt u < MAX_CAP_ARGS \<Longrightarrow> length (u_caps u) = MAX_CAP_ARGS \<Longrightarrow>
   u_caps (cap_add c u) ! j = (if j = u_cap_cnt u then c else u_caps u ! j)"
  by (simp add: cap_add_def)

lemma denotes_None: "cap_tree st q c = None \<Longrightarrow> denotes st q c = None"
  by (simp add: denotes_def)

lemma translated_earlier:
  assumes "translated core p st1 st' i c" "extends p st st1" "caps_ok st"
  shows "translated core p st st' i c"
proof -
  have "denotes st p c' \<noteq> i" if "i \<noteq> None" "\<forall>c. denotes st1 p c \<noteq> i" for c'
    using that extends_denotes [OF assms(2,3), of p c'] denotes_None [of st p c'] by fastforce
  then show ?thesis using assms(1) by (auto simp: translated_def split: if_splits)
qed

lemma sent_same:
  assumes "extends p st st1" "caps_ok st" "cap_tree st1 sp = cap_tree st sp"
  shows "sent st1 sp su j = sent st sp su j"
  using extends_denotes [OF assms(1,2), of sp "cap_get su j"] assms(3)
    denotes_None [of st sp "cap_get su j"] denotes_None [of st1 sp "cap_get su j"]
  by (cases "cap_tree st sp (cap_get su j) = None") (auto simp: sent_def)

definition copied_caps ::
    "pd \<Rightarrow> pd \<Rightarrow> pd \<Rightarrow> utcb \<Rightarrow> nat \<Rightarrow> nat \<Rightarrow> caps \<times> utcb \<Rightarrow> caps \<times> utcb \<Rightarrow> bool" where
  "copied_caps core p sp su i k s s' \<longleftrightarrow> (let (st, u) = s; (st', u') = s' in
     extends p st st' \<and> cap_tree st' sp = cap_tree st sp \<and>
     u_cap_cnt u' = min (i + k) (u_cap_cnt su) \<and> length (u_caps u') = MAX_CAP_ARGS \<and>
     u_data u' = u_data u \<and> u_data_size u' = u_data_size u \<and> u_destination u' = u_destination u \<and>
     u_exception_code u' = u_exception_code u \<and>
     (\<forall>j < u_cap_cnt u. u_caps u' ! j = u_caps u ! j) \<and>
     (\<forall>j. i \<le> j \<and> j < u_cap_cnt u' \<longrightarrow> translated core p st st' (sent st sp su j) (u_caps u' ! j)))"

lemma copied_caps_step:
  assumes one: "copied_caps core p sp su i 1 (st, u) (st1, u1)" and rest: "copied_caps core p sp su (i + 1) k (st1, u1) (st', u')"
    and ok: "caps_ok st" and u: "u_cap_cnt u = min i (u_cap_cnt su)"
  shows "copied_caps core p sp su i (k + 1) (st, u) (st', u')"
proof -
  have e: "extends p st st1" "extends p st1 st'" "cap_tree st1 sp = cap_tree st sp" "cap_tree st' sp = cap_tree st1 sp"
    using one rest by (simp_all add: copied_caps_def)
  have ok1: "caps_ok st1" using e(1) by (simp add: extends_def)
  have cnt: "u_cap_cnt u1 = min (i + 1) (u_cap_cnt su)" "u_cap_cnt u' = min (i + 1 + k) (u_cap_cnt su)"
    using one rest by (simp_all add: copied_caps_def)
  have "translated core p st st' (sent st sp su j) (u_caps u' ! j)" if j: "i \<le> j" "j < u_cap_cnt u'" for j
  proof (cases "j = i")
    case True
    then have "j < u_cap_cnt u1" using j cnt by simp
    then have "u_caps u' ! j = u_caps u1 ! j" "translated core p st st1 (sent st sp su j) (u_caps u1 ! j)"
      using one rest True by (simp_all add: copied_caps_def)
    then show ?thesis using translated_extends [OF _ e(2) ok1] by simp
  next
    case False
    then have "translated core p st1 st' (sent st1 sp su j) (u_caps u' ! j)"
      using rest j by (simp add: copied_caps_def)
    then show ?thesis using sent_same [OF e(1) ok e(3)] translated_earlier [OF _ e(1) ok] by simp
  qed
  moreover have "u_caps u' ! j = u_caps u ! j" if "j < u_cap_cnt u" for j
    using that one rest u cnt by (simp add: copied_caps_def)
  ultimately show ?thesis
    using one rest extends_trans [OF e(1,2)] by (simp add: copied_caps_def)
qed

lemma copy_caps_ok:
  assumes "caps_ok st" "\<forall>q \<in> set ptrs. oirs st q = None" "distinct ptrs"
    "length ptrs \<le> card (free_ids st p)" "i + length ptrs \<le> MAX_CAP_ARGS"
    "u_cap_cnt u = min i (u_cap_cnt su)" "length (u_caps u) = MAX_CAP_ARGS"
  shows "\<exists>s'. copy_caps core p sp su i ptrs (st, u) = Some s' \<and> copied_caps core p sp su i (length ptrs) (st, u) s'"
  using assms
proof (induction ptrs arbitrary: i st u)
  case Nil
  then show ?case by (auto simp: extends_refl copied_caps_def)
next
  case (Cons ptr ptrs)
  let ?c = "cap_get su i"
  have next_: ?case
    if st1: "copy_caps core p sp su i (ptr # ptrs) (st, u) = copy_caps core p sp su (i + 1) ptrs (st1, u1)"
      "copied_caps core p sp su i 1 (st, u) (st1, u1)"
      "\<forall>q \<in> set ptrs. oirs st1 q = None" "card (free_ids st p) \<le> card (free_ids st1 p) + 1" for st1 u1
  proof -
    have "caps_ok st1" "u_cap_cnt u1 = min (i + 1) (u_cap_cnt su)" "length (u_caps u1) = MAX_CAP_ARGS"
      using st1(2) by (simp_all add: copied_caps_def extends_def)
    then obtain s' where s': "copy_caps core p sp su (i + 1) ptrs (st1, u1) = Some s'"
        "copied_caps core p sp su (i + 1) (length ptrs) (st1, u1) s'"
      using Cons.IH [of st1 "i + 1" u1] st1(3,4) Cons.prems(3-5) by auto
    then show ?thesis
      using st1(1) copied_caps_step [OF st1(2) _ Cons.prems(1,6), of "length ptrs" "fst s'" "snd s'"] by simp
  qed
  have room: "u_cap_cnt u < MAX_CAP_ARGS" "i < MAX_CAP_ARGS" using Cons.prems(5,6) by auto
  consider (over) "i \<ge> u_cap_cnt su"
    | (none) "i < u_cap_cnt su" "?c = cap_id_invalid \<or> tree_find st sp ?c = None"
    | (some) r where "i < u_cap_cnt su" "?c \<noteq> cap_id_invalid" "tree_find st sp ?c = Some r"
    by (metis not_le_imp_less option.exhaust)
  then show ?case
  proof cases
    case over
    then show ?thesis using Cons.prems
      by (intro next_ [of "slab_free p ptr st" u]) (auto simp: copied_caps_def)
  next
    case none
    then have "sent st sp su i = None"
      using Cons.prems(1) by (auto simp: sent_def tree_find_def intro: denotes_None)
    then show ?thesis using none Cons.prems room
      by (intro next_ [of "slab_free p ptr st" "cap_add cap_id_invalid u"])
         (auto simp: copied_caps_def cap_add_nth translated_def less_Suc_eq Let_def)
  next
    case (some r)
    have r: "cap_tree st sp ?c = Some r" using some(3) by (simp add: tree_find_def)
    then obtain x where x: "oirs st r = Some x" using caps_okD(3) [OF Cons.prems(1)] by blast
    then have s: "sent st sp su i = oir_identity x" using r by (simp add: sent_def denotes_def)
    have "free_ids st p \<noteq> {}" using Cons.prems(4) by auto
    then obtain c st1 where t: "translate_cap core p r ptr st = Some (c, st1)" "extends p st st1"
        "translated core p st st1 (oir_identity x) c" "\<forall>q. q \<noteq> ptr \<and> oirs st q = None \<longrightarrow> oirs st1 q = None"
        "card (free_ids st p) \<le> card (free_ids st1 p) + 1"
      using translate_cap_ok [OF Cons.prems(1) x, of ptr p core] Cons.prems(2) by auto
    have "\<forall>q \<in> set ptrs. oirs st1 q = None" using t(4) Cons.prems(2,3) by auto
    then show ?thesis
      using some s t Cons.prems room translate_other_space [OF Cons.prems(1) r t(1,2)]
      by (intro next_ [of st1 "cap_add c u"]) (auto simp: copied_caps_def cap_add_nth less_Suc_eq Let_def)
  qed
qed

lemma utcb_assign_simps [simp]:
  "u_cap_cnt (utcb_assign u su) = 0" "u_caps (utcb_assign u su) = u_caps u"
  "u_data_size (utcb_assign u su) = min (length (u_data u)) (u_data_size su)"
  "u_exception_code (utcb_assign u su) = u_exception_code su"
  by (simp_all add: utcb_assign_def Let_def)

text \<open>
  C6 The transfer of a message never fails while the receiver has capability numbers left, and
  each capability that arrives denotes, in the space of the receiver, the identity that the
  sender means; the invalid capability arrives only if the sender has none, or if the receiver
  is core and does not know the identity.  Existing capabilities of both sides keep their
  meaning, and the payload is copied.
\<close>

theorem message_transfer_correct:
  assumes "caps_ok st" "\<forall>q \<in> set ptrs. oirs st q = None" "distinct ptrs" "length ptrs \<le> MAX_CAP_ARGS"
    "length ptrs \<le> card (free_ids st p)" "length (u_caps u) = MAX_CAP_ARGS"
    "length (u_data u) = length (u_data su)"
  shows "\<exists>st' u'. copy_utcb core p sp d ptrs su (st, u) = Some (st', u') \<and> caps_ok st' \<and>
    u_cap_cnt u' = min (length ptrs) (u_cap_cnt su) \<and> u_destination u' = d \<and>
    take (u_data_size u') (u_data u') = take (u_data_size su) (u_data su) \<and>
    (\<forall>j < u_cap_cnt u'. let c = u_caps u' ! j; i = denotes st sp (cap_get su j) in
       (c \<noteq> cap_id_invalid \<longrightarrow> denotes st' p c = i \<and> i \<noteq> None) \<and>
       (c = cap_id_invalid \<longrightarrow> i = None \<or> p = core \<and> (\<forall>c'. denotes st p c' \<noteq> i))) \<and>
    (\<forall>q c. cap_tree st q c \<noteq> None \<longrightarrow> denotes st' q c = denotes st q c)"
proof -
  let ?u = "(utcb_assign u su)\<lparr>u_destination := d\<rparr>"
  obtain st' u' where c: "copy_caps core p sp su 0 ptrs (st, ?u) = Some (st', u')"
      and r: "copied_caps core p sp su 0 (length ptrs) (st, ?u) (st', u')"
    using copy_caps_ok [of st ptrs p 0 ?u su core sp] assms by auto
  have e: "extends p st st'" using r by (simp add: copied_caps_def)
  have "take (u_data_size u') (u_data u') = take (u_data_size su) (u_data su)"
    using r assms(7) by (simp add: copied_caps_def utcb_assign_def Let_def min_def)
  then show ?thesis
    using c r extends_denotes [OF e assms(1)] e
    by (auto simp: copy_utcb_def copied_caps_def translated_def sent_def extends_def Let_def split: if_splits)
qed

text \<open>Two spaces, where the first one knows one identity under the number 3.\<close>

definition demo_caps :: caps where
  "demo_caps = \<lparr>oirs = [10 \<mapsto> \<lparr>oir_capid = 3, oir_identity = Some 5, oir_pd = 1, oir_in_utcbs = 0\<rparr>],
     idents = (\<lambda>_. [])(5 := [10]), ident_object = (\<lambda>_. None), obj_idents = (\<lambda>_. []),
     cap_tree = (\<lambda>_ _. None)(1 := [3 \<mapsto> 10]),
     capid_alloc = (\<lambda>_. \<lparr>ba_next = 0, ba_array = 9 # replicate 1023 0\<rparr>),
     cap_slab = (\<lambda>_. [])\<rparr>"

definition demo_utcb :: "capid \<Rightarrow> nat \<Rightarrow> utcb" where
  "demo_utcb c n = \<lparr>u_cap_cnt = n, u_data_size = 1, u_exception_code = 0, u_destination = 0,
     u_caps = [c, 0, 0, 0], u_data = [7, 8]\<rparr>"

lemma demo_caps_ok: "caps_ok demo_caps" "Suc 0 \<le> card (free_ids demo_caps 2)"
proof -
  have b: "bit_at (9 # replicate 1023 0) 0" "bit_at (9 # replicate 1023 0) 3" "\<not> bit_at (9 # replicate 1023 0) 1"
    by (simp_all add: bit_at_def bit_simps) 
  show "caps_ok demo_caps"
    unfolding caps_ok_def
    using b by (auto simp: demo_caps_def capids_ok_def capid_used_def cap_id_invalid_def bit_len_def split: if_splits)
  have "(1 :: capid) \<in> free_ids demo_caps 2" using b(3) by (simp add: free_ids_def demo_caps_def capid_used_def)
  then have "card {1 :: capid} \<le> card (free_ids demo_caps 2)" by (intro card_mono) auto
  then show "Suc 0 \<le> card (free_ids demo_caps 2)" by simp
qed

theorem message_transfer_correct_witness:
  "\<exists>st' u'. copy_utcb 0 2 1 4 [20] (demo_utcb 3 1) (demo_caps, demo_utcb 0 0) = Some (st', u') \<and>
     u_cap_cnt u' = 1 \<and> u_destination u' = 4 \<and>
     (u_caps u' ! 0 \<noteq> cap_id_invalid \<longrightarrow> denotes st' 2 (u_caps u' ! 0) = Some 5)"
proof -
  have "denotes demo_caps 1 (cap_get (demo_utcb 3 1) 0) = Some 5"
    by (simp add: denotes_def demo_caps_def demo_utcb_def cap_get_def MAX_CAP_ARGS_def)
  then show ?thesis
    using message_transfer_correct [of demo_caps "[20]" 2 "demo_utcb 0 0" "demo_utcb 3 1" 0 1 4] demo_caps_ok
    by (auto simp: demo_utcb_def MAX_CAP_ARGS_def demo_caps_def [THEN arg_cong [where f = oirs]])
qed

end
