(* ===== verification/Ipc.thy ===== *)
theory Ipc
  imports Ipc_Transfer
begin

text \<open>
  Synchronous interprocess communication of the kernel, \<open>base-hw/src/core/kernel/ipc_node.{h,cc}\<close>.
  A node sends a request to a callee and waits for the reply, or waits for requests of callers.
  The request queues are lists (\<open>Linked_Lists\<close> shows that the FIFO behaves like one).  A call of
  a node that was destructed is a fault, \<open>None\<close>, as is an access behind the array of
  pre-allocated references.  The message is transferred between different nodes only.
\<close>

type_synonym node = nat

datatype ipc_state = INACTIVE | AWAIT_REPLY | AWAIT_REQUEST

text \<open>The calls of the virtual functions, which let the thread of the node go on.\<close>

datatype ipc_event =
    Send_request_succeeded node
  | Send_request_failed node
  | Await_request_succeeded node
  | Await_request_failed node

record ipc =
  in_alive :: "node \<Rightarrow> bool"
  in_state :: "node \<Rightarrow> ipc_state"
  in_capid :: "node \<Rightarrow> capid"
  in_caller :: "node \<Rightarrow> node option"
  in_callee :: "node \<Rightarrow> node option"
  in_help :: "node \<Rightarrow> bool"
  in_rcv_caps :: "node \<Rightarrow> nat"
  in_utcb :: "node \<Rightarrow> utcb"
  in_queue :: "node \<Rightarrow> node list"
  in_refs :: "node \<Rightarrow> ref list"
  in_pd :: "node \<Rightarrow> pd"
  ipc_caps :: caps
  ipc_core :: pd
  ipc_events :: "ipc_event list"

definition ipc_emit :: "ipc_event \<Rightarrow> ipc \<Rightarrow> ipc" where
  "ipc_emit e s = s\<lparr>ipc_events := ipc_events s @ [e]\<rparr>"

definition set_state :: "node \<Rightarrow> ipc_state \<Rightarrow> ipc \<Rightarrow> ipc" where
  "set_state n v s = s\<lparr>in_state := (in_state s)(n := v)\<rparr>"

definition set_caller :: "node \<Rightarrow> node option \<Rightarrow> ipc \<Rightarrow> ipc" where
  "set_caller n v s = s\<lparr>in_caller := (in_caller s)(n := v)\<rparr>"

definition set_callee :: "node \<Rightarrow> node option \<Rightarrow> ipc \<Rightarrow> ipc" where
  "set_callee n v s = s\<lparr>in_callee := (in_callee s)(n := v)\<rparr>"

definition set_queue :: "node \<Rightarrow> node list \<Rightarrow> ipc \<Rightarrow> ipc" where
  "set_queue n v s = s\<lparr>in_queue := (in_queue s)(n := v)\<rparr>"


section \<open>Messages\<close>

definition copy_msg :: "node \<Rightarrow> node \<Rightarrow> ipc \<Rightarrow> ipc option" where
  "copy_msg n sender s = do {
     (st, u) \<leftarrow> copy_utcb (ipc_core s) (in_pd s n) (in_pd s sender) (in_capid s sender)
       (take (in_rcv_caps s n) (in_refs s n)) (in_utcb s sender) (ipc_caps s, in_utcb s n);
     Some (s\<lparr>ipc_caps := st, in_utcb := (in_utcb s)(n := u)\<rparr>) }"

text \<open>
  The pre-allocation of references from index \<open>i\<close> on: the boolean tells whether the slab had
  enough of them; otherwise, the exception leaves the ones taken so far in the array.
\<close>

fun prealloc :: "nat \<Rightarrow> nat \<Rightarrow> node \<Rightarrow> ipc \<Rightarrow> (bool \<times> ipc) option" where
  "prealloc i 0 n s = Some (True, s)"
| "prealloc i (Suc k) n s =
     (let p = in_pd s n in case cap_slab (ipc_caps s) p of
        [] \<Rightarrow> Some (False, s)
      | r # rs \<Rightarrow>
          if i \<ge> length (in_refs s n) then None
          else prealloc (i + 1) k n
            (s\<lparr>ipc_caps := (ipc_caps s)\<lparr>cap_slab := (cap_slab (ipc_caps s))(p := rs)\<rparr>,
               in_refs := (in_refs s)(n := (in_refs s n)[i := r])\<rparr>))"

definition receive_request :: "node \<Rightarrow> node \<Rightarrow> ipc \<Rightarrow> ipc option" where
  "receive_request n caller s = do {
     s \<leftarrow> copy_msg n caller s;
     Some (set_state n INACTIVE (set_caller n (Some caller) s)) }"

definition receive_reply :: "node \<Rightarrow> node \<Rightarrow> ipc \<Rightarrow> ipc option" where
  "receive_reply n callee s =
     (if \<not> in_alive s n then None else do {
        s \<leftarrow> copy_msg n callee s;
        Some (ipc_emit (Send_request_succeeded n) (set_state n INACTIVE s)) })"

definition announce_request :: "node \<Rightarrow> node \<Rightarrow> ipc \<Rightarrow> ipc option" where
  "announce_request n caller s =
     (if \<not> in_alive s n then None
      else if in_state s n = AWAIT_REQUEST then do {
        s \<leftarrow> receive_request n caller s;
        Some (ipc_emit (Await_request_succeeded n) s) }
      else Some (set_queue n (in_queue s n @ [caller]) s))"


section \<open>Cancellation\<close>

definition outbuf_request_cancelled :: "node \<Rightarrow> ipc \<Rightarrow> ipc option" where
  "outbuf_request_cancelled n s =
     (if \<not> in_alive s n then None
      else if in_callee s n = None then Some s
      else Some (ipc_emit (Send_request_failed n) (set_state n INACTIVE (set_callee n None s))))"

fun cancel_queued :: "node list \<Rightarrow> ipc \<Rightarrow> ipc option" where
  "cancel_queued [] s = Some s"
| "cancel_queued (c # cs) s = do { s' \<leftarrow> outbuf_request_cancelled c s; cancel_queued cs s' }"

definition cancel_request_queue :: "node \<Rightarrow> ipc \<Rightarrow> ipc option" where
  "cancel_request_queue n s = cancel_queued (in_queue s n) (set_queue n [] s)"

definition announced_request_cancelled :: "node \<Rightarrow> node \<Rightarrow> ipc \<Rightarrow> ipc option" where
  "announced_request_cancelled n caller s =
     (if \<not> in_alive s n then None
      else if in_caller s n = Some caller then Some (set_caller n None s)
      else Some (set_queue n (remove1 caller (in_queue s n)) s))"

definition cancel_outbuf_request :: "node \<Rightarrow> ipc \<Rightarrow> ipc option" where
  "cancel_outbuf_request n s = (case in_callee s n of
     None \<Rightarrow> Some s
   | Some c \<Rightarrow> do { s \<leftarrow> announced_request_cancelled c n s; Some (set_callee n None s) })"

definition cancel_inbuf_request :: "node \<Rightarrow> ipc \<Rightarrow> ipc option" where
  "cancel_inbuf_request n s = (case in_caller s n of
     None \<Rightarrow> Some s
   | Some c \<Rightarrow> do { s \<leftarrow> outbuf_request_cancelled c s; Some (set_caller n None s) })"


section \<open>The operations of a node\<close>

definition helps_outbuf_dst :: "ipc \<Rightarrow> node \<Rightarrow> bool" where
  "helps_outbuf_dst s n \<longleftrightarrow> in_state s n = AWAIT_REPLY \<and> in_help s n"

definition ipc_init :: "node \<Rightarrow> utcb \<Rightarrow> node \<Rightarrow> ipc \<Rightarrow> (bool \<times> ipc) option" where
  "ipc_init n u starter s =
     (let k = u_cap_cnt (in_utcb s starter);
          s = s\<lparr>in_utcb := (in_utcb s)(n := u), in_rcv_caps := (in_rcv_caps s)(n := k)\<rparr>
      in do {
        (ok, s) \<leftarrow> prealloc 0 k n s;
        if \<not> ok then Some (False, s) else map_option (Pair True) (copy_msg n starter s) })"

text \<open>
  \<open>send_request\<close>: a bad state is reported and ignored; an exception of the slab leaves the
  operation before the state changes.
\<close>

definition send_request :: "node \<Rightarrow> node \<Rightarrow> capid \<Rightarrow> bool \<Rightarrow> nat \<Rightarrow> ipc \<Rightarrow> (bool \<times> ipc) option" where
  "send_request n callee capid help rcv_caps s =
     (if in_state s n \<noteq> INACTIVE then Some (True, s)
      else do {
        (ok, s) \<leftarrow> prealloc 0 rcv_caps n s;
        if \<not> ok then Some (False, s)
        else do {
          s \<leftarrow> announce_request callee n
            (set_state n AWAIT_REPLY (set_callee n (Some callee)
              (s\<lparr>in_capid := (in_capid s)(n := capid), in_help := (in_help s)(n := False),
                 in_rcv_caps := (in_rcv_caps s)(n := rcv_caps)\<rparr>)));
          Some (True, s\<lparr>in_help := (in_help s)(n := help)\<rparr>) } })"

partial_function (option) helping_sink :: "ipc \<Rightarrow> node \<Rightarrow> node option" where
  "helping_sink s n =
     (if helps_outbuf_dst s n
      then (case in_callee s n of None \<Rightarrow> None | Some c \<Rightarrow> helping_sink s c)
      else Some n)"

definition helpers :: "ipc \<Rightarrow> node \<Rightarrow> node list" where
  "helpers s n =
     (case in_caller s n of None \<Rightarrow> [] | Some c \<Rightarrow> if in_help s c then [c] else []) @
     filter (in_help s) (in_queue s n)"

text \<open>The first component of the result: the slab was sufficient; the second: a request is there.\<close>

definition await_request :: "node \<Rightarrow> nat \<Rightarrow> ipc \<Rightarrow> (bool \<times> bool \<times> ipc) option" where
  "await_request n rcv_caps s =
     (if in_state s n \<noteq> INACTIVE then Some (True, True, s)
      else do {
        (ok, s) \<leftarrow> prealloc 0 rcv_caps n s;
        if \<not> ok then Some (False, False, s)
        else (let s = s\<lparr>in_rcv_caps := (in_rcv_caps s)(n := rcv_caps)\<rparr> in
          case in_queue s n of
            c # cs \<Rightarrow> map_option (\<lambda>s. (True, True, s)) (receive_request n c (set_queue n cs s))
          | [] \<Rightarrow> Some (True, False, set_state n AWAIT_REQUEST s)) })"

definition send_reply :: "node \<Rightarrow> ipc \<Rightarrow> ipc option" where
  "send_reply n s =
     (if in_state s n = INACTIVE
      then case in_caller s n of
          None \<Rightarrow> Some s
        | Some c \<Rightarrow> do { s \<leftarrow> receive_reply c n s; Some (set_caller n None s) }
      else Some s)"

definition cancel_waiting :: "node \<Rightarrow> ipc \<Rightarrow> ipc option" where
  "cancel_waiting n s = (case in_state s n of
     AWAIT_REPLY \<Rightarrow> do {
       s \<leftarrow> cancel_outbuf_request n s;
       Some (ipc_emit (Send_request_failed n) (set_state n INACTIVE s)) }
   | AWAIT_REQUEST \<Rightarrow> Some (ipc_emit (Await_request_failed n) (set_state n INACTIVE s))
   | INACTIVE \<Rightarrow> Some s)"

definition ipc_destroy :: "node \<Rightarrow> ipc \<Rightarrow> ipc option" where
  "ipc_destroy n s = do {
     s \<leftarrow> cancel_request_queue n s;
     s \<leftarrow> cancel_inbuf_request n s;
     s \<leftarrow> cancel_outbuf_request n s;
     Some (s\<lparr>in_alive := (in_alive s)(n := False)\<rparr>) }"

end
