(* ===== verification/Ipc_Correct.thy ===== *)
theory Ipc_Correct
  imports Ipc
begin

text \<open>
  The protocol of the nodes: who waits for whom, which callers are queued, and that every
  accepted request ends in exactly one success or failure of its caller.
\<close>

section \<open>The control state\<close>

text \<open>
  A waiting caller is queued or served by its callee and by no other node, the callers of a
  node wait for it, and a node that waits for requests has none.
\<close>

definition ctl_ok ::
    "(node \<Rightarrow> bool) \<Rightarrow> (node \<Rightarrow> ipc_state) \<Rightarrow> (node \<Rightarrow> node option) \<Rightarrow> (node \<Rightarrow> node option) \<Rightarrow> (node \<Rightarrow> node list) \<Rightarrow> bool" where
  "ctl_ok al st cr ce q \<longleftrightarrow>
     (\<forall>v. al v \<longrightarrow> distinct (q v)) \<and>
     (\<forall>v c. al v \<and> c \<in> set (q v) \<longrightarrow> al c \<and> st c = AWAIT_REPLY \<and> ce c = Some v) \<and>
     (\<forall>v c. al v \<and> cr v = Some c \<longrightarrow> al c \<and> st c = AWAIT_REPLY \<and> ce c = Some v \<and> c \<notin> set (q v)) \<and>
     (\<forall>c. al c \<and> st c = AWAIT_REPLY \<longrightarrow>
        (\<exists>v. ce c = Some v \<and> al v \<and> (c \<in> set (q v) \<or> cr v = Some c))) \<and>
     (\<forall>v. al v \<and> st v = AWAIT_REQUEST \<longrightarrow> q v = [] \<and> cr v = None)"

definition ipc_ok :: "ipc \<Rightarrow> bool" where
  "ipc_ok s \<longleftrightarrow> ctl_ok (in_alive s) (in_state s) (in_caller s) (in_callee s) (in_queue s)"

lemma ctl_okD:
  assumes "ctl_ok al st cr ce q"
  shows "al v \<Longrightarrow> distinct (q v)"
    "al v \<Longrightarrow> c \<in> set (q v) \<Longrightarrow> al c \<and> st c = AWAIT_REPLY \<and> ce c = Some v"
    "al v \<Longrightarrow> cr v = Some c \<Longrightarrow> al c \<and> st c = AWAIT_REPLY \<and> ce c = Some v \<and> c \<notin> set (q v)"
    "al c \<Longrightarrow> st c = AWAIT_REPLY \<Longrightarrow> \<exists>v. ce c = Some v \<and> al v \<and> (c \<in> set (q v) \<or> cr v = Some c)"
    "al v \<Longrightarrow> st v = AWAIT_REQUEST \<Longrightarrow> q v = [] \<and> cr v = None"
  using assms unfolding ctl_ok_def by blast+

lemma ctl_okI:
  assumes "\<And>v. al v \<Longrightarrow> distinct (q v)"
    "\<And>v c. al v \<Longrightarrow> c \<in> set (q v) \<Longrightarrow> al c \<and> st c = AWAIT_REPLY \<and> ce c = Some v"
    "\<And>v c. al v \<Longrightarrow> cr v = Some c \<Longrightarrow> al c \<and> st c = AWAIT_REPLY \<and> ce c = Some v \<and> c \<notin> set (q v)"
    "\<And>c. al c \<Longrightarrow> st c = AWAIT_REPLY \<Longrightarrow> \<exists>v. ce c = Some v \<and> al v \<and> (c \<in> set (q v) \<or> cr v = Some c)"
    "\<And>v. al v \<Longrightarrow> st v = AWAIT_REQUEST \<Longrightarrow> q v = [] \<and> cr v = None"
  shows "ctl_ok al st cr ce q"
  using assms unfolding ctl_ok_def by blast

text \<open>An inactive node is nobody's caller.\<close>

lemma idle_no_caller:
  assumes "ctl_ok al st cr ce q" "st n \<noteq> AWAIT_REPLY" "al v"
  shows "n \<notin> set (q v)" "cr v \<noteq> Some n"
  using ctl_okD(2,3) [OF assms(1,3), of n] assms(2) by auto

lemma ctl_send_wait:
  assumes ok: "ctl_ok al st cr ce q" and n: "al n" "st n = INACTIVE" and v: "al v" "st v = AWAIT_REQUEST"
  shows "ctl_ok al (st(n := AWAIT_REPLY, v := INACTIVE)) (cr(v := Some n)) (ce(n := Some v)) q"
proof (rule ctl_okI)
  note k = ctl_okD [OF ok] and i = idle_no_caller [OF ok, of n]
  have nv: "n \<noteq> v" and qv: "q v = []" "cr v = None" using n v k(5) by auto
  fix w assume w: "al w"
  show "distinct (q w)" using k(1) w .
  { fix c assume "c \<in> set (q w)"
    then show "al c \<and> (st(n := AWAIT_REPLY, v := INACTIVE)) c = AWAIT_REPLY \<and> (ce(n := Some v)) c = Some w"
      using k(2) [OF w] i(1) [OF _ w] n v by auto }
  { fix c assume "(cr(v := Some n)) w = Some c"
    then show "al c \<and> (st(n := AWAIT_REPLY, v := INACTIVE)) c = AWAIT_REPLY \<and> (ce(n := Some v)) c = Some w \<and> c \<notin> set (q w)"
      using k(3) [OF w] i(2) [OF _ w] n v nv qv by (auto split: if_splits) }
  { assume "(st(n := AWAIT_REPLY, v := INACTIVE)) w = AWAIT_REQUEST"
    then show "q w = [] \<and> (cr(v := Some n)) w = None" using k(5) [OF w] by (auto split: if_splits) }
  { assume a: "(st(n := AWAIT_REPLY, v := INACTIVE)) w = AWAIT_REPLY"
    show "\<exists>u. (ce(n := Some v)) w = Some u \<and> al u \<and> (w \<in> set (q u) \<or> (cr(v := Some n)) u = Some w)"
    proof (cases "w = n")
      case False
      then obtain u where "ce w = Some u" "al u" "w \<in> set (q u) \<or> cr u = Some w"
        using a k(4) [OF w] by (auto split: if_splits)
      then show ?thesis using False qv by auto
    qed (use v in auto) }
qed

lemma ctl_send_queue:
  assumes ok: "ctl_ok al st cr ce q" and n: "al n" "st n = INACTIVE" and v: "al v" "st v \<noteq> AWAIT_REQUEST"
  shows "ctl_ok al (st(n := AWAIT_REPLY)) cr (ce(n := Some v)) (q(v := q v @ [n]))"
proof (rule ctl_okI)
  note k = ctl_okD [OF ok] and i = idle_no_caller [OF ok, of n]
  fix w assume w: "al w"
  have "n \<notin> set (q v)" using i(1) v n by simp
  then show "distinct ((q(v := q v @ [n])) w)" using k(1) [OF w] k(1) [OF v(1)] by simp
  { fix c assume "c \<in> set ((q(v := q v @ [n])) w)"
    then show "al c \<and> (st(n := AWAIT_REPLY)) c = AWAIT_REPLY \<and> (ce(n := Some v)) c = Some w"
      using k(2) [OF w] i(1) [OF _ w] n by (auto split: if_splits) }
  { fix c assume "cr w = Some c"
    then show "al c \<and> (st(n := AWAIT_REPLY)) c = AWAIT_REPLY \<and> (ce(n := Some v)) c = Some w \<and> c \<notin> set ((q(v := q v @ [n])) w)"
      using k(3) [OF w] i(2) [OF _ w] n by (auto split: if_splits) }
  { assume "(st(n := AWAIT_REPLY)) w = AWAIT_REQUEST"
    then show "(q(v := q v @ [n])) w = [] \<and> cr w = None" using k(5) [OF w] v by (auto split: if_splits) }
  { assume a: "(st(n := AWAIT_REPLY)) w = AWAIT_REPLY"
    show "\<exists>u. (ce(n := Some v)) w = Some u \<and> al u \<and> (w \<in> set ((q(v := q v @ [n])) u) \<or> cr u = Some w)"
    proof (cases "w = n")
      case False
      then obtain u where "ce w = Some u" "al u" "w \<in> set (q u) \<or> cr u = Some w"
        using a k(4) [OF w] by (auto split: if_splits)
      then show ?thesis using False by auto
    qed (use v in auto) }
qed

text \<open>Taking a caller out of the queue or the buffer of its callee ends its waiting.\<close>

lemma ctl_release_served:
  assumes ok: "ctl_ok al st cr ce q" and v: "al v" and c: "cr v = Some c"
  shows "ctl_ok al (st(c := INACTIVE)) (cr(v := None)) (ce(c := x)) q"
proof (rule ctl_okI)
  note k = ctl_okD [OF ok]
  have cv: "al c" "st c = AWAIT_REPLY" "ce c = Some v" "c \<notin> set (q v)" using k(3) [OF v c] by auto
  fix w assume w: "al w"
  show "distinct (q w)" by (rule k(1) [OF w])
  { fix d assume d: "d \<in> set (q w)"
    then have "d \<noteq> c" using k(2) [OF w d] cv by auto
    then show "al d \<and> (st(c := INACTIVE)) d = AWAIT_REPLY \<and> (ce(c := x)) d = Some w"
      using k(2) [OF w d] by simp }
  { fix d assume d: "(cr(v := None)) w = Some d"
    then have e: "w \<noteq> v" "cr w = Some d" by (auto split: if_splits)
    then have "d \<noteq> c" using k(3) [OF w e(2)] cv by auto
    then show "al d \<and> (st(c := INACTIVE)) d = AWAIT_REPLY \<and> (ce(c := x)) d = Some w \<and> d \<notin> set (q w)"
      using k(3) [OF w e(2)] by simp }
  { assume "(st(c := INACTIVE)) w = AWAIT_REQUEST"
    then have "st w = AWAIT_REQUEST" by (simp split: if_splits)
    then show "q w = [] \<and> (cr(v := None)) w = None" using k(5) [OF w] by simp }
  { assume "(st(c := INACTIVE)) w = AWAIT_REPLY"
    then have wc: "w \<noteq> c" "st w = AWAIT_REPLY" by (simp_all split: if_splits)
    then obtain u where u: "ce w = Some u" "al u" "w \<in> set (q u) \<or> cr u = Some w" using k(4) [OF w] by auto
    then have "w \<in> set (q u) \<or> (cr(v := None)) u = Some w" using c wc by auto
    then show "\<exists>u. (ce(c := x)) w = Some u \<and> al u \<and> (w \<in> set (q u) \<or> (cr(v := None)) u = Some w)"
      using u wc by auto }
qed

lemma ctl_release_queued:
  assumes ok: "ctl_ok al st cr ce q" and v: "al v" and c: "c \<in> set (q v)"
  shows "ctl_ok al (st(c := INACTIVE)) cr (ce(c := x)) (q(v := remove1 c (q v)))"
proof (rule ctl_okI)
  note k = ctl_okD [OF ok]
  have cv: "al c" "st c = AWAIT_REPLY" "ce c = Some v" using k(2) [OF v c] by auto
  have mem: "d \<in> set ((q(v := remove1 c (q v))) w) \<longleftrightarrow> d \<in> set (q w) \<and> \<not> (w = v \<and> d = c)" for d w
    using k(1) [OF v] by auto
  fix w assume w: "al w"
  show "distinct ((q(v := remove1 c (q v))) w)" using k(1) [OF w] k(1) [OF v] by (simp add: distinct_remove1)
  { fix d assume "d \<in> set ((q(v := remove1 c (q v))) w)"
    then have d: "d \<in> set (q w)" and e: "\<not> (w = v \<and> d = c)" using mem by blast+
    have "d \<noteq> c" using k(2) [OF w d] cv e by auto
    then show "al d \<and> (st(c := INACTIVE)) d = AWAIT_REPLY \<and> (ce(c := x)) d = Some w"
      using k(2) [OF w d] by simp }
  { fix d assume d: "cr w = Some d"
    have "d \<noteq> c" using k(3) [OF w d] cv c by auto
    then show "al d \<and> (st(c := INACTIVE)) d = AWAIT_REPLY \<and> (ce(c := x)) d = Some w \<and>
        d \<notin> set ((q(v := remove1 c (q v))) w)"
      using k(3) [OF w d] mem by simp }
  { assume "(st(c := INACTIVE)) w = AWAIT_REQUEST"
    then have "st w = AWAIT_REQUEST" by (simp split: if_splits)
    then show "(q(v := remove1 c (q v))) w = [] \<and> cr w = None" using k(5) [OF w] c by auto }
  { assume "(st(c := INACTIVE)) w = AWAIT_REPLY"
    then have wc: "w \<noteq> c" "st w = AWAIT_REPLY" by (simp_all split: if_splits)
    then obtain u where u: "ce w = Some u" "al u" "w \<in> set (q u) \<or> cr u = Some w" using k(4) [OF w] by auto
    then have "w \<in> set ((q(v := remove1 c (q v))) u) \<or> cr u = Some w" using mem wc by blast
    then show "\<exists>u. (ce(c := x)) w = Some u \<and> al u \<and>
        (w \<in> set ((q(v := remove1 c (q v))) u) \<or> cr u = Some w)"
      using u wc by auto }
qed

lemma ctl_await:
  assumes ok: "ctl_ok al st cr ce q" and n: "al n" "st n = INACTIVE" "q n = []" "cr n = None"
  shows "ctl_ok al (st(n := AWAIT_REQUEST)) cr ce q"
proof (rule ctl_okI)
  note k = ctl_okD [OF ok]
  have i: "n \<notin> set (q w)" "cr w \<noteq> Some n" if "al w" for w
    using idle_no_caller [OF ok _ that, of n] n(2) by simp_all
  fix w assume w: "al w"
  show "distinct (q w)" by (rule k(1) [OF w])
  { fix c assume c: "c \<in> set (q w)"
    then have "c \<noteq> n" using i(1) [OF w] by blast
    then show "al c \<and> (st(n := AWAIT_REQUEST)) c = AWAIT_REPLY \<and> ce c = Some w" using k(2) [OF w c] by simp }
  { fix c assume c: "cr w = Some c"
    then have "c \<noteq> n" using i(2) [OF w] by blast
    then show "al c \<and> (st(n := AWAIT_REQUEST)) c = AWAIT_REPLY \<and> ce c = Some w \<and> c \<notin> set (q w)"
      using k(3) [OF w c] by simp }
  { assume "(st(n := AWAIT_REQUEST)) w = AWAIT_REPLY"
    then have "st w = AWAIT_REPLY" by (simp split: if_splits)
    then show "\<exists>u. ce w = Some u \<and> al u \<and> (w \<in> set (q u) \<or> cr u = Some w)" by (rule k(4) [OF w]) }
  { assume "(st(n := AWAIT_REQUEST)) w = AWAIT_REQUEST"
    then show "q w = [] \<and> cr w = None" using k(5) [OF w] n by (cases "w = n") simp_all }
qed

lemma ctl_stop_await:
  assumes ok: "ctl_ok al st cr ce q" and n: "st n = AWAIT_REQUEST"
  shows "ctl_ok al (st(n := INACTIVE)) cr ce q"
proof (rule ctl_okI)
  note k = ctl_okD [OF ok]
  fix w assume w: "al w"
  show "distinct (q w)" by (rule k(1) [OF w])
  { fix c assume "c \<in> set (q w)"
    then show "al c \<and> (st(n := INACTIVE)) c = AWAIT_REPLY \<and> ce c = Some w" using k(2) [OF w] n by fastforce }
  { fix c assume "cr w = Some c"
    then show "al c \<and> (st(n := INACTIVE)) c = AWAIT_REPLY \<and> ce c = Some w \<and> c \<notin> set (q w)"
      using k(3) [OF w] n by fastforce }
  { assume "(st(n := INACTIVE)) w = AWAIT_REPLY"
    then have "st w = AWAIT_REPLY" by (simp split: if_splits)
    then show "\<exists>u. ce w = Some u \<and> al u \<and> (w \<in> set (q u) \<or> cr u = Some w)" by (rule k(4) [OF w]) }
  { assume "(st(n := INACTIVE)) w = AWAIT_REQUEST"
    then have "st w = AWAIT_REQUEST" by (simp split: if_splits)
    then show "q w = [] \<and> cr w = None" by (rule k(5) [OF w]) }
qed

text \<open>A node that serves nobody and waits for nobody may vanish.\<close>

lemma ctl_dead:
  assumes ok: "ctl_ok al st cr ce q" and n: "st n \<noteq> AWAIT_REPLY" "q n = []" "cr n = None"
  shows "ctl_ok (al(n := False)) (st(n := x)) cr (ce(n := y)) q"
proof (rule ctl_okI)
  note k = ctl_okD [OF ok] and i = idle_no_caller [OF ok n(1)]
  fix w assume w': "(al(n := False)) w"
  then have w: "al w" "w \<noteq> n" by (simp_all split: if_splits)
  show "distinct (q w)" by (rule k(1) [OF w(1)])
  { fix c assume c: "c \<in> set (q w)"
    then have "c \<noteq> n" using i(1) [OF w(1)] by blast
    then show "(al(n := False)) c \<and> (st(n := x)) c = AWAIT_REPLY \<and> (ce(n := y)) c = Some w"
      using k(2) [OF w(1) c] by simp }
  { fix c assume c: "cr w = Some c"
    then have "c \<noteq> n" using i(2) [OF w(1)] by blast
    then show "(al(n := False)) c \<and> (st(n := x)) c = AWAIT_REPLY \<and> (ce(n := y)) c = Some w \<and> c \<notin> set (q w)"
      using k(3) [OF w(1) c] by simp }
  { assume "(st(n := x)) w = AWAIT_REPLY"
    then obtain u where u: "ce w = Some u" "al u" "w \<in> set (q u) \<or> cr u = Some w" using k(4) [OF w(1)] w(2) by auto
    then have "u \<noteq> n" using n(2,3) by auto
    then show "\<exists>u. (ce(n := y)) w = Some u \<and> (al(n := False)) u \<and> (w \<in> set (q u) \<or> cr u = Some w)"
      using u w(2) by auto }
  { assume "(st(n := x)) w = AWAIT_REQUEST"
    then show "q w = [] \<and> cr w = None" using k(5) [OF w(1)] w(2) by simp }
qed

lemma ctl_receive:
  assumes ok: "ctl_ok al st cr ce q" and n: "al n" "cr n = None" "q n = c # cs"
  shows "ctl_ok al (st(n := INACTIVE)) (cr(n := Some c)) ce (q(n := cs)) \<or> st n = AWAIT_REPLY"
proof (cases "st n = AWAIT_REPLY")
  case False
  note k = ctl_okD [OF ok] and i = idle_no_caller [OF ok False]
  have c: "al c" "st c = AWAIT_REPLY" "ce c = Some n" "c \<notin> set cs" "distinct cs" "c \<noteq> n"
    using k(2) [OF n(1), of c] k(1) [OF n(1)] n(3) False by auto
  have "ctl_ok al (st(n := INACTIVE)) (cr(n := Some c)) ce (q(n := cs))"
  proof (rule ctl_okI)
    fix w assume w: "al w"
    show "distinct ((q(n := cs)) w)" using k(1) [OF w] c(5) by simp
    { fix d assume d: "d \<in> set ((q(n := cs)) w)"
      then have "d \<in> set (q w)" using n(3) by (auto split: if_splits)
      then show "al d \<and> (st(n := INACTIVE)) d = AWAIT_REPLY \<and> ce d = Some w"
        using k(2) [OF w, of d] False by auto }
    { fix d assume "(cr(n := Some c)) w = Some d"
      then show "al d \<and> (st(n := INACTIVE)) d = AWAIT_REPLY \<and> ce d = Some w \<and> d \<notin> set ((q(n := cs)) w)"
        using k(3) [OF w, of d] False c by (auto split: if_splits) }
    { assume "(st(n := INACTIVE)) w = AWAIT_REQUEST"
      then show "(q(n := cs)) w = [] \<and> (cr(n := Some c)) w = None" using k(5) [OF w] by (auto split: if_splits) }
    { assume "(st(n := INACTIVE)) w = AWAIT_REPLY"
      then have "w \<noteq> n" "st w = AWAIT_REPLY" by (auto split: if_splits)
      then obtain u where "ce w = Some u" "al u" "w \<in> set (q u) \<or> cr u = Some w" using k(4) [OF w] by auto
      then show "\<exists>u. ce w = Some u \<and> al u \<and> (w \<in> set ((q(n := cs)) u) \<or> (cr(n := Some c)) u = Some w)"
        using n by auto }
  qed
  then show ?thesis by simp
qed simp


section \<open>The operations keep the control state in order\<close>

lemma copy_msg_frame:
  "copy_msg n m s = Some t \<Longrightarrow> \<exists>c u. t = s\<lparr>ipc_caps := c, in_utcb := u\<rparr>"
  by (auto simp: copy_msg_def split: bind_splits)

lemma prealloc_frame:
  "prealloc i k n s = Some (ok, t) \<Longrightarrow> \<exists>c r. t = s\<lparr>ipc_caps := c, in_refs := r\<rparr>"
proof (induction i k n s rule: prealloc.induct)
  case (1 i n s)
  then have "t = s\<lparr>ipc_caps := ipc_caps s, in_refs := in_refs s\<rparr>" by simp
  then show ?case by blast
next
  case (2 i k n s)
  show ?case
  proof (cases "cap_slab (ipc_caps s) (in_pd s n)")
    case Nil
    then have "t = s\<lparr>ipc_caps := ipc_caps s, in_refs := in_refs s\<rparr>" using 2(2) by simp
    then show ?thesis by blast
  next
    case (Cons r rs)
    then show ?thesis using 2(1) [OF refl Cons] 2(2) by (auto simp: Let_def split: if_splits)
  qed
qed

lemmas ipc_set_defs = set_state_def set_caller_def set_callee_def set_queue_def ipc_emit_def

text \<open>The events that end the waiting of a caller.\<close>

definition completions :: "node \<Rightarrow> ipc \<Rightarrow> nat" where
  "completions c s =
     length (filter (\<lambda>e. e = Send_request_succeeded c \<or> e = Send_request_failed c) (ipc_events s))"

definition quiet :: "ipc \<Rightarrow> ipc \<Rightarrow> bool" where
  "quiet s t \<longleftrightarrow> in_alive t = in_alive s \<and>
     (\<forall>c. completions c t = completions c s \<and> (in_state t c = AWAIT_REPLY \<longleftrightarrow> in_state s c = AWAIT_REPLY))"

definition completes_once :: "ipc \<Rightarrow> ipc \<Rightarrow> bool" where
  "completes_once s t \<longleftrightarrow> (\<forall>c. in_alive s c \<and> in_alive t c \<longrightarrow> completions c t =
     completions c s + (if in_state s c = AWAIT_REPLY \<and> in_state t c \<noteq> AWAIT_REPLY then 1 else 0))"

lemma completes_once_refl [simp]: "completes_once s s"
  by (simp add: completes_once_def)

text \<open>
  What an operation does to the control state: the events it causes are for the callers that
  stop waiting and for the node that stops waiting for requests.
\<close>

lemma announce_request_ok:
  assumes "announce_request v n s = Some t" "in_alive s n" "in_alive s v"
    "ctl_ok (in_alive s) ((in_state s)(n := INACTIVE)) (in_caller s) ce (in_queue s)"
    "in_state s n = AWAIT_REPLY" "in_callee s = ce(n := Some v)"
  shows "ipc_ok t \<and> quiet s t"
proof (cases "in_state s v = AWAIT_REQUEST")
  case True
  then have nv: "v \<noteq> n" using assms(5) by auto
  obtain u where u: "copy_msg v n s = Some u" and t: "t = ipc_emit (Await_request_succeeded v)
      (set_state v INACTIVE (set_caller v (Some n) u))"
    using assms(1,3) True by (auto simp: announce_request_def receive_request_def split: bind_splits)
  obtain c w where u': "u = s\<lparr>ipc_caps := c, in_utcb := w\<rparr>" using copy_msg_frame [OF u] by auto
  have "(in_state s)(n := INACTIVE, n := AWAIT_REPLY, v := INACTIVE) = (in_state s)(v := INACTIVE)"
    using assms(5) nv by auto
  then show ?thesis
    using ctl_send_wait [OF assms(4) assms(2) _ assms(3)] True nv assms(6)
    by (simp add: t u' ipc_ok_def ipc_set_defs quiet_def completions_def)
next
  case False
  have "(in_state s)(n := INACTIVE, n := AWAIT_REPLY) = in_state s" using assms(5) by auto
  then show ?thesis
    using assms(1) ctl_send_queue [OF assms(4) assms(2) _ assms(3)] False assms(3,5,6)
    by (auto simp: announce_request_def ipc_ok_def ipc_set_defs quiet_def completions_def)
qed

lemma send_request_ok:
  assumes ok: "ipc_ok s" and n: "in_alive s n" "in_alive s v" and t: "send_request n v c h k s = Some (b, t)"
  shows "ipc_ok t \<and> completes_once s t"
proof (cases "in_state s n = INACTIVE")
  case True
  obtain b' u where u: "prealloc 0 k n s = Some (b', u)"
    using t True by (auto simp: send_request_def split: bind_splits)
  obtain cc r where u': "u = s\<lparr>ipc_caps := cc, in_refs := r\<rparr>" using prealloc_frame [OF u] by auto
  show ?thesis
  proof (cases b')
    case False
    then have "t = u" using t u True by (simp add: send_request_def)
    then show ?thesis using ok u' by (simp add: ipc_ok_def completes_once_def completions_def)
  next
    case b: True
    let ?w = "set_state n AWAIT_REPLY (set_callee n (Some v)
      (u\<lparr>in_capid := (in_capid u)(n := c), in_help := (in_help u)(n := False), in_rcv_caps := (in_rcv_caps u)(n := k)\<rparr>))"
    obtain x where x: "announce_request v n ?w = Some x" "t = x\<lparr>in_help := (in_help x)(n := h)\<rparr>"
      using t u True b by (auto simp: send_request_def split: bind_splits)
    have "(in_state s)(n := INACTIVE) = in_state s" using True by auto
    then have x': "ipc_ok x \<and> quiet ?w x"
      using ok n by (intro announce_request_ok [OF x(1), of "in_callee s"]) (simp_all add: u' ipc_set_defs ipc_ok_def)
    then show ?thesis using True
      by (auto simp: x(2) ipc_ok_def completes_once_def quiet_def completions_def u' ipc_set_defs)
  qed
qed (use t ok in \<open>simp add: send_request_def\<close>)

lemma await_request_ok:
  assumes ok: "ipc_ok s" and n: "in_alive s n" "in_caller s n = None"
    and t: "await_request n k s = Some (b, d, t)"
  shows "ipc_ok t \<and> completes_once s t"
proof (cases "in_state s n = INACTIVE")
  case True
  obtain b' u where u: "prealloc 0 k n s = Some (b', u)"
    using t True by (auto simp: await_request_def split: bind_splits)
  obtain cc r where u': "u = s\<lparr>ipc_caps := cc, in_refs := r\<rparr>" using prealloc_frame [OF u] by auto
  have ok': "ctl_ok (in_alive s) (in_state s) (in_caller s) (in_callee s) (in_queue s)" using ok by (simp add: ipc_ok_def)
  consider "\<not> b'" | "b'" "in_queue s n = []" | c cs where "b'" "in_queue s n = c # cs"
    by (cases "in_queue s n") auto
  then show ?thesis
  proof cases
    case 1
    then have "t = u" using t u True by (simp add: await_request_def)
    then show ?thesis using ok u' by (simp add: ipc_ok_def completes_once_def completions_def)
  next
    case 2
    have "ctl_ok (in_alive s) ((in_state s)(n := AWAIT_REQUEST)) (in_caller s) (in_callee s) (in_queue s)"
      by (rule ctl_await [OF ok' n(1) True 2(2) n(2)])
    then show ?thesis using t u True 2 u' by (auto simp: await_request_def ipc_ok_def ipc_set_defs Let_def completes_once_def completions_def split: if_splits)
  next
    case (3 c cs)
    obtain w where w: "receive_request n c (set_queue n cs (u\<lparr>in_rcv_caps := (in_rcv_caps u)(n := k)\<rparr>)) = Some w" "t = w"
      using t u True 3 u' by (auto simp: await_request_def Let_def)
    obtain z where z: "copy_msg n c (set_queue n cs (u\<lparr>in_rcv_caps := (in_rcv_caps u)(n := k)\<rparr>)) = Some z"
        "t = set_state n INACTIVE (set_caller n (Some c) z)"
      using w by (auto simp: receive_request_def split: bind_splits)
    obtain c' u'' where "z = (set_queue n cs (u\<lparr>in_rcv_caps := (in_rcv_caps u)(n := k)\<rparr>))\<lparr>ipc_caps := c', in_utcb := u''\<rparr>"
      using copy_msg_frame [OF z(1)] by auto
    then show ?thesis
      using ctl_receive [OF ok' n 3(2)] True by (simp add: z(2) u' ipc_ok_def ipc_set_defs completes_once_def completions_def)
  qed
qed (use t ok in \<open>simp add: await_request_def\<close>)

lemma send_reply_ok:
  assumes ok: "ipc_ok s" and n: "in_alive s n" and t: "send_reply n s = Some t"
  shows "ipc_ok t \<and> completes_once s t"
proof (cases "in_state s n = INACTIVE \<and> in_caller s n \<noteq> None")
  case True
  then obtain c where c: "in_caller s n = Some c" by auto
  obtain u where u: "copy_msg c n s = Some u"
      "t = set_caller n None (ipc_emit (Send_request_succeeded c) (set_state c INACTIVE u))"
    using t True c by (auto simp: send_reply_def receive_reply_def split: bind_splits if_splits)
  obtain cc w where "u = s\<lparr>ipc_caps := cc, in_utcb := w\<rparr>" using copy_msg_frame [OF u(1)] by auto
  moreover have "(in_callee s)(c := in_callee s c) = in_callee s" by auto
  ultimately show ?thesis
    using ctl_release_served [OF ok [unfolded ipc_ok_def] n c, of "in_callee s c"]
      ctl_okD(3) [OF ok [unfolded ipc_ok_def] n c]
    by (simp add: u(2) ipc_ok_def ipc_set_defs completes_once_def completions_def)
qed (use t ok in \<open>auto simp: send_reply_def split: if_splits\<close>)


lemma announced_request_cancelled_ok:
  assumes ok: "ipc_ok s" and n: "in_alive s n" "in_state s n = AWAIT_REPLY" "in_callee s n = Some v"
  shows "\<exists>t. announced_request_cancelled v n s = Some t \<and> in_alive t = in_alive s \<and> in_state t = in_state s \<and>
    in_callee t = in_callee s \<and> ipc_events t = ipc_events s \<and>
    ipc_ok (t\<lparr>in_state := (in_state s)(n := INACTIVE), in_callee := (in_callee s)(n := x)\<rparr>) \<and>
    (in_queue s n = [] \<and> in_caller s n = None \<longrightarrow> in_queue t n = [] \<and> in_caller t n = None)"
proof -
  note ok' = ok [unfolded ipc_ok_def]
  have v: "in_alive s v" "n \<in> set (in_queue s v) \<or> in_caller s v = Some n"
    using ctl_okD(4) [OF ok' n(1,2)] n(3) by auto
  show ?thesis
  proof (cases "in_caller s v = Some n")
    case True
    then show ?thesis using v(1) ctl_release_served [OF ok' v(1) True, of x]
      by (auto simp: announced_request_cancelled_def ipc_set_defs ipc_ok_def)
  next
    case False
    then have "n \<in> set (in_queue s v)" using v(2) by simp
    then show ?thesis using False v(1) ctl_release_queued [OF ok' v(1), of n x]
      by (auto simp: announced_request_cancelled_def ipc_set_defs ipc_ok_def)
  qed
qed

lemma cancel_waiting_ok:
  assumes ok: "ipc_ok s" and n: "in_alive s n"
  shows "\<exists>t. cancel_waiting n s = Some t \<and> ipc_ok t \<and> completes_once s t \<and> in_state t n = INACTIVE"
proof (cases "in_state s n")
  case AWAIT_REPLY
  then obtain v where v: "in_callee s n = Some v" using ctl_okD(4) [OF ok [unfolded ipc_ok_def] n] by auto
  then obtain t where t: "announced_request_cancelled v n s = Some t" "in_alive t = in_alive s"
      "in_state t = in_state s" "in_callee t = in_callee s" "ipc_events t = ipc_events s"
      "ipc_ok (t\<lparr>in_state := (in_state s)(n := INACTIVE), in_callee := (in_callee s)(n := None)\<rparr>)"
    using announced_request_cancelled_ok [OF ok n AWAIT_REPLY v, of None] by blast
  then show ?thesis using AWAIT_REPLY v
    by (simp add: cancel_waiting_def cancel_outbuf_request_def ipc_set_defs ipc_ok_def completes_once_def completions_def)
next
  case AWAIT_REQUEST
  then show ?thesis using ctl_stop_await [OF ok [unfolded ipc_ok_def] AWAIT_REQUEST]
    by (auto simp: cancel_waiting_def ipc_set_defs ipc_ok_def completes_once_def completions_def)
next
  case INACTIVE
  then show ?thesis using ok by (simp add: cancel_waiting_def)
qed

lemma served_callee:
  assumes "ipc_ok s" "in_alive s n" "in_caller s n = Some c"
  shows "in_alive s c" "in_callee s c = Some n" "in_state s c = AWAIT_REPLY"
  using ctl_okD(3) [OF assms(1) [unfolded ipc_ok_def] assms(2,3)] by auto

lemma completes_once_trans:
  assumes "completes_once s t" "completes_once t u" "in_alive t = in_alive s" "in_alive u = in_alive s"
    "\<And>c. in_state s c \<noteq> AWAIT_REPLY \<Longrightarrow> in_state t c \<noteq> AWAIT_REPLY"
    "\<And>c. in_state t c \<noteq> AWAIT_REPLY \<Longrightarrow> in_state u c \<noteq> AWAIT_REPLY"
  shows "completes_once s u"
  using assms unfolding completes_once_def by fastforce

text \<open>The callers of a node are released when it vanishes.\<close>

definition released :: "ipc \<Rightarrow> ipc \<Rightarrow> bool" where
  "released s t \<longleftrightarrow> ipc_ok t \<and> completes_once s t \<and> in_alive t = in_alive s \<and>
     (\<forall>c. in_state t c = in_state s c \<and> in_callee t c = in_callee s c \<or>
       in_state s c = AWAIT_REPLY \<and> in_state t c = INACTIVE \<and> in_callee t c = None)"

lemma released_trans: "released s t \<Longrightarrow> released t u \<Longrightarrow> released s u"
proof -
  assume r: "released s t" "released t u"
  have 1: "in_state s c \<noteq> AWAIT_REPLY \<Longrightarrow> in_state t c \<noteq> AWAIT_REPLY"
    "in_state t c \<noteq> AWAIT_REPLY \<Longrightarrow> in_state u c \<noteq> AWAIT_REPLY" for c
    using r unfolding released_def by metis+
  have 2: "in_state u c = in_state s c \<and> in_callee u c = in_callee s c \<or>
      in_state s c = AWAIT_REPLY \<and> in_state u c = INACTIVE \<and> in_callee u c = None" for c
    using r unfolding released_def by metis
  have 3: "completes_once s t" "completes_once t u" "in_alive t = in_alive s" "in_alive u = in_alive s" "ipc_ok u"
    using r by (simp_all add: released_def)
  have "completes_once s u" by (rule completes_once_trans [OF 3(1,2,3,4) 1])
  then show ?thesis using 2 3 by (simp add: released_def)
qed

lemma cancel_queued_ok:
  assumes "ipc_ok (set_queue n cs s)" "in_alive s n" "in_caller s n = cr"
  shows "\<exists>t. cancel_queued cs (set_queue n [] s) = Some t \<and> released (set_queue n cs s) t \<and>
    in_queue t n = [] \<and> in_caller t n = cr"
  using assms
proof (induction cs arbitrary: s)
  case Nil
  then show ?case by (simp add: released_def set_queue_def)
next
  case (Cons c cs)
  note ok = Cons.prems(1) [unfolded ipc_ok_def]
  have a: "in_alive (set_queue n (c # cs) s) n" using Cons.prems(2) by (simp add: set_queue_def)
  have c: "in_alive s c" "in_callee s c = Some n" "in_state s c = AWAIT_REPLY"
    using ctl_okD(2) [OF ok a, of c] by (simp_all add: set_queue_def)
  let ?s = "ipc_emit (Send_request_failed c) (set_state c INACTIVE (set_callee c None s))"
  have step: "cancel_queued (c # cs) (set_queue n [] s) = cancel_queued cs (set_queue n [] ?s)"
  proof -
    have "ipc_emit (Send_request_failed c) (set_state c INACTIVE (set_callee c None (set_queue n [] s))) = set_queue n [] ?s"
      by (simp add: ipc_set_defs)
    then show ?thesis using c by (simp add: outbuf_request_cancelled_def) (simp add: set_queue_def)
  qed
  have "c \<in> set (in_queue (set_queue n (c # cs) s) n)" by (simp add: set_queue_def)
  from ctl_release_queued [OF ok a this, of None] have ok2: "ipc_ok (set_queue n cs ?s)"
    by (simp add: ipc_ok_def ipc_set_defs fun_upd_def cong: if_cong)
  then obtain t where t: "cancel_queued cs (set_queue n [] ?s) = Some t" "released (set_queue n cs ?s) t"
      "in_queue t n = []" "in_caller t n = cr"
    using Cons.IH [of ?s] Cons.prems(2,3) by (auto simp: ipc_set_defs)
  have "released (set_queue n (c # cs) s) (set_queue n cs ?s)"
    using ok2 c by (simp add: released_def completes_once_def completions_def ipc_set_defs)
  then show ?case using released_trans [OF _ t(2)] t step by auto
qed

lemma cancel_request_queue_ok:
  assumes "ipc_ok s" "in_alive s n"
  shows "\<exists>t. cancel_request_queue n s = Some t \<and> released s t \<and> in_queue t n = [] \<and> in_caller t n = in_caller s n"
proof -
  have "set_queue n (in_queue s n) s = s" by (simp add: set_queue_def)
  then show ?thesis using cancel_queued_ok [of n "in_queue s n" s "in_caller s n"] assms
    by (simp add: cancel_request_queue_def)
qed

lemma cancel_inbuf_request_ok:
  assumes ok: "ipc_ok s" and n: "in_alive s n"
  shows "\<exists>t. cancel_inbuf_request n s = Some t \<and> released s t \<and> in_queue t n = in_queue s n \<and> in_caller t n = None"
proof (cases "in_caller s n")
  case None
  then show ?thesis using ok by (simp add: cancel_inbuf_request_def released_def)
next
  case (Some c)
  note c = served_callee [OF ok n Some]
  show ?thesis using Some c ctl_release_served [OF ok [unfolded ipc_ok_def] n Some, of None]
    by (simp add: cancel_inbuf_request_def outbuf_request_cancelled_def released_def completes_once_def
        completions_def ipc_ok_def ipc_set_defs)
qed


lemma cancel_outbuf_request_dead:
  assumes ok: "ipc_ok s" and n: "in_alive s n" "in_queue s n = []" "in_caller s n = None"
    and t: "cancel_outbuf_request n s = Some t"
  shows "ipc_ok (t\<lparr>in_alive := (in_alive t)(n := False)\<rparr>) \<and> in_alive t = in_alive s \<and>
    in_state t = in_state s \<and> ipc_events t = ipc_events s"
proof -
  note ok' = ok [unfolded ipc_ok_def]
  consider (none) "in_callee s n = None" | (stale) v where "in_callee s n = Some v" "in_state s n \<noteq> AWAIT_REPLY"
    | (wait) v where "in_callee s n = Some v" "in_state s n = AWAIT_REPLY" by (cases "in_callee s n") auto
  then show ?thesis
  proof cases
    case none
    then have "in_state s n \<noteq> AWAIT_REPLY" using ctl_okD(4) [OF ok' n(1)] by auto
    moreover have "(in_callee s)(n := None) = in_callee s" "(in_state s)(n := in_state s n) = in_state s"
      using none by auto
    ultimately have "ctl_ok ((in_alive s)(n := False)) (in_state s) (in_caller s) (in_callee s) (in_queue s)"
      using ctl_dead [OF ok' _ n(2,3), of "in_state s n" None] by metis
    then show ?thesis using t none by (simp add: cancel_outbuf_request_def ipc_ok_def)
  next
    case (stale v)
    then have v: "in_alive s v" using t by (auto simp: cancel_outbuf_request_def announced_request_cancelled_def split: if_splits)
    have "in_caller s v \<noteq> Some n" "n \<notin> set (in_queue s v)" using idle_no_caller [OF ok' stale(2) v] by auto
    then have "t = set_callee n None (set_queue v (in_queue s v) s)"
      using t stale(1) v by (simp add: cancel_outbuf_request_def announced_request_cancelled_def remove1_idem)
    then show ?thesis using ctl_dead [OF ok' stale(2) n(2,3), of "in_state s n" None]
      by (simp add: ipc_set_defs ipc_ok_def)
  next
    case (wait v)
    then obtain u where u: "announced_request_cancelled v n s = Some u" "in_alive u = in_alive s"
        "in_state u = in_state s" "in_callee u = in_callee s" "ipc_events u = ipc_events s"
        "ipc_ok (u\<lparr>in_state := (in_state s)(n := INACTIVE), in_callee := (in_callee s)(n := None)\<rparr>)"
        "in_queue u n = []" "in_caller u n = None"
      using announced_request_cancelled_ok [OF ok n(1) wait(2,1), of None] n(2,3) by blast
    have "t = set_callee n None u" using t wait u(1) by (simp add: cancel_outbuf_request_def)
    moreover have "(in_state s)(n := AWAIT_REPLY) = in_state s" using wait(2) by auto
    ultimately show ?thesis
      using ctl_dead [OF u(6) [unfolded ipc_ok_def], of n AWAIT_REPLY None] u(2-5,7,8)
      by (simp add: ipc_set_defs ipc_ok_def)
  qed
qed

lemma ipc_destroy_ok:
  assumes ok: "ipc_ok s" and n: "in_alive s n" and t: "ipc_destroy n s = Some t"
  shows "ipc_ok t \<and> completes_once s t"
proof -
  obtain u where u: "cancel_request_queue n s = Some u" "released s u" "in_queue u n = []"
      "in_caller u n = in_caller s n"
    using cancel_request_queue_ok [OF ok n] by blast
  then have "ipc_ok u" "in_alive u n" using n by (simp_all add: released_def)
  then obtain w where w: "cancel_inbuf_request n u = Some w" "released u w" "in_queue w n = []" "in_caller w n = None"
    using cancel_inbuf_request_ok [of u n] u(3) by auto
  note r = released_trans [OF u(2) w(2)]
  have ow: "ipc_ok w" "in_alive w = in_alive s" "completes_once s w" using r by (simp_all add: released_def)
  obtain x where x: "cancel_outbuf_request n w = Some x" "t = x\<lparr>in_alive := (in_alive x)(n := False)\<rparr>"
    using t u(1) w(1) by (auto simp: ipc_destroy_def split: bind_splits)
  have xw: "in_alive w n" using ow(2) n by simp
  note x' = cancel_outbuf_request_dead [OF ow(1) xw w(3,4) x(1)]
  have d: "ipc_ok t" using x' x(2) by blast
  have e: "in_state t = in_state w" "ipc_events t = ipc_events w" "in_alive t = (in_alive w)(n := False)"
    using x' by (simp_all add: x(2))
  have "in_alive t c \<Longrightarrow> in_alive w c" for c using e(3) by (simp split: if_splits)
  then show ?thesis using ow(3) d e(1,2) by (simp add: completes_once_def completions_def ow(2))
qed


section \<open>Reachable states\<close>

definition ipc_start :: "pd \<Rightarrow> caps \<Rightarrow> ipc" where
  "ipc_start core st = \<lparr>in_alive = (\<lambda>_. False), in_state = (\<lambda>_. INACTIVE), in_capid = (\<lambda>_. cap_id_invalid),
     in_caller = (\<lambda>_. None), in_callee = (\<lambda>_. None), in_help = (\<lambda>_. False), in_rcv_caps = (\<lambda>_. 0),
     in_utcb = (\<lambda>_. \<lparr>u_cap_cnt = 0, u_data_size = 0, u_exception_code = 0, u_destination = 0,
       u_caps = replicate MAX_CAP_ARGS 0, u_data = []\<rparr>),
     in_queue = (\<lambda>_. []), in_refs = (\<lambda>_. replicate MAX_CAP_ARGS 0), in_pd = (\<lambda>_. 0), ipc_caps = st,
     ipc_core = core, ipc_events = []\<rparr>"

definition ipc_new :: "node \<Rightarrow> pd \<Rightarrow> ipc \<Rightarrow> ipc" where
  "ipc_new n p s = s\<lparr>in_alive := (in_alive s)(n := True), in_state := (in_state s)(n := INACTIVE),
     in_capid := (in_capid s)(n := cap_id_invalid), in_caller := (in_caller s)(n := None),
     in_callee := (in_callee s)(n := None), in_help := (in_help s)(n := False),
     in_rcv_caps := (in_rcv_caps s)(n := 0), in_queue := (in_queue s)(n := []), in_pd := (in_pd s)(n := p)\<rparr>"

text \<open>
  The operations as the thread code calls them: the callee of a request exists, and a thread
  replies to its caller before it waits for the next request.
\<close>

inductive ipc_step :: "ipc \<Rightarrow> ipc \<Rightarrow> bool" where
  step_new: "\<not> in_alive s n \<Longrightarrow> ipc_step s (ipc_new n p s)"
| step_init: "in_alive s n \<Longrightarrow> ipc_init n u m s = Some (b, t) \<Longrightarrow> ipc_step s t"
| step_send: "in_alive s n \<Longrightarrow> in_alive s v \<Longrightarrow> send_request n v c h k s = Some (b, t) \<Longrightarrow> ipc_step s t"
| step_await: "in_alive s n \<Longrightarrow> in_caller s n = None \<Longrightarrow> await_request n k s = Some (b, d, t) \<Longrightarrow> ipc_step s t"
| step_reply: "in_alive s n \<Longrightarrow> send_reply n s = Some t \<Longrightarrow> ipc_step s t"
| step_cancel: "in_alive s n \<Longrightarrow> cancel_waiting n s = Some t \<Longrightarrow> ipc_step s t"
| step_destroy: "in_alive s n \<Longrightarrow> ipc_destroy n s = Some t \<Longrightarrow> ipc_step s t"

inductive ipc_reach :: "ipc \<Rightarrow> bool" where
  reach_start: "ipc_reach (ipc_start core st)"
| reach_step: "ipc_reach s \<Longrightarrow> ipc_step s t \<Longrightarrow> ipc_reach t"

lemma ctl_new:
  assumes ok: "ctl_ok al st cr ce q" and n: "\<not> al n"
  shows "ctl_ok (al(n := True)) (st(n := INACTIVE)) (cr(n := None)) (ce(n := None)) (q(n := []))"
proof (rule ctl_okI)
  note k = ctl_okD [OF ok]
  fix w assume w: "(al(n := True)) w"
  show "distinct ((q(n := [])) w)" using k(1) [of w] w by simp
  { fix c assume c: "c \<in> set ((q(n := [])) w)"
    then have "al w" "c \<in> set (q w)" "w \<noteq> n" using w by (auto split: if_splits)
    then show "(al(n := True)) c \<and> (st(n := INACTIVE)) c = AWAIT_REPLY \<and> (ce(n := None)) c = Some w"
      using k(2) [of w c] n by auto }
  { fix c assume c: "(cr(n := None)) w = Some c"
    then have "al w" "cr w = Some c" "w \<noteq> n" using w by (auto split: if_splits)
    then show "(al(n := True)) c \<and> (st(n := INACTIVE)) c = AWAIT_REPLY \<and> (ce(n := None)) c = Some w \<and> c \<notin> set ((q(n := [])) w)"
      using k(3) [of w c] n by auto }
  { assume "(st(n := INACTIVE)) w = AWAIT_REPLY"
    then have a: "st w = AWAIT_REPLY" "al w" "w \<noteq> n" using w by (auto split: if_splits)
    obtain u where u: "ce w = Some u" "al u" "w \<in> set (q u) \<or> cr u = Some w" using k(4) [OF a(2,1)] by blast
    then have "u \<noteq> n" using n by auto
    then show "\<exists>u. (ce(n := None)) w = Some u \<and> (al(n := True)) u \<and> (w \<in> set ((q(n := [])) u) \<or> (cr(n := None)) u = Some w)"
      using u a by auto }
  { assume "(st(n := INACTIVE)) w = AWAIT_REQUEST"
    then show "(q(n := [])) w = [] \<and> (cr(n := None)) w = None" using k(5) [of w] w by (auto split: if_splits) }
qed

lemma ipc_init_frame:
  assumes "ipc_init n u m s = Some (b, t)"
  shows "in_alive t = in_alive s \<and> in_state t = in_state s \<and> in_caller t = in_caller s \<and>
    in_callee t = in_callee s \<and> in_queue t = in_queue s \<and> ipc_events t = ipc_events s"
proof -
  let ?s = "s\<lparr>in_utcb := (in_utcb s)(n := u), in_rcv_caps := (in_rcv_caps s)(n := u_cap_cnt (in_utcb s m))\<rparr>"
  obtain b' w where w: "prealloc 0 (u_cap_cnt (in_utcb s m)) n ?s = Some (b', w)"
    using assms by (auto simp: ipc_init_def Let_def split: bind_splits)
  obtain c r where w': "w = ?s\<lparr>ipc_caps := c, in_refs := r\<rparr>" using prealloc_frame [OF w] by blast
  show ?thesis
  proof (cases b')
    case True
    then have "copy_msg n m w = Some t" using assms w by (auto simp: ipc_init_def Let_def)
    then obtain c' u' where "t = w\<lparr>ipc_caps := c', in_utcb := u'\<rparr>" using copy_msg_frame by blast
    then show ?thesis by (simp add: w')
  next
    case False
    then have "t = w" using assms w by (simp add: ipc_init_def Let_def)
    then show ?thesis by (simp add: w')
  qed
qed

lemma ipc_step_ok: "ipc_step s t \<Longrightarrow> ipc_ok s \<Longrightarrow> ipc_ok t \<and> completes_once s t"
proof (induction rule: ipc_step.induct)
  case (step_new s n p)
  then show ?case using ctl_new [of "in_alive s" "in_state s" "in_caller s" "in_callee s" "in_queue s" n]
    by (simp add: ipc_ok_def ipc_new_def completes_once_def completions_def)
next
  case (step_init s n u m b t)
  then show ?case using ipc_init_frame [OF step_init(2)] by (simp add: ipc_ok_def completes_once_def completions_def)
next
  case (step_send s n v c h k b t)
  then show ?case using send_request_ok by blast
next
  case (step_await s n k b d t)
  then show ?case using await_request_ok by blast
next
  case (step_reply s n t)
  then show ?case using send_reply_ok by blast
next
  case (step_cancel s n t)
  then show ?case using cancel_waiting_ok [of s n] by auto
next
  case (step_destroy s n t)
  then show ?case using ipc_destroy_ok by blast
qed

lemma ipc_reach_ok: "ipc_reach s \<Longrightarrow> ipc_ok s"
proof (induction rule: ipc_reach.induct)
  case (reach_start core st)
  then show ?case by (simp add: ipc_ok_def ipc_start_def ctl_ok_def)
qed (use ipc_step_ok in blast)

lemma count_distinct: "distinct xs \<Longrightarrow> count_list xs x = (if x \<in> set xs then 1 else 0)"
  by (induction xs) auto




text \<open>A caller and a server, where the request of the caller is pending.\<close>

definition demo_sent :: ipc where
  "demo_sent = (case send_request 1 2 5 True 0 (ipc_new 2 1 (ipc_new 1 1 (ipc_start 0 demo_caps))) of
     Some (_, t) \<Rightarrow> t | None \<Rightarrow> ipc_start 0 demo_caps)"

lemmas demo_ipc_defs = ipc_new_def ipc_start_def send_request_def announce_request_def ipc_set_defs

lemma demo_sent_run:
  "send_request 1 2 5 True 0 (ipc_new 2 1 (ipc_new 1 1 (ipc_start 0 demo_caps))) = Some (True, demo_sent)"
  "in_alive demo_sent 1" "in_alive demo_sent 2" "in_state demo_sent 1 = AWAIT_REPLY"
  "in_state demo_sent 2 = INACTIVE" "in_callee demo_sent 1 = Some 2" "in_help demo_sent 1"
  "in_queue demo_sent 2 = [1]" "in_caller demo_sent 2 = None" "in_queue demo_sent 1 = []" "in_caller demo_sent 1 = None"
  by (simp_all add: demo_sent_def demo_ipc_defs)

lemma demo_sent_reach: "ipc_reach demo_sent"
proof -
  have 1: "ipc_step (ipc_start 0 demo_caps) (ipc_new 1 1 (ipc_start 0 demo_caps))"
    by (rule step_new) (simp add: ipc_start_def)
  have 2: "ipc_step (ipc_new 1 1 (ipc_start 0 demo_caps)) (ipc_new 2 1 (ipc_new 1 1 (ipc_start 0 demo_caps)))"
    by (rule step_new) (simp add: ipc_start_def ipc_new_def)
  have 3: "ipc_step (ipc_new 2 1 (ipc_new 1 1 (ipc_start 0 demo_caps))) demo_sent"
    by (rule step_send [OF _ _ demo_sent_run(1)]) (simp_all add: ipc_start_def ipc_new_def)
  show ?thesis by (rule reach_step [OF reach_step [OF reach_step [OF reach_start 1] 2] 3])
qed




section \<open>Helping\<close>

lemma copy_msg_alive: "copy_msg n m s = Some t \<Longrightarrow> in_alive t = in_alive s"
  using copy_msg_frame by fastforce

lemma prealloc_alive: "prealloc i k n s = Some (b, t) \<Longrightarrow> in_alive t = in_alive s"
  using prealloc_frame by fastforce

lemma announce_alive: "announce_request v n s = Some t \<Longrightarrow> in_alive t = in_alive s"
  by (auto simp: announce_request_def receive_request_def ipc_set_defs dest: copy_msg_alive
      split: if_splits bind_splits)

lemma send_alive:
  assumes "send_request n v c h k s = Some (b, t)"
  shows "in_alive t = in_alive s"
  using assms prealloc_alive [of 0 k n s] announce_alive
  by (fastforce simp: send_request_def ipc_set_defs split: if_splits bind_splits)

lemma await_alive: "await_request n k s = Some (b, d, t) \<Longrightarrow> in_alive t = in_alive s"
  by (auto simp: await_request_def receive_request_def Let_def ipc_set_defs
      dest!: copy_msg_alive prealloc_alive split: if_splits bind_splits list.splits)

lemma reply_alive: "send_reply n s = Some t \<Longrightarrow> in_alive t = in_alive s"
  by (auto simp: send_reply_def receive_reply_def ipc_set_defs
      dest!: copy_msg_alive split: if_splits bind_splits option.splits)

lemma outbuf_cancelled_alive: "outbuf_request_cancelled c s = Some t \<Longrightarrow> in_alive t = in_alive s"
  by (auto simp: outbuf_request_cancelled_def ipc_set_defs split: if_splits)

lemma cancel_queued_alive: "cancel_queued cs s = Some t \<Longrightarrow> in_alive t = in_alive s"
proof (induction cs arbitrary: s)
  case (Cons c cs)
  then obtain u where "outbuf_request_cancelled c s = Some u" "cancel_queued cs u = Some t" by (auto split: bind_splits)
  then show ?case using Cons.IH outbuf_cancelled_alive by metis
qed simp

lemma cancel_outbuf_alive: "cancel_outbuf_request n s = Some t \<Longrightarrow> in_alive t = in_alive s"
  by (auto simp: cancel_outbuf_request_def announced_request_cancelled_def ipc_set_defs
      split: if_splits bind_splits option.splits)

lemma cancel_inbuf_alive: "cancel_inbuf_request n s = Some t \<Longrightarrow> in_alive t = in_alive s"
  by (auto simp: cancel_inbuf_request_def ipc_set_defs dest!: outbuf_cancelled_alive
      split: bind_splits option.splits)

lemma cancel_waiting_alive: "cancel_waiting n s = Some t \<Longrightarrow> in_alive t = in_alive s"
  by (auto simp: cancel_waiting_def ipc_set_defs dest!: cancel_outbuf_alive
      split: bind_splits ipc_state.splits)

lemma destroy_alive:
  assumes "ipc_destroy n s = Some t"
  shows "in_alive t = (in_alive s)(n := False)"
proof -
  obtain u v w where "cancel_request_queue n s = Some u" "cancel_inbuf_request n u = Some v"
      "cancel_outbuf_request n v = Some w" "t = w\<lparr>in_alive := (in_alive w)(n := False)\<rparr>"
    using assms by (auto simp: ipc_destroy_def split: bind_splits)
  then show ?thesis using cancel_inbuf_alive [of n u v] cancel_outbuf_alive [of n v w]
      cancel_queued_alive [of "in_queue s n" "set_queue n [] s" u]
    by (simp add: cancel_request_queue_def set_queue_def)
qed

lemma ipc_step_alive: "ipc_step s t \<Longrightarrow> \<exists>n. {m. in_alive t m} \<subseteq> insert n {m. in_alive s m}"
proof (induction rule: ipc_step.induct)
  case (step_new s n p)
  then show ?case by (auto simp: ipc_new_def)
next
  case (step_init s n u m b t)
  then show ?case using ipc_init_frame by fastforce
next
  case (step_send s n v c h k b t)
  then show ?case using send_alive by fastforce
next
  case (step_await s n k b d t)
  then show ?case using await_alive by fastforce
next
  case (step_reply s n t)
  then show ?case using reply_alive by fastforce
next
  case (step_cancel s n t)
  then show ?case using cancel_waiting_alive by fastforce
next
  case (step_destroy s n t)
  then show ?case using destroy_alive [of n s t] by auto
qed

lemma ipc_reach_finite: "ipc_reach s \<Longrightarrow> finite {n. in_alive s n}"
proof (induction rule: ipc_reach.induct)
  case (reach_step s t)
  then show ?case using ipc_step_alive finite_subset by (metis finite_insert)
qed (simp add: ipc_start_def)

definition helps_to :: "ipc \<Rightarrow> (node \<times> node) set" where
  "helps_to s = {(n, v). in_alive s n \<and> helps_outbuf_dst s n \<and> in_callee s n = Some v}"

text \<open>
  As long as the existing threads do not wait for each other in a circle, the search for the
  thread that runs on behalf of a helping caller returns: the result exists, does not help any
  further, and is at the end of the chain of callees.
\<close>

theorem helping_sink_returns:
  assumes "ipc_reach s" "acyclic (helps_to s)" "in_alive s n"
  shows "\<exists>m. helping_sink s n = Some m \<and> in_alive s m \<and> \<not> helps_outbuf_dst s m \<and> (n, m) \<in> (helps_to s)\<^sup>*"
proof -
  note k = ctl_okD(4) [OF ipc_reach_ok [OF assms(1), unfolded ipc_ok_def]]
  have sub: "helps_to s \<subseteq> {n. in_alive s n} \<times> {n. in_alive s n}"
    using k by (fastforce simp: helps_to_def helps_outbuf_dst_def)
  have "finite (helps_to s)" by (rule finite_subset [OF sub]) (simp add: ipc_reach_finite [OF assms(1)])
  then have "wf ((helps_to s)\<inverse>)" using assms(2) by (rule finite_acyclic_wf_converse)
  then show ?thesis using assms(3)
  proof (induction n rule: wf_induct_rule)
    case (less n)
    show ?case
    proof (cases "helps_outbuf_dst s n")
      case False
      then show ?thesis using less.prems by (auto simp: helping_sink.simps)
    next
      case True
      then obtain v where v: "in_callee s n = Some v" "in_alive s v" using k [OF less.prems] by (auto simp: helps_outbuf_dst_def)
      then have nv: "(n, v) \<in> helps_to s" using True less.prems by (simp add: helps_to_def)
      obtain m where m: "helping_sink s v = Some m" "in_alive s m" "\<not> helps_outbuf_dst s m" "(v, m) \<in> (helps_to s)\<^sup>*"
        using less.IH [of v] nv v(2) by auto
      have "helping_sink s n = Some m" using True v(1) m(1) by (subst helping_sink.simps) simp
      then show ?thesis using m(2,3) converse_rtrancl_into_rtrancl [OF nv m(4)] by blast
    qed
  qed
qed

theorem helping_sink_returns_witness:
  "\<exists>m. helping_sink demo_sent 1 = Some m \<and> \<not> helps_outbuf_dst demo_sent m"
proof -
  have "helps_to demo_sent \<subseteq> {(1, 2)}"
    using demo_sent_run by (auto simp: helps_to_def helps_outbuf_dst_def)
      (auto simp: demo_sent_def demo_ipc_defs split: if_splits)
  then have "acyclic (helps_to demo_sent)" by (rule acyclic_subset [rotated]) (auto simp: acyclic_insert intro: acyclicI)
  then show ?thesis using helping_sink_returns [OF demo_sent_reach _ demo_sent_run(2)] by auto
qed

text \<open>Two threads that call each other are a reachable circle, in which the search does not return.\<close>

lemma helping_circle:
  assumes "helps_outbuf_dst s a" "in_callee s a = Some b" "helps_outbuf_dst s b" "in_callee s b = Some a"
  shows "helping_sink s a = None"
proof -
  have "t = s \<longrightarrow> n \<noteq> a \<and> n \<noteq> b" if "helping_sink t n = Some m" for t n m
    using that
  proof (rule helping_sink.raw_induct [rotated, where P = "\<lambda>t n m. t = s \<longrightarrow> n \<noteq> a \<and> n \<noteq> b"])
    fix hs t n m
    assume ih: "\<And>t n m. hs t n = Some m \<Longrightarrow> t = s \<longrightarrow> n \<noteq> a \<and> n \<noteq> b"
      and r: "(if helps_outbuf_dst t n then case in_callee t n of None \<Rightarrow> None | Some c \<Rightarrow> hs t c else Some n) = Some m"
    show "t = s \<longrightarrow> n \<noteq> a \<and> n \<noteq> b" using ih r assms by (auto split: if_splits option.splits)
  qed
  then show ?thesis by (cases "helping_sink s a") blast+
qed

lemma helping_circle_reachable:
  "\<exists>t. ipc_reach t \<and> in_alive t 1 \<and> helping_sink t 1 = None"
proof -
  obtain t where t: "send_request 2 1 5 True 0 demo_sent = Some (True, t)" "in_alive t 1" "helps_outbuf_dst t 1"
      "in_callee t 1 = Some 2" "helps_outbuf_dst t 2" "in_callee t 2 = Some 1"
    using demo_sent_run by (simp add: send_request_def announce_request_def ipc_set_defs helps_outbuf_dst_def)
  have "ipc_reach t" by (rule reach_step [OF demo_sent_reach step_send [OF demo_sent_run(3,2) t(1)]])
  then show ?thesis using t(2) helping_circle [OF t(3-6)] by blast
qed


section \<open>Where the code relies on its users\<close>

text \<open>The number of references to pre-allocate comes from the user and is not bounded by the array.\<close>

lemma prealloc_overrun:
  "i \<le> length (in_refs s n) \<Longrightarrow> length (in_refs s n) < i + k \<Longrightarrow>
   length (in_refs s n) < i + length (cap_slab (ipc_caps s) (in_pd s n)) \<Longrightarrow> prealloc i k n s = None"
proof (induction i k n s rule: prealloc.induct)
  case (2 i k n s)
  then show ?case
  proof (cases "cap_slab (ipc_caps s) (in_pd s n)")
    case (Cons r rs)
    show ?thesis
    proof (cases "i = length (in_refs s n)")
      case False
      then show ?thesis using 2(1) [OF refl Cons] 2(2-4) Cons by (simp add: Let_def)
    qed (use Cons in \<open>simp add: Let_def\<close>)
  qed simp
qed simp

lemma send_request_overrun:
  assumes "in_state s n = INACTIVE" "length (in_refs s n) = MAX_CAP_ARGS" "k > MAX_CAP_ARGS"
    "length (cap_slab (ipc_caps s) (in_pd s n)) > MAX_CAP_ARGS"
  shows "send_request n v c h k s = None"
  using assms prealloc_overrun [of 0 s n k] by (simp add: send_request_def)

text \<open>
  A finished request leaves the pointer to its callee behind; the end of the caller then visits
  a callee that may not exist any more.
\<close>

lemma stale_callee_fault:
  assumes "in_queue s n = []" "in_caller s n = None" "in_callee s n = Some v" "\<not> in_alive s v"
  shows "ipc_destroy n s = None"
  using assms by (simp add: ipc_destroy_def cancel_request_queue_def cancel_inbuf_request_def
      cancel_outbuf_request_def announced_request_cancelled_def ipc_set_defs)

lemma stale_callee_reachable:
  "\<exists>t. ipc_reach t \<and> in_alive t 1 \<and> in_state t 1 = INACTIVE \<and> ipc_destroy 1 t = None"
proof -
  obtain s1 where s1: "await_request 2 0 demo_sent = Some (True, True, s1)" "in_alive s1 = in_alive demo_sent"
      "in_state s1 2 = INACTIVE" "in_caller s1 2 = Some 1" "in_callee s1 1 = Some 2" "in_queue s1 2 = []"
      "in_queue s1 1 = []" "in_caller s1 1 = None" "in_callee s1 2 = None" "in_rcv_caps s1 1 = 0"
    by (simp add: demo_sent_def demo_ipc_defs await_request_def receive_request_def copy_msg_def copy_utcb_def)
  have a: "in_alive s1 1" "in_alive s1 2" using s1(2) demo_sent_run(2,3) by simp_all
  have r1: "ipc_reach s1" by (rule reach_step [OF demo_sent_reach step_await [OF demo_sent_run(3,9) s1(1)]])
  obtain s2 where s2: "send_reply 2 s1 = Some s2" "in_alive s2 = in_alive s1" "in_state s2 1 = INACTIVE"
      "in_caller s2 2 = None" "in_callee s2 1 = Some 2" "in_queue s2 2 = []" "in_queue s2 1 = []"
      "in_caller s2 1 = None" "in_callee s2 2 = None"
    using s1 a by (simp add: send_reply_def receive_reply_def ipc_set_defs copy_msg_def copy_utcb_def)
  have r2: "ipc_reach s2" by (rule reach_step [OF r1 step_reply [OF a(2) s2(1)]])
  obtain s3 where s3: "ipc_destroy 2 s2 = Some s3" "\<not> in_alive s3 2" "in_alive s3 1" "in_state s3 1 = INACTIVE"
      "in_callee s3 1 = Some 2" "in_queue s3 1 = []" "in_caller s3 1 = None"
    using s2 a by (simp add: ipc_destroy_def cancel_request_queue_def cancel_inbuf_request_def
        cancel_outbuf_request_def ipc_set_defs)
  have r3: "ipc_reach s3" by (rule reach_step [OF r2 step_destroy [OF _ s3(1)]]) (simp add: s2(2) a)
  show ?thesis using r3 s3(3,4) stale_callee_fault [OF s3(6,7,5,2)] by blast
qed

text \<open>
  A server that waits for the next request without a reply forgets its caller: no node knows
  the caller any more, which waits until it is cancelled.
\<close>

lemma unanswered_caller_forgotten:
  assumes "in_state s n = INACTIVE" "in_caller s n = Some c" "in_queue s n = [d]" "d \<noteq> c"
    "in_state s c = AWAIT_REPLY" "in_rcv_caps s n = 0"  "n \<noteq> c"
  shows "\<exists>t. await_request n 0 s = Some (True, True, t) \<and> in_state t c = AWAIT_REPLY \<and>
    in_caller t n = Some d \<and> in_queue t n = []"
  using assms
  by (simp add: await_request_def receive_request_def copy_msg_def copy_utcb_def ipc_set_defs)

end
