(* ===== verification/Slab.thy ===== *)
theory Slab
  imports Misc_Math "HOL-Library.Monad_Syntax"
begin

text \<open>
  The slab allocator, \<open>base/include/base/slab.h\<close> and \<open>base/src/lib/base/slab.cc\<close>: entries of one size,
  kept in blocks that form a ring.  A block is named by its address, an entry has the header
  that points back to its block; the data of a block is the list of the states of its entries.
  The backing store is a parameter: a function from the state, as its allocation may come back to
  the slab.  \<open>None\<close> is an access to memory that is no block or no entry.
\<close>

record slab_block =
  sb_next :: addr
  sb_prev :: addr
  sb_avail :: addr
  sb_state :: "bool list"

record slab =
  sl_size :: addr
  sl_block_size :: addr
  sl_per_block :: addr
  sl_initial :: addr
  sl_nested :: bool
  sl_num :: addr
  sl_total :: addr
  sl_curr :: addr
  sl_backed :: bool
  sl_blocks :: "addr \<Rightarrow> slab_block option"
  sl_entry :: "addr \<Rightarrow> addr option"

type_synonym 'e backing = "slab \<Rightarrow> ('e + addr option) \<times> slab"

definition SIZEOF_BLOCK :: addr where
  "SIZEOF_BLOCK = 32"

definition SIZEOF_ENTRY :: addr where
  "SIZEOF_ENTRY = 8"

definition set_block :: "addr \<Rightarrow> slab_block \<Rightarrow> slab \<Rightarrow> slab" where
  "set_block b x s = s\<lparr>sl_blocks := (sl_blocks s)(b := Some x)\<rparr>"


section \<open>Blocks\<close>

definition construct_block :: "addr \<Rightarrow> slab \<Rightarrow> slab" where
  "construct_block b s = set_block b \<lparr>sb_next = b, sb_prev = b, sb_avail = sl_per_block s,
     sb_state = replicate (unat (sl_per_block s)) False\<rparr> s"

definition slab_entry :: "slab \<Rightarrow> addr \<Rightarrow> nat \<Rightarrow> addr" where
  "slab_entry s b idx =
     b + SIZEOF_BLOCK + align_addr (sl_per_block s) 3 + (SIZEOF_ENTRY + sl_size s) * of_nat idx"

text \<open>The index is an \<open>int\<close>; a negative one is far behind the end of every block.\<close>

definition slab_entry_idx :: "slab \<Rightarrow> addr \<Rightarrow> addr \<Rightarrow> nat" where
  "slab_entry_idx s b e =
     unat (ucast ((e - slab_entry s b 0) div (SIZEOF_ENTRY + sl_size s)) :: u32)"

fun first_state :: "bool \<Rightarrow> bool list \<Rightarrow> nat option" where
  "first_state v [] = None"
| "first_state v (x # xs) = (if x = v then Some 0 else map_option Suc (first_state v xs))"

text \<open>An entry is constructed by the write of its header, which decrements the counter.\<close>

definition block_alloc :: "addr \<Rightarrow> slab \<Rightarrow> (addr option \<times> slab) option" where
  "block_alloc b s = do {
     x \<leftarrow> sl_blocks s b;
     (case first_state False (sb_state x) of
        None \<Rightarrow> Some (None, s)
      | Some i \<Rightarrow>
          let e = slab_entry s b i;
              s = set_block b (x\<lparr>sb_state := (sb_state x)[i := True], sb_avail := sb_avail x - 1\<rparr>) s
          in Some (Some (e + SIZEOF_ENTRY), s\<lparr>sl_entry := (sl_entry s)(e := Some b)\<rparr>)) }"

definition any_used_entry :: "addr \<Rightarrow> slab \<Rightarrow> addr option option" where
  "any_used_entry b s = do {
     x \<leftarrow> sl_blocks s b;
     Some (map_option (slab_entry s b) (first_state True (sb_state x))) }"

definition inc_avail :: "addr \<Rightarrow> nat \<Rightarrow> slab \<Rightarrow> slab option" where
  "inc_avail b i s = do {
     x \<leftarrow> sl_blocks s b;
     if i < length (sb_state x)
     then Some (set_block b (x\<lparr>sb_state := (sb_state x)[i := False], sb_avail := sb_avail x + 1\<rparr>) s)
     else None }"

definition entry_used :: "addr \<Rightarrow> nat \<Rightarrow> slab \<Rightarrow> bool option" where
  "entry_used b i s = do {
     x \<leftarrow> sl_blocks s b;
     if i < length (sb_state x) then Some (sb_state x ! i) else None }"


section \<open>The ring of blocks\<close>

definition new_slab_block :: "'e backing \<Rightarrow> slab \<Rightarrow> ('e + addr option) \<times> slab" where
  "new_slab_block bs s =
     (if \<not> sl_backed s then (Inr None, s)
      else case bs s of
          (Inr (Some b), s) \<Rightarrow> (Inr (Some b), construct_block b s)
        | r \<Rightarrow> r)"

definition insert_sb_ring :: "addr \<Rightarrow> slab \<Rightarrow> slab option" where
  "insert_sb_ring b s = do {
     x \<leftarrow> sl_blocks s b;
     c \<leftarrow> sl_blocks s (sl_curr s);
     (let s = set_block b (x\<lparr>sb_prev := sl_curr s, sb_next := sb_next c\<rparr>) s in do {
        n \<leftarrow> sl_blocks s (sb_next c);
        (let s = set_block (sb_next c) (n\<lparr>sb_prev := b\<rparr>) s in do {
           c \<leftarrow> sl_blocks s (sl_curr s);
           Some ((set_block (sl_curr s) (c\<lparr>sb_next := b\<rparr>) s)
             \<lparr>sl_total := sl_total s + sl_per_block s, sl_num := sl_num s + 1\<rparr>) }) }) }"

definition insert_sb :: "addr \<Rightarrow> slab \<Rightarrow> slab option" where
  "insert_sb b s = insert_sb_ring b (construct_block b s)"

text \<open>A block that goes back to the backing store must not be used any more.\<close>

definition release_backing_store :: "addr \<Rightarrow> slab \<Rightarrow> slab option" where
  "release_backing_store b s = do {
     x \<leftarrow> sl_blocks s b;
     (let s = s\<lparr>sl_total := sl_total s - sb_avail x, sl_num := sl_num s - 1\<rparr> in
      Some (s\<lparr>sl_blocks := (sl_blocks s)(b := None)\<rparr>)) }"

definition free_curr_sb :: "slab \<Rightarrow> slab option" where
  "free_curr_sb s = do {
     x \<leftarrow> sl_blocks s (sl_curr s);
     (let b = sl_curr s; s = s\<lparr>sl_curr := sb_next x\<rparr> in
      if sl_num s \<le> 1 then Some s
      else do {
        p \<leftarrow> sl_blocks s (sb_prev x);
        (let s = set_block (sb_prev x) (p\<lparr>sb_next := sb_next x\<rparr>) s in do {
           n \<leftarrow> sl_blocks s (sb_next x);
           release_backing_store b (set_block (sb_next x) (n\<lparr>sb_prev := sb_prev x\<rparr>) s) }) }) }"


section \<open>The operations of the slab\<close>

definition slab_new :: "addr \<Rightarrow> addr \<Rightarrow> addr \<Rightarrow> bool \<Rightarrow> 'e backing \<Rightarrow> ('e + slab option)" where
  "slab_new sz block_size initial backed bs =
     (let s = \<lparr>sl_size = sz, sl_block_size = block_size,
            sl_per_block = (block_size - SIZEOF_BLOCK - 8) div (sz + SIZEOF_ENTRY + 1),
            sl_initial = initial, sl_nested = False, sl_num = 0, sl_total = 0, sl_curr = initial,
            sl_backed = backed, sl_blocks = (\<lambda>_. None), sl_entry = (\<lambda>_. None)\<rparr>
      in case (if initial = 0 then new_slab_block bs s else (Inr (Some initial), s)) of
          (Inl e, _) \<Rightarrow> Inl e
        | (Inr None, _) \<Rightarrow> Inr None
        | (Inr (Some b), s) \<Rightarrow>
            Inr (Some ((construct_block b s)\<lparr>sl_curr := b, sl_total := sl_per_block s, sl_num := 1\<rparr>)))"

text \<open>The loop that looks for a block with a free entry, at most once around the ring.\<close>

partial_function (option) skip_full :: "addr \<Rightarrow> slab \<Rightarrow> slab option" where
  "skip_full orig s = do {
     x \<leftarrow> sl_blocks s (sl_curr s);
     if sb_avail x \<noteq> 0 then Some s
     else if sb_next x = orig then Some s
     else skip_full orig (s\<lparr>sl_curr := sb_next x\<rparr>) }"

definition alloc_entry :: "slab \<Rightarrow> (('e + addr option) \<times> slab) option" where
  "alloc_entry s = do {
     s \<leftarrow> skip_full (sl_curr s) s;
     (a, s) \<leftarrow> block_alloc (sl_curr s) s;
     Some (case a of
         None \<Rightarrow> (Inr None, s)
       | Some a \<Rightarrow> (Inr (Some a), s\<lparr>sl_total := sl_total s - 1\<rparr>)) }"

definition slab_alloc :: "'e backing \<Rightarrow> addr \<Rightarrow> slab \<Rightarrow> (('e + addr option) \<times> slab) option" where
  "slab_alloc bs sz s =
     (if sz > sl_size s then Some (Inr None, s)
      else if sl_backed s \<and> sl_total s \<le> 3 \<and> \<not> sl_nested s then
        (case new_slab_block bs (s\<lparr>sl_nested := True\<rparr>) of
           (Inl e, s) \<Rightarrow> Some (Inl e, s\<lparr>sl_nested := False\<rparr>)
         | (Inr None, s) \<Rightarrow> Some (Inr None, s\<lparr>sl_nested := False\<rparr>)
         | (Inr (Some b), s) \<Rightarrow> insert_sb_ring b (s\<lparr>sl_nested := False\<rparr>) \<bind> alloc_entry)
      else alloc_entry s)"

partial_function (option) release_free :: "slab \<Rightarrow> slab option" where
  "release_free s = do {
     x \<leftarrow> sl_blocks s (sl_curr s);
     if sl_total s > 2 * sl_per_block s \<and> sl_num s > 1 \<and> sb_avail x = sl_per_block s
     then free_curr_sb s \<bind> release_free
     else Some s }"

definition slab_free_entry :: "addr \<Rightarrow> slab \<Rightarrow> slab option" where
  "slab_free_entry a s =
     (if a = 0 then Some s
      else do {
        b \<leftarrow> sl_entry s (a - SIZEOF_ENTRY);
        (if a < b + SIZEOF_BLOCK \<or> a \<ge> b + sl_block_size s then Some s
         else let i = slab_entry_idx s b (a - SIZEOF_ENTRY) in do {
           u \<leftarrow> entry_used b i s;
           if \<not> u then Some s
           else do {
             s \<leftarrow> inc_avail b i s;
             release_free (s\<lparr>sl_total := sl_total s + 1, sl_curr := b\<rparr>) } }) })"

partial_function (option) skip_unused :: "slab \<Rightarrow> slab option" where
  "skip_unused s = do {
     x \<leftarrow> sl_blocks s (sl_curr s);
     if sb_avail x = sl_per_block s then skip_unused (s\<lparr>sl_curr := sb_next x\<rparr>) else Some s }"

definition any_used_elem :: "slab \<Rightarrow> (addr option \<times> slab) option" where
  "any_used_elem s =
     (if sl_total s = sl_num s * sl_per_block s then Some (None, s)
      else do {
        s \<leftarrow> skip_unused s;
        e \<leftarrow> any_used_entry (sl_curr s) s;
        Some (map_option (\<lambda>e. e + SIZEOF_ENTRY) e, s) })"

definition slab_consumed :: "slab \<Rightarrow> addr" where
  "slab_consumed s = sl_num s * sl_block_size s"

definition slab_overhead :: "slab \<Rightarrow> addr" where
  "slab_overhead s = sl_block_size s div sl_per_block s"

partial_function (option) destroy_loop :: "slab \<Rightarrow> slab option" where
  "destroy_loop s =
     (if sl_num s > 1 then do {
        s \<leftarrow> (if sl_curr s = sl_initial s
              then do { x \<leftarrow> sl_blocks s (sl_curr s); Some (s\<lparr>sl_curr := sb_next x\<rparr>) } else Some s);
        free_curr_sb s \<bind> destroy_loop }
      else Some s)"

definition slab_destroy :: "slab \<Rightarrow> slab option" where
  "slab_destroy s =
     (if \<not> sl_backed s then Some s
      else do { s \<leftarrow> destroy_loop s; release_backing_store (sl_curr s) s })"

end
