(* ===== verification/Slab_Correct.thy ===== *)
theory Slab_Correct
  imports Slab
begin

text \<open>
  The slab allocator keeps its ring and its counters in order, hands out only entries that are
  not in use, and frees exactly the entry it is asked to free.  The loops over the ring end.
\<close>

section \<open>Geometry of a block\<close>

definition cfg_ok :: "slab \<Rightarrow> bool" where
  "cfg_ok s \<longleftrightarrow> 40 \<le> unat (sl_block_size s) \<and> unat (sl_block_size s) < 2 ^ 31 \<and> unat (sl_size s) < 2 ^ 31 \<and>
     sl_per_block s = (sl_block_size s - SIZEOF_BLOCK - 8) div (sl_size s + SIZEOF_ENTRY + 1) \<and> sl_per_block s \<noteq> 0"

lemma slab_entry_cfg:
  "sl_per_block t = sl_per_block s \<Longrightarrow> sl_size t = sl_size s \<Longrightarrow> slab_entry t b i = slab_entry s b i"
  by (simp add: slab_entry_def)

lemma slab_entry_upd [simp]:
  "slab_entry (set_block c x s) = slab_entry s"
  "slab_entry (s\<lparr>sl_entry := f\<rparr>) = slab_entry s" "slab_entry (s\<lparr>sl_curr := a\<rparr>) = slab_entry s"
  "slab_entry (s\<lparr>sl_total := a\<rparr>) = slab_entry s" "slab_entry (s\<lparr>sl_num := a\<rparr>) = slab_entry s"
  "slab_entry (s\<lparr>sl_nested := n\<rparr>) = slab_entry s" "slab_entry (s\<lparr>sl_blocks := g\<rparr>) = slab_entry s"
  by (auto simp: slab_entry_def set_block_def fun_eq_iff)

lemma cfg_ok_upd [simp]:
  "cfg_ok (set_block c x s) = cfg_ok s"
  "cfg_ok (s\<lparr>sl_entry := f\<rparr>) = cfg_ok s" "cfg_ok (s\<lparr>sl_curr := a\<rparr>) = cfg_ok s"
  "cfg_ok (s\<lparr>sl_total := a\<rparr>) = cfg_ok s" "cfg_ok (s\<lparr>sl_num := a\<rparr>) = cfg_ok s"
  "cfg_ok (s\<lparr>sl_nested := n\<rparr>) = cfg_ok s" "cfg_ok (s\<lparr>sl_blocks := g\<rparr>) = cfg_ok s"
  by (simp_all add: cfg_ok_def set_block_def)

lemma cfg_room:
  assumes "cfg_ok s"
  shows "40 + unat (sl_per_block s) * (unat (sl_size s) + 9) \<le> unat (sl_block_size s)" "0 < unat (sl_per_block s)"
proof -
  have c: "40 \<le> unat (sl_block_size s)" "unat (sl_block_size s) < 2 ^ 31" "unat (sl_size s) < 2 ^ 31"
    "sl_per_block s = (sl_block_size s - SIZEOF_BLOCK - 8) div (sl_size s + SIZEOF_ENTRY + 1)" "sl_per_block s \<noteq> 0"
    using assms unfolding cfg_ok_def by blast+
  have 1: "unat (sl_block_size s - SIZEOF_BLOCK - 8) = unat (sl_block_size s) - 40"
    using c(1) by (simp add: SIZEOF_BLOCK_def diff_diff_eq unat_sub_no_wrap word_le_nat_alt)
  have 2: "unat (sl_size s + SIZEOF_ENTRY + 1) = unat (sl_size s) + 9"
    using c(3) by (simp add: SIZEOF_ENTRY_def add.assoc unat_add_no_wrap)
  have "unat (sl_per_block s) = (unat (sl_block_size s) - 40) div (unat (sl_size s) + 9)"
    using c(4) 1 2 by (simp add: unat_div)
  then have "unat (sl_per_block s) * (unat (sl_size s) + 9) \<le> unat (sl_block_size s) - 40" by simp
  then show "40 + unat (sl_per_block s) * (unat (sl_size s) + 9) \<le> unat (sl_block_size s)" using c(1) by simp
  show "0 < unat (sl_per_block s)" using c(5) by (simp add: unat_gt_0)
qed

definition entries_offset :: "slab \<Rightarrow> nat" where
  "entries_offset s = 32 + unat (align_addr (sl_per_block s) 3)"

lemma entry_fits:
  assumes c: "cfg_ok s" and b: "unat b + unat (sl_block_size s) < 2 ^ 64" and i: "i < unat (sl_per_block s)"
  shows "unat (slab_entry s b i) = unat b + entries_offset s + (unat (sl_size s) + 8) * i"
    "32 \<le> entries_offset s"
    "entries_offset s + (unat (sl_size s) + 8) * i + 8 + unat (sl_size s) < unat (sl_block_size s)"
    "i < 2 ^ 31"
proof -
  let ?n = "unat (sl_per_block s)" and ?z = "unat (sl_size s)" and ?B = "unat (sl_block_size s)"
  have r: "40 + ?n * (?z + 9) \<le> ?B" using cfg_room [OF c] by simp
  have lim: "?B < 2 ^ 31" "?z < 2 ^ 31" using c by (simp_all add: cfg_ok_def)
  have n: "?n < 2 ^ 31" using r lim(1) by (simp add: algebra_simps)
  then show "i < 2 ^ 31" using i by simp
  have a: "unat (align_addr (sl_per_block s) 3) \<le> ?n + 7"
    using align_addr_least(2) [where a = "sl_per_block s" and n = 3] n by simp
  have m: "(?z + 8) * (i + 1) \<le> (?z + 8) * ?n" using i by (intro mult_le_mono) simp_all
  then show fit: "entries_offset s + (?z + 8) * i + 8 + ?z < ?B"
    using r a by (simp add: entries_offset_def algebra_simps)
  show "32 \<le> entries_offset s" by (simp add: entries_offset_def)
  have e: "unat (SIZEOF_ENTRY + sl_size s) = ?z + 8"
    using lim(2) by (simp add: SIZEOF_ENTRY_def unat_add_no_wrap)
  have i': "unat (of_nat i :: addr) = i" using i n by (simp add: unat_of_nat)
  have "(?z + 8) * i < 2 ^ 31" using fit lim by simp
  then have p: "unat ((SIZEOF_ENTRY + sl_size s) * of_nat i) = (?z + 8) * i"
    using e i' by (subst unat_mult_no_wrap) simp_all
  have o: "unat (b + SIZEOF_BLOCK + align_addr (sl_per_block s) 3) = unat b + entries_offset s"
    using b fit by (simp add: SIZEOF_BLOCK_def entries_offset_def unat_add_no_wrap)
  show "unat (slab_entry s b i) = unat b + entries_offset s + (?z + 8) * i"
    using o p b fit by (simp add: slab_entry_def unat_add_no_wrap)
qed

lemma entry_idx:
  assumes c: "cfg_ok s" and b: "unat b + unat (sl_block_size s) < 2 ^ 64" and i: "i < unat (sl_per_block s)"
  shows "slab_entry_idx s b (slab_entry s b i) = i"
proof -
  note f = entry_fits [OF c b i] and f0 = entry_fits(1) [OF c b cfg_room(2) [OF c]]
  have "slab_entry s b 0 \<le> slab_entry s b i" using f(1) f0 by (simp add: word_le_nat_alt)
  then have "unat (slab_entry s b i - slab_entry s b 0) = (unat (sl_size s) + 8) * i"
    using f(1) f0 by (simp add: unat_sub_no_wrap)
  moreover have "unat (SIZEOF_ENTRY + sl_size s) = unat (sl_size s) + 8"
    using c by (simp add: cfg_ok_def SIZEOF_ENTRY_def unat_add_no_wrap)
  ultimately have "unat ((slab_entry s b i - slab_entry s b 0) div (SIZEOF_ENTRY + sl_size s)) = i"
    by (simp add: unat_div)
  then show ?thesis using f(4) by (simp add: slab_entry_idx_def unsigned_ucast_eq take_bit_eq_mod)
qed


section \<open>The invariant\<close>

definition nx :: "slab \<Rightarrow> addr \<Rightarrow> addr" where
  "nx s b = (case sl_blocks s b of None \<Rightarrow> 0 | Some x \<Rightarrow> sb_next x)"

definition pv :: "slab \<Rightarrow> addr \<Rightarrow> addr" where
  "pv s b = (case sl_blocks s b of None \<Rightarrow> 0 | Some x \<Rightarrow> sb_prev x)"

fun chain :: "('a \<Rightarrow> 'a) \<Rightarrow> ('a \<Rightarrow> 'a) \<Rightarrow> 'a list \<Rightarrow> bool" where
  "chain n p (a # b # xs) \<longleftrightarrow> n a = b \<and> p b = a \<and> chain n p (b # xs)"
| "chain n p _ \<longleftrightarrow> True"

definition ring_ok :: "slab \<Rightarrow> addr list \<Rightarrow> bool" where
  "ring_ok s ring \<longleftrightarrow> distinct ring \<and> ring \<noteq> [] \<and> hd ring = sl_curr s \<and>
     chain (nx s) (pv s) (ring @ [hd ring]) \<and> dom (sl_blocks s) = set ring"

definition block_ok :: "slab \<Rightarrow> addr \<Rightarrow> slab_block \<Rightarrow> bool" where
  "block_ok s b x \<longleftrightarrow> b \<noteq> 0 \<and> unat b + unat (sl_block_size s) < 2 ^ 64 \<and>
     length (sb_state x) = unat (sl_per_block s) \<and> sb_avail x = of_nat (count_list (sb_state x) False) \<and>
     (\<forall>i < length (sb_state x). sb_state x ! i \<longrightarrow> sl_entry s (slab_entry s b i) = Some b)"

definition apart :: "slab \<Rightarrow> addr \<Rightarrow> addr \<Rightarrow> bool" where
  "apart s a b \<longleftrightarrow> unat a + unat (sl_block_size s) \<le> unat b \<or> unat b + unat (sl_block_size s) \<le> unat a"

definition free_entries :: "slab \<Rightarrow> addr \<Rightarrow> nat" where
  "free_entries s b = (case sl_blocks s b of None \<Rightarrow> 0 | Some x \<Rightarrow> count_list (sb_state x) False)"

definition slab_inv :: "slab \<Rightarrow> addr list \<Rightarrow> bool" where
  "slab_inv s ring \<longleftrightarrow> cfg_ok s \<and> ring_ok s ring \<and>
     (\<forall>b x. sl_blocks s b = Some x \<longrightarrow> block_ok s b x) \<and>
     (\<forall>a \<in> set ring. \<forall>b \<in> set ring. a \<noteq> b \<longrightarrow> apart s a b) \<and>
     sl_total s = of_nat (\<Sum>b \<in> set ring. free_entries s b) \<and> sl_num s = of_nat (length ring)"

definition used_entries :: "slab \<Rightarrow> (addr \<times> nat) set" where
  "used_entries s = {(b, i). \<exists>x. sl_blocks s b = Some x \<and> i < length (sb_state x) \<and> sb_state x ! i}"

definition entry_data :: "slab \<Rightarrow> addr \<times> nat \<Rightarrow> addr" where
  "entry_data s = (\<lambda>(b, i). slab_entry s b i + SIZEOF_ENTRY)"

definition allocated :: "slab \<Rightarrow> addr set" where
  "allocated s = entry_data s ` used_entries s"

lemma slab_invD:
  assumes "slab_inv s ring"
  shows "cfg_ok s" "ring_ok s ring" "sl_blocks s b = Some x \<Longrightarrow> block_ok s b x"
    "a \<in> set ring \<Longrightarrow> b \<in> set ring \<Longrightarrow> a \<noteq> b \<Longrightarrow> apart s a b"
    "sl_total s = of_nat (\<Sum>b \<in> set ring. free_entries s b)" "sl_num s = of_nat (length ring)"
    "distinct ring" "ring \<noteq> []" "hd ring = sl_curr s" "chain (nx s) (pv s) (ring @ [hd ring])"
    "b \<in> set ring \<longleftrightarrow> (\<exists>x. sl_blocks s b = Some x)"
proof -
  show "b \<in> set ring \<longleftrightarrow> (\<exists>x. sl_blocks s b = Some x)"
    using assms unfolding slab_inv_def ring_ok_def by blast
qed (use assms in \<open>unfold slab_inv_def ring_ok_def, blast+\<close>)

lemma block_okD:
  assumes "block_ok s b x"
  shows "b \<noteq> 0" "unat b + unat (sl_block_size s) < 2 ^ 64" "length (sb_state x) = unat (sl_per_block s)"
    "sb_avail x = of_nat (count_list (sb_state x) False)"
    "i < length (sb_state x) \<Longrightarrow> sb_state x ! i \<Longrightarrow> sl_entry s (slab_entry s b i) = Some b"
  using assms unfolding block_ok_def by blast+

text \<open>A count of a block does not wrap.\<close>

lemma count_le_per_block:
  "cfg_ok s \<Longrightarrow> block_ok s b x \<Longrightarrow> unat (sb_avail x) = count_list (sb_state x) False"
proof -
  assume a: "cfg_ok s" "block_ok s b x"
  have "count_list (sb_state x) False \<le> unat (sl_per_block s)"
    using count_le_length [of "sb_state x" False] block_okD(3) [OF a(2)] by simp
  then have "count_list (sb_state x) False < 2 ^ 64" using unat_less_64 [of "sl_per_block s"] by simp
  then show ?thesis using block_okD(4) [OF a(2)] by (simp add: unat_of_nat)
qed

text \<open>There are fewer blocks than addresses, so the number of blocks does not wrap.\<close>

lemma num_blocks: "slab_inv s ring \<Longrightarrow> unat (sl_num s) = length ring"
proof -
  assume a: "slab_inv s ring"
  note k = slab_invD [OF a]
  have "0 \<notin> set ring" using k(3,11) block_okD(1) by blast
  then have "set ring \<subseteq> UNIV - {0 :: addr}" by blast
  then have "card (set ring) \<le> card (UNIV - {0 :: addr})" by (rule card_mono [rotated]) simp
  then have "length ring < 2 ^ 64" using distinct_card [OF k(7)] by (simp add: card_Diff_singleton card_word)
  then show ?thesis using k(6) by (simp add: unat_of_nat)
qed

section \<open>Rings\<close>

lemma ring_append: "chain n p (xs @ a # ys) \<longleftrightarrow> chain n p (xs @ [a]) \<and> chain n p (a # ys)"
proof (induction xs)
  case (Cons x xs)
  then show ?case by (cases xs) auto
qed simp

lemma ring_front: "chain n p (xs @ [c]) \<Longrightarrow> chain n p xs"
  by (induction xs rule: induct_list012) auto

lemma ring_cong:
  "(\<And>x. x \<in> set (butlast xs) \<Longrightarrow> n' x = n x) \<Longrightarrow> (\<And>x. x \<in> set (tl xs) \<Longrightarrow> p' x = p x) \<Longrightarrow>
   chain n' p' xs = chain n p xs"
proof (induction xs rule: induct_list012)
  case (3 a b xs)
  have "chain n' p' (b # xs) = chain n p (b # xs)"
    by (rule 3(2)) (use 3(3,4) in \<open>auto dest: list.set_sel(2)\<close>)
  then show ?case using 3(3) [of a] 3(4) [of b] by simp
qed simp_all

lemma ring_rotate:
  assumes "as \<noteq> []" "bs \<noteq> []" "chain n p ((as @ bs) @ [hd (as @ bs)])"
  shows "chain n p ((bs @ as) @ [hd (bs @ as)])"
proof -
  obtain a as' b bs' where ab: "as = a # as'" "bs = b # bs'" using assms(1,2) by (meson neq_Nil_conv)
  have "chain n p (as @ b # bs' @ [a])" using assms(3) by (simp add: ab)
  then have 1: "chain n p (as @ [b])" "chain n p (bs @ [a])" using ring_append [of n p as b "bs' @ [a]"] by (simp_all add: ab)
  then show ?thesis using ring_append [of n p bs a "as' @ [b]"] by (simp add: ab)
qed

lemma slab_curr_simps [simp]:
  "nx (s\<lparr>sl_curr := c\<rparr>) = nx s" "pv (s\<lparr>sl_curr := c\<rparr>) = pv s"
  "block_ok (s\<lparr>sl_curr := c\<rparr>) = block_ok s" "apart (s\<lparr>sl_curr := c\<rparr>) = apart s"
  "free_entries (s\<lparr>sl_curr := c\<rparr>) = free_entries s" "allocated (s\<lparr>sl_curr := c\<rparr>) = allocated s"
  by (auto simp: nx_def pv_def block_ok_def apart_def free_entries_def allocated_def used_entries_def entry_data_def fun_eq_iff)

lemma slab_inv_rotate:
  assumes "slab_inv s (as @ bs)" "bs \<noteq> []"
  shows "slab_inv (s\<lparr>sl_curr := hd bs\<rparr>) (bs @ as)"
proof (cases "as = []")
  case True
  then have "sl_curr s = hd bs" using slab_invD(9) [OF assms(1)] by simp
  then have "s\<lparr>sl_curr := hd bs\<rparr> = s" by simp
  then show ?thesis using assms(1) True by simp
next
  case False
  note k = slab_invD [OF assms(1)]
  have "ring_ok (s\<lparr>sl_curr := hd bs\<rparr>) (bs @ as)"
    using ring_rotate [OF False assms(2) k(10)] k(2,7) assms(2) by (auto simp: ring_ok_def)
  moreover have "set (bs @ as) = set (as @ bs)" by auto
  moreover have "length (bs @ as) = length (as @ bs)" by simp
  ultimately show ?thesis using assms(1) unfolding slab_inv_def by simp
qed

lemma next_in_ring:
  assumes "slab_inv s (as @ b # bs)" "sl_blocks s b = Some x"
  shows "sb_next x = hd (bs @ as @ [b])"
proof -
  note k = slab_invD(10) [OF assms(1)]
  have "chain (nx s) (pv s) (b # bs @ [hd (as @ b # bs)])"
    using k ring_append [of "nx s" "pv s" as b "bs @ [hd (as @ b # bs)]"] by simp
  then have "nx s b = hd (bs @ as @ [b])" by (cases bs; cases as) auto
  then show ?thesis using assms(2) by (simp add: nx_def)
qed

lemma skip_full_ok:
  assumes "slab_inv s (as @ bs)" "bs \<noteq> []" "\<forall>a \<in> set as. free_entries s a = 0"
  shows "\<exists>as' bs'. as' @ bs' = as @ bs \<and> bs' \<noteq> [] \<and>
    skip_full (hd (as @ bs)) (s\<lparr>sl_curr := hd bs\<rparr>) = Some (s\<lparr>sl_curr := hd bs'\<rparr>) \<and>
    (free_entries s (hd bs') = 0 \<longrightarrow> (\<forall>a \<in> set (as @ bs). free_entries s a = 0))"
  using assms
proof (induction bs arbitrary: as)
  case (Cons b bs)
  note k = slab_invD [OF Cons.prems(1)]
  obtain x where x: "sl_blocks s b = Some x" using k(11) [of b] by auto
  have av: "sb_avail x = 0 \<longleftrightarrow> free_entries s b = 0"
    using count_le_per_block [OF k(1) k(3) [OF x]] x by (simp add: free_entries_def unat_eq_zero [symmetric])
  have nxt: "sb_next x = hd (bs @ as @ [b])" by (rule next_in_ring [OF Cons.prems(1) x])
  show ?case
  proof (cases "free_entries s b = 0 \<and> bs \<noteq> []")
    case False
    have "sb_next x = hd (as @ b # bs)" if "bs = []" using nxt that by (cases as) auto
    then have "skip_full (hd (as @ b # bs)) (s\<lparr>sl_curr := b\<rparr>) = Some (s\<lparr>sl_curr := b\<rparr>)"
      using False av x by (subst skip_full.simps) auto
    then show ?thesis using False Cons.prems(3) by (intro exI [of _ as] exI [of _ "b # bs"]) auto
  next
    case True
    then have "sb_next x \<noteq> hd (as @ b # bs)"
      using nxt k(7) by (cases as; cases bs) auto
    then have "skip_full (hd (as @ b # bs)) (s\<lparr>sl_curr := b\<rparr>) = skip_full (hd (as @ b # bs)) (s\<lparr>sl_curr := hd bs\<rparr>)"
      using True av x nxt by (subst skip_full.simps) auto
    moreover have "hd ((as @ [b]) @ bs) = hd (as @ b # bs)" by simp
    ultimately show ?thesis using Cons.IH [of "as @ [b]"] Cons.prems True by auto
  qed
qed simp



section \<open>Allocation and release of an entry\<close>

lemma first_state_Some: "first_state v xs = Some i \<Longrightarrow> i < length xs \<and> xs ! i = v"
  by (induction xs arbitrary: i) (auto split: if_splits)

lemma first_state_None: "first_state v xs = None \<Longrightarrow> v \<notin> set xs"
  by (induction xs) (auto split: if_splits)

lemma count_list_upd:
  "i < length xs \<Longrightarrow> count_list (xs[i := v]) y + (if xs ! i = y then 1 else 0) =
    count_list xs y + (if v = y then 1 else 0)"
proof (induction xs arbitrary: i)
  case (Cons x xs)
  show ?case
  proof (cases i)
    case (Suc k)
    then show ?thesis using Cons.IH [of k] Cons.prems by (simp split: if_splits)
  qed simp
qed simp

lemma entry_inj:
  assumes inv: "slab_inv s ring" and b: "sl_blocks s b = Some x" "i < length (sb_state x)"
    and c: "sl_blocks s c = Some y" "j < length (sb_state y)"
    and eq: "slab_entry s b i = slab_entry s c j"
  shows "b = c \<and> i = j"
proof -
  note k = slab_invD [OF inv]
  note B = block_okD [OF k(3) [OF b(1)]] and C = block_okD [OF k(3) [OF c(1)]]
  have i: "i < unat (sl_per_block s)" and j: "j < unat (sl_per_block s)" using b(2) c(2) B(3) C(3) by simp_all
  note fb = entry_fits [OF k(1) B(2) i] and fc = entry_fits [OF k(1) C(2) j]
  have u: "unat b + entries_offset s + (unat (sl_size s) + 8) * i = unat c + entries_offset s + (unat (sl_size s) + 8) * j"
    using fb(1) fc(1) eq by simp
  have "b = c"
  proof (rule ccontr)
    assume "b \<noteq> c"
    then have "apart s b c" using k(4) k(11) b(1) c(1) by blast
    then show False using u fb(3) fc(3) by (auto simp: apart_def)
  qed
  then show ?thesis using u by simp
qed

lemma entry_data_inj: "slab_entry s b i + SIZEOF_ENTRY = slab_entry s c j + SIZEOF_ENTRY \<longleftrightarrow> slab_entry s b i = slab_entry s c j"
  by simp

lemma slab_inv_update:
  assumes inv: "slab_inv s ring" and b: "sl_blocks s b = Some x"
    and x': "sb_next x' = sb_next x" "sb_prev x' = sb_prev x" "length (sb_state x') = length (sb_state x)"
      "sb_avail x' = of_nat (count_list (sb_state x') False)"
    and f: "\<And>i. i < length (sb_state x') \<Longrightarrow> sb_state x' ! i \<Longrightarrow> f (slab_entry s b i) = Some b"
      "\<And>c y i. c \<noteq> b \<Longrightarrow> sl_blocks s c = Some y \<Longrightarrow> i < length (sb_state y) \<Longrightarrow>
        f (slab_entry s c i) = sl_entry s (slab_entry s c i)"
    and tot: "tot + of_nat (count_list (sb_state x) False) = sl_total s + of_nat (count_list (sb_state x') False)"
  shows "slab_inv ((set_block b x' s)\<lparr>sl_entry := f, sl_total := tot\<rparr>) ring"
proof -
  let ?t = "(set_block b x' s)\<lparr>sl_entry := f, sl_total := tot\<rparr>"
  note k = slab_invD [OF inv]
  have br: "b \<in> set ring" using k(11) b by blast
  have nxpv: "nx ?t = nx s" "pv ?t = pv s"
    using b x' by (auto simp: nx_def pv_def set_block_def fun_eq_iff)
  have fe: "free_entries ?t c = (if c = b then count_list (sb_state x') False else free_entries s c)" for c
    by (simp add: free_entries_def set_block_def)
  have s1: "(\<Sum>c \<in> set ring. free_entries ?t c) = count_list (sb_state x') False + (\<Sum>c \<in> set ring - {b}. free_entries s c)"
    unfolding sum.remove [OF finite_set br, of "free_entries ?t"] by (auto simp: fe intro: sum.cong)
  have s2: "(\<Sum>c \<in> set ring. free_entries s c) = count_list (sb_state x) False + (\<Sum>c \<in> set ring - {b}. free_entries s c)"
    unfolding sum.remove [OF finite_set br, of "free_entries s"] using b by (simp add: free_entries_def)
  have "tot = of_nat (\<Sum>c \<in> set ring. free_entries ?t c)"
  proof -
    have "tot = sl_total s + of_nat (count_list (sb_state x') False) - of_nat (count_list (sb_state x) False)"
      using tot by (simp add: eq_diff_eq)
    then show ?thesis using k(5) s1 s2 by simp
  qed
  moreover have "ring_ok ?t ring"
    using k(2) nxpv br b by (auto simp: ring_ok_def set_block_def)
  moreover have "block_ok ?t c y" if "sl_blocks ?t c = Some y" for c y
  proof (cases "c = b")
    case True
    then have "y = x'" using that by (simp add: set_block_def)
    then show ?thesis using block_okD(1-3) [OF k(3) [OF b]] x' f(1) True
      by (simp add: block_ok_def) (simp add: set_block_def)
  next
    case False
    then have y: "sl_blocks s c = Some y" using that by (simp add: set_block_def)
    then show ?thesis using block_okD [OF k(3) [OF y]] f(2) [OF False y] False
      by (simp add: block_ok_def) (simp add: set_block_def)
  qed
  moreover have "apart ?t = apart s" by (simp add: apart_def set_block_def fun_eq_iff)
  ultimately show ?thesis using k(1,4,6) by (simp add: slab_inv_def) (simp add: set_block_def)
qed

lemma entry_data_inj_on:
  assumes "slab_inv s ring"
  shows "inj_on (entry_data s) {(b, i). \<exists>x. sl_blocks s b = Some x \<and> i < length (sb_state x)}"
  using entry_inj [OF assms] by (auto simp: inj_on_def entry_data_def)

lemma used_entries_upd [simp]:
  "used_entries (s\<lparr>sl_entry := f\<rparr>) = used_entries s" "used_entries (s\<lparr>sl_total := a\<rparr>) = used_entries s"
  "used_entries (s\<lparr>sl_num := a\<rparr>) = used_entries s" "used_entries (s\<lparr>sl_nested := n\<rparr>) = used_entries s"
  "used_entries (s\<lparr>sl_curr := a\<rparr>) = used_entries s"
  by (simp_all add: used_entries_def)

lemma entry_data_upd [simp]:
  "entry_data (set_block c x s) = entry_data s"
  "entry_data (s\<lparr>sl_entry := f\<rparr>) = entry_data s" "entry_data (s\<lparr>sl_curr := a\<rparr>) = entry_data s"
  "entry_data (s\<lparr>sl_total := a\<rparr>) = entry_data s" "entry_data (s\<lparr>sl_num := a\<rparr>) = entry_data s"
  "entry_data (s\<lparr>sl_nested := n\<rparr>) = entry_data s" "entry_data (s\<lparr>sl_blocks := g\<rparr>) = entry_data s"
  by (simp_all add: entry_data_def)

lemma used_entries_set:
  assumes "sl_blocks s b = Some x" "i < length (sb_state x)" "sb_state x' = (sb_state x)[i := v]"
  shows "used_entries (set_block b x' s) = (if v then insert (b, i) (used_entries s) else used_entries s - {(b, i)})"
  using assms by (auto simp: used_entries_def set_block_def nth_list_update split: if_splits)

lemma block_alloc_ok:
  assumes inv: "slab_inv s ring"
  shows "\<exists>r t. block_alloc (sl_curr s) s = Some (r, t) \<and> (case r of
      None \<Rightarrow> t = s \<and> free_entries s (sl_curr s) = 0
    | Some a \<Rightarrow> slab_inv (t\<lparr>sl_total := sl_total s - 1\<rparr>) ring \<and> a \<notin> allocated s \<and> allocated t = insert a (allocated s) \<and>
        sl_total t = sl_total s)"
proof -
  note k = slab_invD [OF inv]
  obtain x where x: "sl_blocks s (sl_curr s) = Some x" using k(8,9,11) by (metis list.set_sel(1))
  show ?thesis
  proof (cases "first_state False (sb_state x)")
    case None
    then show ?thesis using x first_state_None [OF None]
      by (simp add: block_alloc_def free_entries_def)
  next
    case (Some i)
    note i = first_state_Some [OF Some]
    let ?e = "slab_entry s (sl_curr s) i"
    let ?x = "x\<lparr>sb_state := (sb_state x)[i := True], sb_avail := sb_avail x - 1\<rparr>"
    let ?t = "(set_block (sl_curr s) ?x s)\<lparr>sl_entry := (sl_entry s)(?e := Some (sl_curr s))\<rparr>"
    have r: "block_alloc (sl_curr s) s = Some (Some (?e + SIZEOF_ENTRY), ?t)"
      using x Some by (simp add: block_alloc_def Let_def) (simp add: set_block_def)
    have cnt: "count_list (sb_state x) False = count_list ((sb_state x)[i := True]) False + 1"
      using count_list_upd [of i "sb_state x" True False] i by simp
    note B = block_okD [OF k(3) [OF x]]
    have inv': "slab_inv (?t\<lparr>sl_total := sl_total s - 1\<rparr>) ring"
    proof (rule slab_inv_update [OF inv x])
      show "sb_avail ?x = of_nat (count_list (sb_state ?x) False)" using B(4) cnt by simp
      show "((sl_entry s)(?e := Some (sl_curr s))) (slab_entry s (sl_curr s) j) = Some (sl_curr s)"
        if "j < length (sb_state ?x)" "sb_state ?x ! j" for j
        using that B(5) [of j] by (cases "j = i") simp_all
      show "((sl_entry s)(?e := Some (sl_curr s))) (slab_entry s c j) = sl_entry s (slab_entry s c j)"
        if "c \<noteq> sl_curr s" "sl_blocks s c = Some y" "j < length (sb_state y)" for c y j
        using entry_inj [OF inv x conjunct1 [OF i] that(2,3)] that(1) by auto
      show "sl_total s - 1 + of_nat (count_list (sb_state x) False) = sl_total s + of_nat (count_list (sb_state ?x) False)"
        using cnt by simp
    qed simp_all
    have u: "used_entries ?t = insert (sl_curr s, i) (used_entries s)"
      using used_entries_set [of s "sl_curr s" x i ?x True] x i by simp
    have "(sl_curr s, i) \<notin> used_entries s" using x i by (simp add: used_entries_def)
    moreover have "insert (sl_curr s, i) (used_entries s) \<subseteq> {(b, i). \<exists>x. sl_blocks s b = Some x \<and> i < length (sb_state x)}"
      using x i by (auto simp: used_entries_def)
    ultimately have "entry_data s (sl_curr s, i) \<notin> allocated s"
      using inj_on_image_mem_iff [OF entry_data_inj_on [OF inv], of "(sl_curr s, i)" "used_entries s"] by (simp add: allocated_def)
    then show ?thesis using r inv' u by (simp add: allocated_def entry_data_def set_block_def)
  qed
qed


lemma alloc_entry_ok:
  assumes inv: "slab_inv s ring"
  shows "\<exists>r t ring'. alloc_entry s = Some (Inr r, t) \<and> slab_inv t ring' \<and> set ring' = set ring \<and> (case r of
      None \<Rightarrow> allocated t = allocated s \<and> (\<forall>b \<in> set ring. free_entries s b = 0)
    | Some a \<Rightarrow> a \<notin> allocated s \<and> allocated t = insert a (allocated s))"
proof -
  note k = slab_invD [OF inv]
  have s: "s\<lparr>sl_curr := hd ring\<rparr> = s" using k(9) by simp
  have "\<exists>as bs. as @ bs = ring \<and> bs \<noteq> [] \<and> skip_full (sl_curr s) s = Some (s\<lparr>sl_curr := hd bs\<rparr>) \<and>
      (free_entries s (hd bs) = 0 \<longrightarrow> (\<forall>a \<in> set ring. free_entries s a = 0))"
    using skip_full_ok [of s "[]" ring, unfolded append_Nil, OF inv k(8), unfolded s] unfolding k(9) by simp
  then obtain as bs where ab: "as @ bs = ring" "bs \<noteq> []" "skip_full (sl_curr s) s = Some (s\<lparr>sl_curr := hd bs\<rparr>)"
      "free_entries s (hd bs) = 0 \<longrightarrow> (\<forall>a \<in> set ring. free_entries s a = 0)"
    by - (elim exE conjE, rule that; assumption)
  let ?s = "s\<lparr>sl_curr := hd bs\<rparr>"
  have inv2: "slab_inv ?s (bs @ as)" by (rule slab_inv_rotate) (use inv ab in simp_all)
  have set2: "set (bs @ as) = set ring" using ab(1) by auto
  obtain r t where r: "block_alloc (hd bs) ?s = Some (r, t)" "case r of
      None \<Rightarrow> t = ?s \<and> free_entries s (hd bs) = 0
    | Some a \<Rightarrow> slab_inv (t\<lparr>sl_total := sl_total s - 1\<rparr>) (bs @ as) \<and> a \<notin> allocated s \<and>
        allocated t = insert a (allocated s) \<and> sl_total t = sl_total s"
    using block_alloc_ok [OF inv2] by (auto cong: option.case_cong)
  show ?thesis
  proof (cases r)
    case None
    then have "t = ?s" "free_entries s (hd bs) = 0" using r(2) by simp_all
    moreover from this have "alloc_entry s = Some (Inr None, ?s)" using r(1) None ab(3) by (simp add: alloc_entry_def)
    ultimately show ?thesis using ab(4) inv2 set2
      by (intro exI [of _ None] exI [of _ ?s] exI [of _ "bs @ as"]) simp
  next
    case (Some a)
    then have "alloc_entry s = Some (Inr (Some a), t\<lparr>sl_total := sl_total s - 1\<rparr>)"
      using r ab(3) by (simp add: alloc_entry_def)
    moreover have "allocated (t\<lparr>sl_total := sl_total s - 1\<rparr>) = allocated t" by (simp add: allocated_def)
    ultimately show ?thesis using r(2) Some set2
      by (intro exI [of _ "Some a"] exI [of _ "t\<lparr>sl_total := sl_total s - 1\<rparr>"] exI [of _ "bs @ as"]) simp
  qed
qed


section \<open>Blocks come and go\<close>

text \<open>What the entries of a state depend on, apart from the links of the blocks.\<close>

definition contents :: "slab \<Rightarrow> addr \<Rightarrow> (addr \<times> bool list) option" where
  "contents s b = map_option (\<lambda>x. (sb_avail x, sb_state x)) (sl_blocks s b)"

definition same_cfg :: "slab \<Rightarrow> slab \<Rightarrow> bool" where
  "same_cfg s t \<longleftrightarrow> sl_size t = sl_size s \<and> sl_block_size t = sl_block_size s \<and> sl_per_block t = sl_per_block s \<and>
     sl_entry t = sl_entry s"

lemma same_cfgD:
  assumes "same_cfg s t"
  shows "cfg_ok t = cfg_ok s" "apart t = apart s" "slab_entry t = slab_entry s" "entry_data t = entry_data s"
  using assms by (auto simp: same_cfg_def cfg_ok_def apart_def entry_data_def fun_eq_iff slab_entry_def)

lemma contents_free: "contents t b = contents s c \<Longrightarrow> free_entries t b = free_entries s c"
  by (auto simp: contents_def free_entries_def split: option.splits)

lemma contents_block_ok:
  assumes "same_cfg s t" "contents t b = contents s b" "sl_blocks t b = Some y"
    "\<And>x. sl_blocks s b = Some x \<Longrightarrow> block_ok s b x"
  shows "block_ok t b y"
proof -
  obtain x where x: "sl_blocks s b = Some x" "sb_avail y = sb_avail x" "sb_state y = sb_state x"
    using assms(2,3) by (cases "sl_blocks s b") (auto simp: contents_def)
  then show ?thesis using assms(1) assms(4) [OF x(1)] same_cfgD(3) [OF assms(1)]
    by (simp add: block_ok_def) (simp add: same_cfg_def)
qed

lemma contents_used: "(b, i) \<in> used_entries s \<longleftrightarrow> (\<exists>a st. contents s b = Some (a, st) \<and> i < length st \<and> st ! i)"
  by (auto simp: used_entries_def contents_def)

lemma insert_sb_ring_ok:
  assumes inv: "slab_inv s ring" and b: "b \<notin> set ring" "b \<noteq> 0" "unat b + unat (sl_block_size s) < 2 ^ 64"
    "\<forall>a \<in> set ring. apart s a b"
  shows "\<exists>t. insert_sb_ring b (construct_block b s) = Some t \<and> slab_inv t (sl_curr s # b # tl ring) \<and>
    allocated t = allocated s \<and> free_entries t b = unat (sl_per_block s)"
proof -
  note k = slab_invD [OF inv]
  obtain c rest where ring: "ring = c # rest" "sl_curr s = c" using k(8,9) by (cases ring) auto
  obtain y where y: "sl_blocks s c = Some y" using k(11) [of c] ring by auto
  have bn: "sl_blocks s b = None" using k(11) [of b] b(1) by auto
  have cb: "c \<noteq> b" using ring b(1) by auto
  let ?n = "sb_next y"
  have n: "?n = hd (rest @ [c])" using next_in_ring [of s "[]" c rest y] inv ring y by simp
  have nr: "?n \<in> set ring" using n ring by (cases rest) auto
  then obtain z where z: "sl_blocks s ?n = Some z" using k(11) by blast
  have nb: "?n \<noteq> b" using nr b(1) by auto
  let ?x = "\<lparr>sb_next = ?n, sb_prev = c, sb_avail = sl_per_block s, sb_state = replicate (unat (sl_per_block s)) False\<rparr>"
  let ?z = "z\<lparr>sb_prev := b\<rparr>"
  let ?y = "if ?n = c then ?z\<lparr>sb_next := b\<rparr> else y\<lparr>sb_next := b\<rparr>"
  define t where "t = (s\<lparr>sl_blocks := (sl_blocks s)(b := Some ?x, ?n := Some ?z, c := Some ?y)\<rparr>)
    \<lparr>sl_total := sl_total s + sl_per_block s, sl_num := sl_num s + 1\<rparr>"
  have t: "insert_sb_ring b (construct_block b s) = Some t"
    using y z bn cb nb ring(2) by (auto simp: insert_sb_ring_def construct_block_def set_block_def t_def fun_upd_twist)
  have links: "nx t = (nx s)(b := ?n, c := b)" "pv t = (pv s)(b := c, ?n := b)"
    using y z bn cb nb by (auto simp: t_def nx_def pv_def fun_eq_iff)
  have cfg: "same_cfg s t" by (simp add: same_cfg_def t_def)
  have con: "contents t d = (if d = b then Some (sl_per_block s, replicate (unat (sl_per_block s)) False) else contents s d)" for d
    using y z bn cb nb by (auto simp: t_def contents_def)
  have dom: "dom (sl_blocks t) = set (c # b # rest)"
    using k(2) ring nr by (auto simp: t_def ring_ok_def)
  have "chain (nx s) (pv s) (rest @ [c])" using k(10) ring by (cases rest) simp_all
  moreover have "chain (nx t) (pv t) (rest @ [c]) = chain (nx s) (pv s) (rest @ [c])"
  proof (rule ring_cong)
    fix d assume "d \<in> set (butlast (rest @ [c]))"
    then show "nx t d = nx s d" using k(7) ring b(1) by (auto simp: links)
  next
    fix d assume d: "d \<in> set (tl (rest @ [c]))"
    then have "d \<noteq> ?n \<and> d \<noteq> b" using k(7) ring b(1) n by (cases rest) auto
    then show "pv t d = pv s d" by (simp add: links)
  qed
  ultimately have "chain (nx t) (pv t) (c # b # rest @ [c])"
    using n nb cb by (cases rest) (simp_all add: links)
  then have "ring_ok t (c # b # rest)"
    using k(7) ring b(1) dom by (auto simp: ring_ok_def t_def)
  moreover have "block_ok t d x" if "sl_blocks t d = Some x" for d x
  proof (cases "d = b")
    case True
    then have "x = ?x" using that cb nb by (simp add: t_def)
    moreover have "count_list (replicate m False) False = m" for m by (induction m) simp_all
    ultimately show ?thesis using True b(2,3) by (simp add: block_ok_def) (simp add: t_def)
  next
    case False
    then show ?thesis using contents_block_ok [OF cfg _ that] con [of d] k(3) by auto
  qed
  moreover have "\<forall>a \<in> set (c # b # rest). \<forall>d \<in> set (c # b # rest). a \<noteq> d \<longrightarrow> apart t a d"
    using k(4) b(4) ring same_cfgD(2) [OF cfg] by (auto simp: apart_def)
  moreover have "(\<Sum>d \<in> set (c # b # rest). free_entries t d) = unat (sl_per_block s) + (\<Sum>d \<in> set ring. free_entries s d)"
  proof -
    have fb: "free_entries t b = unat (sl_per_block s)"
    proof -
      have "count_list (replicate m False) False = m" for m by (induction m) simp_all
      moreover have "sl_blocks t b = Some ?x" using cb nb by (simp add: t_def)
      ultimately show ?thesis by (simp add: free_entries_def)
    qed
    have "set (c # b # rest) = insert b (set ring)" using ring by auto
    then have "(\<Sum>d \<in> set (c # b # rest). free_entries t d) = free_entries t b + (\<Sum>d \<in> set ring. free_entries t d)"
      using b(1) by simp
    moreover have "(\<Sum>d \<in> set ring. free_entries t d) = (\<Sum>d \<in> set ring. free_entries s d)"
      by (rule sum.cong [OF refl], rule contents_free) (use con b(1) in auto)
    ultimately show ?thesis using fb by simp
  qed
  ultimately have inv': "slab_inv t (c # b # rest)"
    using k(1,5,6) same_cfgD(1) [OF cfg] ring by (simp add: slab_inv_def) (simp add: t_def)
  have "used_entries t = used_entries s"
    using con bn by (auto simp: contents_used) (auto simp: contents_def split: if_splits)
  then have "allocated t = allocated s" using same_cfgD(4) [OF cfg] by (simp add: allocated_def)
  moreover have "free_entries t b = unat (sl_per_block s)"
  proof -
    have "count_list (replicate m False) False = m" for m by (induction m) simp_all
    moreover have "sl_blocks t b = Some ?x" using cb nb by (simp add: t_def)
    ultimately show ?thesis by (simp add: free_entries_def)
  qed
  ultimately show ?thesis using t inv' ring by auto
qed


lemma snoc_split: "xs \<noteq> [] \<Longrightarrow> xs @ ys = butlast xs @ last xs # ys"
  by (induction xs) auto

lemma free_curr_ok:
  assumes inv: "slab_inv s (c # d # rest)"
  shows "\<exists>t. free_curr_sb s = Some t \<and> slab_inv t (d # rest) \<and> sl_per_block t = sl_per_block s \<and>
    sl_initial t = sl_initial s \<and> sl_backed t = sl_backed s \<and> used_entries t = used_entries s - {c} \<times> UNIV \<and> entry_data t = entry_data s"
proof -
  note k = slab_invD [OF inv]
  have cur: "sl_curr s = c" using k(9) by simp
  obtain x where x: "sl_blocks s c = Some x" using k(11) [of c] by auto
  have nd: "sb_next x = d" using next_in_ring [of s "[]" c "d # rest" x] inv x by simp
  let ?p = "last (d # rest)"
  have "chain (nx s) (pv s) (butlast (c # d # rest) @ last (c # d # rest) # [c])"
    using k(10) by (simp only: list.sel snoc_split [OF list.distinct(2)])
  then have "chain (nx s) (pv s) (butlast (c # d # rest) @ ?p # [c])" by simp
  then have "pv s c = ?p" using ring_append [of "nx s" "pv s" "butlast (c # d # rest)" ?p "[c]"] by simp
  then have p: "sb_prev x = ?p" using x by (simp add: pv_def)
  have pr: "?p \<in> set (d # rest)" by (rule last_in_set) simp
  obtain y where y: "sl_blocks s ?p = Some y" using k(11) [of ?p] pr by auto
  obtain z where z: "sl_blocks s d = Some z" using k(11) [of d] by auto
  have cd: "c \<noteq> d" "c \<noteq> ?p" using k(7) pr by auto
  let ?y = "y\<lparr>sb_next := d\<rparr>"
  let ?z = "if ?p = d then ?y\<lparr>sb_prev := ?p\<rparr> else z\<lparr>sb_prev := ?p\<rparr>"
  define t where "t = (s\<lparr>sl_curr := d, sl_blocks := (sl_blocks s)(?p := Some ?y, d := Some ?z, c := None),
    sl_total := sl_total s - sb_avail x, sl_num := sl_num s - 1\<rparr>)"
  have two: "\<not> sl_num s \<le> 1" using num_blocks [OF inv] by (simp add: word_le_nat_alt)
  have t: "free_curr_sb s = Some t"
    using x y z cd p nd two cur
    by (auto simp: free_curr_sb_def release_backing_store_def set_block_def t_def Let_def)
  have links: "nx t = (nx s)(?p := d, c := 0)" "pv t = (pv s)(d := ?p, c := 0)"
    using x y z cd by (auto simp: t_def nx_def pv_def fun_eq_iff)
  have cfg: "same_cfg s t" by (simp add: same_cfg_def t_def)
  have con: "contents t b = (if b = c then None else contents s b)" for b
    using x y z cd by (auto simp: t_def contents_def)
  have dom: "dom (sl_blocks t) = set (d # rest)"
  proof -
    have "dom (sl_blocks s) = set (c # d # rest)" using k(2) by (simp add: ring_ok_def)
    then have "dom (sl_blocks t) = set (c # d # rest) - {c}" using pr cd by (auto simp: t_def)
    then show ?thesis using k(7) by auto
  qed
  have "chain (nx s) (pv s) (d # rest)"
    using k(10) ring_front [of "nx s" "pv s" "d # rest" c] by simp
  moreover have "chain (nx t) (pv t) (d # rest) = chain (nx s) (pv s) (d # rest)"
  proof (rule ring_cong)
    fix b assume b: "b \<in> set (butlast (d # rest))"
    have "distinct (butlast (d # rest) @ [?p])" by (subst append_butlast_last_id) (use k(7) in simp_all)
    then have "b \<noteq> ?p \<and> b \<noteq> c" using b k(7) in_set_butlastD [OF b] by auto
    then show "nx t b = nx s b" by (simp add: links)
  next
    fix b assume "b \<in> set (tl (d # rest))"
    then show "pv t b = pv s b" using k(7) by (auto simp: links)
  qed
  ultimately have "chain (nx t) (pv t) (butlast (d # rest) @ [?p])" by simp
  then have "chain (nx t) (pv t) (butlast (d # rest) @ ?p # [d])"
    using cd ring_append [of "nx t" "pv t" "butlast (d # rest)" ?p "[d]"] by (simp add: links)
  then have "chain (nx t) (pv t) ((d # rest) @ [d])"
    by (simp only: snoc_split [OF list.distinct(2)])
  then have "ring_ok t (d # rest)" using k(7) dom by (auto simp: ring_ok_def t_def)
  moreover have "block_ok t b v" if "sl_blocks t b = Some v" for b v
  proof -
    have "b \<noteq> c" using that by (auto simp: t_def)
    then show ?thesis using contents_block_ok [OF cfg _ that] con [of b] k(3) by auto
  qed
  moreover have "\<forall>a \<in> set (d # rest). \<forall>b \<in> set (d # rest). a \<noteq> b \<longrightarrow> apart t a b"
    using k(4) same_cfgD(2) [OF cfg] by auto
  moreover have "sl_total t = of_nat (\<Sum>b \<in> set (d # rest). free_entries t b)"
  proof -
    have "(\<Sum>b \<in> set (d # rest). free_entries t b) = (\<Sum>b \<in> set (d # rest). free_entries s b)"
      by (rule sum.cong [OF refl], rule contents_free) (use con k(7) in auto)
    moreover have "set (c # d # rest) = insert c (set (d # rest))" by simp
    then have "(\<Sum>b \<in> set (c # d # rest). free_entries s b) =
        count_list (sb_state x) False + (\<Sum>b \<in> set (d # rest). free_entries s b)"
      using k(7) x by (simp add: free_entries_def)
    moreover have "sl_total t = sl_total s - sb_avail x" by (simp add: t_def)
    ultimately show ?thesis unfolding k(5) block_okD(4) [OF k(3) [OF x]] by simp
  qed
  moreover have "sl_num t = of_nat (length (d # rest))" using k(6) by (simp add: t_def)
  ultimately have "slab_inv t (d # rest)"
    using k(1) same_cfgD(1) [OF cfg] unfolding slab_inv_def by blast
  moreover have "used_entries t = used_entries s - {c} \<times> UNIV"
    using con by (auto simp: contents_used split: if_splits)
  moreover have "sl_per_block t = sl_per_block s \<and> sl_initial t = sl_initial s \<and> sl_backed t = sl_backed s"
    by (simp add: t_def)
  ultimately show ?thesis using t same_cfgD(4) [OF cfg] by (intro exI [of _ t] conjI) simp_all
qed



section \<open>The operations\<close>

definition slab_ok :: "slab \<Rightarrow> bool" where
  "slab_ok s \<longleftrightarrow> (\<exists>ring. slab_inv s ring)"

lemma count_full: "count_list xs v = length xs \<Longrightarrow> i < length xs \<Longrightarrow> xs ! i = v"
proof (induction xs arbitrary: i)
  case (Cons x xs)
  then show ?case using count_le_length [of xs v] by (cases i) (auto split: if_splits)
qed simp

lemma release_free_ok:
  "slab_inv s ring \<Longrightarrow> \<exists>t ring'. release_free s = Some t \<and> slab_inv t ring' \<and> allocated t = allocated s"
proof (induction "length ring" arbitrary: s ring rule: less_induct)
  case less
  note k = slab_invD [OF less.prems]
  obtain x where x: "sl_blocks s (sl_curr s) = Some x" using k(8,9,11) by (metis list.set_sel(1))
  show ?case
  proof (cases "sl_total s > 2 * sl_per_block s \<and> sl_num s > 1 \<and> sb_avail x = sl_per_block s")
    case False
    then have "release_free s = Some s" using x by (subst release_free.simps) auto
    then show ?thesis using less.prems by blast
  next
    case True
    have "1 < length ring" using True num_blocks [OF less.prems] by (simp add: word_less_nat_alt)
    then obtain c d rest where ring: "ring = c # d # rest" by (cases ring; cases "tl ring") auto
    have cur: "sl_curr s = c" using k(9) ring by simp
    obtain t where t: "free_curr_sb s = Some t" "slab_inv t (d # rest)"
        "used_entries t = used_entries s - {c} \<times> UNIV" "entry_data t = entry_data s"
      using free_curr_ok [OF less.prems [unfolded ring]] by blast
    have "count_list (sb_state x) False = length (sb_state x)"
      using True count_le_per_block [OF k(1) k(3) [OF x]] block_okD(3) [OF k(3) [OF x]] by simp
    then have "(c, i) \<notin> used_entries s" for i
      using x cur count_full [of "sb_state x" False i] by (auto simp: used_entries_def)
    then have "used_entries s - {c} \<times> UNIV = used_entries s" by auto
    then have al: "allocated t = allocated s" using t(3,4) by (simp add: allocated_def)
    have "release_free s = release_free t" using True x t(1) by (subst release_free.simps) simp
    then show ?thesis using less.hyps [OF _ t(2)] ring al by auto
  qed
qed

lemma free_update_ok:
  assumes inv: "slab_inv s ring" and x: "sl_blocks s b = Some x" and i: "i < length (sb_state x)" "sb_state x ! i"
  shows "\<exists>t. inc_avail b i s = Some t \<and> slab_inv (t\<lparr>sl_total := sl_total t + 1\<rparr>) ring \<and>
    used_entries t = used_entries s - {(b, i)} \<and> entry_data t = entry_data s"
proof -
  note k = slab_invD [OF inv]
  let ?x = "x\<lparr>sb_state := (sb_state x)[i := False], sb_avail := sb_avail x + 1\<rparr>"
  let ?t = "set_block b ?x s"
  have t: "inc_avail b i s = Some ?t" using x i by (simp add: inc_avail_def)
  have cnt: "count_list ((sb_state x)[i := False]) False = count_list (sb_state x) False + 1"
    using count_list_upd [of i "sb_state x" False False] i by simp
  have "slab_inv (?t\<lparr>sl_entry := sl_entry s, sl_total := sl_total s + 1\<rparr>) ring"
  proof (rule slab_inv_update [OF inv x])
    show "sb_avail ?x = of_nat (count_list (sb_state ?x) False)"
      using block_okD(4) [OF k(3) [OF x]] cnt by simp
    show "sl_entry s (slab_entry s b j) = Some b" if "j < length (sb_state ?x)" "sb_state ?x ! j" for j
      using that block_okD(5) [OF k(3) [OF x], of j] by (cases "j = i") simp_all
    show "sl_total s + 1 + of_nat (count_list (sb_state x) False) = sl_total s + of_nat (count_list (sb_state ?x) False)"
      using cnt by simp
  qed simp_all
  moreover have "?t\<lparr>sl_entry := sl_entry s, sl_total := sl_total s + 1\<rparr> = ?t\<lparr>sl_total := sl_total ?t + 1\<rparr>"
    by (simp add: set_block_def)
  moreover have "used_entries ?t = used_entries s - {(b, i)}"
    using used_entries_set [of s b x i ?x False] x i by simp
  ultimately show ?thesis using t by (intro exI [of _ ?t] conjI) simp_all
qed

lemma slab_free_ok:
  assumes inv: "slab_inv s ring" and a: "a \<in> allocated s"
  shows "\<exists>t ring'. slab_free_entry a s = Some t \<and> slab_inv t ring' \<and> allocated t = allocated s - {a}"
proof -
  note k = slab_invD [OF inv]
  obtain b i where bi: "(b, i) \<in> used_entries s" "a = entry_data s (b, i)" using a by (auto simp: allocated_def)
  then obtain x where x: "sl_blocks s b = Some x" "i < length (sb_state x)" "sb_state x ! i"
    by (auto simp: used_entries_def)
  note B = block_okD [OF k(3) [OF x(1)]]
  have i: "i < unat (sl_per_block s)" using x(2) B(3) by simp
  note f = entry_fits [OF k(1) B(2) i]
  have ae: "a = slab_entry s b i + SIZEOF_ENTRY" using bi(2) by (simp add: entry_data_def)
  have e: "a - SIZEOF_ENTRY = slab_entry s b i" using ae by simp
  have "unat a = unat b + (entries_offset s + (unat (sl_size s) + 8) * i + 8)"
    using f B(2) by (simp add: ae SIZEOF_ENTRY_def unat_add_no_wrap)
  moreover have "unat (b + SIZEOF_BLOCK) = unat b + 32" "unat (b + sl_block_size s) = unat b + unat (sl_block_size s)"
    using B(2) f(2,3) by (simp_all add: SIZEOF_BLOCK_def unat_add_no_wrap)
  ultimately have rng: "a \<noteq> 0" "\<not> a < b + SIZEOF_BLOCK" "\<not> b + sl_block_size s \<le> a"
    using f(2,3) by (auto simp: word_less_nat_alt word_le_nat_alt)
  obtain t where t: "inc_avail b i s = Some t" "slab_inv (t\<lparr>sl_total := sl_total t + 1\<rparr>) ring"
      "used_entries t = used_entries s - {(b, i)}" "entry_data t = entry_data s"
    using free_update_ok [OF inv x] by blast
  obtain as bs where ring: "ring = as @ b # bs" using k(11) [of b] x(1) by (meson split_list)
  have tot: "sl_total t = sl_total s" using t(1) by (auto simp: inc_avail_def set_block_def split: bind_splits if_splits)
  have inv2: "slab_inv (t\<lparr>sl_total := sl_total s + 1, sl_curr := b\<rparr>) (b # bs @ as)"
    using slab_inv_rotate [of "t\<lparr>sl_total := sl_total t + 1\<rparr>" as "b # bs"] t(2) ring tot by simp
  have "slab_free_entry a s = release_free (t\<lparr>sl_total := sl_total s + 1, sl_curr := b\<rparr>)"
    using rng e x B(5) [OF x(2,3)] entry_idx [OF k(1) B(2) i] t(1) tot
    by (simp add: slab_free_entry_def entry_used_def)
  moreover obtain u ring' where "release_free (t\<lparr>sl_total := sl_total s + 1, sl_curr := b\<rparr>) = Some u" "slab_inv u ring'"
      "allocated u = allocated t"
    using release_free_ok [OF inv2] by (auto simp: allocated_def)
  moreover have "allocated t = allocated s - {a}"
  proof -
    have "allocated t = entry_data s ` (used_entries s - {(b, i)})" by (simp add: allocated_def t(3,4))
    also have "\<dots> = allocated s - {a}"
      using inj_on_image_set_diff [OF entry_data_inj_on [OF inv], of "used_entries s" "{(b, i)}"] bi
      by (auto simp: allocated_def used_entries_def)
    finally show ?thesis .
  qed
  ultimately show ?thesis by auto
qed


text \<open>The chunks of different entries do not overlap.\<close>

lemma chunks_disjoint:
  assumes inv: "slab_inv s ring" and a: "a \<in> allocated s" "c \<in> allocated s" "a \<noteq> c"
  shows "unat a + unat (sl_size s) \<le> unat c \<or> unat c + unat (sl_size s) \<le> unat a"
proof -
  note k = slab_invD [OF inv]
  obtain b i d j where e: "(b, i) \<in> used_entries s" "a = entry_data s (b, i)" "(d, j) \<in> used_entries s" "c = entry_data s (d, j)"
    using a(1,2) by (auto simp: allocated_def)
  obtain x y where x: "sl_blocks s b = Some x" "i < length (sb_state x)" and y: "sl_blocks s d = Some y" "j < length (sb_state y)"
    using e by (auto simp: used_entries_def)
  note B = block_okD [OF k(3) [OF x(1)]] and D = block_okD [OF k(3) [OF y(1)]]
  have i: "i < unat (sl_per_block s)" and j: "j < unat (sl_per_block s)" using x(2) y(2) B(3) D(3) by simp_all
  note f = entry_fits [OF k(1) B(2) i] and g = entry_fits [OF k(1) D(2) j]
  have ua: "unat a = unat b + (entries_offset s + (unat (sl_size s) + 8) * i + 8)"
    using f B(2) by (simp add: e(2) entry_data_def SIZEOF_ENTRY_def unat_add_no_wrap)
  have uc: "unat c = unat d + (entries_offset s + (unat (sl_size s) + 8) * j + 8)"
    using g D(2) by (simp add: e(4) entry_data_def SIZEOF_ENTRY_def unat_add_no_wrap)
  show ?thesis
  proof (cases "b = d")
    case True
    then consider "i < j" | "j < i" using a(3) e by (metis linorder_neqE_nat)
    then show ?thesis
    proof cases
      case 1
      then have "(unat (sl_size s) + 8) * (i + 1) \<le> (unat (sl_size s) + 8) * j" by (intro mult_le_mono) simp_all
      then show ?thesis using ua uc True by simp
    next
      case 2
      then have "(unat (sl_size s) + 8) * (j + 1) \<le> (unat (sl_size s) + 8) * i" by (intro mult_le_mono) simp_all
      then show ?thesis using ua uc True by simp
    qed
  next
    case False
    then have "apart s b d" using k(4) k(11) x(1) y(1) by blast
    then show ?thesis using ua uc f(2,3) g(2,3) unfolding apart_def by linarith
  qed
qed

lemma nested_upd [simp]:
  "slab_inv (s\<lparr>sl_nested := n\<rparr>) ring = slab_inv s ring" "allocated (s\<lparr>sl_nested := n\<rparr>) = allocated s"
  "free_entries (s\<lparr>sl_nested := n\<rparr>) = free_entries s" "apart (s\<lparr>sl_nested := n\<rparr>) = apart s"
proof -
  show f: "free_entries (s\<lparr>sl_nested := n\<rparr>) = free_entries s" by (simp add: free_entries_def fun_eq_iff)
  show a: "apart (s\<lparr>sl_nested := n\<rparr>) = apart s" by (simp add: apart_def fun_eq_iff)
  show "allocated (s\<lparr>sl_nested := n\<rparr>) = allocated s" by (simp add: allocated_def)
  have "nx (s\<lparr>sl_nested := n\<rparr>) = nx s" "pv (s\<lparr>sl_nested := n\<rparr>) = pv s"
    by (simp_all add: nx_def pv_def fun_eq_iff)
  moreover have "block_ok (s\<lparr>sl_nested := n\<rparr>) = block_ok s" by (simp add: block_ok_def fun_eq_iff)
  ultimately show "slab_inv (s\<lparr>sl_nested := n\<rparr>) ring = slab_inv s ring"
    by (simp add: slab_inv_def ring_ok_def f a)
qed

text \<open>
  The backing store may use the slab itself in the meantime; it keeps the slab in order and returns
  memory for a block that is not in use.
\<close>

definition needs_block :: "slab \<Rightarrow> bool" where
  "needs_block s \<longleftrightarrow> sl_backed s \<and> sl_total s \<le> 3 \<and> \<not> sl_nested s"

definition after_backing :: "'e backing \<Rightarrow> slab \<Rightarrow> slab" where
  "after_backing bs s = (if needs_block s then snd (bs (s\<lparr>sl_nested := True\<rparr>)) else s)"

definition backing_ok :: "'e backing \<Rightarrow> slab \<Rightarrow> bool" where
  "backing_ok bs s \<longleftrightarrow> (let t = snd (bs (s\<lparr>sl_nested := True\<rparr>)) in
     slab_ok t \<and> sl_size t = sl_size s \<and>
     (\<forall>b. fst (bs (s\<lparr>sl_nested := True\<rparr>)) = Inr (Some b) \<longrightarrow>
        b \<noteq> 0 \<and> unat b + unat (sl_block_size t) < 2 ^ 64 \<and> sl_blocks t b = None \<and>
        (\<forall>a. sl_blocks t a \<noteq> None \<longrightarrow> apart t a b)))"

definition none_free :: "slab \<Rightarrow> bool" where
  "none_free s \<longleftrightarrow> (\<forall>b. free_entries s b = 0)"

lemma alloc_entry_slab_ok:
  assumes "slab_ok s"
  shows "\<exists>r t. alloc_entry s = Some (Inr r, t) \<and> slab_ok t \<and> (case r of
      None \<Rightarrow> allocated t = allocated s \<and> none_free s
    | Some a \<Rightarrow> a \<notin> allocated s \<and> allocated t = insert a (allocated s))"
proof -
  obtain ring where inv: "slab_inv s ring" using assms by (auto simp: slab_ok_def)
  have "free_entries s b = 0" if "b \<notin> set ring" for b
    using that slab_invD(11) [OF inv, of b] by (cases "sl_blocks s b") (auto simp: free_entries_def)
  then have "none_free s" if "\<forall>b \<in> set ring. free_entries s b = 0" using that by (auto simp: none_free_def)
  then show ?thesis using alloc_entry_ok [OF inv] unfolding slab_ok_def
    by (elim exE conjE) (rule exI, rule exI, rule conjI, assumption, auto split: option.splits)
qed

text \<open>
  C27 An allocation from the slab hands out memory that no other entry uses, also when the
  backing store uses the slab while it provides a new block: the new entry is the only change.  It fails
  without a change only if the size is too large, the backing store fails, or all entries are used.
\<close>

theorem slab_alloc_correct:
  fixes bs :: "'e backing"
  assumes "slab_ok s" "backing_ok bs s"
  shows "\<exists>r t. slab_alloc bs sz s = Some (r, t) \<and> slab_ok t \<and> (case r of
      Inr (Some a) \<Rightarrow> a \<notin> allocated (after_backing bs s) \<and> allocated t = insert a (allocated (after_backing bs s)) \<and>
        (\<forall>c \<in> allocated t. c \<noteq> a \<longrightarrow> unat a + unat (sl_size t) \<le> unat c \<or> unat c + unat (sl_size t) \<le> unat a)
    | Inr None \<Rightarrow> sz > sl_size s \<and> allocated t = allocated s \<or>
        (allocated t = allocated (after_backing bs s) \<and>
         (needs_block s \<and> fst (bs (s\<lparr>sl_nested := True\<rparr>)) = Inr None \<or> none_free (after_backing bs s)))
    | Inl e \<Rightarrow> needs_block s \<and> fst (bs (s\<lparr>sl_nested := True\<rparr>)) = Inl e \<and> allocated t = allocated (after_backing bs s))"
proof -
  have disj: "\<forall>c \<in> allocated t. c \<noteq> a \<longrightarrow> unat a + unat (sl_size t) \<le> unat c \<or> unat c + unat (sl_size t) \<le> unat a"
    if "slab_ok t" "a \<in> allocated t" for t a
    using that chunks_disjoint unfolding slab_ok_def by metis
  let ?outcome = "\<lambda>u r t. slab_ok t \<and> (case r of
      Inr (Some a) \<Rightarrow> a \<notin> allocated u \<and> allocated t = insert a (allocated u) \<and>
        (\<forall>c \<in> allocated t. c \<noteq> a \<longrightarrow> unat a + unat (sl_size t) \<le> unat c \<or> unat c + unat (sl_size t) \<le> unat a)
    | Inr None \<Rightarrow> allocated t = allocated u \<and> none_free u | Inl e \<Rightarrow> False)"
  have entry: "\<exists>r t. (alloc_entry u :: (('e + addr option) \<times> slab) option) = Some (r, t) \<and> ?outcome u r t"
    if u: "slab_ok u" for u
  proof -
    obtain r t where r: "(alloc_entry u :: (('e + addr option) \<times> slab) option) = Some (Inr r, t)" "slab_ok t" "case r of
        None \<Rightarrow> allocated t = allocated u \<and> none_free u
      | Some a \<Rightarrow> a \<notin> allocated u \<and> allocated t = insert a (allocated u)"
      using alloc_entry_slab_ok [OF u] by blast
    then show ?thesis using disj [OF r(2)] by (intro exI [of _ "Inr r"] exI [of _ t]) (auto split: option.splits)
  qed
  show ?thesis
  proof (cases "sz > sl_size s")
    case True
    then show ?thesis using assms(1) by (simp add: slab_alloc_def)
  next
    case size: False
    show ?thesis
    proof (cases "needs_block s")
      case False
      then have "slab_alloc bs sz s = alloc_entry s" "after_backing bs s = s"
        using size by (auto simp: slab_alloc_def needs_block_def after_backing_def)
      moreover obtain r t where "(alloc_entry s :: (('e + addr option) \<times> slab) option) = Some (r, t)" "?outcome s r t"
        using entry [OF assms(1)] by blast
      ultimately show ?thesis using False
        by (intro exI [of _ r] exI [of _ t]) (cases r; simp split: option.splits)
    next
      case True
      obtain q u where q: "bs (s\<lparr>sl_nested := True\<rparr>) = (q, u)" by (cases "bs (s\<lparr>sl_nested := True\<rparr>)")
      have u: "slab_ok u" "after_backing bs s = u" using assms(2) q True by (auto simp: backing_ok_def after_backing_def Let_def)
      have bk: "sl_backed (s\<lparr>sl_nested := True\<rparr>)" using True by (simp add: needs_block_def)
      consider (exc) e where "q = Inl e" | (none) "q = Inr None" | (block) b where "q = Inr (Some b)"
        by (metis old.sum.exhaust option.exhaust)
      then show ?thesis
      proof cases
        case exc
        then have "slab_alloc bs sz s = Some (Inl e, u\<lparr>sl_nested := False\<rparr>)"
          using size True q bk by (auto simp: slab_alloc_def needs_block_def new_slab_block_def)
        then show ?thesis using u exc q True by (auto simp: slab_ok_def)
      next
        case none
        then have "slab_alloc bs sz s = Some (Inr None, u\<lparr>sl_nested := False\<rparr>)"
          using size True q bk by (auto simp: slab_alloc_def needs_block_def new_slab_block_def)
        then show ?thesis using u none q True by (auto simp: slab_ok_def)
      next
        case (block b)
        have bo: "b \<noteq> 0" "unat b + unat (sl_block_size u) < 2 ^ 64" "sl_blocks u b = None"
          "\<forall>a. sl_blocks u a \<noteq> None \<longrightarrow> apart u a b"
          using assms(2) q block by (auto simp: backing_ok_def Let_def)
        let ?u = "u\<lparr>sl_nested := False\<rparr>"
        obtain ring where inv: "slab_inv ?u ring" using u(1) by (auto simp: slab_ok_def)
        have "b \<notin> set ring" using slab_invD(11) [OF inv, of b] bo(3) by simp
        moreover have "\<forall>a \<in> set ring. apart ?u a b" using slab_invD(11) [OF inv] bo(4) by fastforce
        ultimately obtain v where v: "insert_sb_ring b (construct_block b ?u) = Some v" "slab_ok v" "allocated v = allocated u"
            "free_entries v b = unat (sl_per_block ?u)"
          using insert_sb_ring_ok [OF inv, of b] bo(1,2) unfolding slab_ok_def by auto
        have "(construct_block b u)\<lparr>sl_nested := False\<rparr> = construct_block b ?u"
          by (simp add: construct_block_def set_block_def)
        then have "slab_alloc bs sz s = alloc_entry v"
          using size True q bk block v(1) by (auto simp: slab_alloc_def needs_block_def new_slab_block_def)
        moreover have "\<not> none_free v" using v(4) cfg_room(2) [OF slab_invD(1) [OF inv]]
          unfolding none_free_def by (intro notI, elim allE [of _ b]) simp
        moreover obtain r t where "(alloc_entry v :: (('e + addr option) \<times> slab) option) = Some (r, t)" "?outcome v r t"
          using entry [OF v(2)] by blast
        ultimately show ?thesis using v(3) u(2)
          by (intro exI [of _ r] exI [of _ t]) (cases r; simp split: option.splits)
      qed
    qed
  qed
qed

text \<open>
  Freeing an entry of the slab ends, takes exactly this entry out of use, and keeps the
  ring and the counters in order, also when it gives blocks back to the backing store.
\<close>

theorem slab_free_correct:
  assumes "slab_ok s" "a \<in> allocated s"
  shows "\<exists>t. slab_free_entry a s = Some t \<and> slab_ok t \<and> allocated t = allocated s - {a}"
  using slab_free_ok assms unfolding slab_ok_def by blast



section \<open>Construction, and a concrete slab\<close>

lemma slab_new_ok:
  assumes cfg: "40 \<le> unat B" "unat B < 2 ^ 31" "unat z < 2 ^ 31" "(B - SIZEOF_BLOCK - 8) div (z + SIZEOF_ENTRY + 1) \<noteq> 0"
    and b: "b \<noteq> 0" "unat b + unat B < 2 ^ 64"
  shows "\<exists>s. slab_new z B b backed bs = Inr (Some s) \<and> slab_ok s \<and> allocated s = {} \<and> sl_curr s = b \<and>
    sl_size s = z \<and> sl_block_size s = B \<and> sl_backed s = backed \<and> \<not> sl_nested s \<and> free_entries s b = unat (sl_per_block s)"
proof -
  define n where "n = (B - SIZEOF_BLOCK - 8) div (z + SIZEOF_ENTRY + 1)"
  define s where "s = \<lparr>sl_size = z, sl_block_size = B, sl_per_block = n, sl_initial = b, sl_nested = False,
    sl_num = 1, sl_total = n, sl_curr = b, sl_backed = backed,
    sl_blocks = [b \<mapsto> \<lparr>sb_next = b, sb_prev = b, sb_avail = n, sb_state = replicate (unat n) False\<rparr>], sl_entry = (\<lambda>_. None)\<rparr>"
  have new: "slab_new z B b backed bs = Inr (Some s)"
    using b(1) by (simp add: slab_new_def s_def n_def construct_block_def set_block_def Let_def)
  have cnt: "count_list (replicate m False) False = m" for m by (induction m) simp_all
  have fe: "free_entries s b = unat n" by (simp add: free_entries_def s_def cnt)
  have c: "cfg_ok s" using cfg unfolding cfg_ok_def s_def n_def by simp
  have r: "ring_ok s [b]" by (simp add: ring_ok_def nx_def pv_def) (simp add: s_def)
  have bo: "block_ok s a x" if "sl_blocks s a = Some x" for a x
    using that b by (auto simp: s_def block_ok_def cnt split: if_splits)
  have "slab_inv s [b]" using c r bo fe by (simp add: slab_inv_def) (simp add: s_def)
  moreover have "allocated s = {}" by (auto simp: allocated_def used_entries_def s_def split: if_splits)
  moreover have "free_entries s b = unat (sl_per_block s)" using fe by (simp add: s_def)
  ultimately show ?thesis using new unfolding slab_ok_def
    by (intro exI [of _ s] conjI) (auto simp: s_def)
qed

definition demo_backing :: "unit backing" where
  "demo_backing = (\<lambda>s. (Inr None, s))"

lemma demo_slab:
  "\<exists>s. slab_new 16 4096 4096 False demo_backing = Inr (Some s) \<and> slab_ok s \<and> allocated s = {} \<and> sl_size s = 16 \<and>
    sl_backed s = False \<and> \<not> none_free s"
proof -
  have d: "(4096 - SIZEOF_BLOCK - 8) div (16 + SIZEOF_ENTRY + 1) \<noteq> (0 :: addr)"
    by (simp add: SIZEOF_BLOCK_def SIZEOF_ENTRY_def)
  obtain s where s: "slab_new 16 4096 4096 False demo_backing = Inr (Some s)" "slab_ok s" "allocated s = {}" "sl_size s = 16"
      "sl_backed s = False" "free_entries s 4096 = unat (sl_per_block s)"
    using slab_new_ok [of 4096 16 4096 False demo_backing] d by auto
  obtain ring where "slab_inv s ring" using s(2) by (auto simp: slab_ok_def)
  then have "0 < unat (sl_per_block s)" by (rule cfg_room(2) [OF slab_invD(1)])
  then have "\<not> none_free s" using s(6) unfolding none_free_def by (intro notI, elim allE [of _ 4096]) simp
  then show ?thesis using s by blast
qed

theorem slab_alloc_correct_witness:
  "\<exists>s a t. slab_new 16 4096 4096 False demo_backing = Inr (Some s) \<and>
     slab_alloc demo_backing 16 s = Some (Inr (Some a), t) \<and> slab_ok t \<and> allocated t = {a}"
proof -
  obtain s where s: "slab_new 16 4096 4096 False demo_backing = Inr (Some s)" "slab_ok s" "allocated s = {}" "sl_size s = 16"
      "sl_backed s = False" "\<not> none_free s" using demo_slab by blast
  have nb: "\<not> needs_block s" "after_backing demo_backing s = s" using s(5) by (simp_all add: needs_block_def after_backing_def)
  have "backing_ok demo_backing s" using s(2) by (auto simp: backing_ok_def demo_backing_def slab_ok_def)
  from slab_alloc_correct [OF s(2) this, of 16] obtain r t where rt: "slab_alloc demo_backing 16 s = Some (r, t)" "slab_ok t"
      "case r of Inr (Some a) \<Rightarrow> a \<notin> allocated (after_backing demo_backing s) \<and> allocated t = insert a (allocated (after_backing demo_backing s)) \<and>
        (\<forall>c \<in> allocated t. c \<noteq> a \<longrightarrow> unat a + unat (sl_size t) \<le> unat c \<or> unat c + unat (sl_size t) \<le> unat a)
    | Inr None \<Rightarrow> 16 > sl_size s \<and> allocated t = allocated s \<or>
        (allocated t = allocated (after_backing demo_backing s) \<and>
         (needs_block s \<and> fst (demo_backing (s\<lparr>sl_nested := True\<rparr>)) = Inr None \<or> none_free (after_backing demo_backing s)))
    | Inl e \<Rightarrow> needs_block s \<and> fst (demo_backing (s\<lparr>sl_nested := True\<rparr>)) = Inl e \<and> allocated t = allocated (after_backing demo_backing s)"
    by blast
  show ?thesis using s rt nb by (auto split: sum.splits option.splits)
qed

theorem slab_free_correct_witness:
  "\<exists>s a t u. slab_new 16 4096 4096 False demo_backing = Inr (Some s) \<and>
     (alloc_entry s :: ((unit + addr option) \<times> slab) option) = Some (Inr (Some a), t) \<and>
     slab_free_entry a t = Some u \<and> allocated u = {}"
proof -
  obtain s where s: "slab_new 16 4096 4096 False demo_backing = Inr (Some s)" "slab_ok s" "allocated s = {}" "\<not> none_free s"
    using demo_slab by blast
  obtain r t where rt: "(alloc_entry s :: ((unit + addr option) \<times> slab) option) = Some (Inr r, t)" "slab_ok t"
      "case r of None \<Rightarrow> allocated t = allocated s \<and> none_free s | Some a \<Rightarrow> a \<notin> allocated s \<and> allocated t = insert a (allocated s)"
    using alloc_entry_slab_ok [OF s(2)] by blast
  then obtain a where a: "r = Some a" "allocated t = {a}" using s(3,4) by (auto split: option.splits)
  then show ?thesis using slab_free_correct [OF rt(2), of a] rt(1) s(1) by auto
qed

text \<open>The remaining loops end, too.\<close>

lemma skip_unused_ok:
  assumes "slab_inv s (as @ bs)" "bs \<noteq> []" "\<exists>b \<in> set bs. free_entries s b \<noteq> unat (sl_per_block s)"
  shows "\<exists>as' bs'. as' @ bs' = as @ bs \<and> bs' \<noteq> [] \<and>
    skip_unused (s\<lparr>sl_curr := hd bs\<rparr>) = Some (s\<lparr>sl_curr := hd bs'\<rparr>) \<and>
    free_entries s (hd bs') \<noteq> unat (sl_per_block s)"
  using assms
proof (induction bs arbitrary: as)
  case (Cons b bs)
  note k = slab_invD [OF Cons.prems(1)]
  obtain x where x: "sl_blocks s b = Some x" using k(11) [of b] by auto
  have av: "sb_avail x = sl_per_block s \<longleftrightarrow> free_entries s b = unat (sl_per_block s)"
    using count_le_per_block [OF k(1) k(3) [OF x]] x word_unat_eq_iff [of "sb_avail x" "sl_per_block s"]
    by (simp add: free_entries_def)
  show ?case
  proof (cases "free_entries s b = unat (sl_per_block s)")
    case False
    then have "skip_unused (s\<lparr>sl_curr := b\<rparr>) = Some (s\<lparr>sl_curr := b\<rparr>)"
      using av x by (subst skip_unused.simps) simp
    then show ?thesis using False by (intro exI [of _ as] exI [of _ "b # bs"]) simp
  next
    case True
    then have bs: "bs \<noteq> []" "\<exists>b \<in> set bs. free_entries s b \<noteq> unat (sl_per_block s)" using Cons.prems(3) by auto
    then have "sb_next x = hd bs" using next_in_ring [OF Cons.prems(1) x] by (cases bs) simp_all
    then have "skip_unused (s\<lparr>sl_curr := b\<rparr>) = skip_unused (s\<lparr>sl_curr := hd bs\<rparr>)"
      using True av x by (subst skip_unused.simps) simp
    then show ?thesis using Cons.IH [of "as @ [b]"] Cons.prems(1) bs by simp
  qed
qed simp

text \<open>The blocks fit into the address space, so the number of entries does not wrap.\<close>

lemma total_entries:
  assumes "slab_inv s ring"
  shows "length ring * unat (sl_per_block s) < 2 ^ 64"
proof -
  note k = slab_invD [OF assms]
  let ?B = "unat (sl_block_size s)" and ?I = "\<lambda>b. {unat b ..< unat b + unat (sl_block_size s)}"
  have "(\<Union>b \<in> set ring. ?I b) \<subseteq> {..< 2 ^ 64}"
  proof
    fix v assume "v \<in> (\<Union>b \<in> set ring. ?I b)"
    then obtain b where b: "b \<in> set ring" "v < unat b + ?B" by auto
    then obtain x where "sl_blocks s b = Some x" using k(11) by blast
    then show "v \<in> {..< 2 ^ 64}" using b(2) block_okD(2) [OF k(3)] by fastforce
  qed
  then have "card (\<Union>b \<in> set ring. ?I b) \<le> card {..< 2 ^ 64 :: nat}" by (rule card_mono [rotated]) simp
  moreover have "card (\<Union>b \<in> set ring. ?I b) = (\<Sum>b \<in> set ring. card (?I b))"
  proof (rule card_UN_disjoint)
    show "\<forall>i \<in> set ring. \<forall>j \<in> set ring. i \<noteq> j \<longrightarrow> ?I i \<inter> ?I j = {}"
      using k(4) by (fastforce simp: apart_def)
  qed simp_all
  ultimately have "length ring * ?B \<le> 2 ^ 64" using distinct_card [OF k(7)] by simp
  moreover have "unat (sl_per_block s) < ?B"
  proof -
    have "unat (sl_per_block s) \<le> unat (sl_per_block s) * (unat (sl_size s) + 9)" by simp
    then show ?thesis using cfg_room(1) [OF k(1)] by linarith
  qed
  then have "length ring * unat (sl_per_block s) < length ring * ?B" using k(8) by simp
  ultimately show ?thesis by linarith
qed

lemma all_free:
  assumes inv: "slab_inv s ring"
  shows "sl_total s = sl_num s * sl_per_block s \<longleftrightarrow> (\<forall>b \<in> set ring. free_entries s b = unat (sl_per_block s))"
proof -
  note k = slab_invD [OF inv]
  let ?n = "unat (sl_per_block s)"
  have le: "free_entries s b \<le> ?n" for b
  proof (cases "sl_blocks s b")
    case (Some x)
    then show ?thesis using count_le_length [of "sb_state x" False] block_okD(3) [OF k(3) [OF Some]]
      by (simp add: free_entries_def)
  qed (simp add: free_entries_def)
  have s: "(\<Sum>b \<in> set ring. free_entries s b) \<le> length ring * ?n"
    using sum_bounded_above [of "set ring" "free_entries s" ?n] le distinct_card [OF k(7)] by simp
  have "sl_num s * sl_per_block s = of_nat (length ring * ?n)" by (simp add: k(6))
  then have "sl_total s = sl_num s * sl_per_block s \<longleftrightarrow> (\<Sum>b \<in> set ring. free_entries s b) = length ring * ?n"
  proof -
    have "unat (of_nat m :: addr) = m" if "m \<le> length ring * ?n" for m
      using that total_entries [OF inv] by (simp add: unat_of_nat)
    then show ?thesis using s k(5) \<open>sl_num s * sl_per_block s = _\<close> by (metis order_refl)
  qed
  also have "\<dots> \<longleftrightarrow> (\<forall>b \<in> set ring. free_entries s b = ?n)"
  proof
    assume e: "(\<Sum>b \<in> set ring. free_entries s b) = length ring * ?n"
    have "(\<Sum>b \<in> set ring. ?n - free_entries s b) = (\<Sum>b \<in> set ring. ?n) - (\<Sum>b \<in> set ring. free_entries s b)"
      by (rule sum_subtractf_nat) (rule le)
    then have "(\<Sum>b \<in> set ring. ?n - free_entries s b) = 0" using e distinct_card [OF k(7)] by simp
    then show "\<forall>b \<in> set ring. free_entries s b = ?n" using le by (simp add: le_antisym)
  qed (use distinct_card [OF k(7)] in simp)
  finally show ?thesis .
qed

lemma any_used_elem_ok:
  assumes inv: "slab_inv s ring"
  shows "\<exists>r t. any_used_elem s = Some (r, t) \<and> slab_ok t \<and> allocated t = allocated s \<and>
    (case r of None \<Rightarrow> allocated s = {} | Some a \<Rightarrow> a \<in> allocated s)"
proof -
  note k = slab_invD [OF inv]
  show ?thesis
  proof (cases "\<forall>b \<in> set ring. free_entries s b = unat (sl_per_block s)")
    case True
    have "(b, i) \<notin> used_entries s" for b i
    proof
      assume "(b, i) \<in> used_entries s"
      then obtain x where x: "sl_blocks s b = Some x" "i < length (sb_state x)" "sb_state x ! i" by (auto simp: used_entries_def)
      then have "b \<in> set ring" using k(11) by blast
      then have "count_list (sb_state x) False = length (sb_state x)"
        using bspec [OF True, of b] x(1) block_okD(3) [OF k(3) [OF x(1)]] by (simp add: free_entries_def)
      then have "sb_state x ! i = False" using x(2) by (rule count_full)
      then show False using x(3) by simp
    qed
    then have "allocated s = {}" by (auto simp: allocated_def)
    moreover have "any_used_elem s = Some (None, s)" using all_free [OF inv] True by (simp add: any_used_elem_def)
    ultimately show ?thesis using inv by (auto simp: slab_ok_def)
  next
    case False
    have sc: "s\<lparr>sl_curr := hd ring\<rparr> = s" using k(9) by simp
    have "\<exists>b \<in> set ring. free_entries s b \<noteq> unat (sl_per_block s)" using False by blast
    from skip_unused_ok [of s "[]" ring, unfolded append_Nil, OF inv k(8) this, unfolded sc]
    obtain as bs where ab: "as @ bs = ring" "bs \<noteq> []" "skip_unused s = Some (s\<lparr>sl_curr := hd bs\<rparr>)"
        "free_entries s (hd bs) \<noteq> unat (sl_per_block s)"
      by - (elim exE conjE, rule that; assumption)
    let ?s = "s\<lparr>sl_curr := hd bs\<rparr>"
    have inv2: "slab_inv ?s (bs @ as)" by (rule slab_inv_rotate) (use inv ab in simp_all)
    have "hd bs \<in> set ring" using ab(1,2) by auto
    then obtain x where x: "sl_blocks s (hd bs) = Some x" using k(11) by blast
    have "count_list (sb_state x) False \<noteq> length (sb_state x)"
      using ab(4) x block_okD(3) [OF k(3) [OF x]] by (simp add: free_entries_def)
    then obtain i where i: "first_state True (sb_state x) = Some i"
    proof (cases "first_state True (sb_state x)")
      case None
      have "True \<notin> set xs \<Longrightarrow> count_list xs False = length xs" for xs by (induction xs) auto
      then show ?thesis using first_state_None [OF None] \<open>count_list (sb_state x) False \<noteq> _\<close> by blast
    qed
    note j = first_state_Some [OF i]
    have "any_used_elem s = Some (Some (entry_data s (hd bs, i)), ?s)"
      using all_free [OF inv] False ab(3) x i by (simp add: any_used_elem_def any_used_entry_def entry_data_def)
    moreover have "entry_data s (hd bs, i) \<in> allocated s" using x j by (auto simp: allocated_def used_entries_def)
    ultimately show ?thesis using inv2 by (auto simp: slab_ok_def)
  qed
qed

lemma destroy_loop_ok:
  "slab_inv s ring \<Longrightarrow> \<exists>t c. destroy_loop s = Some t \<and> slab_inv t [c]"
proof (induction "length ring" arbitrary: s ring rule: less_induct)
  case less
  note k = slab_invD [OF less.prems]
  show ?case
  proof (cases "sl_num s > 1")
    case False
    then have "length ring = 1" using num_blocks [OF less.prems] k(8)
      by (cases ring) (simp_all add: word_less_nat_alt)
    then obtain c where "ring = [c]" by (cases ring) auto
    moreover have "destroy_loop s = Some s" using False by (subst destroy_loop.simps) simp
    ultimately show ?thesis using less.prems by blast
  next
    case True
    have "1 < length ring" using True num_blocks [OF less.prems] by (simp add: word_less_nat_alt)
    then obtain c d rest where ring: "ring = c # d # rest" by (cases ring; cases "tl ring") auto
    have cur: "sl_curr s = c" using k(9) ring by simp
    obtain x where x: "sl_blocks s c = Some x" using k(11) [of c] ring by auto
    have "sb_next x = d" using next_in_ring [of s "[]" c "d # rest" x] less.prems ring x by simp
    moreover have "slab_inv (s\<lparr>sl_curr := d\<rparr>) (d # rest @ [c])"
      using slab_inv_rotate [of s "[c]" "d # rest"] less.prems ring by simp
    ultimately obtain u e es where u: "(if sl_curr s = sl_initial s
        then do { x \<leftarrow> sl_blocks s (sl_curr s); Some (s\<lparr>sl_curr := sb_next x\<rparr>) } else Some s) = Some u"
        "slab_inv u (e # es)" "length (e # es) = length ring"
      using cur x less.prems ring by (cases "sl_curr s = sl_initial s") auto
    then obtain f fs where es: "es = f # fs" using ring by (cases es) auto
    obtain t where t: "free_curr_sb u = Some t" "slab_inv t (f # fs)" using free_curr_ok u(2) es by blast
    have "destroy_loop s = destroy_loop t" using True u(1) t(1) by (subst destroy_loop.simps) simp
    then show ?thesis using less.hyps [OF _ t(2)] u(3) es by simp
  qed
qed

lemma slab_destroy_ok: "slab_ok s \<Longrightarrow> slab_destroy s \<noteq> None"
proof (cases "sl_backed s")
  case True
  assume "slab_ok s"
  then obtain t c where t: "destroy_loop s = Some t" "slab_inv t [c]" using destroy_loop_ok unfolding slab_ok_def by blast
  then obtain x where "sl_blocks t (sl_curr t) = Some x" using slab_invD(9,11) [OF t(2)] by auto
  then show ?thesis using t(1) True by (simp add: slab_destroy_def release_backing_store_def)
qed (simp add: slab_destroy_def)

end
