(* ===== verification/Kernel_Timer.thy ===== *)
theory Kernel_Timer
  imports Genode_Prelude
begin

text \<open>
  The timer of the kernel, \<open>base-hw/src/core/kernel/timer.{h,cc}\<close>: a time that wraps around, and two
  lists of timeouts, one for the current period of the time and one for the next.  The hardware
  timer is a parameter: the value it shows and the conversion of its ticks.  A triggered timeout is
  an event; the lists are sequences (\<open>Linked_Lists\<close>).
\<close>

unbundle bit_operations_syntax

type_synonym tid = nat

record timeout =
  to_listed :: bool
  to_start :: addr
  to_end :: addr
  to_end_period :: bool

record timer =
  tm_time :: addr
  tm_period :: bool
  tm_list :: "bool \<Rightarrow> tid list"
  tm_last :: addr
  tm_to :: "tid \<Rightarrow> timeout"
  tm_fired :: "tid list"

definition time_overflow :: "timer \<Rightarrow> addr \<Rightarrow> bool" where
  "time_overflow s duration \<longleftrightarrow> duration > NOT 0 - tm_time s"

definition timeout_age_us :: "(addr \<Rightarrow> addr) \<Rightarrow> tid \<Rightarrow> timer \<Rightarrow> addr" where
  "timeout_age_us ticks_to_us t s = ticks_to_us (tm_time s - to_start (tm_to s t))"

text \<open>The loop that finds the place of a timeout, and its insertion there.\<close>

fun insert_timeout :: "(tid \<Rightarrow> addr) \<Rightarrow> tid \<Rightarrow> tid list \<Rightarrow> tid list" where
  "insert_timeout e t [] = [t]"
| "insert_timeout e t (u # us) = (if e u < e t then u # insert_timeout e t us else t # u # us)"

definition unlist_timeout :: "tid \<Rightarrow> timer \<Rightarrow> timer" where
  "unlist_timeout t s =
     (let p = to_end_period (tm_to s t)
      in if to_listed (tm_to s t) then s\<lparr>tm_list := (tm_list s)(p := remove1 t (tm_list s p))\<rparr> else s)"

definition set_timeout :: "tid \<Rightarrow> addr \<Rightarrow> timer \<Rightarrow> timer" where
  "set_timeout t duration s =
     (let s = unlist_timeout t s;
          p = (if time_overflow s duration then \<not> tm_period s else tm_period s);
          s = s\<lparr>tm_to := (tm_to s)(t := \<lparr>to_listed = True, to_start = tm_time s,
                to_end = tm_time s + duration, to_end_period = p\<rparr>)\<rparr>
      in s\<lparr>tm_list := (tm_list s)(p := insert_timeout (\<lambda>u. to_end (tm_to s u)) t (tm_list s p))\<rparr>)"

text \<open>The duration that is programmed into the hardware timer; without a timeout, the assertion fails.\<close>

definition schedule_timeout :: "timer \<Rightarrow> (addr \<times> timer) option" where
  "schedule_timeout s =
     (case tm_list s (tm_period s) @ tm_list s (\<not> tm_period s) of
        [] \<Rightarrow> None
      | t # _ \<Rightarrow> let d = to_end (tm_to s t) - tm_time s in Some (d, s\<lparr>tm_last := d\<rparr>))"

text \<open>Taking the first timeout out of a list and calling it.\<close>

definition trigger_first :: "bool \<Rightarrow> tid \<Rightarrow> timer \<Rightarrow> timer" where
  "trigger_first p t s = s\<lparr>tm_list := (tm_list s)(p := tl (tm_list s p)),
     tm_to := (tm_to s)(t := (tm_to s t)\<lparr>to_listed := False\<rparr>), tm_fired := tm_fired s @ [t]\<rparr>"

function flush_timeouts :: "bool \<Rightarrow> timer \<Rightarrow> timer" where
  "flush_timeouts p s = (case tm_list s p of [] \<Rightarrow> s | t # _ \<Rightarrow> flush_timeouts p (trigger_first p t s))"
  by pat_completeness auto
termination by (relation "measure (\<lambda>(p, s). length (tm_list s p))") (auto simp: trigger_first_def)

definition update_time :: "addr \<Rightarrow> timer \<Rightarrow> addr \<times> timer" where
  "update_time new_value s =
     (let duration = (if tm_last s > new_value then tm_last s - new_value else 1);
          s = (if time_overflow s duration
               then (let u = flush_timeouts (tm_period s) s in u\<lparr>tm_period := \<not> tm_period u\<rparr>) else s)
      in (duration, s\<lparr>tm_time := tm_time s + duration\<rparr>))"

function process_due :: "bool \<Rightarrow> timer \<Rightarrow> timer" where
  "process_due p s =
     (case tm_list s p of
        [] \<Rightarrow> s
      | t # _ \<Rightarrow> if to_end (tm_to s t) > tm_time s then s else process_due p (trigger_first p t s))"
  by pat_completeness auto
termination by (relation "measure (\<lambda>(p, s). length (tm_list s p))") (auto simp: trigger_first_def)

definition process_timeouts :: "timer \<Rightarrow> timer" where
  "process_timeouts s = process_due (tm_period s) s"

declare flush_timeouts.simps [simp del] process_due.simps [simp del]


section \<open>The time without wrap-around\<close>

text \<open>
  The reading of the time in a state that has wrapped around \<open>k\<close> times, and of the deadline of a
  timeout.
\<close>

definition abs_time :: "nat \<Rightarrow> timer \<Rightarrow> nat" where
  "abs_time k s = k * 2 ^ 64 + unat (tm_time s)"

definition deadline :: "nat \<Rightarrow> timer \<Rightarrow> tid \<Rightarrow> nat" where
  "deadline k s t =
     (if to_end_period (tm_to s t) = tm_period s then k else k + 1) * 2 ^ 64 + unat (to_end (tm_to s t))"

definition timer_ok :: "timer \<Rightarrow> bool" where
  "timer_ok s \<longleftrightarrow>
     (\<forall>p. distinct (tm_list s p) \<and> sorted (map (\<lambda>t. to_end (tm_to s t)) (tm_list s p))) \<and>
     (\<forall>p t. t \<in> set (tm_list s p) \<longleftrightarrow> to_listed (tm_to s t) \<and> to_end_period (tm_to s t) = p)"

lemma timer_okD:
  assumes "timer_ok s"
  shows "distinct (tm_list s p)" "sorted (map (\<lambda>t. to_end (tm_to s t)) (tm_list s p))"
    "t \<in> set (tm_list s p) \<longleftrightarrow> to_listed (tm_to s t) \<and> to_end_period (tm_to s t) = p"
  using assms unfolding timer_ok_def by blast+

lemma set_insert_timeout [simp]: "set (insert_timeout e t us) = insert t (set us)"
  by (induction us) auto

lemma distinct_insert_timeout [simp]: "distinct (insert_timeout e t us) \<longleftrightarrow> t \<notin> set us \<and> distinct us"
  by (induction us) auto

lemma sorted_insert_timeout: "sorted (map e us) \<Longrightarrow> sorted (map e (insert_timeout e t us))"
  by (induction us) (auto simp: less_le_not_le intro: order_trans less_imp_le)

lemma time_overflow_iff: "time_overflow s d \<longleftrightarrow> unat (tm_time s) + unat d \<ge> 2 ^ 64"
proof -
  have "unat (NOT 0 - tm_time s) = 2 ^ 64 - 1 - unat (tm_time s)"
    using unat_less_64 [of "tm_time s"] by (simp add: unat_sub_no_wrap word_le_nat_alt)
  then show ?thesis using unat_less_64 [of "tm_time s"] by (simp add: time_overflow_def word_less_nat_alt) linarith
qed

lemma wrapped_add:
  assumes "2 ^ 64 \<le> unat a + unat (b :: addr)"
  shows "unat (a + b) + 2 ^ 64 = unat a + unat b"
proof -
  have "unat (a + b) = (unat a + unat b) mod 2 ^ 64" by (simp add: unat_word_ariths)
  moreover have "unat a + unat b < 2 * 2 ^ 64" using unat_less_64 [of a] unat_less_64 [of b] by simp
  ultimately show ?thesis using assms by (simp add: mod_if split: if_splits) linarith?
qed


section \<open>Timeouts are triggered on time\<close>

lemma set_timeout_ok:
  assumes ok: "timer_ok s"
  shows "timer_ok (set_timeout t d s) \<and> to_listed (tm_to (set_timeout t d s) t) \<and>
    deadline k (set_timeout t d s) t = abs_time k s + unat d \<and>
    (\<forall>u. u \<noteq> t \<longrightarrow> tm_to (set_timeout t d s) u = tm_to s u) \<and>
    tm_time (set_timeout t d s) = tm_time s \<and> tm_period (set_timeout t d s) = tm_period s \<and>
    tm_fired (set_timeout t d s) = tm_fired s"
proof -
  note k = timer_okD [OF ok]
  define Q where "Q = (\<lambda>p. if to_listed (tm_to s t) \<and> p = to_end_period (tm_to s t) then remove1 t (tm_list s p) else tm_list s p)"
  define P where "P = (if time_overflow s d then \<not> tm_period s else tm_period s)"
  let ?x = "\<lparr>to_listed = True, to_start = tm_time s, to_end = tm_time s + d, to_end_period = P\<rparr>"
  let ?e = "\<lambda>u. to_end (((tm_to s)(t := ?x)) u)"
  have un: "tm_to (unlist_timeout t s) = tm_to s" "tm_time (unlist_timeout t s) = tm_time s"
      "tm_period (unlist_timeout t s) = tm_period s" "tm_fired (unlist_timeout t s) = tm_fired s"
      "tm_list (unlist_timeout t s) = Q"
    by (auto simp: unlist_timeout_def Let_def Q_def fun_eq_iff)
  have ov: "time_overflow (unlist_timeout t s) d = time_overflow s d" by (simp add: time_overflow_def un)
  have t: "tm_list (set_timeout t d s) = Q(P := insert_timeout ?e t (Q P))"
      "tm_to (set_timeout t d s) = (tm_to s)(t := ?x)" "tm_time (set_timeout t d s) = tm_time s"
      "tm_period (set_timeout t d s) = tm_period s" "tm_fired (set_timeout t d s) = tm_fired s"
    unfolding set_timeout_def Let_def by (simp_all add: un ov P_def del: if_split fun_upd_apply)
  have q: "set (Q p) = set (tm_list s p) - {t}" "distinct (Q p)" for p
    using k(1) [of p] k(3) [of t p] by (auto simp: Q_def)
  have sorted: "sorted (map ?e (Q p))" for p
  proof -
    have "Q p = remove1 t (tm_list s p) \<or> Q p = tm_list s p" by (simp add: Q_def)
    then have "sorted (map (\<lambda>u. to_end (tm_to s u)) (Q p))"
      using k(2) [of p] sorted_map_remove1 [of "\<lambda>u. to_end (tm_to s u)" "tm_list s p" t] by (elim disjE) (simp_all only:)
    moreover have "map ?e (Q p) = map (\<lambda>u. to_end (tm_to s u)) (Q p)"
      using q(1) [of p] by (intro map_cong [OF refl]) auto
    ultimately show ?thesis by metis
  qed
  have "timer_ok (set_timeout t d s)"
    unfolding timer_ok_def
  proof (intro conjI allI)
    fix p
    show "distinct (tm_list (set_timeout t d s) p)" using q by (cases "p = P") (simp_all add: t)
  next
    fix p
    show "sorted (map (\<lambda>u. to_end (tm_to (set_timeout t d s) u)) (tm_list (set_timeout t d s) p))"
    proof (cases "p = P")
      case True
      show ?thesis unfolding t True fun_upd_same by (rule sorted_insert_timeout [OF sorted])
    next
      case False
      show ?thesis unfolding t fun_upd_other [OF False] by (rule sorted)
    qed
  next
    fix p u
    show "u \<in> set (tm_list (set_timeout t d s) p) \<longleftrightarrow>
        to_listed (tm_to (set_timeout t d s) u) \<and> to_end_period (tm_to (set_timeout t d s) u) = p"
      using q(1) [of p] k(3) [of u p] by (cases "p = P"; cases "u = t") (simp_all add: t)
  qed
  moreover have "deadline k (set_timeout t d s) t = abs_time k s + unat d"
  proof (cases "time_overflow s d")
    case True
    then have "2 ^ 64 \<le> unat (tm_time s) + unat d" by (simp add: time_overflow_iff)
    from wrapped_add [OF this] show ?thesis using True by (simp add: t P_def deadline_def abs_time_def)
  next
    case False
    then have "unat (tm_time s) + unat d < 2 ^ LENGTH(64)" by (simp add: time_overflow_iff)
    from unat_add_no_wrap [OF this] show ?thesis using False by (simp add: t P_def deadline_def abs_time_def)
  qed
  ultimately show ?thesis by (simp add: t)
qed

text \<open>The loops trigger a prefix of a list.\<close>

lemma trigger_all:
  assumes "tm_list s p = ts @ us"
  shows "tm_list (fold (trigger_first p) ts s) = (tm_list s)(p := us)"
    "tm_to (fold (trigger_first p) ts s) u = (if u \<in> set ts then (tm_to s u)\<lparr>to_listed := False\<rparr> else tm_to s u)"
    "tm_fired (fold (trigger_first p) ts s) = tm_fired s @ ts"
    "tm_time (fold (trigger_first p) ts s) = tm_time s" "tm_period (fold (trigger_first p) ts s) = tm_period s"
  using assms by (induction ts arbitrary: s) (auto simp: trigger_first_def)

lemma trigger_first_list [simp]: "tm_list (trigger_first p t s) p = tl (tm_list s p)"
  by (simp add: trigger_first_def)

lemma flush_timeouts_eq: "flush_timeouts p s = fold (trigger_first p) (tm_list s p) s"
proof (induction p s rule: flush_timeouts.induct)
  case (1 p s)
  show ?case
  proof (cases "tm_list s p")
    case (Cons t ts)
    then show ?thesis using 1 [OF Cons] by (subst flush_timeouts.simps) simp
  qed (simp add: flush_timeouts.simps)
qed

lemma process_due_eq:
  "process_due p s = fold (trigger_first p) (takeWhile (\<lambda>t. to_end (tm_to s t) \<le> tm_time s) (tm_list s p)) s"
proof (induction p s rule: process_due.induct)
  case (1 p s)
  show ?case
  proof (cases "tm_list s p")
    case (Cons t ts)
    show ?thesis
    proof (cases "to_end (tm_to s t) \<le> tm_time s")
      case True
      have e: "to_end (tm_to (trigger_first p t s) u) = to_end (tm_to s u)" "tm_time (trigger_first p t s) = tm_time s" for u
        by (simp_all add: trigger_first_def)
      have "process_due p s = process_due p (trigger_first p t s)"
        using Cons True by (subst process_due.simps) simp
      also have "\<dots> = fold (trigger_first p) (takeWhile (\<lambda>t. to_end (tm_to s t) \<le> tm_time s) ts) (trigger_first p t s)"
        using 1 [OF Cons] True e Cons by simp
      finally show ?thesis using Cons True by simp
    next
      case False
      then show ?thesis using Cons by (subst process_due.simps) simp
    qed
  qed (simp add: process_due.simps)
qed

lemma trigger_prefix_ok:
  assumes ok: "timer_ok s" and ts: "tm_list s p = ts @ us"
  shows "timer_ok (fold (trigger_first p) ts s)"
proof -
  note k = timer_okD [OF ok] and t = trigger_all [OF ts]
  have d: "distinct (ts @ us)" "sorted (map (\<lambda>t. to_end (tm_to s t)) (ts @ us))" using k(1,2) [of p] ts by simp_all
  have e: "to_end (tm_to (fold (trigger_first p) ts s) u) = to_end (tm_to s u)" for u by (simp add: t(2))
  show ?thesis
    unfolding timer_ok_def e
  proof (intro conjI allI)
    fix q
    show "distinct (tm_list (fold (trigger_first p) ts s) q)" using k(1) [of q] d(1) by (cases "q = p") (simp_all add: t(1))
    show "sorted (map (\<lambda>t. to_end (tm_to s t)) (tm_list (fold (trigger_first p) ts s) q))"
      using k(2) [of q] d(2) by (cases "q = p") (simp_all add: t(1) sorted_append)
  next
    fix q u
    have "u \<in> set ts \<Longrightarrow> u \<notin> set us" using d(1) by auto
    then show "u \<in> set (tm_list (fold (trigger_first p) ts s) q) \<longleftrightarrow>
        to_listed (tm_to (fold (trigger_first p) ts s) u) \<and> to_end_period (tm_to (fold (trigger_first p) ts s) u) = q"
      using k(3) [of u q] k(3) [of u p] ts by (auto simp: t(1,2))
  qed
qed

lemma deadline_trigger:
  assumes "tm_list s p = ts @ us"
  shows "deadline k (fold (trigger_first p) ts s) u = deadline k s u"
  by (simp add: deadline_def trigger_all [OF assms])

text \<open>The processing of the due timeouts of the current period.\<close>

lemma process_timeouts_ok:
  assumes ok: "timer_ok s"
  shows "\<exists>ts. let u = process_timeouts s in timer_ok u \<and> tm_fired u = tm_fired s @ ts \<and> tm_time u = tm_time s \<and>
    distinct ts \<and> sorted (map (deadline k s) ts) \<and>
    (\<forall>t. t \<in> set ts \<longleftrightarrow> to_listed (tm_to s t) \<and> deadline k s t \<le> abs_time k s) \<and>
    (\<forall>t. to_listed (tm_to u t) \<longleftrightarrow> to_listed (tm_to s t) \<and> t \<notin> set ts) \<and> deadline k u = deadline k s"
proof -
  note k = timer_okD [OF ok]
  let ?p = "tm_period s" and ?P = "\<lambda>t. to_end (tm_to s t) \<le> tm_time s"
  let ?ts = "takeWhile ?P (tm_list s ?p)" and ?us = "dropWhile ?P (tm_list s ?p)"
  have l: "tm_list s ?p = ?ts @ ?us" by simp
  have u: "process_timeouts s = fold (trigger_first ?p) ?ts s" by (simp add: process_timeouts_def process_due_eq)
  note t = trigger_all [OF l]
  have d: "distinct (?ts @ ?us)" "sorted (map (\<lambda>t. to_end (tm_to s t)) (?ts @ ?us))" using k(1,2) [of ?p] by simp_all
  have due: "v \<in> set ?ts \<longleftrightarrow> v \<in> set (tm_list s ?p) \<and> ?P v" for v
  proof -
    have "\<not> ?P w" if "w \<in> set ?us" for w
    proof -
      obtain x xs where us: "?us = x # xs" using \<open>w \<in> set ?us\<close> by (cases ?us) auto
      then have "\<not> ?P x" using hd_dropWhile [of ?P "tm_list s ?p"] by simp
      moreover have "to_end (tm_to s x) \<le> to_end (tm_to s w)" using d(2) us that by (auto simp: sorted_append)
      ultimately show ?thesis by (meson order.trans)
    qed
    moreover have "v \<in> set (tm_list s ?p) \<longleftrightarrow> v \<in> set ?ts \<or> v \<in> set ?us"
      by (metis l set_append Un_iff)
    ultimately show ?thesis using set_takeWhileD [of v ?P "tm_list s ?p"] by blast
  qed
  have cur: "deadline k s v = k * 2 ^ 64 + unat (to_end (tm_to s v))" if "v \<in> set (tm_list s ?p)" for v
    using that k(3) by (simp add: deadline_def)
  have later: "abs_time k s < deadline k s v" if "to_end_period (tm_to s v) \<noteq> ?p" for v
    using that unat_less_64 [of "tm_time s"] by (simp add: deadline_def abs_time_def)
  have fired: "v \<in> set ?ts \<longleftrightarrow> to_listed (tm_to s v) \<and> deadline k s v \<le> abs_time k s" for v
  proof (cases "to_end_period (tm_to s v) = ?p")
    case True
    then show ?thesis using due [of v] k(3) [of v ?p] cur [of v] by (auto simp: abs_time_def word_le_nat_alt)
  next
    case False
    then show ?thesis using due [of v] k(3) [of v ?p] later [of v] by simp
  qed
  have "sorted (map (deadline k s) ?ts)"
  proof -
    have "sorted (map (\<lambda>v. to_end (tm_to s v)) ?ts)" using d(2) unfolding map_append sorted_append by blast
    then show ?thesis unfolding sorted_map
      by (rule sorted_wrt_mono_rel [rotated]) (use due cur in \<open>auto simp: word_le_nat_alt\<close>)
  qed
  moreover have "distinct ?ts" using d(1) by simp
  moreover have "deadline k (process_timeouts s) = deadline k s" by (rule ext) (simp add: u deadline_trigger [OF l])
  ultimately show ?thesis using trigger_prefix_ok [OF ok l] fired t(2-4)
    by (intro exI [of _ ?ts]) (simp add: u Let_def)
qed

lemma update_time_ok:
  assumes ok: "timer_ok s" and u: "update_time v s = (d, u)"
  shows "\<exists>ts k'. timer_ok u \<and> tm_fired u = tm_fired s @ ts \<and> abs_time k' u = abs_time k s + unat d \<and>
    distinct ts \<and> sorted (map (deadline k s) ts) \<and>
    (\<forall>t \<in> set ts. to_listed (tm_to s t) \<and> deadline k s t \<le> abs_time k' u) \<and>
    (\<forall>t. to_listed (tm_to u t) \<longleftrightarrow> to_listed (tm_to s t) \<and> t \<notin> set ts) \<and>
    (\<forall>t. to_listed (tm_to u t) \<longrightarrow> deadline k' u t = deadline k s t) \<and>
    (\<forall>t. \<forall>w \<in> set ts. to_listed (tm_to u t) \<longrightarrow> deadline k s w \<le> deadline k s t)"
proof (cases "time_overflow s d")
  case False
  have "d = (if tm_last s > v then tm_last s - v else 1)" using u by (auto simp: update_time_def Let_def)
  then have u': "u = s\<lparr>tm_time := tm_time s + d\<rparr>" using u False by (auto simp: update_time_def Let_def)
  have "abs_time k u = abs_time k s + unat d"
    using False by (simp add: u' abs_time_def time_overflow_iff unat_add_no_wrap)
  moreover have "timer_ok u" using ok by (simp add: u' timer_ok_def)
  moreover have "deadline k u = deadline k s" by (simp add: u' deadline_def fun_eq_iff)
  ultimately show ?thesis by (intro exI [of _ "[]"] exI [of _ k]) (simp add: u')
next
  case True
  note k = timer_okD [OF ok]
  let ?p = "tm_period s" and ?ts = "tm_list s (tm_period s)"
  let ?f = "fold (trigger_first ?p) ?ts s"
  have d: "d = (if tm_last s > v then tm_last s - v else 1)" using u by (auto simp: update_time_def Let_def)
  have l: "tm_list s ?p = ?ts @ []" by simp
  note t = trigger_all [OF l]
  have u': "u = ?f\<lparr>tm_period := \<not> ?p, tm_time := tm_time s + d\<rparr>"
    using u True d t(4,5) by (auto simp: update_time_def Let_def flush_timeouts_eq)
  have "timer_ok ?f" by (rule trigger_prefix_ok [OF ok l])
  then have "timer_ok u" by (simp add: u' timer_ok_def)
  moreover have now: "abs_time (k + 1) u = abs_time k s + unat d"
    using True wrapped_add [of "tm_time s" d] by (simp add: u' abs_time_def time_overflow_iff algebra_simps)
  moreover have cur: "deadline k s w = k * 2 ^ 64 + unat (to_end (tm_to s w))" if "w \<in> set ?ts" for w
    using that k(3) by (simp add: deadline_def)
  have "deadline k s w < (k + 1) * 2 ^ 64" if "w \<in> set ?ts" for w
    using cur [OF that] unat_less_64 [of "to_end (tm_to s w)"] by simp
  moreover have "(k + 1) * 2 ^ 64 \<le> abs_time (k + 1) u" by (simp add: abs_time_def)
  moreover have rest: "to_listed (tm_to u w) \<longleftrightarrow> to_listed (tm_to s w) \<and> w \<notin> set ?ts" for w
    by (simp add: u' t(2))
  moreover have other: "to_end_period (tm_to s w) \<noteq> ?p" if "to_listed (tm_to u w)" for w
    using that rest k(3) by blast
  then have "deadline (k + 1) u w = deadline k s w" if "to_listed (tm_to u w)" for w
    using that rest [of w] other [OF that] by (simp add: u' t(2) deadline_def)
  moreover have "(k + 1) * 2 ^ 64 \<le> deadline k s w" if "to_listed (tm_to u w)" for w
    using other [OF that] by (simp add: deadline_def)
  moreover have "sorted (map (deadline k s) ?ts)"
    using k(2) [of ?p] unfolding sorted_map
    by (rule sorted_wrt_mono_rel [rotated]) (use cur in \<open>auto simp: word_le_nat_alt\<close>)
  ultimately show ?thesis using k(1) [of ?p] k(3) t(3)
    by (intro exI [of _ ?ts] exI [of _ "k + 1"]) (fastforce simp: u')
qed

text \<open>
  C18 When the time advances, exactly the timeouts whose deadline has passed are
  triggered, each once, in the order of their deadlines, also when the time wraps around; the others
  stay with their deadline.
\<close>

theorem timeouts_on_time:
  assumes "timer_ok s" "update_time v s = (d, u)"
  shows "\<exists>ts k'. let w = process_timeouts u in
    timer_ok w \<and> abs_time k' w = abs_time k s + unat d \<and> tm_fired w = tm_fired s @ ts \<and> distinct ts \<and>
    (\<forall>t. t \<in> set ts \<longleftrightarrow> to_listed (tm_to s t) \<and> deadline k s t \<le> abs_time k s + unat d) \<and>
    sorted (map (deadline k s) ts) \<and>
    (\<forall>t. to_listed (tm_to w t) \<longleftrightarrow> to_listed (tm_to s t) \<and> t \<notin> set ts) \<and>
    (\<forall>t. to_listed (tm_to w t) \<longrightarrow> deadline k' w t = deadline k s t)"
proof -
  obtain xs k' where x: "timer_ok u" "tm_fired u = tm_fired s @ xs" "abs_time k' u = abs_time k s + unat d"
      "distinct xs" "sorted (map (deadline k s) xs)"
      "\<forall>t \<in> set xs. to_listed (tm_to s t) \<and> deadline k s t \<le> abs_time k' u"
      "\<forall>t. to_listed (tm_to u t) \<longleftrightarrow> to_listed (tm_to s t) \<and> t \<notin> set xs"
      "\<forall>t. to_listed (tm_to u t) \<longrightarrow> deadline k' u t = deadline k s t"
      "\<forall>t. \<forall>w \<in> set xs. to_listed (tm_to u t) \<longrightarrow> deadline k s w \<le> deadline k s t"
    using update_time_ok [OF assms, of k] by blast
  obtain ys where y: "timer_ok (process_timeouts u)" "tm_fired (process_timeouts u) = tm_fired u @ ys"
      "tm_time (process_timeouts u) = tm_time u" "distinct ys" "sorted (map (deadline k' u) ys)"
      "\<forall>t. t \<in> set ys \<longleftrightarrow> to_listed (tm_to u t) \<and> deadline k' u t \<le> abs_time k' u"
      "\<forall>t. to_listed (tm_to (process_timeouts u) t) \<longleftrightarrow> to_listed (tm_to u t) \<and> t \<notin> set ys"
      "deadline k' (process_timeouts u) = deadline k' u"
    using process_timeouts_ok [OF x(1), of k'] by (auto simp: Let_def)
  have m: "map (deadline k s) ys = map (deadline k' u) ys" using x(8) y(6) by auto
  have all: "t \<in> set (xs @ ys) \<longleftrightarrow> to_listed (tm_to s t) \<and> deadline k s t \<le> abs_time k s + unat d" for t
    using x(3,6,7,8) y(6) by (cases "t \<in> set xs") auto
  have "sorted (map (deadline k s) (xs @ ys))"
    using x(5,9) y(5,6) unfolding map_append sorted_append m [symmetric] by auto
  moreover have "distinct (xs @ ys)" using x(4,7) y(4,6) by auto
  moreover have "abs_time k' (process_timeouts u) = abs_time k s + unat d" using x(3) y(3) by (simp add: abs_time_def)
  moreover have "tm_fired (process_timeouts u) = tm_fired s @ (xs @ ys)" using x(2) y(2) by simp
  moreover have "to_listed (tm_to (process_timeouts u) t) \<longleftrightarrow> to_listed (tm_to s t) \<and> t \<notin> set (xs @ ys)" for t
    using x(7) y(7) by auto
  moreover have "deadline k' (process_timeouts u) t = deadline k s t" if "to_listed (tm_to (process_timeouts u) t)" for t
    using that x(8) y(7,8) by simp
  ultimately show ?thesis using y(1) all unfolding Let_def
    by (intro exI [of _ "xs @ ys"] exI [of _ k']) blast
qed

text \<open>A timer whose time is about to wrap around, with one timeout before and one behind the wrap.\<close>

definition demo_timer :: timer where
  "demo_timer = set_timeout 2 20 (set_timeout 1 3 \<lparr>tm_time = - 10, tm_period = False, tm_list = (\<lambda>_. []), tm_last = 15,
     tm_to = (\<lambda>_. \<lparr>to_listed = False, to_start = 0, to_end = 0, to_end_period = False\<rparr>), tm_fired = []\<rparr>)"

lemma unat_minus_10: "unat (- 10 :: addr) = 2 ^ 64 - 10"
  by (simp add: unat_word_ariths(4)) 

lemma demo_timer_ok: "timer_ok demo_timer"
  unfolding demo_timer_def by (intro conjunct1 [OF set_timeout_ok]) (simp add: timer_ok_def)

theorem timeouts_on_time_witness:
  "\<exists>ts k'. let w = process_timeouts (snd (update_time 0 demo_timer)) in
    timer_ok w \<and> abs_time k' w = 2 ^ 64 + 5 \<and> tm_fired w = ts \<and>
    (\<forall>t. t \<in> set ts \<longleftrightarrow> to_listed (tm_to demo_timer t) \<and> deadline 0 demo_timer t \<le> 2 ^ 64 + 5)"
proof -
  have t: "abs_time 0 demo_timer = 2 ^ 64 - 10" "tm_last demo_timer = 15" "tm_fired demo_timer = []"
    by (simp_all add: demo_timer_def set_timeout_def unlist_timeout_def Let_def abs_time_def unat_minus_10)
  have "fst (update_time 0 demo_timer) = 15" using t(2) by (simp add: update_time_def Let_def)
  then have "update_time 0 demo_timer = (15, snd (update_time 0 demo_timer))" by (metis prod.collapse)
  from timeouts_on_time [OF demo_timer_ok this, of 0] show ?thesis
    unfolding Let_def t by (elim exE conjE, intro exI) auto
qed

text \<open>The hardware timer is programmed for the nearest deadline.\<close>

lemma schedule_timeout_nearest:
  assumes ok: "timer_ok s" and t: "to_listed (tm_to s t)"
    and future: "\<And>u. to_listed (tm_to s u) \<Longrightarrow> abs_time k s \<le> deadline k s u \<and> deadline k s u < abs_time k s + 2 ^ 64"
  shows "\<exists>d u. schedule_timeout s = Some (d, u) \<and> tm_last u = d \<and> abs_time k s + unat d \<le> deadline k s t \<and>
    (\<exists>v. to_listed (tm_to s v) \<and> deadline k s v = abs_time k s + unat d)"
proof -
  note k = timer_okD [OF ok]
  let ?l = "tm_list s (tm_period s) @ tm_list s (\<not> tm_period s)"
  have l: "u \<in> set ?l \<longleftrightarrow> to_listed (tm_to s u)" for u using k(3) [of u "tm_period s"] k(3) [of u "\<not> tm_period s"] by auto
  then obtain v vs where v: "?l = v # vs" using t by (cases ?l) auto
  have lv: "to_listed (tm_to s v)" using l [of v] v by simp
  let ?d = "to_end (tm_to s v) - tm_time s"
  have end_: "to_end (tm_to s v) \<le> to_end (tm_to s u)" if "to_listed (tm_to s u)" "to_end_period (tm_to s u) = to_end_period (tm_to s v)" for u
  proof -
    let ?p = "to_end_period (tm_to s v)"
    have "tm_list s ?p = v # (if ?p = tm_period s then tl (tm_list s (tm_period s)) else vs)"
    proof (cases "tm_list s (tm_period s)")
      case Nil
      then have "v \<in> set (tm_list s (\<not> tm_period s))" using v by simp
      then show ?thesis using k(3) [of v "\<not> tm_period s"] v Nil by simp
    next
      case (Cons w ws)
      then have "v \<in> set (tm_list s (tm_period s))" using v by simp
      then show ?thesis using k(3) [of v "tm_period s"] v Cons by simp
    qed
    then show ?thesis using k(2) [of ?p] k(3) [of u ?p] that by (auto simp del: if_split_asm)
  qed
  have first: "to_end_period (tm_to s v) = tm_period s" if "to_listed (tm_to s u)" "to_end_period (tm_to s u) = tm_period s" for u
  proof -
    have "tm_list s (tm_period s) \<noteq> []" using k(3) [of u "tm_period s"] that by auto
    then have "v \<in> set (tm_list s (tm_period s))" using v by (cases "tm_list s (tm_period s)") auto
    then show ?thesis using k(3) by blast
  qed
  have least: "deadline k s v \<le> deadline k s u" if "to_listed (tm_to s u)" for u
  proof (cases "to_end_period (tm_to s u) = to_end_period (tm_to s v)")
    case True
    then show ?thesis using end_ [OF that True] by (simp add: deadline_def word_le_nat_alt)
  next
    case False
    then have "to_end_period (tm_to s v) = tm_period s" "to_end_period (tm_to s u) \<noteq> tm_period s"
      using first [OF that] by auto
    then show ?thesis using unat_less_64 [of "to_end (tm_to s v)"] by (simp add: deadline_def)
  qed
  have "abs_time k s + unat ?d = deadline k s v"
  proof (cases "to_end_period (tm_to s v) = tm_period s")
    case True
    then have "tm_time s \<le> to_end (tm_to s v)"
      using future [OF lv] by (simp add: deadline_def abs_time_def word_le_nat_alt)
    then show ?thesis using True by (simp add: deadline_def abs_time_def unat_sub_no_wrap word_le_nat_alt)
  next
    case False
    then have lt: "unat (to_end (tm_to s v)) < unat (tm_time s)"
      using future [OF lv] by (simp add: deadline_def abs_time_def)
    have "unat (?d + tm_time s) = unat (to_end (tm_to s v))" by simp
    then have "2 ^ 64 \<le> unat ?d + unat (tm_time s)"
      using lt unat_add_no_wrap [of ?d "tm_time s"] by (cases "unat ?d + unat (tm_time s) < 2 ^ 64") simp_all
    from wrapped_add [OF this] show ?thesis using False by (simp add: deadline_def abs_time_def)
  qed
  then show ?thesis using least [OF t] lv v by (auto simp: schedule_timeout_def Let_def)
qed

end
