(* ===== verification/Registers.thy ===== *)
theory Registers
  imports Misc_Math
begin

text \<open>
  The accessors of \<open>base/include/util/register.h\<close>: a register is a machine word, a bitfield a shift and a
  width within it, and a bitset a bitfield whose value is split over two or three bitfields.  The widths
  are template arguments of the code; a shift by the width of the register or more is undefined there,
  so the lemmas ask that a field ends inside the register and is narrower than it.  The device registers
  and the page-table descriptors of the kernel are made of these fields.
\<close>

section \<open>Bitfields\<close>

datatype bitfield = Bitfield (bf_shift: nat) (bf_width: nat)

definition bf_mask :: "bitfield \<Rightarrow> 'a::len word" where
  "bf_mask f = push_bit (bf_width f) 1 - 1"

definition bf_reg_mask :: "bitfield \<Rightarrow> 'a::len word" where
  "bf_reg_mask f = push_bit (bf_shift f) (bf_mask f)"

definition bf_clear_mask :: "bitfield \<Rightarrow> 'a::len word" where
  "bf_clear_mask f = NOT (bf_reg_mask f)"

definition bf_bits :: "bitfield \<Rightarrow> 'a::len word \<Rightarrow> 'a word" where
  "bf_bits f v = push_bit (bf_shift f) (v AND bf_mask f)"

definition bf_masked :: "bitfield \<Rightarrow> 'a::len word \<Rightarrow> 'a word" where
  "bf_masked f reg = reg AND bf_reg_mask f"

definition bf_get :: "bitfield \<Rightarrow> 'a::len word \<Rightarrow> 'a word" where
  "bf_get f reg = drop_bit (bf_shift f) reg AND bf_mask f"

definition bf_clear :: "bitfield \<Rightarrow> 'a::len word \<Rightarrow> 'a word" where
  "bf_clear f reg = reg AND bf_clear_mask f"

definition bf_set :: "bitfield \<Rightarrow> 'a::len word \<Rightarrow> 'a word \<Rightarrow> 'a word" where
  "bf_set f v reg = bf_clear f reg OR push_bit (bf_shift f) (v AND bf_mask f)"


section \<open>Bitsets\<close>

text \<open>
  \<open>set\<close> clears the parts first and then sets them in order.  The parts of a bitset are bitfields; a
  bitset of three parts reads and writes its lower two through the bitset of these two.
\<close>

definition bs2_width :: "bitfield \<Rightarrow> bitfield \<Rightarrow> nat" where
  "bs2_width f g = bf_width f + bf_width g"

definition bs2_bits :: "bitfield \<Rightarrow> bitfield \<Rightarrow> 'a::len word \<Rightarrow> 'a word" where
  "bs2_bits f g v = bf_bits f v OR bf_bits g (drop_bit (bf_width f) v)"

definition bs2_set :: "bitfield \<Rightarrow> bitfield \<Rightarrow> 'a::len word \<Rightarrow> 'a word \<Rightarrow> 'a word" where
  "bs2_set f g v reg =
     (let reg = bf_clear f reg; reg = bf_clear g reg; reg = bf_set f v reg
      in bf_set g (drop_bit (bf_width f) v) reg)"

definition bs2_get :: "bitfield \<Rightarrow> bitfield \<Rightarrow> 'a::len word \<Rightarrow> 'a word" where
  "bs2_get f g reg = bf_get f reg OR push_bit (bf_width f) (bf_get g reg)"

definition bs3_bits :: "bitfield \<Rightarrow> bitfield \<Rightarrow> bitfield \<Rightarrow> 'a::len word \<Rightarrow> 'a word" where
  "bs3_bits f g h v = bs2_bits f g v OR bf_bits h (drop_bit (bs2_width f g) v)"

definition bs3_set :: "bitfield \<Rightarrow> bitfield \<Rightarrow> bitfield \<Rightarrow> 'a::len word \<Rightarrow> 'a word \<Rightarrow> 'a word" where
  "bs3_set f g h v reg =
     (let reg = bf_clear f reg; reg = bf_clear g reg; reg = bf_clear h reg; reg = bs2_set f g v reg
      in bf_set h (drop_bit (bs2_width f g) v) reg)"

definition bs3_get :: "bitfield \<Rightarrow> bitfield \<Rightarrow> bitfield \<Rightarrow> 'a::len word \<Rightarrow> 'a word" where
  "bs3_get f g h reg = bs2_get f g reg OR push_bit (bs2_width f g) (bf_get h reg)"


section \<open>The bits of a field\<close>

definition in_field :: "bitfield \<Rightarrow> nat \<Rightarrow> bool" where
  "in_field f k \<longleftrightarrow> bf_shift f \<le> k \<and> k < bf_shift f + bf_width f"

lemma bf_mask_mask: "bf_mask f = mask (bf_width f)"
  by (simp add: bf_mask_def mask_eq_exp_minus_1 push_bit_eq_mult)

lemmas field_defs = bf_bits_def bf_masked_def bf_get_def bf_clear_def bf_set_def bf_reg_mask_def
  bf_clear_mask_def bf_mask_mask in_field_def

lemma bit_bf_masked: "bit (bf_masked f reg) k \<longleftrightarrow> in_field f k \<and> bit (reg :: 'a::len word) k"
  using bit_imp_le_length [of reg k] by (auto simp: field_defs bit_simps)

lemma bit_bf_clear: "bit (bf_clear f reg) k \<longleftrightarrow> \<not> in_field f k \<and> bit (reg :: 'a::len word) k"
  using bit_imp_le_length [of reg k] by (auto simp: field_defs bit_simps)

lemma bit_bf_bits:
  "bit (bf_bits f (v :: 'a::len word)) k \<longleftrightarrow> k < LENGTH('a) \<and> in_field f k \<and> bit v (k - bf_shift f)"
  by (auto simp: field_defs bit_simps)

lemma bit_bf_get: "bit (bf_get f (reg :: 'a::len word)) k \<longleftrightarrow> k < bf_width f \<and> bit reg (bf_shift f + k)"
  using bit_imp_le_length [of reg "bf_shift f + k"] by (auto simp: field_defs bit_simps)

lemma bit_bf_set:
  "bit (bf_set f v (reg :: 'a::len word)) k \<longleftrightarrow>
     (if in_field f k then k < LENGTH('a) \<and> bit v (k - bf_shift f) else bit reg k)"
  using bit_imp_le_length [of reg k] by (auto simp: field_defs bit_simps)

lemmas bit_fields = bit_bf_masked bit_bf_clear bit_bf_bits bit_bf_get bit_bf_set

lemma bit_low: "k < LENGTH('a) \<Longrightarrow> bit (take_bit n (w :: 'a::len word)) k \<longleftrightarrow> k < n \<and> bit w k"
  by (simp add: bit_take_bit_iff)

text \<open>A field that was set reads as the value, cut to its width; a disjoint field reads as before.\<close>

lemma bf_get_set:
  "bf_shift f + bf_width f \<le> LENGTH('a) \<Longrightarrow> bf_get f (bf_set f v (reg :: 'a::len word)) = take_bit (bf_width f) v"
  by (rule bit_word_eqI) (auto simp: bit_fields in_field_def bit_simps)

lemma bf_get_set_other:
  "\<forall>k. \<not> (in_field f k \<and> in_field g k) \<Longrightarrow> bf_get f (bf_set g v reg) = bf_get f reg"
  by (rule bit_word_eqI) (auto simp: bit_fields in_field_def)

lemma bf_bits_get: "bf_bits f (bf_get f reg) = bf_masked f (reg :: 'a::len word)"
  using bit_imp_le_length [of reg] by (intro bit_word_eqI) (auto simp: bit_fields in_field_def)


section \<open>Round trip of a bitset\<close>

definition fields_apart :: "bitfield \<Rightarrow> bitfield \<Rightarrow> bool" where
  "fields_apart f g \<longleftrightarrow> bf_shift f + bf_width f \<le> bf_shift g \<or> bf_shift g + bf_width g \<le> bf_shift f"

lemma fields_apartD: "fields_apart f g \<Longrightarrow> in_field f k \<Longrightarrow> \<not> in_field g k"
  by (auto simp: fields_apart_def in_field_def)

lemma fields_apart_sym: "fields_apart f g \<Longrightarrow> fields_apart g f"
  by (auto simp: fields_apart_def)

definition field_inside :: "'a::len itself \<Rightarrow> bitfield \<Rightarrow> bool" where
  "field_inside T f \<longleftrightarrow> bf_shift f + bf_width f \<le> LENGTH('a)"

lemma bit_bs3_get:
  "bit (bs3_get f g h reg) k \<longleftrightarrow> k < LENGTH('a) \<and>
     (if k < bf_width f then bit (reg :: 'a::len word) (bf_shift f + k)
      else if k < bf_width f + bf_width g then bit reg (bf_shift g + (k - bf_width f))
      else k < bf_width f + bf_width g + bf_width h \<and> bit reg (bf_shift h + (k - (bf_width f + bf_width g))))"
proof (cases "k < LENGTH('a)")
  case True
  then show ?thesis by (auto simp: bs3_get_def bs2_get_def bs2_width_def bit_bf_get bit_simps)
next
  case False
  then show ?thesis using bit_imp_le_length [of "bs3_get f g h reg" k] by blast
qed

lemma bit_bs3_set:
  assumes "fields_apart f g" "fields_apart f h" "fields_apart g h" "k < LENGTH('a)"
  shows "bit (bs3_set f g h v (reg :: 'a::len word)) k \<longleftrightarrow>
     (if in_field f k then bit v (k - bf_shift f)
      else if in_field g k then bit v (bf_width f + (k - bf_shift g))
      else if in_field h k then bit v (bf_width f + bf_width g + (k - bf_shift h))
      else bit reg k)"
  using assms fields_apartD [OF assms(1), of k] fields_apartD [OF assms(2), of k] fields_apartD [OF assms(3), of k]
  by (auto simp: bs3_set_def bs2_set_def bs2_width_def Let_def bit_fields bit_drop_bit_eq)

text \<open>
   Round trip of a bitset: a value written to a three-part bitset of pairwise disjoint fields inside
  the register is read back cut to the width of the bitset, and every bit of the register outside
  the three fields keeps its value.
\<close>

theorem bitset_round_trip:
  assumes "fields_apart f g" "fields_apart f h" "fields_apart g h"
    and "field_inside TYPE('a) f" "field_inside TYPE('a) g" "field_inside TYPE('a) h"
    and "bf_width f + bf_width g + bf_width h \<le> LENGTH('a)"
  shows "bs3_get f g h (bs3_set f g h v (reg :: 'a::len word)) = take_bit (bs2_width f g + bf_width h) v \<and>
    (\<forall>k < LENGTH('a). \<not> in_field f k \<and> \<not> in_field g k \<and> \<not> in_field h k \<longrightarrow>
       bit (bs3_set f g h v reg) k = bit reg k)"
proof (intro conjI allI impI)
  have inf: "in_field f (bf_shift f + k)" if "k < bf_width f" for f k using that by (simp add: in_field_def)
  have ng: "\<not> in_field f (bf_shift g + k)" if "k < bf_width g" for k
    using fields_apartD [OF assms(1), of "bf_shift g + k"] inf [OF that] by blast
  have nh: "\<not> in_field f (bf_shift h + k)" "\<not> in_field g (bf_shift h + k)" if "k < bf_width h" for k
    using fields_apartD [OF assms(2), of "bf_shift h + k"] fields_apartD [OF assms(3), of "bf_shift h + k"] inf [OF that]
    by blast+
  have le: "bf_shift f + bf_width f \<le> LENGTH('a)" "bf_shift g + bf_width g \<le> LENGTH('a)"
    "bf_shift h + bf_width h \<le> LENGTH('a)"
    using assms(4-6) by (simp_all add: field_inside_def)
  let ?r = "bs3_set f g h v reg"
  have rf: "bit ?r (bf_shift f + k) = bit v k" if "k < bf_width f" for k
    using that le(1) by (simp add: bit_bs3_set [OF assms(1-3)] inf)
  have rg: "bit ?r (bf_shift g + k) = bit v (bf_width f + k)" if "k < bf_width g" for k
    using that le(2) ng [OF that] by (simp add: bit_bs3_set [OF assms(1-3)] inf)
  have rh: "bit ?r (bf_shift h + k) = bit v (bf_width f + bf_width g + k)" if "k < bf_width h" for k
    using that le(3) nh [OF that] by (simp add: bit_bs3_set [OF assms(1-3)] inf)
  show "bs3_get f g h ?r = take_bit (bs2_width f g + bf_width h) v"
  proof (rule bit_word_eqI)
    fix k assume k: "k < LENGTH('a)"
    consider (f) "k < bf_width f" | (g) j where "k = bf_width f + j" "j < bf_width g"
      | (h) j where "k = bf_width f + bf_width g + j" "j < bf_width h"
      | (none) "bf_width f + bf_width g + bf_width h \<le> k"
      by (metis add.assoc add_less_cancel_left le_Suc_ex not_less)
    then show "bit (bs3_get f g h ?r) k \<longleftrightarrow> bit (take_bit (bs2_width f g + bf_width h) v) k"
      using k by cases (simp_all add: bit_bs3_get bs2_width_def bit_simps rf rg rh)
  qed
qed (simp add: bit_bs3_set [OF assms(1-3)])

text \<open>The memory-type bitset of a page descriptor: bits 3, 4 and 12.\<close>

theorem bitset_round_trip_witness:
  "bs3_get (Bitfield 3 1) (Bitfield 4 1) (Bitfield 12 1)
     (bs3_set (Bitfield 3 1) (Bitfield 4 1) (Bitfield 12 1) 5 (0xabcd :: 64 word)) =
     take_bit (bs2_width (Bitfield 3 1) (Bitfield 4 1) + bf_width (Bitfield 12 1)) 5"
  by (rule bitset_round_trip [THEN conjunct1]) (simp_all add: fields_apart_def field_inside_def)

end
