(* ===== verification/Page_Table.thy ===== *)
theory Page_Table
  imports Registers Bit_Array
begin

text \<open>
  The page tables of the base-hw kernel on x86_64: \<open>hw/spec/x86_64/page_table.h\<close> with the allocator of
  tables of \<open>hw/page_table_allocator.h\<close> and the flags of \<open>hw/page_flags.h\<close>.  Tables live in an
  explicit store from addresses to their 512 entries, because a directory and the tables behind it are
  linked by physical addresses; a table that was destroyed leaves the store, so that a use of it shows
  as a fault.
\<close>

section \<open>Page flags\<close>

datatype writeable = RO | RW
datatype executeable = NO_EXEC | EXEC
datatype privileged = USER | KERN
datatype global_flag = NO_GLOBAL | GLOBAL
datatype memory_type = RAM | DEVICE
datatype cache_attribute = UNCACHED | WRITE_COMBINED | CACHED

record page_flags =
  pf_writeable :: writeable
  pf_executable :: executeable
  pf_privileged :: privileged
  pf_global :: global_flag
  pf_type :: memory_type
  pf_cacheable :: cache_attribute

definition PAGE_FLAGS_KERN_IO :: page_flags where
  "PAGE_FLAGS_KERN_IO = \<lparr> pf_writeable = RW, pf_executable = NO_EXEC, pf_privileged = KERN,
     pf_global = GLOBAL, pf_type = DEVICE, pf_cacheable = UNCACHED \<rparr>"

definition PAGE_FLAGS_KERN_DATA :: page_flags where
  "PAGE_FLAGS_KERN_DATA = \<lparr> pf_writeable = RW, pf_executable = EXEC, pf_privileged = KERN,
     pf_global = GLOBAL, pf_type = RAM, pf_cacheable = CACHED \<rparr>"

definition PAGE_FLAGS_UTCB :: page_flags where
  "PAGE_FLAGS_UTCB = \<lparr> pf_writeable = RW, pf_executable = NO_EXEC, pf_privileged = USER,
     pf_global = NO_GLOBAL, pf_type = RAM, pf_cacheable = CACHED \<rparr>"


section \<open>Alignment helpers\<close>

definition hw_trunc :: "addr \<Rightarrow> nat \<Rightarrow> addr" where
  "hw_trunc a alignm_log2 = push_bit alignm_log2 (drop_bit alignm_log2 a)"

definition hw_aligned :: "addr \<Rightarrow> nat \<Rightarrow> bool" where
  "hw_aligned p alignm_log2 \<longleftrightarrow> p = hw_trunc p alignm_log2"

definition hw_round :: "addr \<Rightarrow> nat \<Rightarrow> addr" where
  "hw_round a alignm_log2 = hw_trunc (a + push_bit alignm_log2 1 - 1) alignm_log2"


section \<open>Tables and their allocator\<close>

datatype pt_error =
    Out_of_tables | Double_insertion | Invalid_range | Misaligned
  | Bits_error bit_alloc_error

record table_space =
  ts_virt :: addr
  ts_phys :: addr
  ts_free :: bit_allocator
  ts_mem :: "addr \<Rightarrow> addr list option"

text \<open>
  An operation returns, throws an exception, which keeps what it has changed so far, or faults: it
  fails an assertion or uses an address where no table is.
\<close>

datatype 'a outcome = Fault | Thrown pt_error 'a | Returned 'a

fun and_then :: "'a outcome \<Rightarrow> ('a \<Rightarrow> 'a outcome) \<Rightarrow> 'a outcome" where
  "and_then Fault f = Fault"
| "and_then (Thrown e s) f = Thrown e s"
| "and_then (Returned s) f = f s"

abbreviation TABLE_SIZE :: "'a::len word" where "TABLE_SIZE \<equiv> 4096"
abbreviation MAX_ENTRIES :: nat where "MAX_ENTRIES \<equiv> 512"

definition pta_offset :: "table_space \<Rightarrow> addr \<Rightarrow> addr" where
  "pta_offset s table = table - ts_virt s"

definition pta_index :: "table_space \<Rightarrow> u32 \<Rightarrow> addr" where
  "pta_index s idx = ts_virt s + TABLE_SIZE * ucast idx"

definition pta_phys_addr :: "table_space \<Rightarrow> addr \<Rightarrow> addr" where
  "pta_phys_addr s table = pta_offset s table + ts_phys s"

definition pta_virt_addr :: "table_space \<Rightarrow> addr \<Rightarrow> addr" where
  "pta_virt_addr s phys_addr = ts_virt s + (phys_addr - ts_phys s)"

definition pta_alloc :: "table_space \<Rightarrow> ((pt_error + u32) \<times> table_space) option" where
  "pta_alloc s =
     (case ba_alloc 0 (ts_free s) of
        None \<Rightarrow> None
      | Some (Inr i, a) \<Rightarrow> Some (Inr (ucast i), s\<lparr> ts_free := a \<rparr>)
      | Some (Inl Out_of_indices, a) \<Rightarrow> Some (Inl Out_of_tables, s\<lparr> ts_free := a \<rparr>)
      | Some (Inl e, a) \<Rightarrow> Some (Inl (Bits_error e), s\<lparr> ts_free := a \<rparr>))"

definition pta_free :: "u32 \<Rightarrow> table_space \<Rightarrow> table_space outcome" where
  "pta_free idx s =
     (case ba_free (ucast idx) 0 (ts_free s) of
        (None, a) \<Rightarrow> Returned (s\<lparr> ts_free := a \<rparr>)
      | (Some e, a) \<Rightarrow> Thrown (Bits_error (Array_error e)) (s\<lparr> ts_free := a \<rparr>))"

text \<open>The constructor of a table of any level, at a given place.\<close>

definition table_new :: "addr \<Rightarrow> table_space \<Rightarrow> table_space outcome" where
  "table_new table s =
     (if \<not> hw_aligned table 12 then Thrown Misaligned s
      else Returned (s\<lparr> ts_mem := (ts_mem s)(table \<mapsto> replicate MAX_ENTRIES 0) \<rparr>))"

definition pta_construct :: "table_space \<Rightarrow> (addr \<Rightarrow> table_space \<Rightarrow> table_space) \<Rightarrow> table_space outcome" where
  "pta_construct s link =
     (case pta_alloc s of
        None \<Rightarrow> Fault
      | Some (Inl e, s') \<Rightarrow> Thrown e s'
      | Some (Inr idx, s') \<Rightarrow>
          (let table = pta_index s' idx in and_then (table_new table s') (\<lambda>s. Returned (link table s))))"

definition pta_destruct :: "addr \<Rightarrow> table_space \<Rightarrow> table_space outcome" where
  "pta_destruct table s =
     pta_free (ucast (pta_offset s table div TABLE_SIZE)) (s\<lparr> ts_mem := (ts_mem s)(table := None) \<rparr>)"


section \<open>Entries of a table\<close>

definition pt_entry :: "table_space \<Rightarrow> addr \<Rightarrow> nat \<Rightarrow> addr option" where
  "pt_entry s table i =
     (case ts_mem s table of None \<Rightarrow> None | Some es \<Rightarrow> if i < length es then Some (es ! i) else None)"

definition pt_set_entry :: "addr \<Rightarrow> nat \<Rightarrow> addr \<Rightarrow> table_space \<Rightarrow> table_space" where
  "pt_set_entry table i desc s =
     s\<lparr> ts_mem := (ts_mem s)(table := map_option (\<lambda>es. es[i := desc]) (ts_mem s table)) \<rparr>"

definition pt_empty :: "table_space \<Rightarrow> addr \<Rightarrow> (addr \<Rightarrow> bool) \<Rightarrow> bool option" where
  "pt_empty s table present =
     map_option (\<lambda>es. list_all (\<lambda>desc. \<not> present desc) (take MAX_ENTRIES es)) (ts_mem s table)"


section \<open>Descriptors\<close>

definition Desc_P :: bitfield where "Desc_P = Bitfield 0 1"
definition Desc_Rw :: bitfield where "Desc_Rw = Bitfield 1 1"
definition Desc_Us :: bitfield where "Desc_Us = Bitfield 2 1"
definition Desc_Pwt :: bitfield where "Desc_Pwt = Bitfield 3 1"
definition Desc_Pcd :: bitfield where "Desc_Pcd = Bitfield 4 1"
definition Desc_A :: bitfield where "Desc_A = Bitfield 5 1"
definition Desc_D :: bitfield where "Desc_D = Bitfield 6 1"
definition Desc_Xd :: bitfield where "Desc_Xd = Bitfield 63 1"
definition Desc_Ps :: bitfield where "Desc_Ps = Bitfield 7 1"
definition Desc_G :: bitfield where "Desc_G = Bitfield 8 1"
definition Desc_Pa :: bitfield where "Desc_Pa = Bitfield 12 36"
definition Pml4_Pa :: bitfield where "Pml4_Pa = Bitfield 12 48"

definition desc_present :: "addr \<Rightarrow> bool" where
  "desc_present v \<longleftrightarrow> bf_get Desc_P v \<noteq> 0"

definition desc_maps_page :: "addr \<Rightarrow> bool" where
  "desc_maps_page v \<longleftrightarrow> bf_get Desc_Ps v \<noteq> 0"

definition common_create :: "page_flags \<Rightarrow> addr" where
  "common_create flags =
     bf_bits Desc_P 1
     OR bf_bits Desc_Rw (of_bool (pf_writeable flags = RW))
     OR bf_bits Desc_Us (of_bool (pf_privileged flags \<noteq> KERN))
     OR bf_bits Desc_Xd (of_bool (pf_executable flags \<noteq> EXEC))"

definition clear_mmu_flags :: "addr \<Rightarrow> addr" where
  "clear_mmu_flags v = bf_clear Desc_D (bf_clear Desc_A v)"

definition l4_create :: "page_flags \<Rightarrow> addr \<Rightarrow> addr" where
  "l4_create flags pa =
     common_create flags OR bf_bits Desc_G (of_bool (pf_global flags = GLOBAL)) OR bf_masked Desc_Pa pa"

text \<open>The address field of a large page depends on the size of the page.\<close>

definition page_pa :: "nat \<Rightarrow> bitfield" where
  "page_pa page_size_log2 = Bitfield page_size_log2 (48 - page_size_log2)"

definition page_create :: "nat \<Rightarrow> page_flags \<Rightarrow> addr \<Rightarrow> addr" where
  "page_create page_size_log2 flags pa =
     common_create flags OR bf_bits Desc_Ps 1 OR bf_bits Desc_G (of_bool (pf_global flags = GLOBAL))
     OR bf_masked (page_pa page_size_log2) pa"

definition table_flags :: page_flags where
  "table_flags = \<lparr> pf_writeable = RW, pf_executable = EXEC, pf_privileged = USER,
     pf_global = NO_GLOBAL, pf_type = RAM, pf_cacheable = CACHED \<rparr>"

definition table_create :: "addr \<Rightarrow> addr" where
  "table_create pa = common_create table_flags OR bf_masked Desc_Pa pa"

definition pml4_create :: "addr \<Rightarrow> addr" where
  "pml4_create pa = common_create table_flags OR bf_masked Pml4_Pa pa"


section \<open>Walking a range\<close>

datatype table_level = Level_4 | Level_3 | Level_2 | Pml4

fun page_size_log2 :: "table_level \<Rightarrow> nat" where
  "page_size_log2 Level_4 = 12"
| "page_size_log2 Level_3 = 21"
| "page_size_log2 Level_2 = 30"
| "page_size_log2 Pml4 = 39"

definition pt_page_size :: "table_level \<Rightarrow> addr" where
  "pt_page_size lv = push_bit (page_size_log2 lv) 1"

definition pt_page_mask :: "table_level \<Rightarrow> addr" where
  "pt_page_mask lv = NOT (push_bit (page_size_log2 lv) 1 - 1)"

text \<open>The top level wraps its index, so that the upper half of the address space is reached.\<close>

definition pt_slot :: "table_level \<Rightarrow> addr \<Rightarrow> nat" where
  "pt_slot lv vo =
     (case lv of
        Pml4 \<Rightarrow> unat (drop_bit 39 (vo AND (push_bit 48 1 - 1)))
      | _ \<Rightarrow> unat (drop_bit (page_size_log2 lv) vo))"

lemma page_size_log2_less: "page_size_log2 lv < 64" "12 \<le> page_size_log2 lv" "page_size_log2 lv \<le> 39"
  by (cases lv; simp)+

lemma pt_page_mask_shift: "vo AND pt_page_mask lv = push_bit (page_size_log2 lv) (drop_bit (page_size_log2 lv) vo)"
proof -
  have "pt_page_mask lv = NOT (mask (page_size_log2 lv))"
    by (simp add: pt_page_mask_def mask_eq_exp_minus_1)
  then show ?thesis by (simp only: and_not_mask)
qed

lemma unat_page_mask: "unat (vo AND pt_page_mask lv) = unat vo div 2 ^ page_size_log2 lv * 2 ^ page_size_log2 lv"
  unfolding pt_page_mask_shift by (rule unat_push_drop)

lemma unat_page_size: "unat (pt_page_size lv) = 2 ^ page_size_log2 lv"
  unfolding pt_page_size_def using page_size_log2_less(1) by (rule unat_step)

text \<open>The distance to the end of the page, also where the end wraps to zero.\<close>

lemma page_round_up:
  fixes p :: nat
  assumes "0 < p" "p dvd m" "x < m" "m \<le> x + p"
  shows "x div p * p = m - p"
proof -
  obtain k where k: "m = p * k" using assms(2) by blast
  have q: "k - 1 = x div p"
    using assms k by (intro div_nat_eqI [symmetric]) (simp_all add: algebra_simps diff_mult_distrib2)
  have "(k - 1) * p = p * k - p" by (metis diff_mult_distrib mult.commute mult_1)
  then show ?thesis by (simp only: k q)
qed

lemma unat_uminus: "w \<noteq> 0 \<Longrightarrow> unat (- w :: 64 word) = 2 ^ 64 - unat w"
proof -
  assume "w \<noteq> 0"
  then have "0 < unat w" "unat w < 2 ^ 64" using unsigned_less [of w] by (simp_all add: unat_gt_0)
  have "(- w) = of_nat (2 ^ 64 - unat w)"
    using \<open>unat w < 2 ^ 64\<close> by (simp add: of_nat_diff word_of_nat_eq_0_iff)
  then show ?thesis using \<open>0 < unat w\<close> by (simp add: unat_of_nat take_bit_nat_eq_self)
qed

lemma unat_end_distance:
  "unat (((vo + pt_page_size lv) AND pt_page_mask lv) - vo) =
     2 ^ page_size_log2 lv - unat vo mod 2 ^ page_size_log2 lv"
proof -
  define p x where "p = (2::nat) ^ page_size_log2 lv" and "x = unat vo"
  have p: "0 < p" "p dvd 2 ^ 64"
    unfolding p_def using page_size_log2_less(1) [of lv] by (simp, intro le_imp_power_dvd less_imp_le)
  have p64: "p < 2 ^ 64" unfolding p_def using page_size_log2_less(1) [of lv] by (rule power_strict_increasing) simp
  have x: "x < 2 ^ 64" using unsigned_less [of vo] by (simp add: x_def)
  have xm: "x = x div p * p + x mod p" "x mod p < p" using p(1) by simp_all
  have sum: "unat (vo + pt_page_size lv) = (x + p) mod 2 ^ 64"
    by (simp add: unat_word_ariths unat_page_size p_def x_def)
  show ?thesis
  proof (cases "x + p < 2 ^ 64")
    case True
    then have e: "unat ((vo + pt_page_size lv) AND pt_page_mask lv) = x div p * p + p"
      using sum p(1) div_add_self2 [of p x] by (simp add: unat_page_mask p_def [symmetric] add_mult_distrib)
    then have "vo \<le> (vo + pt_page_size lv) AND pt_page_mask lv"
      using xm by (simp only: word_le_nat_alt x_def [symmetric])
    then show ?thesis using e xm by (simp add: unat_sub_no_wrap x_def p_def)
  next
    case False
    then have "(x + p) mod 2 ^ 64 = x + p - 2 ^ 64"
      using x p(2) dvd_imp_le [OF p(2)] by (simp add: mod_if)
    then have "unat ((vo + pt_page_size lv) AND pt_page_mask lv) = 0"
      using sum x False p(1) by (simp add: unat_page_mask p_def [symmetric] div_less)
    then have "(vo + pt_page_size lv) AND pt_page_mask lv = 0" by (simp add: unat_eq_zero)
    moreover have "x div p * p = 2 ^ 64 - p" using False x p by (intro page_round_up) simp_all
    moreover have "unat (- vo) = 2 ^ 64 - x" if "vo \<noteq> 0" using that by (simp add: x_def unat_uminus)
    ultimately show ?thesis using False xm p64 by (cases "vo = 0") (simp_all add: x_def p_def)
  qed
qed

lemma unat_min: "unat (min a b) = min (unat a) (unat b)"
  by (simp add: min_def word_le_nat_alt)

lemma range_op_smaller:
  assumes "n > 0"
  shows "unat (n - min n (((vo + pt_page_size lv) AND pt_page_mask lv) - vo)) < unat n"
proof -
  have "0 < unat (((vo + pt_page_size lv) AND pt_page_mask lv) - vo)"
    by (simp only: unat_end_distance) simp
  moreover have "0 < unat n" using assms by (simp add: word_less_nat_alt)
  ultimately have "0 < unat (min n (((vo + pt_page_size lv) AND pt_page_mask lv) - vo))"
    by (simp only: unat_min min_less_iff_conj)
  then show ?thesis using \<open>0 < unat n\<close> by (subst unat_sub_no_wrap) simp_all
qed

function (sequential) range_op ::
  "table_level \<Rightarrow> (addr \<Rightarrow> addr \<Rightarrow> addr \<Rightarrow> nat \<Rightarrow> table_space \<Rightarrow> table_space outcome) \<Rightarrow>
     addr \<Rightarrow> addr \<Rightarrow> addr \<Rightarrow> table_space \<Rightarrow> table_space outcome" where
  "range_op lv func vo pa n s =
     (if \<not> n > 0 then Returned s
      else if \<not> pt_slot lv vo < MAX_ENTRIES then Fault
      else
        (let en = (vo + pt_page_size lv) AND pt_page_mask lv;
             sz = min n (en - vo)
         in case func vo pa sz (pt_slot lv vo) s of
              Returned s' \<Rightarrow>
                (if en < vo then Returned s' else range_op lv func (vo + sz) (pa + sz) (n - sz) s')
            | r \<Rightarrow> r))"
  by pat_completeness auto
termination
  by (relation "measure (\<lambda>(lv, func, vo, pa, n, s). unat n)") (auto intro: range_op_smaller)

declare range_op.simps [simp del]


section \<open>The last level\<close>

definition l4_insert_func ::
  "addr \<Rightarrow> page_flags \<Rightarrow> addr \<Rightarrow> addr \<Rightarrow> addr \<Rightarrow> nat \<Rightarrow> table_space \<Rightarrow> table_space outcome" where
  "l4_insert_func table flags vo pa n i s =
     (if vo AND NOT (pt_page_mask Level_4) \<noteq> 0 \<or> pa AND NOT (pt_page_mask Level_4) \<noteq> 0
          \<or> n < pt_page_size Level_4
      then Thrown Invalid_range s
      else case pt_entry s table i of
        None \<Rightarrow> Fault
      | Some desc \<Rightarrow>
          (let table_entry = l4_create flags pa in
           if desc_present desc \<and> clear_mmu_flags desc \<noteq> table_entry then Thrown Double_insertion s
           else Returned (pt_set_entry table i table_entry s)))"

definition l4_remove_func ::
  "addr \<Rightarrow> addr \<Rightarrow> addr \<Rightarrow> addr \<Rightarrow> nat \<Rightarrow> table_space \<Rightarrow> table_space outcome" where
  "l4_remove_func table vo pa n i s =
     (case pt_entry s table i of None \<Rightarrow> Fault | Some desc \<Rightarrow> Returned (pt_set_entry table i 0 s))"

definition l4_insert ::
  "addr \<Rightarrow> addr \<Rightarrow> addr \<Rightarrow> addr \<Rightarrow> page_flags \<Rightarrow> table_space \<Rightarrow> table_space outcome" where
  "l4_insert table vo pa n flags = range_op Level_4 (l4_insert_func table flags) vo pa n"

definition l4_remove :: "addr \<Rightarrow> addr \<Rightarrow> addr \<Rightarrow> table_space \<Rightarrow> table_space outcome" where
  "l4_remove table vo n = range_op Level_4 (l4_remove_func table) vo 0 n"

definition l4_empty :: "table_space \<Rightarrow> addr \<Rightarrow> bool option" where
  "l4_empty s table = pt_empty s table desc_present"


section \<open>Page directories\<close>

text \<open>
  The class template \<open>Page_directory\<close>: its parameters are the operations of the next level and the size
  of a page.
\<close>

definition pd_insert_func ::
  "table_level \<Rightarrow> (addr \<Rightarrow> addr \<Rightarrow> addr \<Rightarrow> addr \<Rightarrow> page_flags \<Rightarrow> table_space \<Rightarrow> table_space outcome) \<Rightarrow>
     addr \<Rightarrow> page_flags \<Rightarrow> addr \<Rightarrow> addr \<Rightarrow> addr \<Rightarrow> nat \<Rightarrow> table_space \<Rightarrow> table_space outcome" where
  "pd_insert_func lv next_insert table flags vo pa n i s =
     (case pt_entry s table i of
        None \<Rightarrow> Fault
      | Some desc \<Rightarrow>
          if \<not> (vo AND NOT (pt_page_mask lv) \<noteq> 0 \<or> pa AND NOT (pt_page_mask lv) \<noteq> 0 \<or> n < pt_page_size lv)
          then
            (let table_entry = page_create (page_size_log2 lv) flags pa in
             if desc_present desc \<and> clear_mmu_flags desc \<noteq> table_entry then Thrown Double_insertion s
             else Returned (pt_set_entry table i table_entry s))
          else
            and_then
              (if \<not> desc_present desc then
                 pta_construct s (\<lambda>next s. pt_set_entry table i (table_create (pta_phys_addr s next)) s)
               else if desc_maps_page desc then Thrown Double_insertion s
               else Returned s)
              (\<lambda>s. case pt_entry s table i of
                 None \<Rightarrow> Fault
               | Some desc \<Rightarrow>
                   next_insert (pta_virt_addr s (bf_masked Desc_Pa desc)) (vo - (vo AND pt_page_mask lv)) pa n flags s))"

definition pd_remove_func ::
  "table_level \<Rightarrow> (addr \<Rightarrow> addr \<Rightarrow> addr \<Rightarrow> table_space \<Rightarrow> table_space outcome) \<Rightarrow>
     (table_space \<Rightarrow> addr \<Rightarrow> bool option) \<Rightarrow>
     addr \<Rightarrow> addr \<Rightarrow> addr \<Rightarrow> addr \<Rightarrow> nat \<Rightarrow> table_space \<Rightarrow> table_space outcome" where
  "pd_remove_func lv next_remove next_empty table vo pa n i s =
     (case pt_entry s table i of
        None \<Rightarrow> Fault
      | Some desc \<Rightarrow>
          if desc_present desc then
            if desc_maps_page desc then Returned (pt_set_entry table i 0 s)
            else
              (let next = pta_virt_addr s (bf_masked Desc_Pa desc);
                   table_vo = vo - (vo AND pt_page_mask lv)
               in and_then (next_remove next table_vo n s)
                    (\<lambda>s. case next_empty s next of
                       None \<Rightarrow> Fault
                     | Some True \<Rightarrow> and_then (pta_destruct next s) (\<lambda>s. Returned (pt_set_entry table i 0 s))
                     | Some False \<Rightarrow> Returned s))
          else Returned s)"

definition pd_insert ::
  "table_level \<Rightarrow> (addr \<Rightarrow> addr \<Rightarrow> addr \<Rightarrow> addr \<Rightarrow> page_flags \<Rightarrow> table_space \<Rightarrow> table_space outcome) \<Rightarrow>
     addr \<Rightarrow> addr \<Rightarrow> addr \<Rightarrow> addr \<Rightarrow> page_flags \<Rightarrow> table_space \<Rightarrow> table_space outcome" where
  "pd_insert lv next_insert table vo pa n flags =
     range_op lv (pd_insert_func lv next_insert table flags) vo pa n"

definition pd_remove ::
  "table_level \<Rightarrow> (addr \<Rightarrow> addr \<Rightarrow> addr \<Rightarrow> table_space \<Rightarrow> table_space outcome) \<Rightarrow>
     (table_space \<Rightarrow> addr \<Rightarrow> bool option) \<Rightarrow> addr \<Rightarrow> addr \<Rightarrow> addr \<Rightarrow> table_space \<Rightarrow> table_space outcome" where
  "pd_remove lv next_remove next_empty table vo n =
     range_op lv (pd_remove_func lv next_remove next_empty table) vo 0 n"

definition pd_empty :: "table_space \<Rightarrow> addr \<Rightarrow> bool option" where
  "pd_empty s table = pt_empty s table desc_present"

definition l3_insert where "l3_insert = pd_insert Level_3 l4_insert"
definition l3_remove where "l3_remove = pd_remove Level_3 l4_remove l4_empty"
definition l2_insert where "l2_insert = pd_insert Level_2 l3_insert"
definition l2_remove where "l2_remove = pd_remove Level_2 l3_remove pd_empty"


section \<open>The top level\<close>

definition pml4_insert_func ::
  "addr \<Rightarrow> page_flags \<Rightarrow> addr \<Rightarrow> addr \<Rightarrow> addr \<Rightarrow> nat \<Rightarrow> table_space \<Rightarrow> table_space outcome" where
  "pml4_insert_func table flags vo pa n i s =
     (case pt_entry s table i of
        None \<Rightarrow> Fault
      | Some desc \<Rightarrow>
          and_then
            (if \<not> desc_present desc then
               pta_construct s (\<lambda>next s. pt_set_entry table i (pml4_create (pta_phys_addr s next)) s)
             else Returned s)
            (\<lambda>s. case pt_entry s table i of
               None \<Rightarrow> Fault
             | Some desc \<Rightarrow>
                 l2_insert (pta_virt_addr s (bf_masked Pml4_Pa desc)) (vo - (vo AND pt_page_mask Pml4)) pa n flags s))"

definition pml4_remove_func ::
  "addr \<Rightarrow> addr \<Rightarrow> addr \<Rightarrow> addr \<Rightarrow> nat \<Rightarrow> table_space \<Rightarrow> table_space outcome" where
  "pml4_remove_func table vo pa n i s =
     (case pt_entry s table i of
        None \<Rightarrow> Fault
      | Some desc \<Rightarrow>
          if desc_present desc then
            (let next = pta_virt_addr s (bf_masked Pml4_Pa desc);
                 table_vo = vo - (vo AND pt_page_mask Pml4)
             in and_then (l2_remove next table_vo n s)
                  (\<lambda>s. case pd_empty s next of
                     None \<Rightarrow> Fault
                   | Some True \<Rightarrow> and_then (pta_destruct next s) (\<lambda>s. Returned (pt_set_entry table i 0 s))
                   | Some False \<Rightarrow> Returned s))
          else Returned s)"

definition pml4_insert ::
  "addr \<Rightarrow> addr \<Rightarrow> addr \<Rightarrow> addr \<Rightarrow> page_flags \<Rightarrow> table_space \<Rightarrow> table_space outcome" where
  "pml4_insert table vo pa n flags = range_op Pml4 (pml4_insert_func table flags) vo pa n"

definition pml4_remove :: "addr \<Rightarrow> addr \<Rightarrow> addr \<Rightarrow> table_space \<Rightarrow> table_space outcome" where
  "pml4_remove table vo n = range_op Pml4 (pml4_remove_func table) vo 0 n"

definition pml4_empty :: "table_space \<Rightarrow> addr \<Rightarrow> bool option" where
  "pml4_empty s table = pt_empty s table desc_present"

text \<open>
  The table of a protection domain starts with the entries of the kernel's table from the first one of
  the kernel's area on.
\<close>

definition pml4_first_kernel :: nat where
  "pml4_first_kernel = unat (drop_bit 39 ((0xffffffc000000000 :: addr) AND (push_bit 48 1 - 1)))"

definition pml4_copy :: "addr \<Rightarrow> addr \<Rightarrow> table_space \<Rightarrow> table_space outcome" where
  "pml4_copy table kernel_table s =
     and_then (table_new table s)
       (\<lambda>s. case ts_mem s kernel_table of
          None \<Rightarrow> Fault
        | Some ks \<Rightarrow>
            Returned (fold (\<lambda>i. pt_set_entry table i (ks ! i)) [pml4_first_kernel..<MAX_ENTRIES] s))"

end
