(* ===== verification/Page_Table_Spec.thy ===== *)
theory Page_Table_Spec
  imports Page_Table
begin

text \<open>
  What the page tables are for: the walk of the memory-management unit through them, and the contract
  of an insertion and of a removal over that walk.  The walk is written from the architecture (a
  9-bit index per level, a 52-bit physical address in an entry, rights combined over the levels) and
  uses none of the descriptor fields of the code.
\<close>

section \<open>The walk of the hardware\<close>

record translation =
  tr_addr :: addr
  tr_write :: bool
  tr_user :: bool
  tr_exec :: bool
  tr_global :: bool
  tr_log2 :: nat

definition hw_address :: "nat \<Rightarrow> addr \<Rightarrow> addr" where
  "hw_address n d = take_bit 52 d AND NOT (mask n)"

definition hw_index :: "nat \<Rightarrow> addr \<Rightarrow> nat" where
  "hw_index n v = unat (take_bit 9 (drop_bit n v))"

definition hw_leaf :: "nat \<Rightarrow> addr \<Rightarrow> addr \<Rightarrow> translation" where
  "hw_leaf n d v = \<lparr> tr_addr = hw_address n d OR take_bit n v, tr_write = bit d 1, tr_user = bit d 2,
     tr_exec = (\<not> bit d 63), tr_global = bit d 8, tr_log2 = n \<rparr>"

definition hw_restrict :: "addr \<Rightarrow> translation \<Rightarrow> translation" where
  "hw_restrict d m = m\<lparr> tr_write := (tr_write m \<and> bit d 1), tr_user := (tr_user m \<and> bit d 2),
     tr_exec := (tr_exec m \<and> \<not> bit d 63) \<rparr>"

text \<open>A table is found by its physical address in the window of the table allocator.\<close>

definition hw_table :: "table_space \<Rightarrow> addr \<Rightarrow> addr" where
  "hw_table s d = ts_virt s + (hw_address 12 d - ts_phys s)"

definition hw_leaf_entry :: "table_space \<Rightarrow> addr \<Rightarrow> addr \<Rightarrow> translation option" where
  "hw_leaf_entry s d v = (if bit d 0 then Some (hw_leaf 12 d v) else None)"

definition hw_table_entry ::
  "(table_space \<Rightarrow> addr \<Rightarrow> addr \<Rightarrow> translation option) \<Rightarrow> table_space \<Rightarrow> addr \<Rightarrow> addr \<Rightarrow> translation option" where
  "hw_table_entry next s d v =
     (if bit d 0 then map_option (hw_restrict d) (next s (hw_table s d) v) else None)"

definition hw_dir_entry ::
  "nat \<Rightarrow> (table_space \<Rightarrow> addr \<Rightarrow> addr \<Rightarrow> translation option) \<Rightarrow> table_space \<Rightarrow> addr \<Rightarrow> addr \<Rightarrow> translation option" where
  "hw_dir_entry n next s d v =
     (if bit d 0 \<and> bit d 7 then Some (hw_leaf n d v) else hw_table_entry next s d v)"

definition hw_walk ::
  "nat \<Rightarrow> (table_space \<Rightarrow> addr \<Rightarrow> addr \<Rightarrow> translation option) \<Rightarrow> table_space \<Rightarrow> addr \<Rightarrow> addr \<Rightarrow> translation option" where
  "hw_walk n entry s table v =
     (case pt_entry s table (hw_index n v) of None \<Rightarrow> None | Some d \<Rightarrow> entry s d v)"

definition l4_walk where "l4_walk = hw_walk 12 hw_leaf_entry"
definition l3_walk where "l3_walk = hw_walk 21 (hw_dir_entry 21 l4_walk)"
definition l2_walk where "l2_walk = hw_walk 30 (hw_dir_entry 30 l3_walk)"
definition pml4_walk where "pml4_walk = hw_walk 39 (hw_table_entry l2_walk)"


section \<open>Outcomes and ranges\<close>

fun post :: "'a outcome \<Rightarrow> ('a \<Rightarrow> bool) \<Rightarrow> (pt_error \<Rightarrow> 'a \<Rightarrow> bool) \<Rightarrow> bool" where
  "post Fault Q E = False"
| "post (Thrown e s) Q E = E e s"
| "post (Returned s) Q E = Q s"

lemma post_and_then:
  "post r R E \<Longrightarrow> (\<And>s. R s \<Longrightarrow> post (f s) Q E) \<Longrightarrow> post (and_then r f) Q E"
  by (cases r) auto

lemma post_mono:
  "post r Q E \<Longrightarrow> (\<And>s. Q s \<Longrightarrow> Q' s) \<Longrightarrow> (\<And>e s. E e s \<Longrightarrow> E' e s) \<Longrightarrow> post r Q' E'"
  by (cases r) auto

definition in_range :: "addr \<Rightarrow> nat \<Rightarrow> addr \<Rightarrow> bool" where
  "in_range vo k v \<longleftrightarrow> unat vo \<le> unat v \<and> unat v < unat vo + k"

text \<open>The rule for the loop: an invariant over the distance covered so far.\<close>

lemma range_op_rule:
  assumes bound: "unat vo + unat n \<le> 2 ^ 64"
    and slot: "\<And>v. in_range vo (unat n) v \<Longrightarrow> pt_slot lv v < MAX_ENTRIES"
    and step: "\<And>v m s. in_range vo (unat n) v \<Longrightarrow> P (unat v - unat vo) s \<Longrightarrow>
        unat m = min (unat vo + unat n - unat v) (2 ^ page_size_log2 lv - unat v mod 2 ^ page_size_log2 lv) \<Longrightarrow>
        post (func v (pa + (v - vo)) m (pt_slot lv v) s) (P (unat v - unat vo + unat m)) E"
    and init: "P 0 s"
  shows "post (range_op lv func vo pa n s) (P (unat n)) E"
proof -
  have "post (range_op lv func v (pa + (v - vo)) m s) (P (unat n)) E"
    if "unat v + unat m = unat vo + unat n" "unat vo \<le> unat v" "P (unat v - unat vo) s" for v m s
    using that
  proof (induction "unat m" arbitrary: v m s rule: less_induct)
    case less
    show ?case
    proof (cases "m > 0")
      case False
      then have "m = 0" by (metis word_gt_0)
      with less.prems show ?thesis by (subst range_op.simps) simp
    next
      case True
      define en where "en = (v + pt_page_size lv) AND pt_page_mask lv"
      define sz where "sz = min m (en - v)"
      have m: "0 < unat m" using True by (simp add: word_less_nat_alt)
      have r: "in_range vo (unat n) v" using less.prems m by (simp add: in_range_def)
      have d: "unat (en - v) = 2 ^ page_size_log2 lv - unat v mod 2 ^ page_size_log2 lv"
        unfolding en_def by (rule unat_end_distance)
      have sz: "unat sz = min (unat vo + unat n - unat v) (2 ^ page_size_log2 lv - unat v mod 2 ^ page_size_log2 lv)"
        using less.prems(1) by (simp add: sz_def unat_min d)
      have szm: "unat sz \<le> unat m" using less.prems(1) sz by simp
      have po: "post (func v (pa + (v - vo)) sz (pt_slot lv v) s) (P (unat v - unat vo + unat sz)) E"
        by (rule step [OF r less.prems(3) sz])
      have eq: "range_op lv func v (pa + (v - vo)) m s =
          (case func v (pa + (v - vo)) sz (pt_slot lv v) s of
             Returned s' \<Rightarrow> if en < v then Returned s'
               else range_op lv func (v + sz) (pa + (v - vo) + sz) (m - sz) s'
           | r \<Rightarrow> r)"
        using True slot [OF r] by (subst range_op.simps) (simp add: Let_def en_def sz_def cong: outcome.case_cong if_cong)
      show ?thesis
      proof (cases "func v (pa + (v - vo)) sz (pt_slot lv v) s")
        case (Returned s')
        then have P: "P (unat v - unat vo + unat sz) s'" using po by simp
        show ?thesis
        proof (cases "en < v")
          case wrap: True
          have "unat (en - v) = 2 ^ 64 - unat v + unat en"
          proof -
            have "v - en \<noteq> 0" using wrap by auto
            moreover have "en - v = - (v - en)" by simp
            moreover have "unat (v - en) = unat v - unat en"
              using wrap by (simp add: unat_sub_no_wrap)
            ultimately have "unat (en - v) = 2 ^ 64 - (unat v - unat en)" by (metis unat_uminus)
            then show ?thesis using wrap unat_less_64 [of v] by (simp add: word_less_nat_alt)
          qed
          then have "unat m \<le> unat (en - v)" using less.prems(1) bound by linarith
          then have "unat sz = unat m" by (simp add: sz_def unat_min)
          then have "unat v - unat vo + unat sz = unat n" using less.prems(1,2) by linarith
          then show ?thesis using P wrap Returned by (simp add: eq)
        next
          case False
          have "0 < unat (en - v)" by (simp only: d) simp
          then have szp: "0 < unat sz" using m by (simp add: sz_def unat_min)
          have nw: "unat v + unat sz < 2 ^ 64"
          proof (rule ccontr)
            assume "\<not> ?thesis"
            moreover have "unat (en - v) = unat en - unat v" using False by (simp add: unat_sub_no_wrap)
            moreover have "unat sz \<le> unat (en - v)" by (simp add: sz_def unat_min)
            ultimately show False using unat_less_64 [of en] False by (simp add: word_less_nat_alt)
          qed
          have v': "unat (v + sz) = unat v + unat sz" using nw by (simp add: unat_add_no_wrap)
          have m': "unat (m - sz) = unat m - unat sz" using szm by (simp add: unat_sub_no_wrap word_le_nat_alt)
          have "post (range_op lv func (v + sz) (pa + ((v + sz) - vo)) (m - sz) s') (P (unat n)) E"
          proof (rule less.hyps)
            show "unat (m - sz) < unat m" using m' szp m by simp
            show "unat (v + sz) + unat (m - sz) = unat vo + unat n" using v' m' szm less.prems(1) by simp
            show "unat vo \<le> unat (v + sz)" using v' less.prems(2) by simp
            show "P (unat (v + sz) - unat vo) s'" using P v' less.prems(2) by simp
          qed
          moreover have "pa + (v - vo) + sz = pa + ((v + sz) - vo)" by simp
          ultimately show ?thesis using False Returned by (simp only: eq) simp
        qed
      next
        case Fault
        then show ?thesis using po by simp
      next
        case (Thrown e s')
        then show ?thesis using po by (simp add: eq)
      qed
    qed
  qed
  from this [of vo n s] init show ?thesis by simp
qed


section \<open>The memory of the tables\<close>

definition arena :: "table_space \<Rightarrow> addr set" where
  "arena s = {ts_virt s + 4096 * of_nat i | i. i < bit_len (ba_array (ts_free s))}"

definition used_tables :: "table_space \<Rightarrow> addr set" where
  "used_tables s = {ts_virt s + 4096 * of_nat i | i.
     i < bit_len (ba_array (ts_free s)) \<and> bit_at (ba_array (ts_free s)) i}"

definition spare_tables :: "table_space \<Rightarrow> addr set" where
  "spare_tables s = arena s - used_tables s"

definition pta_ok :: "table_space \<Rightarrow> bool" where
  "pta_ok s \<longleftrightarrow> 4096 dvd unat (ts_virt s) \<and> 4096 dvd unat (ts_phys s)
     \<and> bit_len (ba_array (ts_free s)) \<le> 2 ^ 32
     \<and> unat (ts_virt s) + 4096 * bit_len (ba_array (ts_free s)) \<le> 2 ^ 64
     \<and> unat (ts_phys s) + 4096 * bit_len (ba_array (ts_free s)) \<le> 2 ^ 48"

definition same_arena :: "table_space \<Rightarrow> table_space \<Rightarrow> bool" where
  "same_arena s s' \<longleftrightarrow> pta_ok s' \<and> ts_virt s' = ts_virt s \<and> ts_phys s' = ts_phys s \<and> arena s' = arena s"

text \<open>
  A structure owns the set \<open>D\<close> of tables before and \<open>D'\<close> after an operation: what it gains came from the
  spare tables, what it loses went back to them, and apart from these tables only the addresses in \<open>X\<close>
  have changed.
\<close>

definition grown :: "addr set \<Rightarrow> addr set \<Rightarrow> addr set \<Rightarrow> table_space \<Rightarrow> table_space \<Rightarrow> bool" where
  "grown X D D' s s' \<longleftrightarrow> same_arena s s' \<and> used_tables s' = used_tables s \<union> D' \<and> D' \<inter> used_tables s = D
     \<and> (\<forall>a. a \<notin> X \<union> D' \<longrightarrow> ts_mem s' a = ts_mem s a)"

definition shrunk :: "addr set \<Rightarrow> addr set \<Rightarrow> addr set \<Rightarrow> table_space \<Rightarrow> table_space \<Rightarrow> bool" where
  "shrunk X D D' s s' \<longleftrightarrow> same_arena s s' \<and> used_tables s' = used_tables s - (D - D') \<and> D' \<subseteq> D
     \<and> (\<forall>a. a \<notin> X \<union> D \<longrightarrow> ts_mem s' a = ts_mem s a)"

definition owns :: "addr \<Rightarrow> addr set \<Rightarrow> table_space \<Rightarrow> bool" where
  "owns t D s \<longleftrightarrow> pta_ok s \<and> D \<subseteq> used_tables s \<and> t \<notin> D \<and> t \<notin> spare_tables s"

lemma used_arena: "used_tables s \<subseteq> arena s"
  by (auto simp: used_tables_def arena_def)

lemma grown_trans: "grown X D D' s s' \<Longrightarrow> grown X D' D'' s' s'' \<Longrightarrow> grown X D D'' s s''"
proof -
  assume a: "grown X D D' s s'" "grown X D' D'' s' s''"
  then have d: "D' \<subseteq> D''" by (auto simp: grown_def)
  then have "ts_mem s'' a = ts_mem s a" if "a \<notin> X \<union> D''" for a
    using a that unfolding grown_def by (metis UnCI UnE subsetD)
  moreover have "used_tables s'' = used_tables s \<union> D''" "D'' \<inter> used_tables s = D"
    using a d by (auto simp: grown_def)
  moreover have "same_arena s s''" using a by (simp add: grown_def same_arena_def)
  ultimately show ?thesis unfolding grown_def by blast
qed

lemma shrunk_trans: "shrunk X D D' s s' \<Longrightarrow> shrunk X D' D'' s' s'' \<Longrightarrow> shrunk X D D'' s s''"
proof -
  assume a: "shrunk X D D' s s'" "shrunk X D' D'' s' s''"
  then have "ts_mem s'' a = ts_mem s a" if "a \<notin> X \<union> D" for a
    using that unfolding shrunk_def by (metis UnCI UnE subsetD)
  moreover have "used_tables s'' = used_tables s - (D - D'')" "D'' \<subseteq> D"
    using a by (auto simp: shrunk_def)
  moreover have "same_arena s s''" using a by (simp add: shrunk_def same_arena_def)
  ultimately show ?thesis unfolding shrunk_def by blast
qed

lemma grown_owns: "owns t D s \<Longrightarrow> grown X D D' s s' \<Longrightarrow> t \<notin> D' \<Longrightarrow> owns t D' s'"
  using used_arena [of s'] by (auto simp: owns_def grown_def same_arena_def spare_tables_def)

lemma shrunk_owns: "owns t D s \<Longrightarrow> shrunk X D D' s s' \<Longrightarrow> owns t D' s'"
  by (auto simp: owns_def shrunk_def same_arena_def spare_tables_def)


section \<open>Contracts over the walk\<close>

definition requested :: "addr \<Rightarrow> page_flags \<Rightarrow> addr \<Rightarrow> nat \<Rightarrow> translation" where
  "requested off fl v l = \<lparr> tr_addr = v + off, tr_write = (pf_writeable fl = RW), tr_user = (pf_privileged fl \<noteq> KERN),
     tr_exec = (pf_executable fl = EXEC), tr_global = (pf_global fl = GLOBAL), tr_log2 = l \<rparr>"

text \<open>
  \<open>added\<close>: every address keeps its translation, or it is in the range, had none and has the requested
  one now.  \<open>covered\<close>: every address of the range has the requested translation.
\<close>

definition added :: "addr set \<Rightarrow> addr \<Rightarrow> nat \<Rightarrow> addr \<Rightarrow> page_flags \<Rightarrow>
    (addr \<Rightarrow> translation option) \<Rightarrow> (addr \<Rightarrow> translation option) \<Rightarrow> bool" where
  "added S vo k off fl look look' \<longleftrightarrow> (\<forall>v\<in>S. look' v = look v \<or>
     (in_range vo k v \<and> look v = None \<and> (\<exists>l. look' v = Some (requested off fl v l))))"

definition covered :: "addr set \<Rightarrow> addr \<Rightarrow> nat \<Rightarrow> addr \<Rightarrow> page_flags \<Rightarrow> (addr \<Rightarrow> translation option) \<Rightarrow> bool" where
  "covered S vo k off fl look \<longleftrightarrow> (\<forall>v\<in>S. in_range vo k v \<longrightarrow> (\<exists>l. look v = Some (requested off fl v l)))"

text \<open>A removal takes away every page that the range touches.\<close>

definition hits :: "nat \<Rightarrow> nat \<Rightarrow> nat \<Rightarrow> nat \<Rightarrow> bool" where
  "hits lo k l v \<longleftrightarrow> (let b = v div 2 ^ l * 2 ^ l in max b lo < min (b + 2 ^ l) (lo + k))"

definition cut :: "addr set \<Rightarrow> nat \<Rightarrow> nat \<Rightarrow> (addr \<Rightarrow> translation option) \<Rightarrow> (addr \<Rightarrow> translation option) \<Rightarrow> bool" where
  "cut S lo k look look' \<longleftrightarrow> (\<forall>v\<in>S. look' v =
     (case look v of None \<Rightarrow> None | Some m \<Rightarrow> if hits lo k (tr_log2 m) (unat v) then None else Some m))"

lemma added_refl: "added S vo k off fl look look"
  by (simp add: added_def)

lemma added_trans:
  "added S vo k off fl f g \<Longrightarrow> added S vo k off fl g h \<Longrightarrow> added S vo k off fl f h"
  unfolding added_def by fastforce

lemma hits_split: "hits lo (k + m) l v \<longleftrightarrow> hits lo k l v \<or> hits (lo + k) m l v"
proof -
  have "(0::nat) < 2 ^ l" by simp
  then show ?thesis unfolding hits_def Let_def max_less_iff_conj min_less_iff_conj by linarith
qed

lemma hits_none [simp]: "\<not> hits lo 0 l v"
  by (simp add: hits_def Let_def)

lemma cut_refl: "cut S lo 0 look look"
  by (simp add: cut_def split: option.split)

lemma cut_trans: "cut S lo k f g \<Longrightarrow> cut S (lo + k) m g h \<Longrightarrow> cut S lo (k + m) f h"
  by (auto simp: cut_def hits_split split: option.split)

lemma page_base:
  fixes v :: nat
  assumes "l \<le> (p::nat)"
  shows "v div 2 ^ l * 2 ^ l = v div 2 ^ p * 2 ^ p + v mod 2 ^ p div 2 ^ l * 2 ^ l"
proof -
  have e: "(2::nat) ^ p = 2 ^ (p - l) * 2 ^ l" using assms by (simp add: power_add [symmetric])
  have "v = (v div 2 ^ p * 2 ^ (p - l)) * 2 ^ l + v mod 2 ^ p"
    unfolding mult.assoc e [symmetric] by (rule div_mult_mod_eq [symmetric])
  then have "v div 2 ^ l = v div 2 ^ p * 2 ^ (p - l) + v mod 2 ^ p div 2 ^ l"
    by (metis div_mult_self3 power_not_zero zero_neq_numeral add.commute)
  then show ?thesis using e by (simp add: algebra_simps)
qed

lemma page_inside: "l \<le> (p::nat) \<Longrightarrow> (v::nat) mod 2 ^ p div 2 ^ l * 2 ^ l + 2 ^ l \<le> 2 ^ p"
proof -
  assume "l \<le> p"
  then have e: "(2::nat) ^ p = 2 ^ (p - l) * 2 ^ l" by (simp add: power_add [symmetric])
  have "v mod 2 ^ p < 2 ^ (p - l) * 2 ^ l" by (simp add: e [symmetric])
  then have "v mod 2 ^ p div 2 ^ l < 2 ^ (p - l)" by (simp add: less_mult_imp_div_less)
  then have "v mod 2 ^ p div 2 ^ l + 1 \<le> 2 ^ (p - l)" by simp
  then have "(v mod 2 ^ p div 2 ^ l + 1) * 2 ^ l \<le> 2 ^ (p - l) * 2 ^ l" by (rule mult_le_mono1)
  then show ?thesis by (simp add: e)
qed

lemma hits_other_page:
  assumes "l \<le> p" "lo mod 2 ^ p + k \<le> 2 ^ p" "v div 2 ^ p \<noteq> lo div 2 ^ p"
  shows "\<not> hits lo k l v"
proof -
  have lo: "lo = lo div 2 ^ p * 2 ^ p + lo mod 2 ^ p" by (rule div_mult_mod_eq [symmetric])
  have i: "v mod 2 ^ p div 2 ^ l * 2 ^ l + 2 ^ l \<le> 2 ^ p" by (rule page_inside [OF assms(1)])
  consider "v div 2 ^ p + 1 \<le> lo div 2 ^ p" | "lo div 2 ^ p + 1 \<le> v div 2 ^ p" using assms(3) by linarith
  then show ?thesis
  proof cases
    case 1
    then have "(v div 2 ^ p + 1) * 2 ^ p \<le> lo div 2 ^ p * 2 ^ p" by (rule mult_le_mono1)
    then have "v div 2 ^ l * 2 ^ l + 2 ^ l \<le> lo" using i lo page_base [OF assms(1), of v] unfolding add_mult_distrib mult_1 by linarith
    then show ?thesis by (simp add: hits_def Let_def)
  next
    case 2
    then have "(lo div 2 ^ p + 1) * 2 ^ p \<le> v div 2 ^ p * 2 ^ p" by (rule mult_le_mono1)
    then have "lo + k \<le> v div 2 ^ l * 2 ^ l" using lo page_base [OF assms(1), of v] assms(2) unfolding add_mult_distrib mult_1 by linarith
    then show ?thesis by (simp add: hits_def Let_def)
  qed
qed

lemma hits_page: "l = p \<Longrightarrow> v div 2 ^ p = lo div 2 ^ p \<Longrightarrow> 0 < k \<Longrightarrow> hits lo k l v"
proof -
  assume a: "l = p" "v div 2 ^ p = lo div 2 ^ p" "0 < k"
  have "lo = lo div 2 ^ p * 2 ^ p + lo mod 2 ^ p" by (rule div_mult_mod_eq [symmetric])
  moreover have "lo mod 2 ^ p < 2 ^ p" by simp
  ultimately show ?thesis using a(3) unfolding hits_def Let_def a(1,2) max_less_iff_conj min_less_iff_conj by linarith
qed

lemma hits_offset:
  assumes "l \<le> p" "v div 2 ^ p = lo div 2 ^ p"
  shows "hits (lo mod 2 ^ p) k l (v mod 2 ^ p) \<longleftrightarrow> hits lo k l v"
proof -
  define q where "q = v div 2 ^ p * 2 ^ p"
  have "lo = q + lo mod 2 ^ p" unfolding q_def assms(2) by (rule div_mult_mod_eq [symmetric])
  moreover have "v div 2 ^ l * 2 ^ l = q + v mod 2 ^ p div 2 ^ l * 2 ^ l"
    unfolding q_def by (rule page_base [OF assms(1)])
  ultimately show ?thesis
    unfolding hits_def Let_def max_less_iff_conj min_less_iff_conj by linarith
qed

end
