(* ===== verification/Page_Table_Memory.thy ===== *)
theory Page_Table_Memory
  imports Page_Table_Spec
begin

text \<open>
  The allocator of tables over the bit allocator: \<open>construct\<close> turns a spare table into a used and empty
  one, \<open>destruct\<close> makes a used table spare again, and physical and virtual addresses of tables convert
  into each other through descriptors.
\<close>

section \<open>Addresses of tables\<close>

definition table_at :: "table_space \<Rightarrow> nat \<Rightarrow> addr" where
  "table_at s i = ts_virt s + 4096 * of_nat i"

definition table_count :: "table_space \<Rightarrow> nat" where
  "table_count s = bit_len (ba_array (ts_free s))"

definition table_bit :: "table_space \<Rightarrow> nat \<Rightarrow> bool" where
  "table_bit s i = bit_at (ba_array (ts_free s)) i"

lemma pta_okD:
  assumes "pta_ok s"
  shows "4096 dvd unat (ts_virt s)" "4096 dvd unat (ts_phys s)" "table_count s \<le> 4294967296"
    "unat (ts_virt s) + 4096 * table_count s \<le> 18446744073709551616"
    "unat (ts_phys s) + 4096 * table_count s \<le> 281474976710656"
  using assms by (simp_all add: pta_ok_def table_count_def)

lemma unat_offset: "i < 4294967296 \<Longrightarrow> unat (4096 * of_nat i :: addr) = 4096 * i"
  by (simp add: unat_word_ariths unat_of_nat take_bit_nat_eq_self)

lemma unat_table_at: "pta_ok s \<Longrightarrow> i < table_count s \<Longrightarrow> unat (table_at s i) = unat (ts_virt s) + 4096 * i"
proof -
  assume a: "pta_ok s" "i < table_count s"
  then have "unat (4096 * of_nat i :: addr) = 4096 * i" using pta_okD(3) [of s] by (intro unat_offset) simp
  then show ?thesis using a pta_okD(4) [of s] by (simp add: table_at_def unat_add_no_wrap)
qed

lemma table_at_inj:
  "pta_ok s \<Longrightarrow> i < table_count s \<Longrightarrow> j < table_count s \<Longrightarrow> table_at s i = table_at s j \<Longrightarrow> i = j"
proof -
  assume a: "pta_ok s" "i < table_count s" "j < table_count s" "table_at s i = table_at s j"
  have "unat (ts_virt s) + 4096 * i = unat (ts_virt s) + 4096 * j"
    using unat_table_at [OF a(1,2)] unat_table_at [OF a(1,3)] unfolding a(4) by (rule subst)
  then show ?thesis by simp
qed

lemma arena_eq: "arena s = table_at s ` {..<table_count s}"
  by (auto simp: arena_def table_at_def table_count_def)

lemma used_eq: "used_tables s = table_at s ` {i. i < table_count s \<and> table_bit s i}"
  by (auto simp: used_tables_def table_at_def table_count_def table_bit_def)

lemma spare_eq: "pta_ok s \<Longrightarrow> spare_tables s = table_at s ` {i. i < table_count s \<and> \<not> table_bit s i}"
  unfolding spare_tables_def arena_eq used_eq by (auto dest: table_at_inj)


section \<open>Aligned addresses\<close>

lemma hw_aligned_unat: "hw_aligned p n \<longleftrightarrow> 2 ^ n dvd unat p"
proof -
  have "hw_aligned p n \<longleftrightarrow> unat p = unat p div 2 ^ n * 2 ^ n"
    by (simp only: hw_aligned_def hw_trunc_def word_unat_eq_iff unat_push_drop)
  also have "\<dots> \<longleftrightarrow> 2 ^ n dvd unat p" by (metis dvd_div_mult_self dvd_triv_right)
  finally show ?thesis .
qed

lemma aligned_low_bits:
  assumes "2 ^ n dvd unat (p :: addr)" "k < n"
  shows "\<not> bit p k"
proof -
  have "bit (unat p) k \<longleftrightarrow> odd (unat p div 2 ^ k)" by (simp add: bit_iff_odd)
  moreover have "even (unat p div 2 ^ k)"
  proof -
    obtain q where "unat p = 2 ^ n * q" using assms(1) by blast
    moreover have "(2::nat) ^ n = 2 ^ k * 2 ^ (n - k)" using assms(2) by (simp add: power_add [symmetric])
    ultimately have "unat p div 2 ^ k = 2 ^ (n - k) * q" by simp
    then show ?thesis using assms(2) by simp
  qed
  ultimately show ?thesis by (simp add: bit_unsigned_iff)
qed

lemma small_high_bits:
  assumes "unat (p :: addr) < 2 ^ n" "n \<le> k"
  shows "\<not> bit p k"
proof -
  have "unat p < 2 ^ k" using assms by (meson less_le_trans one_le_numeral power_increasing)
  then have "\<not> bit (unat p) k" by (simp add: bit_iff_odd)
  then show ?thesis by (simp add: bit_unsigned_iff)
qed

definition table_phys :: "addr \<Rightarrow> bool" where
  "table_phys p \<longleftrightarrow> 4096 dvd unat p \<and> unat p < 2 ^ 48"

lemma table_phys_bit: "table_phys p \<Longrightarrow> bit p k \<Longrightarrow> 12 \<le> k \<and> k < 48"
  using aligned_low_bits [of 12 p k] small_high_bits [of p 48 k] by (auto simp: table_phys_def not_le [symmetric])

lemma phys_addr_ok:
  assumes "pta_ok s" "t \<in> arena s"
  shows "table_phys (pta_phys_addr s t)" "pta_virt_addr s (pta_phys_addr s t) = t"
proof -
  obtain i where i: "t = table_at s i" "i < table_count s" using assms(2) by (auto simp: arena_eq)
  have "pta_phys_addr s t = 4096 * of_nat i + ts_phys s"
    by (simp add: pta_phys_addr_def pta_offset_def i table_at_def)
  moreover have "unat (4096 * of_nat i + ts_phys s) = 4096 * i + unat (ts_phys s)"
    using pta_okD(3,5) [OF assms(1)] i(2) by (subst unat_add_no_wrap) (simp_all add: unat_offset)
  ultimately show "table_phys (pta_phys_addr s t)"
    using pta_okD(2,5) [OF assms(1)] i(2) by (simp add: table_phys_def)
  show "pta_virt_addr s (pta_phys_addr s t) = t"
    by (simp add: pta_virt_addr_def pta_phys_addr_def pta_offset_def)
qed


section \<open>Construction and destruction\<close>

lemma bit_len_pta: "pta_ok s \<Longrightarrow> bit_len (ba_array (ts_free s)) < 2 ^ 64"
  using pta_okD(3) [of s] by (simp add: table_count_def)

lemma unat_u32_addr: "unat (i :: addr) < 4294967296 \<Longrightarrow> unat (ucast i :: u32) = unat i"
  by (simp add: unsigned_ucast_eq unsigned_take_bit_eq take_bit_nat_eq_self)

lemma ucast_u32_addr: "unat (i :: addr) < 4294967296 \<Longrightarrow> ucast (ucast i :: u32) = i"
  by (simp add: word_unat_eq_iff unsigned_ucast_eq unsigned_take_bit_eq take_bit_nat_eq_self)

text \<open>What a change of one bit does to the sets of tables.\<close>

lemma tables_cong:
  assumes "ts_virt s' = ts_virt s" "table_count s' = table_count s"
  shows "arena s' = arena s"
  using assms by (simp add: arena_eq table_at_def)

lemma table_set:
  assumes ok: "pta_ok s" and i: "i < table_count s"
    and s': "ts_virt s' = ts_virt s" "ts_phys s' = ts_phys s" "table_count s' = table_count s"
    and b: "\<And>j. j < table_count s \<Longrightarrow> table_bit s' j = (if j = i then b else table_bit s j)"
  shows "same_arena s s'"
    and "used_tables s' = (if b then insert (table_at s i) (used_tables s) else used_tables s - {table_at s i})"
proof -
  have ok': "pta_ok s'" using ok s' by (simp add: pta_ok_def table_count_def)
  then show "same_arena s s'" using tables_cong [of s' s] s' by (simp add: same_arena_def)
  have at: "table_at s' = table_at s" using s' by (simp add: table_at_def fun_eq_iff)
  show "used_tables s' = (if b then insert (table_at s i) (used_tables s) else used_tables s - {table_at s i})"
    unfolding used_eq at s'(3) using b i table_at_inj [OF ok] by (auto 0 4 split: if_splits)
qed

lemma construct_cases:
  assumes ok: "pta_ok s"
  obtains (none) s' where "spare_tables s = {}" "pta_construct s link = Thrown Out_of_tables s'"
      "same_arena s s'" "used_tables s' = used_tables s" "ts_mem s' = ts_mem s"
    | (new) t s' where "t \<in> spare_tables s" "pta_construct s link = Returned (link t s')"
      "same_arena s s'" "used_tables s' = insert t (used_tables s)"
      "ts_mem s' = (ts_mem s)(t \<mapsto> replicate MAX_ENTRIES 0)"
proof -
  obtain r a where r: "ba_alloc 0 (ts_free s) = Some (r, a)" "alloc_result (ba_array (ts_free s)) 1 r (ba_array a)"
    using ba_alloc_result [OF bit_len_pta [OF ok], of 0] by auto
  show ?thesis
  proof (cases r)
    case (Inl e)
    then have e: "e = Out_of_indices" "ba_array a = ba_array (ts_free s)" "\<And>i. \<not> free_block (ba_array (ts_free s)) 1 i"
      using r(2) by (simp_all add: alloc_result_def)
    let ?s = "s\<lparr> ts_free := a \<rparr>"
    have "spare_tables s = {}"
      using e(3) by (auto simp: spare_eq [OF ok] free_block_1 table_count_def table_bit_def)
    moreover have "pta_construct s link = Thrown Out_of_tables ?s"
      using r(1) Inl e(1) by (simp add: pta_construct_def pta_alloc_def)
    moreover have "same_arena s ?s" "used_tables ?s = used_tables s"
      using ok e(2) by (simp_all add: same_arena_def pta_ok_def arena_def used_tables_def)
    ultimately show ?thesis using none by simp
  next
    case (Inr w)
    let ?i = "unat w"
    from Inr r(2) have f: "?i < table_count s" "\<not> table_bit s ?i" and bt: "bits_taken (ba_array (ts_free s)) ?i 1 (ba_array a)"
      by (simp_all add: alloc_result_def free_block_1 table_count_def table_bit_def)
    have w: "unat w < 4294967296" using f(1) pta_okD(3) [OF ok] by simp
    let ?s = "s\<lparr> ts_free := a \<rparr>" and ?t = "table_at s ?i"
    let ?n = "?s\<lparr> ts_mem := (ts_mem s)(?t \<mapsto> replicate MAX_ENTRIES 0) \<rparr>"
    have "of_nat ?i = w" by simp
    then have t: "pta_index ?s (ucast w) = ?t"
      using ucast_u32_addr [OF w] by (simp add: pta_index_def table_at_def)
    have "hw_aligned ?t 12"
      using pta_okD(1) [OF ok] by (simp add: hw_aligned_unat unat_table_at [OF ok f(1)])
    then have c: "pta_construct s link = Returned (link ?t ?n)"
      using r(1) Inr t by (simp add: pta_construct_def pta_alloc_def table_new_def Let_def)
    have b: "table_bit ?n j = (if j = ?i then True else table_bit s j)" if "j < table_count s" for j
      using bt that by (auto simp: bits_taken_def table_bit_def table_count_def)
    have n: "ts_virt ?n = ts_virt s" "ts_phys ?n = ts_phys s" "table_count ?n = table_count s"
      using bt by (simp_all add: bits_taken_def table_count_def bit_len_def)
    note u = table_set [OF ok f(1) n b]
    have "?t \<in> spare_tables s" using f by (auto simp: spare_eq [OF ok])
    then show ?thesis using new [of ?t ?n] c u by simp
  qed
qed

lemma destruct_used:
  assumes ok: "pta_ok s" and t: "t \<in> used_tables s"
  obtains s' where "pta_destruct t s = Returned s'" "same_arena s s'" "used_tables s' = used_tables s - {t}"
    "ts_mem s' = (ts_mem s)(t := None)"
proof -
  obtain i where i: "t = table_at s i" "i < table_count s" "table_bit s i" using t by (auto simp: used_eq)
  have i32: "i < 4294967296" using i(2) pta_okD(3) [OF ok] by simp
  let ?idx = "ucast (pta_offset s t div TABLE_SIZE) :: u32"
  let ?m = "s\<lparr> ts_mem := (ts_mem s)(t := None) \<rparr>"
  have "pta_offset s t = 4096 * of_nat i" by (simp add: pta_offset_def i(1) table_at_def)
  then have "unat (pta_offset s t div 4096) = i" using i32 by (simp add: unat_div unat_offset)
  then have idx: "unat (ucast ?idx :: addr) = i" using i32 by (simp only: ucast_u32_addr)
  have r: "unat (ucast ?idx :: addr) + 2 ^ 0 \<le> bit_len (ba_array (ts_free s))"
    "\<forall>j. unat (ucast ?idx :: addr) \<le> j \<and> j < unat (ucast ?idx :: addr) + 2 ^ 0 \<longrightarrow> bit_at (ba_array (ts_free s)) j"
    using i(2,3) unfolding idx by (auto simp: table_count_def table_bit_def le_less_Suc_eq)
  obtain a where a: "ba_free (ucast ?idx) 0 (ts_free s) = (None, a)" "length (ba_array a) = length (ba_array (ts_free s))"
    "\<forall>j < bit_len (ba_array (ts_free s)). bit_at (ba_array a) j =
       (\<not> (i \<le> j \<and> j < i + 1) \<and> bit_at (ba_array (ts_free s)) j)"
    using ba_free_result [OF bit_len_pta [OF ok] _ r] unfolding idx by auto
  let ?n = "?m\<lparr> ts_free := a \<rparr>"
  have n: "ts_virt ?n = ts_virt s" "ts_phys ?n = ts_phys s" "table_count ?n = table_count s"
    using a(2) by (simp_all add: table_count_def bit_len_def)
  have b: "table_bit ?n j = (if j = i then False else table_bit s j)" if "j < table_count s" for j
    using a(3) that by (auto simp: table_bit_def table_count_def)
  have "pta_destruct t s = Returned ?n" using a(1) by (simp add: pta_destruct_def pta_free_def)
  then show ?thesis using that [of ?n] table_set [OF ok i(2) n b] i(1) by simp
qed

end
