(* ===== verification/Page_Table_Levels.thy ===== *)
theory Page_Table_Levels
  imports Page_Table_Memory
begin

text \<open>
  One proof for the tables of all levels.  A level has two interfaces: \<open>translation_table\<close> is what a
  directory needs of the tables behind it, and \<open>table_entries\<close> is what the loop over a range needs of
  the entries of one table.  A table over entries with the second contract has the first.
\<close>

section \<open>Interfaces\<close>

definition agree :: "addr set \<Rightarrow> table_space \<Rightarrow> table_space \<Rightarrow> bool" where
  "agree A s s' \<longleftrightarrow> ts_virt s' = ts_virt s \<and> ts_phys s' = ts_phys s \<and> (\<forall>a\<in>A. ts_mem s' a = ts_mem s a)"

definition page_aligned :: "addr \<Rightarrow> bool" where
  "page_aligned a \<longleftrightarrow> 4096 dvd unat a"

definition insertion_fails :: "pt_error \<Rightarrow> table_space \<Rightarrow> bool" where
  "insertion_fails e s \<longleftrightarrow> e = Double_insertion \<or> (e = Out_of_tables \<and> spare_tables s = {})"

definition taken :: "addr set \<Rightarrow> addr \<Rightarrow> nat \<Rightarrow> (addr \<Rightarrow> translation option) \<Rightarrow> bool" where
  "taken S vo k look \<longleftrightarrow> (\<exists>v\<in>S. in_range vo k v \<and> look v \<noteq> None)"

text \<open>
  \<open>tight\<close> says that no table further down is empty, which holds as long as every operation returned.
\<close>

locale translation_table =
  fixes bits :: nat
    and wf :: "table_space \<Rightarrow> addr \<Rightarrow> bool"
    and foot :: "table_space \<Rightarrow> addr \<Rightarrow> addr set"
    and look :: "table_space \<Rightarrow> addr \<Rightarrow> addr \<Rightarrow> translation option"
    and ins :: "addr \<Rightarrow> addr \<Rightarrow> addr \<Rightarrow> addr \<Rightarrow> page_flags \<Rightarrow> table_space \<Rightarrow> table_space outcome"
    and rem :: "addr \<Rightarrow> addr \<Rightarrow> addr \<Rightarrow> table_space \<Rightarrow> table_space outcome"
    and emp :: "table_space \<Rightarrow> addr \<Rightarrow> bool option"
    and tight :: "table_space \<Rightarrow> addr \<Rightarrow> bool"
  assumes frame: "wf s t \<Longrightarrow> agree (insert t (foot s t)) s s' \<Longrightarrow>
        wf s' t \<and> foot s' t = foot s t \<and> look s' t v = look s t v \<and> tight s' t = tight s t"
    and look_low: "look s t (take_bit bits v) = look s t v"
    and look_log2: "look s t v = Some m \<Longrightarrow> tr_log2 m \<le> bits"
    and not_own: "wf s t \<Longrightarrow> t \<notin> foot s t"
    and fresh: "ts_mem s t = Some (replicate MAX_ENTRIES 0) \<Longrightarrow> wf s t \<and> foot s t = {} \<and> look s t v = None \<and> tight s t"
    and empty_none: "wf s t \<Longrightarrow> emp s t \<noteq> None"
    and empty_true: "wf s t \<Longrightarrow> emp s t = Some True \<Longrightarrow> foot s t = {} \<and> look s t v = None"
    and empty_false: "wf s t \<Longrightarrow> tight s t \<Longrightarrow> emp s t = Some False \<Longrightarrow> \<exists>v. unat v < 2 ^ bits \<and> look s t v \<noteq> None"
    and ins: "wf s t \<Longrightarrow> owns t (foot s t) s \<Longrightarrow> unat vo + unat n \<le> 2 ^ bits \<Longrightarrow>
        page_aligned vo \<Longrightarrow> page_aligned pa \<Longrightarrow> page_aligned n \<Longrightarrow> unat pa + unat n \<le> 2 ^ 48 \<Longrightarrow>
        post (ins t vo pa n fl s)
          (\<lambda>s'. wf s' t \<and> grown {t} (foot s t) (foot s' t) s s'
             \<and> added {v. unat v < 2 ^ bits} vo (unat n) (pa - vo) fl (look s t) (look s' t)
             \<and> covered {v. unat v < 2 ^ bits} vo (unat n) (pa - vo) fl (look s' t)
             \<and> (tight s t \<longrightarrow> tight s' t))
          (\<lambda>e s'. wf s' t \<and> grown {t} (foot s t) (foot s' t) s s'
             \<and> added {v. unat v < 2 ^ bits} vo (unat n) (pa - vo) fl (look s t) (look s' t)
             \<and> insertion_fails e s'
             \<and> (e = Double_insertion \<longrightarrow> tight s t \<longrightarrow> taken {v. unat v < 2 ^ bits} vo (unat n) (look s t)))"
    and rem: "wf s t \<Longrightarrow> owns t (foot s t) s \<Longrightarrow> unat vo + unat n \<le> 2 ^ bits \<Longrightarrow>
        post (rem t vo n s)
          (\<lambda>s'. wf s' t \<and> shrunk {t} (foot s t) (foot s' t) s s'
             \<and> cut {v. unat v < 2 ^ bits} (unat vo) (unat n) (look s t) (look s' t)
             \<and> (tight s t \<longrightarrow> tight s' t))
          (\<lambda>e s'. False)"

text \<open>
  The entries of one table: the slots that belong to the structure, the addresses that are translated
  through them, and for a single entry the same kinds of facts.
\<close>

locale table_entries =
  fixes lv :: table_level
    and own :: "nat set"
    and V :: "addr set"
    and ewf :: "table_space \<Rightarrow> addr \<Rightarrow> bool"
    and efoot :: "table_space \<Rightarrow> addr \<Rightarrow> addr set"
    and elook :: "table_space \<Rightarrow> addr \<Rightarrow> addr \<Rightarrow> translation option"
    and eins :: "addr \<Rightarrow> page_flags \<Rightarrow> addr \<Rightarrow> addr \<Rightarrow> addr \<Rightarrow> nat \<Rightarrow> table_space \<Rightarrow> table_space outcome"
    and erem :: "addr \<Rightarrow> addr \<Rightarrow> addr \<Rightarrow> addr \<Rightarrow> nat \<Rightarrow> table_space \<Rightarrow> table_space outcome"
    and etight :: "table_space \<Rightarrow> addr \<Rightarrow> bool"
  assumes own: "i \<in> own \<Longrightarrow> i < MAX_ENTRIES"
    and slot_own: "v \<in> V \<Longrightarrow> pt_slot lv v \<in> own"
    and slot_page: "v \<in> V \<Longrightarrow> w \<in> V \<Longrightarrow> pt_slot lv v = pt_slot lv w \<longleftrightarrow>
        unat v div 2 ^ page_size_log2 lv = unat w div 2 ^ page_size_log2 lv"
    and slot_hw: "v \<in> V \<Longrightarrow> hw_index (page_size_log2 lv) v = pt_slot lv v"
    and e_frame: "ewf s d \<Longrightarrow> agree (efoot s d) s s' \<Longrightarrow>
        ewf s' d \<and> efoot s' d = efoot s d \<and> elook s' d v = elook s d v \<and> etight s' d = etight s d"
    and e_zero: "\<not> bit d 0 \<Longrightarrow> ewf s d \<and> efoot s d = {} \<and> elook s d v = None \<and> etight s d"
    and e_present: "bit d 0 \<Longrightarrow> ewf s d \<Longrightarrow> etight s d \<Longrightarrow> \<exists>v. elook s d v \<noteq> None"
    and e_low: "elook s d (take_bit (page_size_log2 lv) v) = elook s d v"
    and e_log2: "elook s d v = Some m \<Longrightarrow> tr_log2 m \<le> page_size_log2 lv"
    and e_ins: "ts_mem s t = Some es \<Longrightarrow> length es = MAX_ENTRIES \<Longrightarrow> i < MAX_ENTRIES \<Longrightarrow> ewf s (es ! i) \<Longrightarrow>
        owns t (efoot s (es ! i)) s \<Longrightarrow> 0 < unat n \<Longrightarrow>
        unat vo mod 2 ^ page_size_log2 lv + unat n \<le> 2 ^ page_size_log2 lv \<Longrightarrow>
        page_aligned vo \<Longrightarrow> page_aligned pa \<Longrightarrow> page_aligned n \<Longrightarrow> unat pa + unat n \<le> 2 ^ 48 \<Longrightarrow>
        S = {v. unat v div 2 ^ page_size_log2 lv = unat vo div 2 ^ page_size_log2 lv} \<Longrightarrow>
        post (eins t fl vo pa n i s)
          (\<lambda>s'. \<exists>d'. ts_mem s' t = Some (es[i := d']) \<and> ewf s' d' \<and> t \<notin> efoot s' d'
             \<and> grown {t} (efoot s (es ! i)) (efoot s' d') s s'
             \<and> added S vo (unat n) (pa - vo) fl (elook s (es ! i)) (elook s' d')
             \<and> covered S vo (unat n) (pa - vo) fl (elook s' d')
             \<and> (etight s (es ! i) \<longrightarrow> etight s' d'))
          (\<lambda>e s'. \<exists>d'. ts_mem s' t = Some (es[i := d']) \<and> ewf s' d' \<and> t \<notin> efoot s' d'
             \<and> grown {t} (efoot s (es ! i)) (efoot s' d') s s'
             \<and> added S vo (unat n) (pa - vo) fl (elook s (es ! i)) (elook s' d')
             \<and> insertion_fails e s'
             \<and> (e = Double_insertion \<longrightarrow> etight s (es ! i) \<longrightarrow> taken S vo (unat n) (elook s (es ! i))))"
    and e_rem: "ts_mem s t = Some es \<Longrightarrow> length es = MAX_ENTRIES \<Longrightarrow> i < MAX_ENTRIES \<Longrightarrow> ewf s (es ! i) \<Longrightarrow>
        owns t (efoot s (es ! i)) s \<Longrightarrow> 0 < unat n \<Longrightarrow>
        unat vo mod 2 ^ page_size_log2 lv + unat n \<le> 2 ^ page_size_log2 lv \<Longrightarrow>
        S = {v. unat v div 2 ^ page_size_log2 lv = unat vo div 2 ^ page_size_log2 lv} \<Longrightarrow>
        post (erem t vo pa n i s)
          (\<lambda>s'. \<exists>d'. ts_mem s' t = Some (es[i := d']) \<and> ewf s' d'
             \<and> shrunk {t} (efoot s (es ! i)) (efoot s' d') s s'
             \<and> cut S (unat vo) (unat n) (elook s (es ! i)) (elook s' d')
             \<and> (etight s (es ! i) \<longrightarrow> etight s' d'))
          (\<lambda>e s'. False)"


section \<open>A table of entries\<close>

definition table_wf ::
  "nat set \<Rightarrow> (table_space \<Rightarrow> addr \<Rightarrow> bool) \<Rightarrow> (table_space \<Rightarrow> addr \<Rightarrow> addr set) \<Rightarrow> table_space \<Rightarrow> addr \<Rightarrow> bool" where
  "table_wf own ewf efoot s t \<longleftrightarrow> (\<exists>es. ts_mem s t = Some es \<and> length es = MAX_ENTRIES
     \<and> (\<forall>i\<in>own. ewf s (es ! i) \<and> t \<notin> efoot s (es ! i))
     \<and> (\<forall>i\<in>own. \<forall>j\<in>own. i \<noteq> j \<longrightarrow> efoot s (es ! i) \<inter> efoot s (es ! j) = {}))"

definition table_foot :: "nat set \<Rightarrow> (table_space \<Rightarrow> addr \<Rightarrow> addr set) \<Rightarrow> table_space \<Rightarrow> addr \<Rightarrow> addr set" where
  "table_foot own efoot s t =
     (case ts_mem s t of None \<Rightarrow> {} | Some es \<Rightarrow> (\<Union>i\<in>own. efoot s (es ! i)))"

definition table_tight :: "nat set \<Rightarrow> (table_space \<Rightarrow> addr \<Rightarrow> bool) \<Rightarrow> table_space \<Rightarrow> addr \<Rightarrow> bool" where
  "table_tight own etight s t \<longleftrightarrow> (\<forall>es. ts_mem s t = Some es \<longrightarrow> (\<forall>i\<in>own. etight s (es ! i)))"

text \<open>The slots outside \<open>own\<close> keep their entries.\<close>

definition slots_kept :: "nat set \<Rightarrow> addr \<Rightarrow> table_space \<Rightarrow> table_space \<Rightarrow> bool" where
  "slots_kept own t s s' \<longleftrightarrow> (\<forall>i. i \<notin> own \<longrightarrow> pt_entry s' t i = pt_entry s t i)"

lemma slots_kept_refl: "slots_kept own t s s"
  by (simp add: slots_kept_def)

lemma slots_kept_update:
  "slots_kept own t s s1 \<Longrightarrow> ts_mem s1 t = Some es \<Longrightarrow> ts_mem s2 t = Some (es[i := d]) \<Longrightarrow> i \<in> own \<Longrightarrow> slots_kept own t s s2"
proof -
  assume a: "slots_kept own t s s1" "ts_mem s1 t = Some es" "ts_mem s2 t = Some (es[i := d])" "i \<in> own"
  have "pt_entry s2 t j = pt_entry s1 t j" if "j \<notin> own" for j
    using a(2-4) that by (cases "j = i") (simp_all add: pt_entry_def)
  then show ?thesis using a(1) by (simp add: slots_kept_def)
qed

lemma table_footI: "ts_mem s t = Some es \<Longrightarrow> table_foot own efoot s t = (\<Union>i\<in>own. efoot s (es ! i))"
  by (simp add: table_foot_def)

context table_entries
begin

abbreviation "twf \<equiv> table_wf own ewf efoot"
abbreviation "tfoot \<equiv> table_foot own efoot"
abbreviation "ttight \<equiv> table_tight own etight"
abbreviation "tlook \<equiv> hw_walk (page_size_log2 lv) elook"
abbreviation "page v \<equiv> unat v div 2 ^ page_size_log2 lv"

lemma tlook_entry: "ts_mem s t = Some es \<Longrightarrow> length es = MAX_ENTRIES \<Longrightarrow> v \<in> V \<Longrightarrow>
    tlook s t v = elook s (es ! pt_slot lv v) v"
  using own [OF slot_own, of v] by (simp add: hw_walk_def pt_entry_def slot_hw)

lemma table_frame:
  assumes "twf s t" "agree (insert t (tfoot s t)) s s'"
  shows "twf s' t" "tfoot s' t = tfoot s t" "v \<in> V \<Longrightarrow> tlook s' t v = tlook s t v"
    "ttight s' t = ttight s t"
proof -
  obtain es where es: "ts_mem s t = Some es" "length es = MAX_ENTRIES"
    "\<forall>i\<in>own. ewf s (es ! i) \<and> t \<notin> efoot s (es ! i)"
    "\<forall>i\<in>own. \<forall>j\<in>own. i \<noteq> j \<longrightarrow> efoot s (es ! i) \<inter> efoot s (es ! j) = {}"
    using assms(1) by (auto simp: table_wf_def)
  have m: "ts_mem s' t = Some es" using assms(2) es(1) by (simp add: agree_def)
  have "agree (efoot s (es ! i)) s s'" if "i \<in> own" for i
    using assms(2) that by (auto simp: agree_def table_footI [OF es(1)])
  then have e: "ewf s' (es ! i)" "efoot s' (es ! i) = efoot s (es ! i)" "elook s' (es ! i) v = elook s (es ! i) v"
    "etight s' (es ! i) = etight s (es ! i)" if "i \<in> own" for i v
    using e_frame [of s "es ! i" s' v] es(3) that by blast+
  show "tfoot s' t = tfoot s t" using e by (simp add: table_footI [OF es(1)] table_footI [OF m])
  show "twf s' t" unfolding table_wf_def using m es e by auto
  show "v \<in> V \<Longrightarrow> tlook s' t v = tlook s t v"
    using e(3) [OF slot_own, of v] by (simp add: tlook_entry [OF es(1,2)] tlook_entry [OF m es(2)])
  show "ttight s' t = ttight s t" using e(4) by (auto simp: table_tight_def es(1) m)
qed

text \<open>One entry and the tables behind it have changed.\<close>

lemma entry_update:
  assumes wf: "twf s t" and es: "ts_mem s t = Some es" and i: "i \<in> own"
    and m: "ts_mem s' t = Some (es[i := d'])" and d': "ewf s' d'" "t \<notin> efoot s' d'"
    and a: "ts_virt s' = ts_virt s" "ts_phys s' = ts_phys s" "\<And>a. a \<notin> insert t Y \<Longrightarrow> ts_mem s' a = ts_mem s a"
    and Y: "efoot s' d' \<subseteq> Y" "\<And>j. j \<in> own \<Longrightarrow> j \<noteq> i \<Longrightarrow> efoot s (es ! j) \<inter> Y = {}"
  shows "twf s' t" "tfoot s' t = (\<Union>j\<in>own - {i}. efoot s (es ! j)) \<union> efoot s' d'"
    "v \<in> V \<Longrightarrow> tlook s' t v = (if pt_slot lv v = i then elook s' d' v else tlook s t v)"
    "ttight s t \<Longrightarrow> etight s' d' \<Longrightarrow> ttight s' t"
proof -
  have e: "length es = MAX_ENTRIES" "\<forall>j\<in>own. ewf s (es ! j) \<and> t \<notin> efoot s (es ! j)"
    "\<forall>j\<in>own. \<forall>k\<in>own. j \<noteq> k \<longrightarrow> efoot s (es ! j) \<inter> efoot s (es ! k) = {}"
    using wf es by (auto simp: table_wf_def)
  have il: "i < length es" using own [OF i] e(1) by simp
  have "agree (efoot s (es ! j)) s s'" if "j \<in> own" "j \<noteq> i" for j
  proof -
    have "t \<notin> efoot s (es ! j)" using e(2) that(1) by blast
    then have "a \<notin> insert t Y" if "a \<in> efoot s (es ! j)" for a using Y(2) [OF \<open>j \<in> own\<close> \<open>j \<noteq> i\<close>] that by blast
    then show ?thesis using a by (simp add: agree_def)
  qed
  then have o: "ewf s' (es ! j)" "efoot s' (es ! j) = efoot s (es ! j)" "elook s' (es ! j) v = elook s (es ! j) v"
    "etight s' (es ! j) = etight s (es ! j)" if "j \<in> own" "j \<noteq> i" for j v
    using e_frame [of s "es ! j" s' v] e(2) that by blast+
  have l: "length (es[i := d']) = MAX_ENTRIES" using e(1) by simp
  show "tfoot s' t = (\<Union>j\<in>own - {i}. efoot s (es ! j)) \<union> efoot s' d'"
    unfolding table_footI [OF m] using o(2) i il by (auto simp: nth_list_update split: if_splits)
  show "twf s' t"
    unfolding table_wf_def
  proof (intro exI [of _ "es[i := d']"] conjI ballI impI)
    show "ts_mem s' t = Some (es[i := d'])" by (rule m)
    show "length (es[i := d']) = MAX_ENTRIES" by (rule l)
  next
    fix j assume "j \<in> own"
    then show "ewf s' (es[i := d'] ! j)" using o(1) d' il by (cases "j = i") simp_all
  next
    fix j assume "j \<in> own"
    then show "t \<notin> efoot s' (es[i := d'] ! j)" using o(2) d' il e(2) by (cases "j = i") simp_all
  next
    fix j k assume jk: "j \<in> own" "k \<in> own" "j \<noteq> k"
    have "efoot s (es ! j) \<inter> efoot s' d' = {}" if "j \<in> own" "j \<noteq> i" for j
      using Y(1) Y(2) [OF that] by blast
    then show "efoot s' (es[i := d'] ! j) \<inter> efoot s' (es[i := d'] ! k) = {}"
      using jk o(2) il e(3) by (cases "j = i"; cases "k = i") (simp_all add: Int_commute)
  qed
  show "v \<in> V \<Longrightarrow> tlook s' t v = (if pt_slot lv v = i then elook s' d' v else tlook s t v)"
    using o(3) slot_own [of v] il by (auto simp: tlook_entry [OF m l] tlook_entry [OF es e(1)])
  show "ttight s' t" if "ttight s t" "etight s' d'"
    unfolding table_tight_def m
  proof (intro allI impI ballI)
    fix fs j assume "Some (es[i := d']) = Some fs" "j \<in> own"
    then show "etight s' (fs ! j)" using that o(4) il es by (cases "j = i") (auto simp: table_tight_def)
  qed
qed

lemma same_arenaD: "same_arena s s' \<Longrightarrow> ts_virt s' = ts_virt s \<and> ts_phys s' = ts_phys s"
  by (simp add: same_arena_def)

lemma lift_grown:
  assumes wf: "twf s t" and ow: "owns t (tfoot s t) s" and es: "ts_mem s t = Some es" and i: "i \<in> own"
    and m: "ts_mem s' t = Some (es[i := d'])" and d': "ewf s' d'" "t \<notin> efoot s' d'"
    and g: "grown {t} (efoot s (es ! i)) (efoot s' d') s s'"
  shows "twf s' t" "grown {t} (tfoot s t) (tfoot s' t) s s'"
    "w \<in> V \<Longrightarrow> tlook s' t w = (if pt_slot lv w = i then elook s' d' w else tlook s t w)"
    "ttight s t \<Longrightarrow> etight s' d' \<Longrightarrow> ttight s' t"
proof -
  have sub: "efoot s (es ! j) \<subseteq> used_tables s" if "j \<in> own" for j
    using ow that by (auto simp: owns_def table_footI [OF es])
  have dis: "efoot s (es ! j) \<inter> efoot s (es ! i) = {}" if "j \<in> own" "j \<noteq> i" for j
    using wf es i that by (auto simp: table_wf_def)
  have Y: "efoot s (es ! j) \<inter> efoot s' d' = {}" if "j \<in> own" "j \<noteq> i" for j
    using sub [OF that(1)] dis [OF that] g by (auto simp: grown_def)
  have a: "ts_virt s' = ts_virt s" "ts_phys s' = ts_phys s"
    "\<And>a. a \<notin> insert t (efoot s' d') \<Longrightarrow> ts_mem s' a = ts_mem s a"
    using g by (auto simp: grown_def same_arena_def)
  note u = entry_update [OF wf es i m d' a subset_refl Y]
  show "twf s' t" by (rule u(1))
  show "ttight s t \<Longrightarrow> etight s' d' \<Longrightarrow> ttight s' t" by (rule u(4))
  show "w \<in> V \<Longrightarrow> tlook s' t w = (if pt_slot lv w = i then elook s' d' w else tlook s t w)" by (rule u(3))
  let ?o = "\<Union>j\<in>own - {i}. efoot s (es ! j)"
  have o: "?o \<subseteq> used_tables s" using sub by blast
  have f: "tfoot s t = ?o \<union> efoot s (es ! i)" using i by (auto simp: table_footI [OF es])
  have f': "tfoot s' t = ?o \<union> efoot s' d'" by (rule u(2))
  show "grown {t} (tfoot s t) (tfoot s' t) s s'"
    using g o unfolding grown_def f' f by auto
qed

lemma lift_shrunk:
  assumes wf: "twf s t" and ow: "owns t (tfoot s t) s" and es: "ts_mem s t = Some es" and i: "i \<in> own"
    and m: "ts_mem s' t = Some (es[i := d'])" and d': "ewf s' d'"
    and g: "shrunk {t} (efoot s (es ! i)) (efoot s' d') s s'"
  shows "twf s' t" "shrunk {t} (tfoot s t) (tfoot s' t) s s'"
    "w \<in> V \<Longrightarrow> tlook s' t w = (if pt_slot lv w = i then elook s' d' w else tlook s t w)"
    "ttight s t \<Longrightarrow> etight s' d' \<Longrightarrow> ttight s' t"
proof -
  have dis: "efoot s (es ! j) \<inter> efoot s (es ! i) = {}" if "j \<in> own" "j \<noteq> i" for j
    using wf es i that by (auto simp: table_wf_def)
  have sub: "efoot s' d' \<subseteq> efoot s (es ! i)" using g by (simp add: shrunk_def)
  have nt: "t \<notin> efoot s' d'" using sub wf es i by (auto simp: table_wf_def)
  have a: "ts_virt s' = ts_virt s" "ts_phys s' = ts_phys s"
    "\<And>a. a \<notin> insert t (efoot s (es ! i)) \<Longrightarrow> ts_mem s' a = ts_mem s a"
    using g by (auto simp: shrunk_def same_arena_def)
  note u = entry_update [OF wf es i m d' nt a sub dis]
  show "twf s' t" by (rule u(1))
  show "ttight s t \<Longrightarrow> etight s' d' \<Longrightarrow> ttight s' t" by (rule u(4))
  show "w \<in> V \<Longrightarrow> tlook s' t w = (if pt_slot lv w = i then elook s' d' w else tlook s t w)" by (rule u(3))
  let ?o = "\<Union>j\<in>own - {i}. efoot s (es ! j)"
  have f: "tfoot s t = ?o \<union> efoot s (es ! i)" using i by (auto simp: table_footI [OF es])
  have f': "tfoot s' t = ?o \<union> efoot s' d'" by (rule u(2))
  have "?o \<inter> efoot s (es ! i) = {}" using dis by blast
  then have "tfoot s t - tfoot s' t = efoot s (es ! i) - efoot s' d'" unfolding f' f using sub by blast
  then show "shrunk {t} (tfoot s t) (tfoot s' t) s s'"
    using g sub unfolding shrunk_def f' f by auto
qed

end

lemma added_lift:
  assumes "\<forall>w\<in>V. g w = (if P w then e' w else f w)" "\<forall>w\<in>V. P w \<longrightarrow> f w = e w"
    and "added S v m off fl e e'" "\<forall>w\<in>V. P w \<longrightarrow> w \<in> S"
    and "unat vo \<le> unat v" "unat v + m \<le> unat vo + k"
  shows "added V vo k off fl f g"
  unfolding added_def
proof
  fix w assume w: "w \<in> V"
  show "g w = f w \<or> in_range vo k w \<and> f w = None \<and> (\<exists>l. g w = Some (requested off fl w l))"
  proof (cases "P w")
    case True
    then have "w \<in> S" "g w = e' w" "f w = e w" using assms(1,2,4) w by auto
    moreover have "in_range v m w \<Longrightarrow> in_range vo k w" using assms(5,6) by (simp add: in_range_def)
    ultimately show ?thesis using assms(3) by (auto simp: added_def)
  qed (use assms(1) w in simp)
qed

lemma covered_lift:
  assumes "\<forall>w\<in>V. g w = (if P w then e' w else f w)" "\<forall>w\<in>V. P w \<longrightarrow> f w = e w"
    and "added S v m off fl e e'" "covered S v m off fl e'" "\<forall>w\<in>V. P w \<longleftrightarrow> w \<in> S"
    and "\<forall>w. in_range v m w \<longrightarrow> w \<in> S" "covered V vo k off fl f" "unat v = unat vo + k"
  shows "covered V vo (k + m) off fl g"
  unfolding covered_def
proof (intro ballI impI)
  fix w assume w: "w \<in> V" "in_range vo (k + m) w"
  show "\<exists>l. g w = Some (requested off fl w l)"
  proof (cases "in_range v m w")
    case True
    then show ?thesis using assms(1,4,5,6) w(1) by (auto simp: covered_def)
  next
    case False
    then have "in_range vo k w" using w(2) assms(8) by (auto simp: in_range_def)
    then obtain l where l: "f w = Some (requested off fl w l)" using assms(7) w(1) by (auto simp: covered_def)
    show ?thesis
    proof (cases "P w")
      case True
      then have "e w = f w" "g w = e' w" "w \<in> S" using assms(1,2,5) w(1) by auto
      moreover from this have "e' w = e w" using assms(3) l by (auto simp: added_def)
      ultimately show ?thesis using l by auto
    qed (use assms(1) w(1) l in auto)
  qed
qed

lemma covered_none: "covered S vo 0 off fl look"
  by (auto simp: covered_def in_range_def)

lemma cut_lift:
  assumes "\<forall>w\<in>V. g w = (if P w then e' w else f w)" "\<forall>w\<in>V. P w \<longrightarrow> f w = e w"
    and "cut S lo m e e'" "\<forall>w\<in>V. P w \<longleftrightarrow> w \<in> S"
    and "\<And>w x. w \<in> V \<Longrightarrow> w \<notin> S \<Longrightarrow> f w = Some x \<Longrightarrow> \<not> hits lo m (tr_log2 x) (unat w)"
  shows "cut V lo m f g"
  unfolding cut_def
proof
  fix w assume w: "w \<in> V"
  show "g w = (case f w of None \<Rightarrow> None | Some x \<Rightarrow> if hits lo m (tr_log2 x) (unat w) then None else Some x)"
  proof (cases "P w")
    case True
    then have "w \<in> S" "g w = e' w" "f w = e w" using assms(1,2,4) w by auto
    then show ?thesis using assms(3) by (simp add: cut_def)
  next
    case False
    then show ?thesis using assms(1,4) assms(5) [of w] w by (auto split: option.split)
  qed
qed


section \<open>The loop over the entries\<close>

lemma aligned_within:
  assumes "4096 dvd (lo::nat)" "4096 dvd k" "4096 dvd n" "12 \<le> p"
  shows "4096 dvd min (lo + n - (lo + k)) (2 ^ p - (lo + k) mod 2 ^ p)"
proof -
  have p: "(4096::nat) dvd 2 ^ p" using le_imp_power_dvd [OF assms(4), of "2::nat"] by simp
  have "4096 dvd lo + n - (lo + k)" using assms by (simp add: dvd_diff_nat)
  moreover have "4096 dvd (2::nat) ^ p - (lo + k) mod 2 ^ p"
    using p assms(1,2) by (intro dvd_diff_nat dvd_mod dvd_add)
  ultimately show ?thesis by (simp add: min_def)
qed

lemma same_page:
  assumes "(lo::nat) mod q + m \<le> q" "lo \<le> w" "w < lo + m"
  shows "w div q = lo div q"
proof -
  have "lo div q * q + lo mod q = lo" by (rule div_mult_mod_eq)
  then have "w < lo div q * q + q" "lo div q * q \<le> w" using assms by linarith+
  then show ?thesis by (intro div_nat_eqI) (simp_all add: mult.commute)
qed

context table_entries
begin

lemma piece:
  assumes "in_range vo (unat n) v"
    and "unat m = min (unat vo + unat n - unat v) (2 ^ page_size_log2 lv - unat v mod 2 ^ page_size_log2 lv)"
  shows "0 < unat m" "unat v mod 2 ^ page_size_log2 lv + unat m \<le> 2 ^ page_size_log2 lv"
    "unat v + unat m \<le> unat vo + unat n" "unat vo + (unat v - unat vo) = unat v"
proof -
  have "unat v mod 2 ^ page_size_log2 lv < 2 ^ page_size_log2 lv" by simp
  then show "0 < unat m" "unat v mod 2 ^ page_size_log2 lv + unat m \<le> 2 ^ page_size_log2 lv"
    "unat v + unat m \<le> unat vo + unat n" "unat vo + (unat v - unat vo) = unat v"
    using assms unfolding in_range_def by linarith+
qed

definition ins_state :: "page_flags \<Rightarrow> addr \<Rightarrow> addr \<Rightarrow> addr \<Rightarrow> addr \<Rightarrow> table_space \<Rightarrow> table_space \<Rightarrow> bool" where
  "ins_state fl t vo pa n s s' \<longleftrightarrow> twf s' t \<and> grown {t} (tfoot s t) (tfoot s' t) s s'
     \<and> added V vo (unat n) (pa - vo) fl (tlook s t) (tlook s' t) \<and> slots_kept own t s s'"

lemma table_own: "twf s t \<Longrightarrow> t \<notin> tfoot s t"
  by (auto simp: table_wf_def table_footI)

lemma table_insert:
  assumes wf: "twf s t" and ow: "owns t (tfoot s t) s" and bound: "unat vo + unat n \<le> 2 ^ 64"
    and V: "\<And>v. in_range vo (unat n) v \<Longrightarrow> v \<in> V"
    and al: "page_aligned vo" "page_aligned pa" "page_aligned n" and pa: "unat pa + unat n \<le> 2 ^ 48"
  shows "post (range_op lv (eins t fl) vo pa n s)
     (\<lambda>s'. ins_state fl t vo pa n s s' \<and> covered V vo (unat n) (pa - vo) fl (tlook s' t) \<and> (ttight s t \<longrightarrow> ttight s' t))
     (\<lambda>e s'. ins_state fl t vo pa n s s' \<and> insertion_fails e s'
        \<and> (e = Double_insertion \<longrightarrow> ttight s t \<longrightarrow> taken V vo (unat n) (tlook s t)))"
proof -
  let ?P = "\<lambda>k s'. ins_state fl t vo pa n s s' \<and> covered V vo k (pa - vo) fl (tlook s' t) \<and> 4096 dvd k
      \<and> (\<forall>v\<in>V. \<not> in_range vo k v \<longrightarrow> tlook s' t v = tlook s t v) \<and> (ttight s t \<longrightarrow> ttight s' t)"
  let ?E = "\<lambda>e s'. ins_state fl t vo pa n s s' \<and> insertion_fails e s'
      \<and> (e = Double_insertion \<longrightarrow> ttight s t \<longrightarrow> taken V vo (unat n) (tlook s t))"
  have "post (range_op lv (eins t fl) vo pa n s) (?P (unat n)) ?E"
  proof (rule range_op_rule [OF bound])
    show "pt_slot lv v < MAX_ENTRIES" if "in_range vo (unat n) v" for v using V [OF that] slot_own own by blast
  next
    have "grown {t} (tfoot s t) (tfoot s t) s s"
      using ow by (auto simp: grown_def owns_def same_arena_def)
    then show "?P 0 s" using wf by (simp add: ins_state_def added_refl covered_none slots_kept_refl)
  next
    fix v m :: addr and s1
    assume r: "in_range vo (unat n) v" and P: "?P (unat v - unat vo) s1"
      and m: "unat m = min (unat vo + unat n - unat v) (2 ^ page_size_log2 lv - unat v mod 2 ^ page_size_log2 lv)"
    note pc = piece [OF r m]
    let ?i = "pt_slot lv v" and ?k = "unat v - unat vo" and ?S = "{w. page w = page v}"
    have vV: "v \<in> V" using V r by blast
    have i: "?i \<in> own" "?i < MAX_ENTRIES" using slot_own [OF vV] own by auto
    from P have wf1: "twf s1 t" and g1: "grown {t} (tfoot s t) (tfoot s1 t) s s1"
      and a1: "added V vo (unat n) (pa - vo) fl (tlook s t) (tlook s1 t)"
      and c1: "covered V vo ?k (pa - vo) fl (tlook s1 t)" and k: "4096 dvd ?k" and sk: "slots_kept own t s s1"
      and rest: "\<And>v. v \<in> V \<Longrightarrow> \<not> in_range vo ?k v \<Longrightarrow> tlook s1 t v = tlook s t v" and ti: "ttight s t \<Longrightarrow> ttight s1 t"
      by (simp_all add: ins_state_def)
    obtain es where es: "ts_mem s1 t = Some es" "length es = MAX_ENTRIES" "ewf s1 (es ! ?i)"
      using wf1 i(1) by (auto simp: table_wf_def)
    have ow1: "owns t (tfoot s1 t) s1" by (rule grown_owns [OF ow g1 table_own [OF wf1]])
    then have owe: "owns t (efoot s1 (es ! ?i)) s1" using i(1) by (auto simp: owns_def table_footI [OF es(1)])
    have va: "page_aligned v" using dvd_add [OF al(1) [unfolded page_aligned_def] k] by (simp only: page_aligned_def pc(4))
    have "4096 dvd unat m"
      using aligned_within [OF _ k _ page_size_log2_less(2), of "unat vo" "unat n" lv] al(1,3) m
      by (simp only: page_aligned_def pc(4))
    then have ma: "page_aligned m" by (simp add: page_aligned_def)
    let ?pa = "pa + (v - vo)"
    have "unat (v - vo) = ?k" using r by (simp add: in_range_def unat_sub_no_wrap word_le_nat_alt)
    then have pu: "unat ?pa = unat pa + ?k" using pa pc by (simp add: unat_add_no_wrap)
    have "4096 dvd unat pa + ?k" using al(2) k by (simp add: page_aligned_def dvd_add)
    then have paa: "page_aligned ?pa" unfolding page_aligned_def pu .
    have pab: "unat ?pa + unat m \<le> 2 ^ 48" using pa pc unfolding pu by linarith
    have off: "?pa - v = pa - vo" by simp
    have slots: "pt_slot lv w = ?i \<longleftrightarrow> w \<in> ?S" if "w \<in> V" for w using slot_page [OF that vV] by simp
    have inS: "w \<in> ?S" if "in_range v (unat m) w" for w
    proof -
      have "page w = page v" by (rule same_page [OF pc(2)]) (use that in \<open>simp_all add: in_range_def\<close>)
      then show ?thesis by simp
    qed
    have old: "tlook s1 t w = elook s1 (es ! ?i) w" if "w \<in> V" "pt_slot lv w = ?i" for w
      using that by (simp add: tlook_entry [OF es(1,2)])
    have lift: "ins_state fl t vo pa n s s'"
      "covered ?S v (unat m) (pa - vo) fl (elook s' d') \<Longrightarrow> etight s1 (es ! ?i) \<longrightarrow> etight s' d' \<Longrightarrow> ?P (?k + unat m) s'"
      if d': "ts_mem s' t = Some (es[?i := d'])" "ewf s' d'" "t \<notin> efoot s' d'"
        "grown {t} (efoot s1 (es ! ?i)) (efoot s' d') s1 s'"
        "added ?S v (unat m) (pa - vo) fl (elook s1 (es ! ?i)) (elook s' d')" for s' d'
    proof -
      note l = lift_grown [OF wf1 ow1 es(1) i(1) d'(1-4)]
      have new: "\<forall>w\<in>V. tlook s' t w = (if pt_slot lv w = ?i then elook s' d' w else tlook s1 t w)"
        using l(3) by blast
      have old': "\<forall>w\<in>V. pt_slot lv w = ?i \<longrightarrow> tlook s1 t w = elook s1 (es ! ?i) w" using old by blast
      have inP: "\<forall>w\<in>V. pt_slot lv w = ?i \<longrightarrow> w \<in> ?S" using slots by blast
      have "added V vo (unat n) (pa - vo) fl (tlook s1 t) (tlook s' t)"
        by (rule added_lift [OF new old' d'(5) inP _ pc(3)]) (use r in \<open>simp add: in_range_def\<close>)
      then show st: "ins_state fl t vo pa n s s'"
        using l(1) grown_trans [OF g1 l(2)] added_trans [OF a1] slots_kept_update [OF sk es(1) d'(1) i(1)]
        by (simp add: ins_state_def)
      assume c: "covered ?S v (unat m) (pa - vo) fl (elook s' d')" and td: "etight s1 (es ! ?i) \<longrightarrow> etight s' d'"
      have "covered V vo (?k + unat m) (pa - vo) fl (tlook s' t)"
        by (rule covered_lift [OF new old' d'(5) c _ _ c1 pc(4) [symmetric]]) (use slots inS in blast)+
      moreover have "ttight s t \<longrightarrow> ttight s' t" using l(4) ti td i(1) es(1) by (auto simp: table_tight_def)
      moreover have "tlook s' t w = tlook s t w" if w: "w \<in> V" "\<not> in_range vo (?k + unat m) w" for w
      proof -
        have nr: "\<not> in_range vo ?k w" "\<not> in_range v (unat m) w" using w(2) pc(4) by (auto simp: in_range_def)
        have "tlook s' t w = tlook s1 t w"
        proof (cases "pt_slot lv w = ?i")
          case True
          then have "elook s' d' w = elook s1 (es ! ?i) w"
            using d'(5) nr(2) slots [OF w(1)] unfolding added_def by blast
          then show ?thesis using new old [OF w(1) True] w(1) True by simp
        next
          case False
          then show ?thesis using new w(1) by simp
        qed
        then show ?thesis using rest [OF w(1) nr(1)] by simp
      qed
      ultimately show "?P (?k + unat m) s'" using st k ma by (simp add: page_aligned_def)
    qed
    have tk: "taken V vo (unat n) (tlook s t)"
      if tt: "ttight s t" and tk1: "etight s1 (es ! ?i) \<longrightarrow> taken ?S v (unat m) (elook s1 (es ! ?i))"
    proof -
      have "etight s1 (es ! ?i)" using ti [OF tt] es(1) i(1) by (simp add: table_tight_def)
      then obtain w where w: "w \<in> ?S" "in_range v (unat m) w" "elook s1 (es ! ?i) w \<noteq> None"
        using tk1 by (auto simp: taken_def)
      have wn: "in_range vo (unat n) w" "\<not> in_range vo ?k w" using w(2) pc(3,4) r by (auto simp: in_range_def)
      have "w \<in> V" by (rule V [OF wn(1)])
      then show ?thesis using w wn rest [of w] old [of w] slots [of w] by (auto simp: taken_def)
    qed
    show "post (eins t fl v ?pa m ?i s1) (?P (?k + unat m)) ?E"
    proof (rule post_mono [OF e_ins [OF es(1,2) i(2) es(3) owe pc(1,2) va paa ma pab refl, of fl, unfolded off]])
      fix s' assume "\<exists>d'. ts_mem s' t = Some (es[?i := d']) \<and> ewf s' d' \<and> t \<notin> efoot s' d'
          \<and> grown {t} (efoot s1 (es ! ?i)) (efoot s' d') s1 s'
          \<and> added ?S v (unat m) (pa - vo) fl (elook s1 (es ! ?i)) (elook s' d')
          \<and> covered ?S v (unat m) (pa - vo) fl (elook s' d') \<and> (etight s1 (es ! ?i) \<longrightarrow> etight s' d')"
      then show "?P (?k + unat m) s'" by (elim exE conjE) (rule lift(2))
    next
      fix e s' assume "\<exists>d'. ts_mem s' t = Some (es[?i := d']) \<and> ewf s' d' \<and> t \<notin> efoot s' d'
          \<and> grown {t} (efoot s1 (es ! ?i)) (efoot s' d') s1 s'
          \<and> added ?S v (unat m) (pa - vo) fl (elook s1 (es ! ?i)) (elook s' d') \<and> insertion_fails e s'
          \<and> (e = Double_insertion \<longrightarrow> etight s1 (es ! ?i) \<longrightarrow> taken ?S v (unat m) (elook s1 (es ! ?i)))"
      then show "?E e s'" using lift(1) tk by blast
    qed
  qed
  then show ?thesis by (rule post_mono) simp_all
qed

lemma table_remove:
  assumes wf: "twf s t" and ow: "owns t (tfoot s t) s" and bound: "unat vo + unat n \<le> 2 ^ 64"
    and V: "\<And>v. in_range vo (unat n) v \<Longrightarrow> v \<in> V"
  shows "post (range_op lv (erem t) vo 0 n s)
     (\<lambda>s'. twf s' t \<and> shrunk {t} (tfoot s t) (tfoot s' t) s s' \<and> cut V (unat vo) (unat n) (tlook s t) (tlook s' t)
        \<and> slots_kept own t s s' \<and> (ttight s t \<longrightarrow> ttight s' t))
     (\<lambda>e s'. False)"
proof (rule range_op_rule [OF bound])
  show "pt_slot lv v < MAX_ENTRIES" if "in_range vo (unat n) v" for v using V [OF that] slot_own own by blast
next
  let ?P = "\<lambda>k s'. twf s' t \<and> shrunk {t} (tfoot s t) (tfoot s' t) s s' \<and> cut V (unat vo) k (tlook s t) (tlook s' t)
      \<and> slots_kept own t s s' \<and> (ttight s t \<longrightarrow> ttight s' t)"
  show "?P 0 s" using wf ow by (simp add: shrunk_def owns_def same_arena_def cut_refl slots_kept_refl)
  fix v m :: addr and s1
  assume r: "in_range vo (unat n) v" and P: "?P (unat v - unat vo) s1"
    and m: "unat m = min (unat vo + unat n - unat v) (2 ^ page_size_log2 lv - unat v mod 2 ^ page_size_log2 lv)"
  note pc = piece [OF r m]
  let ?i = "pt_slot lv v" and ?k = "unat v - unat vo" and ?S = "{w. page w = page v}"
  have vV: "v \<in> V" using V r by blast
  have i: "?i \<in> own" "?i < MAX_ENTRIES" using slot_own [OF vV] own by auto
  from P have wf1: "twf s1 t" and g1: "shrunk {t} (tfoot s t) (tfoot s1 t) s s1"
    and c1: "cut V (unat vo) ?k (tlook s t) (tlook s1 t)" and sk: "slots_kept own t s s1"
    and ti: "ttight s t \<Longrightarrow> ttight s1 t"
    by simp_all
  obtain es where es: "ts_mem s1 t = Some es" "length es = MAX_ENTRIES" "ewf s1 (es ! ?i)"
    using wf1 i(1) by (auto simp: table_wf_def)
  have ow1: "owns t (tfoot s1 t) s1" by (rule shrunk_owns [OF ow g1])
  then have owe: "owns t (efoot s1 (es ! ?i)) s1" using i(1) by (auto simp: owns_def table_footI [OF es(1)])
  have slots: "pt_slot lv w = ?i \<longleftrightarrow> w \<in> ?S" if "w \<in> V" for w using slot_page [OF that vV] by simp
  have old: "tlook s1 t w = elook s1 (es ! ?i) w" if "w \<in> V" "pt_slot lv w = ?i" for w
    using that by (simp add: tlook_entry [OF es(1,2)])
  have far: "\<not> hits (unat v) (unat m) (tr_log2 x) (unat w)"
    if "w \<in> V" "w \<notin> ?S" "tlook s1 t w = Some x" for w x
    using that e_log2 pc(2) by (intro hits_other_page) (auto simp: tlook_entry [OF es(1,2)])
  have lift: "?P (?k + unat m) s'"
    if d': "ts_mem s' t = Some (es[?i := d'])" "ewf s' d'"
      "shrunk {t} (efoot s1 (es ! ?i)) (efoot s' d') s1 s'"
      "cut ?S (unat v) (unat m) (elook s1 (es ! ?i)) (elook s' d')" "etight s1 (es ! ?i) \<longrightarrow> etight s' d'" for s' d'
  proof -
    note l = lift_shrunk [OF wf1 ow1 es(1) i(1) d'(1-3)]
    have "cut V (unat v) (unat m) (tlook s1 t) (tlook s' t)"
    proof (rule cut_lift [where P = "\<lambda>w. pt_slot lv w = ?i"])
      show "\<forall>w\<in>V. tlook s' t w = (if pt_slot lv w = ?i then elook s' d' w else tlook s1 t w)" using l(3) by blast
      show "\<forall>w\<in>V. pt_slot lv w = ?i \<longrightarrow> tlook s1 t w = elook s1 (es ! ?i) w" using old by blast
      show "\<forall>w\<in>V. (pt_slot lv w = ?i) = (w \<in> ?S)" using slots by blast
    qed (fact d'(4), fact far)
    then have "cut V (unat vo) (?k + unat m) (tlook s t) (tlook s' t)"
      using cut_trans [OF c1, of "unat m" "tlook s' t"] by (simp only: pc(4))
    moreover have "ttight s t \<longrightarrow> ttight s' t" using l(4) ti d'(5) i(1) es(1) by (auto simp: table_tight_def)
    ultimately show ?thesis using l(1) shrunk_trans [OF g1 l(2)] slots_kept_update [OF sk es(1) d'(1) i(1)] by simp
  qed
  show "post (erem t v (0 + (v - vo)) m ?i s1) (?P (?k + unat m)) (\<lambda>e s'. False)"
  proof (rule post_mono [OF e_rem [OF es(1,2) i(2) es(3) owe pc(1,2) refl, of "0 + (v - vo)"]])
    show "?P (?k + unat m) s'" if "\<exists>d'. ts_mem s' t = Some (es[?i := d']) \<and> ewf s' d'
        \<and> shrunk {t} (efoot s1 (es ! ?i)) (efoot s' d') s1 s'
        \<and> cut ?S (unat v) (unat m) (elook s1 (es ! ?i)) (elook s' d') \<and> (etight s1 (es ! ?i) \<longrightarrow> etight s' d')" for s'
      using that by (elim exE conjE) (rule lift)
  qed
qed


lemma index_low: "n + 9 \<le> m \<Longrightarrow> hw_index n (take_bit m v) = hw_index n v"
  unfolding hw_index_def by (rule arg_cong [where f = unat]) (rule bit_word_eqI, auto simp: bit_simps)

lemma tlook_low: "page_size_log2 lv + 9 \<le> m \<Longrightarrow> tlook s t (take_bit m v) = tlook s t v"
proof -
  assume m: "page_size_log2 lv + 9 \<le> m"
  then have "take_bit (page_size_log2 lv) (take_bit m v) = take_bit (page_size_log2 lv) v"
    by (simp add: take_bit_take_bit min_def)
  then have "elook s d (take_bit m v) = elook s d v" for d
    using e_low [of s d "take_bit m v"] e_low [of s d v] by simp
  then show ?thesis using index_low [OF m] by (simp add: hw_walk_def split: option.split)
qed

text \<open>All slots of a lower level belong to it, and it is a table for the level in front of it.\<close>

lemma table_level:
  assumes all: "own = {..<MAX_ENTRIES}" "V = {v. unat v < 2 ^ bits}" "bits = page_size_log2 lv + 9" "bits < 64"
  shows "translation_table bits twf tfoot tlook (\<lambda>t vo pa n fl. range_op lv (eins t fl) vo pa n)
    (\<lambda>t vo n. range_op lv (erem t) vo 0 n) (\<lambda>s t. pt_empty s t (\<lambda>d. bit d 0)) ttight"
proof
  have low: "tlook s t (take_bit bits v) = tlook s t v" for s t v by (rule tlook_low) (simp add: all(3))
  have small: "take_bit bits v \<in> V" for v
    by (simp only: all(2) mem_Collect_eq unsigned_take_bit_eq) (simp add: take_bit_eq_mod)
  show "tlook s t (take_bit bits v) = tlook s t v" for s t v by (rule low)
  show "twf s' t \<and> tfoot s' t = tfoot s t \<and> tlook s' t v = tlook s t v \<and> ttight s' t = ttight s t"
    if "twf s t" "agree (insert t (tfoot s t)) s s'" for s t s' v
    using table_frame(1,2,4) [OF that] table_frame(3) [OF that small, of v] low by simp
  show "tr_log2 m \<le> bits" if l: "tlook s t v = Some m" for s t v m
  proof -
    obtain d where "elook s d v = Some m" using l by (auto simp: hw_walk_def split: option.splits)
    then show ?thesis using e_log2 all(3) by fastforce
  qed
  show "t \<notin> tfoot s t" if "twf s t" for s t by (rule table_own [OF that])
  show "twf s t \<and> tfoot s t = {} \<and> tlook s t v = None \<and> ttight s t" if m: "ts_mem s t = Some (replicate MAX_ENTRIES 0)" for s t v
  proof -
    have z: "\<not> bit (0 :: addr) 0" by simp
    have "tlook s t (take_bit bits v) = None"
      using tlook_entry [OF m _ small] e_zero [OF z] own [OF slot_own [OF small]] by simp
    then show ?thesis
      using e_zero [OF z] own by (auto simp: low table_wf_def table_tight_def m table_footI [OF m])
  qed
  show "pt_empty s t (\<lambda>d. bit d 0) \<noteq> None" if "twf s t" for s t
    using that by (auto simp: pt_empty_def table_wf_def)
  show "tfoot s t = {} \<and> tlook s t v = None" if wf: "twf s t" and em: "pt_empty s t (\<lambda>d. bit d 0) = Some True" for s t v
  proof -
    obtain es where es: "ts_mem s t = Some es" "length es = MAX_ENTRIES" using wf by (auto simp: table_wf_def)
    then have z: "\<not> bit (es ! i) 0" if "i < MAX_ENTRIES" for i
      using em that by (simp add: pt_empty_def list_all_length)
    have "tlook s t (take_bit bits v) = None"
      using tlook_entry [OF es small] e_zero [OF z [OF own [OF slot_own [OF small]]]] by simp
    then show ?thesis using e_zero z own by (auto simp: low table_footI [OF es(1)])
  qed
  show "\<exists>v. unat v < 2 ^ bits \<and> tlook s t v \<noteq> None"
    if wf: "twf s t" and ti: "ttight s t" and em: "pt_empty s t (\<lambda>d. bit d 0) = Some False" for s t
  proof -
    let ?p = "page_size_log2 lv"
    obtain es where es: "ts_mem s t = Some es" "length es = MAX_ENTRIES" "\<forall>i\<in>own. ewf s (es ! i)"
      using wf by (auto simp: table_wf_def)
    obtain i where i: "i < MAX_ENTRIES" "bit (es ! i) 0"
      using em es(1,2) by (auto simp: pt_empty_def list_all_length)
    then have io: "i \<in> own" by (simp add: all(1))
    then have "\<exists>v. elook s (es ! i) v \<noteq> None"
      using ti es(1,3) by (intro e_present [OF i(2)]) (auto simp: table_tight_def)
    then obtain v where v: "elook s (es ! i) v \<noteq> None" by blast
    define w where "w = (of_nat (i * 2 ^ ?p + unat v mod 2 ^ ?p) :: addr)"
    have "unat v mod 2 ^ ?p < 2 ^ ?p" by simp
    moreover have "(i + 1) * 2 ^ ?p \<le> 512 * 2 ^ ?p" using i(1) by (intro mult_le_mono1) simp
    ultimately have "i * 2 ^ ?p + unat v mod 2 ^ ?p < 512 * 2 ^ ?p" unfolding add_mult_distrib mult_1 by linarith
    then have sum: "i * 2 ^ ?p + unat v mod 2 ^ ?p < 2 ^ bits" by (simp add: all(3) power_add)
    moreover have "(2::nat) ^ bits \<le> 2 ^ 64" using all(4) by (intro power_increasing) simp_all
    ultimately have uw: "unat w = i * 2 ^ ?p + unat v mod 2 ^ ?p"
      unfolding w_def unat_of_nat by (intro mod_less) simp
    have wV: "w \<in> V" using uw sum by (simp add: all(2))
    have "hw_index ?p w = i"
    proof -
      have "unat (take_bit 9 (drop_bit ?p w)) = unat w div 2 ^ ?p mod 512"
        by (simp only: unsigned_take_bit_eq unsigned_drop_bit_eq)
          (simp add: take_bit_eq_mod drop_bit_eq_div mod_less unat_less_64)
      also have "unat w div 2 ^ ?p = i" by (simp add: uw)
      finally show ?thesis using i(1) by (simp add: hw_index_def)
    qed
    then have "pt_slot lv w = i" using slot_hw [OF wV] by simp
    moreover have "take_bit ?p w = take_bit ?p v"
      by (simp only: word_unat_eq_iff unsigned_take_bit_eq) (simp add: take_bit_eq_mod uw)
    then have "elook s (es ! i) w \<noteq> None" using v e_low [of s "es ! i" w] e_low [of s "es ! i" v] by simp
    ultimately have "tlook s t w \<noteq> None" using tlook_entry [OF es(1,2) wV] by simp
    then show ?thesis using uw sum by (intro exI [of _ w]) simp
  qed
next
  have inV: "v \<in> V" if "unat vo + unat n \<le> 2 ^ bits" "in_range vo (unat n) v" for vo n v :: addr
    using that by (simp add: all(2) in_range_def)
  have b64: "x \<le> 2 ^ 64" if "x \<le> 2 ^ bits" for x :: nat
    using that power_increasing [of bits 64 "2::nat"] all(4) by simp
  show "post (range_op lv (eins t fl) vo pa n s)
          (\<lambda>s'. twf s' t \<and> grown {t} (tfoot s t) (tfoot s' t) s s'
             \<and> added {v. unat v < 2 ^ bits} vo (unat n) (pa - vo) fl (tlook s t) (tlook s' t)
             \<and> covered {v. unat v < 2 ^ bits} vo (unat n) (pa - vo) fl (tlook s' t)
             \<and> (ttight s t \<longrightarrow> ttight s' t))
          (\<lambda>e s'. twf s' t \<and> grown {t} (tfoot s t) (tfoot s' t) s s'
             \<and> added {v. unat v < 2 ^ bits} vo (unat n) (pa - vo) fl (tlook s t) (tlook s' t)
             \<and> insertion_fails e s'
             \<and> (e = Double_insertion \<longrightarrow> ttight s t \<longrightarrow> taken {v. unat v < 2 ^ bits} vo (unat n) (tlook s t)))"
    if "twf s t" "owns t (tfoot s t) s" "unat vo + unat n \<le> 2 ^ bits" "page_aligned vo" "page_aligned pa" "page_aligned n"
      "unat pa + unat n \<le> 2 ^ 48" for s t vo n pa fl
    by (rule post_mono [OF table_insert [OF that(1,2) b64 [OF that(3)] inV [OF that(3)] that(4-7), of fl]])
       (unfold ins_state_def all(2) [symmetric], simp_all)
  show "post (range_op lv (erem t) vo 0 n s)
          (\<lambda>s'. twf s' t \<and> shrunk {t} (tfoot s t) (tfoot s' t) s s'
             \<and> cut {v. unat v < 2 ^ bits} (unat vo) (unat n) (tlook s t) (tlook s' t)
             \<and> (ttight s t \<longrightarrow> ttight s' t))
          (\<lambda>e s'. False)"
    if "twf s t" "owns t (tfoot s t) s" "unat vo + unat n \<le> 2 ^ bits" for s t vo n
    by (rule post_mono [OF table_remove [OF that(1,2) b64 [OF that(3)] inV [OF that(3)]]]) (simp_all add: all(2))
qed

end

end
