(* ===== verification/Page_Table_Entries.thy ===== *)
theory Page_Table_Entries
  imports Page_Table_Levels
begin

text \<open>
  The entries of the three kinds of tables meet the contract of the loop: leaf entries of the last
  level, directory entries over any level that meets its contract, and entries of the top level.
\<close>

section \<open>Bits of descriptors\<close>

lemma desc_zero: "\<not> bit (0 :: addr) k"
  by simp

lemma bf_get_flag: "bf_get (Bitfield k 1) (d :: addr) \<noteq> 0 \<longleftrightarrow> bit d k"
proof
  assume "bf_get (Bitfield k 1) d \<noteq> 0"
  then obtain j where "bit (bf_get (Bitfield k 1) d) j" by (metis bit_eq_iff desc_zero)
  then show "bit d k" by (auto simp: bit_bf_get)
next
  assume "bit d k"
  then have "bit (bf_get (Bitfield k 1) d) 0" by (simp add: bit_bf_get)
  then show "bf_get (Bitfield k 1) d \<noteq> 0" by (metis desc_zero)
qed

lemma desc_present_bit: "desc_present d \<longleftrightarrow> bit d 0"
  unfolding desc_present_def Desc_P_def by (rule bf_get_flag)

lemma desc_maps_page_bit: "desc_maps_page d \<longleftrightarrow> bit d 7"
  unfolding desc_maps_page_def Desc_Ps_def by (rule bf_get_flag)

lemma bit_flag: "bit (bf_bits (Bitfield m (Suc 0)) (of_bool b :: addr)) k \<longleftrightarrow> k < 64 \<and> k = m \<and> b"
  by (auto simp: bit_bf_bits in_field_def le_Suc_eq)

lemma bit_flag_1: "bit (bf_bits (Bitfield m (Suc 0)) (1 :: addr)) k \<longleftrightarrow> k < 64 \<and> k = m"
  using bit_flag [of m True k] by simp

lemma bit_flag_0: "\<not> bit (bf_bits (Bitfield m (Suc 0)) (0 :: addr)) k"
  using bit_flag [of m False k] by simp

lemmas bit_flags = bit_flag bit_flag_1 bit_flag_0

lemma bit_common_create: "bit (common_create fl) k \<longleftrightarrow>
    k = 0 \<or> (k = 1 \<and> pf_writeable fl = RW) \<or> (k = 2 \<and> pf_privileged fl \<noteq> KERN) \<or> (k = 63 \<and> pf_executable fl \<noteq> EXEC)"
  by (auto simp: common_create_def bit_or_iff bit_flags Desc_P_def Desc_Rw_def Desc_Us_def Desc_Xd_def)

lemma bit_clear_mmu_flags: "bit (clear_mmu_flags d) k \<longleftrightarrow> bit d k \<and> k \<noteq> 5 \<and> k \<noteq> 6"
  by (auto simp: clear_mmu_flags_def bit_bf_clear Desc_A_def Desc_D_def in_field_def)

lemma bit_l4_create: "bit (l4_create fl pa) k \<longleftrightarrow>
    bit (common_create fl) k \<or> (k = 8 \<and> pf_global fl = GLOBAL) \<or> (12 \<le> k \<and> k < 48 \<and> bit pa k)"
  by (auto simp: l4_create_def bit_or_iff bit_flags bit_bf_masked Desc_G_def Desc_Pa_def in_field_def)

lemma bit_page_create: "n < 48 \<Longrightarrow> bit (page_create n fl pa) k \<longleftrightarrow>
    bit (common_create fl) k \<or> k = 7 \<or> (k = 8 \<and> pf_global fl = GLOBAL) \<or> (n \<le> k \<and> k < 48 \<and> bit pa k)"
  by (auto simp: page_create_def page_pa_def bit_or_iff bit_flags bit_bf_masked Desc_Ps_def Desc_G_def in_field_def)

lemma bit_table_create: "bit (table_create p) k \<longleftrightarrow> k = 0 \<or> k = 1 \<or> k = 2 \<or> (12 \<le> k \<and> k < 48 \<and> bit p k)"
  by (auto simp: table_create_def bit_or_iff bit_common_create table_flags_def bit_bf_masked Desc_Pa_def in_field_def)

lemma bit_pml4_create: "bit (pml4_create p) k \<longleftrightarrow> k = 0 \<or> k = 1 \<or> k = 2 \<or> (12 \<le> k \<and> k < 60 \<and> bit p k)"
  by (auto simp: pml4_create_def bit_or_iff bit_common_create table_flags_def bit_bf_masked Pml4_Pa_def in_field_def)

lemma bit_hw_address: "bit (hw_address n d) k \<longleftrightarrow> n \<le> k \<and> k < 52 \<and> bit d k"
  using bit_imp_le_length [of d k] by (auto simp: hw_address_def bit_simps)


section \<open>Addresses inside a page\<close>

lemma page_offset: "vo - (vo AND pt_page_mask lv) = take_bit (page_size_log2 lv) vo"
  using bits_ident [of "page_size_log2 lv" vo] unfolding pt_page_mask_shift by (metis add_diff_cancel_left')

lemma unat_take: "unat (take_bit p (v :: addr)) = unat v mod 2 ^ p"
  by (simp only: unsigned_take_bit_eq) (simp add: take_bit_eq_mod)

lemma unat_drop: "unat (drop_bit p (v :: 'a::len word)) = unat v div 2 ^ p"
  by (simp only: unsigned_drop_bit_eq) (simp add: drop_bit_eq_div take_bit_nat_eq_self)

lemma misaligned_bits: "vo AND NOT (pt_page_mask lv) \<noteq> 0 \<longleftrightarrow> take_bit (page_size_log2 lv) vo \<noteq> 0"
proof -
  have "NOT (pt_page_mask lv) = mask (page_size_log2 lv)"
    by (simp add: pt_page_mask_def mask_eq_exp_minus_1)
  then show ?thesis by (simp add: take_bit_eq_mask)
qed

lemma same_page_diff:
  assumes "unat v div 2 ^ p = unat w div 2 ^ p" "p < 64"
  shows "take_bit p v - take_bit p w = v - (w :: addr)"
proof -
  note e = bits_ident [of p]
  have "drop_bit p v = drop_bit p w"
    using assms by (simp only: word_unat_eq_iff unat_drop)
  then show ?thesis using e [of v] e [of w] by (metis add_diff_cancel_left)
qed


section \<open>Entries of all kinds\<close>

text \<open>
  \<open>leaf\<close> says which present entries map a page of \<open>2 ^ n\<close> bytes: all of them on the last level, none on
  the top level, those with the page-size bit in between.  \<open>pf\<close> is the address field of the code for
  the other entries.
\<close>

definition dir_wf ::
  "(addr \<Rightarrow> bool) \<Rightarrow> bitfield \<Rightarrow> (table_space \<Rightarrow> addr \<Rightarrow> bool) \<Rightarrow> table_space \<Rightarrow> addr \<Rightarrow> bool" where
  "dir_wf leaf pf tok s d \<longleftrightarrow> (bit d 0 \<and> \<not> leaf d \<longrightarrow> bit d 1 \<and> bit d 2 \<and> \<not> bit d 63
     \<and> pta_virt_addr s (bf_masked pf d) = hw_table s d \<and> tok s (hw_table s d))"

definition dir_foot ::
  "(addr \<Rightarrow> bool) \<Rightarrow> (table_space \<Rightarrow> addr \<Rightarrow> addr set) \<Rightarrow> table_space \<Rightarrow> addr \<Rightarrow> addr set" where
  "dir_foot leaf foot s d =
     (if bit d 0 \<and> \<not> leaf d then insert (hw_table s d) (foot s (hw_table s d)) else {})"

definition dir_look ::
  "(addr \<Rightarrow> bool) \<Rightarrow> nat \<Rightarrow> (table_space \<Rightarrow> addr \<Rightarrow> addr \<Rightarrow> translation option) \<Rightarrow>
     table_space \<Rightarrow> addr \<Rightarrow> addr \<Rightarrow> translation option" where
  "dir_look leaf n look s d v =
     (if bit d 0 \<and> leaf d then Some (hw_leaf n d v) else hw_table_entry look s d v)"

text \<open>The table behind an entry translates something, and so on further down.\<close>

definition dir_tight ::
  "(addr \<Rightarrow> bool) \<Rightarrow> nat \<Rightarrow> (table_space \<Rightarrow> addr \<Rightarrow> bool) \<Rightarrow>
     (table_space \<Rightarrow> addr \<Rightarrow> addr \<Rightarrow> translation option) \<Rightarrow> table_space \<Rightarrow> addr \<Rightarrow> bool" where
  "dir_tight leaf n tight look s d \<longleftrightarrow> (bit d 0 \<and> \<not> leaf d \<longrightarrow>
     (\<exists>v. unat v < 2 ^ n \<and> look s (hw_table s d) v \<noteq> None) \<and> tight s (hw_table s d))"

lemmas dir_defs = dir_wf_def dir_foot_def dir_look_def hw_table_entry_def dir_tight_def

lemma dir_absent: "\<not> bit d 0 \<Longrightarrow> dir_wf leaf pf tok s d \<and> dir_foot leaf foot s d = {} \<and> dir_look leaf n look s d v = None
    \<and> dir_tight leaf m tight look s d"
  by (simp add: dir_defs)

lemma dir_leaf: "bit d 0 \<Longrightarrow> leaf d \<Longrightarrow>
    dir_wf leaf pf tok s d \<and> dir_foot leaf foot s d = {} \<and> dir_look leaf n look s d v = Some (hw_leaf n d v)
    \<and> dir_tight leaf m tight look s d"
  by (simp add: dir_defs)

lemma set_entry_mem:
  "ts_mem s t = Some es \<Longrightarrow> ts_mem (pt_set_entry t i d s) t = Some (es[i := d])"
  "a \<noteq> t \<Longrightarrow> ts_mem (pt_set_entry t i d s) a = ts_mem s a"
  by (simp_all add: pt_set_entry_def)

lemma set_entry_arena:
  "pta_ok s \<Longrightarrow> same_arena s (pt_set_entry t i d s)"
  "used_tables (pt_set_entry t i d s) = used_tables s"
  by (simp_all add: same_arena_def pta_ok_def arena_def used_tables_def pt_set_entry_def)

lemma pt_entry_at: "ts_mem s t = Some es \<Longrightarrow> length es = MAX_ENTRIES \<Longrightarrow> i < MAX_ENTRIES \<Longrightarrow> pt_entry s t i = Some (es ! i)"
  by (simp add: pt_entry_def)

lemma hw_leaf_mmu:
  assumes "clear_mmu_flags d = e" "12 \<le> n"
  shows "hw_leaf n d v = hw_leaf n e v"
proof -
  have b: "bit e k = bit d k" if "k \<noteq> 5" "k \<noteq> 6" for k
    using that bit_clear_mmu_flags [of d k] assms(1) by simp
  have "hw_address n e = hw_address n d"
    using assms(2) by (intro bit_word_eqI) (auto simp: bit_hw_address b)
  then show ?thesis by (simp add: hw_leaf_def b)
qed

text \<open>The address a leaf entry yields.\<close>

lemma leaf_requested:
  assumes e: "\<And>k. n \<le> k \<Longrightarrow> k < 52 \<Longrightarrow> bit e k = (k < 48 \<and> bit pa k)" "bit e 1 = (pf_writeable fl = RW)"
      "bit e 2 = (pf_privileged fl \<noteq> KERN)" "bit e 63 = (pf_executable fl \<noteq> EXEC)" "bit e 8 = (pf_global fl = GLOBAL)"
    and pa: "2 ^ n dvd unat pa" "unat pa < 2 ^ 48" and n: "n < 48"
    and v: "unat v div 2 ^ n = unat vo div 2 ^ n" "2 ^ n dvd unat vo"
  shows "hw_leaf n e v = requested (pa - vo) fl v n"
proof -
  have "hw_address n e = pa"
  proof (rule bit_word_eqI)
    fix k assume "k < LENGTH(64)"
    show "bit (hw_address n e) k \<longleftrightarrow> bit pa k"
      using e(1) [of k] aligned_low_bits [OF pa(1), of k] small_high_bits [OF pa(2), of k]
      by (cases "k < n"; cases "k < 48") (auto simp: bit_hw_address)
  qed
  moreover have "pa OR take_bit n v = pa + take_bit n v"
    using aligned_low_bits [OF pa(1)] by (intro disjunctive_add [symmetric]) (auto simp: bit_take_bit_iff)
  moreover have "take_bit n v = v - vo"
  proof -
    have "take_bit n vo = 0" using v(2) by (simp add: word_unat_eq_iff unat_take)
    then show ?thesis using same_page_diff [OF v(1)] n by simp
  qed
  ultimately show ?thesis using e(2-5) by (simp add: hw_leaf_def requested_def)
qed

text \<open>A leaf is written where nothing or the same page was.\<close>

lemma leaf_store:
  assumes es: "ts_mem s t = Some es" "length es = MAX_ENTRIES" "i < MAX_ENTRIES"
    and ow: "owns t (dir_foot leaf foot s (es ! i)) s"
    and e: "bit e 0" "leaf e" and old: "bit (es ! i) 0 \<Longrightarrow> clear_mmu_flags (es ! i) = e"
    and leaf: "\<And>d. leaf (clear_mmu_flags d) = leaf d" and n: "12 \<le> n"
    and req: "\<And>v. v \<in> S \<Longrightarrow> hw_leaf n e v = requested off fl v n" and S: "\<And>v. v \<in> S \<Longrightarrow> in_range vo k v"
  shows "ts_mem (pt_set_entry t i e s) t = Some (es[i := e]) \<and> dir_wf leaf pf tok (pt_set_entry t i e s) e
      \<and> t \<notin> dir_foot leaf foot (pt_set_entry t i e s) e
      \<and> grown {t} (dir_foot leaf foot s (es ! i)) (dir_foot leaf foot (pt_set_entry t i e s) e) s (pt_set_entry t i e s)
      \<and> added S vo k off fl (dir_look leaf n look s (es ! i)) (dir_look leaf n look (pt_set_entry t i e s) e)
      \<and> covered S vo k off fl (dir_look leaf n look (pt_set_entry t i e s) e)"
proof -
  let ?s = "pt_set_entry t i e s" and ?d = "es ! i"
  note le = dir_leaf [of e leaf, OF e]
  have d: "dir_foot leaf foot s ?d = {}"
    "dir_look leaf n look s ?d v = (if bit ?d 0 then Some (hw_leaf n e v) else None)" for v
  proof -
    have "leaf ?d" if "bit ?d 0" using old [OF that] leaf [of ?d] e(2) by simp
    then show "dir_foot leaf foot s ?d = {}"
      "dir_look leaf n look s ?d v = (if bit ?d 0 then Some (hw_leaf n e v) else None)" for v
      using dir_absent [of ?d leaf] dir_leaf [of ?d leaf] hw_leaf_mmu [OF old n] by (cases "bit ?d 0"; simp)+
  qed
  have "pta_ok s" using ow by (simp add: owns_def)
  then have "grown {t} {} {} s ?s" using set_entry_arena(1) [of s t i e] set_entry_arena(2) [of t i e s] set_entry_mem(2) [of _ t i e s] by (simp add: grown_def)
  then show ?thesis
    using set_entry_mem(1) [OF es(1), of i e] le req S by (auto simp: d added_def covered_def)
qed


section \<open>Descending into the next level\<close>

definition dir_descend ::
  "(addr \<Rightarrow> bool) \<Rightarrow> (addr \<Rightarrow> addr) \<Rightarrow> bitfield \<Rightarrow>
     (addr \<Rightarrow> addr \<Rightarrow> addr \<Rightarrow> addr \<Rightarrow> page_flags \<Rightarrow> table_space \<Rightarrow> table_space outcome) \<Rightarrow> table_level \<Rightarrow>
     addr \<Rightarrow> page_flags \<Rightarrow> addr \<Rightarrow> addr \<Rightarrow> addr \<Rightarrow> nat \<Rightarrow> table_space \<Rightarrow> table_space outcome" where
  "dir_descend leaf create pf next_insert lv table flags vo pa n i s =
     (case pt_entry s table i of
        None \<Rightarrow> Fault
      | Some desc \<Rightarrow>
          and_then
            (if \<not> desc_present desc then
               pta_construct s (\<lambda>next s. pt_set_entry table i (create (pta_phys_addr s next)) s)
             else if leaf desc then Thrown Double_insertion s
             else Returned s)
            (\<lambda>s. case pt_entry s table i of
               None \<Rightarrow> Fault
             | Some desc \<Rightarrow>
                 next_insert (pta_virt_addr s (bf_masked pf desc)) (vo - (vo AND pt_page_mask lv)) pa n flags s))"

definition dir_remove ::
  "(addr \<Rightarrow> bool) \<Rightarrow> bitfield \<Rightarrow> (addr \<Rightarrow> addr \<Rightarrow> addr \<Rightarrow> table_space \<Rightarrow> table_space outcome) \<Rightarrow>
     (table_space \<Rightarrow> addr \<Rightarrow> bool option) \<Rightarrow> table_level \<Rightarrow>
     addr \<Rightarrow> addr \<Rightarrow> addr \<Rightarrow> addr \<Rightarrow> nat \<Rightarrow> table_space \<Rightarrow> table_space outcome" where
  "dir_remove leaf pf next_remove next_empty lv table vo pa n i s =
     (case pt_entry s table i of
        None \<Rightarrow> Fault
      | Some desc \<Rightarrow>
          if desc_present desc then
            if leaf desc then Returned (pt_set_entry table i 0 s)
            else
              (let next = pta_virt_addr s (bf_masked pf desc);
                   table_vo = vo - (vo AND pt_page_mask lv)
               in and_then (next_remove next table_vo n s)
                    (\<lambda>s. case next_empty s next of
                       None \<Rightarrow> Fault
                     | Some True \<Rightarrow> and_then (pta_destruct next s) (\<lambda>s. Returned (pt_set_entry table i 0 s))
                     | Some False \<Rightarrow> Returned s))
          else Returned s)"

lemma restrict_full: "bit d 1 \<Longrightarrow> bit d 2 \<Longrightarrow> \<not> bit d 63 \<Longrightarrow> hw_restrict d = id"
  by (simp add: hw_restrict_def fun_eq_iff)

lemma range_offset:
  assumes "unat v div 2 ^ p = unat vo div 2 ^ p"
  shows "in_range (take_bit p vo) k (take_bit p v) \<longleftrightarrow> in_range vo k v"
proof -
  have "unat v = unat v div 2 ^ p * 2 ^ p + unat v mod 2 ^ p" by (rule div_mult_mod_eq [symmetric])
  moreover have "unat vo = unat v div 2 ^ p * 2 ^ p + unat vo mod 2 ^ p"
    unfolding assms by (rule div_mult_mod_eq [symmetric])
  ultimately show ?thesis unfolding in_range_def unat_take by linarith
qed

lemma requested_offset:
  assumes "unat v div 2 ^ p = unat vo div 2 ^ p" "p < 64"
  shows "requested (pa - take_bit p vo) fl (take_bit p v) l = requested (pa - vo) fl v l"
proof -
  have "take_bit p v + (pa - take_bit p vo) = pa + (take_bit p v - take_bit p vo)" by simp
  also have "\<dots> = v + (pa - vo)" using same_page_diff [OF assms] by simp
  finally show ?thesis by (simp add: requested_def)
qed

definition links_tables :: "(addr \<Rightarrow> bool) \<Rightarrow> (addr \<Rightarrow> addr) \<Rightarrow> bitfield \<Rightarrow> bool" where
  "links_tables leaf create pf \<longleftrightarrow> (\<forall>p. table_phys p \<longrightarrow> bit (create p) 0 \<and> \<not> leaf (create p) \<and> bit (create p) 1
     \<and> bit (create p) 2 \<and> \<not> bit (create p) 63 \<and> bf_masked pf (create p) = p \<and> hw_address 12 (create p) = p)"

context translation_table
begin

abbreviation "in_page p vo \<equiv> {v. unat v div 2 ^ p = unat vo div 2 ^ p}"
abbreviation "etight leaf \<equiv> dir_tight leaf bits tight look"

definition entry_grown ::
  "(addr \<Rightarrow> bool) \<Rightarrow> bitfield \<Rightarrow> addr \<Rightarrow> addr list \<Rightarrow> nat \<Rightarrow> addr set \<Rightarrow> addr \<Rightarrow> nat \<Rightarrow> addr \<Rightarrow> page_flags \<Rightarrow>
     table_space \<Rightarrow> addr \<Rightarrow> table_space \<Rightarrow> bool" where
  "entry_grown leaf pf t es i S vo k off fl s d' s' \<longleftrightarrow>
     ts_mem s' t = Some (es[i := d']) \<and> dir_wf leaf pf wf s' d' \<and> t \<notin> dir_foot leaf foot s' d'
     \<and> grown {t} (dir_foot leaf foot s (es ! i)) (dir_foot leaf foot s' d') s s'
     \<and> added S vo k off fl (dir_look leaf bits look s (es ! i)) (dir_look leaf bits look s' d')"

definition entry_covered ::
  "(addr \<Rightarrow> bool) \<Rightarrow> addr set \<Rightarrow> addr \<Rightarrow> nat \<Rightarrow> addr \<Rightarrow> page_flags \<Rightarrow> addr \<Rightarrow> table_space \<Rightarrow> bool" where
  "entry_covered leaf S vo k off fl d' s' \<longleftrightarrow> covered S vo k off fl (dir_look leaf bits look s' d')"

lemma child_look:
  assumes "bit d 0" "\<not> leaf d" "dir_wf leaf pf wf s d" "v \<in> in_page bits vo"
  shows "dir_look leaf bits look s d v = look s (hw_table s d) (take_bit bits v)"
  using assms by (simp add: dir_look_def hw_table_entry_def dir_wf_def restrict_full look_low option.map_id)

lemma descend_existing:
  assumes es: "ts_mem s t = Some es" "length es = MAX_ENTRIES" "i < MAX_ENTRIES"
    and d: "bit (es ! i) 0" "\<not> leaf (es ! i)" and ewf: "dir_wf leaf pf wf s (es ! i)"
    and ow: "owns t (dir_foot leaf foot s (es ! i)) s"
    and r: "unat vo mod 2 ^ bits + unat n \<le> 2 ^ bits" "bits < 64" "12 \<le> bits" and n: "0 < unat n"
    and al: "page_aligned vo" "page_aligned pa" "page_aligned n" "unat pa + unat n \<le> 2 ^ 48"
  shows "post (ins (pta_virt_addr s (bf_masked pf (es ! i))) (take_bit bits vo) pa n fl s)
      (\<lambda>s'. entry_grown leaf pf t es i (in_page bits vo) vo (unat n) (pa - vo) fl s (es ! i) s'
         \<and> entry_covered leaf (in_page bits vo) vo (unat n) (pa - vo) fl (es ! i) s'
         \<and> (tight s (hw_table s (es ! i)) \<longrightarrow> etight leaf s' (es ! i)))
      (\<lambda>e s'. entry_grown leaf pf t es i (in_page bits vo) vo (unat n) (pa - vo) fl s (es ! i) s'
         \<and> insertion_fails e s'
         \<and> (e = Double_insertion \<longrightarrow> tight s (hw_table s (es ! i)) \<longrightarrow>
               taken (in_page bits vo) vo (unat n) (dir_look leaf bits look s (es ! i))))"
proof -
  let ?d = "es ! i" and ?S = "in_page bits vo" and ?vo = "take_bit bits vo"
  let ?c = "hw_table s ?d" and ?W = "{v. unat v < 2 ^ bits}"
  have c: "pta_virt_addr s (bf_masked pf ?d) = ?c" "wf s ?c" using ewf d by (simp_all add: dir_wf_def)
  have F: "dir_foot leaf foot s ?d = insert ?c (foot s ?c)" using d by (simp add: dir_foot_def)
  have ok: "pta_ok s" "?c \<in> used_tables s" "foot s ?c \<subseteq> used_tables s" "t \<noteq> ?c" "t \<notin> foot s ?c" "t \<notin> spare_tables s"
    using ow unfolding owns_def F by auto
  have owc: "owns ?c (foot s ?c) s" using ok not_own [OF c(2)] by (simp add: owns_def spare_tables_def)
  have voa: "page_aligned ?vo"
  proof -
    have "(4096::nat) dvd 2 ^ bits" using le_imp_power_dvd [OF r(3), of "2::nat"] by simp
    then show ?thesis using al(1) by (simp add: page_aligned_def unat_take dvd_mod)
  qed
  have b: "unat ?vo + unat n \<le> 2 ^ bits" using r(1) by (simp add: unat_take)
  have common: "entry_grown leaf pf t es i ?S vo (unat n) (pa - vo) fl s ?d s'"
    "covered ?W ?vo (unat n) (pa - ?vo) fl (look s' ?c) \<Longrightarrow> entry_covered leaf ?S vo (unat n) (pa - vo) fl ?d s'"
    "covered ?W ?vo (unat n) (pa - ?vo) fl (look s' ?c) \<Longrightarrow> tight s' ?c \<Longrightarrow> etight leaf s' ?d"
    "taken ?W ?vo (unat n) (look s ?c) \<Longrightarrow> taken ?S vo (unat n) (dir_look leaf bits look s ?d)"
    if wf': "wf s' ?c" and g: "grown {?c} (foot s ?c) (foot s' ?c) s s'"
      and a: "added ?W ?vo (unat n) (pa - ?vo) fl (look s ?c) (look s' ?c)" for s'
  proof -
    have ar: "same_arena s s'" and used: "used_tables s' = used_tables s \<union> foot s' ?c"
      and int: "foot s' ?c \<inter> used_tables s = foot s ?c"
      and mem: "\<And>a. a \<notin> {?c} \<union> foot s' ?c \<Longrightarrow> ts_mem s' a = ts_mem s a"
      using g by (auto simp: grown_def)
    have vp: "ts_virt s' = ts_virt s" "ts_phys s' = ts_phys s" "arena s' = arena s" using ar by (simp_all add: same_arena_def)
    have hc: "hw_table s' ?d = ?c" using vp by (simp add: hw_table_def)
    have "foot s' ?c \<subseteq> arena s" using used used_arena [of s'] vp by auto
    then have nt: "t \<notin> foot s' ?c" using int ok(5,6) unfolding spare_tables_def by blast
    have ewf': "dir_wf leaf pf wf s' ?d" using ewf wf' hc vp unfolding dir_wf_def by (simp add: pta_virt_addr_def hw_table_def)
    have F': "dir_foot leaf foot s' ?d = insert ?c (foot s' ?c)" using d by (simp add: dir_foot_def hc)
    have gr: "grown {t} (insert ?c (foot s ?c)) (insert ?c (foot s' ?c)) s s'"
      using ar used int mem ok(2) by (auto simp: grown_def)
    have mt: "ts_mem s' t = Some (es[i := ?d])" using mem [of t] nt ok(4) es(1) by simp
    have small: "take_bit bits v \<in> ?W" for v :: addr by (simp add: unat_take)
    have l: "dir_look leaf bits look s ?d v = look s ?c (take_bit bits v)"
      "dir_look leaf bits look s' ?d v = look s' ?c (take_bit bits v)" if "v \<in> ?S" for v
      using child_look [OF d ewf that] child_look [OF d ewf' that] hc by simp_all
    have "added ?S vo (unat n) (pa - vo) fl (dir_look leaf bits look s ?d) (dir_look leaf bits look s' ?d)"
      unfolding added_def
    proof
      fix v :: addr assume v: "v \<in> ?S"
      then have p: "unat v div 2 ^ bits = unat vo div 2 ^ bits" by simp
      show "dir_look leaf bits look s' ?d v = dir_look leaf bits look s ?d v \<or> in_range vo (unat n) v \<and>
          dir_look leaf bits look s ?d v = None \<and> (\<exists>l. dir_look leaf bits look s' ?d v = Some (requested (pa - vo) fl v l))"
        using a small [of v] unfolding added_def l [OF v] range_offset [OF p, symmetric]
          requested_offset [OF p r(2), of pa, symmetric] by blast
    qed
    then show "entry_grown leaf pf t es i ?S vo (unat n) (pa - vo) fl s ?d s'"
      unfolding entry_grown_def F F' using mt ewf' nt ok(4) gr by simp
    show "taken ?S vo (unat n) (dir_look leaf bits look s ?d)" if tk: "taken ?W ?vo (unat n) (look s ?c)"
    proof -
      obtain w where w: "unat w < 2 ^ bits" "in_range ?vo (unat n) w" "look s ?c w \<noteq> None" using tk by (auto simp: taken_def)
      define v where "v = w + (vo - ?vo)"
      have tv: "unat vo = unat vo div 2 ^ bits * 2 ^ bits + unat ?vo" unfolding unat_take by (rule div_mult_mod_eq [symmetric])
      then have "?vo \<le> vo" by (simp add: word_le_nat_alt)
      then have d: "unat (vo - ?vo) = unat vo div 2 ^ bits * 2 ^ bits" using tv by (simp add: unat_sub_no_wrap)
      have "unat vo div 2 ^ bits * 2 ^ bits + 2 ^ bits \<le> 2 ^ 64"
      proof -
        have e: "(2::nat) ^ 64 = 2 ^ (64 - bits) * 2 ^ bits" using r(2) by (simp add: power_add [symmetric])
        have "unat vo < 2 ^ 64" using unat_less_64 [of vo] by simp
        then have "unat vo < 2 ^ (64 - bits) * 2 ^ bits" by (simp only: e)
        then have "unat vo div 2 ^ bits + 1 \<le> 2 ^ (64 - bits)" by (simp add: less_mult_imp_div_less Suc_le_eq)
        then have "(unat vo div 2 ^ bits + 1) * 2 ^ bits \<le> 2 ^ (64 - bits) * 2 ^ bits" by (rule mult_le_mono1)
        then show ?thesis by (simp only: e add_mult_distrib mult_1)
      qed
      then have uv: "unat v = unat vo div 2 ^ bits * 2 ^ bits + unat w"
        unfolding v_def using w(1) d by (subst unat_add_no_wrap) simp_all
      have p: "unat v div 2 ^ bits = unat vo div 2 ^ bits" using w(1) by (simp add: uv)
      have "take_bit bits v = w" using w(1) by (simp only: word_unat_eq_iff unat_take uv) simp
      then have "dir_look leaf bits look s ?d v \<noteq> None" "in_range vo (unat n) v"
        using l(1) [of v] p w(2,3) range_offset [OF p, of "unat n"] by simp_all
      then show ?thesis using p unfolding taken_def by blast
    qed
    assume cv: "covered ?W ?vo (unat n) (pa - ?vo) fl (look s' ?c)"
    have "in_range ?vo (unat n) ?vo" using n by (simp add: in_range_def)
    then have "look s' ?c ?vo \<noteq> None" using cv small [of vo] by (auto simp: covered_def)
    moreover have "unat ?vo < 2 ^ bits" by (simp add: unat_take)
    ultimately show "tight s' ?c \<Longrightarrow> etight leaf s' ?d" unfolding dir_tight_def hc by blast
    show "entry_covered leaf ?S vo (unat n) (pa - vo) fl ?d s'"
      unfolding entry_covered_def covered_def
    proof (intro ballI impI)
      fix v :: addr assume v: "v \<in> ?S" and rv: "in_range vo (unat n) v"
      then have p: "unat v div 2 ^ bits = unat vo div 2 ^ bits" by simp
      show "\<exists>l. dir_look leaf bits look s' ?d v = Some (requested (pa - vo) fl v l)"
        using cv small [of v] rv unfolding covered_def l [OF v] range_offset [OF p, symmetric]
          requested_offset [OF p r(2), of pa, symmetric] by blast
    qed
  qed
  show ?thesis
    unfolding c(1)
    by (rule post_mono [OF ins [OF c(2) owc b voa al(2-4), of fl]]) (use common in blast)+
qed


lemma descend:
  assumes es: "ts_mem s t = Some es" "length es = MAX_ENTRIES" "i < MAX_ENTRIES"
    and ewf: "dir_wf leaf pf wf s (es ! i)" and ow: "owns t (dir_foot leaf foot s (es ! i)) s"
    and n: "0 < unat n" and r: "unat vo mod 2 ^ bits + unat n \<le> 2 ^ bits" "bits = page_size_log2 lv"
    and al: "page_aligned vo" "page_aligned pa" "page_aligned n" "unat pa + unat n \<le> 2 ^ 48"
    and link: "links_tables leaf create pf"
  shows "post (dir_descend leaf create pf ins lv t fl vo pa n i s)
      (\<lambda>s'. \<exists>d'. entry_grown leaf pf t es i (in_page bits vo) vo (unat n) (pa - vo) fl s d' s'
         \<and> entry_covered leaf (in_page bits vo) vo (unat n) (pa - vo) fl d' s'
         \<and> (etight leaf s (es ! i) \<longrightarrow> etight leaf s' d'))
      (\<lambda>e s'. \<exists>d'. entry_grown leaf pf t es i (in_page bits vo) vo (unat n) (pa - vo) fl s d' s'
         \<and> insertion_fails e s'
         \<and> (e = Double_insertion \<longrightarrow> etight leaf s (es ! i) \<longrightarrow>
               taken (in_page bits vo) vo (unat n) (dir_look leaf bits look s (es ! i))))"
proof -
  let ?d = "es ! i" and ?S = "in_page bits vo"
  have bits: "bits < 64" "12 \<le> bits" using page_size_log2_less r(2) by simp_all
  have ok: "pta_ok s" "t \<notin> spare_tables s" using ow by (simp_all add: owns_def)
  have at: "pt_entry s t i = Some ?d" by (rule pt_entry_at [OF es])
  have self: "es[i := ?d] = es" by simp
  have off: "vo - (vo AND pt_page_mask lv) = take_bit bits vo" using page_offset [of vo lv] r(2) by simp
  show ?thesis
  proof (cases "bit ?d 0")
    case True
    show ?thesis
    proof (cases "leaf ?d")
      case leaf: True
      have "entry_grown leaf pf t es i ?S vo (unat n) (pa - vo) fl s ?d s"
        using es ewf ow dir_leaf [of ?d leaf, OF True leaf]
        by (simp add: entry_grown_def grown_def same_arena_def owns_def added_refl)
      moreover have "taken ?S vo (unat n) (dir_look leaf bits look s ?d)"
        unfolding taken_def using n dir_leaf [of ?d leaf, OF True leaf]
        by (intro bexI [of _ vo] conjI) (simp_all add: in_range_def)
      ultimately show ?thesis
        using True leaf by (auto simp: dir_descend_def at desc_present_bit insertion_fails_def)
    next
      case False
      have "dir_descend leaf create pf ins lv t fl vo pa n i s =
          ins (pta_virt_addr s (bf_masked pf ?d)) (take_bit bits vo) pa n fl s"
        using True False by (simp add: dir_descend_def at desc_present_bit off)
      then show ?thesis
        by (simp only:) (rule post_mono [OF descend_existing [OF es True False ewf ow r(1) bits n al, of fl]];
            use True False in \<open>unfold dir_tight_def\<close>, blast)
    qed
  next
    case False
    note ab = dir_absent [of ?d leaf, OF False]
    let ?l = "\<lambda>next s. pt_set_entry t i (create (pta_phys_addr s next)) s"
    have eq: "dir_descend leaf create pf ins lv t fl vo pa n i s =
        and_then (pta_construct s ?l) (\<lambda>s. case pt_entry s t i of None \<Rightarrow> Fault
          | Some d \<Rightarrow> ins (pta_virt_addr s (bf_masked pf d)) (take_bit bits vo) pa n fl s)"
      using False by (simp only: dir_descend_def at desc_present_bit off option.case simp_thms if_True)
    from ok(1) show ?thesis
    proof (cases rule: construct_cases [where link = ?l])
      case (none s')
      have "entry_grown leaf pf t es i ?S vo (unat n) (pa - vo) fl s ?d s'"
        using none es ab dir_absent [of ?d leaf, OF False]
        by (simp add: entry_grown_def grown_def added_def dir_absent [of ?d leaf, OF False])
      moreover have "spare_tables s' = {}" using none by (simp add: spare_tables_def same_arena_def)
      ultimately show ?thesis unfolding eq none(2) by (auto simp: insertion_fails_def)
    next
      case (new c s1)
      define p where "p = pta_phys_addr s1 c"
      define s2 where "s2 = pt_set_entry t i (create p) s1"
      let ?es = "es[i := create p]"
      have tc: "t \<noteq> c" using ok(2) new(1) by auto
      have ok1: "pta_ok s1" "arena s1 = arena s" using new(3) by (simp_all add: same_arena_def)
      have "c \<in> arena s1" using new(1) ok1(2) by (simp add: spare_tables_def)
      note ph = phys_addr_ok [OF ok1(1) this, folded p_def]
      have cr: "bit (create p) 0" "\<not> leaf (create p)" "bit (create p) 1" "bit (create p) 2" "\<not> bit (create p) 63"
        "bf_masked pf (create p) = p" "hw_address 12 (create p) = p"
        using link ph(1) by (auto simp: links_tables_def)
      have m1: "ts_mem s1 t = Some es" using new(5) tc es(1) by simp
      have m2: "ts_mem s2 t = Some ?es" "ts_mem s2 c = Some (replicate MAX_ENTRIES 0)"
        "\<And>a. a \<noteq> t \<Longrightarrow> a \<noteq> c \<Longrightarrow> ts_mem s2 a = ts_mem s a"
        using set_entry_mem(1) [of s1 t es i "create p"] set_entry_mem(2) [of _ t i "create p" s1] m1 tc new(5)
        by (auto simp: s2_def)
      have ar: "same_arena s s2"
        using set_entry_arena(1) [OF ok1(1), of t i "create p"] new(3) by (simp add: s2_def same_arena_def)
      have u2: "used_tables s2 = insert c (used_tables s)"
        using set_entry_arena(2) [of t i "create p" s1] new(4) by (simp add: s2_def)
      have v2: "ts_virt s2 = ts_virt s1" "ts_phys s2 = ts_phys s1" by (simp_all add: s2_def pt_set_entry_def)
      have hc: "hw_table s2 (create p) = c" "pta_virt_addr s2 (bf_masked pf (create p)) = c"
        using cr(6,7) ph(2) v2 by (simp_all add: hw_table_def pta_virt_addr_def)
      note fr = fresh [OF m2(2)]
      have nth: "?es ! i = create p" using es(2,3) by simp
      have F2: "dir_foot leaf foot s2 (?es ! i) = {c}" using cr(1,2) fr hc(1) unfolding nth by (simp add: dir_foot_def)
      have ewf2: "dir_wf leaf pf wf s2 (?es ! i)" using cr fr hc unfolding nth by (simp add: dir_wf_def)
      have L2: "dir_look leaf bits look s2 (?es ! i) v = None" for v
        using cr(1,2) fr hc(1) unfolding nth by (simp add: dir_look_def hw_table_entry_def)
      have cs: "c \<notin> used_tables s" using new(1) by (simp add: spare_tables_def)
      have g2: "grown {t} {} {c} s s2" using ar u2 cs m2(3) by (simp add: grown_def)
      have ow2: "owns t {c} s2"
        using ar u2 tc ok(2) by (auto simp: owns_def same_arena_def spare_tables_def)
      have len: "length ?es = MAX_ENTRIES" using es(2) by simp
      have tc2: "tight s2 (hw_table s2 (?es ! i))" using fr hc(1) nth by simp
      have no: "\<not> taken ?S vo (unat n) (dir_look leaf bits look s2 (?es ! i))" by (simp add: taken_def L2)
      have "post (ins (pta_virt_addr s2 (bf_masked pf (?es ! i))) (take_bit bits vo) pa n fl s2)
          (\<lambda>s'. entry_grown leaf pf t ?es i ?S vo (unat n) (pa - vo) fl s2 (?es ! i) s'
             \<and> entry_covered leaf ?S vo (unat n) (pa - vo) fl (?es ! i) s'
             \<and> (tight s2 (hw_table s2 (?es ! i)) \<longrightarrow> etight leaf s' (?es ! i)))
          (\<lambda>e s'. entry_grown leaf pf t ?es i ?S vo (unat n) (pa - vo) fl s2 (?es ! i) s' \<and> insertion_fails e s'
             \<and> (e = Double_insertion \<longrightarrow> tight s2 (hw_table s2 (?es ! i)) \<longrightarrow>
                   taken ?S vo (unat n) (dir_look leaf bits look s2 (?es ! i))))"
        using cr(1,2) ow2 F2 nth by (intro descend_existing [OF m2(1) len es(3) _ _ ewf2 _ r(1) bits n al]) simp_all
      moreover have "dir_descend leaf create pf ins lv t fl vo pa n i s =
          ins (pta_virt_addr s2 (bf_masked pf (?es ! i))) (take_bit bits vo) pa n fl s2"
        unfolding eq new(2) using pt_entry_at [OF m2(1) len es(3)] by (simp add: s2_def p_def)
      moreover have "entry_grown leaf pf t es i ?S vo (unat n) (pa - vo) fl s (create p) s'"
        if "entry_grown leaf pf t ?es i ?S vo (unat n) (pa - vo) fl s2 (?es ! i) s'" for s'
        using that grown_trans [OF g2, of "dir_foot leaf foot s' (create p)" s'] es(3) ab
        by (simp add: entry_grown_def F2 [unfolded nth] L2 [unfolded nth] nth es(2) added_def)
      ultimately show ?thesis using tc2 no unfolding nth by (auto elim!: post_mono)
    qed
  qed
qed


text \<open>Removal at one entry; an emptied table goes back to the allocator.\<close>

definition entry_cut ::
  "(addr \<Rightarrow> bool) \<Rightarrow> bitfield \<Rightarrow> addr \<Rightarrow> addr list \<Rightarrow> nat \<Rightarrow> addr set \<Rightarrow> addr \<Rightarrow> nat \<Rightarrow>
     table_space \<Rightarrow> addr \<Rightarrow> table_space \<Rightarrow> bool" where
  "entry_cut leaf pf t es i S vo k s d' s' \<longleftrightarrow>
     ts_mem s' t = Some (es[i := d']) \<and> dir_wf leaf pf wf s' d'
     \<and> shrunk {t} (dir_foot leaf foot s (es ! i)) (dir_foot leaf foot s' d') s s'
     \<and> cut S (unat vo) k (dir_look leaf bits look s (es ! i)) (dir_look leaf bits look s' d')
     \<and> (etight leaf s (es ! i) \<longrightarrow> etight leaf s' d')"

lemma cleared_entry:
  assumes es: "ts_mem s t = Some es" and "pta_ok s1" "ts_mem s1 t = Some es"
    and sh: "shrunk {t} (dir_foot leaf foot s (es ! i)) {} s s1"
    and gone: "\<And>v m. v \<in> S \<Longrightarrow> dir_look leaf bits look s (es ! i) v = Some m \<Longrightarrow> hits (unat vo) k (tr_log2 m) (unat v)"
  shows "entry_cut leaf pf t es i S vo k s 0 (pt_set_entry t i 0 s1)"
proof -
  have z: "\<not> bit (0 :: addr) 0" by simp
  let ?s = "pt_set_entry t i 0 s1"
  have "shrunk {t} (dir_foot leaf foot s (es ! i)) {} s ?s"
    using sh set_entry_arena(1) [OF assms(2), of t i 0] set_entry_arena(2) [of t i 0 s1] set_entry_mem(2) [of _ t i 0 s1]
    by (auto simp: shrunk_def same_arena_def)
  moreover have "cut S (unat vo) k (dir_look leaf bits look s (es ! i)) (dir_look leaf bits look ?s 0)"
    using gone by (auto simp: cut_def dir_absent [of 0 leaf, OF z] split: option.split)
  ultimately show ?thesis
    using set_entry_mem(1) [OF assms(3), of i 0] by (simp add: entry_cut_def dir_absent [of 0 leaf, OF z])
qed

lemma remove_entry:
  assumes es: "ts_mem s t = Some es" "length es = MAX_ENTRIES" "i < MAX_ENTRIES"
    and ewf: "dir_wf leaf pf wf s (es ! i)" and ow: "owns t (dir_foot leaf foot s (es ! i)) s"
    and r: "0 < unat n" "unat vo mod 2 ^ bits + unat n \<le> 2 ^ bits" "bits = page_size_log2 lv"
  shows "post (dir_remove leaf pf rem emp lv t vo pa n i s)
      (\<lambda>s'. \<exists>d'. entry_cut leaf pf t es i (in_page bits vo) vo (unat n) s d' s') (\<lambda>e s'. False)"
proof -
  let ?d = "es ! i" and ?S = "in_page bits vo" and ?vo = "take_bit bits vo"
  have bits: "bits < 64" using page_size_log2_less r(3) by simp
  have ok: "pta_ok s" "t \<notin> spare_tables s" using ow by (simp_all add: owns_def)
  have at: "pt_entry s t i = Some ?d" by (rule pt_entry_at [OF es])
  have off: "vo - (vo AND pt_page_mask lv) = ?vo" using page_offset [of vo lv] r(3) by simp
  consider (absent) "\<not> bit ?d 0" | (leaf) "bit ?d 0" "leaf ?d" | (child) "bit ?d 0" "\<not> leaf ?d" by blast
  then show ?thesis
  proof cases
    case absent
    note ab = dir_absent [of ?d leaf, OF absent]
    have "entry_cut leaf pf t es i ?S vo (unat n) s ?d s"
      using es ok(1) ab by (simp add: entry_cut_def shrunk_def same_arena_def cut_def)
    then show ?thesis using absent by (auto simp: dir_remove_def at desc_present_bit)
  next
    case leaf
    note le = dir_leaf [of ?d leaf, OF leaf]
    have "entry_cut leaf pf t es i ?S vo (unat n) s 0 (pt_set_entry t i 0 s)"
      using es(1) ok(1) le r(1)
      by (intro cleared_entry) (auto simp: shrunk_def same_arena_def hw_leaf_def intro: hits_page)
    then show ?thesis using leaf by (auto simp: dir_remove_def at desc_present_bit)
  next
    case child
    let ?c = "hw_table s ?d" and ?W = "{v. unat v < 2 ^ bits}"
    have c: "pta_virt_addr s (bf_masked pf ?d) = ?c" "wf s ?c" using ewf child by (simp_all add: dir_wf_def)
    have F: "dir_foot leaf foot s ?d = insert ?c (foot s ?c)" using child by (simp add: dir_foot_def)
    have u: "?c \<in> used_tables s" "foot s ?c \<subseteq> used_tables s" "t \<noteq> ?c" "t \<notin> foot s ?c"
      using ow unfolding owns_def F by auto
    have nc: "?c \<notin> foot s ?c" by (rule not_own [OF c(2)])
    have owc: "owns ?c (foot s ?c) s" using ok u nc by (simp add: owns_def spare_tables_def)
    have b: "unat ?vo + unat n \<le> 2 ^ bits" using r(2) by (simp add: unat_take)
    have eq: "dir_remove leaf pf rem emp lv t vo pa n i s =
        and_then (rem ?c ?vo n s) (\<lambda>s. case emp s ?c of None \<Rightarrow> Fault
          | Some True \<Rightarrow> and_then (pta_destruct ?c s) (\<lambda>s. Returned (pt_set_entry t i 0 s))
          | Some False \<Rightarrow> Returned s)"
      using child by (simp only: dir_remove_def at desc_present_bit off option.case if_True if_False simp_thms Let_def c(1))
    show ?thesis
      unfolding eq
    proof (rule post_and_then [OF post_mono [OF rem [OF c(2) owc b]]])
      fix s1 assume s1: "wf s1 ?c \<and> shrunk {?c} (foot s ?c) (foot s1 ?c) s s1
          \<and> cut ?W (unat ?vo) (unat n) (look s ?c) (look s1 ?c) \<and> (tight s ?c \<longrightarrow> tight s1 ?c)"
      then have wf1: "wf s1 ?c" and ar: "same_arena s s1" and sub: "foot s1 ?c \<subseteq> foot s ?c"
        and used: "used_tables s1 = used_tables s - (foot s ?c - foot s1 ?c)"
        and mem: "\<And>a. a \<notin> {?c} \<union> foot s ?c \<Longrightarrow> ts_mem s1 a = ts_mem s a"
        and cu: "cut ?W (unat ?vo) (unat n) (look s ?c) (look s1 ?c)" and ti: "tight s ?c \<Longrightarrow> tight s1 ?c"
        by (auto simp: shrunk_def)
      have vp: "ts_virt s1 = ts_virt s" "ts_phys s1 = ts_phys s" "pta_ok s1" using ar by (simp_all add: same_arena_def)
      have hc: "hw_table s1 ?d = ?c" using vp by (simp add: hw_table_def)
      have m1: "ts_mem s1 t = Some es" using mem [of t] u(3,4) es(1) by simp
      have ewf1: "dir_wf leaf pf wf s1 ?d" using ewf wf1 hc vp by (simp add: dir_wf_def pta_virt_addr_def hw_table_def)
      have F1: "dir_foot leaf foot s1 ?d = insert ?c (foot s1 ?c)" using child by (simp add: dir_foot_def hc)
      have look1: "dir_look leaf bits look s1 ?d v = (case dir_look leaf bits look s ?d v of None \<Rightarrow> None
          | Some m \<Rightarrow> if hits (unat vo) (unat n) (tr_log2 m) (unat v) then None else Some m)" if v: "v \<in> ?S" for v
      proof -
        have l: "dir_look leaf bits look s ?d v = look s ?c (take_bit bits v)"
          "dir_look leaf bits look s1 ?d v = look s1 ?c (take_bit bits v)"
          using child_look [OF child ewf v] child_look [OF child ewf1 v] hc by simp_all
        have "hits (unat ?vo) (unat n) (tr_log2 m) (unat (take_bit bits v)) = hits (unat vo) (unat n) (tr_log2 m) (unat v)"
          if "look s ?c (take_bit bits v) = Some m" for m
          unfolding unat_take using look_log2 [OF that] v by (intro hits_offset) simp_all
        moreover have "take_bit bits v \<in> ?W" by (simp add: unat_take)
        ultimately show ?thesis using cu unfolding l cut_def by (auto split: option.split)
      qed
      show "post (case emp s1 ?c of None \<Rightarrow> Fault
          | Some True \<Rightarrow> and_then (pta_destruct ?c s1) (\<lambda>s. Returned (pt_set_entry t i 0 s))
          | Some False \<Rightarrow> Returned s1)
          (\<lambda>s'. \<exists>d'. entry_cut leaf pf t es i ?S vo (unat n) s d' s') (\<lambda>e s'. False)"
      proof (cases "emp s1 ?c")
        case None
        then show ?thesis using empty_none [OF wf1] by simp
      next
        case (Some em)
        show ?thesis
        proof (cases em)
          case False
          have "shrunk {t} (insert ?c (foot s ?c)) (insert ?c (foot s1 ?c)) s s1"
            using ar used sub nc mem by (auto simp: shrunk_def)
          moreover have "etight leaf s1 ?d" if "etight leaf s ?d"
          proof -
            have t1: "tight s1 ?c" using that child ti by (simp add: dir_tight_def)
            have "emp s1 ?c = Some False" using Some False by simp
            from empty_false [OF wf1 t1 this] t1 show ?thesis unfolding dir_tight_def hc by blast
          qed
          ultimately have "entry_cut leaf pf t es i ?S vo (unat n) s ?d s1"
            unfolding entry_cut_def F F1 using m1 ewf1 look1 by (simp add: cut_def)
          then show ?thesis using Some False by auto
        next
          case True
          have "emp s1 ?c = Some True" using Some True by simp
          note gone = empty_true [OF wf1 this]
          have "?c \<in> used_tables s1" using used u(1) nc by blast
          then obtain s2 where s2: "pta_destruct ?c s1 = Returned s2" "same_arena s1 s2"
            "used_tables s2 = used_tables s1 - {?c}" "ts_mem s2 = (ts_mem s1)(?c := None)"
            by (rule destruct_used [OF vp(3)])
          have "entry_cut leaf pf t es i ?S vo (unat n) s 0 (pt_set_entry t i 0 s2)"
          proof (rule cleared_entry [OF es(1)])
            show "pta_ok s2" using s2(2) by (simp add: same_arena_def)
            show "ts_mem s2 t = Some es" using s2(4) m1 u(3) by simp
            have "foot s1 ?c = {}" using gone by blast
            then show "shrunk {t} (dir_foot leaf foot s ?d) {} s s2"
              unfolding F using ar s2 used mem by (auto simp: shrunk_def same_arena_def)
            fix v m assume v: "v \<in> ?S" "dir_look leaf bits look s ?d v = Some m"
            have "dir_look leaf bits look s1 ?d v = None" using child_look [OF child ewf1 v(1)] hc gone by simp
            then show "hits (unat vo) (unat n) (tr_log2 m) (unat v)" using look1 [OF v(1)] v(2) by (simp split: if_splits)
          qed
          then show ?thesis using Some True s2(1) by auto
        qed
      qed
    qed simp_all
  qed
qed

end

end
