(* ===== verification/Page_Table_Correct.thy ===== *)
theory Page_Table_Correct
  imports Page_Table_Entries
begin

text \<open>
  The levels one above the other: the entries of every level meet the contract of the loop, each table
  serves the directory in front of it, and at the top the operations of \<open>Pml4_table\<close> do to the walk of
  the hardware what they promise.
\<close>

section \<open>Slots\<close>

lemma pt_slot_low: "lv \<noteq> Pml4 \<Longrightarrow> pt_slot lv v = unat v div 2 ^ page_size_log2 lv"
  by (cases lv) (simp_all add: pt_slot_def unat_drop)

lemma pt_slot_top: "pt_slot Pml4 v = unat v mod 2 ^ 48 div 2 ^ 39"
proof -
  have "v AND (push_bit 48 1 - 1) = take_bit 48 v"
    by (simp add: take_bit_eq_mask mask_eq_exp_minus_1)
  then show ?thesis by (simp only: pt_slot_def table_level.case unat_drop unat_take)
qed

lemma hw_index_nat: "hw_index n v = unat v div 2 ^ n mod 512"
  by (simp only: hw_index_def unat_take unat_drop) simp

definition below :: "nat \<Rightarrow> addr set" where
  "below p = {v. unat v < 2 ^ p}"

lemma low_slots:
  assumes "lv \<noteq> Pml4" "v \<in> below (page_size_log2 lv + 9)"
  shows "pt_slot lv v < MAX_ENTRIES" "hw_index (page_size_log2 lv) v = pt_slot lv v"
proof -
  have "unat v < 512 * 2 ^ page_size_log2 lv" using assms(2) by (simp add: below_def power_add)
  then have "unat v div 2 ^ page_size_log2 lv < 512" by (simp add: less_mult_imp_div_less)
  then show "pt_slot lv v < MAX_ENTRIES" "hw_index (page_size_log2 lv) v = pt_slot lv v"
    using pt_slot_low [OF assms(1)] by (simp_all add: hw_index_nat)
qed

text \<open>
  Canonical addresses: the upper 17 bits are equal.  On them the slot of the top level determines the
  page of 512 GB.
\<close>

definition canonical :: "addr \<Rightarrow> bool" where
  "canonical v \<longleftrightarrow> unat v < 2 ^ 47 \<or> 2 ^ 64 - 2 ^ 47 \<le> unat v"

definition canonical_in :: "nat set \<Rightarrow> addr set" where
  "canonical_in own = {v. canonical v \<and> pt_slot Pml4 v \<in> own}"

lemma top_slot: "pt_slot Pml4 v = unat v div 2 ^ 39 mod 512"
proof -
  have "x mod 2 ^ 48 div 2 ^ 39 = x div 2 ^ 39 mod (512 :: nat)" for x
    using drop_bit_take_bit [of 39 48 x] by (simp add: drop_bit_eq_div take_bit_eq_mod)
  then show ?thesis by (simp only: pt_slot_top)
qed

lemma canonical_page:
  assumes "canonical v"
  shows "unat v div 2 ^ 39 = (if pt_slot Pml4 v < 256 then pt_slot Pml4 v else 33553920 + pt_slot Pml4 v)"
proof -
  define q where "q = unat v div 2 ^ 39"
  have e: "unat v = q * 549755813888 + unat v mod 549755813888" "unat v mod 549755813888 < 549755813888"
    by (simp_all add: q_def)
  have q: "q < 256 \<or> (33554176 \<le> q \<and> q < 33554432)"
    using assms unat_less_64 [of v] e unfolding canonical_def by auto
  have s: "pt_slot Pml4 v = q mod 512" by (simp only: top_slot q_def)
  from q show ?thesis
  proof
    assume "q < 256"
    then show ?thesis unfolding s q_def [symmetric] by simp
  next
    assume b: "33554176 \<le> q \<and> q < 33554432"
    define r where "r = q - 33553920"
    have r: "q = r + 512 * 65535" "256 \<le> r" "r < 512" using b unfolding r_def by linarith+
    have "q mod 512 = r" unfolding r(1) using r(3) by (simp only: mod_mult_self2 mod_less)
    then show ?thesis unfolding s q_def [symmetric] using r by simp
  qed
qed

lemma top_page:
  assumes "canonical v" "canonical w"
  shows "pt_slot Pml4 v = pt_slot Pml4 w \<longleftrightarrow> unat v div 2 ^ 39 = unat w div 2 ^ 39"
proof
  assume "pt_slot Pml4 v = pt_slot Pml4 w"
  then show "unat v div 2 ^ 39 = unat w div 2 ^ 39" unfolding canonical_page [OF assms(1)] canonical_page [OF assms(2)] by simp
qed (simp only: top_slot)

lemma top_less: "pt_slot Pml4 v < MAX_ENTRIES"
  by (simp only: top_slot) 

lemma top_hw: "hw_index 39 v = pt_slot Pml4 v"
  unfolding hw_index_nat top_slot by (rule refl)



section \<open>Entries of the last level\<close>

abbreviation "any_leaf \<equiv> \<lambda>d :: addr. True"
abbreviation "no_table \<equiv> \<lambda>(s :: table_space) (t :: addr) (v :: addr). None :: translation option"

definition l4_wf :: "table_space \<Rightarrow> addr \<Rightarrow> bool" where
  "l4_wf = table_wf {..<MAX_ENTRIES} (dir_wf any_leaf Desc_Pa (\<lambda>s t. True)) (dir_foot any_leaf (\<lambda>s t. {}))"

definition l4_foot :: "table_space \<Rightarrow> addr \<Rightarrow> addr set" where
  "l4_foot = table_foot {..<MAX_ENTRIES} (dir_foot any_leaf (\<lambda>s t. {}))"

lemma below_div: "v \<in> below (p + 9) \<Longrightarrow> unat v div 2 ^ p < MAX_ENTRIES"
  by (simp add: below_def power_add less_mult_imp_div_less)

lemma page_multiple: "12 \<le> p \<Longrightarrow> 2 ^ p dvd unat a \<Longrightarrow> page_aligned a"
  unfolding page_aligned_def using le_imp_power_dvd [of 12 p "2::nat"] by (simp add: dvd_trans)

lemma leaf_walk_low: "hw_leaf n d (take_bit n v) = hw_leaf n d v"
  by (simp add: hw_leaf_def)

lemma whole_page:
  assumes "2 ^ p dvd unat vo" "2 ^ p \<le> unat n" "unat vo mod 2 ^ p + unat n \<le> 2 ^ p"
    and "unat v div 2 ^ p = unat vo div 2 ^ p"
  shows "in_range vo (unat n) v"
proof -
  have "unat vo mod 2 ^ p = 0" using assms(1) by (rule dvd_imp_mod_0)
  then have n: "unat n = 2 ^ p" "unat vo = unat vo div 2 ^ p * 2 ^ p"
    using assms(2,3) div_mult_mod_eq [of "unat vo" "2 ^ p"] by linarith+
  have "unat v = unat vo div 2 ^ p * 2 ^ p + unat v mod 2 ^ p"
    unfolding assms(4) [symmetric] by (rule div_mult_mod_eq [symmetric])
  moreover have "unat v mod 2 ^ p < 2 ^ p" by simp
  ultimately show ?thesis using n unfolding in_range_def by linarith
qed

lemma l4_aligned: "vo AND NOT (pt_page_mask Level_4) \<noteq> 0 \<longleftrightarrow> \<not> page_aligned vo"
proof -
  have "take_bit 12 vo \<noteq> 0 \<longleftrightarrow> unat vo mod 2 ^ 12 \<noteq> 0" by (simp only: word_unat_eq_iff unat_take unsigned_0)
  then show ?thesis by (simp add: misaligned_bits page_aligned_def dvd_eq_mod_eq_0)
qed

lemma page_size_le: "n < pt_page_size lv \<longleftrightarrow> unat n < 2 ^ page_size_log2 lv"
  by (simp only: word_less_nat_alt unat_page_size)

lemma big_aligned: "page_aligned n \<Longrightarrow> 0 < unat n \<Longrightarrow> 4096 \<le> unat n"
  by (auto simp: page_aligned_def dest: dvd_imp_le)

interpretation l4e: table_entries Level_4 "{..<MAX_ENTRIES}" "below 21" "dir_wf any_leaf Desc_Pa (\<lambda>s t. True)"
    "dir_foot any_leaf (\<lambda>s t. {})" "dir_look any_leaf 12 no_table" l4_insert_func l4_remove_func "\<lambda>s d. True"
proof
  show "pt_slot Level_4 v = pt_slot Level_4 w \<longleftrightarrow> unat v div 2 ^ page_size_log2 Level_4 = unat w div 2 ^ page_size_log2 Level_4"
    for v w by (simp add: pt_slot_low)
  show "pt_slot Level_4 v \<in> {..<MAX_ENTRIES}" "hw_index (page_size_log2 Level_4) v = pt_slot Level_4 v"
    if "v \<in> below 21" for v
    using low_slots [of Level_4 v] that by simp_all
  show "dir_look any_leaf 12 no_table s d (take_bit (page_size_log2 Level_4) v) = dir_look any_leaf 12 no_table s d v" for s d v
    by (simp add: dir_look_def hw_table_entry_def leaf_walk_low)
next
  fix s t es i and n vo pa :: addr and S :: "addr set" and fl
  assume a: "ts_mem s t = Some es" "length es = MAX_ENTRIES" "i < MAX_ENTRIES"
    "owns t (dir_foot any_leaf (\<lambda>s t. {}) s (es ! i)) s"
    and n: "0 < unat n" "unat vo mod 2 ^ page_size_log2 Level_4 + unat n \<le> 2 ^ page_size_log2 Level_4"
    and al: "page_aligned vo" "page_aligned pa" "page_aligned n" "unat pa + unat n \<le> 2 ^ 48"
    and S: "S = {v. unat v div 2 ^ page_size_log2 Level_4 = unat vo div 2 ^ page_size_log2 Level_4}"
  have req: "hw_leaf 12 (l4_create fl pa) v = requested (pa - vo) fl v 12" if "v \<in> S" for v
    using that al n(1) by (intro leaf_requested) (auto simp: S bit_l4_create bit_common_create page_aligned_def)
  have rng: "in_range vo (unat n) v" if "v \<in> S" for v
    using that al(1) n(2) big_aligned [OF al(3) n(1)] by (intro whole_page [of 12]) (simp_all add: S page_aligned_def)
  have new: "bit (l4_create fl pa) 0" by (simp add: bit_l4_create bit_common_create)
  have at: "pt_entry s t i = Some (es ! i)" by (rule pt_entry_at [OF a(1-3)])
  have size: "\<not> n < pt_page_size Level_4" using big_aligned [OF al(3) n(1)] by (simp add: page_size_le)
  show "post (l4_insert_func t fl vo pa n i s)
      (\<lambda>s'. \<exists>d'. ts_mem s' t = Some (es[i := d']) \<and> dir_wf any_leaf Desc_Pa (\<lambda>s t. True) s' d'
          \<and> t \<notin> dir_foot any_leaf (\<lambda>s t. {}) s' d'
          \<and> grown {t} (dir_foot any_leaf (\<lambda>s t. {}) s (es ! i)) (dir_foot any_leaf (\<lambda>s t. {}) s' d') s s'
          \<and> added S vo (unat n) (pa - vo) fl (dir_look any_leaf 12 no_table s (es ! i)) (dir_look any_leaf 12 no_table s' d')
          \<and> covered S vo (unat n) (pa - vo) fl (dir_look any_leaf 12 no_table s' d') \<and> (True \<longrightarrow> True))
      (\<lambda>e s'. \<exists>d'. ts_mem s' t = Some (es[i := d']) \<and> dir_wf any_leaf Desc_Pa (\<lambda>s t. True) s' d'
          \<and> t \<notin> dir_foot any_leaf (\<lambda>s t. {}) s' d'
          \<and> grown {t} (dir_foot any_leaf (\<lambda>s t. {}) s (es ! i)) (dir_foot any_leaf (\<lambda>s t. {}) s' d') s s'
          \<and> added S vo (unat n) (pa - vo) fl (dir_look any_leaf 12 no_table s (es ! i)) (dir_look any_leaf 12 no_table s' d')
          \<and> insertion_fails e s'
          \<and> (e = Double_insertion \<longrightarrow> True \<longrightarrow> taken S vo (unat n) (dir_look any_leaf 12 no_table s (es ! i))))"
  proof (cases "bit (es ! i) 0 \<and> clear_mmu_flags (es ! i) \<noteq> l4_create fl pa")
    case True
    have "ts_mem s t = Some (es[i := es ! i])" using a(1) by simp
    moreover have "grown {t} {} {} s s" using a(4) by (simp add: grown_def owns_def same_arena_def)
    moreover have "taken S vo (unat n) (dir_look any_leaf 12 no_table s (es ! i))"
      unfolding taken_def S using n(1) True by (intro bexI [of _ vo] conjI) (simp_all add: in_range_def dir_look_def)
    ultimately show ?thesis
      using True al size by (auto simp: l4_insert_func_def at l4_aligned desc_present_bit insertion_fails_def
          dir_wf_def dir_foot_def Let_def intro!: exI [of _ "es ! i"] added_refl)
  next
    case False
    then have eq: "l4_insert_func t fl vo pa n i s = Returned (pt_set_entry t i (l4_create fl pa) s)"
      using al size by (auto simp: l4_insert_func_def at l4_aligned desc_present_bit Let_def)
    show ?thesis
      unfolding eq post.simps
      by (rule exI [of _ "l4_create fl pa"])
         (use leaf_store [OF a(1-3) a(4) new _ _ _ _ req rng] False in simp_all)
  qed
next
  fix s t es i and n vo pa :: addr and S :: "addr set"
  assume a: "ts_mem s t = Some es" "length es = MAX_ENTRIES" "i < MAX_ENTRIES"
    "owns t (dir_foot any_leaf (\<lambda>s t. {}) s (es ! i)) s" and n: "0 < unat n"
    and S: "S = {v. unat v div 2 ^ page_size_log2 Level_4 = unat vo div 2 ^ page_size_log2 Level_4}"
  have at: "pt_entry s t i = Some (es ! i)" by (rule pt_entry_at [OF a(1-3)])
  have z: "\<not> bit (0 :: addr) 0" by simp
  let ?s = "pt_set_entry t i 0 s"
  have "cut S (unat vo) (unat n) (dir_look any_leaf 12 no_table s (es ! i)) (dir_look any_leaf 12 no_table ?s 0)"
    using n by (auto simp: cut_def S dir_look_def hw_table_entry_def hw_leaf_def hits_page)
  moreover have "shrunk {t} {} {} s ?s"
    using a(4) set_entry_arena(1) [of s t i 0] set_entry_arena(2) [of t i 0 s] set_entry_mem(2) [of _ t i 0 s]
    by (auto simp: shrunk_def owns_def)
  ultimately show "post (l4_remove_func t vo pa n i s)
      (\<lambda>s'. \<exists>d'. ts_mem s' t = Some (es[i := d']) \<and> dir_wf any_leaf Desc_Pa (\<lambda>s t. True) s' d'
          \<and> shrunk {t} (dir_foot any_leaf (\<lambda>s t. {}) s (es ! i)) (dir_foot any_leaf (\<lambda>s t. {}) s' d') s s'
          \<and> cut S (unat vo) (unat n) (dir_look any_leaf 12 no_table s (es ! i)) (dir_look any_leaf 12 no_table s' d')
          \<and> (True \<longrightarrow> True)) (\<lambda>e s'. False)"
    using set_entry_mem(1) [OF a(1), of i 0]
    by (auto simp: l4_remove_func_def at dir_wf_def dir_foot_def intro!: exI [of _ 0])
qed (auto simp: dir_wf_def dir_foot_def dir_look_def hw_table_entry_def hw_leaf_def agree_def split: if_splits)


section \<open>Entries of the other levels\<close>

lemma pd_insert_split:
  "pd_insert_func lv ins t fl vo pa n i s =
     (if take_bit (page_size_log2 lv) vo = 0 \<and> take_bit (page_size_log2 lv) pa = 0 \<and> 2 ^ page_size_log2 lv \<le> unat n then
        (case pt_entry s t i of
           None \<Rightarrow> Fault
         | Some d \<Rightarrow>
             if desc_present d \<and> clear_mmu_flags d \<noteq> page_create (page_size_log2 lv) fl pa then Thrown Double_insertion s
             else Returned (pt_set_entry t i (page_create (page_size_log2 lv) fl pa) s))
      else dir_descend desc_maps_page table_create Desc_Pa ins lv t fl vo pa n i s)"
proof -
  have c: "\<not> (vo AND NOT (pt_page_mask lv) \<noteq> 0 \<or> pa AND NOT (pt_page_mask lv) \<noteq> 0 \<or> n < pt_page_size lv) \<longleftrightarrow>
      take_bit (page_size_log2 lv) vo = 0 \<and> take_bit (page_size_log2 lv) pa = 0 \<and> 2 ^ page_size_log2 lv \<le> unat n"
    by (auto simp: misaligned_bits page_size_le not_less)
  show ?thesis unfolding pd_insert_func_def c dir_descend_def Let_def by (simp split: option.split)
qed

lemma pd_remove_dir: "pd_remove_func lv rem emp = dir_remove desc_maps_page Desc_Pa rem emp lv"
  by (intro ext) (simp only: pd_remove_func_def dir_remove_def)

lemma pml4_insert_dir: "pml4_insert_func = dir_descend (\<lambda>d. False) pml4_create Pml4_Pa l2_insert Pml4"
  by (intro ext) (simp only: pml4_insert_func_def dir_descend_def if_False)

lemma pml4_remove_dir: "pml4_remove_func = dir_remove (\<lambda>d. False) Pml4_Pa l2_remove pd_empty Pml4"
  by (intro ext) (simp only: pml4_remove_func_def dir_remove_def if_False)

lemma phys_bit: "table_phys p \<Longrightarrow> bit p k \<Longrightarrow> 12 \<le> k \<and> k < 48 \<and> k < 52 \<and> k < 60"
  using table_phys_bit [of p k] by simp

lemma links_directory: "links_tables desc_maps_page table_create Desc_Pa"
proof -
  have "bf_masked Desc_Pa (table_create p) = p" "hw_address 12 (table_create p) = p" if "table_phys p" for p
    using phys_bit [OF that]
    by (auto intro!: bit_word_eqI simp: bit_bf_masked bit_hw_address bit_table_create Desc_Pa_def in_field_def)
  then show ?thesis by (simp add: links_tables_def bit_table_create desc_maps_page_bit)
qed

lemma links_top: "links_tables (\<lambda>d. False) pml4_create Pml4_Pa"
proof -
  have "bf_masked Pml4_Pa (pml4_create p) = p" "hw_address 12 (pml4_create p) = p" if "table_phys p" for p
    using phys_bit [OF that]
    by (auto intro!: bit_word_eqI simp: bit_bf_masked bit_hw_address bit_pml4_create Pml4_Pa_def in_field_def)
  then show ?thesis by (simp add: links_tables_def bit_pml4_create)
qed

lemma mmu_maps_page: "desc_maps_page (clear_mmu_flags d) = desc_maps_page d"
  by (simp add: desc_maps_page_bit bit_clear_mmu_flags)

context translation_table
begin

lemma dir_frame:
  assumes "dir_wf leaf pf wf s d" "agree (dir_foot leaf foot s d) s s'"
  shows "dir_wf leaf pf wf s' d \<and> dir_foot leaf foot s' d = dir_foot leaf foot s d
     \<and> dir_look leaf bits look s' d v = dir_look leaf bits look s d v \<and> etight leaf s' d = etight leaf s d"
proof -
  have vp: "ts_virt s' = ts_virt s" "ts_phys s' = ts_phys s" using assms(2) by (simp_all add: agree_def)
  then have h: "hw_table s' d = hw_table s d" "pta_virt_addr s' = pta_virt_addr s"
    by (simp_all add: hw_table_def pta_virt_addr_def fun_eq_iff)
  show ?thesis
  proof (cases "bit d 0 \<and> \<not> leaf d")
    case True
    then have "agree (insert (hw_table s d) (foot s (hw_table s d))) s s'" "wf s (hw_table s d)"
      using assms by (simp_all add: dir_foot_def dir_wf_def)
    then have "look s' (hw_table s d) w = look s (hw_table s d) w \<and> wf s' (hw_table s d)
        \<and> foot s' (hw_table s d) = foot s (hw_table s d) \<and> tight s' (hw_table s d) = tight s (hw_table s d)" for w
      using frame [of s "hw_table s d" s' w] by blast
    then show ?thesis using True assms(1) by (simp add: dir_defs h)
  qed (auto simp: dir_defs)
qed

lemma dir_log2: "dir_look leaf bits look s d v = Some m \<Longrightarrow> tr_log2 m \<le> bits"
  by (auto simp: dir_look_def hw_table_entry_def hw_leaf_def hw_restrict_def split: if_splits dest: look_log2)

lemma dir_low: "dir_look leaf bits look s d (take_bit bits v) = dir_look leaf bits look s d v"
  by (simp add: dir_look_def hw_table_entry_def leaf_walk_low look_low)

lemma dir_present: "bit d 0 \<Longrightarrow> dir_wf leaf pf wf s d \<Longrightarrow> etight leaf s d \<Longrightarrow> \<exists>v. dir_look leaf bits look s d v \<noteq> None"
  by (cases "leaf d") (auto simp: dir_look_def hw_table_entry_def dir_tight_def)

lemma directory_entries:
  assumes lv: "lv \<noteq> Pml4" "bits = page_size_log2 lv"
  shows "table_entries lv {..<MAX_ENTRIES} (below (bits + 9)) (dir_wf desc_maps_page Desc_Pa wf)
    (dir_foot desc_maps_page foot) (dir_look desc_maps_page bits look)
    (pd_insert_func lv ins) (pd_remove_func lv rem emp) (etight desc_maps_page)"
  (is "table_entries lv ?own ?V ?wf ?foot ?look _ _ ?tight")
proof
  have b: "bits < 48" "12 \<le> bits" using page_size_log2_less [of lv] lv(2) by simp_all
  show "pt_slot lv v = pt_slot lv w \<longleftrightarrow> unat v div 2 ^ page_size_log2 lv = unat w div 2 ^ page_size_log2 lv" for v w
    by (simp add: pt_slot_low [OF lv(1)])
  show "pt_slot lv v \<in> {..<MAX_ENTRIES}" "hw_index (page_size_log2 lv) v = pt_slot lv v" if "v \<in> below (bits + 9)" for v
    using low_slots [OF lv(1)] that lv(2) by simp_all
  show "i < MAX_ENTRIES" if "i \<in> {..<MAX_ENTRIES}" for i using that by simp
  show "?wf s' d \<and> ?foot s' d = ?foot s d \<and> ?look s' d v = ?look s d v \<and> ?tight s' d = ?tight s d" if "?wf s d" "agree (?foot s d) s s'" for s d s' v
    using that by (rule dir_frame)
  show "\<exists>v. ?look s d v \<noteq> None" if "bit d 0" "?wf s d" "?tight s d" for s d using that by (rule dir_present)
  show "?wf s d \<and> ?foot s d = {} \<and> ?look s d v = None \<and> ?tight s d" if "\<not> bit d 0" for s d v using that by (rule dir_absent)
  show "?look s d (take_bit (page_size_log2 lv) v) = ?look s d v" for s d v using dir_low lv(2) by simp
  show "tr_log2 m \<le> page_size_log2 lv" if "?look s d v = Some m" for s d v m using dir_log2 [OF that] lv(2) by simp
next
  have b: "bits < 48" "12 \<le> bits" using page_size_log2_less [of lv] lv(2) by simp_all
  fix s t es i and n vo pa :: addr and S :: "addr set" and fl
  assume a: "ts_mem s t = Some es" "length es = MAX_ENTRIES" "i < MAX_ENTRIES" and ewf: "?wf s (es ! i)"
    and ow: "owns t (?foot s (es ! i)) s"
    and n: "0 < unat n" "unat vo mod 2 ^ page_size_log2 lv + unat n \<le> 2 ^ page_size_log2 lv"
    and al: "page_aligned vo" "page_aligned pa" "page_aligned n" "unat pa + unat n \<le> 2 ^ 48"
    and S: "S = {v. unat v div 2 ^ page_size_log2 lv = unat vo div 2 ^ page_size_log2 lv}"
  have at: "pt_entry s t i = Some (es ! i)" by (rule pt_entry_at [OF a])
  show "post (pd_insert_func lv ins t fl vo pa n i s)
      (\<lambda>s'. \<exists>d'. ts_mem s' t = Some (es[i := d']) \<and> ?wf s' d' \<and> t \<notin> ?foot s' d'
          \<and> grown {t} (?foot s (es ! i)) (?foot s' d') s s'
          \<and> added S vo (unat n) (pa - vo) fl (?look s (es ! i)) (?look s' d')
          \<and> covered S vo (unat n) (pa - vo) fl (?look s' d') \<and> (?tight s (es ! i) \<longrightarrow> ?tight s' d'))
      (\<lambda>e s'. \<exists>d'. ts_mem s' t = Some (es[i := d']) \<and> ?wf s' d' \<and> t \<notin> ?foot s' d'
          \<and> grown {t} (?foot s (es ! i)) (?foot s' d') s s'
          \<and> added S vo (unat n) (pa - vo) fl (?look s (es ! i)) (?look s' d')
          \<and> insertion_fails e s'
          \<and> (e = Double_insertion \<longrightarrow> ?tight s (es ! i) \<longrightarrow> taken S vo (unat n) (?look s (es ! i))))"
  proof (cases "take_bit bits vo = 0 \<and> take_bit bits pa = 0 \<and> 2 ^ bits \<le> unat n")
    case False
    then have eq: "pd_insert_func lv ins t fl vo pa n i s = dir_descend desc_maps_page table_create Desc_Pa ins lv t fl vo pa n i s"
      unfolding pd_insert_split lv(2) [symmetric] by (simp only: if_False)
    show ?thesis
      unfolding eq
      by (rule post_mono [OF descend [OF a ewf ow n(1) n(2) [folded lv(2)] lv(2) al links_directory, of fl]])
         (unfold entry_grown_def entry_covered_def S lv(2) [symmetric], blast+)
  next
    case large: True
    let ?e = "page_create bits fl pa"
    have dv: "2 ^ bits dvd unat x" if "take_bit bits x = 0" for x :: addr
      using that by (simp add: word_unat_eq_iff unat_take dvd_eq_mod_eq_0)
    have new: "bit ?e 0" "desc_maps_page ?e"
      using b(1) by (simp_all add: bit_page_create bit_common_create desc_maps_page_bit)
    have req: "hw_leaf bits ?e v = requested (pa - vo) fl v bits" if "v \<in> S" for v
      using that dv large al(4) n(1) b by (intro leaf_requested) (auto simp: S lv(2) bit_page_create bit_common_create)
    have rng: "in_range vo (unat n) v" if "v \<in> S" for v
      using that dv large n(2) by (intro whole_page [of bits]) (simp_all add: S lv(2))
    show ?thesis
    proof (cases "bit (es ! i) 0 \<and> clear_mmu_flags (es ! i) \<noteq> ?e")
      case True
      have eq: "pd_insert_func lv ins t fl vo pa n i s = Thrown Double_insertion s"
        using large True unfolding pd_insert_split lv(2) [symmetric] at by (simp add: desc_present_bit)
      have "grown {t} (?foot s (es ! i)) (?foot s (es ! i)) s s"
        using ow by (auto simp: grown_def owns_def same_arena_def)
      moreover have "t \<notin> ?foot s (es ! i)" using ow by (simp add: owns_def)
      moreover have "taken S vo (unat n) (?look s (es ! i))" if ti: "?tight s (es ! i)"
      proof -
        obtain v where v: "?look s (es ! i) v \<noteq> None" using dir_present [OF _ ewf ti] True by blast
        define w where "w = vo + take_bit bits v"
        have "unat vo mod 2 ^ bits = 0" using dv [of vo] large by (simp add: dvd_eq_mod_eq_0)
        then have vq: "unat vo = unat vo div 2 ^ bits * 2 ^ bits" using div_mult_mod_eq [of "unat vo" "2 ^ bits"] by linarith
        have "vo AND take_bit bits v = 0"
          using aligned_low_bits [OF dv [of vo]] large by (intro bit_word_eqI) (auto simp: bit_simps)
        then have wo: "w = vo OR take_bit bits v" unfolding w_def
          by (intro disjunctive_add) (metis bit_0_eq bit_and_iff bot_apply bot_bool_def)
        then have dw: "drop_bit bits w = drop_bit bits vo" by (simp add: drop_bit_take_bit)
        have "take_bit bits w = take_bit bits v" using large by (simp add: wo)
        then have "?look s (es ! i) w \<noteq> None" using v dir_low [of _ s "es ! i" w] dir_low [of _ s "es ! i" v] by simp
        moreover have "w \<in> S" using arg_cong [OF dw, of unat] by (simp only: S lv(2) [symmetric] mem_Collect_eq unat_drop)
        ultimately show ?thesis using rng [of w] unfolding taken_def by blast
      qed
      ultimately show ?thesis
        unfolding eq post.simps using a(1) ewf
        by (intro exI [of _ "es ! i"]) (simp add: added_refl insertion_fails_def)
    next
      case False
      then have eq: "pd_insert_func lv ins t fl vo pa n i s = Returned (pt_set_entry t i ?e s)"
        using large unfolding pd_insert_split lv(2) [symmetric] at by (auto simp: desc_present_bit)
      show ?thesis
        unfolding eq post.simps
        using leaf_store [OF a ow new _ mmu_maps_page b(2) req rng] False new
        by (intro exI [of _ ?e]) (simp add: dir_tight_def)
    qed
  qed
next
  fix s t es i and n vo pa :: addr and S :: "addr set"
  assume a: "ts_mem s t = Some es" "length es = MAX_ENTRIES" "i < MAX_ENTRIES" and ewf: "?wf s (es ! i)"
    and ow: "owns t (?foot s (es ! i)) s"
    and n: "0 < unat n" "unat vo mod 2 ^ page_size_log2 lv + unat n \<le> 2 ^ page_size_log2 lv"
    and S: "S = {v. unat v div 2 ^ page_size_log2 lv = unat vo div 2 ^ page_size_log2 lv}"
  show "post (pd_remove_func lv rem emp t vo pa n i s)
      (\<lambda>s'. \<exists>d'. ts_mem s' t = Some (es[i := d']) \<and> ?wf s' d'
          \<and> shrunk {t} (?foot s (es ! i)) (?foot s' d') s s'
          \<and> cut S (unat vo) (unat n) (?look s (es ! i)) (?look s' d') \<and> (?tight s (es ! i) \<longrightarrow> ?tight s' d'))
      (\<lambda>e s'. False)"
    unfolding pd_remove_dir
    by (rule post_mono [OF remove_entry [OF a ewf ow n(1) n(2) [folded lv(2)] lv(2), of pa]])
       (unfold entry_cut_def S lv(2) [symmetric], blast)
qed

lemma toplevel_entries:
  assumes own: "own \<subseteq> {..<MAX_ENTRIES}" and b: "bits = page_size_log2 Pml4"
  shows "table_entries Pml4 own (canonical_in own) (dir_wf (\<lambda>d. False) Pml4_Pa wf)
    (dir_foot (\<lambda>d. False) foot) (dir_look (\<lambda>d. False) bits look)
    (dir_descend (\<lambda>d. False) pml4_create Pml4_Pa ins Pml4) (dir_remove (\<lambda>d. False) Pml4_Pa rem emp Pml4)
    (etight (\<lambda>d. False))"
  (is "table_entries _ _ ?V ?wf ?foot ?look _ _ ?tight")
proof
  show "pt_slot Pml4 v = pt_slot Pml4 w \<longleftrightarrow> unat v div 2 ^ page_size_log2 Pml4 = unat w div 2 ^ page_size_log2 Pml4"
    if "v \<in> ?V" "w \<in> ?V" for v w
    using top_page that by (simp add: canonical_in_def)
  show "pt_slot Pml4 v \<in> own" if "v \<in> ?V" for v using that by (simp add: canonical_in_def)
  show "hw_index (page_size_log2 Pml4) v = pt_slot Pml4 v" for v using top_hw by simp
  show "i < MAX_ENTRIES" if "i \<in> own" for i using that own by blast
  show "?wf s' d \<and> ?foot s' d = ?foot s d \<and> ?look s' d v = ?look s d v \<and> ?tight s' d = ?tight s d" if "?wf s d" "agree (?foot s d) s s'" for s d s' v
    using that by (rule dir_frame)
  show "\<exists>v. ?look s d v \<noteq> None" if "bit d 0" "?wf s d" "?tight s d" for s d using that by (rule dir_present)
  show "?wf s d \<and> ?foot s d = {} \<and> ?look s d v = None \<and> ?tight s d" if "\<not> bit d 0" for s d v using that by (rule dir_absent)
  show "?look s d (take_bit (page_size_log2 Pml4) v) = ?look s d v" for s d v using dir_low b by simp
  show "tr_log2 m \<le> page_size_log2 Pml4" if "?look s d v = Some m" for s d v m using dir_log2 [OF that] b by simp
next
  fix s t es i and n vo pa :: addr and S :: "addr set" and fl
  assume a: "ts_mem s t = Some es" "length es = MAX_ENTRIES" "i < MAX_ENTRIES" and ewf: "?wf s (es ! i)"
    and ow: "owns t (?foot s (es ! i)) s"
    and n: "0 < unat n" "unat vo mod 2 ^ page_size_log2 Pml4 + unat n \<le> 2 ^ page_size_log2 Pml4"
    and al: "page_aligned vo" "page_aligned pa" "page_aligned n" "unat pa + unat n \<le> 2 ^ 48"
    and S: "S = {v. unat v div 2 ^ page_size_log2 Pml4 = unat vo div 2 ^ page_size_log2 Pml4}"
  show "post (dir_descend (\<lambda>d. False) pml4_create Pml4_Pa ins Pml4 t fl vo pa n i s)
      (\<lambda>s'. \<exists>d'. ts_mem s' t = Some (es[i := d']) \<and> ?wf s' d' \<and> t \<notin> ?foot s' d'
          \<and> grown {t} (?foot s (es ! i)) (?foot s' d') s s'
          \<and> added S vo (unat n) (pa - vo) fl (?look s (es ! i)) (?look s' d')
          \<and> covered S vo (unat n) (pa - vo) fl (?look s' d') \<and> (?tight s (es ! i) \<longrightarrow> ?tight s' d'))
      (\<lambda>e s'. \<exists>d'. ts_mem s' t = Some (es[i := d']) \<and> ?wf s' d' \<and> t \<notin> ?foot s' d'
          \<and> grown {t} (?foot s (es ! i)) (?foot s' d') s s'
          \<and> added S vo (unat n) (pa - vo) fl (?look s (es ! i)) (?look s' d')
          \<and> insertion_fails e s'
          \<and> (e = Double_insertion \<longrightarrow> ?tight s (es ! i) \<longrightarrow> taken S vo (unat n) (?look s (es ! i))))"
    by (rule post_mono [OF descend [OF a ewf ow n(1) n(2) [folded b] b al links_top, of fl]])
       (unfold entry_grown_def entry_covered_def S b [symmetric], blast+)
next
  fix s t es i and n vo pa :: addr and S :: "addr set"
  assume a: "ts_mem s t = Some es" "length es = MAX_ENTRIES" "i < MAX_ENTRIES" and ewf: "?wf s (es ! i)"
    and ow: "owns t (?foot s (es ! i)) s"
    and n: "0 < unat n" "unat vo mod 2 ^ page_size_log2 Pml4 + unat n \<le> 2 ^ page_size_log2 Pml4"
    and S: "S = {v. unat v div 2 ^ page_size_log2 Pml4 = unat vo div 2 ^ page_size_log2 Pml4}"
  show "post (dir_remove (\<lambda>d. False) Pml4_Pa rem emp Pml4 t vo pa n i s)
      (\<lambda>s'. \<exists>d'. ts_mem s' t = Some (es[i := d']) \<and> ?wf s' d'
          \<and> shrunk {t} (?foot s (es ! i)) (?foot s' d') s s'
          \<and> cut S (unat vo) (unat n) (?look s (es ! i)) (?look s' d') \<and> (?tight s (es ! i) \<longrightarrow> ?tight s' d'))
      (\<lambda>e s'. False)"
    by (rule post_mono [OF remove_entry [OF a ewf ow n(1) n(2) [folded b] b, of pa]])
       (unfold entry_cut_def S b [symmetric], blast)
qed

end


section \<open>The chain of levels\<close>

definition l4_tight :: "table_space \<Rightarrow> addr \<Rightarrow> bool" where
  "l4_tight = table_tight {..<MAX_ENTRIES} (\<lambda>s d. True)"

definition l3_tight :: "table_space \<Rightarrow> addr \<Rightarrow> bool" where
  "l3_tight = table_tight {..<MAX_ENTRIES} (dir_tight desc_maps_page 21 l4_tight l4_walk)"

definition l2_tight :: "table_space \<Rightarrow> addr \<Rightarrow> bool" where
  "l2_tight = table_tight {..<MAX_ENTRIES} (dir_tight desc_maps_page 30 l3_tight l3_walk)"

definition pml4_tight :: "nat set \<Rightarrow> table_space \<Rightarrow> addr \<Rightarrow> bool" where
  "pml4_tight own = table_tight own (dir_tight (\<lambda>d. False) 39 l2_tight l2_walk)"

definition l3_wf :: "table_space \<Rightarrow> addr \<Rightarrow> bool" where
  "l3_wf = table_wf {..<MAX_ENTRIES} (dir_wf desc_maps_page Desc_Pa l4_wf) (dir_foot desc_maps_page l4_foot)"

definition l3_foot :: "table_space \<Rightarrow> addr \<Rightarrow> addr set" where
  "l3_foot = table_foot {..<MAX_ENTRIES} (dir_foot desc_maps_page l4_foot)"

definition l2_wf :: "table_space \<Rightarrow> addr \<Rightarrow> bool" where
  "l2_wf = table_wf {..<MAX_ENTRIES} (dir_wf desc_maps_page Desc_Pa l3_wf) (dir_foot desc_maps_page l3_foot)"

definition l2_foot :: "table_space \<Rightarrow> addr \<Rightarrow> addr set" where
  "l2_foot = table_foot {..<MAX_ENTRIES} (dir_foot desc_maps_page l3_foot)"

definition pml4_wf :: "nat set \<Rightarrow> table_space \<Rightarrow> addr \<Rightarrow> bool" where
  "pml4_wf own = table_wf own (dir_wf (\<lambda>d. False) Pml4_Pa l2_wf) (dir_foot (\<lambda>d. False) l2_foot)"

definition pml4_foot :: "nat set \<Rightarrow> table_space \<Rightarrow> addr \<Rightarrow> addr set" where
  "pml4_foot own = table_foot own (dir_foot (\<lambda>d. False) l2_foot)"

lemma present_eq: "desc_present = (\<lambda>d. bit d 0)"
  by (rule ext) (rule desc_present_bit)

lemma leaf_entry_eq: "hw_leaf_entry = dir_look any_leaf 12 no_table"
  by (intro ext) (simp add: hw_leaf_entry_def dir_look_def hw_table_entry_def)

lemma dir_entry_eq: "hw_dir_entry n next = dir_look desc_maps_page n next"
  by (intro ext) (simp add: hw_dir_entry_def dir_look_def desc_maps_page_bit)

lemma table_entry_eq: "hw_table_entry next = dir_look (\<lambda>d. False) n next"
  by (intro ext) (simp add: dir_look_def)

interpretation l4: translation_table 21 l4_wf l4_foot l4_walk l4_insert l4_remove l4_empty l4_tight
proof -
  have e: "l4_insert = (\<lambda>t vo pa n fl. range_op Level_4 (l4_insert_func t fl) vo pa n)"
    "l4_remove = (\<lambda>t vo n. range_op Level_4 (l4_remove_func t) vo 0 n)" "l4_empty = (\<lambda>s t. pt_empty s t (\<lambda>d. bit d 0))"
    by (simp_all add: fun_eq_iff l4_insert_def l4_remove_def l4_empty_def present_eq)
  show "translation_table 21 l4_wf l4_foot l4_walk l4_insert l4_remove l4_empty l4_tight"
    unfolding e l4_wf_def l4_foot_def l4_tight_def l4_walk_def leaf_entry_eq
    by (rule l4e.table_level [of 21, unfolded page_size_log2.simps]) (simp_all add: below_def)
qed

interpretation l3e: table_entries Level_3 "{..<MAX_ENTRIES}" "below 30" "dir_wf desc_maps_page Desc_Pa l4_wf"
    "dir_foot desc_maps_page l4_foot" "dir_look desc_maps_page 21 l4_walk"
    "pd_insert_func Level_3 l4_insert" "pd_remove_func Level_3 l4_remove l4_empty"
    "dir_tight desc_maps_page 21 l4_tight l4_walk"
  using l4.directory_entries [of Level_3] by simp

interpretation l3: translation_table 30 l3_wf l3_foot l3_walk l3_insert l3_remove pd_empty l3_tight
proof -
  have e: "l3_insert = (\<lambda>t vo pa n fl. range_op Level_3 (pd_insert_func Level_3 l4_insert t fl) vo pa n)"
    "l3_remove = (\<lambda>t vo n. range_op Level_3 (pd_remove_func Level_3 l4_remove l4_empty t) vo 0 n)"
    "pd_empty = (\<lambda>s t. pt_empty s t (\<lambda>d. bit d 0))"
    by (simp_all add: fun_eq_iff l3_insert_def l3_remove_def pd_insert_def pd_remove_def pd_empty_def present_eq)
  show "translation_table 30 l3_wf l3_foot l3_walk l3_insert l3_remove pd_empty l3_tight"
    unfolding e l3_wf_def l3_foot_def l3_tight_def l3_walk_def dir_entry_eq
    by (rule l3e.table_level [of 30, unfolded page_size_log2.simps]) (simp_all add: below_def)
qed

interpretation l2e: table_entries Level_2 "{..<MAX_ENTRIES}" "below 39" "dir_wf desc_maps_page Desc_Pa l3_wf"
    "dir_foot desc_maps_page l3_foot" "dir_look desc_maps_page 30 l3_walk"
    "pd_insert_func Level_2 l3_insert" "pd_remove_func Level_2 l3_remove pd_empty"
    "dir_tight desc_maps_page 30 l3_tight l3_walk"
  using l3.directory_entries [of Level_2] by simp

interpretation l2: translation_table 39 l2_wf l2_foot l2_walk l2_insert l2_remove pd_empty l2_tight
proof -
  have e: "l2_insert = (\<lambda>t vo pa n fl. range_op Level_2 (pd_insert_func Level_2 l3_insert t fl) vo pa n)"
    "l2_remove = (\<lambda>t vo n. range_op Level_2 (pd_remove_func Level_2 l3_remove pd_empty t) vo 0 n)"
    "pd_empty = (\<lambda>s t. pt_empty s t (\<lambda>d. bit d 0))"
    by (simp_all add: fun_eq_iff l2_insert_def l2_remove_def pd_insert_def pd_remove_def pd_empty_def present_eq)
  show "translation_table 39 l2_wf l2_foot l2_walk l2_insert l2_remove pd_empty l2_tight"
    unfolding e(1,2) l2_wf_def l2_foot_def l2_tight_def l2_walk_def dir_entry_eq
    by (rule l2e.table_level [of 39, unfolded page_size_log2.simps, folded e(3)]) (simp_all add: below_def)
qed

lemma pml4_entries:
  assumes "own \<subseteq> {..<MAX_ENTRIES}"
  shows "table_entries Pml4 own (canonical_in own) (dir_wf (\<lambda>d. False) Pml4_Pa l2_wf)
    (dir_foot (\<lambda>d. False) l2_foot) (dir_look (\<lambda>d. False) 39 l2_walk) pml4_insert_func pml4_remove_func
    (dir_tight (\<lambda>d. False) 39 l2_tight l2_walk)"
  unfolding pml4_insert_dir pml4_remove_dir by (rule l2.toplevel_entries [OF assms]) simp

lemma pml4_walk_eq: "pml4_walk = hw_walk (page_size_log2 Pml4) (dir_look (\<lambda>d. False) 39 l2_walk)"
  by (simp add: pml4_walk_def table_entry_eq [of _ 39])


section \<open>Address spaces\<close>

text \<open>
  The page table of a protection domain: the slots \<open>own\<close> of the top level are its own (the others are
  shared with the kernel), the tables behind them are distinct, and the used tables of the allocator
  are exactly these and the set \<open>R\<close> that was never free.
\<close>

definition space_ok :: "nat set \<Rightarrow> addr set \<Rightarrow> addr \<Rightarrow> table_space \<Rightarrow> bool" where
  "space_ok own R t s \<longleftrightarrow> own \<subseteq> {..<MAX_ENTRIES} \<and> pta_ok s \<and> t \<notin> spare_tables s \<and> pml4_wf own s t
     \<and> used_tables s = R \<union> pml4_foot own s t \<and> R \<inter> pml4_foot own s t = {}"

definition range_ok :: "nat set \<Rightarrow> addr \<Rightarrow> addr \<Rightarrow> bool" where
  "range_ok own vo n \<longleftrightarrow> unat vo + unat n \<le> 2 ^ 64 \<and> (\<forall>v. in_range vo (unat n) v \<longrightarrow> v \<in> canonical_in own)"

definition frames_ok :: "addr \<Rightarrow> addr \<Rightarrow> addr \<Rightarrow> bool" where
  "frames_ok vo pa n \<longleftrightarrow> page_aligned vo \<and> page_aligned pa \<and> page_aligned n \<and> unat pa + unat n \<le> 2 ^ 48"

lemma space_owns: "space_ok own R t s \<Longrightarrow> owns t (pml4_foot own s t) s"
proof -
  assume a: "space_ok own R t s"
  then have "own \<subseteq> {..<MAX_ENTRIES}" "pml4_wf own s t" by (simp_all add: space_ok_def)
  then have "t \<notin> pml4_foot own s t"
    using table_entries.table_own [OF pml4_entries] by (simp add: pml4_wf_def pml4_foot_def)
  then show ?thesis using a by (auto simp: owns_def space_ok_def)
qed

lemma space_grown:
  assumes s: "space_ok own R t s" and wf: "pml4_wf own s' t" and g: "grown {t} (pml4_foot own s t) (pml4_foot own s' t) s s'"
  shows "space_ok own R t s'"
proof -
  have R: "R \<subseteq> used_tables s" "R \<inter> pml4_foot own s t = {}" using s by (auto simp: space_ok_def)
  have f: "pml4_foot own s' t \<inter> used_tables s = pml4_foot own s t" using g by (simp add: grown_def)
  then have "pml4_foot own s t \<subseteq> pml4_foot own s' t" "R \<inter> pml4_foot own s' t = {}" using R by blast+
  moreover have "spare_tables s' \<subseteq> spare_tables s" using g by (auto simp: grown_def same_arena_def spare_tables_def)
  ultimately show ?thesis using s wf g by (auto simp: space_ok_def grown_def same_arena_def)
qed

lemma space_shrunk:
  assumes s: "space_ok own R t s" and wf: "pml4_wf own s' t" and g: "shrunk {t} (pml4_foot own s t) (pml4_foot own s' t) s s'"
  shows "space_ok own R t s'"
proof -
  have "t \<notin> spare_tables s'"
    using space_owns [OF s] g by (auto simp: owns_def shrunk_def same_arena_def spare_tables_def)
  then show ?thesis using s wf g by (auto simp: space_ok_def shrunk_def same_arena_def)
qed

lemma pml4_insert_post:
  assumes s: "space_ok own R t s" and r: "range_ok own vo n" and f: "frames_ok vo pa n"
  shows "post (pml4_insert t vo pa n fl s)
    (\<lambda>s'. space_ok own R t s' \<and> grown {t} (pml4_foot own s t) (pml4_foot own s' t) s s'
       \<and> added (canonical_in own) vo (unat n) (pa - vo) fl (pml4_walk s t) (pml4_walk s' t) \<and> slots_kept own t s s'
       \<and> covered (canonical_in own) vo (unat n) (pa - vo) fl (pml4_walk s' t) \<and> (pml4_tight own s t \<longrightarrow> pml4_tight own s' t))
    (\<lambda>e s'. space_ok own R t s' \<and> grown {t} (pml4_foot own s t) (pml4_foot own s' t) s s'
       \<and> added (canonical_in own) vo (unat n) (pa - vo) fl (pml4_walk s t) (pml4_walk s' t) \<and> slots_kept own t s s'
       \<and> insertion_fails e s'
       \<and> (e = Double_insertion \<longrightarrow> pml4_tight own s t \<longrightarrow> taken (canonical_in own) vo (unat n) (pml4_walk s t)))"
proof -
  have own: "own \<subseteq> {..<MAX_ENTRIES}" and wf: "pml4_wf own s t" using s by (simp_all add: space_ok_def)
  note ins = table_entries.table_insert [OF pml4_entries [OF own], folded pml4_wf_def pml4_foot_def pml4_tight_def pml4_walk_eq,
      OF wf space_owns [OF s]]
  note st = table_entries.ins_state_def [OF pml4_entries [OF own], folded pml4_wf_def pml4_foot_def pml4_tight_def pml4_walk_eq]
  have "post (range_op Pml4 (pml4_insert_func t fl) vo pa n s)
     (\<lambda>s'. (pml4_wf own s' t \<and> grown {t} (pml4_foot own s t) (pml4_foot own s' t) s s'
       \<and> added (canonical_in own) vo (unat n) (pa - vo) fl (pml4_walk s t) (pml4_walk s' t) \<and> slots_kept own t s s')
       \<and> covered (canonical_in own) vo (unat n) (pa - vo) fl (pml4_walk s' t) \<and> (pml4_tight own s t \<longrightarrow> pml4_tight own s' t))
     (\<lambda>e s'. (pml4_wf own s' t \<and> grown {t} (pml4_foot own s t) (pml4_foot own s' t) s s'
       \<and> added (canonical_in own) vo (unat n) (pa - vo) fl (pml4_walk s t) (pml4_walk s' t) \<and> slots_kept own t s s')
       \<and> insertion_fails e s'
       \<and> (e = Double_insertion \<longrightarrow> pml4_tight own s t \<longrightarrow> taken (canonical_in own) vo (unat n) (pml4_walk s t)))"
    using ins r f unfolding st range_ok_def frames_ok_def by blast
  then show ?thesis
    unfolding pml4_insert_def by (rule post_mono) (use space_grown [OF s] in blast)+
qed

lemma pml4_remove_post:
  assumes s: "space_ok own R t s" and r: "range_ok own vo n"
  shows "post (pml4_remove t vo n s)
    (\<lambda>s'. space_ok own R t s' \<and> shrunk {t} (pml4_foot own s t) (pml4_foot own s' t) s s'
       \<and> cut (canonical_in own) (unat vo) (unat n) (pml4_walk s t) (pml4_walk s' t) \<and> slots_kept own t s s'
       \<and> (pml4_tight own s t \<longrightarrow> pml4_tight own s' t)) (\<lambda>e s'. False)"
proof -
  have own: "own \<subseteq> {..<MAX_ENTRIES}" and wf: "pml4_wf own s t" using s by (simp_all add: space_ok_def)
  have "post (range_op Pml4 (pml4_remove_func t) vo 0 n s)
     (\<lambda>s'. pml4_wf own s' t \<and> shrunk {t} (pml4_foot own s t) (pml4_foot own s' t) s s'
       \<and> cut (canonical_in own) (unat vo) (unat n) (pml4_walk s t) (pml4_walk s' t) \<and> slots_kept own t s s'
       \<and> (pml4_tight own s t \<longrightarrow> pml4_tight own s' t)) (\<lambda>e s'. False)"
    using table_entries.table_remove [OF pml4_entries [OF own], folded pml4_wf_def pml4_foot_def pml4_tight_def pml4_walk_eq,
        OF wf space_owns [OF s]] r unfolding range_ok_def by blast
  then show ?thesis unfolding pml4_remove_def by (rule post_mono) (use space_shrunk [OF s] in blast)+
qed

end
