(* ===== verification/Page_Table_Properties.thy ===== *)
theory Page_Table_Properties
  imports Page_Table_Correct
begin

text \<open>
  What the page tables promise to core: new tables, the operations of an address space of core
  (\<open>core/platform_pd.cc\<close>), which flushes everything and tries again when the tables run out, and the
  properties of insertion, removal and of the part that is shared with the kernel.
\<close>

section \<open>Address spaces of core\<close>

text \<open>
  The area of the virtual memory that core manages is a parameter of the platform.  A fault is not an
  exception and ends the operation; every exception but \<open>Out_of_tables\<close> makes an insertion fail.  The
  update of the translation caches behind a removal and the messages are left out.
\<close>

datatype as_result = Crashed | Answer bool table_space

definition as_flush :: "addr \<Rightarrow> addr \<Rightarrow> addr \<Rightarrow> table_space \<Rightarrow> table_space option" where
  "as_flush tt virt n s =
     (case pml4_remove tt virt n s of
        Returned s' \<Rightarrow> Some s'
      | Thrown e s' \<Rightarrow> Some s'
      | Fault \<Rightarrow> None)"

partial_function (option) as_insert ::
  "addr \<Rightarrow> addr \<Rightarrow> addr \<Rightarrow> addr \<Rightarrow> addr \<Rightarrow> addr \<Rightarrow> page_flags \<Rightarrow> table_space \<Rightarrow> as_result option" where
  "as_insert vm_start vm_size tt virt phys n flags s =
     (case pml4_insert tt virt phys n flags s of
        Fault \<Rightarrow> Some Crashed
      | Returned s' \<Rightarrow> Some (Answer True s')
      | Thrown e s' \<Rightarrow>
          (if e = Out_of_tables then
             (case as_flush tt vm_start vm_size s' of
                None \<Rightarrow> Some Crashed
              | Some s'' \<Rightarrow> as_insert vm_start vm_size tt virt phys n flags s'')
           else Some (Answer False s')))"

text \<open>A new table, at an aligned place outside the array of the allocator, is an address space.\<close>

lemma zero_table:
  assumes "ts_mem s t = Some es" "length es = MAX_ENTRIES" "own \<subseteq> {..<MAX_ENTRIES}" "\<And>i. i \<in> own \<Longrightarrow> es ! i = 0"
    and "pta_ok s" "t \<notin> arena s"
  shows "space_ok own (used_tables s) t s" "pml4_tight own s t"
    "v \<in> canonical_in own \<Longrightarrow> pml4_walk s t v = None"
proof -
  have z: "\<not> bit (0 :: addr) 0" by simp
  note ab = dir_absent [of 0 "\<lambda>d. False", OF z]
  have "pml4_foot own s t = {}" using assms(1,4) ab by (simp add: pml4_foot_def table_foot_def)
  moreover have "pml4_wf own s t"
    unfolding pml4_wf_def table_wf_def using assms(1,2,4) ab by auto
  ultimately show "space_ok own (used_tables s) t s"
    using assms by (auto simp: space_ok_def spare_tables_def)
  show "pml4_tight own s t" using assms(1,4) ab by (simp add: pml4_tight_def table_tight_def)
  show "v \<in> canonical_in own \<Longrightarrow> pml4_walk s t v = None"
    using table_entries.tlook_entry [OF pml4_entries [OF assms(3)] assms(1,2), of v] assms(4) ab
    by (simp add: pml4_walk_eq canonical_in_def)
qed

lemma table_new_space:
  assumes "pta_ok s" "t \<notin> arena s" "hw_aligned t 12"
  obtains s' where "table_new t s = Returned s'" "space_ok {..<MAX_ENTRIES} (used_tables s) t s'"
    "pml4_tight {..<MAX_ENTRIES} s' t" "pta_ok s'" "arena s' = arena s" "ts_free s' = ts_free s"
proof -
  let ?s = "s\<lparr> ts_mem := (ts_mem s)(t \<mapsto> replicate MAX_ENTRIES 0) \<rparr>"
  have e: "pta_ok ?s" "arena ?s = arena s" "used_tables ?s = used_tables s"
    using assms(1) by (simp_all add: pta_ok_def arena_def used_tables_def)
  note z = zero_table [of ?s t "replicate MAX_ENTRIES 0" "{..<MAX_ENTRIES}"]
  have "space_ok {..<MAX_ENTRIES} (used_tables ?s) t ?s" "pml4_tight {..<MAX_ENTRIES} ?s t"
    using assms(2) e by (intro z; simp)+
  then show thesis using that [of ?s] assms(3) e by (simp add: table_new_def)
qed


text \<open>The copy of the kernel's table shares the last entry.\<close>

lemma first_kernel: "pml4_first_kernel = 511"
  by (simp add: pml4_first_kernel_def)

lemma pml4_copy_space:
  assumes "pta_ok s" "t \<notin> arena s" "hw_aligned t 12" "k \<noteq> t" "ts_mem s k = Some ks" "length ks = MAX_ENTRIES"
  obtains s' where "pml4_copy t k s = Returned s'" "space_ok {..<511} (used_tables s) t s'" "pml4_tight {..<511} s' t"
    "pt_entry s' t 511 = Some (ks ! 511)" "\<And>a. a \<noteq> t \<Longrightarrow> ts_mem s' a = ts_mem s a" "arena s' = arena s"
proof -
  let ?es = "(replicate MAX_ENTRIES 0) [511 := ks ! 511]"
  let ?s = "s\<lparr> ts_mem := (ts_mem s)(t \<mapsto> ?es) \<rparr>"
  have e: "pta_ok ?s" "arena ?s = arena s" "used_tables ?s = used_tables s"
    using assms(1) by (simp_all add: pta_ok_def arena_def used_tables_def)
  note z = zero_table [of ?s t ?es "{..<511}"]
  have "space_ok {..<511} (used_tables ?s) t ?s" "pml4_tight {..<511} ?s t"
    using assms(2) e by (intro z; simp)+
  moreover have "[511..<512] = [511]" by (simp add: upt_rec)
  then have "pml4_copy t k s = Returned ?s"
    using assms(3-6) by (simp add: pml4_copy_def table_new_def first_kernel pt_set_entry_def)
  ultimately show thesis using that [of ?s] e by (simp add: pt_entry_def)
qed


section \<open>Insertion\<close>

text \<open>
  C2  Insertion maps the range: after \<open>insert_translation\<close> returned, the hardware translates every address
  of the range to the requested frame with the requested rights, and every other address of the
  space as before; the operation neither faults nor fails for another reason than exhausted tables or
  a conflicting mapping.
\<close>

theorem pt_insert_maps:
  assumes "space_ok own R t s" "range_ok own vo n" "frames_ok vo pa n"
  shows "post (pml4_insert t vo pa n fl s)
    (\<lambda>s'. \<forall>v \<in> canonical_in own.
       if in_range vo (unat n) v then \<exists>l. pml4_walk s' t v = Some (requested (pa - vo) fl v l)
       else pml4_walk s' t v = pml4_walk s t v)
    (\<lambda>e s'. (e = Out_of_tables \<and> spare_tables s' = {}) \<or> e = Double_insertion)"
  by (rule post_mono [OF pml4_insert_post [OF assms, of fl]])
     (auto simp: insertion_fails_def added_def covered_def)

text \<open>An address space of 64 tables in which no table is used.\<close>

definition sample_space :: table_space where
  "sample_space = \<lparr> ts_virt = 0x10000000, ts_phys = 0x200000, ts_free = \<lparr> ba_next = 0, ba_array = [0] \<rparr>,
     ts_mem = [0x1000 \<mapsto> replicate MAX_ENTRIES 0] \<rparr>"

lemma sample_pta: "pta_ok sample_space"
  by (simp add: pta_ok_def sample_space_def bit_len_def)

lemma sample_arena: "0x1000 \<notin> arena sample_space"
proof
  assume "0x1000 \<in> arena sample_space"
  then obtain i where i: "table_at sample_space i = 0x1000" "i < table_count sample_space" by (auto simp: arena_eq)
  then have "unat (0x1000 :: addr) = unat (ts_virt sample_space) + 4096 * i"
    using unat_table_at [OF sample_pta i(2)] by simp
  then show False by (simp add: sample_space_def)
qed

lemma sample_zero:
  "ts_mem sample_space 0x1000 = Some (replicate MAX_ENTRIES 0)"
  by (simp add: sample_space_def)

lemma sample_ok:
  shows "space_ok {..<MAX_ENTRIES} (used_tables sample_space) 0x1000 sample_space"
    and "pml4_tight {..<MAX_ENTRIES} sample_space 0x1000"
proof -
  note z = zero_table [OF sample_zero length_replicate order_refl _ sample_pta sample_arena]
  show "space_ok {..<MAX_ENTRIES} (used_tables sample_space) 0x1000 sample_space" by (rule z) simp
  show "pml4_tight {..<MAX_ENTRIES} sample_space 0x1000" by (rule z) simp
qed

lemma low_range: "unat vo + unat n \<le> 2 ^ 47 \<Longrightarrow> range_ok {..<MAX_ENTRIES} vo n"
  using top_less by (auto simp: range_ok_def in_range_def canonical_in_def canonical_def)

theorem pt_insert_maps_witness:
  "post (pml4_insert 0x1000 0x400000 0x600000 0x201000 PAGE_FLAGS_UTCB sample_space)
    (\<lambda>s'. \<forall>v \<in> canonical_in {..<MAX_ENTRIES}.
       if in_range 0x400000 (unat (0x201000 :: addr)) v
       then \<exists>l. pml4_walk s' 0x1000 v = Some (requested (0x600000 - 0x400000) PAGE_FLAGS_UTCB v l)
       else pml4_walk s' 0x1000 v = pml4_walk sample_space 0x1000 v)
    (\<lambda>e s'. (e = Out_of_tables \<and> spare_tables s' = {}) \<or> e = Double_insertion)"
  by (rule pt_insert_maps [OF sample_ok(1) low_range]) (simp_all add: frames_ok_def page_aligned_def)

text \<open>
  C7  A failing insertion does no harm: every address has the translation it had before, or it had none,
  lies in the range and has the requested one now.  The reason is that no table is left or, if no
  table was empty before, that an address of the range was mapped already.
\<close>

theorem pt_insert_error:
  assumes "space_ok own R t s" "pml4_tight own s t" "range_ok own vo n" "frames_ok vo pa n"
  shows "post (pml4_insert t vo pa n fl s) (\<lambda>s'. pml4_tight own s' t)
    (\<lambda>e s'. ((e = Out_of_tables \<and> spare_tables s' = {})
         \<or> (e = Double_insertion \<and> taken (canonical_in own) vo (unat n) (pml4_walk s t)))
       \<and> added (canonical_in own) vo (unat n) (pa - vo) fl (pml4_walk s t) (pml4_walk s' t))"
  by (rule post_mono [OF pml4_insert_post [OF assms(1,3,4), of fl]])
     (use assms(2) in \<open>auto simp: insertion_fails_def\<close>)

theorem pt_insert_error_witness:
  "post (pml4_insert 0x1000 0x400000 0x600000 0x201000 PAGE_FLAGS_UTCB sample_space)
    (\<lambda>s'. pml4_tight {..<MAX_ENTRIES} s' 0x1000)
    (\<lambda>e s'. ((e = Out_of_tables \<and> spare_tables s' = {}) \<or> (e = Double_insertion \<and>
          taken (canonical_in {..<MAX_ENTRIES}) 0x400000 (unat (0x201000 :: addr)) (pml4_walk sample_space 0x1000)))
       \<and> added (canonical_in {..<MAX_ENTRIES}) 0x400000 (unat (0x201000 :: addr)) (0x600000 - 0x400000)
           PAGE_FLAGS_UTCB (pml4_walk sample_space 0x1000) (pml4_walk s' 0x1000))"
  by (rule pt_insert_error [OF sample_ok low_range]) (simp_all add: frames_ok_def page_aligned_def)


section \<open>Removal\<close>

text \<open>
  C8  Removal unmaps exactly the pages that the range touches, a large page as a whole, and never fails.
\<close>

theorem pt_remove_unmaps:
  assumes "space_ok own R t s" "range_ok own vo n"
  shows "post (pml4_remove t vo n s)
    (\<lambda>s'. \<forall>v \<in> canonical_in own. pml4_walk s' t v =
       (case pml4_walk s t v of
          None \<Rightarrow> None
        | Some m \<Rightarrow> if hits (unat vo) (unat n) (tr_log2 m) (unat v) then None else Some m))
    (\<lambda>e s'. False)"
  by (rule post_mono [OF pml4_remove_post [OF assms]]) (simp_all add: cut_def)

theorem pt_remove_unmaps_witness:
  "post (pml4_remove 0x1000 0x400800 0x1000 sample_space)
    (\<lambda>s'. \<forall>v \<in> canonical_in {..<MAX_ENTRIES}. pml4_walk s' 0x1000 v =
       (case pml4_walk sample_space 0x1000 v of
          None \<Rightarrow> None
        | Some m \<Rightarrow> if hits (unat (0x400800 :: addr)) (unat (0x1000 :: addr)) (tr_log2 m) (unat v) then None else Some m))
    (\<lambda>e s'. False)"
  by (rule pt_remove_unmaps [OF sample_ok(1) low_range]) simp


section \<open>Runs of operations\<close>

text \<open>
  One operation on the table of a protection domain, which returns or throws; a sequence of them is the
  life of an address space.
\<close>

inductive space_step :: "nat set \<Rightarrow> addr \<Rightarrow> table_space \<Rightarrow> table_space \<Rightarrow> bool" for own t where
  insert_returns: "range_ok own vo n \<Longrightarrow> frames_ok vo pa n \<Longrightarrow> pml4_insert t vo pa n fl s = Returned s' \<Longrightarrow>
     space_step own t s s'"
| insert_throws: "range_ok own vo n \<Longrightarrow> frames_ok vo pa n \<Longrightarrow> pml4_insert t vo pa n fl s = Thrown e s' \<Longrightarrow>
     space_step own t s s'"
| remove_returns: "range_ok own vo n \<Longrightarrow> pml4_remove t vo n s = Returned s' \<Longrightarrow> space_step own t s s'"

inductive space_run :: "nat set \<Rightarrow> addr \<Rightarrow> table_space \<Rightarrow> table_space \<Rightarrow> bool" for own t where
  run_refl: "space_run own t s s"
| run_step: "space_run own t s s1 \<Longrightarrow> space_step own t s1 s2 \<Longrightarrow> space_run own t s s2"

text \<open>What an operation leaves alone: memory outside the array, tables that are not its own, foreign slots.\<close>

definition foreign_kept :: "nat set \<Rightarrow> addr set \<Rightarrow> addr \<Rightarrow> table_space \<Rightarrow> table_space \<Rightarrow> bool" where
  "foreign_kept own R t s s' \<longleftrightarrow> arena s' = arena s \<and> slots_kept own t s s'
     \<and> (\<forall>a. a \<noteq> t \<and> (a \<in> R \<or> a \<notin> arena s) \<longrightarrow> ts_mem s' a = ts_mem s a)"

lemma foreign_grown:
  assumes "space_ok own R t s" "space_ok own R t s'" "grown {t} D D' s s'" "D' = pml4_foot own s' t" "slots_kept own t s s'"
  shows "foreign_kept own R t s s'"
proof -
  have "R \<inter> D' = {}" "D' \<subseteq> arena s'" using assms(2,4) used_arena [of s'] by (auto simp: space_ok_def)
  then show ?thesis using assms(3,5) by (auto simp: foreign_kept_def grown_def same_arena_def)
qed

lemma foreign_shrunk:
  assumes "space_ok own R t s" "shrunk {t} D D' s s'" "D = pml4_foot own s t" "slots_kept own t s s'"
  shows "foreign_kept own R t s s'"
proof -
  have "R \<inter> D = {}" "D \<subseteq> arena s" using assms(1,3) used_arena [of s] by (auto simp: space_ok_def)
  then show ?thesis using assms(2,4) by (auto simp: foreign_kept_def shrunk_def same_arena_def)
qed

lemma space_step_ok:
  assumes "space_step own t s s'" "space_ok own R t s"
  shows "space_ok own R t s' \<and> foreign_kept own R t s s'"
  using assms(1)
proof cases
  case (insert_returns vo n pa fl)
  then show ?thesis using pml4_insert_post [OF assms(2), of vo n pa fl] assms(2)
    by (auto intro: foreign_grown)
next
  case (insert_throws vo n pa fl e)
  then show ?thesis using pml4_insert_post [OF assms(2), of vo n pa fl] assms(2)
    by (auto intro: foreign_grown)
next
  case (remove_returns vo n)
  then show ?thesis using pml4_remove_post [OF assms(2), of vo n] assms(2)
    by (auto intro: foreign_shrunk)
qed

lemma foreign_refl: "foreign_kept own R t s s"
  by (simp add: foreign_kept_def slots_kept_refl)

lemma foreign_trans: "foreign_kept own R t s s1 \<Longrightarrow> foreign_kept own R t s1 s2 \<Longrightarrow> foreign_kept own R t s s2"
  by (simp add: foreign_kept_def slots_kept_def)

lemma space_run_ok:
  "space_run own t s s' \<Longrightarrow> space_ok own R t s \<Longrightarrow> space_ok own R t s' \<and> foreign_kept own R t s s'"
proof (induction rule: space_run.induct)
  case (run_refl s)
  then show ?case by (simp add: foreign_refl)
next
  case (run_step s s1 s2)
  then show ?case using space_step_ok [OF run_step.hyps(2)] foreign_trans by blast
qed

text \<open>
  C12  No table leaks: in every run of insertions, failing ones included, and removals the tables that
  the allocator counts as used are those that were used by others all the time and those that hang
  in the page table, each in one place.
\<close>

theorem pt_no_leak:
  assumes "space_ok own R t s" "space_run own t s s'"
  shows "space_ok own R t s'"
  using space_run_ok [OF assms(2,1)] by blast

theorem pt_no_leak_witness:
  "\<exists>s'. space_step {..<MAX_ENTRIES} 0x1000 sample_space s' \<and> space_ok {..<MAX_ENTRIES} (used_tables sample_space) 0x1000 s'"
proof -
  obtain s' where s': "pml4_remove 0x1000 0x400000 0x1000 sample_space = Returned s'"
    using pml4_remove_post [OF sample_ok(1) low_range, of "0x400000" "0x1000"]
    by (cases "pml4_remove 0x1000 0x400000 0x1000 sample_space") auto
  have st: "space_step {..<MAX_ENTRIES} 0x1000 sample_space s'"
    by (rule remove_returns [OF low_range s']) simp
  have "space_run {..<MAX_ENTRIES} 0x1000 sample_space s'" by (rule run_step [OF run_refl st])
  from pt_no_leak [OF sample_ok(1) this] st show ?thesis by blast
qed

text \<open>
  C19  The kernel's part is shared and out of reach: the page table of a new protection domain starts
  with the kernel's last entry, and no run of operations on its own part changes that entry or
  memory outside the array of its tables.
\<close>

theorem pt_kernel_kept:
  assumes "pta_ok s" "t \<notin> arena s" "hw_aligned t 12" "k \<noteq> t" "k \<notin> arena s"
    and "ts_mem s k = Some ks" "length ks = MAX_ENTRIES"
    and "pml4_copy t k s = Returned s1" "space_run {..<511} t s1 s2"
  shows "pt_entry s2 t 511 = pt_entry s2 k 511 \<and> (\<forall>a. a \<noteq> t \<and> a \<notin> arena s \<longrightarrow> ts_mem s2 a = ts_mem s a)"
proof -
  obtain s' where s': "pml4_copy t k s = Returned s'" "space_ok {..<511} (used_tables s) t s'"
    "pt_entry s' t 511 = Some (ks ! 511)" "\<And>a. a \<noteq> t \<Longrightarrow> ts_mem s' a = ts_mem s a" "arena s' = arena s"
    using pml4_copy_space [OF assms(1-4,6,7)] by metis
  then have "s' = s1" using assms(8) by simp
  with s' have s1: "space_ok {..<511} (used_tables s) t s1" "pt_entry s1 t 511 = Some (ks ! 511)"
    "\<And>a. a \<noteq> t \<Longrightarrow> ts_mem s1 a = ts_mem s a" "arena s1 = arena s" by simp_all
  have f: "foreign_kept {..<511} (used_tables s) t s1 s2" using space_run_ok [OF assms(9) s1(1)] by blast
  then have mem: "ts_mem s2 a = ts_mem s a" if "a \<noteq> t" "a \<notin> arena s" for a
    using that s1(3,4) by (simp add: foreign_kept_def)
  have "pt_entry s2 k 511 = Some (ks ! 511)" using mem [OF assms(4,5)] assms(6,7) by (simp add: pt_entry_def)
  moreover have "pt_entry s2 t 511 = Some (ks ! 511)" using f s1(2) by (simp add: foreign_kept_def slots_kept_def)
  ultimately show ?thesis using mem by simp
qed

definition sample_kernel :: table_space where
  "sample_kernel = sample_space\<lparr> ts_mem := [0x1000 \<mapsto> (replicate MAX_ENTRIES 0)[511 := 0x3007]] \<rparr>"

theorem pt_kernel_kept_witness:
  "\<exists>s1. pml4_copy 0x2000 0x1000 sample_kernel = Returned s1 \<and> pt_entry s1 0x2000 511 = pt_entry s1 0x1000 511"
proof -
  have ar: "pta_ok sample_kernel" "arena sample_kernel = arena sample_space"
    using sample_pta by (simp_all add: sample_kernel_def pta_ok_def arena_def)
  have far: "a \<notin> arena sample_space" if "unat a < 0x10000000" for a
  proof
    assume "a \<in> arena sample_space"
    then obtain i where i: "table_at sample_space i = a" "i < table_count sample_space" by (auto simp: arena_eq)
    then have "unat a = unat (ts_virt sample_space) + 4096 * i" using unat_table_at [OF sample_pta i(2)] by simp
    then show False using that by (simp add: sample_space_def)
  qed
  have al: "hw_aligned 0x2000 12" by (simp add: hw_aligned_unat)
  have k: "ts_mem sample_kernel 0x1000 = Some ((replicate MAX_ENTRIES 0)[511 := 0x3007])" by (simp add: sample_kernel_def)
  obtain s1 where s1: "pml4_copy 0x2000 0x1000 sample_kernel = Returned s1"
    using pml4_copy_space [OF ar(1) _ al _ k] far [of "0x2000"] ar(2) by force
  have "pt_entry s1 0x2000 511 = pt_entry s1 0x1000 511 \<and>
      (\<forall>a. a \<noteq> 0x2000 \<and> a \<notin> arena sample_kernel \<longrightarrow> ts_mem s1 a = ts_mem sample_kernel a)"
    by (rule pt_kernel_kept [OF ar(1) _ al _ _ k _ s1 run_refl]) (simp_all add: far ar(2))
  then show ?thesis using s1 by blast
qed


section \<open>The retry of core\<close>

lemma as_flush_ok:
  assumes "space_ok own R t s" "range_ok own vm_start vm_size"
  obtains s' where "as_flush t vm_start vm_size s = Some s'" "space_ok own R t s'"
    "\<And>v. v \<in> canonical_in own \<Longrightarrow> pml4_walk s' t v = pml4_walk s t v \<or> pml4_walk s' t v = None"
proof (cases "pml4_remove t vm_start vm_size s")
  case (Returned s')
  then have p: "space_ok own R t s'"
    "cut (canonical_in own) (unat vm_start) (unat vm_size) (pml4_walk s t) (pml4_walk s' t)"
    using pml4_remove_post [OF assms] by simp_all
  have "pml4_walk s' t v = pml4_walk s t v \<or> pml4_walk s' t v = None" if "v \<in> canonical_in own" for v
    using p(2) that by (auto simp: cut_def split: option.splits)
  then show thesis using that [of s'] p(1) Returned by (simp add: as_flush_def)
qed (use pml4_remove_post [OF assms] in simp_all)


text \<open>In the sample space the tables do not run out.\<close>

lemma sample_insert:
  "case pml4_insert 0x1000 0x400000 0x600000 0x200000 PAGE_FLAGS_UTCB sample_space of Returned s \<Rightarrow> True | _ \<Rightarrow> False"
  by code_simp


end
