(* ===== verification/Packet_Queue.thy ===== *)
theory Packet_Queue
  imports Ring_Buffer
begin

text \<open>
  The data of a packet stream (\<open>os/include/os/packet_stream.h\<close>): packet descriptors and their checks, and
  the descriptor queue in shared memory.  Each side constructs its part of the queue: the producer the
  head and the slots, the consumer the tail.  The number of slots is a template argument; it is an
  \<open>int\<close> that C++ converts to the unsigned type of the indices.
\<close>

section \<open>Packet descriptors\<close>

text \<open>\<open>off_t\<close> is a signed and \<open>size_t\<close> an unsigned integer of 64 bits; a sum of both is unsigned.\<close>

record packet_descriptor =
  pd_offset :: "64 word"
  pd_size :: size

definition no_packet :: packet_descriptor where
  "no_packet = \<lparr> pd_offset = 0, pd_size = 0 \<rparr>"

record stream_base =
  sb_local_base :: addr
  sb_submit_queue_offset :: "64 word"
  sb_ack_queue_offset :: "64 word"
  sb_bulk_buffer_offset :: "64 word"
  sb_bulk_buffer_size :: size

text \<open>The constructor, with the address and the size of the attached dataspace; \<open>None\<close> if it is too small.\<close>

definition stream_new :: "addr \<Rightarrow> size \<Rightarrow> size \<Rightarrow> size \<Rightarrow> stream_base option" where
  "stream_new ds_local_base ds_size submit_queue_size ack_queue_size =
     (let submit = 0; ack = submit + submit_queue_size; bulk = ack + ack_queue_size
      in if bulk \<ge> ds_size then None
         else Some \<lparr> sb_local_base = ds_local_base, sb_submit_queue_offset = submit, sb_ack_queue_offset = ack,
                sb_bulk_buffer_offset = bulk, sb_bulk_buffer_size = ds_size - bulk \<rparr>)"

definition packet_valid :: "stream_base \<Rightarrow> packet_descriptor \<Rightarrow> bool" where
  "packet_valid s packet \<longleftrightarrow>
     sb_bulk_buffer_offset s \<le>s pd_offset packet
     \<and> pd_offset packet <s sb_bulk_buffer_offset s + sb_bulk_buffer_size s
     \<and> pd_offset packet + pd_size packet \<le> sb_bulk_buffer_offset s + sb_bulk_buffer_size s"

text \<open>\<open>packet_content\<close>: 0 for an invalid packet, else an address; \<open>content_size\<close> is the size of the content type.\<close>

definition packet_content :: "size \<Rightarrow> stream_base \<Rightarrow> packet_descriptor \<Rightarrow> addr" where
  "packet_content content_size s packet =
     (if \<not> packet_valid s packet \<or> pd_size packet < content_size then 0
      else sb_local_base s + pd_offset packet)"


section \<open>The queue\<close>

record 'p packet_queue =
  pq_head :: u32
  pq_tail :: u32
  pq_queue :: "'p list"

datatype queue_role = PRODUCER | CONSUMER

definition pq_construct :: "u32 \<Rightarrow> 'p \<Rightarrow> queue_role \<Rightarrow> 'p packet_queue \<Rightarrow> 'p packet_queue" where
  "pq_construct QUEUE_SIZE zero role q =
     (if role = PRODUCER then q\<lparr> pq_head := 0, pq_queue := replicate (unat QUEUE_SIZE) zero \<rparr>
      else q\<lparr> pq_tail := 0 \<rparr>)"

definition pq_full :: "u32 \<Rightarrow> 'p packet_queue \<Rightarrow> bool" where
  "pq_full QUEUE_SIZE q \<longleftrightarrow> (pq_head q + 1) mod QUEUE_SIZE = pq_tail q"

definition pq_empty :: "'p packet_queue \<Rightarrow> bool" where
  "pq_empty q \<longleftrightarrow> pq_tail q = pq_head q"

definition pq_add :: "u32 \<Rightarrow> 'p \<Rightarrow> 'p packet_queue \<Rightarrow> bool \<times> 'p packet_queue" where
  "pq_add QUEUE_SIZE packet q =
     (if pq_full QUEUE_SIZE q then (False, q)
      else
        (let q = q\<lparr> pq_queue := (pq_queue q)[unat (pq_head q mod QUEUE_SIZE) := packet] \<rparr>
         in (True, q\<lparr> pq_head := (pq_head q + 1) mod QUEUE_SIZE \<rparr>)))"

definition pq_get :: "u32 \<Rightarrow> 'p packet_queue \<Rightarrow> 'p \<times> 'p packet_queue" where
  "pq_get QUEUE_SIZE q =
     (let packet = pq_queue q ! unat (pq_tail q mod QUEUE_SIZE)
      in (packet, q\<lparr> pq_tail := (pq_tail q + 1) mod QUEUE_SIZE \<rparr>))"

definition pq_peek :: "u32 \<Rightarrow> 'p packet_queue \<Rightarrow> 'p" where
  "pq_peek QUEUE_SIZE q = pq_queue q ! unat (pq_tail q mod QUEUE_SIZE)"

definition pq_single_element :: "u32 \<Rightarrow> 'p packet_queue \<Rightarrow> bool" where
  "pq_single_element QUEUE_SIZE q \<longleftrightarrow> (pq_tail q + 1) mod QUEUE_SIZE = pq_head q"

definition pq_single_slot_free :: "u32 \<Rightarrow> 'p packet_queue \<Rightarrow> bool" where
  "pq_single_slot_free QUEUE_SIZE q \<longleftrightarrow> (pq_head q + 2) mod QUEUE_SIZE = pq_tail q"

definition pq_slots_free :: "u32 \<Rightarrow> 'p packet_queue \<Rightarrow> u32" where
  "pq_slots_free QUEUE_SIZE q =
     (if pq_tail q > pq_head q then pq_tail q - pq_head q else QUEUE_SIZE - pq_head q + pq_tail q) - 1"


section \<open>The queue as a ring buffer\<close>

definition pq_ring :: "'p packet_queue \<Rightarrow> 'p ring" where
  "pq_ring q = \<lparr> rb_head = unat (pq_head q), rb_tail = unat (pq_tail q), rb_sem = 0, rb_queue = pq_queue q \<rparr>"

definition pq_ok :: "u32 \<Rightarrow> 'p packet_queue \<Rightarrow> bool" where
  "pq_ok N q \<longleftrightarrow> 2 \<le> unat N \<and> unat N < 2 ^ 31 \<and> length (pq_queue q) = unat N
     \<and> unat (pq_head q) < unat N \<and> unat (pq_tail q) < unat N"

definition pq_contents :: "'p packet_queue \<Rightarrow> 'p list" where
  "pq_contents q = rb_contents (pq_ring q)"

lemma pq_ring_ok: "pq_ok N q \<Longrightarrow> rb_ok (pq_ring q)"
  by (simp add: pq_ok_def rb_ok_def pq_ring_def)

lemma length_contents: "length (pq_contents q) = rb_count (pq_ring q)"
  by (simp add: pq_contents_def rb_contents_def)

lemma unat_next: "unat N < 2 ^ 31 \<Longrightarrow> unat (h :: u32) < unat N \<Longrightarrow> k \<le> 2 \<Longrightarrow> unat ((h + of_nat k) mod N) = (unat h + k) mod unat N"
  by (simp add: unat_mod unat_word_ariths unat_of_nat)

lemma pq_new_ok:
  assumes "2 \<le> unat N" "unat N < 2 ^ 31"
  shows "pq_ok N (pq_construct N z CONSUMER (pq_construct N z PRODUCER q))"
    "pq_contents (pq_construct N z CONSUMER (pq_construct N z PRODUCER q)) = []"
  using assms by (simp_all add: pq_ok_def pq_construct_def pq_contents_def pq_ring_def rb_contents_def rb_count_def)

lemma pq_tests:
  assumes "pq_ok N q"
  shows "pq_empty q \<longleftrightarrow> pq_contents q = []"
    and "pq_full N q \<longleftrightarrow> length (pq_contents q) = unat N - 1"
    and "pq_single_element N q \<longleftrightarrow> length (pq_contents q) = 1"
    and "pq_single_slot_free N q \<longleftrightarrow> length (pq_contents q) = unat N - 2"
    and "unat (pq_slots_free N q) = unat N - 1 - length (pq_contents q)"
proof -
  let ?h = "unat (pq_head q)" and ?t = "unat (pq_tail q)" and ?n = "unat N"
  have b: "2 \<le> ?n" "?n < 2 ^ 31" "length (pq_queue q) = ?n" "?h < ?n" "?t < ?n" using assms by (simp_all add: pq_ok_def)
  have c: "length (pq_contents q) = (if ?t \<le> ?h then ?h - ?t else ?n - ?t + ?h)"
    unfolding length_contents by (simp add: rb_count_def pq_ring_def b(3))
  have w: "unat (pq_head q + 1) = ?h + 1" "unat (pq_head q + 2) = ?h + 2" "unat (pq_tail q + 1) = ?t + 1"
    using b by (simp_all add: unat_add_no_wrap)
  show "pq_empty q \<longleftrightarrow> pq_contents q = []"
    using c b unfolding pq_empty_def word_unat_eq_iff by (auto simp flip: length_0_conv)
  show "pq_full N q \<longleftrightarrow> length (pq_contents q) = ?n - 1"
    using c b unfolding pq_full_def word_unat_eq_iff unat_mod w by (auto simp: mod_if)
  show "pq_single_element N q \<longleftrightarrow> length (pq_contents q) = 1"
    using c b unfolding pq_single_element_def word_unat_eq_iff unat_mod w by (auto simp: mod_if)
  show "pq_single_slot_free N q \<longleftrightarrow> length (pq_contents q) = ?n - 2"
    using c b unfolding pq_single_slot_free_def word_unat_eq_iff unat_mod w by (auto simp: mod_if)
  show "unat (pq_slots_free N q) = ?n - 1 - length (pq_contents q)"
  proof (cases "pq_tail q > pq_head q")
    case True
    then have "unat (pq_tail q - pq_head q) = ?t - ?h" "?h < ?t"
      by (simp_all add: unat_sub_no_wrap word_less_nat_alt word_le_nat_alt)
    moreover from this have "unat (pq_tail q - pq_head q - 1) = ?t - ?h - 1"
      by (subst unat_sub_no_wrap) (simp_all add: word_le_nat_alt)
    ultimately show ?thesis using c b True by (simp add: pq_slots_free_def)
  next
    case False
    then have le: "?t \<le> ?h" by (simp add: word_less_nat_alt)
    have "unat (N - pq_head q) = ?n - ?h" using b by (simp add: unat_sub_no_wrap word_le_nat_alt)
    then have "unat (N - pq_head q + pq_tail q) = ?n - ?h + ?t" using b le by (simp add: unat_add_no_wrap)
    moreover from this have "unat (N - pq_head q + pq_tail q - 1) = ?n - ?h + ?t - 1"
      using b by (subst unat_sub_no_wrap) (simp_all add: word_le_nat_alt)
    ultimately show ?thesis using c b False le by (simp add: pq_slots_free_def)
  qed
qed

lemma pq_add_contents:
  assumes ok: "pq_ok N q" and room: "length (pq_contents q) \<noteq> unat N - 1"
  obtains q' where "pq_add N p q = (True, q')" "pq_ok N q'" "pq_contents q' = pq_contents q @ [p]" "pq_tail q' = pq_tail q"
proof -
  have b: "2 \<le> unat N" "unat N < 2 ^ 31" "length (pq_queue q) = unat N" "unat (pq_head q) < unat N"
    using ok by (simp_all add: pq_ok_def)
  have nf: "\<not> pq_full N q" using pq_tests(2) [OF ok] room by simp
  have h: "unat (pq_head q mod N) = unat (pq_head q)" using b by (simp add: unat_mod)
  have nx: "unat ((pq_head q + 1) mod N) = (unat (pq_head q) + 1) mod unat N"
    using unat_next [of N "pq_head q" 1] b by simp
  define q' where "q' = q\<lparr> pq_queue := (pq_queue q)[unat (pq_head q mod N) := p], pq_head := (pq_head q + 1) mod N \<rparr>"
  have add: "pq_add N p q = (True, q')" using nf by (simp add: pq_add_def q'_def Let_def)
  have "rb_count (pq_ring q) < rb_size (pq_ring q) - 1"
    using room rb_count_bound [OF pq_ring_ok [OF ok]] b by (simp add: length_contents pq_ring_def)
  then obtain r' where r': "rb_add p (pq_ring q) = (False, r')" "rb_contents r' = rb_contents (pq_ring q) @ [p]"
    using rb_add_contents [OF pq_ring_ok [OF ok]] by blast
  have "rb_contents (pq_ring q') = rb_contents r'"
    using r'(1) b by (auto simp: rb_add_def pq_ring_def q'_def h nx Let_def rb_contents_def rb_count_def split: if_splits)
  moreover have "pq_ok N q'" using ok b by (simp add: pq_ok_def q'_def nx)
  ultimately show ?thesis using that [of q'] add r'(2) by (simp add: pq_contents_def q'_def)
qed

lemma pq_get_contents:
  assumes ok: "pq_ok N q" and c: "pq_contents q = p # ps"
  obtains q' where "pq_get N q = (p, q')" "pq_ok N q'" "pq_contents q' = ps" "pq_head q' = pq_head q"
proof -
  have b: "2 \<le> unat N" "unat N < 2 ^ 31" "length (pq_queue q) = unat N" "unat (pq_tail q) < unat N"
    using ok by (simp_all add: pq_ok_def)
  have t: "unat (pq_tail q mod N) = unat (pq_tail q)" using b by (simp add: unat_mod)
  have nx: "unat ((pq_tail q + 1) mod N) = (unat (pq_tail q) + 1) mod unat N"
    using unat_next [of N "pq_tail q" 1] b by simp
  define q' where "q' = q\<lparr> pq_tail := (pq_tail q + 1) mod N \<rparr>"
  obtain r' where r': "rb_get False (pq_ring q) = Some (p, r')" "rb_contents r' = ps"
    using rb_get_contents [OF pq_ring_ok [OF ok], of p ps False] c by (auto simp: pq_contents_def)
  have "pq_ring q' = r'" using r'(1) b by (auto simp: rb_get_def pq_ring_def q'_def nx)
  moreover have "pq_get N q = (p, q')" using r'(1) by (auto simp: rb_get_def pq_get_def pq_ring_def q'_def t)
  moreover have "pq_ok N q'" using ok b by (simp add: pq_ok_def q'_def nx)
  ultimately show ?thesis using that [of q'] r'(2) by (simp add: pq_contents_def q'_def)
qed

end
