(* ===== verification/Packet_Stream.thy ===== *)
theory Packet_Stream
  imports Packet_Queue
begin

text \<open>
  The flow control of a packet stream: a transmitter and a receiver in two components share a queue and
  wake each other by signals.  The steps are the accesses to the shared queue and the signal operations
  of \<open>tx\<close> and \<open>rx\<close>; the locks of both sides make each of them sequential, so the state of a side is the
  point it has reached.  A signal receiver counts what was submitted, and a wait takes all of it.
\<close>

section \<open>The two sides\<close>

datatype 'p tx_point =
    Tx_idle
  | Tx_check 'p         \<comment> \<open>is the queue full?\<close>
  | Tx_wait 'p          \<comment> \<open>blocked in \<open>_tx_ready.wait_for_signal\<close>\<close>
  | Tx_add 'p           \<comment> \<open>the condition of the loop\<close>
  | Tx_notify           \<comment> \<open>is a single element in the queue?\<close>

datatype rx_point =
    Rx_idle
  | Rx_check            \<comment> \<open>is the queue empty?\<close>
  | Rx_wait             \<comment> \<open>blocked in \<open>_rx_ready.wait_for_signal\<close>\<close>
  | Rx_get
  | Rx_notify           \<comment> \<open>is a single slot free?\<close>

record 'p stream =
  st_queue :: "'p packet_queue"
  st_tx :: "'p tx_point"
  st_rx :: rx_point
  st_tx_ready :: nat
  st_rx_ready :: nat
  st_out :: "'p list"

text \<open>
  \<open>tx\<close>, one step at a time; \<open>None\<close> while it is blocked or idle.  \<open>st_out\<close> holds what \<open>rx\<close> has delivered to
  its callers, the latest first.
\<close>

fun tx_step :: "u32 \<Rightarrow> 'p stream \<Rightarrow> 'p stream option" where
  "tx_step N s =
     (case st_tx s of
        Tx_idle \<Rightarrow> None
      | Tx_check p \<Rightarrow> Some (s\<lparr> st_tx := (if pq_full N (st_queue s) then Tx_wait p else Tx_add p) \<rparr>)
      | Tx_wait p \<Rightarrow> if st_tx_ready s > 0 then Some (s\<lparr> st_tx := Tx_add p, st_tx_ready := 0 \<rparr>) else None
      | Tx_add p \<Rightarrow>
          (let (ok, q) = pq_add N p (st_queue s)
           in Some (s\<lparr> st_queue := q, st_tx := (if ok then Tx_notify else Tx_check p) \<rparr>))
      | Tx_notify \<Rightarrow>
          Some (s\<lparr> st_tx := Tx_idle,
                   st_rx_ready := st_rx_ready s + (if pq_single_element N (st_queue s) then 1 else 0) \<rparr>))"

fun rx_step :: "u32 \<Rightarrow> 'p stream \<Rightarrow> 'p stream option" where
  "rx_step N s =
     (case st_rx s of
        Rx_idle \<Rightarrow> None
      | Rx_check \<Rightarrow> Some (s\<lparr> st_rx := (if pq_empty (st_queue s) then Rx_wait else Rx_get) \<rparr>)
      | Rx_wait \<Rightarrow> if st_rx_ready s > 0 then Some (s\<lparr> st_rx := Rx_check, st_rx_ready := 0 \<rparr>) else None
      | Rx_get \<Rightarrow>
          (let (p, q) = pq_get N (st_queue s)
           in Some (s\<lparr> st_queue := q, st_rx := Rx_notify, st_out := p # st_out s \<rparr>))
      | Rx_notify \<Rightarrow>
          Some (s\<lparr> st_rx := Rx_idle,
                   st_tx_ready := st_tx_ready s + (if pq_single_slot_free N (st_queue s) then 1 else 0) \<rparr>))"

text \<open>
  What does not block: the tests of both sides, and registering the signal handler of the other side, which
  sends a signal at once if the queue holds packets already.
\<close>

definition ready_for_tx :: "u32 \<Rightarrow> 'p stream \<Rightarrow> bool" where
  "ready_for_tx N s \<longleftrightarrow> \<not> pq_full N (st_queue s)"

definition ready_for_rx :: "'p stream \<Rightarrow> bool" where
  "ready_for_rx s \<longleftrightarrow> \<not> pq_empty (st_queue s)"

definition tx_slots_free :: "u32 \<Rightarrow> 'p stream \<Rightarrow> u32" where
  "tx_slots_free N s = pq_slots_free N (st_queue s)"

definition rx_peek :: "u32 \<Rightarrow> 'p stream \<Rightarrow> 'p" where
  "rx_peek N s = pq_peek N (st_queue s)"

definition register_rx_ready_cap :: "'p stream \<Rightarrow> 'p stream" where
  "register_rx_ready_cap s = s\<lparr> st_rx_ready := st_rx_ready s + (if \<not> pq_empty (st_queue s) then 1 else 0) \<rparr>"

definition register_tx_ready_cap :: "'p stream \<Rightarrow> 'p stream" where
  "register_tx_ready_cap s = s\<lparr> st_tx_ready := st_tx_ready s + (if \<not> pq_empty (st_queue s) then 1 else 0) \<rparr>"

text \<open>The callers start \<open>tx\<close> and \<open>rx\<close> at any time; the list collects what was handed to \<open>tx\<close>, the latest first.\<close>

inductive stream_step :: "u32 \<Rightarrow> 'p stream \<times> 'p list \<Rightarrow> 'p stream \<times> 'p list \<Rightarrow> bool" for N where
  call_tx: "st_tx s = Tx_idle \<Longrightarrow> stream_step N (s, sent) (s\<lparr> st_tx := Tx_check p \<rparr>, p # sent)"
| call_rx: "st_rx s = Rx_idle \<Longrightarrow> stream_step N (s, sent) (s\<lparr> st_rx := Rx_check \<rparr>, sent)"
| tx: "tx_step N s = Some s' \<Longrightarrow> stream_step N (s, sent) (s', sent)"
| rx: "rx_step N s = Some s' \<Longrightarrow> stream_step N (s, sent) (s', sent)"
| register_rx: "stream_step N (s, sent) (register_rx_ready_cap s, sent)"
| register_tx: "stream_step N (s, sent) (register_tx_ready_cap s, sent)"

definition stream_start :: "u32 \<Rightarrow> 'p \<Rightarrow> 'p packet_queue \<Rightarrow> 'p stream" where
  "stream_start N z q = \<lparr> st_queue = pq_construct N z CONSUMER (pq_construct N z PRODUCER q),
     st_tx = Tx_idle, st_rx = Rx_idle, st_tx_ready = 0, st_rx_ready = 0, st_out = [] \<rparr>"

inductive stream_reach :: "u32 \<Rightarrow> 'p stream \<times> 'p list \<Rightarrow> bool" for N where
  start: "2 \<le> unat N \<Longrightarrow> unat N < 2 ^ 31 \<Longrightarrow> stream_reach N (stream_start N z q, [])"
| step: "stream_reach N c \<Longrightarrow> stream_step N c c' \<Longrightarrow> stream_reach N c'"


section \<open>The invariant\<close>

definition tx_held :: "'p tx_point \<Rightarrow> 'p list" where
  "tx_held t = (case t of Tx_check p \<Rightarrow> [p] | Tx_wait p \<Rightarrow> [p] | Tx_add p \<Rightarrow> [p] | _ \<Rightarrow> [])"

text \<open>
  Nothing is lost: what was sent is what was delivered, what is in the queue and what \<open>tx\<close> still holds.
  A side that is blocked although it could go on has a signal pending, or the other side is about to send
  one.
\<close>

definition stream_inv :: "u32 \<Rightarrow> 'p stream \<times> 'p list \<Rightarrow> bool" where
  "stream_inv N c \<longleftrightarrow>
     (case c of (s, sent) \<Rightarrow>
        pq_ok N (st_queue s)
        \<and> rev sent = rev (st_out s) @ pq_contents (st_queue s) @ tx_held (st_tx s)
        \<and> (st_rx s = Rx_get \<longrightarrow> pq_contents (st_queue s) \<noteq> [])
        \<and> (st_rx s = Rx_wait \<and> pq_contents (st_queue s) \<noteq> [] \<longrightarrow>
             st_rx_ready s > 0 \<or> (st_tx s = Tx_notify \<and> length (pq_contents (st_queue s)) = 1))
        \<and> ((\<exists>p. st_tx s = Tx_wait p) \<and> length (pq_contents (st_queue s)) \<noteq> unat N - 1 \<longrightarrow>
             st_tx_ready s > 0 \<or> (st_rx s = Rx_notify \<and> length (pq_contents (st_queue s)) = unat N - 2)))"

lemma contents_bound: "pq_ok N q \<Longrightarrow> length (pq_contents q) \<le> unat N - 1"
  using rb_count_bound [OF pq_ring_ok] by (fastforce simp: length_contents pq_ring_def pq_ok_def)

lemma start_inv: "2 \<le> unat N \<Longrightarrow> unat N < 2 ^ 31 \<Longrightarrow> stream_inv N (stream_start N z q, [])"
  by (simp add: stream_inv_def stream_start_def pq_new_ok tx_held_def)

lemma tx_inv:
  assumes inv: "stream_inv N (s, sent)" and st: "tx_step N s = Some s'"
  shows "stream_inv N (s', sent)"
proof -
  have ok: "pq_ok N (st_queue s)" using inv by (simp add: stream_inv_def)
  note tests = pq_tests [OF ok]
  show ?thesis
  proof (cases "st_tx s")
    case (Tx_add p)
    show ?thesis
    proof (cases "length (pq_contents (st_queue s)) = unat N - 1")
      case True
      then have "pq_add N p (st_queue s) = (False, st_queue s)" using tests(2) by (simp add: pq_add_def)
      then show ?thesis using st inv Tx_add by (auto simp: stream_inv_def tx_held_def)
    next
      case False
      then obtain q' where q': "pq_add N p (st_queue s) = (True, q')" "pq_ok N q'"
        "pq_contents q' = pq_contents (st_queue s) @ [p]" by (rule pq_add_contents [OF ok])
      then have s': "s' = s\<lparr> st_queue := q', st_tx := Tx_notify \<rparr>" using st Tx_add by simp
      show ?thesis using inv q' Tx_add unfolding stream_inv_def s' by (auto simp: tx_held_def)
    qed
  next
    case (Tx_check p)
    then have s': "s' = s\<lparr> st_tx := (if pq_full N (st_queue s) then Tx_wait p else Tx_add p) \<rparr>" using st by simp
    show ?thesis using inv Tx_check tests(2) unfolding stream_inv_def s' by (auto simp: tx_held_def)
  next
    case (Tx_wait p)
    then have s': "s' = s\<lparr> st_tx := Tx_add p, st_tx_ready := 0 \<rparr>" using st by (simp split: if_splits)
    show ?thesis using inv Tx_wait unfolding stream_inv_def s' by (auto simp: tx_held_def)
  next
    case Tx_notify
    then have s': "s' = s\<lparr> st_tx := Tx_idle,
        st_rx_ready := st_rx_ready s + (if pq_single_element N (st_queue s) then 1 else 0) \<rparr>" using st by simp
    show ?thesis using inv Tx_notify tests(3) unfolding stream_inv_def s' by (auto simp: tx_held_def)
  qed (use st in simp)
qed

lemma rx_inv:
  assumes inv: "stream_inv N (s, sent)" and st: "rx_step N s = Some s'"
  shows "stream_inv N (s', sent)"
proof -
  have ok: "pq_ok N (st_queue s)" using inv by (simp add: stream_inv_def)
  have N: "2 \<le> unat N" using ok by (simp add: pq_ok_def)
  note tests = pq_tests [OF ok]
  show ?thesis
  proof (cases "st_rx s")
    case Rx_get
    then obtain p ps where c: "pq_contents (st_queue s) = p # ps" using inv by (auto simp: stream_inv_def neq_Nil_conv)
    then obtain q' where q': "pq_get N (st_queue s) = (p, q')" "pq_ok N q'" "pq_contents q' = ps"
      by (rule pq_get_contents [OF ok])
    have s': "s' = s\<lparr> st_queue := q', st_rx := Rx_notify, st_out := p # st_out s \<rparr>" using st Rx_get q'(1) by simp
    have b: "length ps + 1 \<le> unat N - 1" using contents_bound [OF ok] c by simp
    have "length ps \<noteq> unat N - 2 \<Longrightarrow> length (p # ps) \<noteq> unat N - 1" using N by simp
    then show ?thesis using inv q' Rx_get c b unfolding stream_inv_def s' by (auto simp: tx_held_def)
  next
    case Rx_check
    then have s': "s' = s\<lparr> st_rx := (if pq_empty (st_queue s) then Rx_wait else Rx_get) \<rparr>" using st by simp
    show ?thesis using inv Rx_check tests(1) unfolding stream_inv_def s' by auto
  next
    case Rx_wait
    then have s': "s' = s\<lparr> st_rx := Rx_check, st_rx_ready := 0 \<rparr>" using st by (simp split: if_splits)
    show ?thesis using inv Rx_wait unfolding stream_inv_def s' by auto
  next
    case Rx_notify
    then have s': "s' = s\<lparr> st_rx := Rx_idle,
        st_tx_ready := st_tx_ready s + (if pq_single_slot_free N (st_queue s) then 1 else 0) \<rparr>" using st by simp
    show ?thesis using inv Rx_notify tests(4) unfolding stream_inv_def s' by auto
  qed (use st in simp)
qed

lemma reach_inv: "stream_reach N c \<Longrightarrow> stream_inv N c"
proof (induction rule: stream_reach.induct)
  case (start z q)
  then show ?case by (rule start_inv)
next
  case (step c c')
  from step.hyps(2) show ?case
  proof cases
    case (call_tx s sent p)
    then show ?thesis using step.IH by (auto simp: stream_inv_def tx_held_def)
  next
    case (call_rx s sent)
    then show ?thesis using step.IH by (auto simp: stream_inv_def)
  next
    case (tx s s' sent)
    then show ?thesis using step.IH tx_inv by blast
  next
    case (rx s s' sent)
    then show ?thesis using step.IH rx_inv by blast
  next
    case (register_rx s sent)
    then show ?thesis using step.IH by (auto simp: stream_inv_def register_rx_ready_cap_def)
  next
    case (register_tx s sent)
    then show ?thesis using step.IH by (auto simp: stream_inv_def register_tx_ready_cap_def)
  qed
qed

text \<open>
  C29  The stream is a bounded FIFO across two components: in every interleaving, what the receiver has
  delivered is a prefix of what was handed to the transmitter, in order and without loss or
  duplicates; the rest is in the queue or held by the blocked transmitter.
\<close>

theorem stream_fifo:
  assumes "stream_reach N (s, sent)"
  shows "rev sent = rev (st_out s) @ pq_contents (st_queue s) @ tx_held (st_tx s)
    \<and> length (pq_contents (st_queue s)) \<le> unat N - 1"
  using reach_inv [OF assms] contents_bound [of N "st_queue s"] by (simp add: stream_inv_def)

lemma stream_example:
  "\<exists>s. stream_reach 2 (s, [7, 5 :: nat]) \<and> st_out s = [5] \<and> st_rx s = Rx_wait \<and> st_tx s = Tx_notify
         \<and> pq_contents (st_queue s) = [7] \<and> rx_step 2 s = None"
proof -
  let ?s0 = "stream_start 2 (0 :: nat) \<lparr> pq_head = 1, pq_tail = 1, pq_queue = [] \<rparr>"
  have t: "stream_reach 2 (s, l) \<Longrightarrow> tx_step 2 s \<noteq> None \<Longrightarrow> stream_reach 2 (the (tx_step 2 s), l)"
    and r: "stream_reach 2 (s, l) \<Longrightarrow> rx_step 2 s \<noteq> None \<Longrightarrow> stream_reach 2 (the (rx_step 2 s), l)"
    for s :: "nat stream" and l
    by (auto intro: stream_reach.step [OF _ stream_step.tx] stream_reach.step [OF _ stream_step.rx] simp del: tx_step.simps rx_step.simps)
  have ct: "stream_reach 2 (s, l) \<Longrightarrow> st_tx s = Tx_idle \<Longrightarrow> stream_reach 2 (s\<lparr> st_tx := Tx_check p \<rparr>, p # l)"
    and cr: "stream_reach 2 (s, l) \<Longrightarrow> st_rx s = Rx_idle \<Longrightarrow> stream_reach 2 (s\<lparr> st_rx := Rx_check \<rparr>, l)"
    for s :: "nat stream" and l p by (auto intro: stream_reach.step stream_step.call_tx stream_step.call_rx)
  have 0: "stream_reach 2 (?s0, [])" by (rule stream_reach.start) simp_all
  let ?s1 = "?s0\<lparr> st_tx := Tx_check 5 \<rparr>"
  have 1: "stream_reach 2 (?s1, [5])" by (rule ct [OF 0]) (simp add: stream_start_def)
  let ?s2 = "the (tx_step 2 ?s1)" let ?s3 = "the (tx_step 2 ?s2)" let ?s4 = "the (tx_step 2 ?s3)"
  have 2: "stream_reach 2 (?s2, [5])" by (rule t [OF 1]) code_simp
  have 3: "stream_reach 2 (?s3, [5])" by (rule t [OF 2]) code_simp
  have 4: "stream_reach 2 (?s4, [5])" by (rule t [OF 3]) code_simp
  let ?s5 = "?s4\<lparr> st_rx := Rx_check \<rparr>"
  have 5: "stream_reach 2 (?s5, [5])" by (rule cr [OF 4]) code_simp
  let ?s6 = "the (rx_step 2 ?s5)" let ?s7 = "the (rx_step 2 ?s6)" let ?s8 = "the (rx_step 2 ?s7)"
  have 6: "stream_reach 2 (?s6, [5])" by (rule r [OF 5]) code_simp
  have 7: "stream_reach 2 (?s7, [5])" by (rule r [OF 6]) code_simp
  have 8: "stream_reach 2 (?s8, [5])" by (rule r [OF 7]) code_simp
  let ?s9 = "?s8\<lparr> st_rx := Rx_check \<rparr>"
  have 9: "stream_reach 2 (?s9, [5])" by (rule cr [OF 8]) code_simp
  let ?s10 = "the (rx_step 2 ?s9)" let ?s11 = "the (rx_step 2 ?s10)" let ?s12 = "the (rx_step 2 ?s11)"
  have 10: "stream_reach 2 (?s10, [5])" by (rule r [OF 9]) code_simp
  have 11: "stream_reach 2 (?s11, [5])" by (rule r [OF 10]) code_simp
  have 12: "stream_reach 2 (?s12, [5])" by (rule r [OF 11]) code_simp
  let ?s13 = "?s12\<lparr> st_tx := Tx_check 7 \<rparr>"
  have 13: "stream_reach 2 (?s13, [7, 5])" by (rule ct [OF 12]) code_simp
  let ?s14 = "the (tx_step 2 ?s13)" let ?s15 = "the (tx_step 2 ?s14)"
  have 14: "stream_reach 2 (?s14, [7, 5])" by (rule t [OF 13]) code_simp
  have 15: "stream_reach 2 (?s15, [7, 5])" by (rule t [OF 14]) code_simp
  have "st_out ?s15 = [5] \<and> st_rx ?s15 = Rx_wait \<and> st_tx ?s15 = Tx_notify \<and> pq_contents (st_queue ?s15) = [7]
      \<and> rx_step 2 ?s15 = None"
    by code_simp
  with 15 show ?thesis by blast
qed

theorem stream_fifo_witness:
  "\<exists>s. stream_reach 2 (s, [7, 5 :: nat]) \<and> [5, 7] = [5] @ pq_contents (st_queue s) @ tx_held (st_tx s)"
proof -
  obtain s where s: "stream_reach 2 (s, [7, 5 :: nat])" "st_out s = [5]" using stream_example by blast
  with stream_fifo [OF s(1)] show ?thesis by (intro exI [of _ s]) simp
qed




end
