(* ===== verification/Packet_Allocator.thy ===== *)
theory Packet_Allocator
  imports Packet_Queue Bit_Array
begin

text \<open>
  The packet allocator (\<open>os/include/os/packet_allocator.h\<close>): the bulk buffer of a packet stream in blocks
  of equal size, managed with one bit per block, and the packets of a stream source on top of it.  The
  metadata allocator is a parameter: what its calls return.
\<close>

section \<open>The allocator\<close>

record packet_allocator =
  pa_block_size :: size
  pa_bits :: addr
  pa_array :: "addr list option"
  pa_base :: addr
  pa_next :: addr

datatype pa_error = Md_out_of_memory | Md_array_error bit_error

definition pa_new :: "size \<Rightarrow> packet_allocator" where
  "pa_new block_size = \<lparr> pa_block_size = block_size, pa_bits = 0, pa_array = None, pa_base = 0, pa_next = 0 \<rparr>"

definition pa_block_cnt :: "size \<Rightarrow> packet_allocator \<Rightarrow> size" where
  "pa_block_cnt bytes s = (let bytes = bytes div pa_block_size s in bytes - bytes mod (8 * 8))"

text \<open>
  \<open>add_range\<close>: \<open>chunk\<close> is the memory for the bits with its contents, \<open>None\<close> if the metadata allocator throws;
  \<open>obj\<close> tells if the memory for the array object can be had.
\<close>

definition pa_add_range :: "(addr \<times> addr list) option \<Rightarrow> bool \<Rightarrow> addr \<Rightarrow> size \<Rightarrow> packet_allocator \<Rightarrow> (pa_error + int) \<times> packet_allocator" where
  "pa_add_range chunk obj base sz s =
     (if pa_base s \<noteq> 0 \<or> pa_array s \<noteq> None then (Inr (-1), s)
      else
        (let s = s\<lparr> pa_base := base \<rparr> in
         case chunk of
           None \<Rightarrow> (Inl Md_out_of_memory, s)
         | Some (bits, mem) \<Rightarrow>
             (let s = s\<lparr> pa_bits := bits \<rparr> in
              if \<not> obj then (Inl Md_out_of_memory, s)
              else
                (case bit_array_new (ucast (pa_block_cnt sz s)) mem True of
                   Inl e \<Rightarrow> (Inl (Md_array_error e), s)
                 | Inr ws \<Rightarrow> (Inr 0, s\<lparr> pa_array := Some ws \<rparr>)))))"

text \<open>\<open>remove_range\<close>, with the block and the size given back to the metadata allocator.\<close>

definition pa_remove_range :: "addr \<Rightarrow> size \<Rightarrow> packet_allocator \<Rightarrow> int \<times> (addr \<times> size) option \<times> packet_allocator" where
  "pa_remove_range base sz s =
     (if pa_base s \<noteq> base then (-1, None, s)
      else
        (let s = s\<lparr> pa_base := 0, pa_next := 0 \<rparr>;
             s = s\<lparr> pa_array := None \<rparr>
         in if pa_bits s \<noteq> 0 then (0, Some (pa_bits s, pa_block_cnt sz s div 8), s\<lparr> pa_bits := 0 \<rparr>)
            else (0, None, s)))"

definition pa_cnt :: "size \<Rightarrow> packet_allocator \<Rightarrow> addr" where
  "pa_cnt sz s = (if sz mod pa_block_size s \<noteq> 0 then sz div pa_block_size s + 1 else sz div pa_block_size s)"

text \<open>
  \<open>alloc\<close>: one round is the loop \<open>scan_free\<close> of the bit allocator, that is, it ends with an index or when
  the array throws.  The range of \<open>i\<close> has just been found to be free, so \<open>set\<close> cannot throw.
\<close>

definition pa_take :: "addr \<Rightarrow> addr \<Rightarrow> addr list \<Rightarrow> packet_allocator \<Rightarrow> addr option \<times> packet_allocator" where
  "pa_take i cnt ws s =
     (Some (i * pa_block_size s + pa_base s), s\<lparr> pa_array := Some (snd (bit_array_set ws i cnt)), pa_next := i + cnt \<rparr>)"

definition pa_alloc :: "size \<Rightarrow> packet_allocator \<Rightarrow> (addr option \<times> packet_allocator) option" where
  "pa_alloc sz s =
     (let cnt = pa_cnt sz s in
      case pa_array s of
        None \<Rightarrow> None
      | Some ws \<Rightarrow>
        (case scan_free ws cnt (pa_next s AND NOT (cnt - 1)) (NOT 0) of
           None \<Rightarrow> None
         | Some (Some i) \<Rightarrow> Some (pa_take i cnt ws s)
         | Some None \<Rightarrow>
             if pa_next s = 0 then Some (None, s)
             else
               (let max_i = pa_next s; s = s\<lparr> pa_next := 0 \<rparr> in
                case scan_free ws cnt 0 max_i of
                  None \<Rightarrow> None
                | Some (Some i) \<Rightarrow> Some (pa_take i cnt ws s)
                | Some None \<Rightarrow> Some (None, s))))"

definition pa_free :: "addr \<Rightarrow> size \<Rightarrow> packet_allocator \<Rightarrow> packet_allocator option" where
  "pa_free a sz s =
     (let i = (a - pa_base s) div pa_block_size s; cnt = pa_cnt sz s in
      case pa_array s of
        None \<Rightarrow> None
      | Some ws \<Rightarrow> Some (s\<lparr> pa_array := Some (snd (bit_array_clear ws i cnt)), pa_next := i \<rparr>))"


section \<open>The packets of a source\<close>

record packet_source =
  src_base :: stream_base
  src_alloc :: packet_allocator

text \<open>The constructor hands the bulk buffer to the allocator; the answer of \<open>add_range\<close> is not looked at.\<close>

definition source_new ::
  "addr \<Rightarrow> size \<Rightarrow> size \<Rightarrow> size \<Rightarrow> (addr \<times> addr list) option \<Rightarrow> bool \<Rightarrow> packet_allocator \<Rightarrow> packet_source option" where
  "source_new ds_local_base ds_size submit_size ack_size chunk obj pa =
     (case stream_new ds_local_base ds_size submit_size ack_size of
        None \<Rightarrow> None
      | Some b \<Rightarrow>
          (case pa_add_range chunk obj (sb_bulk_buffer_offset b) (sb_bulk_buffer_size b) pa of
             (Inl _, _) \<Rightarrow> None
           | (Inr _, pa) \<Rightarrow> Some \<lparr> src_base = b, src_alloc = pa \<rparr>))"

text \<open>\<open>alloc_packet\<close>: \<open>Some (None, _)\<close> is the exception \<open>Packet_alloc_failed\<close>.\<close>

definition alloc_packet :: "size \<Rightarrow> packet_source \<Rightarrow> (packet_descriptor option \<times> packet_source) option" where
  "alloc_packet sz s =
     (if sz = 0 then Some (Some no_packet, s)
      else
        (case pa_alloc sz (src_alloc s) of
           None \<Rightarrow> None
         | Some (None, pa) \<Rightarrow> Some (None, s\<lparr> src_alloc := pa \<rparr>)
         | Some (Some base, pa) \<Rightarrow> Some (Some \<lparr> pd_offset = base, pd_size = sz \<rparr>, s\<lparr> src_alloc := pa \<rparr>)))"

definition release_packet :: "packet_descriptor \<Rightarrow> packet_source \<Rightarrow> packet_source option" where
  "release_packet packet s =
     (if pd_size packet = 0 then Some s
      else map_option (\<lambda>pa. s\<lparr> src_alloc := pa \<rparr>) (pa_free (pd_offset packet) (pd_size packet) (src_alloc s)))"


section \<open>The search for a free run\<close>

text \<open>A run of free bits, at any position.\<close>

definition free_run :: "addr list \<Rightarrow> nat \<Rightarrow> nat \<Rightarrow> bool" where
  "free_run ws k i \<longleftrightarrow> i + k \<le> bit_len ws \<and> (\<forall>j. i \<le> j \<and> j < i + k \<longrightarrow> \<not> bit_at ws j)"

lemma free_run_sub: "free_run ws k i \<Longrightarrow> i \<le> j \<Longrightarrow> j + m \<le> i + k \<Longrightarrow> free_run ws m j"
  by (auto simp: free_run_def)

lemma get_free_run:
  assumes "bit_len ws < 2 ^ 64" "0 < unat w"
  shows "bit_array_get ws i w =
    (if unat i + unat w \<le> bit_len ws then Inr (\<not> free_run ws (unat w) (unat i)) else Inl Invalid_index_access)"
  using assms by (auto simp: get_correct free_run_def in_bits_def)

text \<open>A round visits the grid of the multiples of \<open>step\<close> from its start on.\<close>

lemma scan_run:
  assumes len: "bit_len ws < 2 ^ 64" and step: "0 < unat step"
  shows "case scan_free ws step i max_i of
      None \<Rightarrow> False
    | Some None \<Rightarrow> \<forall>n. unat i + n * unat step < unat max_i \<longrightarrow> \<not> free_run ws (unat step) (unat i + n * unat step)
    | Some (Some r) \<Rightarrow> unat i \<le> unat r \<and> r < max_i \<and> free_run ws (unat step) (unat r)"
proof (induction "bit_len ws - unat i" arbitrary: i rule: less_induct)
  case less
  note g = get_free_run [OF len step, of i]
  consider (out) "\<not> (i < max_i \<and> unat i + unat step \<le> bit_len ws)"
    | (found) "i < max_i" "unat i + unat step \<le> bit_len ws" "free_run ws (unat step) (unat i)"
    | (used) "i < max_i" "unat i + unat step \<le> bit_len ws" "\<not> free_run ws (unat step) (unat i)" by blast
  then show ?case
  proof cases
    case out
    then have "scan_free ws step i max_i = Some None" using g by (subst scan_free.simps) auto
    moreover have "\<not> free_run ws (unat step) (unat i + n * unat step)" if "unat i + n * unat step < unat max_i" for n
    proof -
      from that have "unat i < unat max_i" by linarith
      with out have "\<not> unat i + unat step \<le> bit_len ws" by (simp add: word_less_nat_alt)
      then show ?thesis by (simp add: free_run_def)
    qed
    ultimately show ?thesis by simp
  next
    case found
    then have "scan_free ws step i max_i = Some (Some i)" using g by (subst scan_free.simps) simp
    with found show ?thesis by simp
  next
    case used
    have eq: "scan_free ws step i max_i = scan_free ws step (i + step) max_i"
      using used g by (subst scan_free.simps) simp
    have u: "unat (i + step) = unat i + unat step" using used len by (intro unat_add_no_wrap) simp
    have "\<not> free_run ws (unat step) (unat i + n * unat step)"
      if "\<forall>n. unat i + unat step + n * unat step < unat max_i \<longrightarrow> \<not> free_run ws (unat step) (unat i + unat step + n * unat step)"
        "unat i + n * unat step < unat max_i" for n
      using that used(3) by (cases n) (auto simp: add.assoc)
    moreover have "bit_len ws - unat (i + step) < bit_len ws - unat i" using used u step by linarith
    ultimately show ?thesis
      using less [of "i + step"] unfolding eq u by (auto split: option.splits)
  qed
qed

text \<open>A run of \<open>2 k - 1\<close> free bits contains a whole cell of any grid of step \<open>k\<close> that starts in front of it.\<close>

lemma grid_in_run:
  assumes f: "free_run ws (2 * k - 1) p" and k: "0 < k" and i: "i \<le> p"
  obtains n where "p \<le> i + n * k" "i + n * k < p + k" "free_run ws k (i + n * k)"
proof -
  define n where "n = (p - i + (k - 1)) div k"
  have e: "n * k + (p - i + (k - 1)) mod k = p - i + (k - 1)" unfolding n_def by simp
  have "(p - i + (k - 1)) mod k < k" using k by simp
  with e i k have b: "p \<le> i + n * k" "i + n * k < p + k" by linarith+
  with k have "i + n * k + k \<le> p + (2 * k - 1)" by linarith
  then have "free_run ws k (i + n * k)" using free_run_sub [OF f b(1)] by blast
  then show ?thesis using that b by blast
qed

lemma bits_taken_run:
  assumes "bit_len ws < 2 ^ 64" "0 < unat cnt" "free_run ws (unat cnt) (unat i)"
  shows "bits_taken ws (unat i) (unat cnt) (snd (bit_array_set ws i cnt))"
proof -
  have r: "unat i < bit_len ws" "unat i + unat cnt \<le> bit_len ws" "\<forall>j. in_bits i cnt j \<longrightarrow> bit_at ws j = False"
    using assms(2,3) by (auto simp: free_run_def in_bits_def)
  obtain ws' where "set_bits ws i cnt False = (None, ws')" "length ws' = length ws"
    "\<And>j. j < bit_len ws \<Longrightarrow> bit_at ws' j = (if in_bits i cnt j then \<not> False else bit_at ws j)"
    using set_bits_ok [OF assms(1) r] by metis
  then show ?thesis by (auto simp: bit_array_set_def bits_taken_def in_bits_def)
qed

text \<open>What one call of \<open>alloc\<close> does, on the bits.\<close>

definition pa_alloc_spec :: "nat \<Rightarrow> addr list \<Rightarrow> packet_allocator \<Rightarrow> addr option \<Rightarrow> packet_allocator \<Rightarrow> bool" where
  "pa_alloc_spec k ws s r s' \<longleftrightarrow>
     pa_base s' = pa_base s \<and> pa_block_size s' = pa_block_size s \<and> pa_bits s' = pa_bits s
     \<and> (case r of
          Some a \<Rightarrow> \<exists>i ws'. a = i * pa_block_size s + pa_base s \<and> free_run ws k (unat i)
                      \<and> pa_array s' = Some ws' \<and> bits_taken ws (unat i) k ws' \<and> unat (pa_next s') = unat i + k
        | None \<Rightarrow> pa_array s' = Some ws \<and> (\<forall>p. \<not> free_run ws (2 * k - 1) p))"

lemma pa_take_spec:
  assumes "bit_len ws < 2 ^ 64" "0 < unat cnt" "free_run ws (unat cnt) (unat i)" "pa_array s = Some ws"
  shows "pa_alloc_spec (unat cnt) ws s (fst (pa_take i cnt ws (s\<lparr> pa_next := n \<rparr>))) (snd (pa_take i cnt ws (s\<lparr> pa_next := n \<rparr>)))"
proof -
  have "unat (i + cnt) = unat i + unat cnt" using assms by (intro unat_add_no_wrap) (auto simp: free_run_def)
  then show ?thesis using bits_taken_run [OF assms(1-3)] assms(3) by (auto simp: pa_alloc_spec_def pa_take_def)
qed

lemma and_not_le: "unat (a AND NOT (b :: addr)) \<le> unat a"
  by (simp add: word_and_le2 flip: word_le_nat_alt)

lemma pa_alloc_result:
  assumes len: "bit_len ws < 2 ^ 64" and cnt: "0 < unat (pa_cnt sz s)" and ws: "pa_array s = Some ws"
  shows "\<exists>r s'. pa_alloc sz s = Some (r, s') \<and> pa_alloc_spec (unat (pa_cnt sz s)) ws s r s'"
proof -
  define c where "c = pa_cnt sz s"
  define st where "st = pa_next s AND NOT (c - 1)"
  have c: "0 < unat c" using cnt by (simp add: c_def)
  have st: "unat st \<le> unat (pa_next s)" by (simp add: st_def and_not_le)
  have max_i: "n < unat (NOT 0 :: addr)" if "free_run ws (unat c) n" for n
    using that len c by (simp add: free_run_def)
  note s1 = scan_run [OF len c, of st "NOT 0"] and s2 = scan_run [OF len c, of 0 "pa_next s"]
  have take: "pa_alloc_spec (unat c) ws s (fst (pa_take i c ws s)) (snd (pa_take i c ws s))"
    if "free_run ws (unat c) (unat i)" for i using pa_take_spec [OF len c that ws, of "pa_next s"] by simp
  consider (first) i where "scan_free ws c st (NOT 0) = Some (Some i)" "free_run ws (unat c) (unat i)"
    | (second) "scan_free ws c st (NOT 0) = Some None" "\<And>n. \<not> free_run ws (unat c) (unat st + n * unat c)"
    using s1 max_i by (auto split: option.splits)
  then show ?thesis
  proof cases
    case first
    then have "pa_alloc sz s = Some (pa_take i c ws s)" by (simp add: pa_alloc_def Let_def ws flip: c_def st_def)
    with take [OF first(2)] show ?thesis by (cases "pa_take i c ws s") (simp add: c_def)
  next
    case second
    have late: "\<not> free_run ws (2 * unat c - 1) p" if "unat st \<le> p" for p
      using grid_in_run [OF _ c that] second(2) by metis
    show ?thesis
    proof (cases "pa_next s = 0")
      case True
      moreover from this have "st = 0" by (simp add: st_def)
      ultimately have "pa_alloc sz s = Some (None, s)" using second(1) by (simp add: pa_alloc_def Let_def ws flip: c_def)
      then show ?thesis using late st True ws by (auto simp: pa_alloc_spec_def c_def)
    next
      case False
      consider (found) i where "scan_free ws c 0 (pa_next s) = Some (Some i)" "free_run ws (unat c) (unat i)"
        | (none) "scan_free ws c 0 (pa_next s) = Some None"
          "\<And>n. n * unat c < unat (pa_next s) \<Longrightarrow> \<not> free_run ws (unat c) (n * unat c)"
        using s2 by (auto split: option.splits)
      then show ?thesis
      proof cases
        case found
        then have "pa_alloc sz s = Some (pa_take i c ws (s\<lparr> pa_next := 0 \<rparr>))"
          using second(1) False by (simp add: pa_alloc_def Let_def ws flip: c_def st_def)
        with pa_take_spec [OF len c found(2) ws, of 0] show ?thesis
          by (cases "pa_take i c ws (s\<lparr> pa_next := 0 \<rparr>)") (simp add: c_def)
      next
        case none
        have "\<not> free_run ws (2 * unat c - 1) p" for p
        proof
          assume f: "free_run ws (2 * unat c - 1) p"
          then have p: "p < unat st" using late by (metis not_le)
          obtain n where n: "p \<le> 0 + n * unat c" "0 + n * unat c < p + unat c" "free_run ws (unat c) (0 + n * unat c)"
            using grid_in_run [OF f c] by (metis le0)
          then have "unat (pa_next s) \<le> n * unat c" using none(2) by (metis add_0 not_le)
          then have "unat st + unat c \<le> p + (2 * unat c - 1)" using st n(2) c by linarith
          then have "free_run ws (unat c) (unat st + 0 * unat c)" using free_run_sub [OF f] p by simp
          then show False using second(2) by blast
        qed
        moreover have "pa_alloc sz s = Some (None, s\<lparr> pa_next := 0 \<rparr>)"
          using none(1) second(1) False by (simp add: pa_alloc_def Let_def ws flip: c_def st_def)
        ultimately show ?thesis by (simp add: pa_alloc_spec_def ws c_def)
      qed
    qed
  qed
qed


section \<open>Packets in flight\<close>

text \<open>\<open>cells\<close>: the blocks of a packet.\<close>

definition cells :: "packet_allocator \<Rightarrow> packet_descriptor \<Rightarrow> nat set" where
  "cells s p = {j. unat ((pd_offset p - pa_base s) div pa_block_size s) \<le> j
                   \<and> j < unat ((pd_offset p - pa_base s) div pa_block_size s) + unat (pa_cnt (pd_size p) s)}"

definition packet_at :: "packet_allocator \<Rightarrow> nat \<Rightarrow> packet_descriptor \<Rightarrow> nat \<Rightarrow> bool" where
  "packet_at s n p i \<longleftrightarrow> unat (pd_offset p) = unat (pa_base s) + i * unat (pa_block_size s)
     \<and> i + unat (pa_cnt (pd_size p) s) \<le> n \<and> pd_size p \<noteq> 0"

text \<open>The allocator over a bulk buffer: its blocks fit, and its bits are the blocks of the live packets.\<close>

definition source_ok :: "packet_source \<Rightarrow> bool" where
  "source_ok s \<longleftrightarrow>
     (let b = src_base s; a = src_alloc s in
        0 < unat (pa_block_size a)
        \<and> pa_base a = sb_bulk_buffer_offset b
        \<and> unat (sb_bulk_buffer_offset b) + unat (sb_bulk_buffer_size b) < 2 ^ 63
        \<and> (\<exists>ws. pa_array a = Some ws \<and> bit_len ws * unat (pa_block_size a) \<le> unat (sb_bulk_buffer_size b)))"

definition source_bits :: "packet_source \<Rightarrow> addr list" where
  "source_bits s = the (pa_array (src_alloc s))"

definition source_inv :: "packet_source \<Rightarrow> packet_descriptor set \<Rightarrow> bool" where
  "source_inv s live \<longleftrightarrow>
     source_ok s
     \<and> (\<forall>p\<in>live. \<exists>i. packet_at (src_alloc s) (bit_len (source_bits s)) p i)
     \<and> (\<forall>p\<in>live. \<forall>q\<in>live. p \<noteq> q \<longrightarrow> cells (src_alloc s) p \<inter> cells (src_alloc s) q = {})
     \<and> (\<forall>j < bit_len (source_bits s). bit_at (source_bits s) j \<longleftrightarrow> (\<exists>p\<in>live. j \<in> cells (src_alloc s) p))"

text \<open>Steps of a source; \<open>live\<close> are the packets that were allocated and not yet released.\<close>

inductive source_step :: "packet_source \<times> packet_descriptor set \<Rightarrow> packet_source \<times> packet_descriptor set \<Rightarrow> bool" where
  alloc: "alloc_packet sz s = Some (Some p, s') \<Longrightarrow> sz \<noteq> 0 \<Longrightarrow> source_step (s, live) (s', insert p live)"
| alloc_empty: "alloc_packet 0 s = Some (Some p, s') \<Longrightarrow> source_step (s, live) (s', live)"
| alloc_failed: "alloc_packet sz s = Some (None, s') \<Longrightarrow> source_step (s, live) (s', live)"
| release: "p \<in> live \<Longrightarrow> release_packet p s = Some s' \<Longrightarrow> source_step (s, live) (s', live - {p})"

definition source_reach :: "packet_source \<Rightarrow> packet_source \<times> packet_descriptor set \<Rightarrow> bool" where
  "source_reach s c \<longleftrightarrow> source_step\<^sup>*\<^sup>* (s, {}) c"

lemma pa_cnt_nat:
  assumes "0 < unat (pa_block_size s)"
  shows "unat sz \<le> unat (pa_cnt sz s) * unat (pa_block_size s)" and "sz \<noteq> 0 \<Longrightarrow> 0 < unat (pa_cnt sz s)"
proof -
  define b n where "b = unat (pa_block_size s)" and "n = unat sz"
  have e: "n = n div b * b + n mod b" by simp
  have lt: "n div b + 1 < 2 ^ 64" if "n mod b \<noteq> 0"
  proof -
    have "n div b * 1 \<le> n div b * b" using assms by (intro mult_le_mono2) (simp add: b_def)
    then have "n div b + 1 \<le> n" using e that by linarith
    then show ?thesis using unat_less_64 [of sz] by (simp add: n_def)
  qed
  have c: "unat (pa_cnt sz s) = (if n mod b \<noteq> 0 then n div b + 1 else n div b)"
  proof (cases "n mod b = 0")
    case True
    then have "sz mod pa_block_size s = 0" by (simp add: word_unat_eq_iff unat_mod b_def n_def)
    then show ?thesis using True by (simp add: pa_cnt_def unat_div b_def n_def)
  next
    case False
    then have "sz mod pa_block_size s \<noteq> 0" by (simp add: word_unat_eq_iff unat_mod b_def n_def)
    moreover have "unat (sz div pa_block_size s + 1) = n div b + 1"
      using lt [OF False] by (subst unat_add_no_wrap) (simp_all add: unat_div b_def n_def)
    ultimately show ?thesis using False by (simp add: pa_cnt_def)
  qed
  have "n mod b < b" using assms(1) by (simp add: b_def)
  moreover have "x \<le> (if r \<noteq> 0 then q + 1 else q) * b" if "x = q * b + r" "r < b" for x q r :: nat using that by auto
  ultimately have "n \<le> (if n mod b \<noteq> 0 then n div b + 1 else n div b) * b" using e by blast
  then show "unat sz \<le> unat (pa_cnt sz s) * unat (pa_block_size s)" unfolding c by (simp add: b_def n_def)
  have "n \<noteq> 0 \<Longrightarrow> n mod b = 0 \<Longrightarrow> 0 < n div b" using e by (metis add.right_neutral mult_zero_left not_gr_zero)
  moreover have "sz \<noteq> 0 \<Longrightarrow> n \<noteq> 0" by (simp add: n_def word_unat_eq_iff)
  ultimately show "sz \<noteq> 0 \<Longrightarrow> 0 < unat (pa_cnt sz s)" unfolding c by auto
qed


lemma packet_alloc_inv:
  assumes inv: "source_inv s live" and a: "alloc_packet sz s = Some (r, s')" and sz: "sz \<noteq> 0"
  shows "source_inv s' (case r of Some p \<Rightarrow> insert p live | None \<Rightarrow> live)"
proof -
  define b where "b = unat (pa_block_size (src_alloc s))"
  obtain ws where ws: "pa_array (src_alloc s) = Some ws" "bit_len ws * b \<le> unat (sb_bulk_buffer_size (src_base s))"
    using inv by (auto simp: source_inv_def source_ok_def Let_def b_def)
  have b: "0 < b" and base: "pa_base (src_alloc s) = sb_bulk_buffer_offset (src_base s)"
    and lim: "unat (pa_base (src_alloc s)) + unat (sb_bulk_buffer_size (src_base s)) < 2 ^ 63"
    using inv by (auto simp: source_inv_def source_ok_def Let_def b_def)
  have bits: "source_bits s = ws" by (simp add: source_bits_def ws)
  have "bit_len ws * 1 \<le> bit_len ws * b" using b by (intro mult_le_mono2) simp
  then have "bit_len ws < 2 ^ 63" using ws(2) lim by linarith
  then have len: "bit_len ws < 2 ^ 64" by simp
  define c where "c = unat (pa_cnt sz (src_alloc s))"
  have c: "0 < c" using pa_cnt_nat(2) [of "src_alloc s" sz] b sz by (simp add: b_def c_def)
  then obtain ra pa where pa: "pa_alloc sz (src_alloc s) = Some (ra, pa)" "pa_alloc_spec c ws (src_alloc s) ra pa"
    using pa_alloc_result [OF len _ ws(1), of sz] by (auto simp: c_def)
  have s': "s' = s\<lparr> src_alloc := pa \<rparr>" "r = map_option (\<lambda>a. \<lparr> pd_offset = a, pd_size = sz \<rparr>) ra"
    using a pa(1) sz by (auto simp: alloc_packet_def split: option.splits)
  have same: "pa_base pa = pa_base (src_alloc s)" "pa_block_size pa = pa_block_size (src_alloc s)"
    using pa(2) by (auto simp: pa_alloc_spec_def)
  then have same': "cells pa = cells (src_alloc s)" "packet_at pa = packet_at (src_alloc s)"
    by (intro ext; simp add: cells_def packet_at_def pa_cnt_def)+
  show ?thesis
  proof (cases ra)
    case None
    then have "pa_array pa = Some ws" using pa(2) by (simp add: pa_alloc_spec_def)
    then show ?thesis using inv same same' ws by (simp add: source_inv_def source_ok_def source_bits_def s' None Let_def)
  next
    case (Some a)
    then obtain i ws' where i: "a = i * pa_block_size (src_alloc s) + pa_base (src_alloc s)" "free_run ws c (unat i)"
      "pa_array pa = Some ws'" "bits_taken ws (unat i) c ws'"
      using pa(2) by (auto simp: pa_alloc_spec_def)
    let ?p = "\<lparr> pd_offset = a, pd_size = sz \<rparr>"
    have end_: "unat i + c \<le> bit_len ws" using i(2) by (simp add: free_run_def)
    then have "unat i * b \<le> bit_len ws * b" by (intro mult_le_mono1) simp
    then have ib: "unat i * b + unat (pa_base (src_alloc s)) < 2 ^ 63" using ws(2) lim by linarith
    then have m: "unat (i * pa_block_size (src_alloc s)) = unat i * b" by (subst unat_mult_no_wrap) (simp_all add: b_def)
    have ua: "unat a = unat (pa_base (src_alloc s)) + unat i * b" unfolding i(1) using ib m by (subst unat_add_no_wrap) simp_all
    have "a - pa_base (src_alloc s) = i * pa_block_size (src_alloc s)" by (simp add: i(1))
    then have "unat ((a - pa_base (src_alloc s)) div pa_block_size (src_alloc s)) = unat i"
      using m b by (simp add: unat_div flip: b_def)
    then have cp: "cells (src_alloc s) ?p = {j. unat i \<le> j \<and> j < unat i + c}" by (simp add: cells_def c_def)
    have at: "packet_at (src_alloc s) (bit_len ws) ?p (unat i)" using ua end_ sz by (simp add: packet_at_def b_def c_def)
    have len': "bit_len ws' = bit_len ws" using i(4) by (simp add: bits_taken_def bit_len_def)
    have bit': "bit_at ws' j \<longleftrightarrow> j \<in> cells (src_alloc s) ?p \<or> bit_at ws j" if "j < bit_len ws" for j
      using i(4) that by (auto simp: bits_taken_def cp)
    have fresh: "cells (src_alloc s) ?p \<inter> cells (src_alloc s) q = {}" if "q \<in> live" for q
    proof -
      have "\<not> bit_at ws j" if "j \<in> cells (src_alloc s) ?p" for j using i(2) that by (auto simp: cp free_run_def)
      moreover have "j < bit_len ws" if "j \<in> cells (src_alloc s) ?p" for j using end_ that by (simp add: cp)
      ultimately show ?thesis using inv \<open>q \<in> live\<close> bits by (fastforce simp: source_inv_def)
    qed
    have "source_ok s'" using inv same i(3) len' ws by (simp add: source_inv_def source_ok_def s' Let_def)
    moreover have "source_bits s' = ws'" by (simp add: source_bits_def s' i(3))
    ultimately show ?thesis
      using inv at fresh bit' len' unfolding source_inv_def bits s'(2) Some
      by (auto simp: s'(1) same' dest!: fresh)
  qed
qed


lemma packet_free_inv:
  assumes inv: "source_inv s live" and r: "release_packet p s = Some s'" and p: "p \<in> live"
  shows "source_inv s' (live - {p})"
proof -
  define b where "b = unat (pa_block_size (src_alloc s))"
  obtain ws where ws: "pa_array (src_alloc s) = Some ws" "bit_len ws * b \<le> unat (sb_bulk_buffer_size (src_base s))"
    using inv by (auto simp: source_inv_def source_ok_def Let_def b_def)
  have b: "0 < b" and lim: "unat (pa_base (src_alloc s)) + unat (sb_bulk_buffer_size (src_base s)) < 2 ^ 63"
    using inv by (auto simp: source_inv_def source_ok_def Let_def b_def)
  have bits: "source_bits s = ws" by (simp add: source_bits_def ws)
  have "bit_len ws * 1 \<le> bit_len ws * b" using b by (intro mult_le_mono2) simp
  then have "bit_len ws < 2 ^ 63" using ws(2) lim by linarith
  then have len: "bit_len ws < 2 ^ 64" by simp
  define i where "i = (pd_offset p - pa_base (src_alloc s)) div pa_block_size (src_alloc s)"
  define c where "c = pa_cnt (pd_size p) (src_alloc s)"
  have cp: "cells (src_alloc s) p = {j. in_bits i c j}" by (simp add: cells_def in_bits_def i_def c_def)
  obtain k where k: "packet_at (src_alloc s) (bit_len ws) p k" using inv p by (auto simp: source_inv_def bits)
  then have sz: "pd_size p \<noteq> 0" and "k + unat c \<le> bit_len ws" by (simp_all add: packet_at_def c_def)
  have c: "0 < unat c" using pa_cnt_nat(2) b sz by (simp add: b_def c_def)
  have "unat (pd_offset p - pa_base (src_alloc s)) = k * b"
    using k by (subst unat_sub_no_wrap) (simp_all add: packet_at_def b_def word_le_nat_alt)
  then have "unat i = k" using b by (simp add: i_def unat_div flip: b_def)
  then have le: "unat i + unat c \<le> bit_len ws" using \<open>k + unat c \<le> bit_len ws\<close> by simp
  then have lt: "unat i < bit_len ws" using c by linarith
  have "\<forall>j < bit_len ws. bit_at ws j \<longleftrightarrow> (\<exists>q\<in>live. j \<in> cells (src_alloc s) q)"
    using inv by (simp add: source_inv_def bits)
  moreover have "j < bit_len ws \<and> j \<in> cells (src_alloc s) p" if "in_bits i c j" for j
    using that le unfolding cp by (simp add: in_bits_def)
  ultimately have "\<forall>j. in_bits i c j \<longrightarrow> bit_at ws j = True" using p by blast
  then obtain ws' where ws': "set_bits ws i c True = (None, ws')" "length ws' = length ws"
    "\<And>j. j < bit_len ws \<Longrightarrow> bit_at ws' j = (if in_bits i c j then \<not> True else bit_at ws j)"
    using set_bits_ok [OF len lt le] by metis
  have pa: "pa_free (pd_offset p) (pd_size p) (src_alloc s) = Some ((src_alloc s)\<lparr> pa_array := Some ws', pa_next := i \<rparr>)"
    by (simp add: pa_free_def Let_def ws(1) bit_array_clear_def ws'(1) flip: i_def c_def)
  then have s': "s' = s\<lparr> src_alloc := (src_alloc s)\<lparr> pa_array := Some ws', pa_next := i \<rparr> \<rparr>"
    using r sz by (simp add: release_packet_def)
  have same: "cells (src_alloc s') = cells (src_alloc s)" "packet_at (src_alloc s') = packet_at (src_alloc s)"
    by (intro ext; simp add: cells_def packet_at_def pa_cnt_def s')+
  have len': "bit_len ws' = bit_len ws" by (simp add: bit_len_def ws'(2))
  have bits': "source_bits s' = ws'" by (simp add: source_bits_def s')
  have others: "cells (src_alloc s) q \<inter> cells (src_alloc s) p = {}" if "q \<in> live - {p}" for q
    using inv p that by (auto simp: source_inv_def)
  have "bit_at ws' j \<longleftrightarrow> (\<exists>q\<in>live - {p}. j \<in> cells (src_alloc s) q)" if j: "j < bit_len ws" for j
  proof -
    have "bit_at ws' j \<longleftrightarrow> j \<notin> cells (src_alloc s) p \<and> bit_at ws j" using ws'(3) [OF j] by (simp add: cp)
    also have "bit_at ws j \<longleftrightarrow> (\<exists>q\<in>live. j \<in> cells (src_alloc s) q)" using inv j by (simp add: source_inv_def bits)
    finally show ?thesis using others by blast
  qed
  moreover have "source_ok s'" using inv len' ws by (simp add: source_inv_def source_ok_def s' Let_def)
  ultimately show ?thesis using inv unfolding source_inv_def same bits' len' bits by auto
qed

lemma source_step_inv: "source_step c c' \<Longrightarrow> source_inv (fst c) (snd c) \<Longrightarrow> source_inv (fst c') (snd c')"
proof (induction rule: source_step.induct)
  case (alloc sz s p s' live)
  then show ?case using packet_alloc_inv [of s live sz "Some p" s'] by simp
next
  case (alloc_empty s p s' live)
  then show ?case by (simp add: alloc_packet_def)
next
  case (alloc_failed sz s s' live)
  then show ?case using packet_alloc_inv [of s live sz None s'] by (cases "sz = 0") (simp_all add: alloc_packet_def)
next
  case (release p live s s')
  then show ?case using packet_free_inv by simp
qed

lemma reach_source_inv:
  assumes "source_reach s c" "source_inv s {}"
  shows "source_inv (fst c) (snd c)"
  using assms(1) unfolding source_reach_def
  by (induction rule: rtranclp_induct) (use assms(2) source_step_inv in auto)

text \<open>A live packet covers only bytes of its own blocks.\<close>

definition packet_bytes :: "packet_descriptor \<Rightarrow> nat set" where
  "packet_bytes p = {x. unat (pd_offset p) \<le> x \<and> x < unat (pd_offset p) + unat (pd_size p)}"

lemma packet_bytes_block:
  assumes at: "packet_at s n p i" and b: "0 < unat (pa_block_size s)" and x: "x \<in> packet_bytes p"
  shows "unat (pa_base s) \<le> x" "(x - unat (pa_base s)) div unat (pa_block_size s) \<in> cells s p"
proof -
  let ?b = "unat (pa_block_size s)"
  have o_: "unat (pd_offset p) = unat (pa_base s) + i * ?b" using at by (simp add: packet_at_def)
  then have "unat (pd_offset p - pa_base s) = i * ?b" by (subst unat_sub_no_wrap) (simp_all add: word_le_nat_alt)
  then have i: "unat ((pd_offset p - pa_base s) div pa_block_size s) = i" using b by (simp add: unat_div)
  show "unat (pa_base s) \<le> x" using x o_ by (simp add: packet_bytes_def)
  have "x - unat (pa_base s) < i * ?b + unat (pd_size p)" using x unfolding packet_bytes_def o_ mem_Collect_eq by linarith
  also have "\<dots> \<le> (i + unat (pa_cnt (pd_size p) s)) * ?b" using pa_cnt_nat(1) [OF b, of "pd_size p"] by (simp add: add_mult_distrib)
  finally have "(x - unat (pa_base s)) div ?b < i + unat (pa_cnt (pd_size p) s)" using b by (simp add: div_less_iff_less_mult)
  moreover have "i * ?b \<le> x - unat (pa_base s)" using x unfolding packet_bytes_def o_ mem_Collect_eq by linarith
  then have "i \<le> (x - unat (pa_base s)) div ?b" using b by (simp add: less_eq_div_iff_mult_less_eq)
  ultimately show "(x - unat (pa_base s)) div ?b \<in> cells s p" by (simp add: cells_def i)
qed


lemma sint_small:
  assumes "unat (a :: addr) < 2 ^ 63"
  shows "sint a = uint a"
proof -
  have "uint a < 2 ^ 63" using of_nat_less_iff [where 'a = int, THEN iffD2, OF assms] by simp
  moreover have "- (2 ^ 63) \<le> uint a" using uint_ge_0 [of a] by (rule order_trans [rotated]) simp
  ultimately show ?thesis unfolding sint_uint by (simp add: signed_take_bit_int_eq_self)
qed

lemma sle_nat: "unat (a :: addr) < 2 ^ 63 \<Longrightarrow> unat b < 2 ^ 63 \<Longrightarrow> a \<le>s b \<longleftrightarrow> unat a \<le> unat b"
  by (simp add: word_sle_eq sint_small flip: word_le_def word_le_nat_alt)

lemma sless_nat: "unat (a :: addr) < 2 ^ 63 \<Longrightarrow> unat b < 2 ^ 63 \<Longrightarrow> a <s b \<longleftrightarrow> unat a < unat b"
  by (simp add: word_sless_alt sint_small flip: word_less_def word_less_nat_alt)

text \<open>The check of a descriptor, for buffers below \<open>2^63\<close> and packets that do not wrap.\<close>

lemma packet_valid_bytes:
  assumes lim: "unat (sb_bulk_buffer_offset b) + unat (sb_bulk_buffer_size b) < 2 ^ 63"
    and nw: "unat (pd_offset p) + unat (pd_size p) < 2 ^ 64"
  shows "packet_valid b p \<longleftrightarrow> unat (sb_bulk_buffer_offset b) \<le> unat (pd_offset p)
    \<and> unat (pd_offset p) < unat (sb_bulk_buffer_offset b) + unat (sb_bulk_buffer_size b)
    \<and> unat (pd_offset p) + unat (pd_size p) \<le> unat (sb_bulk_buffer_offset b) + unat (sb_bulk_buffer_size b)"
proof -
  have e: "unat (sb_bulk_buffer_offset b + sb_bulk_buffer_size b) = unat (sb_bulk_buffer_offset b) + unat (sb_bulk_buffer_size b)"
    using lim by (intro unat_add_no_wrap) simp
  have p: "unat (pd_offset p + pd_size p) = unat (pd_offset p) + unat (pd_size p)"
    using nw by (intro unat_add_no_wrap) simp
  show ?thesis
  proof (cases "unat (pd_offset p) < 2 ^ 63")
    case True
    then show ?thesis using lim e p unfolding packet_valid_def
      by (simp add: sle_nat sless_nat word_le_nat_alt)
  next
    case False
    then show ?thesis using lim e p unfolding packet_valid_def by (simp add: word_le_nat_alt)
  qed
qed


lemma bit_len_new: "bit_array_new bits mem True = Inr ws \<Longrightarrow> bit_len ws \<le> unat bits \<and> (\<forall>j < bit_len ws. \<not> bit_at ws j)"
  by (auto simp: bit_array_new_def Let_def bit_len_def bit_at_def unat_div split: if_splits)

lemma source_new_inv:
  assumes n: "source_new ds_base ds_size sub ack chunk obj (pa_new bs) = Some s"
    and lim: "unat ds_size < 2 ^ 63" and bs: "0 < unat bs"
  shows "source_inv s {}"
proof -
  obtain b where b: "stream_new ds_base ds_size sub ack = Some b" using n by (auto simp: source_new_def split: option.splits)
  then have bulk: "unat (sb_bulk_buffer_offset b) + unat (sb_bulk_buffer_size b) = unat ds_size"
    by (auto simp: stream_new_def Let_def word_le_nat_alt unat_sub_no_wrap split: if_splits)
  define cnt where "cnt = pa_block_cnt (sb_bulk_buffer_size b) (pa_new bs)"
  obtain ws a where ws: "bit_array_new (ucast cnt) (snd (the chunk)) True = Inr ws" "src_base s = b"
    "src_alloc s = a" "pa_array a = Some ws" "pa_base a = sb_bulk_buffer_offset b" "pa_block_size a = bs"
    using n b by (auto simp: source_new_def pa_add_range_def pa_new_def Let_def cnt_def pa_block_cnt_def split: option.splits sum.splits if_splits)
  have "unat cnt \<le> unat (sb_bulk_buffer_size b) div unat bs"
  proof -
    let ?d = "sb_bulk_buffer_size b div bs"
    have "?d mod 64 \<le> ?d" by (simp add: word_le_nat_alt unat_mod)
    then show ?thesis by (simp add: cnt_def pa_block_cnt_def Let_def pa_new_def unat_sub_no_wrap unat_div)
  qed
  moreover have "unat (ucast cnt :: u32) \<le> unat cnt" by (simp add: unsigned_ucast_eq take_bit_nat_less_eq_self)
  ultimately have "bit_len ws \<le> unat (sb_bulk_buffer_size b) div unat bs" using bit_len_new [OF ws(1)] by linarith
  then have "bit_len ws * unat bs \<le> unat (sb_bulk_buffer_size b)" using bs by (simp add: less_eq_div_iff_mult_less_eq)
  then have "source_ok s" using ws bulk lim bs by (simp add: source_ok_def Let_def)
  then show ?thesis using bit_len_new [OF ws(1)] ws by (simp add: source_inv_def source_bits_def)
qed

lemma source_inv_packets:
  assumes inv: "source_inv s live" and p: "p \<in> live"
  shows "packet_valid (src_base s) p"
    and "packet_bytes p \<subseteq> {unat (sb_bulk_buffer_offset (src_base s)) ..<
           unat (sb_bulk_buffer_offset (src_base s)) + unat (sb_bulk_buffer_size (src_base s))}"
    and "q \<in> live \<Longrightarrow> q \<noteq> p \<Longrightarrow> packet_bytes p \<inter> packet_bytes q = {}"
proof -
  let ?a = "src_alloc s" and ?b = "src_base s"
  define bs where "bs = unat (pa_block_size ?a)"
  have base: "pa_base ?a = sb_bulk_buffer_offset ?b" and bs: "0 < bs"
    and lim: "unat (sb_bulk_buffer_offset ?b) + unat (sb_bulk_buffer_size ?b) < 2 ^ 63"
    and fit: "bit_len (source_bits s) * bs \<le> unat (sb_bulk_buffer_size ?b)"
    using inv by (auto simp: source_inv_def source_ok_def source_bits_def Let_def bs_def)
  obtain i where i: "packet_at ?a (bit_len (source_bits s)) p i" using inv p by (auto simp: source_inv_def)
  define c where "c = unat (pa_cnt (pd_size p) ?a)"
  have c: "unat (pd_size p) \<le> c * bs" "0 < c"
    using pa_cnt_nat [of ?a "pd_size p"] bs i by (simp_all add: bs_def c_def packet_at_def)
  have "(i + c) * bs \<le> bit_len (source_bits s) * bs" using i by (intro mult_le_mono1) (simp add: packet_at_def c_def)
  then have e: "i * bs + c * bs \<le> unat (sb_bulk_buffer_size ?b)" using fit by (simp add: add_mult_distrib)
  have o_: "unat (pd_offset p) = unat (sb_bulk_buffer_offset ?b) + i * bs" using i by (simp add: packet_at_def base bs_def)
  have "0 < c * bs" using c(2) bs by simp
  then have "unat (pd_offset p) < unat (sb_bulk_buffer_offset ?b) + unat (sb_bulk_buffer_size ?b)"
    and end_: "unat (pd_offset p) + unat (pd_size p) \<le> unat (sb_bulk_buffer_offset ?b) + unat (sb_bulk_buffer_size ?b)"
    using o_ e c(1) by linarith+
  moreover from end_ have "unat (pd_offset p) + unat (pd_size p) < 2 ^ 64" using lim by simp
  ultimately show "packet_valid ?b p" using packet_valid_bytes [OF lim, of p] o_ by simp
  show "packet_bytes p \<subseteq> {unat (sb_bulk_buffer_offset ?b) ..< unat (sb_bulk_buffer_offset ?b) + unat (sb_bulk_buffer_size ?b)}"
    using o_ end_ by (auto simp: packet_bytes_def)
  show "packet_bytes p \<inter> packet_bytes q = {}" if q: "q \<in> live" "q \<noteq> p"
  proof -
    obtain k where k: "packet_at ?a (bit_len (source_bits s)) q k" using inv q by (auto simp: source_inv_def)
    have "cells ?a p \<inter> cells ?a q = {}" using inv p q by (auto simp: source_inv_def)
    then show ?thesis using packet_bytes_block(2) [OF i] packet_bytes_block(2) [OF k] bs by (auto simp: bs_def)
  qed
qed


section \<open>Properties\<close>

text \<open>
  C28  Whatever a stream source allocates and releases in whatever order: each of its live packets passes the
  check of the sink, lies within the bulk buffer, and shares no byte with another live packet.
\<close>

theorem live_packets_disjoint:
  assumes "source_new ds_base ds_size sub ack chunk obj (pa_new bs) = Some s0"
    and "unat ds_size < 2 ^ 63" and "0 < unat bs"
    and "source_reach s0 (s, live)" and "p \<in> live"
  shows "packet_valid (src_base s) p
    \<and> packet_bytes p \<subseteq> {unat (sb_bulk_buffer_offset (src_base s)) ..<
         unat (sb_bulk_buffer_offset (src_base s)) + unat (sb_bulk_buffer_size (src_base s))}
    \<and> (\<forall>q\<in>live. q \<noteq> p \<longrightarrow> packet_bytes p \<inter> packet_bytes q = {})"
proof -
  have "source_inv s live" using reach_source_inv [OF assms(4) source_new_inv [OF assms(1-3)]] by simp
  from source_inv_packets [OF this assms(5)] show ?thesis by blast
qed

lemma example_source:
  "source_new 0x1000 0x2000 0x100 0x100 (Some (0x800, [])) True (pa_new 64)
     = Some \<lparr> src_base = \<lparr> sb_local_base = 0x1000, sb_submit_queue_offset = 0, sb_ack_queue_offset = 0x100,
                           sb_bulk_buffer_offset = 0x200, sb_bulk_buffer_size = 0x1e00 \<rparr>,
              src_alloc = \<lparr> pa_block_size = 64, pa_bits = 0x800, pa_array = Some [0], pa_base = 0x200, pa_next = 0 \<rparr> \<rparr>"
  by code_simp

theorem live_packets_disjoint_witness:
  "\<exists>s. source_reach
         \<lparr> src_base = \<lparr> sb_local_base = 0x1000, sb_submit_queue_offset = 0, sb_ack_queue_offset = 0x100,
                       sb_bulk_buffer_offset = 0x200, sb_bulk_buffer_size = 0x1e00 \<rparr>,
            src_alloc = \<lparr> pa_block_size = 64, pa_bits = 0x800, pa_array = Some [0], pa_base = 0x200, pa_next = 0 \<rparr> \<rparr>
         (s, {\<lparr> pd_offset = 0x200, pd_size = 100 \<rparr>})
       \<and> packet_valid (src_base s) \<lparr> pd_offset = 0x200, pd_size = 100 \<rparr>"
proof -
  let ?s0 = "the (source_new 0x1000 0x2000 0x100 0x100 (Some (0x800, [])) True (pa_new 64))"
  let ?p = "\<lparr> pd_offset = 0x200, pd_size = 100 \<rparr>"
  have "fst (the (alloc_packet 100 ?s0)) = Some ?p \<and> alloc_packet 100 ?s0 \<noteq> None" by code_simp
  then obtain s where a: "alloc_packet 100 ?s0 = Some (Some ?p, s)" by auto
  then have r: "source_reach ?s0 (s, {?p})"
    using source_step.alloc [of 100 ?s0 ?p s "{}"] by (simp add: source_reach_def)
  have "packet_valid (src_base s) ?p"
    using live_packets_disjoint [OF _ _ _ r, of "0x1000" "0x2000" "0x100" "0x100" "Some (0x800, [])" True 64]
    by (simp add: example_source)
  with r show ?thesis unfolding example_source option.sel by blast
qed

text \<open>
   The packet allocator always answers.  A packet it hands out covers blocks that were all free and are
  all taken now, and no other block changes; it fails only when no \<open>2 n - 1\<close> consecutive blocks are free,
  where \<open>n\<close> is the number of blocks asked for, and then nothing changes.
\<close>

theorem packet_alloc_correct:
  assumes "bit_len ws < 2 ^ 64" and "0 < unat (pa_cnt sz s)" and "pa_array s = Some ws"
  shows "\<exists>r s'. pa_alloc sz s = Some (r, s') \<and> pa_alloc_spec (unat (pa_cnt sz s)) ws s r s'"
  by (rule pa_alloc_result [OF assms])

theorem packet_alloc_correct_witness:
  "\<exists>r s'. pa_alloc 100 \<lparr> pa_block_size = 64, pa_bits = 0, pa_array = Some [5], pa_base = 0x200, pa_next = 0 \<rparr> = Some (r, s')
     \<and> pa_alloc_spec 2 [5] \<lparr> pa_block_size = 64, pa_bits = 0, pa_array = Some [5], pa_base = 0x200, pa_next = 0 \<rparr> r s'"
proof -
  have "pa_cnt 100 \<lparr> pa_block_size = 64, pa_bits = 0, pa_array = Some [5], pa_base = 0x200, pa_next = 0 \<rparr> = 2"
    by code_simp
  then show ?thesis
    using packet_alloc_correct [of "[5]" 100 "\<lparr> pa_block_size = 64, pa_bits = 0, pa_array = Some [5], pa_base = 0x200, pa_next = 0 \<rparr>"]
    by (simp add: bit_len_def)
qed

text \<open>The sum of offset and size in the check wraps: a packet that is larger than the whole stream passes.\<close>

lemma packet_valid_wraps:
  "packet_valid \<lparr> sb_local_base = 0x1000, sb_submit_queue_offset = 0, sb_ack_queue_offset = 0x100,
                  sb_bulk_buffer_offset = 0x200, sb_bulk_buffer_size = 0x1e00 \<rparr>
     \<lparr> pd_offset = 0x300, pd_size = 0xffffffffffffff00 \<rparr>"
  by code_simp

text \<open>
  A range of less than 64 blocks makes the bit array throw after the base was stored; from then on the
  allocator refuses every range although it has none.
\<close>

lemma add_range_not_undone:
  "case pa_add_range (Some (0x800, [])) True 0x200 0x400 (pa_new 64) of
     (r, s) \<Rightarrow> r = Inl (Md_array_error Invalid_bit_count)
       \<and> pa_add_range (Some (0x800, [])) True 0x200 0x4000 s = (Inr (-1), s) \<and> pa_alloc 64 s = None"
  by code_simp

end
