(* ===== verification/Net_Address.thy ===== *)
theory Net_Address
  imports Number_Text
begin

unbundle bit_operations_syntax

text \<open>
  Network addresses: \<open>os/include/net/netaddress.h\<close>, \<open>ipv4.h\<close> and the address prefixes of the NIC router
  (\<open>nic_router/ipv4_address_prefix.{h,cc}\<close>).  An address is the list of its octets, as it is sent.
\<close>

section \<open>Addresses\<close>

type_synonym u8 = "8 word"
type_synonym u16 = "16 word"
type_synonym net_address = "u8 list"
type_synonym ipv4_address = net_address
type_synonym mac_address = net_address

definition net_address_fill :: "nat \<Rightarrow> u8 \<Rightarrow> net_address" where
  "net_address_fill LEN value = replicate LEN value"

text \<open>\<open>==\<close> compares from the last octet to the first.\<close>

fun net_address_eq :: "nat \<Rightarrow> net_address \<Rightarrow> net_address \<Rightarrow> bool" where
  "net_address_eq 0 a other = True"
| "net_address_eq (Suc i) a other = (if a ! i \<noteq> other ! i then False else net_address_eq i a other)"

abbreviation ip_ok :: "ipv4_address \<Rightarrow> bool" where "ip_ok a \<equiv> length a = 4"

definition ip_zero :: ipv4_address where
  "ip_zero = net_address_fill 4 0"

definition ip_valid :: "ipv4_address \<Rightarrow> bool" where
  "ip_valid a \<longleftrightarrow> \<not> net_address_eq 4 a ip_zero"

text \<open>Despite the names, the little-endian reading has the first octet as the most significant one.\<close>

definition to_uint32_big_endian :: "ipv4_address \<Rightarrow> u32" where
  "to_uint32_big_endian a =
     ucast (a ! 0) OR push_bit 8 (ucast (a ! 1)) OR push_bit 16 (ucast (a ! 2)) OR push_bit 24 (ucast (a ! 3))"

definition from_uint32_big_endian :: "u32 \<Rightarrow> ipv4_address" where
  "from_uint32_big_endian ip_raw =
     [ucast ip_raw, ucast (drop_bit 8 ip_raw), ucast (drop_bit 16 ip_raw), ucast (drop_bit 24 ip_raw)]"

definition to_uint32_little_endian :: "ipv4_address \<Rightarrow> u32" where
  "to_uint32_little_endian a =
     ucast (a ! 3) OR push_bit 8 (ucast (a ! 2)) OR push_bit 16 (ucast (a ! 1)) OR push_bit 24 (ucast (a ! 0))"

definition from_uint32_little_endian :: "u32 \<Rightarrow> ipv4_address" where
  "from_uint32_little_endian ip_raw =
     [ucast (drop_bit 24 ip_raw), ucast (drop_bit 16 ip_raw), ucast (drop_bit 8 ip_raw), ucast ip_raw]"

definition is_in_range :: "ipv4_address \<Rightarrow> ipv4_address \<Rightarrow> ipv4_address \<Rightarrow> bool" where
  "is_in_range a lo hi =
     (let ip_raw = to_uint32_little_endian a
      in ip_raw \<ge> to_uint32_little_endian lo \<and> ip_raw \<le> to_uint32_little_endian hi)"

text \<open>
  \<open>ascii_to\<close>: the length that was read, 0 in case of an error, and the address; the first argument is the
  number of octets that are left to be read.
\<close>

fun ip_numbers :: "nat \<Rightarrow> char list \<Rightarrow> ipv4_address \<Rightarrow> nat \<Rightarrow> (nat \<times> ipv4_address option) option" where
  "ip_numbers 0 s buf read_len = Some (0, None)"
| "ip_numbers (Suc n) s buf read_len = do {
     (number_len, v) \<leftarrow> ascii_to_unsigned s 10;
     if number_len = 0 then Some (0, None)
     else
       (let buf = (case v of None \<Rightarrow> buf | Some v \<Rightarrow> buf[3 - n := v]); read_len = read_len + number_len in
        if n = 0 then Some (read_len, Some buf)
        else do {
          c \<leftarrow> peek s number_len;
          if c \<noteq> CHR ''.'' then Some (0, None)
          else ip_numbers n (drop (number_len + 1) s) buf (read_len + 1) }) }"

definition ip_ascii_to :: "char list \<Rightarrow> (nat \<times> ipv4_address option) option" where
  "ip_ascii_to s = ip_numbers 4 s ip_zero 0"


section \<open>Prefixes\<close>

record ip_prefix =
  pf_address :: ipv4_address
  pf_prefix :: u8

definition ip_prefix_default :: ip_prefix where
  "ip_prefix_default = \<lparr> pf_address = ip_zero, pf_prefix = 32 \<rparr>"

definition prefix_valid :: "ip_prefix \<Rightarrow> bool" where
  "prefix_valid p \<longleftrightarrow> ip_valid (pf_address p) \<or> pf_prefix p = 0"

text \<open>\<open>None\<close> is an access behind the address, or a shift by a negative amount.\<close>

function prefix_bytes :: "ipv4_address \<Rightarrow> ipv4_address \<Rightarrow> u8 \<Rightarrow> nat \<Rightarrow> bool option" where
  "prefix_bytes ip address prefix_left byte =
     (if prefix_left \<ge> 8 then
        if byte \<ge> 4 then None
        else if ip ! byte \<noteq> address ! byte then Some False
        else prefix_bytes ip address (prefix_left - 8) (byte + 1)
      else if prefix_left = 0 then Some True
      else if byte \<ge> 4 then None
      else
        (let msk = NOT (drop_bit (unat prefix_left) 0xff)
         in Some ((ip ! byte XOR address ! byte) AND msk = 0)))"
  by pat_completeness auto
termination
  by (relation "measure (\<lambda>(ip, address, prefix_left, byte). unat prefix_left)")
     (auto simp: word_le_nat_alt unat_sub_no_wrap)

declare prefix_bytes.simps [simp del]

definition prefix_matches :: "ip_prefix \<Rightarrow> ipv4_address \<Rightarrow> bool option" where
  "prefix_matches p ip = prefix_bytes ip (pf_address p) (pf_prefix p) 0"

definition subnet_mask :: "ip_prefix \<Rightarrow> ipv4_address option" where
  "subnet_mask p =
     (let prefix = pf_prefix p; result = ip_zero in
      if prefix \<ge> 8 then
        (let result = result[0 := 0xff] in
         if prefix \<ge> 16 then
           (let result = result[1 := 0xff] in
            if prefix \<ge> 24 then
              (let result = result[2 := 0xff] in
               if prefix > 32 then None
               else Some (result[3 := push_bit (32 - unat prefix) 0xff]))
            else Some (result[2 := push_bit (24 - unat prefix) 0xff]))
         else Some (result[1 := push_bit (16 - unat prefix) 0xff]))
      else Some (result[0 := push_bit (8 - unat prefix) 0xff]))"

definition broadcast_address :: "ip_prefix \<Rightarrow> ipv4_address option" where
  "broadcast_address p =
     map_option (\<lambda>msk. map (\<lambda>i. pf_address p ! i OR NOT (msk ! i)) [0..<4]) (subnet_mask p)"

text \<open>The constructor from a mask counts the leading ones of the first octet that is not full.\<close>

fun leading_ones :: "nat \<Rightarrow> u8 \<Rightarrow> u8 \<Rightarrow> u8" where
  "leading_ones 0 rest prefix = prefix"
| "leading_ones (Suc i) rest prefix =
     (if rest AND push_bit i 1 \<noteq> 0 then leading_ones i rest (prefix + 1) else prefix)"

definition ip_prefix_from_mask :: "ipv4_address \<Rightarrow> ipv4_address \<Rightarrow> ip_prefix" where
  "ip_prefix_from_mask address msk =
     (let (rest, prefix) =
        (if msk ! 0 \<noteq> 0xff then (msk ! 0, 0)
         else if msk ! 1 \<noteq> 0xff then (msk ! 1, 8)
         else if msk ! 2 \<noteq> 0xff then (msk ! 2, 16)
         else (msk ! 3, 24))
      in \<lparr> pf_address = address, pf_prefix = leading_ones 8 rest prefix \<rparr>)"

definition prefix_ascii_to :: "char list \<Rightarrow> (nat \<times> ip_prefix option) option" where
  "prefix_ascii_to s = do {
     (read_len, a) \<leftarrow> ip_ascii_to s;
     case a of
       None \<Rightarrow> Some (0, None)
     | Some a \<Rightarrow> do {
         c \<leftarrow> peek s read_len;
         if c \<noteq> CHR ''/'' then Some (0, None)
         else do {
           (prefix_len, v) \<leftarrow> ascii_to_unsigned (drop (read_len + 1) s) 10;
           case v of
             Some v \<Rightarrow> if prefix_len = 0 then Some (0, None)
                        else Some (read_len + 1 + prefix_len, Some \<lparr> pf_address = a, pf_prefix = v \<rparr>)
           | None \<Rightarrow> Some (0, None) } } }"


section \<open>The bits of an address\<close>

text \<open>Bit \<open>i\<close> in the order of the transmission: the most significant bit of an octet is its first.\<close>

definition ip_bit :: "ipv4_address \<Rightarrow> nat \<Rightarrow> bool" where
  "ip_bit a i = bit (a ! (i div 8)) (7 - i mod 8)"

lemma address_eq: "net_address_eq n a b \<longleftrightarrow> (\<forall>i<n. a ! i = b ! i)"
  by (induction n a b rule: net_address_eq.induct) (auto simp: less_Suc_eq)

lemma address_eq_list: "length a = n \<Longrightarrow> length b = n \<Longrightarrow> net_address_eq n a b \<longleftrightarrow> a = b"
  by (auto simp: address_eq list_eq_iff_nth_eq)

lemma ip_valid_iff: "ip_ok a \<Longrightarrow> ip_valid a \<longleftrightarrow> a \<noteq> ip_zero"
  by (simp add: ip_valid_def address_eq_list ip_zero_def net_address_fill_def)

lemma octets_4: "ip_ok a \<Longrightarrow> \<exists>b0 b1 b2 b3. a = [b0, b1, b2, b3]"
  by (auto simp: numeral_eq_Suc length_Suc_conv)

lemma less_8_cases: "i < 8 \<Longrightarrow> P 0 \<Longrightarrow> P 1 \<Longrightarrow> P 2 \<Longrightarrow> P 3 \<Longrightarrow> P 4 \<Longrightarrow> P 5 \<Longrightarrow> P 6 \<Longrightarrow> P 7 \<Longrightarrow> P (i :: nat)"
  by (auto simp: numeral_eq_Suc less_Suc_eq)

lemma bit_to_uint32:
  assumes "i < 32"
  shows "bit (to_uint32_little_endian a) (31 - i) = ip_bit a i"
proof -
  define q j where "q = i div 8" and "j = i mod 8"
  have i: "i = 8 * q + j" "j < 8" by (simp_all add: q_def j_def)
  with assms have "q < 4" by linarith
  then consider "q = 0" | "q = 1" | "q = 2" | "q = 3" by linarith
  moreover have "ip_bit a i = bit (a ! q) (7 - j)" by (simp add: ip_bit_def q_def j_def)
  ultimately show ?thesis
    by cases (use i in \<open>auto simp: to_uint32_little_endian_def bit_simps dest: bit_imp_le_length\<close>)
qed


definition same_bits :: "ipv4_address \<Rightarrow> ipv4_address \<Rightarrow> nat \<Rightarrow> nat \<Rightarrow> bool" where
  "same_bits a b lo hi \<longleftrightarrow> (\<forall>i. lo \<le> i \<and> i < hi \<longrightarrow> ip_bit a i = ip_bit b i)"

lemma same_bits_split: "lo \<le> m \<Longrightarrow> m \<le> hi \<Longrightarrow> same_bits a b lo hi \<longleftrightarrow> same_bits a b lo m \<and> same_bits a b m hi"
  unfolding same_bits_def by (meson leI le_trans less_le_trans)

lemma same_bits_octet:
  assumes "n \<le> 8"
  shows "same_bits a b (8 * k) (8 * k + n) \<longleftrightarrow> (\<forall>j<8. 8 - n \<le> j \<longrightarrow> bit (a ! k) j = bit (b ! k) j)"
proof
  assume l: "same_bits a b (8 * k) (8 * k + n)"
  show "\<forall>j<8. 8 - n \<le> j \<longrightarrow> bit (a ! k) j = bit (b ! k) j"
  proof (intro allI impI)
    fix j :: nat
    assume j: "j < 8" "8 - n \<le> j"
    then have "8 * k + (7 - j) < 8 * k + n" using assms by linarith
    then have "ip_bit a (8 * k + (7 - j)) = ip_bit b (8 * k + (7 - j))" using l unfolding same_bits_def by (meson le_add1)
    moreover have "(8 * k + (7 - j)) div 8 = k" "(8 * k + (7 - j)) mod 8 = 7 - j" by simp_all
    ultimately show "bit (a ! k) j = bit (b ! k) j" using j by (simp add: ip_bit_def)
  qed
next
  assume r: "\<forall>j<8. 8 - n \<le> j \<longrightarrow> bit (a ! k) j = bit (b ! k) j"
  show "same_bits a b (8 * k) (8 * k + n)"
    unfolding same_bits_def
  proof (intro allI impI)
    fix i
    assume i: "8 * k \<le> i \<and> i < 8 * k + n"
    define j where "j = i - 8 * k"
    have e1: "i = 8 * k + j" using i by (simp add: j_def)
    have e: "i = 8 * k + j" "j < n" using i unfolding e1 by simp_all
    then have "i div 8 = k" "i mod 8 = j" using assms by simp_all
    then show "ip_bit a i = ip_bit b i" using r e(2) assms by (simp add: ip_bit_def)
  qed
qed

lemma octet_eq_bits: "a ! k = b ! k \<longleftrightarrow> same_bits a b (8 * k) (8 * k + 8)"
  by (subst same_bits_octet) (auto simp: bit_eq_iff)

lemma octet_masked:
  assumes "l < 8"
  shows "(x XOR y) AND NOT (drop_bit l 0xff) = (0 :: u8) \<longleftrightarrow> (\<forall>j<8. 8 - l \<le> j \<longrightarrow> bit x j = bit y j)"
proof -
  have m: "(0xff :: u8) = mask 8" by (simp add: mask_eq_exp_minus_1)
  have "bit (NOT (drop_bit l 0xff) :: u8) j \<longleftrightarrow> j < 8 \<and> 8 - l \<le> j" for j
    unfolding bit_not_iff bit_drop_bit_eq o_def m bit_mask_iff by auto
  then show ?thesis by (auto simp: bit_eq_iff bit_and_iff bit_xor_iff)
qed

lemma prefix_bytes_bits:
  "8 * byte + unat prefix_left \<le> 32 \<Longrightarrow>
     prefix_bytes ip address prefix_left byte = Some (same_bits ip address (8 * byte) (8 * byte + unat prefix_left))"
proof (induction ip address prefix_left byte rule: prefix_bytes.induct)
  case (1 ip address l byte)
  consider (full) "8 \<le> l" | (zero) "l = 0" | (part) "\<not> 8 \<le> l" "l \<noteq> 0" by blast
  then show ?case
  proof cases
    case full
    then have u: "8 \<le> unat l" "unat (l - 8) = unat l - 8" by (simp_all add: word_le_nat_alt unat_sub_no_wrap)
    have b: "byte < 4" using 1(2) u by linarith
    have e: "8 * (byte + 1) = 8 * byte + 8" "8 * (byte + 1) + unat (l - 8) = 8 * byte + unat l" using u by auto
    have "same_bits ip address (8 * byte) (8 * byte + unat l)
        \<longleftrightarrow> ip ! byte = address ! byte \<and> same_bits ip address (8 * byte + 8) (8 * byte + unat l)"
      unfolding octet_eq_bits using u by (subst same_bits_split [of _ "8 * byte + 8"]) simp_all
    moreover have "prefix_bytes ip address (l - 8) (byte + 1)
        = Some (same_bits ip address (8 * byte + 8) (8 * byte + unat l))" if eq: "ip ! byte = address ! byte"
    proof -
      have "8 * (byte + 1) + unat (l - 8) \<le> 32" using 1(2) e(2) by linarith
      from 1(1) [OF full _ _ this] show ?thesis unfolding e(2) unfolding e(1) using b eq by simp
    qed
    ultimately show ?thesis using full b by (subst prefix_bytes.simps) simp
  next
    case zero
    then show ?thesis by (subst prefix_bytes.simps) (auto simp: same_bits_def)
  next
    case part
    then have u: "unat l < 8" "0 < unat l" by (simp_all add: word_le_nat_alt unat_gt_0)
    then have "byte < 4" using 1(2) by linarith
    then show ?thesis using part u
      by (subst prefix_bytes.simps) (simp add: octet_masked same_bits_octet)
  qed
qed

text \<open>The masks, one for each length of a prefix.\<close>

lemma prefix_cases: "p \<le> (32 :: u8) \<Longrightarrow> \<exists>n\<in>set [0..<33]. p = of_nat n"
  by (rule bexI [of _ "unat p"]) (simp_all add: word_le_nat_alt)

lemma masks:
  "\<forall>n\<in>set [0..<33]. case subnet_mask \<lparr> pf_address = a, pf_prefix = of_nat n \<rparr> of
      None \<Rightarrow> False
    | Some m \<Rightarrow> ip_ok m \<and> to_uint32_little_endian m = NOT (mask (32 - n)) \<and> pf_prefix (ip_prefix_from_mask a m) = of_nat n"
  by code_simp

lemma subnet_mask_bits:
  assumes "pf_prefix p \<le> 32"
  obtains m where "subnet_mask p = Some m" "ip_ok m" "to_uint32_little_endian m = NOT (mask (32 - unat (pf_prefix p)))"
    "pf_prefix (ip_prefix_from_mask a m) = pf_prefix p"
proof -
  obtain n where n: "n \<in> set [0..<33]" "pf_prefix p = of_nat n" using prefix_cases [OF assms] by blast
  then have u: "unat (pf_prefix p) = n" by (simp add: unat_of_nat)
  have "subnet_mask p = subnet_mask \<lparr> pf_address = a, pf_prefix = of_nat n \<rparr>" by (simp add: subnet_mask_def n(2))
  then show ?thesis using masks [of a] n u that by (fastforce split: option.splits)
qed

lemma masked_bits_32:
  assumes "n \<le> 32"
  shows "(to_uint32_little_endian a XOR to_uint32_little_endian b) AND NOT (mask (32 - n)) = 0 \<longleftrightarrow> same_bits a b 0 n"
proof -
  let ?x = "to_uint32_little_endian a" and ?y = "to_uint32_little_endian b"
  have "(?x XOR ?y) AND NOT (mask (32 - n)) = 0 \<longleftrightarrow> (\<forall>k<32. 32 - n \<le> k \<longrightarrow> bit ?x k = bit ?y k)"
    by (auto simp: bit_eq_iff bit_simps)
  also have "\<dots> \<longleftrightarrow> (\<forall>i<n. bit ?x (31 - i) = bit ?y (31 - i))"
  proof (rule iffI; intro allI impI)
    fix i assume l: "\<forall>k<32. 32 - n \<le> k \<longrightarrow> bit ?x k = bit ?y k" and "i < n"
    then show "bit ?x (31 - i) = bit ?y (31 - i)" using assms by (intro l [rule_format]) linarith+
  next
    fix k :: nat
    assume r: "\<forall>i<n. bit ?x (31 - i) = bit ?y (31 - i)" and k: "k < 32" "32 - n \<le> k"
    then have "31 - k < n" "31 - (31 - k) = k" using assms by linarith+
    then show "bit ?x k = bit ?y k" using r by metis
  qed
  also have "\<dots> \<longleftrightarrow> same_bits a b 0 n" using assms by (auto simp: same_bits_def bit_to_uint32)
  finally show ?thesis .
qed

lemma to_uint32_bits: "k < 32 \<Longrightarrow> bit (to_uint32_little_endian a) k = ip_bit a (31 - k)"
  using bit_to_uint32 [of "31 - k" a] by simp

lemma broadcast_bits:
  "to_uint32_little_endian (map (\<lambda>i. a ! i OR NOT (m ! i)) [0..<4])
    = to_uint32_little_endian a OR NOT (to_uint32_little_endian m)"
proof (rule bit_word_eqI)
  fix k
  assume "k < LENGTH(32)"
  then have k: "k < 32" by simp
  then have "(31 - k) div 8 < 4" by (simp add: div_less_iff_less_mult)
  then show "bit (to_uint32_little_endian (map (\<lambda>i. a ! i OR NOT (m ! i)) [0..<4])) k
      = bit (to_uint32_little_endian a OR NOT (to_uint32_little_endian m)) k"
    using k by (simp add: to_uint32_bits bit_or_iff bit_not_iff ip_bit_def le_imp_less_Suc [of _ 7, simplified])
qed


section \<open>Properties\<close>




text \<open>
  Addresses and their two readings as numbers belong together one to one.
\<close>

lemma uint32_round_trip:
  "to_uint32_little_endian (from_uint32_little_endian w) = w"
  "to_uint32_big_endian (from_uint32_big_endian w) = w"
proof -
  have "bit (to_uint32_little_endian (from_uint32_little_endian w)) k = bit w k
      \<and> bit (to_uint32_big_endian (from_uint32_big_endian w)) k = bit w k" if k: "k < 32" for k
  proof -
    define q j where "q = k div 8" and "j = k mod 8"
    have e: "k = 8 * q + j" "j < 8" by (simp_all add: q_def j_def)
    with k have "q < 4" by linarith
    then consider "q = 0" | "q = 1" | "q = 2" | "q = 3" by linarith
    then show ?thesis
      by cases (use e in \<open>auto simp: to_uint32_little_endian_def from_uint32_little_endian_def
        to_uint32_big_endian_def from_uint32_big_endian_def bit_simps\<close>)
  qed
  then show "to_uint32_little_endian (from_uint32_little_endian w) = w" "to_uint32_big_endian (from_uint32_big_endian w) = w"
    by (simp_all add: bit_eq_iff)
qed

lemma address_round_trip: "ip_ok a \<Longrightarrow> from_uint32_little_endian (to_uint32_little_endian a) = a"
  using octets_4 [of a]
  by (auto simp: to_uint32_little_endian_def from_uint32_little_endian_def intro!: bit_word_eqI) (auto simp: bit_simps dest: bit_imp_le_length)

text \<open>
  The number of an octet is taken modulo 256, and a prefix is not checked: a prefix length above 32 makes the
  comparison run behind the address.
\<close>

lemma ip_ascii_wraps: "ip_ascii_to (''300.1.1.1'' @ [NUL]) = Some (9, Some [44, 1, 1, 1])"
  by code_simp

lemma prefix_overrun:
  "prefix_ascii_to (''10.0.0.1/40'' @ [NUL]) = Some (11, Some \<lparr> pf_address = [10, 0, 0, 1], pf_prefix = 40 \<rparr>)
   \<and> prefix_matches \<lparr> pf_address = [10, 0, 0, 1], pf_prefix = 40 \<rparr> [10, 0, 0, 1] = None"
  by code_simp

end
