(* ===== verification/Net_Checksum.thy ===== *)
theory Net_Checksum
  imports Net_Address
begin

text \<open>
  The Internet checksum, \<open>os/src/lib/net/internet_checksum.cc\<close>, and the byte order of \<open>util/endian.h\<close>.  The code
  adds the 16-bit words as the little-endian host reads them and folds the carries at the end; the
  theorem relates it to the ones' complement sum of the words in network order.  Memory is a list of
  octets.
\<close>

section \<open>Byte order\<close>

type_synonym octets = "u8 list"

text \<open>A word as the host loads it from memory and stores it there.\<close>

fun le_load :: "octets \<Rightarrow> 'a::len word" where
  "le_load [] = 0"
| "le_load (b # bs) = ucast b OR push_bit 8 (le_load bs)"

definition le_store :: "nat \<Rightarrow> 'a::len word \<Rightarrow> octets" where
  "le_store n x = map (\<lambda>i. ucast (drop_bit (8 * i) x)) [0..<n]"

text \<open>\<open>host_to_big_endian\<close> fills an array of \<open>sizeof(T)\<close> octets and reads it as a \<open>T\<close>.\<close>

definition be_octets :: "nat \<Rightarrow> 'a::len word \<Rightarrow> octets" where
  "be_octets n x = map (\<lambda>i. let msk = (n - i - 1) * 8 in ucast (drop_bit msk (x AND push_bit msk 0xff))) [0..<n]"

definition host_to_big_endian :: "'a::len word \<Rightarrow> 'a word" where
  "host_to_big_endian x = le_load (be_octets (LENGTH('a) div 8) x)"

lemma bit_255_int: "bit (255 :: int) k \<longleftrightarrow> k < 8"
proof -
  have "(255 :: int) = mask 8" by (simp add: mask_eq_exp_minus_1)
  then show ?thesis by (simp only: bit_mask_iff) simp
qed

lemma be_octet: "(ucast (drop_bit m (x AND push_bit m 0xff)) :: u8) = ucast (drop_bit m (x :: 'a::len word))"
proof (rule bit_word_eqI)
  fix n
  assume "n < LENGTH(8)"
  moreover have "bit x (m + n) \<Longrightarrow> n < LENGTH('a) \<and> m + n < LENGTH('a)" using bit_imp_le_length [of x "m + n"] by simp
  ultimately show "bit (ucast (drop_bit m (x AND push_bit m 0xff)) :: u8) n = bit (ucast (drop_bit m x) :: u8) n"
    by (auto simp: bit_ucast_iff bit_drop_bit_eq bit_and_iff bit_push_bit_iff bit_255_int)
qed

lemma be_octets_simp: "be_octets n x = map (\<lambda>i. ucast (drop_bit ((n - i - 1) * 8) x)) [0..<n]"
  unfolding be_octets_def Let_def be_octet ..

lemma unat_drop_bit: "unat (drop_bit m (x :: 'a::len word)) = unat x div 2 ^ m"
  unfolding unsigned_drop_bit_eq by (simp add: take_bit_nat_eq_self drop_bit_eq_div)

lemma octet_less: "unat (b :: u8) < 256"
  using unsigned_less [of b, where ?'a = nat] by simp

lemma unat_low16: "unat ((s :: addr) AND 0xffff) = unat s mod 65536"
proof -
  have "s AND 0xffff = take_bit 16 s" by (simp add: take_bit_eq_mask mask_eq_exp_minus_1)
  also have "\<dots> = s mod 2 ^ 16" by (rule take_bit_eq_mod)
  finally show ?thesis by (simp add: unat_mod)
qed

lemma unat_octet: "unat (ucast (drop_bit m (x :: 'a::len word)) :: u8) = unat x div 2 ^ m mod 256"
  by (simp only: unsigned_ucast_eq take_bit_eq_mod unat_drop_bit) simp

text \<open>Loading two octets, as numbers.\<close>

lemma unat_load16: "unat (le_load [a, b] :: u16) = unat a + 256 * unat b"
proof -
  have "ucast a OR push_bit 8 (ucast b :: u16) = ucast a + push_bit 8 (ucast b)"
    by (subst disjunctive_add) (auto simp: bit_simps dest: bit_imp_le_length)
  moreover have "unat a < 256" "unat b < 256" by (rule octet_less)+
  ultimately show ?thesis
    by (simp add: push_bit_eq_mult unat_word_ariths unsigned_ucast_eq take_bit_eq_mod)
qed

lemma unat_swap16: "unat (host_to_big_endian (x :: u16)) = 256 * (unat x mod 256) + unat x div 256"
proof -
  have x: "unat x < 65536" using unsigned_less [of x] by simp
  have "host_to_big_endian x = le_load [ucast (drop_bit 8 x), ucast (drop_bit 0 x)]"
    by (simp add: host_to_big_endian_def be_octets_simp upt_rec)
  then show ?thesis using x unfolding unat_octet by (simp only: unat_load16 unat_octet) simp
qed

lemma unat_not16: "unat (NOT (x :: u16)) = 65535 - unat x"
proof -
  have "NOT x = - 1 - x" by (simp add: not_eq_complement)
  moreover have "unat (- 1 - x) = unat (- 1 :: u16) - unat x" by (rule unat_sub_no_wrap) (simp add: word_order.extremum)
  ultimately show ?thesis by (simp add: unsigned_minus_1_eq_mask mask_eq_exp_minus_1)
qed


section \<open>The code\<close>

fun pair_sum :: "octets \<Rightarrow> addr \<Rightarrow> addr" where
  "pair_sum [] s = s"
| "pair_sum [b] s = s + ucast b"
| "pair_sum (b0 # b1 # bs) s = pair_sum bs (s + ucast (le_load [b0, b1] :: u16))"

lemma fold_step:
  assumes "drop_bit 16 s \<noteq> (0 :: addr)"
  shows "unat ((s AND 0xffff) + drop_bit 16 s) = unat s mod 65536 + unat s div 65536"
    and "unat ((s AND 0xffff) + drop_bit 16 s) < unat s"
proof -
  have u: "unat (drop_bit 16 s) = unat s div 65536" using unat_drop_bit [of 16 s] by simp
  have s: "unat s = 65536 * (unat s div 65536) + unat s mod 65536" by simp
  have "unat s div 65536 \<noteq> 0" using assms u by (simp add: word_unat_eq_iff)
  then have lt: "unat s mod 65536 + unat s div 65536 < unat s" using s by linarith
  then show e: "unat ((s AND 0xffff) + drop_bit 16 s) = unat s mod 65536 + unat s div 65536"
    using unat_less_64 [of s] by (subst unat_add_no_wrap) (simp_all add: unat_low16 u)
  show "unat ((s AND 0xffff) + drop_bit 16 s) < unat s" using lt e by simp
qed

function fold_sum :: "addr \<Rightarrow> addr" where
  "fold_sum s = (let sum_rsh = drop_bit 16 s in if sum_rsh \<noteq> 0 then fold_sum ((s AND 0xffff) + sum_rsh) else s)"
  by pat_completeness auto
termination
  by (relation "measure unat") (simp_all add: fold_step(2))

declare fold_sum.simps [simp del]

definition internet_checksum :: "octets \<Rightarrow> addr \<Rightarrow> u16" where
  "internet_checksum bs init_sum = NOT (ucast (fold_sum (pair_sum bs init_sum)))"

datatype l3_protocol = ICMP | TCP | UDP | Other_protocol u8

fun protocol_number :: "l3_protocol \<Rightarrow> u8" where
  "protocol_number ICMP = 1"
| "protocol_number TCP = 6"
| "protocol_number UDP = 17"
| "protocol_number (Other_protocol n) = n"

definition pseudo_sum :: "u16 \<Rightarrow> l3_protocol \<Rightarrow> ipv4_address \<Rightarrow> ipv4_address \<Rightarrow> addr" where
  "pseudo_sum ip_data_sz_be ip_prot ip_src ip_dst =
     ucast (host_to_big_endian (ucast (protocol_number ip_prot) :: u16)) + ucast ip_data_sz_be
     + (ucast (le_load (take 2 ip_src) :: u16) + ucast (le_load (take 2 ip_dst) :: u16))
     + (ucast (le_load (drop 2 ip_src) :: u16) + ucast (le_load (drop 2 ip_dst) :: u16))"

definition internet_checksum_pseudo_ip :: "octets \<Rightarrow> u16 \<Rightarrow> l3_protocol \<Rightarrow> ipv4_address \<Rightarrow> ipv4_address \<Rightarrow> u16" where
  "internet_checksum_pseudo_ip ip_data ip_data_sz_be ip_prot ip_src ip_dst =
     internet_checksum ip_data (pseudo_sum ip_data_sz_be ip_prot ip_src ip_dst)"


section \<open>The folded sum\<close>

text \<open>The only number from 1 to 65535 that is congruent to a positive sum.\<close>

definition folded :: "nat \<Rightarrow> nat" where
  "folded s = (if s = 0 then 0 else (s - 1) mod 65535 + 1)"

lemma folded_zero [simp]: "folded 0 = 0"
  by (simp add: folded_def)

lemma folded_le: "folded s \<le> 65535"
  by (simp add: folded_def less_Suc_eq_le [symmetric])

lemma folded_small: "s \<le> 65535 \<Longrightarrow> folded s = s"
  by (simp add: folded_def)

lemma folded_cong: "a mod 65535 = b mod 65535 \<Longrightarrow> (a = 0 \<longleftrightarrow> b = 0) \<Longrightarrow> folded a = folded b"
proof (cases "a = 0")
  case False
  assume c: "a mod 65535 = b mod 65535" "a = 0 \<longleftrightarrow> b = 0"
  then obtain x y where "a = Suc x" "b = Suc y" using False by (metis not0_implies_Suc)
  moreover from this c have "(Suc x + 65534) mod 65535 = (Suc y + 65534) mod 65535" by (intro mod_add_cong) simp_all
  then have "x mod 65535 = y mod 65535" by simp
  ultimately show ?thesis by (simp add: folded_def)
qed (simp add: folded_def)

lemma folded_mod: "folded s mod 65535 = s mod 65535"
  by (cases s) (simp_all add: folded_def mod_Suc_eq)

lemma folded_div: "\<exists>q. s = 65535 * q + folded s"
  by (cases s) (auto simp: folded_def intro!: exI [of _ "(s - 1) div 65535"])

lemma folded_0: "folded s = 0 \<longleftrightarrow> s = 0"
  by (simp add: folded_def)

lemma folded_max: "folded s = 65535 \<longleftrightarrow> s \<noteq> 0 \<and> s mod 65535 = 0"
proof
  assume "folded s = 65535"
  then show "s \<noteq> 0 \<and> s mod 65535 = 0" using folded_mod [of s] by (auto simp: folded_def split: if_splits)
next
  assume "s \<noteq> 0 \<and> s mod 65535 = 0"
  then show "folded s = 65535" using folded_cong [of s 65535] by (simp add: folded_small)
qed

lemma folded_carry: "folded (s mod 65536 + s div 65536) = folded s"
proof (rule folded_cong)
  have e: "s = 65536 * (s div 65536) + s mod 65536" by simp
  then have "s = s mod 65536 + s div 65536 + 65535 * (s div 65536)" by linarith
  then show "(s mod 65536 + s div 65536) mod 65535 = s mod 65535" by (metis mod_mult_self2)
  show "s mod 65536 + s div 65536 = 0 \<longleftrightarrow> s = 0" using e by (cases "s = 0") (simp, linarith)
qed

lemma unat_fold_sum: "unat (fold_sum s) = folded (unat s)"
proof (induction s rule: fold_sum.induct)
  case (1 s)
  have u: "unat (drop_bit 16 s) = unat s div 65536" using unat_drop_bit [of 16 s] by simp
  show ?case
  proof (cases "drop_bit 16 s = 0")
    case True
    then have "unat s < 65536" using u by (metis div_eq_0_iff unsigned_0 zero_neq_numeral)
    then show ?thesis using True by (subst fold_sum.simps) (simp add: folded_small Let_def)
  next
    case False
    then show ?thesis using 1 folded_carry [of "unat s"] fold_step(1) [OF False]
      by (subst fold_sum.simps) (simp add: Let_def)
  qed
qed

fun le_sum :: "octets \<Rightarrow> nat" where
  "le_sum [] = 0"
| "le_sum [b] = unat b"
| "le_sum (b0 # b1 # bs) = unat b0 + 256 * unat b1 + le_sum bs"

lemma le_sum_bound: "le_sum bs \<le> 65535 * length bs"
proof (induction bs rule: le_sum.induct)
  case (2 b)
  then show ?case using octet_less [of b] by simp
next
  case (3 b0 b1 bs)
  then show ?case using octet_less [of b0] octet_less [of b1] by simp
qed simp

lemma unat_pair_sum: "unat s + le_sum bs < 2 ^ 64 \<Longrightarrow> unat (pair_sum bs s) = unat s + le_sum bs"
proof (induction bs s rule: pair_sum.induct)
  case (2 b s)
  then show ?case by (simp add: unat_add_no_wrap unsigned_ucast_eq take_bit_nat_eq_self)
next
  case (3 b0 b1 bs s)
  have "unat (ucast (le_load [b0, b1] :: u16) :: addr) = unat b0 + 256 * unat b1"
    by (simp only: unsigned_ucast_eq unat_load16) (use octet_less [of b0] octet_less [of b1] in \<open>simp add: take_bit_nat_eq_self\<close>)
  then have "unat (s + ucast (le_load [b0, b1] :: u16)) = unat s + (unat b0 + 256 * unat b1)"
    using 3(2) by (subst unat_add_no_wrap) simp_all
  then show ?case using 3 by simp
qed simp

lemma internet_checksum_folded:
  assumes "unat s + le_sum bs < 2 ^ 64"
  shows "unat (internet_checksum bs s) = 65535 - folded (unat s + le_sum bs)"
proof -
  have "unat (ucast (fold_sum (pair_sum bs s)) :: u16) = folded (unat s + le_sum bs)"
    using folded_le [of "unat s + le_sum bs"] unat_pair_sum [OF assms]
    by (simp add: unsigned_ucast_eq unat_fold_sum take_bit_nat_eq_self)
  then show ?thesis by (simp add: internet_checksum_def unat_not16)
qed


section \<open>Octets of the sum\<close>

definition weight :: "nat \<Rightarrow> nat" where
  "weight i = (if even i then 1 else 256)"

lemma le_sum_weights: "le_sum bs = (\<Sum>i<length bs. weight i * unat (bs ! i))"
proof (induction bs rule: le_sum.induct)
  case (3 b0 b1 bs)
  have "(\<Sum>i<Suc (Suc (length bs)). weight i * unat ((b0 # b1 # bs) ! i))
      = unat b0 + (256 * unat b1 + (\<Sum>i<length bs. weight i * unat (bs ! i)))"
    by (simp only: sum.lessThan_Suc_shift) (simp add: weight_def)
  then show ?case using 3 by simp
qed (simp_all add: weight_def)

lemma le_sum_update:
  assumes "i < length bs"
  shows "le_sum (bs[i := b]) + weight i * unat (bs ! i) = le_sum bs + weight i * unat b"
proof -
  have fin: "finite {..<length bs}" and mem: "i \<in> {..<length bs}" using assms by simp_all
  have "le_sum (bs[i := b]) = weight i * unat b + (\<Sum>j\<in>{..<length bs} - {i}. weight j * unat (bs ! j))"
    using assms by (simp add: le_sum_weights sum.remove [OF fin mem])
  moreover have "le_sum bs = weight i * unat (bs ! i) + (\<Sum>j\<in>{..<length bs} - {i}. weight j * unat (bs ! j))"
    by (simp add: le_sum_weights sum.remove [OF fin mem])
  ultimately show ?thesis by simp
qed

text \<open>A 16-bit field of the memory.\<close>

definition load16 :: "nat \<Rightarrow> octets \<Rightarrow> u16" where
  "load16 off p = le_load [p ! off, p ! (off + 1)]"

definition store16 :: "nat \<Rightarrow> u16 \<Rightarrow> octets \<Rightarrow> octets" where
  "store16 off w p = p[off := ucast w, off + 1 := ucast (drop_bit 8 w)]"

lemma length_store16 [simp]: "length (store16 off w p) = length p"
  by (simp add: store16_def)

lemma load16_bits: "bit (load16 off p) k \<longleftrightarrow> (if k < 8 then bit (p ! off) k else bit (p ! (off + 1)) (k - 8))"
  by (auto simp: load16_def bit_simps dest: bit_imp_le_length)

lemma load_store16 [simp]: "off + 1 < length p \<Longrightarrow> load16 off (store16 off w p) = w"
  by (rule bit_word_eqI) (auto simp: load16_bits store16_def bit_simps)

lemma unat_store16: "unat (ucast w :: u8) + 256 * unat (ucast (drop_bit 8 w) :: u8) = unat (w :: u16)"
proof -
  have "w = le_load [ucast w, ucast (drop_bit 8 w)]" by (rule bit_word_eqI) (auto simp: bit_simps)
  then show ?thesis by (metis unat_load16)
qed

lemma le_sum_store16:
  assumes "even off" "off + 1 < length p"
  shows "le_sum (store16 off w (store16 off 0 p)) = le_sum (store16 off 0 p) + unat w"
proof -
  let ?p = "store16 off 0 p" and ?q = "(store16 off 0 p)[off := ucast w]"
  have z: "?p ! off = 0" "?p ! (off + 1) = 0" using assms(2) by (simp_all add: store16_def)
  have "le_sum ?q = le_sum ?p + unat (ucast w :: u8)"
    using le_sum_update [of off ?p "ucast w"] assms z by (simp add: weight_def)
  moreover have "le_sum (?q[off + 1 := ucast (drop_bit 8 w)]) = le_sum ?q + 256 * unat (ucast (drop_bit 8 w) :: u8)"
    using le_sum_update [of "off + 1" ?q "ucast (drop_bit 8 w)"] assms z by (simp add: weight_def)
  ultimately show ?thesis using unat_store16 [of w] by (simp add: store16_def)
qed

text \<open>Whoever stores the checksum of a memory area with a zero in its place makes the area verify.\<close>

lemma checksum_stored:
  assumes "even off" "off + 1 < length p" and b: "unat s + 65535 * length p + 65535 < 2 ^ 64"
  shows "internet_checksum (store16 off (internet_checksum (store16 off 0 p) s) (store16 off 0 p)) s = 0"
proof -
  define S where "S = unat s + le_sum (store16 off 0 p)"
  define c where "c = internet_checksum (store16 off 0 p) s"
  have le: "le_sum (store16 off 0 p) \<le> 65535 * length p" using le_sum_bound [of "store16 off 0 p"] by simp
  have c: "unat c = 65535 - folded S" unfolding c_def S_def
    using le b by (intro internet_checksum_folded) simp
  have sum: "unat s + le_sum (store16 off c (store16 off 0 p)) = S + (65535 - folded S)"
    unfolding le_sum_store16 [OF assms(1,2)] S_def by (simp add: c S_def)
  have "folded (S + (65535 - folded S)) = 65535"
  proof -
    obtain q where q: "S = 65535 * q + folded S" using folded_div by blast
    have "s + (65535 - f) = 65535 * (q + 1)" if "s = 65535 * q + f" "f \<le> 65535" for s f :: nat using that by simp
    then have "S + (65535 - folded S) = 65535 * (q + 1)" using q folded_le by blast
    then have "(S + (65535 - folded S)) mod 65535 = 0" by simp
    moreover have "S + (65535 - folded S) \<noteq> 0" using folded_0 [of S] by auto
    ultimately show ?thesis by (simp add: folded_max)
  qed
  then have "unat (internet_checksum (store16 off c (store16 off 0 p)) s) = 0"
    using le b folded_le [of S] by (subst internet_checksum_folded) (simp_all add: sum, simp add: S_def)
  then show ?thesis by (simp add: c_def word_unat_eq_iff)
qed


text \<open>And the change of a single octet is noticed.\<close>

lemma checksum_0:
  assumes "unat s + 65535 * length p < 2 ^ 64"
  shows "internet_checksum p s = 0 \<longleftrightarrow> unat s + le_sum p \<noteq> 0 \<and> (unat s + le_sum p) mod 65535 = 0"
proof -
  have "unat (internet_checksum p s) = 65535 - folded (unat s + le_sum p)"
    using assms le_sum_bound [of p] by (intro internet_checksum_folded) simp
  then have "internet_checksum p s = 0 \<longleftrightarrow> folded (unat s + le_sum p) = 65535"
    using folded_le [of "unat s + le_sum p"] by (auto simp: word_unat_eq_iff)
  then show ?thesis by (simp add: folded_max)
qed

lemma same_residue:
  fixes m n x y :: nat
  assumes "m mod k = 0" "n mod k = 0" "m + x = n + y"
  shows "x mod k = y mod k"
proof -
  have "x mod k = (m + x) mod k" using assms(1) mod_add_left_eq [of m k x] by simp
  also have "\<dots> = (n + y) mod k" by (simp add: assms(3))
  also have "\<dots> = y mod k" using assms(2) mod_add_left_eq [of n k y] by simp
  finally show ?thesis .
qed

lemma single_octet_noticed:
  assumes b: "unat s + 65535 * length p < 2 ^ 64" and ok: "internet_checksum p s = 0"
    and i: "i < length p" and new: "b \<noteq> p ! i"
  shows "internet_checksum (p[i := b]) s \<noteq> 0"
proof
  assume "internet_checksum (p[i := b]) s = 0"
  then have m': "(unat s + le_sum (p[i := b])) mod 65535 = 0" using checksum_0 [of s "p[i := b]"] b by simp
  have m: "(unat s + le_sum p) mod 65535 = 0" using checksum_0 [OF b] ok by simp
  have "unat s + le_sum (p[i := b]) + weight i * unat (p ! i) = unat s + le_sum p + weight i * unat b"
    using le_sum_update [OF i, of b] by simp
  then have "(weight i * unat (p ! i)) mod 65535 = (weight i * unat b) mod 65535" by (rule same_residue [OF m' m])
  moreover have "weight i * unat x < 65535" for x :: u8
    using octet_less [of x] by (simp add: weight_def)
  ultimately have "weight i * unat (p ! i) = weight i * unat b" by simp
  then show False using new by (simp add: weight_def word_unat_eq_iff split: if_splits)
qed


section \<open>The ones' complement sum in network order\<close>

definition ones_add :: "nat \<Rightarrow> nat \<Rightarrow> nat" where
  "ones_add a b = (if a + b < 65536 then a + b else a + b - 65535)"

fun network_words :: "octets \<Rightarrow> nat list" where
  "network_words [] = []"
| "network_words [b] = [256 * unat b]"
| "network_words (b0 # b1 # bs) = (256 * unat b0 + unat b1) # network_words bs"

definition ones_sum :: "nat list \<Rightarrow> nat" where
  "ones_sum ws = foldl ones_add 0 ws"

lemma ones_add_folded:
  assumes "b < 65536"
  shows "ones_add (folded a) b = folded (a + b)"
proof (cases "folded a + b = 0")
  case True
  then show ?thesis by (simp add: ones_add_def folded_0)
next
  case False
  obtain q where q: "a = 65535 * q + folded a" using folded_div by blast
  have "folded a + b \<le> 65535 + 65535" using assms folded_le [of a] by linarith
  then have "ones_add (folded a) b \<le> 65535" by (auto simp: ones_add_def)
  then have "ones_add (folded a) b = folded (ones_add (folded a) b)" by (simp add: folded_small)
  also have "\<dots> = folded (a + b)"
  proof (rule folded_cong)
    have "(folded a + b) mod 65535 = (a + b) mod 65535" by (metis folded_mod mod_add_left_eq)
    then show "ones_add (folded a) b mod 65535 = (a + b) mod 65535"
      by (auto simp: ones_add_def le_mod_geq)
    show "ones_add (folded a) b = 0 \<longleftrightarrow> a + b = 0" using False by (auto simp: ones_add_def folded_def)
  qed
  finally show ?thesis .
qed

lemma foldl_ones_add: "\<forall>w\<in>set ws. w < 65536 \<Longrightarrow> foldl ones_add (folded a) ws = folded (a + sum_list ws)"
  by (induction ws arbitrary: a) (simp_all add: ones_add_folded add.assoc)

lemma network_words_less: "w \<in> set (network_words bs) \<Longrightarrow> w < 65536"
proof (induction bs rule: network_words.induct)
  case (2 b)
  then show ?case using octet_less [of b] by simp
next
  case (3 b0 b1 bs)
  then show ?case using octet_less [of b0] octet_less [of b1] by auto
qed simp

lemma network_sum: "\<exists>q. 256 * le_sum bs = sum_list (network_words bs) + 65535 * q"
proof (induction bs rule: network_words.induct)
  case (2 b)
  then show ?case by (intro exI [of _ 0]) simp
next
  case (3 b0 b1 bs)
  then obtain q where "256 * le_sum bs = sum_list (network_words bs) + 65535 * q" by blast
  then show ?case by (intro exI [of _ "q + unat b1"]) simp
qed simp

lemma le_sum_0: "le_sum bs = 0 \<longleftrightarrow> sum_list (network_words bs) = 0"
  by (induction bs rule: network_words.induct) auto

lemma swap_folded: "x = folded s \<Longrightarrow> 256 * (x mod 256) + x div 256 = folded (256 * s)"
proof -
  assume x: "x = folded s"
  define h l y where "h = x div 256" and "l = x mod 256" and "y = 256 * (x mod 256) + x div 256"
  have xy: "x = 256 * h + l" "y = 256 * l + h" by (simp_all add: h_def l_def y_def)
  moreover have "x \<le> 65535" using folded_le x by simp
  ultimately have "h < 256" by linarith
  moreover have "l < 256" by (simp add: l_def)
  ultimately have "y \<le> 65535" using xy by linarith
  moreover have "256 * x = y + 65535 * h" using xy by simp
  then have "y mod 65535 = (256 * x) mod 65535" by simp
  moreover have "(256 * x) mod 65535 = (256 * s) mod 65535" unfolding x by (metis folded_mod mod_mult_right_eq)
  moreover have "y = 0 \<longleftrightarrow> s = 0" using x folded_0 [of s] xy by auto
  ultimately have "folded y = folded (256 * s)" by (intro folded_cong) simp_all
  then show ?thesis using \<open>y \<le> 65535\<close> by (simp add: folded_small y_def)
qed


lemma swap_complement:
  fixes x :: nat
  assumes "x \<le> 65535"
  shows "256 * ((65535 - x) mod 256) + (65535 - x) div 256 = 65535 - (256 * (x mod 256) + x div 256)"
proof -
  define h l where "h = x div 256" and "l = x mod 256"
  have "x = 256 * h + l" by (simp add: h_def l_def)
  moreover have "l < 256" by (simp add: l_def)
  moreover from calculation assms have "h < 256" by linarith
  ultimately have e: "65535 - x = 256 * (255 - h) + (255 - l)" "255 - l < 256" by simp_all
  then have "(65535 - x) mod 256 = 255 - l" "(65535 - x) div 256 = 255 - h" by simp_all
  then show ?thesis using \<open>l < 256\<close> \<open>h < 256\<close> by (simp add: h_def [symmetric] l_def [symmetric])
qed


section \<open>Properties\<close>

text \<open>
  C31  The fast computation on the host's words agrees with the definition of the Internet checksum: in
  network order, the result is the complement of the ones' complement sum of the words in network order.
\<close>

theorem internet_checksum_ones_complement:
  assumes "65535 * length bs < 2 ^ 64"
  shows "unat (host_to_big_endian (internet_checksum bs 0)) = 65535 - ones_sum (network_words bs)"
proof -
  define L where "L = le_sum bs"
  have "unat (internet_checksum bs 0) = 65535 - folded L"
    using assms le_sum_bound [of bs] internet_checksum_folded [of 0 bs] by (simp add: L_def)
  then have "unat (host_to_big_endian (internet_checksum bs 0)) = 65535 - folded (256 * L)"
    unfolding unat_swap16 using swap_complement [of "folded L"] swap_folded [of "folded L" L] folded_le [of L] by simp
  moreover have "folded (256 * L) = folded (sum_list (network_words bs))"
  proof (rule folded_cong)
    obtain q where "256 * L = sum_list (network_words bs) + 65535 * q" using network_sum by (auto simp: L_def)
    then show "256 * L mod 65535 = sum_list (network_words bs) mod 65535" by simp
    show "256 * L = 0 \<longleftrightarrow> sum_list (network_words bs) = 0" using le_sum_0 [of bs] by (simp add: L_def)
  qed
  moreover have "ones_sum (network_words bs) = folded (sum_list (network_words bs))"
    using foldl_ones_add [of "network_words bs" 0] network_words_less by (auto simp: ones_sum_def folded_0)
  ultimately show ?thesis by simp
qed

theorem internet_checksum_ones_complement_witness:
  "unat (host_to_big_endian (internet_checksum [0x45, 0, 0, 0x1c, 0xff] 0)) = 65535 - ones_sum (network_words [0x45, 0, 0, 0x1c, 0xff])"
  using internet_checksum_ones_complement [of "[0x45, 0, 0, 0x1c, 0xff]"] by simp

end
