(* ===== verification/Net_Packets.thy ===== *)
theory Net_Packets
  imports Net_Checksum Registers
begin

text \<open>
  The packet headers of \<open>os/include/net\<close>: Ethernet, ARP, IPv4, UDP, TCP and ICMP.  A header class is laid over
  the octets of a packet, so an accessor is a function of the packet and of the offset of the header.
  Bit-fields are allocated from the least significant bit, as on the little-endian targets.
\<close>

section \<open>Octets of a packet\<close>

definition load :: "nat \<Rightarrow> nat \<Rightarrow> octets \<Rightarrow> octets" where
  "load n off p = take n (drop off p)"

definition patch :: "nat \<Rightarrow> octets \<Rightarrow> octets \<Rightarrow> octets" where
  "patch off bs p = take off p @ bs @ drop (off + length bs) p"

definition load_be16 :: "nat \<Rightarrow> octets \<Rightarrow> u16" where
  "load_be16 off p = host_to_big_endian (load16 off p)"

definition store_be16 :: "nat \<Rightarrow> u16 \<Rightarrow> octets \<Rightarrow> octets" where
  "store_be16 off v p = store16 off (host_to_big_endian v) p"

definition load_be32 :: "nat \<Rightarrow> octets \<Rightarrow> u32" where
  "load_be32 off p = host_to_big_endian (le_load (load 4 off p))"

definition store_be32 :: "nat \<Rightarrow> u32 \<Rightarrow> octets \<Rightarrow> octets" where
  "store_be32 off v p = patch off (le_store 4 (host_to_big_endian v)) p"

lemma length_load [simp]: "off + n \<le> length p \<Longrightarrow> length (load n off p) = n"
  by (simp add: load_def)

lemma length_patch [simp]: "off + length bs \<le> length p \<Longrightarrow> length (patch off bs p) = length p"
  by (simp add: patch_def)

lemma load_patch [simp]: "off + length bs \<le> length p \<Longrightarrow> n = length bs \<Longrightarrow> load n off (patch off bs p) = bs"
  by (simp add: load_def patch_def)

lemma nth_patch:
  assumes "off + length bs \<le> length p" "i < length p"
  shows "patch off bs p ! i = (if off \<le> i \<and> i < off + length bs then bs ! (i - off) else p ! i)"
proof -
  consider "i < off" | k where "i = off + k" "k < length bs" | k where "i = off + (length bs + k)"
    by (metis add.assoc le_Suc_ex nat_add_left_cancel_less not_less)
  then show ?thesis using assms by cases (simp_all add: patch_def nth_append add.assoc)
qed

lemma nth_load: "i < n \<Longrightarrow> off + i < length p \<Longrightarrow> load n off p ! i = p ! (off + i)"
  by (simp add: load_def)

lemma load_patch_other [simp]:
  assumes b: "off + length bs \<le> length p" and dj: "o' + n \<le> off \<or> off + length bs \<le> o'"
  shows "load n o' (patch off bs p) = load n o' p"
proof (rule nth_equalityI)
  show "length (load n o' (patch off bs p)) = length (load n o' p)" using b by (simp add: load_def)
  fix i
  assume "i < length (load n o' (patch off bs p))"
  then have "i < n \<and> i < length p - o'" using b by (simp add: load_def)
  then have i: "i < n" "o' + i < length p" by linarith+
  have "\<not> (off \<le> o' + i \<and> o' + i < off + length bs)" using dj i(1) by linarith
  then have "patch off bs p ! (o' + i) = p ! (o' + i)" using nth_patch [OF b i(2)] by (simp only: if_False)
  then show "load n o' (patch off bs p) ! i = load n o' p ! i" using b i by (simp add: nth_load)
qed

lemma patch_id: "off + n \<le> length p \<Longrightarrow> patch off (load n off p) p = p"
  by (simp add: patch_def) (simp add: load_def take_add [symmetric] flip: append_assoc)

lemma load16_load: "off + 2 \<le> length p \<Longrightarrow> load16 off p = le_load (load 2 off p)"
proof -
  assume a: "off + 2 \<le> length p"
  then have "load 2 off p = [p ! off, p ! (off + 1)]"
    by (simp add: load_def take_Suc_conv_app_nth numeral_2_eq_2)
  then show ?thesis by (simp add: load16_def)
qed

lemma store16_patch:
  assumes "off + 2 \<le> length p"
  shows "store16 off w p = patch off [ucast w, ucast (drop_bit 8 w)] p"
proof (rule nth_equalityI)
  show "length (store16 off w p) = length (patch off [ucast w, ucast (drop_bit 8 w)] p)" using assms by simp
  fix i
  assume "i < length (store16 off w p)"
  then have i: "i < length p" by simp
  have "off \<le> i \<and> i < off + 2 \<longleftrightarrow> i = off \<or> i = off + 1" by linarith
  then show "store16 off w p ! i = patch off [ucast w, ucast (drop_bit 8 w)] p ! i"
    using assms i by (subst nth_patch) (auto simp: store16_def)
qed

lemma load16_patch_other [simp]:
  "off + length bs \<le> length p \<Longrightarrow> o' + 2 \<le> length p \<Longrightarrow> o' + 2 \<le> off \<or> off + length bs \<le> o' \<Longrightarrow>
     load16 o' (patch off bs p) = load16 o' p"
  by (simp add: load16_load)

lemma load_store16_other [simp]:
  "off + 2 \<le> length p \<Longrightarrow> o' + n \<le> off \<or> off + 2 \<le> o' \<Longrightarrow> load n o' (store16 off w p) = load n o' p"
  by (simp add: store16_patch)

lemma load16_store16_other [simp]:
  "off + 2 \<le> length p \<Longrightarrow> o' + 2 \<le> length p \<Longrightarrow> o' + 2 \<le> off \<or> off + 2 \<le> o' \<Longrightarrow>
     load16 o' (store16 off w p) = load16 o' p"
  by (simp add: store16_patch)

lemma be16_twice [simp]: "host_to_big_endian (host_to_big_endian v) = (v :: u16)"
proof -
  have "unat (host_to_big_endian (host_to_big_endian v)) = unat v"
  proof -
    define h l where "h = unat v div 256" and "l = unat v mod 256"
    have v: "unat v = 256 * h + l" by (simp add: h_def l_def)
    moreover have "unat v < 65536" using unsigned_less [of v, where ?'a = nat] by simp
    ultimately have "h < 256" by linarith
    then show ?thesis unfolding unat_swap16 v using \<open>l = unat v mod 256\<close> by simp
  qed
  then show ?thesis by (simp add: word_unat_eq_iff)
qed

lemma load_store_be16 [simp]: "off + 2 \<le> length p \<Longrightarrow> load_be16 off (store_be16 off v p) = v"
  by (simp add: load_be16_def store_be16_def)

lemma load_be16_other [simp]:
  "off + 2 \<le> length p \<Longrightarrow> o' + 2 \<le> length p \<Longrightarrow> o' + 2 \<le> off \<or> off + 2 \<le> o' \<Longrightarrow>
     load_be16 o' (store_be16 off w p) = load_be16 o' p"
  "off + length bs \<le> length p \<Longrightarrow> o' + 2 \<le> length p \<Longrightarrow> o' + 2 \<le> off \<or> off + length bs \<le> o' \<Longrightarrow>
     load_be16 o' (patch off bs p) = load_be16 o' p"
  "off + 2 \<le> length p \<Longrightarrow> o' + n \<le> off \<or> off + 2 \<le> o' \<Longrightarrow> load n o' (store_be16 off w p) = load n o' p"
  "length (store_be16 off w p) = length p"
  by (simp_all add: load_be16_def store_be16_def)


section \<open>Ethernet and ARP\<close>

abbreviation ETH_SIZE :: nat where "ETH_SIZE \<equiv> 14"

definition eth_dst :: "nat \<Rightarrow> octets \<Rightarrow> mac_address" where "eth_dst b p = load 6 b p"
definition eth_src :: "nat \<Rightarrow> octets \<Rightarrow> mac_address" where "eth_src b p = load 6 (b + 6) p"
definition eth_type :: "nat \<Rightarrow> octets \<Rightarrow> u16" where "eth_type b p = load_be16 (b + 12) p"

definition set_eth_dst :: "nat \<Rightarrow> mac_address \<Rightarrow> octets \<Rightarrow> octets" where "set_eth_dst b v p = patch b v p"
definition set_eth_src :: "nat \<Rightarrow> mac_address \<Rightarrow> octets \<Rightarrow> octets" where "set_eth_src b v p = patch (b + 6) v p"
definition set_eth_type :: "nat \<Rightarrow> u16 \<Rightarrow> octets \<Rightarrow> octets" where "set_eth_type b v p = store_be16 (b + 12) v p"

abbreviation ETH_IPV4 :: u16 where "ETH_IPV4 \<equiv> 0x0800"
abbreviation ETH_ARP :: u16 where "ETH_ARP \<equiv> 0x0806"

abbreviation ARP_SIZE :: nat where "ARP_SIZE \<equiv> 28"

definition arp_hardware_address_type :: "nat \<Rightarrow> octets \<Rightarrow> u16" where "arp_hardware_address_type b p = load_be16 b p"
definition arp_protocol_address_type :: "nat \<Rightarrow> octets \<Rightarrow> u16" where "arp_protocol_address_type b p = load_be16 (b + 2) p"
definition arp_hardware_address_size :: "nat \<Rightarrow> octets \<Rightarrow> u8" where "arp_hardware_address_size b p = p ! (b + 4)"
definition arp_protocol_address_size :: "nat \<Rightarrow> octets \<Rightarrow> u8" where "arp_protocol_address_size b p = p ! (b + 5)"
definition arp_opcode :: "nat \<Rightarrow> octets \<Rightarrow> u16" where "arp_opcode b p = load_be16 (b + 6) p"
definition arp_src_mac :: "nat \<Rightarrow> octets \<Rightarrow> mac_address" where "arp_src_mac b p = load 6 (b + 8) p"
definition arp_src_ip :: "nat \<Rightarrow> octets \<Rightarrow> ipv4_address" where "arp_src_ip b p = load 4 (b + 14) p"
definition arp_dst_mac :: "nat \<Rightarrow> octets \<Rightarrow> mac_address" where "arp_dst_mac b p = load 6 (b + 18) p"
definition arp_dst_ip :: "nat \<Rightarrow> octets \<Rightarrow> ipv4_address" where "arp_dst_ip b p = load 4 (b + 24) p"

definition set_arp_hardware_address_type :: "nat \<Rightarrow> u16 \<Rightarrow> octets \<Rightarrow> octets" where
  "set_arp_hardware_address_type b v p = store_be16 b v p"
definition set_arp_protocol_address_type :: "nat \<Rightarrow> u16 \<Rightarrow> octets \<Rightarrow> octets" where
  "set_arp_protocol_address_type b v p = store_be16 (b + 2) v p"
definition set_arp_hardware_address_size :: "nat \<Rightarrow> u8 \<Rightarrow> octets \<Rightarrow> octets" where
  "set_arp_hardware_address_size b v p = p[b + 4 := v]"
definition set_arp_protocol_address_size :: "nat \<Rightarrow> u8 \<Rightarrow> octets \<Rightarrow> octets" where
  "set_arp_protocol_address_size b v p = p[b + 5 := v]"
definition set_arp_opcode :: "nat \<Rightarrow> u16 \<Rightarrow> octets \<Rightarrow> octets" where "set_arp_opcode b v p = store_be16 (b + 6) v p"
definition set_arp_src_mac :: "nat \<Rightarrow> mac_address \<Rightarrow> octets \<Rightarrow> octets" where "set_arp_src_mac b v p = patch (b + 8) v p"
definition set_arp_src_ip :: "nat \<Rightarrow> ipv4_address \<Rightarrow> octets \<Rightarrow> octets" where "set_arp_src_ip b v p = patch (b + 14) v p"
definition set_arp_dst_mac :: "nat \<Rightarrow> mac_address \<Rightarrow> octets \<Rightarrow> octets" where "set_arp_dst_mac b v p = patch (b + 18) v p"
definition set_arp_dst_ip :: "nat \<Rightarrow> ipv4_address \<Rightarrow> octets \<Rightarrow> octets" where "set_arp_dst_ip b v p = patch (b + 24) v p"

definition arp_ethernet_ipv4 :: "nat \<Rightarrow> octets \<Rightarrow> bool" where
  "arp_ethernet_ipv4 b p \<longleftrightarrow>
     arp_hardware_address_type b p = 1 \<and> arp_protocol_address_type b p = ETH_IPV4
     \<and> arp_hardware_address_size b p = 6 \<and> arp_protocol_address_size b p = 4"


section \<open>IPv4\<close>

abbreviation IP_SIZE :: nat where "IP_SIZE \<equiv> 20"

definition ip_header_length :: "nat \<Rightarrow> octets \<Rightarrow> size" where "ip_header_length b p = ucast (p ! b AND 0xf)"
definition ip_version :: "nat \<Rightarrow> octets \<Rightarrow> u8" where "ip_version b p = drop_bit 4 (p ! b)"
definition ip_diff_service :: "nat \<Rightarrow> octets \<Rightarrow> u8" where "ip_diff_service b p = p ! (b + 1) AND 0x3f"
definition ip_ecn :: "nat \<Rightarrow> octets \<Rightarrow> u8" where "ip_ecn b p = drop_bit 6 (p ! (b + 1))"
definition ip_total_length :: "nat \<Rightarrow> octets \<Rightarrow> size" where "ip_total_length b p = ucast (load_be16 (b + 2) p)"
definition ip_identification :: "nat \<Rightarrow> octets \<Rightarrow> u16" where "ip_identification b p = load_be16 (b + 4) p"
definition ip_flags :: "nat \<Rightarrow> octets \<Rightarrow> u8" where "ip_flags b p = p ! (b + 6) AND 0x7"
definition ip_fragment_offset :: "nat \<Rightarrow> octets \<Rightarrow> size" where "ip_fragment_offset b p = ucast (drop_bit 3 (load16 (b + 6) p))"
definition ip_time_to_live :: "nat \<Rightarrow> octets \<Rightarrow> u8" where "ip_time_to_live b p = p ! (b + 8)"

definition ip_protocol :: "nat \<Rightarrow> octets \<Rightarrow> l3_protocol" where
  "ip_protocol b p =
     (let n = p ! (b + 9) in if n = 1 then ICMP else if n = 6 then TCP else if n = 17 then UDP else Other_protocol n)"

definition ip_checksum :: "nat \<Rightarrow> octets \<Rightarrow> u16" where "ip_checksum b p = load_be16 (b + 10) p"
definition ip_src :: "nat \<Rightarrow> octets \<Rightarrow> ipv4_address" where "ip_src b p = load 4 (b + 12) p"
definition ip_dst :: "nat \<Rightarrow> octets \<Rightarrow> ipv4_address" where "ip_dst b p = load 4 (b + 16) p"

definition set_ip_header_length :: "nat \<Rightarrow> size \<Rightarrow> octets \<Rightarrow> octets" where
  "set_ip_header_length b v p = p[b := (p ! b AND 0xf0) OR (ucast v AND 0xf)]"
definition set_ip_version :: "nat \<Rightarrow> u8 \<Rightarrow> octets \<Rightarrow> octets" where
  "set_ip_version b v p = p[b := (p ! b AND 0xf) OR push_bit 4 v]"
definition set_ip_diff_service :: "nat \<Rightarrow> u8 \<Rightarrow> octets \<Rightarrow> octets" where
  "set_ip_diff_service b v p = p[b + 1 := (p ! (b + 1) AND 0xc0) OR (v AND 0x3f)]"
definition set_ip_ecn :: "nat \<Rightarrow> u8 \<Rightarrow> octets \<Rightarrow> octets" where
  "set_ip_ecn b v p = p[b + 1 := (p ! (b + 1) AND 0x3f) OR push_bit 6 v]"
definition set_ip_total_length :: "nat \<Rightarrow> size \<Rightarrow> octets \<Rightarrow> octets" where
  "set_ip_total_length b v p = store_be16 (b + 2) (ucast v) p"
definition set_ip_identification :: "nat \<Rightarrow> u16 \<Rightarrow> octets \<Rightarrow> octets" where
  "set_ip_identification b v p = store_be16 (b + 4) v p"
definition set_ip_flags :: "nat \<Rightarrow> u8 \<Rightarrow> octets \<Rightarrow> octets" where
  "set_ip_flags b v p = p[b + 6 := (p ! (b + 6) AND 0xf8) OR (v AND 0x7)]"
definition set_ip_fragment_offset :: "nat \<Rightarrow> size \<Rightarrow> octets \<Rightarrow> octets" where
  "set_ip_fragment_offset b v p = store16 (b + 6) ((load16 (b + 6) p AND 0x7) OR push_bit 3 (ucast v)) p"
definition set_ip_time_to_live :: "nat \<Rightarrow> u8 \<Rightarrow> octets \<Rightarrow> octets" where "set_ip_time_to_live b v p = p[b + 8 := v]"
definition set_ip_protocol :: "nat \<Rightarrow> l3_protocol \<Rightarrow> octets \<Rightarrow> octets" where
  "set_ip_protocol b v p = p[b + 9 := protocol_number v]"
definition set_ip_checksum :: "nat \<Rightarrow> u16 \<Rightarrow> octets \<Rightarrow> octets" where "set_ip_checksum b v p = store_be16 (b + 10) v p"
definition set_ip_src :: "nat \<Rightarrow> ipv4_address \<Rightarrow> octets \<Rightarrow> octets" where "set_ip_src b v p = patch (b + 12) v p"
definition set_ip_dst :: "nat \<Rightarrow> ipv4_address \<Rightarrow> octets \<Rightarrow> octets" where "set_ip_dst b v p = patch (b + 16) v p"

definition ip_size :: "nat \<Rightarrow> size \<Rightarrow> octets \<Rightarrow> size" where
  "ip_size b max_size p = (let stated_size = ip_total_length b p in if stated_size < max_size then stated_size else max_size)"

definition ip_update_checksum :: "nat \<Rightarrow> octets \<Rightarrow> octets" where
  "ip_update_checksum b p =
     (let p = store16 (b + 10) 0 p in store16 (b + 10) (internet_checksum (load IP_SIZE b p) 0) p)"

definition ip_checksum_error :: "nat \<Rightarrow> octets \<Rightarrow> bool" where
  "ip_checksum_error b p \<longleftrightarrow> internet_checksum (load IP_SIZE b p) 0 \<noteq> 0"



section \<open>UDP, TCP and ICMP\<close>

abbreviation UDP_SIZE :: nat where "UDP_SIZE \<equiv> 8"

definition udp_src_port :: "nat \<Rightarrow> octets \<Rightarrow> u16" where "udp_src_port b p = load_be16 b p"
definition udp_dst_port :: "nat \<Rightarrow> octets \<Rightarrow> u16" where "udp_dst_port b p = load_be16 (b + 2) p"
definition udp_length :: "nat \<Rightarrow> octets \<Rightarrow> u16" where "udp_length b p = load_be16 (b + 4) p"
definition udp_checksum :: "nat \<Rightarrow> octets \<Rightarrow> u16" where "udp_checksum b p = load_be16 (b + 6) p"

definition set_udp_src_port :: "nat \<Rightarrow> u16 \<Rightarrow> octets \<Rightarrow> octets" where "set_udp_src_port b v p = store_be16 b v p"
definition set_udp_dst_port :: "nat \<Rightarrow> u16 \<Rightarrow> octets \<Rightarrow> octets" where "set_udp_dst_port b v p = store_be16 (b + 2) v p"
definition set_udp_length :: "nat \<Rightarrow> u16 \<Rightarrow> octets \<Rightarrow> octets" where "set_udp_length b v p = store_be16 (b + 4) v p"

text \<open>
  The length of a UDP packet is what the packet says; \<open>None\<close> is the sum over memory behind the packet.
\<close>

definition udp_sum :: "nat \<Rightarrow> ipv4_address \<Rightarrow> ipv4_address \<Rightarrow> octets \<Rightarrow> u16 option" where
  "udp_sum b src dst p =
     (let len = unat (udp_length b p)
      in if b + len > length p then None
         else Some (internet_checksum_pseudo_ip (load len b p) (load16 (b + 4) p) UDP src dst))"

definition udp_update_checksum :: "nat \<Rightarrow> ipv4_address \<Rightarrow> ipv4_address \<Rightarrow> octets \<Rightarrow> octets option" where
  "udp_update_checksum b src dst p =
     (let p = store16 (b + 6) 0 p in map_option (\<lambda>c. store16 (b + 6) c p) (udp_sum b src dst p))"

definition udp_checksum_error :: "nat \<Rightarrow> ipv4_address \<Rightarrow> ipv4_address \<Rightarrow> octets \<Rightarrow> bool option" where
  "udp_checksum_error b src dst p = map_option (\<lambda>c. c \<noteq> 0) (udp_sum b src dst p)"

abbreviation TCP_SIZE :: nat where "TCP_SIZE \<equiv> 20"

definition tcp_src_port :: "nat \<Rightarrow> octets \<Rightarrow> u16" where "tcp_src_port b p = load_be16 b p"
definition tcp_dst_port :: "nat \<Rightarrow> octets \<Rightarrow> u16" where "tcp_dst_port b p = load_be16 (b + 2) p"
definition tcp_seq_nr :: "nat \<Rightarrow> octets \<Rightarrow> u32" where "tcp_seq_nr b p = load_be32 (b + 4) p"
definition tcp_ack_nr :: "nat \<Rightarrow> octets \<Rightarrow> u32" where "tcp_ack_nr b p = load_be32 (b + 8) p"
definition tcp_data_offset :: "nat \<Rightarrow> octets \<Rightarrow> u8" where "tcp_data_offset b p = p ! (b + 12) AND 0xf"
definition tcp_flags :: "nat \<Rightarrow> octets \<Rightarrow> u16" where
  "tcp_flags b p = ucast (p ! (b + 13)) OR push_bit 8 (ucast (drop_bit 7 (p ! (b + 12))))"
definition tcp_window_size :: "nat \<Rightarrow> octets \<Rightarrow> u16" where "tcp_window_size b p = load_be16 (b + 14) p"
definition tcp_checksum :: "nat \<Rightarrow> octets \<Rightarrow> u16" where "tcp_checksum b p = load_be16 (b + 16) p"
definition tcp_urgent_ptr :: "nat \<Rightarrow> octets \<Rightarrow> u16" where "tcp_urgent_ptr b p = load_be16 (b + 18) p"

definition tcp_flag :: "nat \<Rightarrow> nat \<Rightarrow> octets \<Rightarrow> bool" where
  "tcp_flag n b p \<longleftrightarrow> bf_get (Bitfield n 1) (tcp_flags b p) \<noteq> 0"

definition tcp_fin :: "nat \<Rightarrow> octets \<Rightarrow> bool" where "tcp_fin = tcp_flag 0"
definition tcp_syn :: "nat \<Rightarrow> octets \<Rightarrow> bool" where "tcp_syn = tcp_flag 1"
definition tcp_rst :: "nat \<Rightarrow> octets \<Rightarrow> bool" where "tcp_rst = tcp_flag 2"
definition tcp_psh :: "nat \<Rightarrow> octets \<Rightarrow> bool" where "tcp_psh = tcp_flag 3"
definition tcp_ack :: "nat \<Rightarrow> octets \<Rightarrow> bool" where "tcp_ack = tcp_flag 4"
definition tcp_urg :: "nat \<Rightarrow> octets \<Rightarrow> bool" where "tcp_urg = tcp_flag 5"
definition tcp_ece :: "nat \<Rightarrow> octets \<Rightarrow> bool" where "tcp_ece = tcp_flag 6"
definition tcp_crw :: "nat \<Rightarrow> octets \<Rightarrow> bool" where "tcp_crw = tcp_flag 7"
definition tcp_ns :: "nat \<Rightarrow> octets \<Rightarrow> bool" where "tcp_ns = tcp_flag 8"

definition set_tcp_src_port :: "nat \<Rightarrow> u16 \<Rightarrow> octets \<Rightarrow> octets" where "set_tcp_src_port b v p = store_be16 b v p"
definition set_tcp_dst_port :: "nat \<Rightarrow> u16 \<Rightarrow> octets \<Rightarrow> octets" where "set_tcp_dst_port b v p = store_be16 (b + 2) v p"

definition tcp_update_checksum :: "nat \<Rightarrow> ipv4_address \<Rightarrow> ipv4_address \<Rightarrow> nat \<Rightarrow> octets \<Rightarrow> octets option" where
  "tcp_update_checksum b src dst tcp_size p =
     (let p = store16 (b + 16) 0 p
      in if b + tcp_size > length p then None
         else Some (store16 (b + 16)
           (internet_checksum_pseudo_ip (load tcp_size b p) (host_to_big_endian (of_nat tcp_size)) TCP src dst) p))"

abbreviation ICMP_SIZE :: nat where "ICMP_SIZE \<equiv> 8"

definition icmp_type :: "nat \<Rightarrow> octets \<Rightarrow> u8" where "icmp_type b p = p ! b"
definition icmp_code :: "nat \<Rightarrow> octets \<Rightarrow> u8" where "icmp_code b p = p ! (b + 1)"
definition icmp_checksum :: "nat \<Rightarrow> octets \<Rightarrow> u16" where "icmp_checksum b p = load_be16 (b + 2) p"
definition icmp_query_id :: "nat \<Rightarrow> octets \<Rightarrow> u16" where "icmp_query_id b p = load_be16 (b + 4) p"
definition icmp_query_seq :: "nat \<Rightarrow> octets \<Rightarrow> u16" where "icmp_query_seq b p = load_be16 (b + 6) p"
definition icmp_rest_of_header :: "nat \<Rightarrow> octets \<Rightarrow> u32" where "icmp_rest_of_header b p = load_be32 (b + 4) p"

definition set_icmp_type :: "nat \<Rightarrow> u8 \<Rightarrow> octets \<Rightarrow> octets" where "set_icmp_type b v p = p[b := v]"
definition set_icmp_code :: "nat \<Rightarrow> u8 \<Rightarrow> octets \<Rightarrow> octets" where "set_icmp_code b v p = p[b + 1 := v]"
definition set_icmp_checksum :: "nat \<Rightarrow> u16 \<Rightarrow> octets \<Rightarrow> octets" where "set_icmp_checksum b v p = store_be16 (b + 2) v p"
definition set_icmp_rest_of_header :: "nat \<Rightarrow> u32 \<Rightarrow> octets \<Rightarrow> octets" where "set_icmp_rest_of_header b v p = store_be32 (b + 4) v p"
definition set_icmp_query_id :: "nat \<Rightarrow> u16 \<Rightarrow> octets \<Rightarrow> octets" where "set_icmp_query_id b v p = store_be16 (b + 4) v p"
definition set_icmp_query_seq :: "nat \<Rightarrow> u16 \<Rightarrow> octets \<Rightarrow> octets" where "set_icmp_query_seq b v p = store_be16 (b + 6) v p"

definition icmp_update_checksum :: "nat \<Rightarrow> nat \<Rightarrow> octets \<Rightarrow> octets option" where
  "icmp_update_checksum b data_sz p =
     (let p = store16 (b + 2) 0 p
      in if b + ICMP_SIZE + data_sz > length p then None
         else Some (store16 (b + 2) (internet_checksum (load (ICMP_SIZE + data_sz) b p) 0) p))"

definition icmp_checksum_error :: "nat \<Rightarrow> nat \<Rightarrow> octets \<Rightarrow> bool option" where
  "icmp_checksum_error b data_sz p =
     (if b + ICMP_SIZE + data_sz > length p then None
      else Some (internet_checksum (load (ICMP_SIZE + data_sz) b p) 0 \<noteq> 0))"


section \<open>Checksums of packets\<close>

lemma load_update_inside: "i < n \<Longrightarrow> load n b (p[b + i := v]) = (load n b p)[i := v]"
  by (simp add: load_def drop_update_swap take_update_swap)

lemma load_store16_inside: "k + 2 \<le> n \<Longrightarrow> load n b (store16 (b + k) w p) = store16 k w (load n b p)"
  using load_update_inside [of "k + 1"] load_update_inside [of k] by (simp add: store16_def add.assoc)

lemma stored_in_packet:
  assumes "even k" "k + 2 \<le> n" "b + n \<le> length p" "unat s + 65535 * n + 65535 < 2 ^ 64"
  shows "internet_checksum (load n b (store16 (b + k) (internet_checksum (load n b (store16 (b + k) 0 p)) s) (store16 (b + k) 0 p))) s = 0"
  using checksum_stored [of k "load n b p" s] assms by (simp add: load_store16_inside)

lemma pseudo_sum_bound: "unat (pseudo_sum a prot src dst) < 6 * 65536"
proof -
  have u: "unat (ucast (w :: u16) :: addr) < 65536" for w
    using unsigned_less [of w, where ?'a = nat] by (simp add: unsigned_ucast_eq take_bit_nat_eq_self)
  have add: "unat (x + y :: addr) < m + n" if "unat x < m" "unat y < n" for x y m n
    using that by (simp add: unat_word_ariths)
  have "unat (pseudo_sum a prot src dst) < 65536 + 65536 + (65536 + 65536) + (65536 + 65536)"
    unfolding pseudo_sum_def by (intro add u)
  then show ?thesis by simp
qed

lemma ip_updated: "b + IP_SIZE \<le> length p \<Longrightarrow> \<not> ip_checksum_error b (ip_update_checksum b p)"
  using stored_in_packet [of 10 20 b p 0] by (simp add: ip_checksum_error_def ip_update_checksum_def Let_def)

lemma icmp_updated:
  assumes "b + ICMP_SIZE + n \<le> length p" "length p < 65536"
  shows "\<exists>p'. icmp_update_checksum b n p = Some p' \<and> icmp_checksum_error b n p' = Some False"
  using stored_in_packet [of 2 "8 + n" b p 0] assms by (simp add: icmp_checksum_error_def icmp_update_checksum_def Let_def)

lemma udp_updated:
  assumes "UDP_SIZE \<le> unat (udp_length b p)" "b + unat (udp_length b p) \<le> length p" "length p < 65536"
  shows "\<exists>p'. udp_update_checksum b src dst p = Some p' \<and> udp_checksum_error b src dst p' = Some False"
proof -
  define n s where "n = unat (udp_length b p)" and "s = pseudo_sum (load16 (b + 4) p) UDP src dst"
  have n: "8 \<le> n" "b + n \<le> length p" using assms by (simp_all add: n_def)
  then have same: "udp_length b (store16 (b + 6) w p) = udp_length b p" "load16 (b + 4) (store16 (b + 6) w p) = load16 (b + 4) p"
    if "length p' = length p" for w p' by (simp_all add: udp_length_def load_be16_def)
  have twice: "udp_length b (store16 (b + 6) w (store16 (b + 6) 0 p)) = udp_length b p"
    "load16 (b + 4) (store16 (b + 6) w (store16 (b + 6) 0 p)) = load16 (b + 4) p" for w
    using n by (simp_all add: udp_length_def load_be16_def)
  have "unat s + 65535 * n + 65535 < 2 ^ 64"
  proof -
    have "unat s < 6 * 65536" unfolding s_def by (rule pseudo_sum_bound)
    moreover have "n < 65536" using n(2) assms(3) by linarith
    ultimately show ?thesis by simp
  qed
  from stored_in_packet [of 6 n b p s, OF _ _ n(2) this] n(1)
  show ?thesis using n same [OF refl] twice
    by (simp add: udp_update_checksum_def udp_checksum_error_def udp_sum_def internet_checksum_pseudo_ip_def Let_def
        flip: n_def s_def)
qed


section \<open>Properties\<close>

text \<open>
  C38  A header whose checksum was updated verifies: for IPv4, ICMP and UDP packets, for every length that lies
  within the packet.  And the change of any one octet of an IPv4 header is noticed.
\<close>

theorem updated_checksums_verify:
  assumes "b + IP_SIZE \<le> length p" "length p < 65536"
  shows "\<not> ip_checksum_error b (ip_update_checksum b p)
    \<and> (\<forall>i<IP_SIZE. \<forall>v. v \<noteq> ip_update_checksum b p ! (b + i) \<longrightarrow> ip_checksum_error b ((ip_update_checksum b p)[b + i := v]))
    \<and> (\<forall>t n. t + ICMP_SIZE + n \<le> length p \<longrightarrow>
         (\<exists>p'. icmp_update_checksum t n p = Some p' \<and> icmp_checksum_error t n p' = Some False))
    \<and> (\<forall>t. UDP_SIZE \<le> unat (udp_length t p) \<and> t + unat (udp_length t p) \<le> length p \<longrightarrow>
         (\<exists>p'. udp_update_checksum t src dst p = Some p' \<and> udp_checksum_error t src dst p' = Some False))"
proof (intro conjI allI impI)
  show ok: "\<not> ip_checksum_error b (ip_update_checksum b p)" by (rule ip_updated [OF assms(1)])
  fix i v
  assume i: "i < IP_SIZE" and v: "v \<noteq> ip_update_checksum b p ! (b + i)"
  let ?q = "ip_update_checksum b p"
  have "length ?q = length p" by (simp add: ip_update_checksum_def Let_def)
  then have "b + IP_SIZE \<le> length ?q" "load IP_SIZE b ?q ! i = ?q ! (b + i)" using assms i by (simp_all add: nth_load)
  then show "ip_checksum_error b (?q[b + i := v])"
    using single_octet_noticed [of 0 "load IP_SIZE b ?q" i v] ok i v
    by (simp add: ip_checksum_error_def load_update_inside)
qed (use icmp_updated udp_updated assms in auto)

theorem updated_checksums_verify_witness:
  "\<not> ip_checksum_error 0 (ip_update_checksum 0 (replicate 28 7))"
  using updated_checksums_verify [of 0 "replicate 28 7"] by simp

text \<open>
  The bit-fields of the headers are laid out in the order of the host.  What the code calls DSCP, flags, fragment
  offset and data offset are other bits than those of the protocols: a header with the "don't fragment" flag
  (octet 6 is 0x40) reads as a fragment, and a TCP header of five words (octet 12 is 0x50) as one of none.
\<close>

lemma ip_bits_misplaced:
  "ip_flags 0 [0, 0, 0, 0, 0, 0, 0x40, 0] = 0 \<and> ip_fragment_offset 0 [0, 0, 0, 0, 0, 0, 0x40, 0] = 8
   \<and> ip_diff_service 0 [0, 0xb8] = 0x38 \<and> ip_ecn 0 [0, 0xb8] = 2"
  by (simp add: ip_flags_def ip_fragment_offset_def ip_diff_service_def ip_ecn_def load16_def)

lemma tcp_offset_misplaced: "tcp_data_offset 0 ((replicate 20 0)[12 := 0x50]) = 0"
  by (simp add: tcp_data_offset_def)

text \<open>A UDP packet whose length field is larger than the packet makes the checksum run behind the packet.\<close>

lemma udp_checksum_overrun:
  "udp_update_checksum 0 [10, 0, 0, 1] [10, 0, 0, 2] [0, 0, 0, 0, 0, 13, 0, 0, 0, 0] = None"
  by code_simp

end
