(* ===== verification/Search_Tree.thy ===== *)
theory Search_Tree
  imports Avl_Contents "HOL-Library.Multiset"
begin

text \<open>
  AVL trees that are sorted by a key and searched by it, as the tables of the NIC router use them: there is no
  recompute hook, \<open>higher\<close> compares strictly, and a lookup stops at the first node that is the same or descends to
  its right or left child.  The interface of the clients is the locale \<open>search_tree\<close>.  A pointer to a node is the
  object itself.  Two nodes may have the same key; a lookup then returns one of them.
\<close>

section \<open>Operations\<close>

definition plain_policy :: "('a \<Rightarrow> 'a \<Rightarrow> bool) \<Rightarrow> 'a policy" where
  "plain_policy higher = \<lparr> pol_higher = higher, pol_recompute = (\<lambda>_ _ x. x) \<rparr>"

fun tree_find :: "('a \<Rightarrow> bool) \<Rightarrow> ('a \<Rightarrow> bool) \<Rightarrow> 'a tree \<Rightarrow> 'a option" where
  "tree_find same go_up Leaf = None"
| "tree_find same go_up (Node l x d r) =
     (if same x then Some x else if go_up x then tree_find same go_up r else tree_find same go_up l)"

definition tree_insert :: "('a \<Rightarrow> 'a \<Rightarrow> bool) \<Rightarrow> 'a \<Rightarrow> 'a tree \<Rightarrow> 'a tree" where
  "tree_insert higher x t = avl_insert (plain_policy higher) x 1 t"

text \<open>The place of an object; the removal of an object that is not in the tree is \<open>None\<close>.\<close>

fun node_path :: "'a \<Rightarrow> 'a tree \<Rightarrow> bool list option" where
  "node_path y Leaf = None"
| "node_path y (Node l x d r) =
     (if x = y then Some []
      else case node_path y l of Some p \<Rightarrow> Some (LEFT # p) | None \<Rightarrow> map_option (Cons RIGHT) (node_path y r))"

definition tree_remove :: "('a \<Rightarrow> 'a \<Rightarrow> bool) \<Rightarrow> 'a \<Rightarrow> 'a tree \<Rightarrow> 'a tree option" where
  "tree_remove higher x t = map_option (\<lambda>p. avl_remove (plain_policy higher) p t) (node_path x t)"

abbreviation tree_set :: "'a tree \<Rightarrow> 'a set" where
  "tree_set t \<equiv> set (inorder t)"

interpretation plain: avl_hook "plain_policy higher" "\<lambda>x. x" for higher
  by unfold_locales (simp add: plain_policy_def)

lemma node_path_focus:
  "node_path x t = Some p \<Longrightarrow> \<exists>l d r gs. focus p t fs = (Node l x d r, gs)"
  by (induction t arbitrary: p fs) (auto split: if_splits option.splits)

lemma node_path_None: "node_path x t = None \<longleftrightarrow> x \<notin> tree_set t"
  by (induction t) (auto split: option.splits)

lemma tree_remove_None: "tree_remove higher x t = None \<longleftrightarrow> x \<notin> tree_set t"
  by (simp add: tree_remove_def node_path_None)

lemma tree_remove_contents:
  assumes "tree_remove higher x t = Some t'"
  obtains xs ys where "inorder t = xs @ x # ys" "inorder t' = xs @ ys"
proof -
  obtain p where p: "node_path x t = Some p" "t' = avl_remove (plain_policy higher) p t"
    using assms by (auto simp: tree_remove_def)
  obtain l d r fs where f: "focus p t [] = (Node l x d r, fs)" using node_path_focus [OF p(1)] by blast
  show ?thesis
    using plain.remove_contents(1) [OF f] plain.remove_contents(2) [OF f, where higher = higher] p(2)
      that [of "before fs @ inorder l" "inorder r @ behind fs"] by simp
qed

text \<open>The removal of the root, again and again, empties a tree; this is \<open>destroy_each\<close> of the router's trees.\<close>

lemma remove_root: "inorder (avl_remove (plain_policy higher) [] (Node l x d r)) = inorder l @ inorder r"
  using plain.remove_contents(2) [of "[]" "Node l x d r" l x d r "[]", where higher = higher] by simp

function destroy_each :: "('a \<Rightarrow> 'a \<Rightarrow> bool) \<Rightarrow> 'a tree \<Rightarrow> 'a list" where
  "destroy_each higher Leaf = []"
| "destroy_each higher (Node l x d r) = x # destroy_each higher (avl_remove (plain_policy higher) [] (Node l x d r))"
  by pat_completeness auto
termination
  by (relation "measure (\<lambda>(higher, t). length (inorder t))") (simp_all add: remove_root)

lemma destroy_each_all: "mset (destroy_each higher t) = mset (inorder t)"
  by (induction higher t rule: destroy_each.induct) (simp_all add: remove_root)

lemma ins_at_sorted:
  assumes "sorted (map key xs)"
  shows "sorted (map key (ins_at (\<lambda>y. key y < key x) x xs))"
  using assms
proof (induction xs)
  case (Cons y ys)
  then show ?case by (cases "key y < key x") (auto simp: ins_at_def dest!: set_takeWhileD set_dropWhileD)
qed (simp add: ins_at_def)

lemma distinct_ins_at: "distinct (ins_at h x xs) \<longleftrightarrow> distinct xs \<and> x \<notin> set xs"
proof -
  have "distinct (ins_at h x xs) \<longleftrightarrow> distinct (x # (takeWhile h xs @ dropWhile h xs))"
    unfolding ins_at_def by (auto simp del: takeWhile_dropWhile_id)
  then show ?thesis by auto
qed

text \<open>A tree of valid objects in order.  The rule tables, which never remove a rule, may hold equal ones.\<close>

definition tree_ok :: "('a \<Rightarrow> 'k::linorder) \<Rightarrow> ('a \<Rightarrow> bool) \<Rightarrow> 'a tree \<Rightarrow> bool" where
  "tree_ok key ok t \<longleftrightarrow> sorted (map key (inorder t)) \<and> (\<forall>x\<in>tree_set t. ok x)"

lemma tree_ok_Leaf [simp]: "tree_ok key ok Leaf"
  by (simp add: tree_ok_def)


section \<open>The interface\<close>

locale search_tree =
  fixes higher :: "'a \<Rightarrow> 'a \<Rightarrow> bool"
    and same :: "'q \<Rightarrow> 'a \<Rightarrow> bool"
    and go_up :: "'q \<Rightarrow> 'a \<Rightarrow> bool"
    and key :: "'a \<Rightarrow> 'k::linorder"
    and qkey :: "'q \<Rightarrow> 'k"
    and ok :: "'a \<Rightarrow> bool"
    and okq :: "'q \<Rightarrow> bool"
  assumes higher_key: "ok x \<Longrightarrow> ok n \<Longrightarrow> higher x n \<longleftrightarrow> key x < key n"
    and same_key: "ok x \<Longrightarrow> okq q \<Longrightarrow> same q x \<longleftrightarrow> qkey q = key x"
    and go_up_key: "ok x \<Longrightarrow> okq q \<Longrightarrow> go_up q x \<longleftrightarrow> key x < qkey q"
begin

lemma find_Some:
  assumes "tree_ok key ok t" "okq q" "tree_find (same q) (go_up q) t = Some x"
  shows "x \<in> tree_set t" "key x = qkey q"
proof -
  have "x \<in> tree_set t \<and> key x = qkey q"
    using assms by (induction t) (auto simp: tree_ok_def sorted_append same_key split: if_splits)
  then show "x \<in> tree_set t" "key x = qkey q" by blast+
qed

lemma find_None:
  "tree_ok key ok t \<Longrightarrow> okq q \<Longrightarrow> tree_find (same q) (go_up q) t = None \<Longrightarrow> x \<in> tree_set t \<Longrightarrow> key x \<noteq> qkey q"
proof (induction t)
  case (Node l y d r)
  then have s: "\<forall>z\<in>tree_set l. key z \<le> key y" "\<forall>z\<in>tree_set r. key y \<le> key z"
    "tree_ok key ok l" "tree_ok key ok r" "ok y"
    by (auto simp: sorted_append tree_ok_def)
  with Node show ?case by (fastforce simp: same_key go_up_key split: if_splits)
qed simp

lemma find_ex:
  assumes "tree_ok key ok t" "okq q" "x \<in> tree_set t" "key x = qkey q"
  obtains y where "tree_find (same q) (go_up q) t = Some y" "y \<in> tree_set t" "key y = qkey q"
  using find_None [OF assms(1,2)] find_Some [OF assms(1,2)] assms(3,4) by (metis not_None_eq)

lemma find_unique:
  assumes "tree_ok key ok t" "okq q" "x \<in> tree_set t" "key x = qkey q"
    and "\<And>y. y \<in> tree_set t \<Longrightarrow> key y = key x \<Longrightarrow> y = x"
  shows "tree_find (same q) (go_up q) t = Some x"
  using find_ex [OF assms(1-4)] assms(4,5) by metis

lemma insert_contents:
  assumes "tree_ok key ok t" "ok x"
  shows "inorder (tree_insert higher x t) = ins_at (\<lambda>y. key y < key x) x (inorder t)"
proof -
  have "sorted_wrt (\<lambda>a b. key b < key x \<longrightarrow> key a < key x) (inorder t)"
    using assms(1) unfolding tree_ok_def sorted_wrt_map
    by (elim conjE) (erule sorted_wrt_mono_rel [rotated], auto)
  then show ?thesis using plain.insert_contents_at [of t higher x "\<lambda>y. key y < key x" 1] assms
    by (simp add: tree_insert_def plain_policy_def tree_ok_def higher_key)
qed

lemma insert_set: "tree_ok key ok t \<Longrightarrow> ok x \<Longrightarrow> tree_set (tree_insert higher x t) = insert x (tree_set t)"
  by (simp add: insert_contents set_ins_at)

lemma inserted_ok: "tree_ok key ok t \<Longrightarrow> ok x \<Longrightarrow> tree_ok key ok (tree_insert higher x t)"
  by (simp add: insert_set tree_ok_def [of _ _ "tree_insert higher x t"])
     (simp add: insert_contents, simp add: tree_ok_def ins_at_sorted)

lemma insert_distinct:
  "tree_ok key ok t \<Longrightarrow> ok x \<Longrightarrow> distinct (inorder t) \<Longrightarrow> x \<notin> tree_set t \<Longrightarrow> distinct (inorder (tree_insert higher x t))"
  by (simp add: insert_contents distinct_ins_at)

lemma removed_ok: "tree_ok key ok t \<Longrightarrow> tree_remove higher x t = Some t' \<Longrightarrow> tree_ok key ok t'"
  by (erule tree_remove_contents) (auto simp: tree_ok_def sorted_append)

lemma remove_distinct:
  "distinct (inorder t) \<Longrightarrow> tree_remove higher x t = Some t' \<Longrightarrow> distinct (inorder t') \<and> tree_set t' = tree_set t - {x}"
  by (erule tree_remove_contents) auto

lemma removed:
  assumes "x \<in> tree_set t" "tree_ok key ok t" "distinct (inorder t)"
  obtains t' where "tree_remove higher x t = Some t'" "tree_ok key ok t'" "distinct (inorder t')" "tree_set t' = tree_set t - {x}"
  using assms tree_remove_None [of higher x t] removed_ok remove_distinct by (metis option.exhaust)

end

end
