(* ===== verification/Router_Rules.thy ===== *)
theory Router_Rules
  imports Search_Tree Net_Address
begin

text \<open>
  The routing rules of a domain of the NIC router, \<open>os/src/server/nic_router\<close>: lists of rules for address
  prefixes (\<open>direct_rule.h\<close>), and the rules for ports, which are AVL trees (\<open>forward_rule\<close>, \<open>permit_rule\<close>,
  \<open>transport_rule\<close>).  The attributes of the configuration are arguments of the constructors; a domain is
  a name, and \<open>None\<close> is one that does not exist.  A constructor that throws \<open>Invalid\<close> returns \<open>None\<close>.
\<close>

type_synonym port = u16
type_synonym domain = nat

abbreviation FIRST_PORT :: u32 where "FIRST_PORT \<equiv> 49152"
abbreviation PORT_COUNT :: u32 where "PORT_COUNT \<equiv> 16384"

definition dynamic_port :: "port \<Rightarrow> bool" where
  "dynamic_port p \<longleftrightarrow> ucast p \<ge> FIRST_PORT \<and> ucast p < FIRST_PORT + PORT_COUNT"


section \<open>Rules for prefixes\<close>

text \<open>The list is sorted by the lengths of the prefixes; the longest come first.\<close>

fun direct_insert :: "('r \<Rightarrow> ip_prefix) \<Rightarrow> 'r \<Rightarrow> 'r list \<Rightarrow> 'r list" where
  "direct_insert dst rule [] = [rule]"
| "direct_insert dst rule (cur # rest) =
     (if pf_prefix (dst rule) \<ge> pf_prefix (dst cur) then rule # cur # rest
      else cur # direct_insert dst rule rest)"

text \<open>\<open>Some None\<close> is the exception \<open>No_match\<close>, \<open>None\<close> an access behind an address.\<close>

fun longest_prefix_match :: "('r \<Rightarrow> ip_prefix) \<Rightarrow> 'r list \<Rightarrow> ipv4_address \<Rightarrow> 'r option option" where
  "longest_prefix_match dst [] ip = Some None"
| "longest_prefix_match dst (cur # rest) ip = do {
     m \<leftarrow> prefix_matches (dst cur) ip;
     if m then Some (Some cur) else longest_prefix_match dst rest ip }"

record ip_rule =
  ir_dst :: ip_prefix
  ir_domain :: domain

definition ip_rule_new :: "ip_prefix \<Rightarrow> domain option \<Rightarrow> ip_rule option" where
  "ip_rule_new dst dm = do { d \<leftarrow> dm; if prefix_valid dst then Some \<lparr> ir_dst = dst, ir_domain = d \<rparr> else None }"


section \<open>Rules for ports\<close>

record forward_rule =
  fr_port :: port
  fr_to :: ipv4_address
  fr_domain :: domain

definition forward_rule_new :: "port \<Rightarrow> ipv4_address \<Rightarrow> domain option \<Rightarrow> forward_rule option" where
  "forward_rule_new p to dm = do {
     d \<leftarrow> dm;
     if p = 0 \<or> \<not> ip_valid to \<or> dynamic_port p then None
     else Some \<lparr> fr_port = p, fr_to = to, fr_domain = d \<rparr> }"

definition forward_higher :: "forward_rule \<Rightarrow> forward_rule \<Rightarrow> bool" where
  "forward_higher r rule \<longleftrightarrow> fr_port rule > fr_port r"

definition forward_find_by_port :: "port \<Rightarrow> forward_rule tree \<Rightarrow> forward_rule option" where
  "forward_find_by_port p t = tree_find (\<lambda>r. p = fr_port r) (\<lambda>r. p > fr_port r) t"

record permit_rule =
  pr_port :: port
  pr_domain :: domain

definition permit_rule_new :: "port \<Rightarrow> domain option \<Rightarrow> permit_rule option" where
  "permit_rule_new p dm = do {
     d \<leftarrow> dm;
     if p = 0 \<or> dynamic_port p then None else Some \<lparr> pr_port = p, pr_domain = d \<rparr> }"

definition permit_higher :: "permit_rule \<Rightarrow> permit_rule \<Rightarrow> bool" where
  "permit_higher r rule \<longleftrightarrow> pr_port rule > pr_port r"

definition permit_find_by_port :: "port \<Rightarrow> permit_rule tree \<Rightarrow> permit_rule option" where
  "permit_find_by_port p t = tree_find (\<lambda>r. p = pr_port r) (\<lambda>r. p > pr_port r) t"

text \<open>
  A transport rule permits any port or single ones.  The arguments are the domain of a node
  \<open>permit-any\<close>, if there is one, and the attributes of the nodes \<open>permit\<close>.
\<close>

record transport_rule =
  tr_dst :: ip_prefix
  tr_permit_any :: "domain option"
  tr_permit_single :: "permit_rule tree"

definition read_permit_any :: "domain option option \<Rightarrow> domain option" where
  "read_permit_any sub_node = (case sub_node of None \<Rightarrow> None | Some dm \<Rightarrow> dm)"

fun read_permit_rules :: "(port \<times> domain option) list \<Rightarrow> permit_rule tree \<Rightarrow> permit_rule tree" where
  "read_permit_rules [] t = t"
| "read_permit_rules ((p, dm) # nodes) t =
     read_permit_rules nodes (case permit_rule_new p dm of None \<Rightarrow> t | Some r \<Rightarrow> tree_insert permit_higher r t)"

definition transport_rule_new :: "ip_prefix \<Rightarrow> domain option option \<Rightarrow> (port \<times> domain option) list \<Rightarrow> transport_rule option" where
  "transport_rule_new dst any nodes =
     (if \<not> prefix_valid dst then None
      else case read_permit_any any of
        Some d \<Rightarrow> Some \<lparr> tr_dst = dst, tr_permit_any = Some d, tr_permit_single = Leaf \<rparr>
      | None \<Rightarrow>
          (let single = read_permit_rules nodes Leaf
           in if obj_of single = None then None
              else Some \<lparr> tr_dst = dst, tr_permit_any = None, tr_permit_single = single \<rparr>))"

text \<open>\<open>permit_rule\<close>: the domain of the rule; \<open>None\<close> is \<open>Permit_single_rule_tree::No_match\<close>.\<close>

definition transport_permit :: "transport_rule \<Rightarrow> port \<Rightarrow> domain option" where
  "transport_permit r p =
     (case tr_permit_any r of
        Some d \<Rightarrow> Some d
      | None \<Rightarrow> map_option pr_domain (permit_find_by_port p (tr_permit_single r)))"


section \<open>The sorted list\<close>

abbreviation prefix_sorted :: "('r \<Rightarrow> ip_prefix) \<Rightarrow> 'r list \<Rightarrow> bool" where
  "prefix_sorted dst \<equiv> sorted_wrt (\<lambda>a b. pf_prefix (dst b) \<le> pf_prefix (dst a))"

text \<open>The prefix of a rule covers an address: both agree on the bits that the prefix has.\<close>

definition covers :: "ip_prefix \<Rightarrow> ipv4_address \<Rightarrow> bool" where
  "covers p ip \<longleftrightarrow> (\<forall>i < unat (pf_prefix p). ip_bit ip i = ip_bit (pf_address p) i)"

lemma prefix_matches_covers: "pf_prefix p \<le> 32 \<Longrightarrow> prefix_matches p ip = Some (covers p ip)"
  using prefix_bytes_bits [of 0 "pf_prefix p" ip "pf_address p"]
  by (simp add: prefix_matches_def covers_def same_bits_def word_le_nat_alt)

lemma direct_insert_set: "set (direct_insert dst r rs) = insert r (set rs)"
  by (induction dst r rs rule: direct_insert.induct) auto

lemma direct_insert_sorted: "prefix_sorted dst rs \<Longrightarrow> prefix_sorted dst (direct_insert dst r rs)"
proof (induction dst r rs rule: direct_insert.induct)
  case (2 dst rule cur rest)
  then show ?case
    by (cases "pf_prefix (dst rule) \<ge> pf_prefix (dst cur)")
      (auto simp: direct_insert_set dest: order_trans)
qed simp

lemma rules_sorted: "prefix_sorted dst (fold (direct_insert dst) rs ss)" if "prefix_sorted dst ss"
  using that by (induction rs arbitrary: ss) (simp_all add: direct_insert_sorted)

lemma rules_set: "set (fold (direct_insert dst) rs ss) = set rs \<union> set ss"
  by (induction rs arbitrary: ss) (auto simp: direct_insert_set)

lemma longest_prefix_match_result:
  assumes "prefix_sorted dst rs" "\<forall>r\<in>set rs. pf_prefix (dst r) \<le> 32"
  shows "case longest_prefix_match dst rs ip of
      None \<Rightarrow> False
    | Some None \<Rightarrow> \<forall>r\<in>set rs. \<not> covers (dst r) ip
    | Some (Some r) \<Rightarrow> r \<in> set rs \<and> covers (dst r) ip
        \<and> (\<forall>q\<in>set rs. covers (dst q) ip \<longrightarrow> pf_prefix (dst q) \<le> pf_prefix (dst r))"
  using assms
proof (induction rs)
  case (Cons c rs)
  have m: "prefix_matches (dst c) ip = Some (covers (dst c) ip)" using Cons.prems(2) by (simp add: prefix_matches_covers)
  show ?case
  proof (cases "covers (dst c) ip")
    case True
    then show ?thesis using Cons.prems(1) m by auto
  next
    case False
    then show ?thesis using Cons m by (auto split: option.splits)
  qed
qed simp


section \<open>Ports\<close>

interpretation forward: search_tree forward_higher "\<lambda>p r. p = fr_port r" "\<lambda>p r. p > fr_port r"
    fr_port "\<lambda>p. p" "\<lambda>_. True" "\<lambda>_. True"
  by unfold_locales (auto simp: forward_higher_def)

interpretation permit: search_tree permit_higher "\<lambda>p r. p = pr_port r" "\<lambda>p r. p > pr_port r"
    pr_port "\<lambda>p. p" "\<lambda>_. True" "\<lambda>_. True"
  by unfold_locales (auto simp: permit_higher_def)

abbreviation permits_ok :: "permit_rule tree \<Rightarrow> bool" where
  "permits_ok \<equiv> tree_ok pr_port (\<lambda>_. True)"

lemma read_permit_rules_tree:
  assumes "permits_ok t"
  shows "permits_ok (read_permit_rules nodes t)
    \<and> tree_set (read_permit_rules nodes t) =
        tree_set t \<union> {r. \<exists>(p, dm)\<in>set nodes. permit_rule_new p dm = Some r}"
  using assms
proof (induction nodes arbitrary: t)
  case (Cons node nodes)
  obtain p dm where "node = (p, dm)" by fastforce
  then show ?case using Cons permit.inserted_ok [of t] permit.insert_set [of t]
    by (cases "permit_rule_new p dm") auto
qed simp

lemma obj_of_None [simp]: "obj_of t = None \<longleftrightarrow> tree_set t = {}"
  by (cases t) auto


section \<open>Properties\<close>

text \<open>
  C36  Routing takes the longest prefix: whatever the order in which valid rules were inserted, the lookup
  returns a rule whose prefix covers the address and none that covers it has a longer prefix, and it
  reports no match only if no rule covers the address.
\<close>

theorem longest_prefix_match_correct:
  assumes "\<forall>r\<in>set rs. pf_prefix (dst r) \<le> 32"
  shows "case longest_prefix_match dst (fold (direct_insert dst) rs []) ip of
      None \<Rightarrow> False
    | Some None \<Rightarrow> \<forall>r\<in>set rs. \<not> covers (dst r) ip
    | Some (Some r) \<Rightarrow> r \<in> set rs \<and> covers (dst r) ip
        \<and> (\<forall>q\<in>set rs. covers (dst q) ip \<longrightarrow> pf_prefix (dst q) \<le> pf_prefix (dst r))"
  using longest_prefix_match_result [of dst "fold (direct_insert dst) rs []" ip] rules_sorted [of dst "[]" rs]
    rules_set [of dst rs "[]"] assms by (simp split: option.splits)

theorem longest_prefix_match_correct_witness:
  "case longest_prefix_match id (fold (direct_insert id)
      [\<lparr> pf_address = [10, 0, 0, 0], pf_prefix = 8 \<rparr>, \<lparr> pf_address = [10, 1, 0, 0], pf_prefix = 16 \<rparr>] []) [10, 1, 2, 3] of
      None \<Rightarrow> False | Some None \<Rightarrow> True | Some (Some r) \<Rightarrow> covers r [10, 1, 2, 3]"
  using longest_prefix_match_correct [of "[\<lparr> pf_address = [10, 0, 0, 0], pf_prefix = 8 \<rparr>,
    \<lparr> pf_address = [10, 1, 0, 0], pf_prefix = 16 \<rparr>]" id "[10, 1, 2, 3]"]
  by (auto split: option.splits)

text \<open>
   A transport rule permits exactly what its configuration says: the domain of \<open>permit-any\<close> for every port,
  otherwise a port only to a domain that a valid \<open>permit\<close> node names for it, and no port without one;
  well-known ports only, as no rule for a NAT port is accepted.
\<close>

theorem transport_rule_permits:
  assumes "transport_rule_new dst any nodes = Some r"
  shows "case any of
      Some (Some d) \<Rightarrow> transport_permit r p = Some d
    | _ \<Rightarrow> (case transport_permit r p of
        None \<Rightarrow> \<forall>d. (p, Some d) \<in> set nodes \<longrightarrow> p = 0 \<or> dynamic_port p
      | Some d \<Rightarrow> (p, Some d) \<in> set nodes \<and> p \<noteq> 0 \<and> \<not> dynamic_port p)"
proof (cases "read_permit_any any")
  case (Some d)
  then have "any = Some (Some d)" "tr_permit_any r = Some d"
    using assms by (auto simp: read_permit_any_def transport_rule_new_def split: option.splits if_splits)
  then show ?thesis by (simp add: transport_permit_def)
next
  case None
  then have any: "any = None \<or> any = Some None" by (simp add: read_permit_any_def split: option.splits)
  define t where "t = read_permit_rules nodes Leaf"
  have r: "tr_permit_any r = None" "tr_permit_single r = t"
    using assms None by (auto simp: transport_rule_new_def Let_def t_def split: if_splits)
  have s: "permits_ok t" and ts: "tree_set t = {r. \<exists>(p, dm)\<in>set nodes. permit_rule_new p dm = Some r}"
    using read_permit_rules_tree [of Leaf nodes] by (simp_all add: t_def)
  have new: "permit_rule_new q dm = Some r' \<longleftrightarrow> (\<exists>d. dm = Some d \<and> q \<noteq> 0 \<and> \<not> dynamic_port q \<and> r' = \<lparr> pr_port = q, pr_domain = d \<rparr>)"
    for q dm r' by (cases dm) (auto simp: permit_rule_new_def)
  have "case transport_permit r p of
        None \<Rightarrow> \<forall>d. (p, Some d) \<in> set nodes \<longrightarrow> p = 0 \<or> dynamic_port p
      | Some d \<Rightarrow> (p, Some d) \<in> set nodes \<and> p \<noteq> 0 \<and> \<not> dynamic_port p"
  proof (cases "permit_find_by_port p t")
    case None
    have "p = 0 \<or> dynamic_port p" if "(p, Some d) \<in> set nodes" for d
    proof (rule ccontr)
      assume "\<not> (p = 0 \<or> dynamic_port p)"
      then have "permit_rule_new p (Some d) = Some \<lparr> pr_port = p, pr_domain = d \<rparr>" by (simp add: new)
      then have "\<lparr> pr_port = p, pr_domain = d \<rparr> \<in> tree_set t" using that unfolding ts by blast
      then show False using permit.find_None [OF s, of p] None by (force simp: permit_find_by_port_def)
    qed
    then show ?thesis using None r by (simp add: transport_permit_def)
  next
    case (Some x)
    note x = permit.find_Some [OF s TrueI Some [unfolded permit_find_by_port_def]]
    from x(1) obtain q dm where "(q, dm) \<in> set nodes" "permit_rule_new q dm = Some x" unfolding ts by blast
    then show ?thesis using Some r x(2) by (auto simp: new transport_permit_def)
  qed
  then show ?thesis using any by auto
qed

theorem transport_rule_permits_witness:
  "\<exists>r. transport_rule_new \<lparr> pf_address = [10, 0, 0, 0], pf_prefix = 8 \<rparr> None [(80, Some 1), (60000, Some 1)] = Some r
    \<and> transport_permit r 60000 = None"
proof -
  let ?p = "\<lparr> pf_address = [10, 0, 0, 0], pf_prefix = 8 \<rparr>" and ?n = "[(80, Some 1), (60000, Some 1)] :: (port \<times> domain option) list"
  define r where "r = \<lparr> tr_dst = ?p, tr_permit_any = None, tr_permit_single = Node Leaf \<lparr> pr_port = 80, pr_domain = 1 \<rparr> 1 Leaf \<rparr>"
  have r: "transport_rule_new ?p None ?n = Some r" unfolding r_def by code_simp
  have "\<not> (60000 = (0 :: port)) \<and> dynamic_port 60000" by (simp add: dynamic_port_def)
  then show ?thesis using transport_rule_permits [OF r, of 60000] r by (auto split: option.splits)
qed

end
