(* ===== verification/Router_Ports.thy ===== *)
theory Router_Ports
  imports Router_Rules Net_Checksum Bit_Array
begin

text \<open>
  The ports that the NIC router uses for the translation of addresses, \<open>nic_router/port_allocator.{h,cc}\<close> and
  \<open>nat_rule.{h,cc}\<close>.  A domain has one allocator of ports for each protocol; every NAT rule draws from it through
  guards of its own, which limit how many ports the rule may use at a time.  A guard is a reference, an
  allocator is named by its domain and protocol.
\<close>

section \<open>The code\<close>

datatype port_error = No_nat_ports | Allocation_conflict | Bit_allocator_error bit_alloc_error | Bad_transport_protocol

type_synonym port_allocator = bit_allocator
type_synonym guard = nat

definition port_alloc :: "port_allocator \<Rightarrow> ((port_error + port) \<times> port_allocator) option" where
  "port_alloc s = map_option
     (\<lambda>(r, s). (case r of Inl e \<Rightarrow> Inl (Bit_allocator_error e) | Inr i \<Rightarrow> Inr (ucast (i + 49152)), s)) (ba_alloc 0 s)"

definition port_alloc_at :: "port \<Rightarrow> port_allocator \<Rightarrow> port_error option \<times> port_allocator" where
  "port_alloc_at p s =
     (case ba_alloc_addr (ucast p - 49152) 0 s of
        (None, s) \<Rightarrow> (None, s)
      | (Some e, s) \<Rightarrow> (Some (if e = Range_conflict then Allocation_conflict else Bit_allocator_error e), s))"

definition port_free :: "port \<Rightarrow> port_allocator \<Rightarrow> bit_error option \<times> port_allocator" where
  "port_free p s = ba_free (ucast p - 49152) 0 s"

record nat_guard =
  ng_max :: u32
  ng_used :: u32
  ng_alloc :: "domain \<times> l3_protocol"

record port_state =
  ps_alloc :: "domain \<times> l3_protocol \<Rightarrow> port_allocator"
  ps_guard :: "guard \<Rightarrow> nat_guard"

definition set_guard_used :: "guard \<Rightarrow> u32 \<Rightarrow> port_state \<Rightarrow> port_state" where
  "set_guard_used g n s = s\<lparr> ps_guard := (ps_guard s)(g := (ps_guard s g)\<lparr> ng_used := n \<rparr>) \<rparr>"

definition set_port_alloc :: "domain \<times> l3_protocol \<Rightarrow> port_allocator \<Rightarrow> port_state \<Rightarrow> port_state" where
  "set_port_alloc a b s = s\<lparr> ps_alloc := (ps_alloc s)(a := b) \<rparr>"

text \<open>The operations of a guard; \<open>None\<close> is an allocation that does not return.\<close>

definition guard_alloc :: "guard \<Rightarrow> port_state \<Rightarrow> ((port_error + port) \<times> port_state) option" where
  "guard_alloc g s =
     (let gd = ps_guard s g; a = ng_alloc gd in
      if ng_used gd = ng_max gd then Some (Inl No_nat_ports, s)
      else do {
        (r, b) \<leftarrow> port_alloc (ps_alloc s a);
        let s = set_port_alloc a b s;
        Some (r, (case r of Inl e \<Rightarrow> s | Inr p \<Rightarrow> set_guard_used g (ng_used gd + 1) s)) })"

definition guard_alloc_at :: "guard \<Rightarrow> port \<Rightarrow> port_state \<Rightarrow> port_error option \<times> port_state" where
  "guard_alloc_at g p s =
     (let gd = ps_guard s g; a = ng_alloc gd in
      if ng_used gd = ng_max gd then (Some No_nat_ports, s)
      else (let (e, b) = port_alloc_at p (ps_alloc s a); s = set_port_alloc a b s
            in (e, if e = None then set_guard_used g (ng_used gd + 1) s else s)))"

definition guard_free :: "guard \<Rightarrow> port \<Rightarrow> port_state \<Rightarrow> bit_error option \<times> port_state" where
  "guard_free g p s =
     (let gd = ps_guard s g; a = ng_alloc gd; (e, b) = port_free p (ps_alloc s a); s = set_port_alloc a b s
      in (e, if e = None then set_guard_used g (if ng_used gd \<noteq> 0 then ng_used gd - 1 else 0) s else s))"

definition guard_new :: "domain \<times> l3_protocol \<Rightarrow> addr \<Rightarrow> nat_guard" where
  "guard_new a mx = \<lparr> ng_max = ucast mx, ng_used = 0, ng_alloc = a \<rparr>"

record nat_rule =
  nr_domain :: domain
  nr_tcp :: guard
  nr_udp :: guard
  nr_icmp :: guard

definition nat_higher :: "nat_rule \<Rightarrow> nat_rule \<Rightarrow> bool" where
  "nat_higher r rule \<longleftrightarrow> nr_domain rule > nr_domain r"

definition nat_find_by_domain :: "domain \<Rightarrow> nat_rule tree \<Rightarrow> nat_rule option" where
  "nat_find_by_domain d t = tree_find (\<lambda>r. d = nr_domain r) (\<lambda>r. d > nr_domain r) t"

fun nat_port_alloc :: "nat_rule \<Rightarrow> l3_protocol \<Rightarrow> guard option" where
  "nat_port_alloc r TCP = Some (nr_tcp r)"
| "nat_port_alloc r UDP = Some (nr_udp r)"
| "nat_port_alloc r ICMP = Some (nr_icmp r)"
| "nat_port_alloc r (Other_protocol n) = None"


interpretation nat_rules: search_tree nat_higher "\<lambda>d r. d = nr_domain r" "\<lambda>d r. d > nr_domain r"
    nr_domain "\<lambda>d. d" "\<lambda>_. True" "\<lambda>_. True"
  by unfold_locales (auto simp: nat_higher_def)


section \<open>The ports in use\<close>

definition pa_ok :: "port_allocator \<Rightarrow> bool" where
  "pa_ok b \<longleftrightarrow> length (ba_array b) = 256"

definition port_index :: "port \<Rightarrow> nat" where
  "port_index p = unat p - 49152"

definition used_ports :: "port_allocator \<Rightarrow> port set" where
  "used_ports b = {p. dynamic_port p \<and> bit_at (ba_array b) (port_index p)}"

lemma dynamic_port_iff: "dynamic_port p \<longleftrightarrow> 49152 \<le> unat p"
proof -
  have "unat p < 65536" using unsigned_less [of p, where ?'a = nat] by simp
  then show ?thesis by (simp add: dynamic_port_def word_le_nat_alt word_less_nat_alt unsigned_ucast_eq take_bit_nat_eq_self)
qed

lemma dynamic_index: "dynamic_port p \<Longrightarrow> port_index p < 16384 \<and> unat (ucast p - 49152 :: addr) = port_index p"
proof -
  assume d: "dynamic_port p"
  have l: "unat p < 65536" using unsigned_less [of p, where ?'a = nat] by simp
  have u: "unat (ucast p :: addr) = unat p" using l by (simp add: unsigned_ucast_eq take_bit_nat_eq_self)
  have "unat (ucast p - 49152 :: addr) = unat p - 49152"
    using d u by (subst unat_sub_no_wrap) (simp_all add: dynamic_port_iff word_le_nat_alt)
  then show ?thesis using l by (simp add: port_index_def)
qed

lemma index_port:
  assumes "unat (i :: addr) < 16384"
  shows "dynamic_port (ucast (i + 49152))" "port_index (ucast (i + 49152)) = unat i"
proof -
  have "unat (i + 49152) = unat i + 49152" using assms by (subst unat_add_no_wrap) simp_all
  then have "unat (ucast (i + 49152) :: port) = unat i + 49152"
    using assms by (simp add: unsigned_ucast_eq take_bit_nat_eq_self)
  then show "dynamic_port (ucast (i + 49152))" "port_index (ucast (i + 49152)) = unat i"
    by (simp_all add: dynamic_port_iff port_index_def)
qed

lemma port_index_inj: "dynamic_port p \<Longrightarrow> dynamic_port q \<Longrightarrow> port_index p = port_index q \<longleftrightarrow> p = q"
  by (auto simp: dynamic_port_iff port_index_def word_unat_eq_iff)

lemma pa_len: "pa_ok b \<Longrightarrow> bit_len (ba_array b) = 16384"
  by (simp add: pa_ok_def bit_len_def)

lemma port_alloc_result:
  assumes ok: "pa_ok b"
  shows "\<exists>r b'. port_alloc b = Some (r, b') \<and> pa_ok b' \<and>
    (case r of
       Inr p \<Rightarrow> dynamic_port p \<and> p \<notin> used_ports b \<and> used_ports b' = insert p (used_ports b)
     | Inl e \<Rightarrow> e = Bit_allocator_error Out_of_indices \<and> used_ports b' = used_ports b \<and> used_ports b = Collect dynamic_port)"
proof -
  obtain r b' where a: "ba_alloc 0 b = Some (r, b')" "alloc_result (ba_array b) (2 ^ 0) r (ba_array b')"
    using ba_alloc_result [of b 0] pa_len [OF ok] by auto
  show ?thesis
  proof (cases r)
    case (Inl e)
    then have e: "e = Out_of_indices" "ba_array b' = ba_array b" "\<And>i. \<not> free_block (ba_array b) 1 i"
      using a(2) by (auto simp: alloc_result_def)
    have "bit_at (ba_array b) (port_index p)" if "dynamic_port p" for p
      using e(3) [of "port_index p"] dynamic_index [OF that] pa_len [OF ok] by (auto simp: free_block_1)
    then show ?thesis using a(1) Inl e ok by (auto simp: port_alloc_def pa_ok_def used_ports_def)
  next
    case (Inr i)
    then have f: "unat i < 16384" "\<not> bit_at (ba_array b) (unat i)" and t: "length (ba_array b') = length (ba_array b)"
      "\<And>j. j < 16384 \<Longrightarrow> bit_at (ba_array b') j = (j = unat i \<or> bit_at (ba_array b) j)"
      using a(2) pa_len [OF ok] by (auto simp: alloc_result_def free_block_1 bits_taken_def)
    note ip = index_port [OF f(1)]
    have "used_ports b' = insert (ucast (i + 49152)) (used_ports b)"
    proof (rule set_eqI)
      fix p
      show "p \<in> used_ports b' \<longleftrightarrow> p \<in> insert (ucast (i + 49152)) (used_ports b)"
      proof (cases "dynamic_port p")
        case True
        then show ?thesis using t(2) [of "port_index p"] dynamic_index [OF True] port_index_inj [OF True ip(1)] ip
          by (auto simp: used_ports_def)
      next
        case False
        then show ?thesis using ip(1) by (auto simp: used_ports_def)
      qed
    qed
    moreover have "ucast (i + 49152) \<notin> used_ports b" using f(2) ip by (simp add: used_ports_def)
    ultimately show ?thesis using a(1) Inr t(1) ip(1) ok by (simp add: port_alloc_def pa_ok_def)
  qed
qed

lemma port_free_result:
  assumes ok: "pa_ok b" and p: "p \<in> used_ports b"
  shows "\<exists>b'. port_free p b = (None, b') \<and> pa_ok b' \<and> used_ports b' = used_ports b - {p}"
proof -
  have d: "dynamic_port p" "bit_at (ba_array b) (port_index p)" using p by (auto simp: used_ports_def)
  note ix = dynamic_index [OF d(1)]
  have "\<forall>j. unat (ucast p - 49152 :: addr) \<le> j \<and> j < unat (ucast p - 49152 :: addr) + 2 ^ 0 \<longrightarrow> bit_at (ba_array b) j"
    using d(2) ix by (auto simp: le_less_Suc_eq)
  from ba_free_result [of b 0 "ucast p - 49152", OF _ _ _ this]
  obtain b' where b': "port_free p b = (None, b')" "length (ba_array b') = length (ba_array b)"
    "\<And>j. j < 16384 \<Longrightarrow> bit_at (ba_array b') j = (j \<noteq> port_index p \<and> bit_at (ba_array b) j)"
    using pa_len [OF ok] ix by (auto simp: port_free_def le_less_Suc_eq Suc_le_eq)
  have "used_ports b' = used_ports b - {p}"
    using b'(3) dynamic_index port_index_inj [OF _ d(1)] by (auto simp: used_ports_def)
  then show ?thesis using b' ok by (auto simp: pa_ok_def)
qed


lemma port_alloc_at_result:
  assumes ok: "pa_ok b" and d: "dynamic_port p"
  shows "\<exists>e b'. port_alloc_at p b = (e, b') \<and> pa_ok b' \<and>
    (if p \<in> used_ports b then e = Some Allocation_conflict \<and> b' = b
     else e = None \<and> used_ports b' = insert p (used_ports b))"
proof -
  let ?i = "ucast p - 49152 :: addr"
  note ix = dynamic_index [OF d]
  have len: "bit_len (ba_array b) < 2 ^ 64" using pa_len [OF ok] by simp
  have one: "in_bits ?i 1 j \<longleftrightarrow> j = port_index p" for j using ix by (auto simp: in_bits_def)
  have get: "bit_array_get (ba_array b) ?i 1 = Inr (bit_at (ba_array b) (port_index p))"
    using get_correct [OF len, of ?i 1] ix pa_len [OF ok] by (auto simp: one)
  show ?thesis
  proof (cases "bit_at (ba_array b) (port_index p)")
    case True
    then show ?thesis using get d ok by (simp add: port_alloc_at_def ba_alloc_addr_def used_ports_def)
  next
    case False
    have lt: "unat ?i < bit_len (ba_array b)" "unat ?i + unat (1 :: addr) \<le> bit_len (ba_array b)" using ix pa_len [OF ok] by simp_all
    have clear: "\<forall>j. in_bits ?i 1 j \<longrightarrow> bit_at (ba_array b) j = False" using False by (simp add: one)
    obtain ws' where ws: "set_bits (ba_array b) ?i 1 False = (None, ws')" "length ws' = length (ba_array b)"
      "\<And>j. j < bit_len (ba_array b) \<Longrightarrow> bit_at ws' j = (if in_bits ?i 1 j then \<not> False else bit_at (ba_array b) j)"
      by (rule set_bits_ok [OF len lt clear]) blast
    then have ws': "bit_array_set (ba_array b) ?i 1 = (None, ws')" "length ws' = length (ba_array b)"
      "\<And>j. j < 16384 \<Longrightarrow> bit_at ws' j = (j = port_index p \<or> bit_at (ba_array b) j)"
      by (simp_all add: one bit_array_set_def pa_len [OF ok])
    have "{q. dynamic_port q \<and> bit_at ws' (port_index q)} = insert p (used_ports b)"
      using ws'(3) dynamic_index port_index_inj [OF _ d] d by (auto simp: used_ports_def)
    then show ?thesis using get False ws'(1,2) ok d
      by (simp add: port_alloc_at_def ba_alloc_addr_def used_ports_def pa_ok_def)
  qed
qed


section \<open>Guards\<close>

definition ps_ok :: "port_state \<Rightarrow> bool" where
  "ps_ok s \<longleftrightarrow> (\<forall>a. pa_ok (ps_alloc s a))"

lemma ps_okD: "ps_ok s \<Longrightarrow> pa_ok (ps_alloc s a)"
  by (cases a) (simp add: ps_ok_def)

abbreviation ports_at :: "port_state \<Rightarrow> domain \<times> l3_protocol \<Rightarrow> port set" where
  "ports_at s a \<equiv> used_ports (ps_alloc s a)"

abbreviation guard_at :: "port_state \<Rightarrow> guard \<Rightarrow> domain \<times> l3_protocol" where
  "guard_at s g \<equiv> ng_alloc (ps_guard s g)"

text \<open>What a guard promises: it hands out a port that nobody uses, and at most \<open>ng_max\<close> at a time.\<close>

definition guard_took :: "guard \<Rightarrow> port \<Rightarrow> port_state \<Rightarrow> port_state \<Rightarrow> bool" where
  "guard_took g p s s' \<longleftrightarrow> ps_ok s' \<and> ng_used (ps_guard s g) \<noteq> ng_max (ps_guard s g) \<and> dynamic_port p
     \<and> p \<notin> ports_at s (guard_at s g)
     \<and> (\<forall>a. ports_at s' a = (if a = guard_at s g then insert p (ports_at s a) else ports_at s a))
     \<and> ps_guard s' = (ps_guard s)(g := (ps_guard s g)\<lparr> ng_used := ng_used (ps_guard s g) + 1 \<rparr>)"

definition guard_kept :: "port_state \<Rightarrow> port_state \<Rightarrow> bool" where
  "guard_kept s s' \<longleftrightarrow> ps_ok s' \<and> (\<forall>a. ports_at s' a = ports_at s a) \<and> ps_guard s' = ps_guard s"

lemma guard_alloc_result:
  assumes "ps_ok s"
  shows "\<exists>r s'. guard_alloc g s = Some (r, s') \<and>
    (case r of
       Inr p \<Rightarrow> guard_took g p s s'
     | Inl e \<Rightarrow> guard_kept s s' \<and>
        (if ng_used (ps_guard s g) = ng_max (ps_guard s g) then e = No_nat_ports
         else e = Bit_allocator_error Out_of_indices \<and> ports_at s (guard_at s g) = Collect dynamic_port))"
proof (cases "ng_used (ps_guard s g) = ng_max (ps_guard s g)")
  case True
  then show ?thesis using assms by (simp add: guard_alloc_def Let_def guard_kept_def)
next
  case False
  have ok: "pa_ok (ps_alloc s (guard_at s g))" using assms by (simp add: ps_okD)
  then obtain r b' where a: "port_alloc (ps_alloc s (guard_at s g)) = Some (r, b')" "pa_ok b'"
    "case r of
       Inr p \<Rightarrow> dynamic_port p \<and> p \<notin> ports_at s (guard_at s g) \<and> used_ports b' = insert p (ports_at s (guard_at s g))
     | Inl e \<Rightarrow> e = Bit_allocator_error Out_of_indices \<and> used_ports b' = ports_at s (guard_at s g)
        \<and> ports_at s (guard_at s g) = Collect dynamic_port"
    using port_alloc_result [OF ok] by blast
  show ?thesis
    using a False assms
    by (cases r)
      (auto simp: guard_alloc_def Let_def guard_kept_def guard_took_def set_port_alloc_def set_guard_used_def ps_ok_def fun_eq_iff)
qed

lemma guard_alloc_at_result:
  assumes "ps_ok s" "dynamic_port p"
  shows "\<exists>e s'. guard_alloc_at g p s = (e, s') \<and>
    (case e of
       None \<Rightarrow> guard_took g p s s'
     | Some e \<Rightarrow> guard_kept s s' \<and>
        (if ng_used (ps_guard s g) = ng_max (ps_guard s g) then e = No_nat_ports
         else e = Allocation_conflict \<and> p \<in> ports_at s (guard_at s g)))"
proof (cases "ng_used (ps_guard s g) = ng_max (ps_guard s g)")
  case True
  then show ?thesis using assms by (simp add: guard_alloc_at_def Let_def guard_kept_def)
next
  case False
  have ok: "pa_ok (ps_alloc s (guard_at s g))" using assms by (simp add: ps_okD)
  obtain e b' where a: "port_alloc_at p (ps_alloc s (guard_at s g)) = (e, b')" "pa_ok b'"
    "if p \<in> ports_at s (guard_at s g) then e = Some Allocation_conflict \<and> b' = ps_alloc s (guard_at s g)
     else e = None \<and> used_ports b' = insert p (ports_at s (guard_at s g))"
    using port_alloc_at_result [OF ok assms(2)] by blast
  show ?thesis
    using a False assms
    by (cases "p \<in> ports_at s (guard_at s g)")
      (auto simp: guard_alloc_at_def Let_def guard_kept_def guard_took_def set_port_alloc_def set_guard_used_def ps_ok_def fun_eq_iff)
qed

definition guard_gave :: "guard \<Rightarrow> port \<Rightarrow> port_state \<Rightarrow> port_state \<Rightarrow> bool" where
  "guard_gave g p s s' \<longleftrightarrow> ps_ok s'
     \<and> (\<forall>a. ports_at s' a = (if a = guard_at s g then ports_at s a - {p} else ports_at s a))
     \<and> ps_guard s' = (ps_guard s)(g := (ps_guard s g)\<lparr> ng_used := (if ng_used (ps_guard s g) \<noteq> 0 then ng_used (ps_guard s g) - 1 else 0) \<rparr>)"

lemma guard_free_result:
  assumes "ps_ok s" "p \<in> ports_at s (guard_at s g)"
  shows "\<exists>s'. guard_free g p s = (None, s') \<and> guard_gave g p s s'"
proof -
  have "pa_ok (ps_alloc s (guard_at s g))" using assms by (simp add: ps_okD)
  from port_free_result [OF this assms(2)] show ?thesis using assms(1)
    by (auto simp: guard_free_def Let_def guard_gave_def set_port_alloc_def set_guard_used_def ps_ok_def fun_eq_iff)
qed

text \<open>
  The guards of several NAT rules share an allocator, and nothing bounds the sum of their limits.  A guard that may
  still draw from an allocator without free ports passes the exception of the bit allocator on, which is not
  the exception \<open>Port_allocator_guard::Out_of_indices\<close> that the callers catch.
\<close>

lemma shared_ports_exhausted:
  assumes "ps_ok s" "ng_used (ps_guard s g) \<noteq> ng_max (ps_guard s g)" "ports_at s (guard_at s g) = Collect dynamic_port"
  shows "\<exists>s'. guard_alloc g s = Some (Inl (Bit_allocator_error Out_of_indices), s')"
proof -
  obtain r s' where g: "guard_alloc g s = Some (r, s')"
    "case r of Inr p \<Rightarrow> guard_took g p s s' | Inl e \<Rightarrow> guard_kept s s' \<and> e = Bit_allocator_error Out_of_indices
        \<and> ports_at s (guard_at s g) = Collect dynamic_port"
    using guard_alloc_result [OF assms(1), of g] unfolding if_not_P [OF assms(2)] by blast
  then show ?thesis using assms(3) by (cases r) (auto simp: guard_took_def)
qed

end
