(* ===== verification/Octet_Order.thy ===== *)
theory Octet_Order
  imports Net_Checksum Memory_Strings
begin

text \<open>
  The order of \<open>memcmp\<close> on octets of equal length is that of the numbers in network order.  The tables of
  the NIC router sort addresses and connections by it.
\<close>

fun octets_num :: "octets \<Rightarrow> nat" where
  "octets_num [] = 0"
| "octets_num (b # bs) = unat b * 256 ^ length bs + octets_num bs"

lemma octets_num_less: "octets_num bs < 256 ^ length bs"
proof (induction bs)
  case (Cons b bs)
  have "unat b + 1 \<le> 256" using octet_less [of b] by simp
  then have "(unat b + 1) * 256 ^ length bs \<le> 256 * 256 ^ length bs" by (rule mult_le_mono1)
  then have "unat b * 256 ^ length bs + 256 ^ length bs \<le> 256 * 256 ^ length bs" by (simp only: add_mult_distrib mult_1)
  then have "unat b * 256 ^ length bs + octets_num bs < 256 * 256 ^ length bs" using Cons by linarith
  then show ?case by simp
qed simp

lemma octets_num_lead:
  assumes "unat a < unat b" "length as = length bs"
  shows "octets_num (a # as) < octets_num (b # bs)"
proof -
  have "octets_num (a # as) < (unat a + 1) * 256 ^ length bs" using octets_num_less [of as] assms(2) by simp
  also have "\<dots> \<le> unat b * 256 ^ length bs" using assms(1) by (intro mult_le_mono1) simp
  finally show ?thesis by simp
qed

lemma octets_num_inj: "length as = length bs \<Longrightarrow> octets_num as = octets_num bs \<longleftrightarrow> as = bs"
proof (induction as bs rule: list_induct2)
  case (Cons a as b bs)
  consider "unat a < unat b" | "unat b < unat a" | "a = b" by (metis nat_neq_iff word_unat_eq_iff)
  then show ?case
    using octets_num_lead [of a b as bs] octets_num_lead [of b a bs as] Cons by cases auto
qed simp

lemma memcmp_num:
  "length p = n \<Longrightarrow> length q = n \<Longrightarrow>
     \<exists>d. memcmp p q uint n = Some d \<and> (d > 0 \<longleftrightarrow> octets_num q < octets_num p) \<and> (d = 0 \<longleftrightarrow> p = q)"
proof (induction n arbitrary: p q)
  case (Suc n)
  then obtain a p' b q' where e: "p = a # p'" "q = b # q'" "length p' = n" "length q' = n"
    by (auto simp: length_Suc_conv)
  have u: "uint a < uint b \<longleftrightarrow> unat a < unat b" "uint b < uint a \<longleftrightarrow> unat b < unat a"
    by (simp_all only: uint_nat of_nat_less_iff)
  consider (less) "unat a < unat b" | (greater) "unat b < unat a" | (eq) "a = b"
    by (metis nat_neq_iff word_unat_eq_iff)
  then show ?case
  proof cases
    case less
    then have "a \<noteq> b" "octets_num p < octets_num q" using octets_num_lead [of a b p' q'] e by auto
    then show ?thesis using less e u(1) by auto
  next
    case greater
    then have "a \<noteq> b" "octets_num q < octets_num p" using octets_num_lead [of b a q' p'] e by auto
    then show ?thesis using greater e u(2) by auto
  next
    case eq
    then show ?thesis using Suc.IH [OF e(3,4)] e by auto
  qed
qed simp

end
