(* ===== verification/Router_Links.thy ===== *)
theory Router_Links
  imports Router_Ports Octet_Order
begin

text \<open>
  The connections that the NIC router tracks, \<open>nic_router/link.{h,cc}\<close>.  A link has a client and a server side;
  each is a node of the tree of the links of its domain, sorted by the addresses and ports of the packets
  that arrive there.  A link is a reference, and the trees hold both sides of it.  The timeout of a link is the
  duration it was last scheduled with.  \<open>None\<close> is the use of a dangling reference, or an exception that nobody
  catches.
\<close>

section \<open>Sides\<close>

type_synonym iface = nat

record link_side_id =
  ls_src_ip :: ipv4_address
  ls_src_port :: port
  ls_dst_ip :: ipv4_address
  ls_dst_port :: port

definition side_data :: "link_side_id \<Rightarrow> octets" where
  "side_data i = ls_src_ip i @ le_store 2 (ls_src_port i) @ ls_dst_ip i @ le_store 2 (ls_dst_port i)"

abbreviation SIDE_DATA_SIZE :: nat where "SIDE_DATA_SIZE \<equiv> 12"

definition side_id_eq :: "link_side_id \<Rightarrow> link_side_id \<Rightarrow> bool" where
  "side_id_eq this other \<longleftrightarrow> memcmp (side_data other) (side_data this) uint SIDE_DATA_SIZE = Some 0"

definition side_id_gt :: "link_side_id \<Rightarrow> link_side_id \<Rightarrow> bool" where
  "side_id_gt this other =
     (case memcmp (side_data other) (side_data this) uint SIDE_DATA_SIZE of Some d \<Rightarrow> d > 0 | None \<Rightarrow> False)"

record link_side =
  sd_id :: link_side_id
  sd_link :: nat
  sd_is_client :: bool

definition side_higher :: "link_side \<Rightarrow> link_side \<Rightarrow> bool" where
  "side_higher this side = side_id_gt (sd_id side) (sd_id this)"

definition find_by_id :: "link_side_id \<Rightarrow> link_side tree \<Rightarrow> link_side option" where
  "find_by_id i t = tree_find (\<lambda>s. side_id_eq i (sd_id s)) (\<lambda>s. side_id_gt i (sd_id s)) t"


section \<open>Links\<close>

record router_config =
  rc_tcp_idle_timeout :: addr
  rc_udp_idle_timeout :: addr
  rc_icmp_idle_timeout :: addr
  rc_tcp_max_segm_lifetime :: addr

record link =
  lk_config :: router_config
  lk_client_interface :: iface
  lk_port_alloc :: "guard option"
  lk_dissolve_us :: addr
  lk_scheduled :: addr
  lk_protocol :: l3_protocol
  lk_client_domain :: domain
  lk_client :: link_side_id
  lk_server_domain :: domain
  lk_server :: link_side_id
  lk_client_fin :: bool
  lk_server_fin :: bool
  lk_client_fin_acked :: bool
  lk_server_fin_acked :: bool
  lk_closed :: bool

record link_state =
  ls_link :: "nat \<Rightarrow> link option"
  ls_links :: "iface \<Rightarrow> l3_protocol \<Rightarrow> nat list"
  ls_dissolved :: "iface \<Rightarrow> l3_protocol \<Rightarrow> nat list"
  ls_sides :: "domain \<Rightarrow> l3_protocol \<Rightarrow> link_side tree"
  ls_ports :: port_state

definition client_side :: "nat \<Rightarrow> link \<Rightarrow> link_side" where
  "client_side l lk = \<lparr> sd_id = lk_client lk, sd_link = l, sd_is_client = True \<rparr>"

definition server_side :: "nat \<Rightarrow> link \<Rightarrow> link_side" where
  "server_side l lk = \<lparr> sd_id = lk_server lk, sd_link = l, sd_is_client = False \<rparr>"

definition set_link :: "nat \<Rightarrow> link option \<Rightarrow> link_state \<Rightarrow> link_state" where
  "set_link l v s = s\<lparr> ls_link := (ls_link s)(l := v) \<rparr>"

definition set_links :: "iface \<Rightarrow> l3_protocol \<Rightarrow> nat list \<Rightarrow> link_state \<Rightarrow> link_state" where
  "set_links i p v s = s\<lparr> ls_links := (ls_links s)(i := (ls_links s i)(p := v)) \<rparr>"

definition set_dissolved :: "iface \<Rightarrow> l3_protocol \<Rightarrow> nat list \<Rightarrow> link_state \<Rightarrow> link_state" where
  "set_dissolved i p v s = s\<lparr> ls_dissolved := (ls_dissolved s)(i := (ls_dissolved s i)(p := v)) \<rparr>"

definition set_sides :: "domain \<Rightarrow> l3_protocol \<Rightarrow> link_side tree \<Rightarrow> link_state \<Rightarrow> link_state" where
  "set_sides d p v s = s\<lparr> ls_sides := (ls_sides s)(d := (ls_sides s d)(p := v)) \<rparr>"

definition side_insert :: "domain \<Rightarrow> l3_protocol \<Rightarrow> link_side \<Rightarrow> link_state \<Rightarrow> link_state" where
  "side_insert d p x s = set_sides d p (tree_insert side_higher x (ls_sides s d p)) s"

definition side_remove :: "domain \<Rightarrow> l3_protocol \<Rightarrow> link_side \<Rightarrow> link_state \<Rightarrow> link_state option" where
  "side_remove d p x s = map_option (\<lambda>t. set_sides d p t s) (tree_remove side_higher x (ls_sides s d p))"

definition schedule :: "addr \<Rightarrow> link \<Rightarrow> link" where
  "schedule us lk = lk\<lparr> lk_scheduled := us \<rparr>"

text \<open>The constructor; the object is at the fresh reference \<open>l\<close>.\<close>

definition link_construct ::
  "nat \<Rightarrow> iface \<Rightarrow> domain \<Rightarrow> link_side_id \<Rightarrow> guard option \<Rightarrow> domain \<Rightarrow> link_side_id \<Rightarrow> router_config \<Rightarrow> l3_protocol \<Rightarrow> addr \<Rightarrow>
   link_state \<Rightarrow> link_state" where
  "link_construct l cln_interface cln_domain cln_id srv_port_alloc srv_domain srv_id config protocol dissolve_timeout s =
     (let lk = \<lparr> lk_config = config, lk_client_interface = cln_interface, lk_port_alloc = srv_port_alloc,
          lk_dissolve_us = dissolve_timeout, lk_scheduled = 0, lk_protocol = protocol,
          lk_client_domain = cln_domain, lk_client = cln_id, lk_server_domain = srv_domain, lk_server = srv_id,
          lk_client_fin = False, lk_server_fin = False, lk_client_fin_acked = False, lk_server_fin_acked = False,
          lk_closed = False \<rparr>;
        s = set_links cln_interface protocol (l # ls_links s cln_interface protocol) s;
        s = side_insert cln_domain protocol (client_side l lk) s;
        s = side_insert srv_domain protocol (server_side l lk) s
      in set_link l (Some (schedule dissolve_timeout lk)) s)"

definition idle_timeout :: "router_config \<Rightarrow> l3_protocol \<Rightarrow> addr option" where
  "idle_timeout c p =
     (case p of TCP \<Rightarrow> Some (rc_tcp_idle_timeout c) | UDP \<Rightarrow> Some (rc_udp_idle_timeout c)
      | ICMP \<Rightarrow> Some (rc_icmp_idle_timeout c) | Other_protocol _ \<Rightarrow> None)"

text \<open>\<open>_new_link\<close> of an interface; the exception of an unknown protocol is \<open>None\<close>.\<close>

definition new_link ::
  "nat \<Rightarrow> iface \<Rightarrow> domain \<Rightarrow> router_config \<Rightarrow> l3_protocol \<Rightarrow> link_side_id \<Rightarrow> guard option \<Rightarrow> domain \<Rightarrow> link_side_id \<Rightarrow>
   link_state \<Rightarrow> link_state option" where
  "new_link l i cln_domain c protocol local remote_port_alloc remote_domain remote s = map_option
     (\<lambda>us. link_construct l i cln_domain local remote_port_alloc remote_domain remote c protocol us s) (idle_timeout c protocol)"

definition dissolve :: "nat \<Rightarrow> link_state \<Rightarrow> link_state option" where
  "dissolve l s = do {
     lk \<leftarrow> ls_link s l;
     s \<leftarrow> side_remove (lk_client_domain lk) (lk_protocol lk) (client_side l lk) s;
     s \<leftarrow> side_remove (lk_server_domain lk) (lk_protocol lk) (server_side l lk) s;
     case lk_port_alloc lk of
       None \<Rightarrow> Some s
     | Some g \<Rightarrow>
         (case guard_free g (ls_dst_port (lk_server lk)) (ls_ports s) of
            (None, ps) \<Rightarrow> Some (s\<lparr> ls_ports := ps \<rparr>)
          | (Some e, ps) \<Rightarrow> None) }"

definition handle_dissolve_timeout :: "nat \<Rightarrow> link_state \<Rightarrow> link_state option" where
  "handle_dissolve_timeout l s = do {
     s \<leftarrow> dissolve l s;
     lk \<leftarrow> ls_link s l;
     let (i, p) = (lk_client_interface lk, lk_protocol lk);
     let s = set_links i p (remove1 l (ls_links s i p)) s;
     Some (set_dissolved i p (l # ls_dissolved s i p) s) }"

definition destroy_link :: "iface \<Rightarrow> l3_protocol \<Rightarrow> nat \<Rightarrow> link_state \<Rightarrow> link_state option" where
  "destroy_link i p l s = do {
     s \<leftarrow> dissolve l s;
     Some (set_link l None (set_links i p (remove1 l (ls_links s i p)) s)) }"

definition destroy_dissolved_links :: "iface \<Rightarrow> l3_protocol \<Rightarrow> link_state \<Rightarrow> link_state" where
  "destroy_dissolved_links i p s =
     fold (\<lambda>l s. set_link l None (set_dissolved i p (remove1 l (ls_dissolved s i p)) s)) (ls_dissolved s i p) s"

fun destroy_each_link :: "iface \<Rightarrow> l3_protocol \<Rightarrow> nat list \<Rightarrow> link_state \<Rightarrow> link_state option" where
  "destroy_each_link i p [] s = Some s"
| "destroy_each_link i p (l # ls) s = do { s \<leftarrow> destroy_link i p l s; destroy_each_link i p ls s }"

definition destroy_links :: "iface \<Rightarrow> l3_protocol \<Rightarrow> link_state \<Rightarrow> link_state option" where
  "destroy_links i p s = (let s = destroy_dissolved_links i p s in destroy_each_link i p (ls_links s i p) s)"

text \<open>
  \<open>handle_config\<close> moves a link to the domains of a new configuration, which has port allocators of its own;
  an unknown protocol is \<open>None\<close>.
\<close>

definition link_handle_config :: "nat \<Rightarrow> domain \<Rightarrow> domain \<Rightarrow> guard option \<Rightarrow> router_config \<Rightarrow> link_state \<Rightarrow> link_state option" where
  "link_handle_config l cln_domain srv_domain srv_port_alloc config s = do {
     lk \<leftarrow> ls_link s l;
     us \<leftarrow> idle_timeout config (lk_protocol lk);
     s \<leftarrow> side_remove (lk_client_domain lk) (lk_protocol lk) (client_side l lk) s;
     s \<leftarrow> side_remove (lk_server_domain lk) (lk_protocol lk) (server_side l lk) s;
     let lk = schedule us (lk\<lparr> lk_dissolve_us := us \<rparr>);
     let lk = lk\<lparr> lk_config := config, lk_client_domain := cln_domain, lk_server_domain := srv_domain, lk_port_alloc := srv_port_alloc \<rparr>;
     let s = side_insert cln_domain (lk_protocol lk) (client_side l lk) s;
     let s = side_insert srv_domain (lk_protocol lk) (server_side l lk) s;
     Some (set_link l (Some lk) s) }"


section \<open>Packets of a link\<close>

definition link_packet :: "link \<Rightarrow> link" where
  "link_packet lk = schedule (lk_dissolve_us lk) lk"

definition fin_acked :: "link \<Rightarrow> link" where
  "fin_acked lk =
     (if lk_server_fin_acked lk \<and> lk_client_fin_acked lk
      then (schedule (push_bit 1 (rc_tcp_max_segm_lifetime (lk_config lk))) lk)\<lparr> lk_closed := True \<rparr> else lk)"

definition server_packet :: "bool \<Rightarrow> bool \<Rightarrow> link \<Rightarrow> link" where
  "server_packet fin ack lk =
     (if lk_closed lk then lk
      else
        (let lk = (if fin then lk\<lparr> lk_server_fin := True \<rparr> else lk);
             lk = (if ack \<and> lk_client_fin lk then fin_acked (lk\<lparr> lk_client_fin_acked := True \<rparr>) else lk)
         in if \<not> lk_closed lk then link_packet lk else lk))"

definition client_packet :: "bool \<Rightarrow> bool \<Rightarrow> link \<Rightarrow> link" where
  "client_packet fin ack lk =
     (if lk_closed lk then lk
      else
        (let lk = (if fin then lk\<lparr> lk_client_fin := True \<rparr> else lk);
             lk = (if ack \<and> lk_server_fin lk then fin_acked (lk\<lparr> lk_server_fin_acked := True \<rparr>) else lk)
         in if \<not> lk_closed lk then link_packet lk else lk))"


section \<open>The trees of the sides\<close>

definition id_ok :: "link_side_id \<Rightarrow> bool" where
  "id_ok i \<longleftrightarrow> ip_ok (ls_src_ip i) \<and> ip_ok (ls_dst_ip i)"

definition id_key :: "link_side_id \<Rightarrow> int" where
  "id_key i = - int (octets_num (side_data i))"

lemma length_le_store [simp]: "length (le_store n x) = n"
  by (simp add: le_store_def)

lemma length_side_data [simp]: "id_ok i \<Longrightarrow> length (side_data i) = SIDE_DATA_SIZE"
  by (simp add: side_data_def id_ok_def)

lemma le_load_store: "le_load (le_store 2 (p :: port)) = p"
  by (rule bit_word_eqI) (auto simp: le_store_def bit_simps numeral_2_eq_2)

lemma side_data_inj: "id_ok i \<Longrightarrow> id_ok j \<Longrightarrow> side_data i = side_data j \<longleftrightarrow> i = j"
  by (auto simp: side_data_def id_ok_def intro!: link_side_id.equality)
    (metis le_load_store)+

lemma id_key_inj: "id_ok i \<Longrightarrow> id_ok j \<Longrightarrow> id_key i = id_key j \<longleftrightarrow> i = j"
  by (simp add: id_key_def octets_num_inj side_data_inj)

text \<open>The comparison \<open>>\<close> of the code is the reverse of the order of \<open>memcmp\<close>, everywhere.\<close>

lemma side_id_gt_key: "id_ok i \<Longrightarrow> id_ok j \<Longrightarrow> side_id_gt i j \<longleftrightarrow> id_key j < id_key i"
  using memcmp_num [of "side_data j" SIDE_DATA_SIZE "side_data i"] by (auto simp: side_id_gt_def id_key_def)

lemma side_id_eq_key: "id_ok i \<Longrightarrow> id_ok j \<Longrightarrow> side_id_eq i j \<longleftrightarrow> id_key i = id_key j"
  using memcmp_num [of "side_data j" SIDE_DATA_SIZE "side_data i"] by (auto simp: side_id_eq_def id_key_inj side_data_inj)

interpretation sides: search_tree side_higher "\<lambda>i x. side_id_eq i (sd_id x)" "\<lambda>i x. side_id_gt i (sd_id x)"
    "\<lambda>x. id_key (sd_id x)" id_key "\<lambda>x. id_ok (sd_id x)" id_ok
  by unfold_locales (simp_all add: side_higher_def side_id_gt_key side_id_eq_key)

abbreviation side_tree_ok :: "link_side tree \<Rightarrow> bool" where
  "side_tree_ok t \<equiv> tree_ok (\<lambda>x. id_key (sd_id x)) (\<lambda>x. id_ok (sd_id x)) t \<and> distinct (inorder t)"


section \<open>The tables of the links\<close>

text \<open>The sides of a set of links, in the tree of a domain for a protocol.\<close>

definition sides_of :: "(nat \<times> link) set \<Rightarrow> domain \<Rightarrow> l3_protocol \<Rightarrow> link_side set" where
  "sides_of V d p = {client_side l lk | l lk. (l, lk) \<in> V \<and> lk_protocol lk = p \<and> lk_client_domain lk = d}
     \<union> {server_side l lk | l lk. (l, lk) \<in> V \<and> lk_protocol lk = p \<and> lk_server_domain lk = d}"

definition trees_ok :: "(nat \<times> link) set \<Rightarrow> link_state \<Rightarrow> bool" where
  "trees_ok V s \<longleftrightarrow> finite V \<and> inj_on fst V \<and> (\<forall>(l, lk)\<in>V. id_ok (lk_client lk) \<and> id_ok (lk_server lk))
     \<and> (\<forall>d p. side_tree_ok (ls_sides s d p) \<and> tree_set (ls_sides s d p) = sides_of V d p)"

lemma trees_okD:
  assumes "trees_ok V s"
  shows "side_tree_ok (ls_sides s d p)" "tree_set (ls_sides s d p) = sides_of V d p"
    "finite V" "inj_on fst V" "(l, lk) \<in> V \<Longrightarrow> id_ok (lk_client lk) \<and> id_ok (lk_server lk)"
  using assms by (auto simp: trees_ok_def)

lemma sd_sides [simp]:
  "sd_link (client_side l lk) = l" "sd_link (server_side l lk) = l"
  "sd_is_client (client_side l lk)" "\<not> sd_is_client (server_side l lk)"
  "sd_id (client_side l lk) = lk_client lk" "sd_id (server_side l lk) = lk_server lk"
  by (simp_all add: client_side_def server_side_def)

lemma sides_differ [simp]: "client_side l lk \<noteq> server_side l' lk'" "server_side l' lk' \<noteq> client_side l lk"
  by (simp_all add: client_side_def server_side_def)

lemma ls_sides_insert [simp]:
  "ls_sides (side_insert d p x s) d' p' = (if d' = d \<and> p' = p then tree_insert side_higher x (ls_sides s d p) else ls_sides s d' p')"
  by (simp add: side_insert_def set_sides_def)

lemma side_insert_simps [simp]:
  "ls_link (side_insert d p x s) = ls_link s" "ls_links (side_insert d p x s) = ls_links s"
  "ls_dissolved (side_insert d p x s) = ls_dissolved s" "ls_ports (side_insert d p x s) = ls_ports s"
  "ls_link (set_links i p v s) = ls_link s" "ls_sides (set_links i p v s) = ls_sides s"
  "ls_dissolved (set_links i p v s) = ls_dissolved s" "ls_ports (set_links i p v s) = ls_ports s"
  "ls_links (set_link l lk s) = ls_links s" "ls_sides (set_link l lk s) = ls_sides s"
  "ls_dissolved (set_link l lk s) = ls_dissolved s" "ls_ports (set_link l lk s) = ls_ports s"
  "ls_link (set_dissolved i p v s) = ls_link s" "ls_sides (set_dissolved i p v s) = ls_sides s"
  "ls_links (set_dissolved i p v s) = ls_links s" "ls_ports (set_dissolved i p v s) = ls_ports s"
  by (simp_all add: side_insert_def set_sides_def set_links_def set_link_def set_dissolved_def)

lemma side_remove_simps:
  assumes "side_remove d p x s = Some s'"
  shows "ls_link s' = ls_link s" "ls_links s' = ls_links s" "ls_dissolved s' = ls_dissolved s" "ls_ports s' = ls_ports s"
  using assms by (auto simp: side_remove_def set_sides_def)

lemma links_simps [simp]:
  "ls_link (set_link l lk s) l' = (if l' = l then lk else ls_link s l')"
  "ls_links (set_links i p v s) i' p' = (if i' = i \<and> p' = p then v else ls_links s i' p')"
  "ls_dissolved (set_dissolved i p v s) i' p' = (if i' = i \<and> p' = p then v else ls_dissolved s i' p')"
  by (simp_all add: set_link_def set_links_def set_dissolved_def)

text \<open>Insertion into one of the trees and removal from it.\<close>

definition forest_ok :: "(domain \<Rightarrow> l3_protocol \<Rightarrow> link_side set) \<Rightarrow> link_state \<Rightarrow> bool" where
  "forest_ok S s \<longleftrightarrow> (\<forall>d p. side_tree_ok (ls_sides s d p) \<and> tree_set (ls_sides s d p) = S d p)"

lemma forest_insert:
  assumes f: "forest_ok S s" and x: "id_ok (sd_id x)" "x \<notin> S d p"
  shows "forest_ok (S(d := (S d)(p := insert x (S d p)))) (side_insert d p x s)"
proof -
  have t: "side_tree_ok (ls_sides s d p)" "tree_set (ls_sides s d p) = S d p" using f by (auto simp: forest_ok_def)
  then have "side_tree_ok (tree_insert side_higher x (ls_sides s d p))"
    "tree_set (tree_insert side_higher x (ls_sides s d p)) = insert x (S d p)"
    using x sides.inserted_ok sides.insert_set sides.insert_distinct by auto
  then show ?thesis using f by (auto simp: forest_ok_def)
qed

lemma forest_remove:
  assumes f: "forest_ok S s" and x: "x \<in> S d p"
  shows "\<exists>s'. side_remove d p x s = Some s' \<and> forest_ok (S(d := (S d)(p := S d p - {x}))) s'"
proof -
  have t: "side_tree_ok (ls_sides s d p)" "tree_set (ls_sides s d p) = S d p" using f by (auto simp: forest_ok_def)
  have "x \<in> tree_set (ls_sides s d p)" using t(2) x by simp
  then obtain t' where t': "tree_remove side_higher x (ls_sides s d p) = Some t'" "side_tree_ok t'" "tree_set t' = S d p - {x}"
    using sides.removed t by metis
  have "forest_ok (S(d := (S d)(p := S d p - {x}))) (set_sides d p t' s)"
    using f t'(2,3) by (auto simp: forest_ok_def set_sides_def)
  then show ?thesis using t'(1) by (simp add: side_remove_def)
qed

lemma trees_forest: "trees_ok V s \<longleftrightarrow> finite V \<and> inj_on fst V
    \<and> (\<forall>(l, lk)\<in>V. id_ok (lk_client lk) \<and> id_ok (lk_server lk)) \<and> forest_ok (sides_of V) s"
  by (simp add: trees_ok_def forest_ok_def)

lemma sides_of_insert:
  "sides_of (insert (l, lk) V) =
     (let S = (sides_of V)(lk_client_domain lk := (sides_of V (lk_client_domain lk))
            (lk_protocol lk := insert (client_side l lk) (sides_of V (lk_client_domain lk) (lk_protocol lk))))
      in S(lk_server_domain lk := (S (lk_server_domain lk))
            (lk_protocol lk := insert (server_side l lk) (S (lk_server_domain lk) (lk_protocol lk)))))"
  by (auto simp: sides_of_def fun_eq_iff Let_def)

lemma sides_of_link: "x \<in> sides_of V d p \<Longrightarrow> \<exists>lk. (sd_link x, lk) \<in> V"
  by (auto simp: sides_of_def)

lemma sides_of_remove:
  assumes "inj_on fst V" "(l, lk) \<in> V"
  shows "sides_of (V - {(l, lk)}) =
     (let S = (sides_of V)(lk_client_domain lk := (sides_of V (lk_client_domain lk))
            (lk_protocol lk := sides_of V (lk_client_domain lk) (lk_protocol lk) - {client_side l lk}))
      in S(lk_server_domain lk := (S (lk_server_domain lk))
            (lk_protocol lk := S (lk_server_domain lk) (lk_protocol lk) - {server_side l lk})))"
proof -
  define W where "W = V - {(l, lk)}"
  have V: "V = insert (l, lk) W" using assms(2) by (auto simp: W_def)
  have n: "\<And>d p. client_side l lk \<notin> sides_of W d p" "\<And>d p. server_side l lk \<notin> sides_of W d p"
  proof -
    have "(l, lk') \<notin> W" for lk' using inj_onD [OF assms(1), of "(l, lk)" "(l, lk')"] assms(2) by (auto simp: W_def)
    then show "\<And>d p. client_side l lk \<notin> sides_of W d p" "\<And>d p. server_side l lk \<notin> sides_of W d p"
      using sides_of_link [of _ W] by (metis sd_sides(1), metis sd_sides(2))
  qed
  show ?thesis
    unfolding W_def [symmetric] unfolding V sides_of_insert
    using n by (simp add: fun_eq_iff Let_def) auto
qed

end
