(* ===== verification/Router_Links_Correct.thy ===== *)
theory Router_Links_Correct
  imports Router_Links
begin

text \<open>
  The invariant of the links of the NIC router: the trees hold exactly the sides of the live links, and the ports
  of the network address translation are exactly those of the live links that use it, each used once and
  counted by its guard.  The steps of the router that create, use and end links preserve it.
\<close>

section \<open>Trees\<close>

lemma link_construct_link:
  assumes "ls_link (link_construct l i cd cln_id g sd srv_id c p us s) l = Some lk"
  shows "link_construct l i cd cln_id g sd srv_id c p us s = set_link l (Some lk)
      (side_insert sd p (server_side l lk) (side_insert cd p (client_side l lk) (set_links i p (l # ls_links s i p) s)))"
    and "lk_client_domain lk = cd" "lk_server_domain lk = sd" "lk_protocol lk = p" "lk_client lk = cln_id"
    "lk_server lk = srv_id" "lk_port_alloc lk = g" "lk_client_interface lk = i"
  using assms by (auto simp: link_construct_def Let_def client_side_def server_side_def schedule_def)

lemma forest_set_link [simp]: "forest_ok S (set_link l lk s) \<longleftrightarrow> forest_ok S s" "forest_ok S (set_links i p v s) \<longleftrightarrow> forest_ok S s"
  by (simp_all add: forest_ok_def)

lemma link_construct_trees:
  assumes t: "trees_ok V s" and new: "l \<notin> fst ` V" and ids: "id_ok cln_id" "id_ok srv_id"
    and lk: "ls_link (link_construct l i cd cln_id g sd srv_id c p us s) l = Some lk"
  shows "trees_ok (insert (l, lk) V) (link_construct l i cd cln_id g sd srv_id c p us s)"
proof -
  have f: "forest_ok (sides_of V) s" using t by (simp add: trees_forest)
  note e = link_construct_link(1) [OF lk] and lks = link_construct_link(2-6) [OF lk]
  have n: "client_side l k \<notin> sides_of V d q" "server_side l k \<notin> sides_of V d q" for k d q
    using new sides_of_link [of _ V d q] by (metis fst_conv image_eqI sd_sides(1), metis fst_conv image_eqI sd_sides(2))
  define C where "C = (sides_of V)(cd := (sides_of V cd)(p := insert (client_side l lk) (sides_of V cd p)))"
  have f1: "forest_ok C (side_insert cd p (client_side l lk) (set_links i p ls s))" for ls
  proof -
    have "forest_ok (sides_of V) (set_links i p ls s)" using f by (simp add: forest_ok_def)
    then show ?thesis using forest_insert [of "sides_of V" _ "client_side l lk" cd p] ids lks n unfolding C_def by simp
  qed
  have nS: "server_side l lk \<notin> C sd p" using n by (simp add: C_def)
  have "forest_ok (sides_of (insert (l, lk) V)) (side_insert sd p (server_side l lk) (side_insert cd p (client_side l lk) (set_links i p ls s)))" for ls
  proof -
    have "sides_of (insert (l, lk) V) = C(sd := (C sd)(p := insert (server_side l lk) (C sd p)))"
      unfolding sides_of_insert Let_def C_def lks ..
    then show ?thesis using forest_insert [OF f1 _ nS] ids lks by simp
  qed
  then have "forest_ok (sides_of (insert (l, lk) V)) (link_construct l i cd cln_id g sd srv_id c p us s)"
    by (simp add: e)
  moreover have "inj_on fst (insert (l, lk) V)"
    using t new image_mono [of "V - {(l, lk)}" V fst] by (auto simp: trees_ok_def)
  ultimately show ?thesis using t ids lks by (auto simp: trees_forest)
qed

lemma sides_removed:
  assumes t: "trees_ok V s" and l: "(l, lk) \<in> V"
  shows "\<exists>s1 s2. side_remove (lk_client_domain lk) (lk_protocol lk) (client_side l lk) s = Some s1
    \<and> side_remove (lk_server_domain lk) (lk_protocol lk) (server_side l lk) s1 = Some s2 \<and> trees_ok (V - {(l, lk)}) s2"
proof -
  let ?cd = "lk_client_domain lk" and ?sd = "lk_server_domain lk" and ?p = "lk_protocol lk"
  have f: "forest_ok (sides_of V) s" using t by (simp add: trees_forest)
  have "client_side l lk \<in> sides_of V ?cd ?p" using l by (auto simp: sides_of_def)
  define R where "R = (sides_of V)(?cd := (sides_of V ?cd)(?p := sides_of V ?cd ?p - {client_side l lk}))"
  obtain s1 where s1: "side_remove ?cd ?p (client_side l lk) s = Some s1" "forest_ok R s1"
    using forest_remove [OF f \<open>client_side l lk \<in> sides_of V ?cd ?p\<close>] unfolding R_def by blast
  have "server_side l lk \<in> R ?sd ?p" using l by (auto simp: sides_of_def R_def)
  then obtain s2 where s2: "side_remove ?sd ?p (server_side l lk) s1 = Some s2"
    "forest_ok (R(?sd := (R ?sd)(?p := R ?sd ?p - {server_side l lk}))) s2"
    using forest_remove [OF s1(2)] by blast
  have "sides_of (V - {(l, lk)}) = R(?sd := (R ?sd)(?p := R ?sd ?p - {server_side l lk}))"
    unfolding sides_of_remove [OF trees_okD(4) [OF t] l] Let_def R_def ..
  then have s2': "forest_ok (sides_of (V - {(l, lk)})) s2" using s2(2) by simp
  have "trees_ok (V - {(l, lk)}) s2" using s2' t unfolding trees_forest by (auto intro: inj_on_subset)
  then show ?thesis using s1(1) s2(1) by blast
qed


section \<open>Ports\<close>

abbreviation nat_link :: "link \<Rightarrow> guard \<Rightarrow> bool" where
  "nat_link lk g \<equiv> lk_port_alloc lk = Some g"

abbreviation nat_port :: "link \<Rightarrow> port" where
  "nat_port lk \<equiv> ls_dst_port (lk_server lk)"

definition guard_users :: "(nat \<times> link) set \<Rightarrow> guard \<Rightarrow> nat set" where
  "guard_users V g = {l. \<exists>lk. (l, lk) \<in> V \<and> nat_link lk g}"

definition nat_ports :: "(nat \<times> link) set \<Rightarrow> port_state \<Rightarrow> domain \<times> l3_protocol \<Rightarrow> port set" where
  "nat_ports V ps a = {nat_port lk | l lk g. (l, lk) \<in> V \<and> nat_link lk g \<and> guard_at ps g = a}"

definition nat_ok :: "(nat \<times> link) set \<Rightarrow> port_state \<Rightarrow> bool" where
  "nat_ok V ps \<longleftrightarrow> ps_ok ps
     \<and> (\<forall>l lk g. (l, lk) \<in> V \<and> nat_link lk g \<longrightarrow> guard_at ps g = (lk_server_domain lk, lk_protocol lk))
     \<and> (\<forall>a. ports_at ps a = nat_ports V ps a)
     \<and> (\<forall>l1 k1 g1 l2 k2 g2. (l1, k1) \<in> V \<and> (l2, k2) \<in> V \<and> nat_link k1 g1 \<and> nat_link k2 g2 \<and> guard_at ps g1 = guard_at ps g2
          \<and> nat_port k1 = nat_port k2 \<longrightarrow> l1 = l2)
     \<and> (\<forall>g. ng_used (ps_guard ps g) \<le> ng_max (ps_guard ps g) \<and> unat (ng_used (ps_guard ps g)) = card (guard_users V g))"

lemma nat_okD:
  assumes "nat_ok V ps"
  shows "ps_ok ps" "(l, lk) \<in> V \<Longrightarrow> nat_link lk g \<Longrightarrow> guard_at ps g = (lk_server_domain lk, lk_protocol lk)"
    "ports_at ps a = nat_ports V ps a" "ng_used (ps_guard ps g) \<le> ng_max (ps_guard ps g)"
    "unat (ng_used (ps_guard ps g)) = card (guard_users V g)"
    "(l1, k1) \<in> V \<Longrightarrow> (l2, k2) \<in> V \<Longrightarrow> nat_link k1 g1 \<Longrightarrow> nat_link k2 g2 \<Longrightarrow> guard_at ps g1 = guard_at ps g2 \<Longrightarrow>
       nat_port k1 = nat_port k2 \<Longrightarrow> l1 = l2"
  using assms unfolding nat_ok_def by (blast+)

lemma guard_users_subset: "guard_users V g \<subseteq> fst ` V"
  by (force simp: guard_users_def)

text \<open>A guard never has more users than there are ports.\<close>

lemma guard_users_bound:
  assumes n: "nat_ok V ps" and inj: "inj_on fst V" and fin: "finite V"
  shows "card (guard_users V g) \<le> 16384"
proof -
  define port_of where "port_of l = port_index (nat_port (THE lk. (l, lk) \<in> V))" for l
  have the: "(THE lk. (l, lk) \<in> V) = lk" if "(l, lk) \<in> V" for l lk
  proof (rule the_equality)
    fix k
    assume "(l, k) \<in> V"
    then show "k = lk" using inj_onD [OF inj, of "(l, k)" "(l, lk)"] that by simp
  qed (rule that)
  have dyn: "dynamic_port (nat_port lk)" if "(l, lk) \<in> V" "nat_link lk g" for l lk
  proof -
    have "nat_port lk \<in> ports_at ps (guard_at ps g)" using nat_okD(3) [OF n] that by (auto simp: nat_ports_def)
    then show ?thesis by (simp add: used_ports_def)
  qed
  have "inj_on port_of (guard_users V g)"
  proof (rule inj_onI)
    fix l1 l2
    assume l: "l1 \<in> guard_users V g" "l2 \<in> guard_users V g" "port_of l1 = port_of l2"
    then obtain k1 k2 where k: "(l1, k1) \<in> V" "nat_link k1 g" "(l2, k2) \<in> V" "nat_link k2 g"
      by (auto simp: guard_users_def)
    then have "nat_port k1 = nat_port k2" using l(3) dyn port_index_inj by (auto simp: port_of_def the)
    then show "l1 = l2" using nat_okD(6) [OF n k(1,3,2,4)] by blast
  qed
  moreover have "port_of ` guard_users V g \<subseteq> {..<16384}"
    using dyn dynamic_index by (fastforce simp: guard_users_def port_of_def the)
  ultimately have "card (guard_users V g) \<le> card {..<16384 :: nat}" by (intro card_inj_on_le) simp_all
  then show ?thesis by simp
qed

lemma nat_ok_plain:
  assumes n: "nat_ok V ps" and lk: "lk_port_alloc lk = None"
  shows "nat_ok (insert (l, lk) V) ps"
proof -
  have "nat_ports (insert (l, lk) V) ps a = nat_ports V ps a" "guard_users (insert (l, lk) V) g = guard_users V g" for a g
    using lk by (auto simp: nat_ports_def guard_users_def)
  moreover have "(m, k) \<in> V" if "(m, k) \<in> insert (l, lk) V" "nat_link k h" for m k h using that lk by auto
  ultimately show ?thesis using n unfolding nat_ok_def by (intro conjI) (simp_all, blast+)
qed

lemma nat_ok_taken:
  assumes n: "nat_ok V ps" and inj: "inj_on fst V" and fin: "finite V" and new: "l \<notin> fst ` V"
    and took: "guard_took g p ps ps'" and lk: "nat_link lk g" "nat_port lk = p" "guard_at ps g = (lk_server_domain lk, lk_protocol lk)"
  shows "nat_ok (insert (l, lk) V) ps'"
proof -
  have at: "guard_at ps' h = guard_at ps h" for h using took by (simp add: guard_took_def)
  have ports: "ports_at ps' a = (if a = guard_at ps g then insert p (ports_at ps a) else ports_at ps a)" for a
    using took by (cases a) (simp add: guard_took_def)
  have fresh: "p \<notin> ports_at ps (guard_at ps g)" using took by (simp add: guard_took_def)
  have users: "guard_users (insert (l, lk) V) h = (if h = g then insert l (guard_users V g) else guard_users V h)" for h
    using lk(1) by (auto simp: guard_users_def)
  have ln: "l \<notin> guard_users V g" using new guard_users_subset by blast
  have finu: "finite (guard_users V g)" using fin guard_users_subset by (meson finite_imageI finite_subset)
  have used: "ng_used (ps_guard ps g) < ng_max (ps_guard ps g)"
    using took nat_okD(4) [OF n, of g] by (simp add: guard_took_def order_le_less)
  have count: "unat (ng_used (ps_guard ps g) + 1) = card (insert l (guard_users V g))" "ng_used (ps_guard ps g) + 1 \<le> ng_max (ps_guard ps g)"
  proof -
    have "unat (ng_used (ps_guard ps g)) \<le> 16384" using guard_users_bound [OF n inj fin, of g] nat_okD(5) [OF n, of g] by simp
    then show "unat (ng_used (ps_guard ps g) + 1) = card (insert l (guard_users V g))"
      using ln finu nat_okD(5) [OF n, of g] by (subst unat_add_no_wrap) simp_all
    show "ng_used (ps_guard ps g) + 1 \<le> ng_max (ps_guard ps g)" using used by (rule inc_le)
  qed
  have old: "nat_port k \<in> ports_at ps (guard_at ps h)" if "(m, k) \<in> V" "nat_link k h" for m k h
    using that nat_okD(3) [OF n] by (auto simp: nat_ports_def)
  show ?thesis
    unfolding nat_ok_def
  proof (intro conjI allI impI)
    show "ps_ok ps'" using took by (simp add: guard_took_def)
    fix m k h
    assume "(m, k) \<in> insert (l, lk) V \<and> nat_link k h"
    then show "guard_at ps' h = (lk_server_domain k, lk_protocol k)"
      using lk nat_okD(2) [OF n] by (auto simp: at)
  next
    fix a
    show "ports_at ps' a = nat_ports (insert (l, lk) V) ps' a"
      unfolding ports nat_okD(3) [OF n] using lk by (auto simp: nat_ports_def at)
  next
    fix l1 k1 g1 l2 k2 g2
    assume a: "(l1, k1) \<in> insert (l, lk) V \<and> (l2, k2) \<in> insert (l, lk) V \<and> nat_link k1 g1 \<and> nat_link k2 g2
      \<and> guard_at ps' g1 = guard_at ps' g2 \<and> nat_port k1 = nat_port k2"
    then consider "(l1, k1) = (l, lk)" "(l2, k2) = (l, lk)" | "(l1, k1) = (l, lk)" "(l2, k2) \<in> V"
      | "(l1, k1) \<in> V" "(l2, k2) = (l, lk)" | "(l1, k1) \<in> V" "(l2, k2) \<in> V" by blast
    then show "l1 = l2"
    proof cases
      case 2
      then have "p \<in> ports_at ps (guard_at ps g)" using old [of l2 k2 g2] a lk by (auto simp: at)
      then show ?thesis using fresh by simp
    next
      case 3
      then have "p \<in> ports_at ps (guard_at ps g)" using old [of l1 k1 g1] a lk by (auto simp: at)
      then show ?thesis using fresh by simp
    next
      case 4
      then show ?thesis using nat_okD(6) [OF n 4(1) 4(2)] a by (auto simp: at)
    qed simp
  next
    fix h
    have g: "ps_guard ps' h = (if h = g then (ps_guard ps g)\<lparr> ng_used := ng_used (ps_guard ps g) + 1 \<rparr> else ps_guard ps h)"
      using took by (simp add: guard_took_def)
    show "ng_used (ps_guard ps' h) \<le> ng_max (ps_guard ps' h)" "unat (ng_used (ps_guard ps' h)) = card (guard_users (insert (l, lk) V) h)"
      unfolding g users using count nat_okD(4,5) [OF n] by simp_all
  qed
qed


lemma removed_users:
  assumes "inj_on fst V" "(l, lk) \<in> V"
  shows "guard_users (V - {(l, lk)}) g = (if nat_link lk g then guard_users V g - {l} else guard_users V g)"
proof -
  have same: "k = lk" if "(l, k) \<in> V" for k using inj_onD [OF assms(1), of "(l, k)" "(l, lk)"] that assms(2) by simp
  show ?thesis
  proof (cases "nat_link lk g")
    case True
    then show ?thesis unfolding guard_users_def using same by simp blast
  next
    case False
    then show ?thesis unfolding guard_users_def using same by simp blast
  qed
qed

lemma nat_ok_removed_plain:
  assumes n: "nat_ok V ps" and inj: "inj_on fst V" and l: "(l, lk) \<in> V" "lk_port_alloc lk = None"
  shows "nat_ok (V - {(l, lk)}) ps"
proof -
  have "nat_ports (V - {(l, lk)}) ps a = nat_ports V ps a" for a using l(2) by (force simp: nat_ports_def)
  moreover have "guard_users (V - {(l, lk)}) g = guard_users V g" for g using removed_users [OF inj l(1), of g] l(2) by simp
  moreover have "V - {(l, lk)} \<subseteq> V" by blast
  ultimately show ?thesis using n unfolding nat_ok_def by (intro conjI) (simp_all, blast+)
qed

lemma nat_ok_gave:
  assumes n: "nat_ok V ps" and inj: "inj_on fst V" and fin: "finite V" and l: "(l, lk) \<in> V" "nat_link lk g"
    and gave: "guard_gave g (nat_port lk) ps ps'"
  shows "nat_ok (V - {(l, lk)}) ps'"
proof -
  have g: "ps_guard ps' h = (if h = g then (ps_guard ps g)\<lparr> ng_used :=
      (if ng_used (ps_guard ps g) \<noteq> 0 then ng_used (ps_guard ps g) - 1 else 0) \<rparr> else ps_guard ps h)" for h
    using gave by (simp add: guard_gave_def)
  have at: "guard_at ps' h = guard_at ps h" for h by (simp add: g)
  have ports: "ports_at ps' a = (if a = guard_at ps g then ports_at ps a - {nat_port lk} else ports_at ps a)" for a
    using gave by (cases a) (simp add: guard_gave_def)
  have lu: "l \<in> guard_users V g" using l by (auto simp: guard_users_def)
  have finu: "finite (guard_users V g)" using fin guard_users_subset by (meson finite_imageI finite_subset)
  then have "card (guard_users V g) \<noteq> 0" using lu by auto
  then have nz: "ng_used (ps_guard ps g) \<noteq> 0" using nat_okD(5) [OF n, of g] by (metis unsigned_0)
  then have one: "1 \<le> ng_used (ps_guard ps g)" by (simp add: word_le_nat_alt unat_gt_0 Suc_le_eq)
  have count: "unat (ng_used (ps_guard ps g) - 1) = card (guard_users V g - {l})" "ng_used (ps_guard ps g) - 1 \<le> ng_max (ps_guard ps g)"
  proof -
    show "unat (ng_used (ps_guard ps g) - 1) = card (guard_users V g - {l})"
      using one lu finu nat_okD(5) [OF n, of g] by (subst unat_sub_no_wrap) simp_all
    have "ng_used (ps_guard ps g) - 1 \<le> ng_used (ps_guard ps g)" using one by (simp add: word_le_nat_alt unat_sub_no_wrap)
    then show "ng_used (ps_guard ps g) - 1 \<le> ng_max (ps_guard ps g)" using nat_okD(4) [OF n, of g] by simp
  qed
  have same: "k = lk" if "(l, k) \<in> V" for k using inj_onD [OF inj, of "(l, k)" "(l, lk)"] that l(1) by simp
  have other: "nat_port k \<noteq> nat_port lk" if k: "(m, k) \<in> V" "nat_link k h" "guard_at ps h = guard_at ps g" "(m, k) \<noteq> (l, lk)" for m k h
  proof
    assume "nat_port k = nat_port lk"
    then have "m = l" using nat_okD(6) [OF n k(1) l(1) k(2) l(2) k(3)] by simp
    then show False using k(1,4) same by blast
  qed
  show ?thesis
    unfolding nat_ok_def
  proof (intro conjI allI impI)
    show "ps_ok ps'" using gave by (simp add: guard_gave_def)
    fix m k h
    assume "(m, k) \<in> V - {(l, lk)} \<and> nat_link k h"
    then show "guard_at ps' h = (lk_server_domain k, lk_protocol k)" using nat_okD(2) [OF n] unfolding at by blast
  next
    fix a
    show "ports_at ps' a = nat_ports (V - {(l, lk)}) ps' a"
    proof (cases "a = guard_at ps g")
      case True
      show ?thesis unfolding ports nat_okD(3) [OF n] using True other by (auto simp: nat_ports_def at)
    next
      case False
      have "(m, k) \<in> V - {(l, lk)}" if "(m, k) \<in> V" "nat_link k h" "guard_at ps h = a" for m k h using that l(2) False by auto
      then have "nat_ports (V - {(l, lk)}) ps' a = nat_ports V ps a" unfolding nat_ports_def at by blast
      then show ?thesis unfolding ports nat_okD(3) [OF n] using False by simp
    qed
  next
    fix l1 k1 g1 l2 k2 g2
    assume a: "(l1, k1) \<in> V - {(l, lk)} \<and> (l2, k2) \<in> V - {(l, lk)} \<and> nat_link k1 g1 \<and> nat_link k2 g2
      \<and> guard_at ps' g1 = guard_at ps' g2 \<and> nat_port k1 = nat_port k2"
    then show "l1 = l2" using nat_okD(6) [OF n, of l1 k1 l2 k2 g1 g2] by (simp add: at)
  next
    fix h
    show "ng_used (ps_guard ps' h) \<le> ng_max (ps_guard ps' h)" "unat (ng_used (ps_guard ps' h)) = card (guard_users (V - {(l, lk)}) h)"
      unfolding g removed_users [OF inj l(1)] using count nat_okD(4,5) [OF n] nz l(2) by (cases "h = g"; simp)+
  qed
qed

text \<open>The end of a link, whoever ends it.\<close>

lemma dissolve_ok:
  assumes t: "trees_ok V s" and n: "nat_ok V (ls_ports s)" and l: "(l, lk) \<in> V" "ls_link s l = Some lk"
  shows "\<exists>s'. dissolve l s = Some s' \<and> trees_ok (V - {(l, lk)}) s' \<and> nat_ok (V - {(l, lk)}) (ls_ports s')
    \<and> ls_link s' = ls_link s \<and> ls_links s' = ls_links s \<and> ls_dissolved s' = ls_dissolved s"
proof -
  obtain s1 s2 where s1: "side_remove (lk_client_domain lk) (lk_protocol lk) (client_side l lk) s = Some s1"
    and s2: "side_remove (lk_server_domain lk) (lk_protocol lk) (server_side l lk) s1 = Some s2"
    and t2: "trees_ok (V - {(l, lk)}) s2"
    using sides_removed [OF t l(1)] by blast
  have keep: "ls_link s2 = ls_link s" "ls_links s2 = ls_links s" "ls_dissolved s2 = ls_dissolved s" "ls_ports s2 = ls_ports s"
    using side_remove_simps [OF s1] side_remove_simps [OF s2] by simp_all
  have inj: "inj_on fst V" "finite V" using t by (auto simp: trees_ok_def)
  show ?thesis
  proof (cases "lk_port_alloc lk")
    case None
    then have "dissolve l s = Some s2" using l(2) s1 s2 by (simp add: dissolve_def)
    then show ?thesis using t2 keep nat_ok_removed_plain [OF n inj(1) l(1) None] by simp
  next
    case (Some g)
    have "nat_port lk \<in> ports_at (ls_ports s) (guard_at (ls_ports s) g)"
      using nat_okD(3) [OF n] l(1) Some by (auto simp: nat_ports_def)
    then obtain ps' where ps': "guard_free g (nat_port lk) (ls_ports s) = (None, ps')" "guard_gave g (nat_port lk) (ls_ports s) ps'"
      using guard_free_result [OF nat_okD(1) [OF n]] by blast
    then have "dissolve l s = Some (s2\<lparr> ls_ports := ps' \<rparr>)" using l(2) s1 s2 Some keep by (simp add: dissolve_def)
    moreover have "trees_ok (V - {(l, lk)}) (s2\<lparr> ls_ports := ps' \<rparr>)" using t2 by (simp add: trees_ok_def)
    ultimately show ?thesis using keep nat_ok_gave [OF n inj l(1) Some ps'(2)] by simp
  qed
qed

text \<open>A packet changes nothing that the tables depend on.\<close>

definition same_link :: "link \<Rightarrow> link \<Rightarrow> bool" where
  "same_link a b \<longleftrightarrow> lk_client_interface a = lk_client_interface b \<and> lk_protocol a = lk_protocol b \<and> lk_port_alloc a = lk_port_alloc b
     \<and> lk_client_domain a = lk_client_domain b \<and> lk_server_domain a = lk_server_domain b \<and> lk_client a = lk_client b
     \<and> lk_server a = lk_server b"

lemma packet_same_link: "same_link (link_packet lk) lk" "same_link (client_packet fin ack lk) lk" "same_link (server_packet fin ack lk) lk"
  by (simp_all add: same_link_def link_packet_def client_packet_def server_packet_def fin_acked_def schedule_def Let_def)

lemma link_updated_ok:
  assumes t: "trees_ok V s" and n: "nat_ok V ps" and l: "(l, lk) \<in> V" and same: "same_link lk' lk"
  shows "trees_ok (insert (l, lk') (V - {(l, lk)})) s" "nat_ok (insert (l, lk') (V - {(l, lk)})) ps"
proof -
  let ?W = "insert (l, lk') (V - {(l, lk)})"
  define f where "f x = (if x = (l, lk) then (l, lk') else x)" for x
  have W: "?W = f ` V" using l by (auto simp: f_def)
  have f: "fst (f x) = fst x" "same_link (snd (f x)) (snd x)" for x using same by (auto simp: f_def same_link_def)
  have bk: "\<exists>k'. (m, k') \<in> V \<and> same_link k k'" if "(m, k) \<in> ?W" for m k using that same l by (auto simp: same_link_def)
  have fw: "\<exists>k. (m, k) \<in> ?W \<and> same_link k k'" if "(m, k') \<in> V" for m k' using that same by (auto simp: same_link_def)
  have side: "client_side m k = client_side m k'" "server_side m k = server_side m k'" if "same_link k k'" for m k k'
    using that by (simp_all add: client_side_def server_side_def same_link_def)
  have ex: "(\<exists>m k. (m, k) \<in> ?W \<and> Q m k) \<longleftrightarrow> (\<exists>m k. (m, k) \<in> V \<and> Q m k)"
    if "\<And>m k k'. same_link k k' \<Longrightarrow> Q m k \<longleftrightarrow> Q m k'" for Q :: "nat \<Rightarrow> link \<Rightarrow> bool"
  proof
    assume "\<exists>m k. (m, k) \<in> ?W \<and> Q m k"
    then obtain m k where m: "(m, k) \<in> ?W" "Q m k" by blast
    obtain k' where "(m, k') \<in> V" "same_link k k'" using bk [OF m(1)] by blast
    then show "\<exists>m k. (m, k) \<in> V \<and> Q m k" using that m(2) by blast
  next
    assume "\<exists>m k. (m, k) \<in> V \<and> Q m k"
    then obtain m k' where m: "(m, k') \<in> V" "Q m k'" by blast
    obtain k where k: "(m, k) \<in> ?W" "same_link k k'" using fw [OF m(1)] by blast
    then have "Q m k" using that m(2) by blast
    then show "\<exists>m k. (m, k) \<in> ?W \<and> Q m k" using k(1) by blast
  qed
  have in_sides: "x \<in> sides_of U d p \<longleftrightarrow> (\<exists>m k. (m, k) \<in> U \<and> lk_protocol k = p
      \<and> (x = client_side m k \<and> lk_client_domain k = d \<or> x = server_side m k \<and> lk_server_domain k = d))" for x U d p
    by (auto simp: sides_of_def)
  have "x \<in> sides_of ?W d p \<longleftrightarrow> x \<in> sides_of V d p" for x d p
    unfolding in_sides using side by (intro ex) (auto simp: same_link_def)
  then have "sides_of ?W d p = sides_of V d p" for d p by blast
  moreover have "inj_on fst ?W" unfolding W
  proof (rule inj_onI)
    fix a b
    assume a: "a \<in> f ` V" "b \<in> f ` V" "fst a = fst b"
    then obtain x y where "x \<in> V" "y \<in> V" "a = f x" "b = f y" by blast
    then show "a = b" using a(3) f(1) inj_onD [OF trees_okD(4) [OF t], of x y] by simp
  qed
  moreover have "id_ok (lk_client k) \<and> id_ok (lk_server k)" if "(m, k) \<in> ?W" for m k
    using bk [OF that] trees_okD(5) [OF t] by (auto simp: same_link_def)
  moreover have "finite ?W" using t by (simp add: trees_ok_def)
  ultimately show "trees_ok ?W s" using t unfolding trees_ok_def by (intro conjI) (simp_all, fast)
  have "m \<in> guard_users ?W g \<longleftrightarrow> m \<in> guard_users V g" for m g
    using ex [of "\<lambda>m' k. m' = m \<and> nat_link k g"] by (auto simp: guard_users_def same_link_def)
  then have users: "guard_users ?W g = guard_users V g" for g by blast
  have in_ports: "q \<in> nat_ports U ps a \<longleftrightarrow> (\<exists>m k. (m, k) \<in> U \<and> (\<exists>g. q = nat_port k \<and> nat_link k g \<and> guard_at ps g = a))" for q U a
    by (auto simp: nat_ports_def)
  have "q \<in> nat_ports ?W ps a \<longleftrightarrow> q \<in> nat_ports V ps a" for q a
    unfolding in_ports by (intro ex) (auto simp: same_link_def)
  then have ports: "nat_ports ?W ps a = nat_ports V ps a" for a by blast
  show "nat_ok ?W ps"
    unfolding nat_ok_def users ports
  proof (intro conjI allI impI)
    fix m k g
    assume a: "(m, k) \<in> ?W \<and> nat_link k g"
    then obtain k' where k': "(m, k') \<in> V" "same_link k k'" using bk by blast
    then show "guard_at ps g = (lk_server_domain k, lk_protocol k)" using nat_okD(2) [OF n k'(1)] a by (simp add: same_link_def)
  next
    fix l1 k1 g1 l2 k2 g2
    assume a: "(l1, k1) \<in> ?W \<and> (l2, k2) \<in> ?W \<and> nat_link k1 g1 \<and> nat_link k2 g2 \<and> guard_at ps g1 = guard_at ps g2 \<and> nat_port k1 = nat_port k2"
    obtain j1 where "(l1, j1) \<in> V" "same_link k1 j1" using bk a by blast
    moreover obtain j2 where "(l2, j2) \<in> V" "same_link k2 j2" using bk a by blast
    ultimately show "l1 = l2" using nat_okD(6) [OF n, of l1 j1 l2 j2 g1 g2] a by (simp add: same_link_def)
  qed (use nat_okD [OF n] in auto)
qed


section \<open>The invariant\<close>

definition live :: "link_state \<Rightarrow> (nat \<times> link) set" where
  "live s = {(l, lk). ls_link s l = Some lk \<and> l \<in> set (ls_links s (lk_client_interface lk) (lk_protocol lk))}"

definition lists_ok :: "link_state \<Rightarrow> bool" where
  "lists_ok s \<longleftrightarrow> (\<forall>i p. distinct (ls_links s i p @ ls_dissolved s i p)
     \<and> (\<forall>l \<in> set (ls_links s i p) \<union> set (ls_dissolved s i p).
          \<exists>lk. ls_link s l = Some lk \<and> lk_client_interface lk = i \<and> lk_protocol lk = p))"

definition links_ok :: "link_state \<Rightarrow> bool" where
  "links_ok s \<longleftrightarrow> lists_ok s \<and> trees_ok (live s) s \<and> nat_ok (live s) (ls_ports s)"

lemma lists_okD:
  assumes "lists_ok s"
  shows "distinct (ls_links s i p)" "distinct (ls_dissolved s i p)" "set (ls_links s i p) \<inter> set (ls_dissolved s i p) = {}"
    "l \<in> set (ls_links s i p) \<or> l \<in> set (ls_dissolved s i p) \<Longrightarrow>
       \<exists>lk. ls_link s l = Some lk \<and> lk_client_interface lk = i \<and> lk_protocol lk = p"
  using assms by (auto simp: lists_ok_def)

lemma live_iff: "(l, lk) \<in> live s \<longleftrightarrow> ls_link s l = Some lk \<and> l \<in> set (ls_links s (lk_client_interface lk) (lk_protocol lk))"
  by (simp add: live_def)

lemma trees_ok_ports [simp]: "trees_ok V (s\<lparr> ls_ports := ps \<rparr>) \<longleftrightarrow> trees_ok V s"
  by (simp add: trees_ok_def)

lemma trees_ok_set [simp]: "trees_ok V (set_link l v s) \<longleftrightarrow> trees_ok V s" "trees_ok V (set_links i p ls s) \<longleftrightarrow> trees_ok V s"
  "trees_ok V (set_dissolved i p ls s) \<longleftrightarrow> trees_ok V s"
  by (simp_all add: trees_ok_def)

lemma live_ports [simp]: "live (s\<lparr> ls_ports := ps \<rparr>) = live s" "lists_ok (s\<lparr> ls_ports := ps \<rparr>) \<longleftrightarrow> lists_ok s"
  by (simp_all add: live_def lists_ok_def)

lemma construct_live:
  assumes ok: "lists_ok s" and new: "ls_link s l = None"
    and lk: "ls_link (link_construct l i cd cln_id g sd srv_id c p us s) l = Some lk"
  shows "lists_ok (link_construct l i cd cln_id g sd srv_id c p us s)"
    "live (link_construct l i cd cln_id g sd srv_id c p us s) = insert (l, lk) (live s)"
    "l \<notin> fst ` live s" "ls_ports (link_construct l i cd cln_id g sd srv_id c p us s) = ls_ports s"
proof -
  note e = link_construct_link(1) [OF lk] and lks = link_construct_link(2-8) [OF lk]
  have nl: "l \<notin> set (ls_links s j q)" "l \<notin> set (ls_dissolved s j q)" for j q
    using lists_okD(4) [OF ok, of l j q] new by auto
  show "l \<notin> fst ` live s" using new by (auto simp: live_iff)
  show "live (link_construct l i cd cln_id g sd srv_id c p us s) = insert (l, lk) (live s)"
    unfolding e using lks new nl by (auto simp: live_def split: if_splits)
  show "lists_ok (link_construct l i cd cln_id g sd srv_id c p us s)"
    unfolding e lists_ok_def using nl lists_okD [OF ok] lks by auto
  show "ls_ports (link_construct l i cd cln_id g sd srv_id c p us s) = ls_ports s" by (simp add: e)
qed

lemma construct_ok:
  assumes ok: "links_ok s" and new: "ls_link s l = None" and ids: "id_ok cln_id" "id_ok srv_id"
  shows "links_ok (link_construct l i cd cln_id None sd srv_id c p us s)"
proof -
  obtain lk where lk: "ls_link (link_construct l i cd cln_id None sd srv_id c p us s) l = Some lk"
    by (simp add: link_construct_def Let_def)
  have l: "lists_ok s" "trees_ok (live s) s" "nat_ok (live s) (ls_ports s)" using ok by (simp_all add: links_ok_def)
  note cl = construct_live [OF l(1) new lk]
  show ?thesis using cl link_construct_trees [OF l(2) cl(3) ids lk] nat_ok_plain [OF l(3), of lk l] link_construct_link(7) [OF lk]
    by (simp add: links_ok_def)
qed

lemma construct_nat_ok:
  assumes ok: "links_ok s" and new: "ls_link s l = None" and ids: "id_ok cln_id" "id_ok srv_id"
    and g: "guard_took g (ls_dst_port srv_id) (ls_ports s) ps" "guard_at (ls_ports s) g = (sd, p)"
  shows "links_ok (link_construct l i cd cln_id (Some g) sd srv_id c p us (s\<lparr> ls_ports := ps \<rparr>))"
proof -
  let ?s = "s\<lparr> ls_ports := ps \<rparr>"
  obtain lk where lk: "ls_link (link_construct l i cd cln_id (Some g) sd srv_id c p us ?s) l = Some lk"
    by (simp add: link_construct_def Let_def)
  have l: "lists_ok ?s" "trees_ok (live s) ?s" "nat_ok (live s) (ls_ports s)" "trees_ok (live s) s" using ok by (simp_all add: links_ok_def)
  have new': "ls_link ?s l = None" using new by simp
  note cl = construct_live [OF l(1) new' lk] and lks = link_construct_link(2-8) [OF lk]
  have "nat_ok (insert (l, lk) (live s)) ps"
    by (rule nat_ok_taken [OF l(3) trees_okD(4) [OF l(4)] trees_okD(3) [OF l(4)] _ g(1)]) (use cl(3) lks g(2) in auto)
  then show ?thesis using cl link_construct_trees [OF l(2) _ ids lk] by (simp add: links_ok_def)
qed

text \<open>A live link can be dissolved and leaves the lists.\<close>

lemma live_dissolve:
  assumes ok: "links_ok s" and l: "(l, lk) \<in> live s"
  obtains s' where "dissolve l s = Some s'" "trees_ok (live s - {(l, lk)}) s'" "nat_ok (live s - {(l, lk)}) (ls_ports s')"
    "ls_link s' = ls_link s" "ls_links s' = ls_links s" "ls_dissolved s' = ls_dissolved s"
  using dissolve_ok [of "live s" s l lk] ok l by (auto simp: links_ok_def live_iff)

lemma timeout_ok:
  assumes ok: "links_ok s" and l: "(l, lk) \<in> live s"
  shows "\<exists>s'. handle_dissolve_timeout l s = Some s' \<and> links_ok s' \<and> live s' = live s - {(l, lk)}"
proof -
  obtain s1 where s1: "dissolve l s = Some s1" "trees_ok (live s - {(l, lk)}) s1" "nat_ok (live s - {(l, lk)}) (ls_ports s1)"
    "ls_link s1 = ls_link s" "ls_links s1 = ls_links s" "ls_dissolved s1 = ls_dissolved s"
    using live_dissolve [OF ok l] by blast
  let ?i = "lk_client_interface lk" and ?p = "lk_protocol lk"
  let ?s = "set_dissolved ?i ?p (l # ls_dissolved s ?i ?p) (set_links ?i ?p (remove1 l (ls_links s ?i ?p)) s1)"
  have lo: "lists_ok s" using ok by (simp add: links_ok_def)
  have lk: "ls_link s l = Some lk" "l \<in> set (ls_links s ?i ?p)" using l by (simp_all add: live_iff)
  have e: "handle_dissolve_timeout l s = Some ?s"
    using s1 lk by (simp add: handle_dissolve_timeout_def Let_def)
  have live: "live ?s = live s - {(l, lk)}"
    using lists_okD(1) [OF lo] lk s1(4,5) by (auto simp: live_def split: if_splits)
  have "lists_ok ?s" unfolding lists_ok_def
  proof (intro allI conjI)
    fix i p
    show "distinct (ls_links ?s i p @ ls_dissolved ?s i p)"
      using lists_okD(1-3) [OF lo, of i p] lk s1(5,6) by (auto dest: notin_set_remove1)
    show "\<forall>m\<in>set (ls_links ?s i p) \<union> set (ls_dissolved ?s i p). \<exists>k. ls_link ?s m = Some k \<and> lk_client_interface k = i \<and> lk_protocol k = p"
    proof
      fix m
      assume "m \<in> set (ls_links ?s i p) \<union> set (ls_dissolved ?s i p)"
      then have "m \<in> set (ls_links s i p) \<or> m \<in> set (ls_dissolved s i p) \<or> m = l \<and> i = ?i \<and> p = ?p"
        using s1(5,6) set_remove1_subset [of l "ls_links s ?i ?p"] by (auto split: if_splits)
      then show "\<exists>k. ls_link ?s m = Some k \<and> lk_client_interface k = i \<and> lk_protocol k = p"
        using lists_okD(4) [OF lo, of m i p] lk(1) s1(4) by auto
    qed
  qed
  then show ?thesis using e live s1(2,3) by (simp add: links_ok_def)
qed

lemma destroy_link_ok:
  assumes ok: "links_ok s" and l: "l \<in> set (ls_links s i p)"
  shows "\<exists>s'. destroy_link i p l s = Some s' \<and> links_ok s' \<and> ls_links s' = (ls_links s)(i := (ls_links s i)(p := remove1 l (ls_links s i p)))
    \<and> live s' \<subseteq> live s"
proof -
  have lo: "lists_ok s" using ok by (simp add: links_ok_def)
  obtain lk where lk: "ls_link s l = Some lk" "lk_client_interface lk = i" "lk_protocol lk = p" using lists_okD(4) [OF lo] l by blast
  then have lv: "(l, lk) \<in> live s" using l by (simp add: live_iff)
  obtain s1 where s1: "dissolve l s = Some s1" "trees_ok (live s - {(l, lk)}) s1" "nat_ok (live s - {(l, lk)}) (ls_ports s1)"
    "ls_link s1 = ls_link s" "ls_links s1 = ls_links s" "ls_dissolved s1 = ls_dissolved s"
    using live_dissolve [OF ok lv] by blast
  let ?s = "set_link l None (set_links i p (remove1 l (ls_links s i p)) s1)"
  have e: "destroy_link i p l s = Some ?s" using s1(1,5) by (simp add: destroy_link_def)
  have live: "live ?s = live s - {(l, lk)}"
    using lists_okD(1) [OF lo] lk l s1(4,5) by (auto simp: live_def split: if_splits)
  have only: "j = i \<and> q = p" if "l \<in> set (ls_links s j q) \<or> l \<in> set (ls_dissolved s j q)" for j q
    using lists_okD(4) [OF lo that] lk by auto
  have "lists_ok ?s" unfolding lists_ok_def
  proof (intro allI conjI)
    fix j q
    show "distinct (ls_links ?s j q @ ls_dissolved ?s j q)"
      using lists_okD(1-3) [OF lo, of j q] s1(5,6) by (auto dest: notin_set_remove1)
    show "\<forall>m\<in>set (ls_links ?s j q) \<union> set (ls_dissolved ?s j q). \<exists>k. ls_link ?s m = Some k \<and> lk_client_interface k = j \<and> lk_protocol k = q"
    proof
      fix m
      assume "m \<in> set (ls_links ?s j q) \<union> set (ls_dissolved ?s j q)"
      then have m: "m \<in> set (ls_links s j q) \<or> m \<in> set (ls_dissolved s j q)" "m \<noteq> l"
        using s1(5,6) set_remove1_subset [of l "ls_links s i p"] only [of j q] lists_okD(1,3) [OF lo, of i p] l
        by (auto split: if_splits)
      then show "\<exists>k. ls_link ?s m = Some k \<and> lk_client_interface k = j \<and> lk_protocol k = q"
        using lists_okD(4) [OF lo m(1)] s1(4) by auto
    qed
  qed
  moreover have "ls_links ?s = (ls_links s)(i := (ls_links s i)(p := remove1 l (ls_links s i p)))"
    using s1(5) by (simp add: set_links_def)
  ultimately show ?thesis using e live s1(2,3) by (auto simp: links_ok_def)
qed


lemma packet_ok:
  assumes ok: "links_ok s" and l: "(l, lk) \<in> live s" and same: "same_link lk' lk"
  shows "links_ok (set_link l (Some lk') s)"
proof -
  have lo: "lists_ok s" and t: "trees_ok (live s) s" and n: "nat_ok (live s) (ls_ports s)" using ok by (simp_all add: links_ok_def)
  have lk: "ls_link s l = Some lk" "l \<in> set (ls_links s (lk_client_interface lk) (lk_protocol lk))" using l by (simp_all add: live_iff)
  have "live (set_link l (Some lk') s) = insert (l, lk') (live s - {(l, lk)})"
    using lk same by (auto simp: live_def same_link_def split: if_splits)
  moreover have "lists_ok (set_link l (Some lk') s)"
    unfolding lists_ok_def
  proof (intro allI conjI ballI)
    fix i p
    show "distinct (ls_links (set_link l (Some lk') s) i p @ ls_dissolved (set_link l (Some lk') s) i p)"
      using lists_okD(1-3) [OF lo, of i p] by simp
    fix m
    assume "m \<in> set (ls_links (set_link l (Some lk') s) i p) \<union> set (ls_dissolved (set_link l (Some lk') s) i p)"
    then show "\<exists>k. ls_link (set_link l (Some lk') s) m = Some k \<and> lk_client_interface k = i \<and> lk_protocol k = p"
      using lists_okD(4) [OF lo, of m i p] lk(1) same by (auto simp: same_link_def)
  qed
  ultimately show ?thesis using link_updated_ok [OF t n l same] by (simp add: links_ok_def)
qed

lemma collect_fold:
  "distinct ls \<Longrightarrow> ls_dissolved s i p = ls \<Longrightarrow>
     fold (\<lambda>l s. set_link l None (set_dissolved i p (remove1 l (ls_dissolved s i p)) s)) ls s
     = s\<lparr> ls_link := (\<lambda>l. if l \<in> set ls then None else ls_link s l),
         ls_dissolved := (ls_dissolved s)(i := (ls_dissolved s i)(p := [])) \<rparr>"
proof (induction ls arbitrary: s)
  case Nil
  then show ?case by (simp add: fun_upd_idem)
next
  case (Cons l ls)
  let ?s = "set_link l None (set_dissolved i p ls s)"
  have "ls_dissolved ?s i p = ls" by simp
  note IH = Cons.IH [OF _ this]
  have "?s\<lparr> ls_link := (\<lambda>m. if m \<in> set ls then None else ls_link ?s m),
        ls_dissolved := (ls_dissolved ?s)(i := (ls_dissolved ?s i)(p := [])) \<rparr>
    = s\<lparr> ls_link := (\<lambda>m. if m \<in> set (l # ls) then None else ls_link s m),
         ls_dissolved := (ls_dissolved s)(i := (ls_dissolved s i)(p := [])) \<rparr>"
    by (simp add: set_link_def set_dissolved_def) (auto simp: fun_eq_iff)
  moreover have "distinct ls" "fold (\<lambda>l s. set_link l None (set_dissolved i p (remove1 l (ls_dissolved s i p)) s)) (l # ls) s
    = fold (\<lambda>l s. set_link l None (set_dissolved i p (remove1 l (ls_dissolved s i p)) s)) ls ?s"
    using Cons.prems by simp_all
  ultimately show ?case using IH by (simp only:)
qed

lemma collect_ok:
  assumes ok: "links_ok s"
  shows "links_ok (destroy_dissolved_links i p s)" "live (destroy_dissolved_links i p s) = live s"
    "ls_links (destroy_dissolved_links i p s) = ls_links s" "ls_dissolved (destroy_dissolved_links i p s) i p = []"
proof -
  have lo: "lists_ok s" and t: "trees_ok (live s) s" and n: "nat_ok (live s) (ls_ports s)" using ok by (simp_all add: links_ok_def)
  have e: "destroy_dissolved_links i p s = s\<lparr> ls_link := (\<lambda>l. if l \<in> set (ls_dissolved s i p) then None else ls_link s l),
         ls_dissolved := (ls_dissolved s)(i := (ls_dissolved s i)(p := [])) \<rparr>" (is "_ = ?s")
    unfolding destroy_dissolved_links_def by (rule collect_fold [OF lists_okD(2) [OF lo] refl])
  have dead: "m \<notin> set (ls_dissolved s i p)" if m: "m \<in> set (ls_links s j q) \<or> m \<in> set (ls_dissolved s j q) \<and> (j \<noteq> i \<or> q \<noteq> p)" for m j q
    using lists_okD(4) [OF lo, of m j q] lists_okD(4) [OF lo, of m i p] lists_okD(3) [OF lo, of i p] m by force
  show live: "live (destroy_dissolved_links i p s) = live s" unfolding e
    using dead by (auto simp: live_def split: if_splits) blast+
  have "lists_ok ?s" unfolding lists_ok_def
  proof (intro allI conjI ballI)
    fix j q
    show "distinct (ls_links ?s j q @ ls_dissolved ?s j q)" using lists_okD(1-3) [OF lo, of j q] by auto
    fix m
    assume "m \<in> set (ls_links ?s j q) \<union> set (ls_dissolved ?s j q)"
    then have "m \<in> set (ls_links s j q) \<or> m \<in> set (ls_dissolved s j q) \<and> (j \<noteq> i \<or> q \<noteq> p)" by (auto split: if_splits)
    then show "\<exists>k. ls_link ?s m = Some k \<and> lk_client_interface k = j \<and> lk_protocol k = q"
      using lists_okD(4) [OF lo, of m j q] dead [of m j q] by auto
  qed
  moreover have "trees_ok V ?s \<longleftrightarrow> trees_ok V s" for V by (simp add: trees_ok_def)
  ultimately show "links_ok (destroy_dissolved_links i p s)" unfolding links_ok_def live using t n by (simp add: e)
  show "ls_links (destroy_dissolved_links i p s) = ls_links s" "ls_dissolved (destroy_dissolved_links i p s) i p = []"
    by (simp_all add: e)
qed

lemma destroy_each_link_ok:
  "links_ok s \<Longrightarrow> ls_links s i p = ls \<Longrightarrow>
     \<exists>s'. destroy_each_link i p ls s = Some s' \<and> links_ok s' \<and> ls_links s' i p = [] \<and> live s' \<subseteq> live s"
proof (induction ls arbitrary: s)
  case (Cons l ls)
  obtain s1 where s1: "destroy_link i p l s = Some s1" "links_ok s1" "live s1 \<subseteq> live s" "ls_links s1 i p = ls"
    using destroy_link_ok [OF Cons.prems(1), of l i p] Cons.prems(2) by auto
  from Cons.IH [OF s1(2,4)] s1 show ?case by auto
qed simp

lemma destroy_links_ok:
  assumes "links_ok s"
  shows "\<exists>s'. destroy_links i p s = Some s' \<and> links_ok s' \<and> ls_links s' i p = [] \<and> live s' \<subseteq> live s"
  using destroy_each_link_ok [OF collect_ok(1) [OF assms, of i p] refl, of i p] collect_ok(2) [OF assms, of i p]
  by (simp add: destroy_links_def Let_def)

text \<open>
  The steps: a new link with or without a port of a NAT rule (whose port becomes the destination port of the
  replies), a refused port, a packet of a link, its timeout, and the two kinds of destruction.
\<close>

inductive link_step :: "link_state \<Rightarrow> link_state \<Rightarrow> bool" where
  connect: "ls_link s l = None \<Longrightarrow> id_ok local \<Longrightarrow> id_ok remote \<Longrightarrow>
    new_link l i cd c p local None rd remote s = Some s' \<Longrightarrow> link_step s s'"
| connect_nat: "ls_link s l = None \<Longrightarrow> id_ok local \<Longrightarrow> id_ok remote \<Longrightarrow> guard_at (ls_ports s) g = (rd, p) \<Longrightarrow>
    guard_alloc g (ls_ports s) = Some (Inr (ls_dst_port remote), ps) \<Longrightarrow>
    new_link l i cd c p local (Some g) rd remote (s\<lparr> ls_ports := ps \<rparr>) = Some s' \<Longrightarrow> link_step s s'"
| nat_refused: "guard_alloc g (ls_ports s) = Some (Inl e, ps) \<Longrightarrow> link_step s (s\<lparr> ls_ports := ps \<rparr>)"
| packet: "(l, lk) \<in> live s \<Longrightarrow> lk' \<in> {link_packet lk, client_packet fin ack lk, server_packet fin ack lk} \<Longrightarrow>
    link_step s (set_link l (Some lk') s)"
| timeout: "(l, lk) \<in> live s \<Longrightarrow> handle_dissolve_timeout l s = Some s' \<Longrightarrow> link_step s s'"
| destroy: "l \<in> set (ls_links s i p) \<Longrightarrow> destroy_link i p l s = Some s' \<Longrightarrow> link_step s s'"
| destroy_all: "destroy_links i p s = Some s' \<Longrightarrow> link_step s s'"
| collect: "link_step s (destroy_dissolved_links i p s)"

lemma guard_kept_nat_ok: "guard_kept ps ps' \<Longrightarrow> nat_ok V ps \<Longrightarrow> nat_ok V ps'"
  unfolding nat_ok_def guard_kept_def nat_ports_def by (intro conjI) (elim conjE; simp)+

lemma link_step_ok: "link_step s s' \<Longrightarrow> links_ok s \<Longrightarrow> links_ok s'"
proof (induction rule: link_step.induct)
  case (connect s l local remote i cd c p rd s')
  then show ?case using construct_ok by (auto simp: new_link_def)
next
  case (connect_nat s l local remote g rd p ps i cd c s')
  have "ps_ok (ls_ports s)" using connect_nat(7) nat_okD(1) by (auto simp: links_ok_def)
  then have "guard_took g (ls_dst_port remote) (ls_ports s) ps"
    using guard_alloc_result [of "ls_ports s" g] connect_nat(5) by auto
  then show ?case using construct_nat_ok connect_nat by (auto simp: new_link_def)
next
  case (nat_refused g s e ps)
  have "ps_ok (ls_ports s)" using nat_refused(2) nat_okD(1) by (auto simp: links_ok_def)
  then have "guard_kept (ls_ports s) ps" using guard_alloc_result [of "ls_ports s" g] nat_refused(1) by auto
  then show ?case using nat_refused(2) guard_kept_nat_ok by (auto simp: links_ok_def)
next
  case (packet l lk s lk' fin ack)
  have "same_link lk' lk" using packet(2) packet_same_link by auto
  then show ?case using packet_ok packet by blast
next
  case (timeout l lk s s')
  then show ?case using timeout_ok by fastforce
next
  case (destroy l s i p s')
  then show ?case using destroy_link_ok by fastforce
next
  case (destroy_all i p s s')
  then show ?case using destroy_links_ok [of s i p] by auto
next
  case (collect s i p)
  then show ?case using collect_ok by blast
qed

text \<open>The state of a router that has no link yet.\<close>

definition links_init :: "link_state \<Rightarrow> bool" where
  "links_init s \<longleftrightarrow> (\<forall>l. ls_link s l = None) \<and> (\<forall>i p. ls_links s i p = [] \<and> ls_dissolved s i p = [])
     \<and> (\<forall>d p. ls_sides s d p = Leaf) \<and> ps_ok (ls_ports s) \<and> (\<forall>a. ports_at (ls_ports s) a = {})
     \<and> (\<forall>g. ng_used (ps_guard (ls_ports s) g) = 0)"

lemma links_init_ok: "links_init s \<Longrightarrow> links_ok s"
proof -
  assume i: "links_init s"
  then have "live s = {}" by (auto simp: live_def links_init_def)
  then show ?thesis using i
    by (auto simp: links_ok_def lists_ok_def trees_ok_def nat_ok_def links_init_def sides_of_def nat_ports_def guard_users_def)
qed

abbreviation link_steps :: "link_state \<Rightarrow> link_state \<Rightarrow> bool" where
  "link_steps \<equiv> link_step\<^sup>*\<^sup>*"

lemma link_steps_ok: "link_steps s s' \<Longrightarrow> links_ok s \<Longrightarrow> links_ok s'"
  by (induction rule: rtranclp_induct) (auto intro: link_step_ok)


section \<open>The end of a TCP connection\<close>

text \<open>A packet of a TCP link: whether the client sent it, and its flags FIN and ACK.\<close>

definition tcp_link_packet :: "bool \<times> bool \<times> bool \<Rightarrow> link \<Rightarrow> link" where
  "tcp_link_packet q lk = (case q of (client, fin, ack) \<Rightarrow> if client then client_packet fin ack lk else server_packet fin ack lk)"

definition is_fin :: "bool \<Rightarrow> bool \<times> bool \<times> bool \<Rightarrow> bool" where
  "is_fin c q \<longleftrightarrow> fst q = c \<and> fst (snd q)"

definition is_ack :: "bool \<Rightarrow> bool \<times> bool \<times> bool \<Rightarrow> bool" where
  "is_ack c q \<longleftrightarrow> fst q = c \<and> snd (snd q)"

text \<open>One side said that it is done, and the other side acknowledged something after that.\<close>

definition fin_seen :: "bool \<Rightarrow> (bool \<times> bool \<times> bool) list \<Rightarrow> bool" where
  "fin_seen c qs \<longleftrightarrow> (\<exists>q \<in> set qs. is_fin c q)"

definition half_closed :: "bool \<Rightarrow> (bool \<times> bool \<times> bool) list \<Rightarrow> bool" where
  "half_closed c qs \<longleftrightarrow> (\<exists>as q bs. qs = as @ q # bs \<and> is_ack (\<not> c) q \<and> fin_seen c as)"

lemma split_snoc: "(\<exists>as x bs. qs @ [q] = as @ x # bs \<and> P as x) \<longleftrightarrow> (\<exists>as x bs. qs = as @ x # bs \<and> P as x) \<or> P qs q"
proof
  assume "\<exists>as x bs. qs @ [q] = as @ x # bs \<and> P as x"
  then obtain as x bs where a: "qs @ [q] = as @ x # bs" "P as x" by blast
  then show "(\<exists>as x bs. qs = as @ x # bs \<and> P as x) \<or> P qs q"
    by (cases bs rule: rev_cases) auto
next
  assume "(\<exists>as x bs. qs = as @ x # bs \<and> P as x) \<or> P qs q"
  then show "\<exists>as x bs. qs @ [q] = as @ x # bs \<and> P as x" by (metis append_Cons append_assoc)
qed

lemma closed_snoc:
  "half_closed c (qs @ [q]) \<longleftrightarrow> half_closed c qs \<or> is_ack (\<not> c) q \<and> fin_seen c qs"
  "fin_seen c (qs @ [q]) \<longleftrightarrow> fin_seen c qs \<or> is_fin c q"
proof -
  show "half_closed c (qs @ [q]) \<longleftrightarrow> half_closed c qs \<or> is_ack (\<not> c) q \<and> fin_seen c qs"
    unfolding half_closed_def by (rule split_snoc)
  show "fin_seen c (qs @ [q]) \<longleftrightarrow> fin_seen c qs \<or> is_fin c q" by (auto simp: fin_seen_def)
qed

lemma closed_Nil [simp]: "\<not> half_closed c []" "\<not> fin_seen c []"
  by (simp_all add: half_closed_def fin_seen_def)

definition tcp_fresh :: "link \<Rightarrow> bool" where
  "tcp_fresh lk \<longleftrightarrow> \<not> lk_closed lk \<and> \<not> lk_client_fin lk \<and> \<not> lk_server_fin lk \<and> \<not> lk_client_fin_acked lk \<and> \<not> lk_server_fin_acked lk"

definition tcp_state :: "link \<Rightarrow> (bool \<times> bool \<times> bool) list \<Rightarrow> link \<Rightarrow> bool" where
  "tcp_state lk0 qs lk \<longleftrightarrow> lk_config lk = lk_config lk0 \<and> lk_dissolve_us lk = lk_dissolve_us lk0 \<and>
     (if lk_closed lk
      then half_closed True qs \<and> half_closed False qs \<and> lk_scheduled lk = push_bit 1 (rc_tcp_max_segm_lifetime (lk_config lk0))
      else \<not> (half_closed True qs \<and> half_closed False qs) \<and> (qs \<noteq> [] \<longrightarrow> lk_scheduled lk = lk_dissolve_us lk0)
        \<and> lk_client_fin lk = fin_seen True qs \<and> lk_server_fin lk = fin_seen False qs
        \<and> lk_client_fin_acked lk = half_closed True qs \<and> lk_server_fin_acked lk = half_closed False qs)"

lemma tcp_state_step:
  assumes "tcp_state lk0 qs lk"
  shows "tcp_state lk0 (qs @ [q]) (tcp_link_packet q lk)"
proof -
  obtain c fin ack where q: "q = (c, fin, ack)" by (cases q) auto
  show ?thesis
  proof (cases "lk_closed lk")
    case True
    then show ?thesis using assms
      by (cases c) (simp_all add: q tcp_state_def tcp_link_packet_def closed_snoc client_packet_def server_packet_def)
  next
    case False
    then show ?thesis using assms
      by (cases c; cases fin; cases ack)
        (simp_all add: q tcp_state_def tcp_link_packet_def closed_snoc client_packet_def server_packet_def
          fin_acked_def schedule_def link_packet_def Let_def is_ack_def is_fin_def)
  qed
qed

lemma tcp_state_run: "tcp_fresh lk \<Longrightarrow> tcp_state lk qs (fold tcp_link_packet qs lk)"
proof (induction qs rule: rev_induct)
  case Nil
  then show ?case by (simp add: tcp_state_def tcp_fresh_def)
next
  case (snoc q qs)
  then show ?case using tcp_state_step by simp
qed


section \<open>Properties\<close>


definition example_ports :: port_state where
  "example_ports = \<lparr> ps_alloc = (\<lambda>_. \<lparr> ba_next = 0, ba_array = replicate 256 0 \<rparr>),
     ps_guard = (\<lambda>g. \<lparr> ng_max = 2, ng_used = 0, ng_alloc = (7, TCP) \<rparr>) \<rparr>"

definition example_links :: link_state where
  "example_links = \<lparr> ls_link = (\<lambda>_. None), ls_links = (\<lambda>_ _. []), ls_dissolved = (\<lambda>_ _. []), ls_sides = (\<lambda>_ _. Leaf),
     ls_ports = example_ports \<rparr>"

lemma example_links_init: "links_init example_links"
proof -
  have "\<not> bit_at (replicate 256 0) (port_index p)" if "dynamic_port p" for p
    using dynamic_index [OF that] less_mult_imp_div_less [of "port_index p" 256 64] by (simp add: bit_at_def)
  then show ?thesis
    by (auto simp: links_init_def example_links_def example_ports_def ps_ok_def pa_ok_def used_ports_def)
qed




text \<open>
  C35  A TCP link is closed exactly when each side has sent a FIN and the other side has sent an ACK after it; then
  the link lives for twice the maximum segment lifetime and no packet prolongs it any more, before that every packet
  restarts the idle timeout.
\<close>

theorem tcp_link_closes:
  assumes "tcp_fresh lk" "qs \<noteq> []"
  shows "lk_closed (fold tcp_link_packet qs lk) = (half_closed True qs \<and> half_closed False qs)
    \<and> lk_scheduled (fold tcp_link_packet qs lk) =
      (if half_closed True qs \<and> half_closed False qs then push_bit 1 (rc_tcp_max_segm_lifetime (lk_config lk)) else lk_dissolve_us lk)"
  using tcp_state_run [OF assms(1), of qs] assms(2) by (auto simp: tcp_state_def split: if_splits)

definition example_config :: router_config where
  "example_config = \<lparr> rc_tcp_idle_timeout = 600, rc_udp_idle_timeout = 30, rc_icmp_idle_timeout = 10, rc_tcp_max_segm_lifetime = 30 \<rparr>"

definition example_link :: link where
  "example_link = \<lparr> lk_config = example_config, lk_client_interface = 0, lk_port_alloc = None, lk_dissolve_us = 600, lk_scheduled = 600,
     lk_protocol = TCP, lk_client_domain = 1,
     lk_client = \<lparr> ls_src_ip = [10, 0, 0, 1], ls_src_port = 80, ls_dst_ip = [10, 0, 0, 2], ls_dst_port = 81 \<rparr>,
     lk_server_domain = 2, lk_server = \<lparr> ls_src_ip = [10, 0, 0, 2], ls_src_port = 81, ls_dst_ip = [10, 0, 0, 1], ls_dst_port = 80 \<rparr>,
     lk_client_fin = False, lk_server_fin = False, lk_client_fin_acked = False, lk_server_fin_acked = False, lk_closed = False \<rparr>"

theorem tcp_link_closes_witness:
  "lk_closed (fold tcp_link_packet [(True, True, False), (False, True, True), (True, False, True)] example_link)
   \<and> lk_scheduled (fold tcp_link_packet [(True, True, False), (False, True, True), (True, False, True)] example_link) = 60"
proof -
  let ?qs = "[(True, True, False), (False, True, True), (True, False, True)]"
  have "tcp_fresh example_link" "?qs \<noteq> []" by (simp_all add: tcp_fresh_def example_link_def)
  moreover have "half_closed True ?qs" "half_closed False ?qs"
    using closed_snoc [of _ "[(True, True, False)]" "(False, True, True)"] closed_snoc [of _ "[]" "(True, True, False)"]
      closed_snoc [of _ "[(True, True, False), (False, True, True)]" "(True, False, True)"]
    by (simp_all add: is_ack_def is_fin_def)
  ultimately show ?thesis using tcp_link_closes [of example_link ?qs] by (simp add: example_link_def example_config_def)
qed

end
