(* ===== verification/Arp_Cache.thy ===== *)
theory Arp_Cache
  imports Search_Tree Octet_Order
begin

text \<open>
  The ARP cache of a domain of the NIC router, \<open>nic_router/arp_cache.{h,cc}\<close>: a ring of slots whose constructed
  entries are the nodes of an AVL tree sorted by the IP address.  An entry knows its slot, which stands for
  its address.  The number of the slots is the length of the list.  \<open>None\<close> is an access outside of it or the removal
  of a node that is not in the tree.
\<close>

section \<open>The code\<close>

record arp_entry =
  ae_slot :: nat
  ae_ip :: ipv4_address
  ae_mac :: mac_address

definition arp_above :: "arp_entry \<Rightarrow> ipv4_address \<Rightarrow> bool" where
  "arp_above e ip = (case memcmp ip (ae_ip e) uint 4 of Some d \<Rightarrow> d > 0 | None \<Rightarrow> False)"

definition arp_higher :: "arp_entry \<Rightarrow> arp_entry \<Rightarrow> bool" where
  "arp_higher this entry = arp_above this (ae_ip entry)"

record arp_cache =
  ac_tree :: "arp_entry tree"
  ac_entries :: "arp_entry option list"
  ac_curr :: nat

definition arp_cache_new :: "nat \<Rightarrow> arp_cache" where
  "arp_cache_new n = \<lparr> ac_tree = Leaf, ac_entries = replicate n None, ac_curr = 0 \<rparr>"

text \<open>\<open>find_by_ip\<close>; \<open>None\<close> is \<open>No_match\<close>.\<close>

definition arp_find :: "ipv4_address \<Rightarrow> arp_cache \<Rightarrow> arp_entry option" where
  "arp_find ip c = tree_find (\<lambda>e. net_address_eq 4 ip (ae_ip e)) (\<lambda>e. arp_above e ip) (ac_tree c)"

definition arp_new_entry :: "ipv4_address \<Rightarrow> mac_address \<Rightarrow> arp_cache \<Rightarrow> arp_cache option" where
  "arp_new_entry ip mac c =
     (let i = ac_curr c; e = \<lparr> ae_slot = i, ae_ip = ip, ae_mac = mac \<rparr> in
      if i \<ge> length (ac_entries c) then None
      else do {
        t \<leftarrow> (case ac_entries c ! i of None \<Rightarrow> Some (ac_tree c) | Some old \<Rightarrow> tree_remove arp_higher old (ac_tree c));
        Some \<lparr> ac_tree = tree_insert arp_higher e t, ac_entries = (ac_entries c)[i := Some e],
          ac_curr = (if i < length (ac_entries c) - 1 then i + 1 else 0) \<rparr> })"

fun destroy_from :: "nat \<Rightarrow> mac_address \<Rightarrow> arp_cache \<Rightarrow> arp_cache option" where
  "destroy_from 0 mac c = Some c"
| "destroy_from (Suc n) mac c =
     (let i = length (ac_entries c) - Suc n in
      case ac_entries c ! i of
        None \<Rightarrow> destroy_from n mac c
      | Some e \<Rightarrow>
          if \<not> net_address_eq 6 (ae_mac e) mac then destroy_from n mac c
          else do {
            t \<leftarrow> tree_remove arp_higher e (ac_tree c);
            destroy_from n mac (c\<lparr> ac_tree := t, ac_entries := (ac_entries c)[i := None] \<rparr>) })"

definition destroy_entries_with_mac :: "mac_address \<Rightarrow> arp_cache \<Rightarrow> arp_cache option" where
  "destroy_entries_with_mac mac c = destroy_from (length (ac_entries c)) mac c"

text \<open>How the router learns from a reply: an entry that exists is kept.\<close>

definition arp_learn :: "ipv4_address \<Rightarrow> mac_address \<Rightarrow> arp_cache \<Rightarrow> arp_cache option" where
  "arp_learn ip mac c = (case arp_find ip c of Some e \<Rightarrow> Some c | None \<Rightarrow> arp_new_entry ip mac c)"


section \<open>The map of a cache\<close>

definition entry_ok :: "arp_entry \<Rightarrow> bool" where
  "entry_ok e \<longleftrightarrow> ip_ok (ae_ip e) \<and> length (ae_mac e) = 6"

interpretation arp: search_tree arp_higher "\<lambda>ip e. net_address_eq 4 ip (ae_ip e)" "\<lambda>ip e. arp_above e ip"
    "\<lambda>e. octets_num (ae_ip e)" octets_num entry_ok "\<lambda>ip. ip_ok ip"
proof unfold_locales
  fix x n
  assume "entry_ok x" "entry_ok n"
  then show "arp_higher x n \<longleftrightarrow> octets_num (ae_ip x) < octets_num (ae_ip n)"
    using memcmp_num [of "ae_ip n" 4 "ae_ip x"] by (auto simp: arp_higher_def arp_above_def entry_ok_def)
next
  fix x q
  assume "entry_ok x" "ip_ok q"
  then show "net_address_eq 4 q (ae_ip x) \<longleftrightarrow> octets_num q = octets_num (ae_ip x)"
    by (simp add: address_eq_list octets_num_inj entry_ok_def)
next
  fix x q
  assume "entry_ok x" "ip_ok q"
  then show "arp_above x q \<longleftrightarrow> octets_num (ae_ip x) < octets_num q"
    using memcmp_num [of q 4 "ae_ip x"] by (auto simp: arp_above_def entry_ok_def)
qed

definition slots :: "arp_entry option list \<Rightarrow> arp_entry set" where
  "slots es = {e. \<exists>i < length es. es ! i = Some e}"

definition cache_ok :: "arp_cache \<Rightarrow> bool" where
  "cache_ok c \<longleftrightarrow> tree_ok (\<lambda>e. octets_num (ae_ip e)) entry_ok (ac_tree c) \<and> distinct (inorder (ac_tree c))
     \<and> tree_set (ac_tree c) = slots (ac_entries c)
     \<and> (\<forall>i e. i < length (ac_entries c) \<and> ac_entries c ! i = Some e \<longrightarrow> ae_slot e = i)
     \<and> inj_on ae_ip (slots (ac_entries c)) \<and> ac_curr c < length (ac_entries c)"

definition cache_map :: "arp_cache \<Rightarrow> ipv4_address \<rightharpoonup> mac_address" where
  "cache_map c ip = (if \<exists>e \<in> slots (ac_entries c). ae_ip e = ip
     then Some (ae_mac (THE e. e \<in> slots (ac_entries c) \<and> ae_ip e = ip)) else None)"

lemma cache_okD:
  assumes "cache_ok c"
  shows "tree_ok (\<lambda>e. octets_num (ae_ip e)) entry_ok (ac_tree c)" "distinct (inorder (ac_tree c))"
    "tree_set (ac_tree c) = slots (ac_entries c)" "inj_on ae_ip (slots (ac_entries c))" "ac_curr c < length (ac_entries c)"
    "i < length (ac_entries c) \<Longrightarrow> ac_entries c ! i = Some e \<Longrightarrow> ae_slot e = i"
    "e \<in> slots (ac_entries c) \<Longrightarrow> entry_ok e"
  using assms by (auto simp: cache_ok_def tree_ok_def)

lemma cache_map_Some: "inj_on ae_ip (slots (ac_entries c)) \<Longrightarrow> cache_map c ip = Some mac \<longleftrightarrow> (\<exists>e \<in> slots (ac_entries c). ae_ip e = ip \<and> ae_mac e = mac)"
proof -
  assume inj: "inj_on ae_ip (slots (ac_entries c))"
  have "(THE e. e \<in> slots (ac_entries c) \<and> ae_ip e = ip) = e" if "e \<in> slots (ac_entries c)" "ae_ip e = ip" for e
    using that inj by (auto simp: inj_on_def)
  then show ?thesis by (auto simp: cache_map_def)
qed

lemma cache_map_None: "cache_map c ip = None \<longleftrightarrow> (\<forall>e \<in> slots (ac_entries c). ae_ip e \<noteq> ip)"
  by (auto simp: cache_map_def)

lemma find_map:
  assumes ok: "cache_ok c" and ip: "ip_ok ip"
  shows "map_option ae_mac (arp_find ip c) = cache_map c ip"
proof (cases "arp_find ip c")
  case None
  have "ae_ip e \<noteq> ip" if "e \<in> slots (ac_entries c)" for e
    using arp.find_None [OF cache_okD(1) [OF ok] ip None [unfolded arp_find_def], of e] that cache_okD(3) [OF ok] by auto
  then have "cache_map c ip = None" by (simp add: cache_map_None)
  then show ?thesis using None by simp
next
  case (Some e)
  note f = arp.find_Some [OF cache_okD(1) [OF ok] ip Some [unfolded arp_find_def]]
  have e: "e \<in> slots (ac_entries c)" using f(1) cache_okD(3) [OF ok] by simp
  then have "ae_ip e = ip" using f(2) cache_okD(7) [OF ok e] ip by (simp add: octets_num_inj entry_ok_def)
  then show ?thesis using e Some cache_map_Some [OF cache_okD(4) [OF ok], of ip "ae_mac e"] by auto
qed

lemma slots_update: "i < length es \<Longrightarrow> slots (es[i := v]) = {e. v = Some e} \<union> {e. \<exists>j < length es. j \<noteq> i \<and> es ! j = Some e}"
  by (auto simp: slots_def nth_list_update split: if_splits)

text \<open>Taking the entry out of a slot.\<close>

lemma slot_cleared:
  assumes ok: "cache_ok c" and i: "i < length (ac_entries c)" "ac_entries c ! i = Some e"
  shows "\<exists>t. tree_remove arp_higher e (ac_tree c) = Some t
    \<and> cache_ok (c\<lparr> ac_tree := t, ac_entries := (ac_entries c)[i := None] \<rparr>)
    \<and> slots ((ac_entries c)[i := None]) = slots (ac_entries c) - {e}"
proof -
  have e: "e \<in> tree_set (ac_tree c)" using i cache_okD(3) [OF ok] by (auto simp: slots_def)
  obtain t where t: "tree_remove arp_higher e (ac_tree c) = Some t" "tree_ok (\<lambda>e. octets_num (ae_ip e)) entry_ok t"
    "distinct (inorder t)" "tree_set t = tree_set (ac_tree c) - {e}"
    using arp.removed [OF e cache_okD(1,2) [OF ok]] by blast
  have only: "j = i" if "j < length (ac_entries c)" "ac_entries c ! j = Some e" for j
    using cache_okD(6) [OF ok that] cache_okD(6) [OF ok i] by simp
  have s: "slots ((ac_entries c)[i := None]) = slots (ac_entries c) - {e}"
  proof (rule set_eqI)
    fix x
    have "x \<in> slots ((ac_entries c)[i := None]) \<longleftrightarrow> (\<exists>j < length (ac_entries c). j \<noteq> i \<and> ac_entries c ! j = Some x)"
      unfolding slots_update [OF i(1)] by simp
    also have "\<dots> \<longleftrightarrow> x \<in> slots (ac_entries c) \<and> x \<noteq> e"
      using i(2) only by (auto simp: slots_def)
    finally show "x \<in> slots ((ac_entries c)[i := None]) \<longleftrightarrow> x \<in> slots (ac_entries c) - {e}" by simp
  qed
  have "cache_ok (c\<lparr> ac_tree := t, ac_entries := (ac_entries c)[i := None] \<rparr>)"
    unfolding cache_ok_def
  proof (intro conjI allI impI)
    fix j x
    assume "j < length (ac_entries (c\<lparr> ac_tree := t, ac_entries := (ac_entries c)[i := None] \<rparr>))
      \<and> ac_entries (c\<lparr> ac_tree := t, ac_entries := (ac_entries c)[i := None] \<rparr>) ! j = Some x"
    then show "ae_slot x = j" using cache_okD(6) [OF ok, of j x] by (cases "j = i") auto
  qed (use t s cache_okD(3-5) [OF ok] in \<open>simp_all add: inj_on_diff\<close>)
  then show ?thesis using t(1) s by blast
qed

lemma slot_filled:
  assumes ok: "cache_ok c" and i: "i < length (ac_entries c)" "ac_entries c ! i = None"
    and e: "entry_ok e" "ae_slot e = i" "\<forall>x \<in> slots (ac_entries c). ae_ip x \<noteq> ae_ip e" and j: "j < length (ac_entries c)"
  shows "cache_ok \<lparr> ac_tree = tree_insert arp_higher e (ac_tree c), ac_entries = (ac_entries c)[i := Some e], ac_curr = j \<rparr>"
    and "slots ((ac_entries c)[i := Some e]) = insert e (slots (ac_entries c))"
proof -
  show s: "slots ((ac_entries c)[i := Some e]) = insert e (slots (ac_entries c))"
    unfolding slots_update [OF i(1)] using i(2) by (auto simp: slots_def)
  have "e \<notin> tree_set (ac_tree c)" using e(3) cache_okD(3) [OF ok] by auto
  then have "tree_ok (\<lambda>e. octets_num (ae_ip e)) entry_ok (tree_insert arp_higher e (ac_tree c))"
    "distinct (inorder (tree_insert arp_higher e (ac_tree c)))"
    "tree_set (tree_insert arp_higher e (ac_tree c)) = insert e (tree_set (ac_tree c))"
    using cache_okD [OF ok] e(1) arp.inserted_ok arp.insert_distinct arp.insert_set by auto
  moreover have "inj_on ae_ip (insert e (slots (ac_entries c)))"
    using e(3) cache_okD(4) [OF ok] by (auto simp: inj_on_def)
  ultimately show "cache_ok \<lparr> ac_tree = tree_insert arp_higher e (ac_tree c), ac_entries = (ac_entries c)[i := Some e], ac_curr = j \<rparr>"
    unfolding cache_ok_def
  proof (intro conjI allI impI)
    fix k x
    assume "k < length (ac_entries \<lparr> ac_tree = tree_insert arp_higher e (ac_tree c), ac_entries = (ac_entries c)[i := Some e], ac_curr = j \<rparr>)
      \<and> ac_entries \<lparr> ac_tree = tree_insert arp_higher e (ac_tree c), ac_entries = (ac_entries c)[i := Some e], ac_curr = j \<rparr> ! k = Some x"
    then show "ae_slot x = k" using cache_okD(6) [OF ok, of k x] e(2) by (cases "k = i") auto
  qed (use s j cache_okD(3) [OF ok] in simp_all)
qed


lemma cache_map_eqI:
  assumes ok: "cache_ok c" and "\<And>ip mac. m ip = Some mac \<longleftrightarrow> (\<exists>e \<in> slots (ac_entries c). ae_ip e = ip \<and> ae_mac e = mac)"
  shows "cache_map c = m"
proof (rule ext)
  fix ip
  have "cache_map c ip = Some mac \<longleftrightarrow> m ip = Some mac" for mac
    using cache_map_Some [OF cache_okD(4) [OF ok]] assms(2) by simp
  then show "cache_map c ip = m ip" by (metis not_None_eq)
qed

definition evicted :: "arp_cache \<Rightarrow> ipv4_address \<rightharpoonup> mac_address" where
  "evicted c = (case ac_entries c ! ac_curr c of None \<Rightarrow> cache_map c | Some old \<Rightarrow> (cache_map c)(ae_ip old := None))"

lemma new_entry_ok:
  assumes ok: "cache_ok c" and ip: "ip_ok ip" "length mac = 6" and new: "cache_map c ip = None"
  shows "\<exists>c'. arp_new_entry ip mac c = Some c' \<and> cache_ok c' \<and> length (ac_entries c') = length (ac_entries c)
    \<and> cache_map c' = (evicted c)(ip \<mapsto> mac)"
proof -
  define i where "i = ac_curr c"
  define e where "e = \<lparr> ae_slot = i, ae_ip = ip, ae_mac = mac \<rparr>"
  define j where "j = (if i < length (ac_entries c) - 1 then i + 1 else 0)"
  have i: "i < length (ac_entries c)" using cache_okD(5) [OF ok] by (simp add: i_def)
  have j: "j < length (ac_entries c)" using i by (auto simp: j_def)
  obtain d where d: "cache_ok d" "ac_entries d = (ac_entries c)[i := None]"
    "slots (ac_entries d) = (case ac_entries c ! i of None \<Rightarrow> slots (ac_entries c) | Some old \<Rightarrow> slots (ac_entries c) - {old})"
    "arp_new_entry ip mac c = Some \<lparr> ac_tree = tree_insert arp_higher e (ac_tree d), ac_entries = (ac_entries d)[i := Some e], ac_curr = j \<rparr>"
  proof (cases "ac_entries c ! i")
    case None
    then have "(ac_entries c)[i := None] = ac_entries c" using i by (metis list_update_id)
    then show ?thesis using that [of c] ok None i
      by (simp add: arp_new_entry_def Let_def i_def [symmetric] e_def [symmetric] j_def)
  next
    case (Some old)
    obtain t where t: "tree_remove arp_higher old (ac_tree c) = Some t"
      "cache_ok (c\<lparr> ac_tree := t, ac_entries := (ac_entries c)[i := None] \<rparr>)"
      "slots ((ac_entries c)[i := None]) = slots (ac_entries c) - {old}"
      using slot_cleared [OF ok i Some] by blast
    then show ?thesis using that [of "c\<lparr> ac_tree := t, ac_entries := (ac_entries c)[i := None] \<rparr>"] Some i
      by (simp add: arp_new_entry_def Let_def i_def [symmetric] e_def [symmetric] j_def)
  qed
  have len: "length (ac_entries d) = length (ac_entries c)" using d(2) by simp
  have sub: "slots (ac_entries d) \<subseteq> slots (ac_entries c)" using d(3) by (auto split: option.splits)
  have fresh: "\<forall>x \<in> slots (ac_entries d). ae_ip x \<noteq> ae_ip e" using new sub by (auto simp: cache_map_None e_def)
  have e: "entry_ok e" "ae_slot e = i" using ip by (simp_all add: entry_ok_def e_def)
  have none: "ac_entries d ! i = None" using d(2) i by simp
  let ?c = "\<lparr> ac_tree = tree_insert arp_higher e (ac_tree d), ac_entries = (ac_entries d)[i := Some e], ac_curr = j \<rparr>"
  have filled: "cache_ok ?c" "slots (ac_entries ?c) = insert e (slots (ac_entries d))"
    using slot_filled [OF d(1) _ none e fresh, of j] i j len by simp_all
  have "cache_map ?c = (evicted c)(ip \<mapsto> mac)"
  proof (rule cache_map_eqI [OF filled(1)])
    fix ip' mac'
    note m = cache_map_Some [OF cache_okD(4) [OF ok], of ip' mac']
    have other: "x = y" if "x \<in> slots (ac_entries c)" "y \<in> slots (ac_entries c)" "ae_ip x = ae_ip y" for x y
      using that cache_okD(4) [OF ok] by (auto simp: inj_on_def)
    show "((evicted c)(ip \<mapsto> mac)) ip' = Some mac' \<longleftrightarrow> (\<exists>x \<in> slots (ac_entries ?c). ae_ip x = ip' \<and> ae_mac x = mac')"
    proof (cases "ip' = ip")
      case True
      then show ?thesis unfolding filled(2) using fresh by (auto simp: e_def)
    next
      case False
      then have "(\<exists>x \<in> slots (ac_entries ?c). ae_ip x = ip' \<and> ae_mac x = mac') \<longleftrightarrow> (\<exists>x \<in> slots (ac_entries d). ae_ip x = ip' \<and> ae_mac x = mac')"
        unfolding filled(2) by (auto simp: e_def)
      also have "\<dots> \<longleftrightarrow> evicted c ip' = Some mac'"
      proof (cases "ac_entries c ! i")
        case None
        then show ?thesis using d(3) m by (simp add: evicted_def i_def [symmetric])
      next
        case (Some old)
        have "old \<in> slots (ac_entries c)" using Some i by (auto simp: slots_def)
        then show ?thesis using d(3) m Some other [of _ old] by (auto simp: evicted_def i_def [symmetric])
      qed
      finally show ?thesis using False by simp
    qed
  qed
  then show ?thesis using d(4) filled(1) len by auto
qed

lemma destroy_from_ok:
  "cache_ok c \<Longrightarrow> n \<le> length (ac_entries c) \<Longrightarrow> length mac = 6 \<Longrightarrow>
     \<exists>c'. destroy_from n mac c = Some c' \<and> cache_ok c' \<and> length (ac_entries c') = length (ac_entries c)
       \<and> slots (ac_entries c') = {e \<in> slots (ac_entries c). \<not> (length (ac_entries c) - n \<le> ae_slot e \<and> ae_mac e = mac)}"
proof (induction n arbitrary: c)
  case 0
  have "ae_slot e < length (ac_entries c)" if "e \<in> slots (ac_entries c)" for e
    using that cache_okD(6) [OF 0(1)] by (auto simp: slots_def)
  then have "{e \<in> slots (ac_entries c). \<not> (length (ac_entries c) \<le> ae_slot e \<and> ae_mac e = mac)} = slots (ac_entries c)"
    by (fastforce dest: leD)
  then show ?case using 0 by simp
next
  case (Suc n)
  define i where "i = length (ac_entries c) - Suc n"
  have i: "i < length (ac_entries c)" "length (ac_entries c) - n = Suc i" using Suc.prems(2) by (auto simp: i_def)
  have at: "ac_entries c ! i = Some e" if "e \<in> slots (ac_entries c)" "ae_slot e = i" for e
    using that cache_okD(6) [OF Suc.prems(1)] by (auto simp: slots_def)
  have later: "i \<le> ae_slot e \<longleftrightarrow> ae_slot e = i \<or> Suc i \<le> ae_slot e" for e by auto
  show ?case
  proof (cases "ac_entries c ! i")
    case None
    have "{e \<in> slots (ac_entries c). \<not> (Suc i \<le> ae_slot e \<and> ae_mac e = mac)} = {e \<in> slots (ac_entries c). \<not> (i \<le> ae_slot e \<and> ae_mac e = mac)}"
      unfolding later using None at by auto
    then show ?thesis using Suc.IH [OF Suc.prems(1) _ Suc.prems(3)] Suc.prems(2) None i(2)
      by (simp add: i_def [symmetric])
  next
    case (Some e)
    have es: "e \<in> slots (ac_entries c)" "ae_slot e = i" using Some i cache_okD(6) [OF Suc.prems(1) i(1) Some] by (auto simp: slots_def)
    have eq: "net_address_eq 6 (ae_mac e) mac \<longleftrightarrow> ae_mac e = mac"
      using cache_okD(7) [OF Suc.prems(1) es(1)] Suc.prems(3) by (simp add: address_eq_list entry_ok_def)
    have me: "x = e" if "x \<in> slots (ac_entries c)" "ae_slot x = i" for x using at [OF that] Some by simp
    show ?thesis
    proof (cases "ae_mac e = mac")
      case False
      have "{x \<in> slots (ac_entries c). \<not> (Suc i \<le> ae_slot x \<and> ae_mac x = mac)} = {x \<in> slots (ac_entries c). \<not> (i \<le> ae_slot x \<and> ae_mac x = mac)}"
        unfolding later using False me by auto
      then show ?thesis using Suc.IH [OF Suc.prems(1) _ Suc.prems(3)] Suc.prems(2) Some False eq i(2)
        by (simp add: i_def [symmetric])
    next
      case True
      obtain t where t: "tree_remove arp_higher e (ac_tree c) = Some t"
        "cache_ok (c\<lparr> ac_tree := t, ac_entries := (ac_entries c)[i := None] \<rparr>)"
        "slots ((ac_entries c)[i := None]) = slots (ac_entries c) - {e}"
        using slot_cleared [OF Suc.prems(1) i(1) Some] by blast
      have "{x \<in> slots (ac_entries c) - {e}. \<not> (Suc i \<le> ae_slot x \<and> ae_mac x = mac)} = {x \<in> slots (ac_entries c). \<not> (i \<le> ae_slot x \<and> ae_mac x = mac)}"
        unfolding later using True me es by blast
      then show ?thesis using Suc.IH [OF t(2) _ Suc.prems(3)] Suc.prems(2) Some True eq i(2) t(1,3)
        by (simp add: i_def [symmetric])
    qed
  qed
qed


section \<open>Properties\<close>


lemma arp_cache_new_ok: "0 < n \<Longrightarrow> cache_ok (arp_cache_new n)"
proof -
  have "slots (replicate n None) = {}" by (auto simp: slots_def)
  then show "0 < n \<Longrightarrow> cache_ok (arp_cache_new n)" by (auto simp: cache_ok_def arp_cache_new_def)
qed


end
