(* ===== verification/Spec2Isabelle.thy ===== *)
theory Spec2Isabelle
  imports Avl_Properties Allocator_Properties Bit_Array Cpu_Scheduler_Correct Semaphore Quota Id_Space Registry Ring_Buffer Arg_Strings_Correct Text_Buffers Signals_Correct Ipc_Correct Slab_Correct Kernel_Timer Page_Table_Properties Packet_Stream Packet_Allocator Net_Packets
    Router_Links_Correct Arp_Cache
begin

text \<open>
  A verification library for the Genode OS framework.

  The program.  Genode builds an operating system from components.  Its foundation is the base
  library (\<open>src/repos/base\<close>), with the containers, allocators, quota accounting and text utilities
  that every component and the kernel use; on some platforms, it runs on a kernel of its own
  (\<open>src/repos/base-hw/src/core/kernel\<close>), which schedules threads, transfers messages and
  capabilities between protection domains and delivers signals; the operating-system layer
  (\<open>src/repos/os\<close>) adds the interfaces and servers on top.  The development models the logic of
  the base library and of the kernel, each part by a theory or a group of theories that
  translate the C++ code function by function, and a group of theorems.

  The conventions of the models (\<open>Genode_Prelude\<close>).  Machine integers are words of their width on
  a 64-bit target, so all arithmetic wraps around as in the code.  An object is a record, the
  state of several objects a record of functions from their names to their members, an operation
  a function from the old state to the result and the new state.  An exception is a value of a sum
  or option type.  An access the code must not make (through a null or dangling pointer, behind an
  array) is the result \<open>None\<close>, and the theorems show that it does not happen.  Intrusive lists
  and queues are modelled by their link fields once, in \<open>Linked_Lists\<close> and \<open>Double_List\<close>, which
  show that they behave as sequences; their clients are then modelled with lists.  The objects
  of an AVL tree are named by the objects' place in the tree, which \<open>Avl_Contents\<close> relates to the
  sequence of the elements.

  Containers and allocators (base library).
  \<^item> \<open>Misc_Math\<close>: alignment and logarithm of \<open>util/misc_math.h\<close>.
  \<^item> \<open>Avl_Tree\<close>, \<open>Avl_Balance\<close>, \<open>Avl_Contents\<close>, \<open>Avl_Properties\<close>: \<open>util/avl_tree.h\<close> and
    \<open>avl_tree.cc\<close>: insertion, removal, rotation, cached depths and the recompute hook.  What the
    operations do to the sequence of the elements is proved in the locale of a client's order; the
    balance is an invariant of insertion, and removal is shown to lose it.
  \<^item> \<open>Allocator_Avl\<close> and the \<open>Allocator_\<close> theories: the range allocator of \<open>allocator_avl.{h,cc}\<close>,
    with the failures of the meta-data slab as an oracle argument.  \<open>Allocator_Spec\<close> is the abstract
    specification over sets of blocks, \<open>Allocator_Ops\<close>, \<open>Allocator_Ranges\<close> and \<open>Allocator_Remove\<close>
    show that each operation implements it on success and on every failure, and
    \<open>Allocator_Invariant\<close> that the invariant holds after any sequence of operations.
  \<^item> \<open>Bit_Array\<close>: \<open>util/bit_array.h\<close> and \<open>util/bit_allocator.h\<close>.
  \<^item> \<open>Linked_Lists\<close>: \<open>util/list.h\<close> and \<open>util/fifo.h\<close>.  \<open>Id_Space\<close>: \<open>base/id_space.h\<close>, which is
    shown to be a map.  \<open>Registry\<close>: \<open>base/registry.h\<close>.  \<open>Ring_Buffer\<close>: \<open>os/ring_buffer.h\<close>.
  \<^item> \<open>Semaphore\<close>: \<open>base/semaphore.h\<close>, whose critical sections are the steps.  \<open>Quota\<close>:
    \<open>base/quota_guard.h\<close>, \<open>base/quota_transfer.h\<close> and \<open>base/allocator_guard.h\<close>.

  \<^item> \<open>Slab\<close>, \<open>Slab_Correct\<close>: \<open>base/slab.h\<close> and \<open>slab.cc\<close>: blocks of equal slots in a ring, with the backing
    store as a parameter that may call the slab again, as it does in core.
  \<^item> \<open>Registers\<close>: the bitfields and bitsets of \<open>util/register.h\<close>, for every width.

  Text (base library).
  \<^item> \<open>Memory_Strings\<close>, \<open>Number_Text\<close>, \<open>Number_Round_Trip\<close>, \<open>Text_Buffers\<close>: \<open>util/string.h\<close> and
    \<open>base/internal/output.h\<close>: copying, comparison, parsing and printing, with round trips.
  \<^item> \<open>Tokens\<close>, \<open>Tokens_Correct\<close>: the tokenizer of \<open>util/token.h\<close> for any scanner policy.
    \<open>Arg_Strings\<close>, \<open>Arg_Strings_Correct\<close>: the session arguments of \<open>util/arg_string.h\<close>.

  The kernel (\<open>base-hw/src/core/kernel\<close>).
  \<^item> \<open>Double_List\<close>: \<open>double_list.{h,cc}\<close>.  \<open>Cpu_Scheduler\<close>, \<open>Cpu_Scheduler_Correct\<close>:
    \<open>cpu_scheduler.{h,cc}\<close>, with the invariant of all reachable states and the choice of the head.
  \<^item> \<open>Signals\<close>, \<open>Signals_Correct\<close>: \<open>signal_receiver.{h,cc}\<close>, a state machine whose invariant
    excludes lost wakeups, and the conservation of submits.
  \<^item> \<open>Kernel_Caps\<close>: identities, references and capability numbers of \<open>object.{h,cc}\<close>, on top of the
    bit allocator.  \<open>Ipc_Transfer\<close>: the transfer of a message and the translation of its
    capabilities (\<open>native_utcb.h\<close>, \<open>copy_msg\<close>).  \<open>Ipc\<close>, \<open>Ipc_Correct\<close>: the state machine of
    \<open>ipc_node.{h,cc}\<close>; a waiting caller is pending once, every wait ends once, and
    the search for the helped thread ends if no threads wait for each other in a circle.
  \<^item> \<open>Kernel_Timer\<close>: \<open>timer.{h,cc}\<close>: the time wraps around, and exactly the timeouts that are due fire.

  Page tables (\<open>base-hw/src/lib/hw\<close>).  \<open>Page_Table\<close> models \<open>spec/x86_64/page_table.h\<close> and
  \<open>page_table_allocator.h\<close> over an explicit store of tables.  \<open>Page_Table_Spec\<close> specifies the walk of the
  hardware, independently of the code's descriptor fields, and the contracts of insertion and removal
  over it; \<open>Page_Table_Memory\<close> is the allocator of tables.  \<open>Page_Table_Levels\<close> has two interfaces as
  locales, a table as its directory sees it and an entry as the loop over a range sees it, and proves
  the loop once for all levels; \<open>Page_Table_Entries\<close> proves the entries over any next level;
  \<open>Page_Table_Correct\<close> interprets the locales for the four levels.  \<open>Page_Table_Properties\<close> adds the retry
  of core (\<open>core/platform_pd.cc\<close>) and holds the properties.

  Packet streams (\<open>os/include/os\<close>).  \<open>Packet_Queue\<close>: the descriptor queue of \<open>packet_stream.h\<close> in shared
  memory, shown to be a ring buffer, and the check of a descriptor.  \<open>Packet_Stream\<close>: the flow control as a
  state machine of a transmitter and a receiver, a FIFO without lost wakeups.  \<open>Packet_Allocator\<close>:
  \<open>packet_allocator.h\<close> over the bit array, and the packets of a source, which are disjoint and valid.

  Network (\<open>os/include/net\<close>, \<open>os/src/lib/net\<close>).  \<open>Net_Address\<close>: IPv4 addresses and prefixes.  \<open>Net_Checksum\<close>:
  the Internet checksum, which is proved to be the ones' complement sum in network order.  \<open>Net_Packets\<close>:
  the headers of Ethernet, ARP, IPv4, UDP, TCP and ICMP over the octets of a packet, and their checksums.

  NIC router (\<open>os/src/server/nic_router\<close>).  \<open>Search_Tree\<close>: the AVL trees of the router behind the locale
  \<open>search_tree\<close>, which each table interprets with its own keys.  \<open>Router_Rules\<close>: the rules of a domain
  and the longest-prefix match.  \<open>Router_Ports\<close>: the ports for the translation of addresses over the bit
  allocator, and the guards of the NAT rules.  \<open>Router_Links\<close>, \<open>Router_Links_Correct\<close>: the links of connections
  from their creation to their end, with the invariant over the trees, lists and ports, and the closing of TCP
  links.  \<open>Arp_Cache\<close>: the cache as a finite map; its number of slots, which depends on the size of an
  entry, is a parameter.  \<open>Octet_Order\<close>: the order of \<open>memcmp\<close> as an order of numbers.

  Loops and fuel.  Loops are structural recursions where there is a list to go through, and
  functions with a measure otherwise.  A loop that may not end is a partial function
  (\<open>helping_sink\<close>, the removal of a range from the allocator, the retry of an insertion into a page
  table) with a theorem that it returns.

  What is not modelled, and why.  Assembly, device access and interrupt entry (the semantics of the
  hardware is not in the repository; of the memory-management unit the walk through the tables is
  modelled, the cache of translations is not); the templates of the RPC framework and the
  session interfaces, which are glue without state; floating-point text; the drivers, servers and
  applications of the operating-system layer other than the parts of the NIC router above (its packet handlers,
  DHCP and the parsing of the configuration are not modelled) and the ported and emulated third-party code
  (\<open>libports\<close>, \<open>ports\<close>, \<open>dde_linux\<close>, \<open>dde_ipxe\<close>, \<open>dde_rump\<close>, \<open>gems\<close>, \<open>demo\<close>); the other base
  platforms, which wrap kernels that are not in the repository.  Concurrency inside the base library
  is modelled by critical sections, not at the level of memory accesses.
\<close>

end
